(* ===== verification/Prelude.thy ===== *)
theory Prelude
  imports Main "HOL-Library.Word"
begin

text \<open>
  Shared vocabulary of the development: the outcome of a kernel path, the scan of a
  table for its first matching entry, and the generic facts the components rely on.

  A C function that can stop the machine is modelled by a function into
  \<open>'a res\<close>: \<open>Ok\<close> (it returned), \<open>Panic\<close> (it called \<open>panic\<close> with that message) or
  \<open>Block\<close> (it gave up the CPU: it spins on a lock another CPU holds, or sleeps on a
  channel, and what happens next depends on other kernel threads).
\<close>

section \<open>Outcomes of a kernel path\<close>

datatype 'a res = Ok 'a | Panic string | Block

primrec bnd :: "'a res \<Rightarrow> ('a \<Rightarrow> 'b res) \<Rightarrow> 'b res" where
  "bnd (Ok x) f = f x"
| "bnd (Panic m) f = Panic m"
| "bnd Block f = Block"

primrec is_ok :: "'a res \<Rightarrow> bool" where
  "is_ok (Ok x) = True"
| "is_ok (Panic m) = False"
| "is_ok Block = False"

lemma bnd_cong [fundef_cong]:
  "x = y \<Longrightarrow> (\<And>v. y = Ok v \<Longrightarrow> f v = g v) \<Longrightarrow> bnd x f = bnd y g"
  by (cases y) auto

lemma bnd_assoc: "bnd (bnd x f) g = bnd x (\<lambda>v. bnd (f v) g)"
  by (cases x) auto

lemma bnd_right [simp]: "bnd x Ok = x"
  by (cases x) auto

lemma bnd_Ok_iff: "bnd x f = Ok y \<longleftrightarrow> (\<exists>v. x = Ok v \<and> f v = Ok y)"
  by (cases x) auto

lemma bnd_OkE [elim!]:
  assumes "bnd x f = Ok y"
  obtains v where "x = Ok v" and "f v = Ok y"
  using assms by (cases x) auto

section \<open>Scanning a table\<close>

text \<open>
  The C code looks for a table entry with the same loop everywhere
  (\<open>for(p = table; p < &table[N]; p++) if(cond) ...\<close>): the first index whose entry
  satisfies the condition, if there is one.
\<close>

primrec find_idx :: "('a \<Rightarrow> bool) \<Rightarrow> 'a list \<Rightarrow> nat option" where
  "find_idx P [] = None"
| "find_idx P (x # xs) = (if P x then Some 0 else map_option Suc (find_idx P xs))"

lemma find_idx_None: "find_idx P xs = None \<longleftrightarrow> (\<forall>x \<in> set xs. \<not> P x)"
  by (induction xs) auto

lemma find_idx_SomeD:
  "find_idx P xs = Some i \<Longrightarrow> i < length xs \<and> P (xs ! i) \<and> (\<forall>j < i. \<not> P (xs ! j))"
proof (induction xs arbitrary: i)
  case Nil
  then show ?case by simp
next
  case (Cons x xs)
  then show ?case by (auto simp: less_Suc_eq_0_disj nth_Cons split: if_splits nat.splits)
qed

lemma find_idx_Some_lt: "find_idx P xs = Some i \<Longrightarrow> i < length xs"
  by (simp add: find_idx_SomeD)

lemma find_idx_SomeI:
  "i < length xs \<Longrightarrow> P (xs ! i) \<Longrightarrow> \<forall>j < i. \<not> P (xs ! j) \<Longrightarrow> find_idx P xs = Some i"
proof (induction xs arbitrary: i)
  case Nil
  then show ?case by simp
next
  case (Cons x xs)
  show ?case
  proof (cases i)
    case 0
    with Cons.prems show ?thesis by simp
  next
    case (Suc k)
    with Cons.prems have "\<not> P x" and "k < length xs" and "P (xs ! k)"
      by auto
    moreover from Cons.prems(3) Suc have "\<forall>j < k. \<not> P (xs ! j)"
      by (metis Suc_mono nth_Cons_Suc)
    ultimately show ?thesis
      using Cons.IH Suc by simp
  qed
qed

lemma find_idx_Some_iff:
  "find_idx P xs = Some i \<longleftrightarrow> i < length xs \<and> P (xs ! i) \<and> (\<forall>j < i. \<not> P (xs ! j))"
  using find_idx_SomeD find_idx_SomeI by blast

lemma find_idx_same:
  assumes "\<And>i. i < length xs \<and> P (xs ! i) \<longleftrightarrow> i < length ys \<and> Q (ys ! i)"
  shows "find_idx P xs = find_idx Q ys"
proof (cases "find_idx P xs")
  case None
  then have "\<not> Q (ys ! i)" if "i < length ys" for i using assms [of i] that by (auto simp: find_idx_None)
  then have "find_idx Q ys = None" by (auto simp: find_idx_None in_set_conv_nth)
  then show ?thesis using None by simp
next
  case (Some i)
  then have "i < length ys \<and> Q (ys ! i) \<and> (\<forall>j < i. \<not> Q (ys ! j))"
    unfolding find_idx_Some_iff using assms by (meson less_trans)
  then show ?thesis using Some find_idx_SomeI [of i ys Q] by simp
qed

section \<open>Filling a range of an array\<close>

text \<open>
  An array of the source that is written by a counting loop is a function on its indices;
  \<open>fill i n v a\<close> is the loop \<open>for(k = i; k < i + n; k++) a[k] = v;\<close>.
\<close>

fun fill :: "nat \<Rightarrow> nat \<Rightarrow> 'a \<Rightarrow> (nat \<Rightarrow> 'a) \<Rightarrow> nat \<Rightarrow> 'a" where
  "fill i 0 v a = a"
| "fill i (Suc n) v a = fill (Suc i) n v (a(i := v))"

lemma fill_apply [simp]: "fill i n v a k = (if i \<le> k \<and> k < i + n then v else a k)"
  by (induction i n v a arbitrary: k rule: fill.induct) auto

lemma fill_unfill:
  "\<forall>k. i \<le> k \<and> k < i + n \<longrightarrow> a k = w \<Longrightarrow> fill i n w (fill i n v a) = a"
  by (rule ext) auto

section \<open>Counting\<close>

lemma card_disjoint_family_ge:
  fixes A :: "nat \<Rightarrow> 'a set"
  assumes "\<And>i. i < n \<Longrightarrow> finite (A i)" and "\<And>i. i < n \<Longrightarrow> c \<le> card (A i)"
    and "\<And>i j. i < n \<Longrightarrow> j < n \<Longrightarrow> i \<noteq> j \<Longrightarrow> A i \<inter> A j = {}"
  shows "n * c \<le> card (\<Union>i < n. A i)"
proof -
  have "card (\<Union>i < n. A i) = (\<Sum>i < n. card (A i))"
    using assms(1,3) by (intro card_UN_disjoint) auto
  moreover have "(\<Sum>i < n. card (A i)) \<ge> (\<Sum>i < n. c)"
    using assms(2) by (intro sum_mono) auto
  ultimately show ?thesis by simp
qed

end
