(* ===== verification/Lab_Alloc.thy ===== *)
theory Lab_Alloc
  imports Prelude
begin

text \<open>
  The first-fit page allocator of \<open>Lab-Memory Management/malloc-code/alloc.c\<close>: one page
  obtained from \<open>mmap\<close>, a status word per byte (\<open>bit_stat\<close>) and a table of the blocks
  handed out. The array \<open>bit_stat\<close> is a function on its indices, the table a list of
  its 512 entries, an address is a natural number and \<open>NULL\<close> is 0. What \<open>mmap\<close> and
  \<open>munmap\<close> return is an argument.
\<close>

section \<open>Data and operations\<close>

abbreviation PAGESIZE :: nat where "PAGESIZE \<equiv> 4096"

record mem_info =
  start_addr :: nat
  mlength :: int
  alloc_or_not :: int

abbreviation no_block :: mem_info where
  "no_block \<equiv> \<lparr>start_addr = 0, mlength = 0, alloc_or_not = 0\<rparr>"

record alloc_st =
  page_start :: nat
  bit_stat :: "nat \<Rightarrow> int"
  table :: "mem_info list"

definition clear_tables :: "alloc_st \<Rightarrow> alloc_st" where
  "clear_tables s = s\<lparr>bit_stat := fill 0 PAGESIZE 0 (bit_stat s), table := map (\<lambda>_. no_block) (table s)\<rparr>"

definition init_alloc :: "nat \<Rightarrow> nat \<Rightarrow> alloc_st \<Rightarrow> int \<times> alloc_st" where
  "init_alloc map_failed mmap_ret s =
     (let s = s\<lparr>page_start := mmap_ret\<rparr> in
      if page_start s = map_failed then (-1, s) else (0, clear_tables s))"

definition cleanup :: "int \<Rightarrow> alloc_st \<Rightarrow> int \<times> alloc_st" where
  "cleanup munmap_ret s = (munmap_ret, clear_tables s)"

function scan_end :: "(nat \<Rightarrow> int) \<Rightarrow> nat \<Rightarrow> nat" where
  "scan_end b j =
     (if j < PAGESIZE then if b j = 1 then j - 1 else scan_end b (Suc j) else PAGESIZE - 1)"
  by pat_completeness auto
termination
  by (relation "measure (\<lambda>(b, j). PAGESIZE - j)") auto

declare scan_end.simps [simp del]

lemma scan_end_ge: "j \<le> PAGESIZE \<Longrightarrow> j - 1 \<le> scan_end b j \<and> scan_end b j \<le> PAGESIZE - 1"
proof (induction b j rule: scan_end.induct)
  case (1 b j)
  then show ?case
    by (subst (1 2) scan_end.simps) (auto split: if_splits)
qed

function alloc_loop :: "int \<Rightarrow> nat \<Rightarrow> alloc_st \<Rightarrow> nat \<times> alloc_st" where
  "alloc_loop sz i s =
     (if i < PAGESIZE then
        if bit_stat s i = 0 then
          let e = scan_end (bit_stat s) (i + 1) in
          if int e - int i + 1 \<ge> sz then
            case find_idx (\<lambda>t. alloc_or_not t = 0) (table s) of
              Some k \<Rightarrow>
                (page_start s + i,
                 s\<lparr>table := (table s)[k := \<lparr>start_addr = page_start s + i, mlength = sz, alloc_or_not = 1\<rparr>],
                   bit_stat := fill i (nat sz) 1 (bit_stat s)\<rparr>)
            | None \<Rightarrow> alloc_loop sz (e + 1) s
          else alloc_loop sz (e + 1) s
        else alloc_loop sz (i + 1) s
      else (0, s))"
  by pat_completeness auto
termination
proof (relation "measure (\<lambda>(sz, i, s). PAGESIZE - i)", goal_cases)
  case 1
  show ?case by simp
next
  case (2 sz i s e)
  then show ?case using scan_end_ge [of "i + 1" "bit_stat s"] by auto
next
  case (3 sz i s e)
  then show ?case using scan_end_ge [of "i + 1" "bit_stat s"] by auto
next
  case 4
  then show ?case by auto
qed

declare alloc_loop.simps [simp del]

definition alloc :: "int \<Rightarrow> alloc_st \<Rightarrow> nat \<times> alloc_st" where
  "alloc sz s = (if sz mod 8 \<noteq> 0 then (0, s) else alloc_loop sz 0 s)"

definition dealloc :: "nat \<Rightarrow> alloc_st \<Rightarrow> alloc_st" where
  "dealloc addr s =
     (case find_idx (\<lambda>t. start_addr t = addr) (table s) of
        Some i \<Rightarrow>
          s\<lparr>bit_stat := fill (addr - page_start s) (nat (mlength (table s ! i))) 0 (bit_stat s),
            table := (table s)[i := no_block]\<rparr>
      | None \<Rightarrow> s)"

section \<open>The scan for a hole\<close>

lemma scan_end_free: "0 < j \<Longrightarrow> j \<le> k \<Longrightarrow> k \<le> scan_end b j \<Longrightarrow> b k \<noteq> 1"
proof (induction b j rule: scan_end.induct)
  case (1 b j)
  show ?case
  proof (cases "j < PAGESIZE \<and> b j \<noteq> 1")
    case True
    with "1.prems" have "k = j \<or> Suc j \<le> k \<and> k \<le> scan_end b (Suc j)"
      by (auto simp: scan_end.simps [of b j])
    with True "1.IH" show ?thesis by auto
  next
    case False
    with "1.prems" show ?thesis by (auto simp: scan_end.simps [of b j] split: if_splits)
  qed
qed

lemma scan_end_stop:
  "0 < j \<Longrightarrow> j \<le> PAGESIZE \<Longrightarrow> scan_end b j < PAGESIZE - 1 \<Longrightarrow> b (Suc (scan_end b j)) = 1"
proof (induction b j rule: scan_end.induct)
  case (1 b j)
  show ?case
  proof (cases "j < PAGESIZE \<and> b j \<noteq> 1")
    case True
    with "1" show ?thesis by (simp add: scan_end.simps [of b j])
  next
    case False
    with "1.prems" show ?thesis by (auto simp: scan_end.simps [of b j] split: if_splits)
  qed
qed

definition bits01 :: "alloc_st \<Rightarrow> bool" where
  "bits01 s \<longleftrightarrow> (\<forall>i. bit_stat s i = 0 \<or> bit_stat s i = 1)"

definition fits :: "(nat \<Rightarrow> int) \<Rightarrow> int \<Rightarrow> nat \<Rightarrow> bool" where
  "fits b sz i \<longleftrightarrow> i + nat sz \<le> PAGESIZE \<and> (\<forall>k < nat sz. b (i + k) = 0)"

definition free_slot :: "alloc_st \<Rightarrow> nat option" where
  "free_slot s = find_idx (\<lambda>t. alloc_or_not t = 0) (table s)"

definition place :: "int \<Rightarrow> nat \<Rightarrow> nat \<Rightarrow> alloc_st \<Rightarrow> alloc_st" where
  "place sz k m s =
     s\<lparr>table := (table s)[k := \<lparr>start_addr = page_start s + m, mlength = sz, alloc_or_not = 1\<rparr>],
       bit_stat := fill m (nat sz) 1 (bit_stat s)\<rparr>"

lemma hole_fits:
  assumes "bits01 s" and "i < PAGESIZE" and "bit_stat s i = 0"
    and "int (scan_end (bit_stat s) (i + 1)) - int i + 1 \<ge> sz"
  shows "fits (bit_stat s) sz i"
proof -
  let ?e = "scan_end (bit_stat s) (i + 1)"
  have "?e \<le> PAGESIZE - 1"
    using scan_end_ge [of "i + 1" "bit_stat s"] assms(2) by simp
  moreover have "bit_stat s (i + k) = 0" if "k < nat sz" for k
  proof (cases "k = 0")
    case False
    with that assms(4) have "bit_stat s (i + k) \<noteq> 1"
      by (intro scan_end_free [of "i + 1"]) linarith+
    with assms(1) show ?thesis by (auto simp: bits01_def)
  qed (use assms(3) in simp)
  ultimately show ?thesis using assms(2,4) by (auto simp: fits_def)
qed

lemma short_hole_never_fits:
  assumes "i < PAGESIZE" and "0 < sz"
    and "int (scan_end (bit_stat s) (i + 1)) - int i + 1 < sz"
    and "i \<le> j" and "j \<le> scan_end (bit_stat s) (i + 1)"
  shows "\<not> fits (bit_stat s) sz j"
proof
  let ?e = "scan_end (bit_stat s) (i + 1)"
  assume f: "fits (bit_stat s) sz j"
  from f assms have "?e < PAGESIZE - 1"
    by (auto simp: fits_def)
  with assms(1) have "bit_stat s (Suc ?e) = 1"
    by (intro scan_end_stop) auto
  moreover have "bit_stat s (j + (Suc ?e - j)) = 0"
  proof -
    have "Suc ?e - j < nat sz" using assms by linarith
    with f show ?thesis by (simp add: fits_def)
  qed
  ultimately show False using assms(5) by simp
qed

lemma used_byte_never_fits: "bit_stat s i \<noteq> 0 \<Longrightarrow> 0 < sz \<Longrightarrow> \<not> fits (bit_stat s) sz i"
  by (auto simp: fits_def intro!: exI [of _ 0])

lemma alloc_loop_no_slot: "free_slot s = None \<Longrightarrow> alloc_loop sz i s = (0, s)"
proof (induction sz i s rule: alloc_loop.induct)
  case (1 sz i s)
  then show ?case
    by (subst alloc_loop.simps) (auto simp: free_slot_def Let_def)
qed

text \<open>Whatever the size, a successful search ends at a hole that holds the block.\<close>

lemma alloc_loop_cases:
  assumes "bits01 s"
  shows "alloc_loop sz i s = (0, s) \<or>
    (\<exists>k m. free_slot s = Some k \<and> m < PAGESIZE \<and> bit_stat s m = 0 \<and> fits (bit_stat s) sz m
       \<and> alloc_loop sz i s = (page_start s + m, place sz k m s))"
  using assms
proof (induction sz i s rule: alloc_loop.induct)
  case (1 sz i s)
  let ?e = "scan_end (bit_stat s) (i + 1)"
  consider (out) "\<not> i < PAGESIZE" | (used) "i < PAGESIZE" "bit_stat s i \<noteq> 0"
    | (short) "i < PAGESIZE" "bit_stat s i = 0" "\<not> int ?e - int i + 1 \<ge> sz"
    | (full) "i < PAGESIZE" "bit_stat s i = 0" "int ?e - int i + 1 \<ge> sz" "free_slot s = None"
    | (hit) k where "i < PAGESIZE" "bit_stat s i = 0" "int ?e - int i + 1 \<ge> sz" "free_slot s = Some k"
    by fastforce
  then show ?case
  proof cases
    case out
    then show ?thesis by (simp add: alloc_loop.simps [of sz i s])
  next
    case used
    with "1.IH"(3) "1.prems" show ?thesis by (simp add: alloc_loop.simps [of sz i s])
  next
    case short
    with "1.IH"(2) [OF _ _ refl] "1.prems" show ?thesis
      by (simp add: alloc_loop.simps [of sz i s] Let_def)
  next
    case full
    then show ?thesis by (simp add: alloc_loop_no_slot)
  next
    case hit
    moreover from hit "1.prems" have "fits (bit_stat s) sz i" by (intro hole_fits) auto
    ultimately show ?thesis
      by (auto simp: alloc_loop.simps [of sz i s] Let_def free_slot_def place_def)
  qed
qed

text \<open>For a positive size the hole found is the lowest one that is large enough.\<close>

lemma alloc_loop_first_fit:
  assumes "bits01 s" and "0 < sz" and "free_slot s = Some k" and "\<forall>j < i. \<not> fits (bit_stat s) sz j"
  shows "(\<exists>m. fits (bit_stat s) sz m \<and> (\<forall>j < m. \<not> fits (bit_stat s) sz j)
            \<and> alloc_loop sz i s = (page_start s + m, place sz k m s))
       \<or> ((\<forall>m. \<not> fits (bit_stat s) sz m) \<and> alloc_loop sz i s = (0, s))"
  using assms
proof (induction sz i s rule: alloc_loop.induct)
  case (1 sz i s)
  let ?e = "scan_end (bit_stat s) (i + 1)"
  consider (out) "\<not> i < PAGESIZE" | (used) "i < PAGESIZE" "bit_stat s i \<noteq> 0"
    | (short) "i < PAGESIZE" "bit_stat s i = 0" "\<not> int ?e - int i + 1 \<ge> sz"
    | (hit) "i < PAGESIZE" "bit_stat s i = 0" "int ?e - int i + 1 \<ge> sz"
    by fastforce
  then show ?case
  proof cases
    case out
    have "\<not> fits (bit_stat s) sz m" for m
    proof (cases "m < i")
      case True
      then show ?thesis using "1.prems"(4) by blast
    next
      case False
      with out "1.prems"(2) show ?thesis by (auto simp: fits_def)
    qed
    with out show ?thesis by (simp add: alloc_loop.simps [of sz i s])
  next
    case used
    with "1.prems" have "\<forall>j < i + 1. \<not> fits (bit_stat s) sz j"
      by (auto simp: less_Suc_eq dest: used_byte_never_fits)
    with used "1.IH"(3) "1.prems" show ?thesis by (simp add: alloc_loop.simps [of sz i s])
  next
    case short
    have "\<forall>j < ?e + 1. \<not> fits (bit_stat s) sz j"
      using "1.prems" short short_hole_never_fits [of i sz s]
      by (metis Suc_eq_plus1 less_Suc_eq_le linorder_not_le)
    with short "1.IH"(2) [OF _ _ refl] "1.prems" show ?thesis
      by (simp add: alloc_loop.simps [of sz i s] Let_def)
  next
    case hit
    moreover from hit "1.prems" have "fits (bit_stat s) sz i" by (intro hole_fits) auto
    ultimately show ?thesis using "1.prems"
      by (auto simp: alloc_loop.simps [of sz i s] Let_def free_slot_def place_def)
  qed
qed

section \<open>The invariant of the tables\<close>

definition span :: "alloc_st \<Rightarrow> nat \<Rightarrow> nat set" where
  "span s i = (let t = table s ! i; off = start_addr t - page_start s in {off ..< off + nat (mlength t)})"

definition entry_ok :: "alloc_st \<Rightarrow> mem_info \<Rightarrow> bool" where
  "entry_ok s t \<longleftrightarrow> t = no_block \<or>
     alloc_or_not t = 1 \<and> page_start s \<le> start_addr t
     \<and> start_addr t - page_start s + nat (mlength t) \<le> PAGESIZE"

text \<open>
  Every entry is either cleared or a block inside the page, the blocks are pairwise
  disjoint, and the bytes marked as used are exactly the bytes of the blocks.
\<close>

definition alloc_inv :: "alloc_st \<Rightarrow> bool" where
  "alloc_inv s \<longleftrightarrow> 0 < page_start s \<and> length (table s) = 512 \<and> bits01 s
     \<and> (\<forall>t \<in> set (table s). entry_ok s t)
     \<and> (\<forall>i < 512. \<forall>j < 512. i \<noteq> j \<longrightarrow> span s i \<inter> span s j = {})
     \<and> {b. bit_stat s b = 1} = (\<Union>i < 512. span s i)"

lemma alloc_inv_bits01: "alloc_inv s \<Longrightarrow> bits01 s"
  by (simp add: alloc_inv_def)

lemma alloc_inv_len: "alloc_inv s \<Longrightarrow> length (table s) = 512"
  by (simp add: alloc_inv_def)

lemma alloc_inv_entry:
  "alloc_inv s \<Longrightarrow> i < 512 \<Longrightarrow> entry_ok s (table s ! i)"
  by (auto simp: alloc_inv_def)

lemma alloc_inv_disjoint:
  "alloc_inv s \<Longrightarrow> i < 512 \<Longrightarrow> j < 512 \<Longrightarrow> i \<noteq> j \<Longrightarrow> span s i \<inter> span s j = {}"
  unfolding alloc_inv_def by blast

lemma alloc_inv_used: "alloc_inv s \<Longrightarrow> bit_stat s b = 1 \<longleftrightarrow> (\<exists>i < 512. b \<in> span s i)"
  unfolding alloc_inv_def by blast

lemma finite_span [simp]: "finite (span s i)"
  by (simp add: span_def Let_def)

lemma span_no_block [simp]: "table s ! i = no_block \<Longrightarrow> span s i = {}"
  by (simp add: span_def)

lemma free_slotD:
  assumes "alloc_inv s" and "free_slot s = Some k"
  shows "k < 512" and "table s ! k = no_block"
proof -
  from assms(2) have k: "k < length (table s)" and z: "alloc_or_not (table s ! k) = 0"
    by (auto simp: free_slot_def dest: find_idx_SomeD)
  with assms(1) show "k < 512" by (simp add: alloc_inv_def)
  from alloc_inv_entry [OF assms(1) this] z show "table s ! k = no_block"
    by (auto simp: entry_ok_def)
qed

lemma span_place:
  assumes "length (table s) = 512" and "k < 512"
  shows "span (place sz k m s) i = (if i = k then {m ..< m + nat sz} else span s i)"
  using assms by (auto simp: span_def place_def Let_def)

lemma alloc_inv_place:
  assumes inv: "alloc_inv s" and slot: "free_slot s = Some k" and fit: "fits (bit_stat s) sz m"
  shows "alloc_inv (place sz k m s)"
proof -
  note k = free_slotD [OF inv slot]
  have len: "length (table s) = 512" using inv by (simp add: alloc_inv_def)
  note sp = span_place [OF len k(1)]
  have empty: "span s k = {}" using k(2) by simp
  have new: "{m ..< m + nat sz} \<inter> span s i = {}" if "i < 512" for i
  proof -
    have "bit_stat s b = 1" if "b \<in> span s i" for b
      using inv that \<open>i < 512\<close> unfolding alloc_inv_def by blast
    moreover have "bit_stat s b = 0" if "b \<in> {m ..< m + nat sz}" for b
    proof -
      from that have "b = m + (b - m)" and "b - m < nat sz" by auto
      with fit show ?thesis unfolding fits_def by metis
    qed
    ultimately show ?thesis by force
  qed
  have marks: "{b. bit_stat (place sz k m s) b = 1} = {b. bit_stat s b = 1} \<union> {m ..< m + nat sz}"
    by (auto simp: place_def)
  have "(\<Union>i < 512. span (place sz k m s) i) = (\<Union>i < 512. span s i) \<union> {m ..< m + nat sz}"
    using k(1) empty by (auto simp: sp split: if_splits)
  with marks have bits: "{b. bit_stat (place sz k m s) b = 1} = (\<Union>i < 512. span (place sz k m s) i)"
    using inv by (simp add: alloc_inv_def)
  have entries: "\<forall>t \<in> set (table (place sz k m s)). entry_ok (place sz k m s) t"
    using inv fit k len
    by (auto simp: alloc_inv_def entry_ok_def fits_def place_def dest!: set_update_subset_insert [THEN subsetD])
  have disj: "\<forall>i < 512. \<forall>j < 512. i \<noteq> j \<longrightarrow> span (place sz k m s) i \<inter> span (place sz k m s) j = {}"
    using inv new k unfolding sp alloc_inv_def by (auto simp: Int_commute)
  have "bits01 (place sz k m s)" "0 < page_start (place sz k m s)" "length (table (place sz k m s)) = 512"
    using inv len by (auto simp: alloc_inv_def bits01_def place_def)
  with entries disj bits show ?thesis by (simp add: alloc_inv_def)
qed

lemma alloc_keeps_inv: "alloc_inv s \<Longrightarrow> alloc_inv (snd (alloc sz s))"
  using alloc_loop_cases [OF alloc_inv_bits01, of s sz 0] alloc_inv_place [of s _ sz]
  by (auto simp: alloc_def)

definition erase :: "nat \<Rightarrow> alloc_st \<Rightarrow> alloc_st" where
  "erase k s =
     s\<lparr>bit_stat := fill (start_addr (table s ! k) - page_start s) (nat (mlength (table s ! k))) 0 (bit_stat s),
       table := (table s)[k := no_block]\<rparr>"

lemma dealloc_erase:
  "dealloc addr s = (case find_idx (\<lambda>t. start_addr t = addr) (table s) of Some k \<Rightarrow> erase k s | None \<Rightarrow> s)"
  by (auto simp: dealloc_def erase_def split: option.splits dest!: find_idx_SomeD)

lemma span_erase:
  assumes "length (table s) = 512" and "k < 512"
  shows "span (erase k s) i = (if i = k then {} else span s i)"
  using assms by (auto simp: span_def erase_def Let_def)

lemma alloc_inv_erase:
  assumes inv: "alloc_inv s" and k: "k < 512"
  shows "alloc_inv (erase k s)"
proof -
  have len: "length (table s) = 512" using inv by (simp add: alloc_inv_def)
  note sp = span_erase [OF len k]
  have "{b. bit_stat (erase k s) b = 1} = {b. bit_stat s b = 1} - span s k"
    by (auto simp: erase_def span_def Let_def)
  also have "\<dots> = (\<Union>i < 512. span s i) - span s k"
    using inv by (simp add: alloc_inv_def)
  also have "\<dots> = (\<Union>i < 512. span (erase k s) i)"
    using inv k by (fastforce simp: sp alloc_inv_def split: if_splits)
  finally have bits: "{b. bit_stat (erase k s) b = 1} = (\<Union>i < 512. span (erase k s) i)" .
  have entries: "\<forall>t \<in> set (table (erase k s)). entry_ok (erase k s) t"
    using inv by (auto simp: alloc_inv_def entry_ok_def erase_def dest!: set_update_subset_insert [THEN subsetD])
  have disj: "\<forall>i < 512. \<forall>j < 512. i \<noteq> j \<longrightarrow> span (erase k s) i \<inter> span (erase k s) j = {}"
    using inv unfolding sp alloc_inv_def by auto
  have "bits01 (erase k s)" "0 < page_start (erase k s)" "length (table (erase k s)) = 512"
    using inv len by (auto simp: alloc_inv_def bits01_def erase_def)
  with entries disj bits show ?thesis by (simp add: alloc_inv_def)
qed

lemma dealloc_keeps_inv: "alloc_inv s \<Longrightarrow> alloc_inv (dealloc addr s)"
  using alloc_inv_erase [of s] alloc_inv_len [of s]
  by (auto simp: dealloc_erase split: option.splits dest!: find_idx_Some_lt)

lemma init_alloc_inv:
  assumes "length (table s) = 512" and "0 < mmap_ret" and "mmap_ret \<noteq> map_failed"
    and "\<forall>i \<ge> PAGESIZE. bit_stat s i = 0"
  shows "alloc_inv (snd (init_alloc map_failed mmap_ret s))"
  using assms
  by (auto simp: init_alloc_def clear_tables_def alloc_inv_def bits01_def entry_ok_def span_def Let_def not_le)

section \<open>Completeness: a table slot is always left\<close>

definition no_empty_blocks :: "alloc_st \<Rightarrow> bool" where
  "no_empty_blocks s \<longleftrightarrow> (\<forall>t \<in> set (table s). alloc_or_not t = 1 \<longrightarrow> 8 \<le> mlength t)"

lemma used_bytes_in_page:
  assumes "alloc_inv s"
  shows "(\<Union>i < 512. span s i) \<subseteq> {..< PAGESIZE}"
proof -
  have "span s i \<subseteq> {..< PAGESIZE}" if "i < 512" for i
    using alloc_inv_entry [OF assms that] by (auto simp: span_def entry_ok_def Let_def)
  then show ?thesis by blast
qed

lemma full_table_no_hole:
  assumes inv: "alloc_inv s" and ne: "no_empty_blocks s" and full: "free_slot s = None" and "0 < sz"
  shows "\<not> fits (bit_stat s) sz m"
proof -
  let ?U = "\<Union>i < 512. span s i"
  have live: "alloc_or_not (table s ! i) \<noteq> 0" if "i < 512" for i
    using full that alloc_inv_len [OF inv] by (simp add: free_slot_def find_idx_None)
  have big: "8 \<le> card (span s i)" if "i < 512" for i
  proof -
    have "alloc_or_not (table s ! i) = 1"
      using alloc_inv_entry [OF inv that] live [OF that] by (auto simp: entry_ok_def)
    then have "8 \<le> mlength (table s ! i)"
      using ne that alloc_inv_len [OF inv] by (auto simp: no_empty_blocks_def)
    then show ?thesis by (simp add: span_def Let_def)
  qed
  have "512 * 8 \<le> card ?U"
    using alloc_inv_disjoint [OF inv] big by (intro card_disjoint_family_ge) simp_all
  then have "card {..< PAGESIZE} \<le> card ?U" by simp
  with used_bytes_in_page [OF inv] have "?U = {..< PAGESIZE}"
    by (intro card_seteq) auto
  then have used: "bit_stat s i = 1" if "i < PAGESIZE" for i
    using alloc_inv_used [OF inv, of i] that by blast
  show ?thesis
  proof
    assume "fits (bit_stat s) sz m"
    with \<open>0 < sz\<close> have "m < PAGESIZE" and "bit_stat s m = 0"
      by (auto simp: fits_def dest: spec [of _ 0])
    then show False using used by simp
  qed
qed

lemma alloc_pos_cases:
  assumes inv: "alloc_inv s" and ne: "no_empty_blocks s" and "0 < sz" and "sz mod 8 = 0"
  shows "(\<exists>k m. free_slot s = Some k \<and> fits (bit_stat s) sz m \<and> (\<forall>j < m. \<not> fits (bit_stat s) sz j)
            \<and> alloc sz s = (page_start s + m, place sz k m s))
       \<or> ((\<forall>m. \<not> fits (bit_stat s) sz m) \<and> alloc sz s = (0, s))"
proof (cases "free_slot s")
  case None
  then show ?thesis
    using full_table_no_hole [OF inv ne None] assms(3,4) by (simp add: alloc_def alloc_loop_no_slot)
next
  case (Some k)
  then show ?thesis
    using alloc_loop_first_fit [OF alloc_inv_bits01 [OF inv] assms(3) Some, of 0] assms(4)
    by (auto simp: alloc_def)
qed

lemma alloc_keeps_no_empty:
  assumes "alloc_inv s" and "no_empty_blocks s" and "0 < sz"
  shows "no_empty_blocks (snd (alloc sz s))"
proof (cases "sz mod 8 = 0")
  case True
  with assms(3) have "8 \<le> sz" by (intro zdvd_imp_le) auto
  with True show ?thesis
    using alloc_pos_cases [OF assms(1,2,3)] assms(2,3)
    by (auto simp: no_empty_blocks_def place_def dest!: set_update_subset_insert [THEN subsetD])
qed (use assms(2) in \<open>simp add: alloc_def\<close>)

lemma dealloc_keeps_no_empty: "no_empty_blocks s \<Longrightarrow> no_empty_blocks (dealloc addr s)"
  by (auto simp: no_empty_blocks_def dealloc_def split: option.splits
      dest!: set_update_subset_insert [THEN subsetD])

section \<open>Properties\<close>

datatype alloc_call = Call_alloc int | Call_dealloc nat

fun alloc_run :: "alloc_call list \<Rightarrow> alloc_st \<Rightarrow> alloc_st" where
  "alloc_run [] s = s"
| "alloc_run (Call_alloc sz # cs) s = alloc_run cs (snd (alloc sz s))"
| "alloc_run (Call_dealloc p # cs) s = alloc_run cs (dealloc p s)"

lemma alloc_run_keeps_inv: "alloc_inv s \<Longrightarrow> alloc_inv (alloc_run cs s)"
  by (induction cs s rule: alloc_run.induct) (auto intro: alloc_keeps_inv dealloc_keeps_inv)

definition blank_st :: alloc_st where
  "blank_st = \<lparr>page_start = 0, bit_stat = (\<lambda>_. 0), table = replicate 512 no_block\<rparr>"

text \<open>
  C22. From a successful \<open>init_alloc\<close>, no sequence of \<open>alloc\<close> and \<open>dealloc\<close> calls, with
  any arguments at all, breaks the allocator's tables: every block handed out lies inside
  the page, live blocks never overlap, and a byte is marked used exactly when it belongs
  to a live block.
\<close>

theorem alloc_sequences_keep_blocks_disjoint:
  assumes "0 < mmap_ret" and "mmap_ret \<noteq> map_failed"
  shows "alloc_inv (alloc_run calls (snd (init_alloc map_failed mmap_ret blank_st)))"
  by (rule alloc_run_keeps_inv, rule init_alloc_inv) (use assms in \<open>auto simp: blank_st_def\<close>)

theorem alloc_sequences_keep_blocks_disjoint_witness:
  "(0::nat) < 4096 \<and> (4096::nat) \<noteq> 5000
   \<and> alloc_inv (alloc_run [Call_alloc 16, Call_dealloc 4096] (snd (init_alloc 5000 4096 blank_st)))"
  using alloc_sequences_keep_blocks_disjoint [of 4096 5000 "[Call_alloc 16, Call_dealloc 4096]"] by simp

text \<open>
  C23. \<open>alloc\<close> is first fit and complete: for a positive multiple of 8, if some run of
  that many free bytes exists, the lowest one is handed out and exactly its bytes become
  used; otherwise \<open>NULL\<close> is returned and nothing changes. The 512-entry table never runs
  out first.
\<close>

theorem alloc_first_fit_complete:
  assumes "alloc_inv s" and "no_empty_blocks s" and "0 < sz" and "sz mod 8 = 0"
  shows "(\<exists>m. fits (bit_stat s) sz m \<and> (\<forall>j < m. \<not> fits (bit_stat s) sz j)
            \<and> fst (alloc sz s) = page_start s + m
            \<and> bit_stat (snd (alloc sz s)) = fill m (nat sz) 1 (bit_stat s))
       \<or> ((\<forall>m. \<not> fits (bit_stat s) sz m) \<and> alloc sz s = (0, s))"
  using alloc_pos_cases [OF assms] by (auto simp: place_def)

lemma blank_init_inv: "alloc_inv (snd (init_alloc 5000 4096 blank_st))"
  by (rule init_alloc_inv) (auto simp: blank_st_def)

lemma blank_init_no_empty: "no_empty_blocks (snd (init_alloc 5000 4096 blank_st))"
  by (simp add: no_empty_blocks_def init_alloc_def clear_tables_def blank_st_def)

theorem alloc_first_fit_complete_witness:
  "let s = snd (init_alloc 5000 4096 blank_st) in
     alloc_inv s \<and> no_empty_blocks s \<and> (0::int) < 16 \<and> (16::int) mod 8 = 0
     \<and> fst (alloc 16 s) = 4096 \<and> bit_stat (snd (alloc 16 s)) 15 = 1 \<and> bit_stat (snd (alloc 16 s)) 16 = 0"
proof -
  let ?s = "snd (init_alloc 5000 4096 blank_st)"
  have b: "bit_stat ?s i = 0" for i
    by (simp add: init_alloc_def clear_tables_def blank_st_def)
  have p: "page_start ?s = 4096"
    by (simp add: init_alloc_def clear_tables_def)
  have f: "fits (bit_stat ?s) 16 0"
    by (simp add: fits_def b)
  obtain m where least: "\<forall>j < m. \<not> fits (bit_stat ?s) 16 j"
    and ret: "fst (alloc 16 ?s) = page_start ?s + m"
    and bits: "bit_stat (snd (alloc 16 ?s)) = fill m (nat 16) 1 (bit_stat ?s)"
    using alloc_first_fit_complete [OF blank_init_inv blank_init_no_empty, of 16] f by auto
  from least f have "m = 0" by blast
  with ret bits p have "fst (alloc 16 ?s) = 4096 \<and> bit_stat (snd (alloc 16 ?s)) = fill 0 16 1 (bit_stat ?s)"
    by simp
  then show ?thesis
    using blank_init_inv blank_init_no_empty by (simp add: b)
qed

lemma free_byte_no_entry:
  assumes "alloc_inv s" and "no_empty_blocks s" and "bit_stat s m = 0" and "i < 512"
  shows "start_addr (table s ! i) \<noteq> page_start s + m"
proof
  assume eq: "start_addr (table s ! i) = page_start s + m"
  have len: "length (table s) = 512" using assms(1) by (rule alloc_inv_len)
  from eq assms(1) have "table s ! i \<noteq> no_block" by (auto simp: alloc_inv_def)
  with alloc_inv_entry [OF assms(1,4)] assms(2,4) len
  have "8 \<le> mlength (table s ! i)" by (auto simp: entry_ok_def no_empty_blocks_def)
  then have "m \<in> span s i" using eq by (simp add: span_def Let_def)
  then have "bit_stat s m = 1" using assms(1,4) unfolding alloc_inv_def by blast
  then show False using assms(3) by simp
qed

text \<open>
  C24. Freeing the block just obtained undoes the allocation: the whole allocator state,
  status bytes and table, is as before.
\<close>

theorem dealloc_undoes_alloc:
  assumes "alloc_inv s" and "no_empty_blocks s" and "0 < sz" and "alloc sz s = (p, s')" and "p \<noteq> 0"
  shows "dealloc p s' = s"
proof -
  have "sz mod 8 = 0" using assms(4,5) by (auto simp: alloc_def split: if_splits)
  with alloc_pos_cases [OF assms(1-3)] assms(4,5) obtain k m where
    slot: "free_slot s = Some k" and fit: "fits (bit_stat s) sz m"
    and p: "p = page_start s + m" and s': "s' = place sz k m s" by auto
  note k = free_slotD [OF assms(1) slot]
  have len: "length (table s) = 512" using assms(1) by (rule alloc_inv_len)
  have "bit_stat s m = 0" using fit assms(3) by (auto simp: fits_def dest: spec [of _ 0])
  then have other: "start_addr (table s ! i) \<noteq> p" if "i < 512" for i
    unfolding p by (rule free_byte_no_entry [OF assms(1,2) _ that])
  have "find_idx (\<lambda>t. start_addr t = p) (table s') = Some k"
    using k(1) len other by (intro find_idx_SomeI) (auto simp: s' place_def p nth_list_update)
  moreover have "fill m (nat sz) 0 (fill m (nat sz) 1 (bit_stat s)) = bit_stat s"
    using fit by (intro fill_unfill) (metis fits_def le_add_diff_inverse nat_add_left_cancel_less)
  moreover have "(table s)[k := no_block] = table s"
    using k(2) by (metis list_update_id)
  ultimately show ?thesis
    using k len by (simp add: dealloc_def s' place_def p)
qed

lemma blank_first_block: "fst (alloc 16 (snd (init_alloc 5000 4096 blank_st))) = 4096"
proof -
  let ?s = "snd (init_alloc 5000 4096 blank_st)"
  have f: "fits (bit_stat ?s) 16 0"
    by (simp add: fits_def init_alloc_def clear_tables_def blank_st_def)
  obtain m where least: "\<forall>j < m. \<not> fits (bit_stat ?s) 16 j"
    and ret: "fst (alloc 16 ?s) = page_start ?s + m"
    using alloc_pos_cases [OF blank_init_inv blank_init_no_empty, of 16] f by auto
  from least f have "m = 0" by blast
  with ret show ?thesis by (simp add: init_alloc_def clear_tables_def)
qed

theorem dealloc_undoes_alloc_witness:
  "let s = snd (init_alloc 5000 4096 blank_st) in
     alloc_inv s \<and> no_empty_blocks s \<and> fst (alloc 16 s) \<noteq> 0
     \<and> dealloc (fst (alloc 16 s)) (snd (alloc 16 s)) = s"
proof -
  let ?s = "snd (init_alloc 5000 4096 blank_st)"
  have "dealloc (fst (alloc 16 ?s)) (snd (alloc 16 ?s)) = ?s"
    by (rule dealloc_undoes_alloc [OF blank_init_inv blank_init_no_empty, of 16])
      (simp_all add: blank_first_block prod_eq_iff)
  then show ?thesis
    using blank_init_inv blank_init_no_empty by (simp add: blank_first_block)
qed

text \<open>
  C25. A request for 0 bytes that succeeds takes a table entry and no byte, so that the same
  address \<open>p\<close> can be given to the next block. When it is, \<open>dealloc\<close> of \<open>p\<close> clears the entry of
  the empty block and nothing else: every byte of the real block is still marked and its entry
  is still in the table. Only a second \<open>dealloc\<close> of \<open>p\<close> frees it, and that one brings back the
  state before both requests.
\<close>

theorem zero_size_block_takes_dealloc:
  assumes "alloc_inv s" and "no_empty_blocks s" and "0 < sz" and "p \<noteq> 0"
    and "alloc 0 s = (p, s1)" and "alloc sz s1 = (p, s2)"
  shows "bit_stat (dealloc p s2) = bit_stat s2
    \<and> (\<forall>i < nat sz. bit_stat (dealloc p s2) (p - page_start s + i) = 1)
    \<and> (\<exists>k < 512. \<exists>k' < 512. k \<noteq> k' \<and> table s2 ! k = \<lparr>start_addr = p, mlength = 0, alloc_or_not = 1\<rparr>
          \<and> table s2 ! k' = \<lparr>start_addr = p, mlength = sz, alloc_or_not = 1\<rparr>
          \<and> table (dealloc p s2) = (table s2)[k := no_block])
    \<and> dealloc p (dealloc p s2) = s"
proof -
  obtain k m where slot: "free_slot s = Some k" and fit: "bit_stat s m = 0" "fits (bit_stat s) 0 m"
    and p: "p = page_start s + m" and s1: "s1 = place 0 k m s"
    using alloc_loop_cases [OF alloc_inv_bits01 [OF assms(1)], of 0 0] assms(4,5) by (auto simp: alloc_def)
  note k = free_slotD [OF assms(1) slot]
  have inv1: "alloc_inv s1" unfolding s1 by (rule alloc_inv_place [OF assms(1) slot fit(2)])
  have len: "length (table s) = 512" using assms(1) by (rule alloc_inv_len)
  have t1: "table s1 = (table s)[k := \<lparr>start_addr = p, mlength = 0, alloc_or_not = 1\<rparr>]" "bit_stat s1 = bit_stat s" "page_start s1 = page_start s"
    by (simp_all add: s1 p place_def)
  have "alloc sz s1 = alloc_loop sz 0 s1" using assms(4,6) by (simp add: alloc_def split: if_splits)
  then obtain k' where slot': "free_slot s1 = Some k'" and fit': "fits (bit_stat s1) sz m" and s2: "s2 = place sz k' m s1"
    using alloc_loop_cases [OF alloc_inv_bits01 [OF inv1], of sz 0] assms(4,6) p t1(3) by auto
  note k' = free_slotD [OF inv1 slot']
  have ne: "k' \<noteq> k" using k k' len t1(1) by auto
  have free': "table s ! k' = no_block" using k'(2) ne t1(1) by simp
  have before: "k < k'" 
  proof (rule ccontr)
    assume "\<not> k < k'"
    then have "alloc_or_not (table s ! k') \<noteq> 0" using ne slot by (auto simp: free_slot_def dest: find_idx_SomeD)
    then show False using free' by simp
  qed
  have other: "start_addr (table s ! i) \<noteq> p" if "i < 512" for i
    unfolding p by (rule free_byte_no_entry [OF assms(1,2) fit(1) that])
  have p1: "find_idx (\<lambda>t. start_addr t = p) (table s2) = Some k"
    using k(1) len other before by (intro find_idx_SomeI) (auto simp: s2 place_def t1 nth_list_update)
  have e2: "table s2 ! k = \<lparr>start_addr = p, mlength = 0, alloc_or_not = 1\<rparr>" "table s2 ! k' = \<lparr>start_addr = p, mlength = sz, alloc_or_not = 1\<rparr>"
    using ne k(1) k'(1) len by (simp_all add: s2 place_def t1 p)
  have d1: "dealloc p s2 = s2\<lparr>table := (table s2)[k := no_block]\<rparr>"
    by (simp add: dealloc_def p1 e2(1))
  have p2: "find_idx (\<lambda>t. start_addr t = p) ((table s2)[k := no_block]) = Some k'"
    using k(1) k'(1) len other ne assms(4) by (intro find_idx_SomeI) (auto simp: s2 place_def t1 p nth_list_update)
  have unfill: "fill m (nat sz) 0 (bit_stat s2) = bit_stat s"
    unfolding s2 place_def t1 using fit' [unfolded t1] 
    by (simp, intro fill_unfill) (metis fits_def le_add_diff_inverse nat_add_left_cancel_less)
  have "((table s2)[k := no_block])[k' := no_block] = (table s)[k := no_block, k' := no_block]"
    using ne by (simp add: s2 place_def t1 list_update_swap)
  also have "\<dots> = table s" using k(2) free' ne by (metis list_update_id nth_list_update_neq)
  finally have tab: "((table s2)[k := no_block])[k' := no_block] = table s" .
  have ps: "page_start s2 = page_start s" by (simp add: s2 place_def t1)
  have "dealloc p (dealloc p s2) = s2\<lparr>bit_stat := fill m (nat sz) 0 (bit_stat s2), table := table s\<rparr>"
    unfolding d1 using ne e2(2) p2 tab ps p by (simp add: dealloc_def)
  also have "\<dots> = s" unfolding unfill by (simp add: s2 s1 place_def)
  finally have "dealloc p (dealloc p s2) = s" .
  moreover have "\<forall>i < nat sz. bit_stat s2 (p - page_start s + i) = 1"
    by (simp add: p s2 place_def)
  moreover have "\<exists>k < 512. \<exists>k' < 512. k \<noteq> k' \<and> table s2 ! k = \<lparr>start_addr = p, mlength = 0, alloc_or_not = 1\<rparr>
      \<and> table s2 ! k' = \<lparr>start_addr = p, mlength = sz, alloc_or_not = 1\<rparr> \<and> table (dealloc p s2) = (table s2)[k := no_block]"
    using k(1) k'(1) ne e2 d1 by (intro exI [of _ k] exI [of _ k'] conjI) simp_all
  ultimately show ?thesis by (simp add: d1)
qed

theorem zero_size_block_takes_dealloc_witness:
  "let s = snd (init_alloc 5000 4096 blank_st); s1 = snd (alloc 0 s); s2 = snd (alloc 8 s1) in
     fst (alloc 0 s) = 4096 \<and> fst (alloc 8 s1) = 4096
     \<and> bit_stat (dealloc 4096 s2) 7 = 1 \<and> dealloc 4096 (dealloc 4096 s2) = s"
proof -
  let ?s = "snd (init_alloc 5000 4096 blank_st)"
  let ?s1 = "place 0 0 0 ?s"
  have st: "page_start ?s = 4096" "table ?s = no_block # no_block # replicate 510 no_block" "bit_stat ?s i = 0" for i
    by (simp_all add: init_alloc_def clear_tables_def blank_st_def map_replicate_const flip: replicate_Suc)
  have p: "alloc 0 ?s = (4096, ?s1)"
    using st by (simp add: alloc_def alloc_loop.simps [of 0 0] Let_def place_def)
  have inv1: "alloc_inv ?s1" using alloc_keeps_inv [OF blank_init_inv, of 0] p by simp
  have slot: "free_slot ?s1 = Some 1" using st by (simp add: free_slot_def place_def)
  have fit: "fits (bit_stat ?s1) 8 0" using st by (simp add: fits_def place_def)
  obtain m where m: "\<forall>j < m. \<not> fits (bit_stat ?s1) 8 j" "alloc 8 ?s1 = (page_start ?s1 + m, place 8 1 m ?s1)"
    using alloc_loop_first_fit [OF alloc_inv_bits01 [OF inv1] _ slot, of 8 0] fit by (auto simp: alloc_def)
  then have "m = 0" using fit by blast
  then have q: "alloc 8 ?s1 = (4096, place 8 1 0 ?s1)" using m(2) st(1) by (simp add: place_def)
  have "bit_stat (place 8 1 0 ?s1) 7 = 1" by (simp add: place_def)
  then show ?thesis
    using zero_size_block_takes_dealloc [OF blank_init_inv blank_init_no_empty _ _ p q] p q by simp
qed

end
