(* ===== verification/Lab_Ealloc.thy ===== *)
theory Lab_Ealloc
  imports Lab_Alloc
begin

text \<open>
  The elastic allocator of \<open>Lab-Memory Management/malloc-code/ealloc.c\<close>: up to four pages,
  each mapped on demand, each with its own status bytes and its table of 16 blocks. The
  address \<open>mmap\<close> returns when it is called for page \<open>i\<close> is \<open>mmap_ret i\<close>.
\<close>

section \<open>Data and operations\<close>

record page_info =
  pg_start :: nat
  pg_bits :: "nat \<Rightarrow> int"
  pg_table :: "mem_info list"

definition INF_const :: int where "INF_const = 1000000000"

type_synonym fit = "int \<times> nat \<times> int"

definition clear_page :: "page_info \<Rightarrow> page_info" where
  "clear_page p = p\<lparr>pg_bits := fill 0 PAGESIZE 0 (pg_bits p), pg_table := map (\<lambda>_. no_block) (pg_table p)\<rparr>"

definition einit_alloc :: "page_info list \<Rightarrow> page_info list" where
  "einit_alloc ps = map (\<lambda>p. clear_page (p\<lparr>pg_start := 0\<rparr>)) ps"

text \<open>\<open>cleanup\<close> unmaps the mapped pages: the list of unmapped addresses is its effect on
  the system, and the page table keeps the stale addresses.\<close>

definition ecleanup :: "page_info list \<Rightarrow> nat list \<times> page_info list" where
  "ecleanup ps = (filter (\<lambda>a. a \<noteq> 0) (map pg_start ps), map clear_page ps)"

function escan :: "int \<Rightarrow> int \<Rightarrow> nat \<Rightarrow> (nat \<Rightarrow> int) \<Rightarrow> fit \<Rightarrow> fit" where
  "escan i sz j b best =
     (if j < PAGESIZE then
        if b j = 1 then escan i sz (j + 1) b best
        else
          let free_chunk_size = int (scan_end b j) - int j + 1 in
          if free_chunk_size \<ge> sz \<and> free_chunk_size < snd (snd best)
          then escan i sz (j + 1) b (i, j, free_chunk_size)
          else escan i sz (j + 1) b best
      else best)"
  by pat_completeness auto
termination
  by (relation "measure (\<lambda>(i, sz, j, b, best). PAGESIZE - j)") auto

declare escan.simps [simp del]

fun epages :: "nat \<Rightarrow> (nat \<Rightarrow> nat) \<Rightarrow> int \<Rightarrow> nat \<Rightarrow> fit \<Rightarrow> page_info list \<Rightarrow> fit option \<times> page_info list" where
  "epages map_failed mmap_ret sz i best [] = (Some best, [])"
| "epages map_failed mmap_ret sz i best (p # ps) =
     (if pg_start p = 0 then
        if fst best = -1 then
          let p = p\<lparr>pg_start := mmap_ret i\<rparr> in
          if pg_start p = map_failed then (None, p # ps)
          else
            let best = escan (int i) sz 0 (pg_bits p) best;
                (r, ps') = epages map_failed mmap_ret sz (i + 1) best ps
            in (r, p # ps')
        else
          let (r, ps') = epages map_failed mmap_ret sz (i + 1) best ps in (r, p # ps')
      else
        let best = escan (int i) sz 0 (pg_bits p) best;
            (r, ps') = epages map_failed mmap_ret sz (i + 1) best ps
        in (r, p # ps'))"

definition etake :: "int \<Rightarrow> nat \<Rightarrow> page_info \<Rightarrow> nat \<times> page_info" where
  "etake sz off p =
     (let p = p\<lparr>pg_bits := fill off (nat sz) 1 (pg_bits p)\<rparr>;
          a = pg_start p + off
      in case find_idx (\<lambda>t. alloc_or_not t = 0) (pg_table p) of
           Some k \<Rightarrow>
             (a, p\<lparr>pg_table := (pg_table p)[k := \<lparr>start_addr = a, mlength = sz, alloc_or_not = 1\<rparr>]\<rparr>)
         | None \<Rightarrow> (a, p))"

definition ealloc :: "nat \<Rightarrow> (nat \<Rightarrow> nat) \<Rightarrow> int \<Rightarrow> page_info list \<Rightarrow> nat \<times> page_info list" where
  "ealloc map_failed mmap_ret sz ps =
     (if sz mod 256 \<noteq> 0 then (0, ps)
      else case epages map_failed mmap_ret sz 0 (-1, 0, INF_const) ps of
        (None, ps) \<Rightarrow> (0, ps)
      | (Some (ix, off, chunk), ps) \<Rightarrow>
          if ix = -1 then (0, ps)
          else let (a, p) = etake sz off (ps ! nat ix) in (a, ps[nat ix := p]))"

fun edealloc :: "nat \<Rightarrow> page_info list \<Rightarrow> page_info list" where
  "edealloc addr [] = []"
| "edealloc addr (p # ps) =
     (case find_idx (\<lambda>t. start_addr t = addr) (pg_table p) of
        Some j \<Rightarrow>
          p\<lparr>pg_bits := fill (addr - pg_start p) (nat (mlength (pg_table p ! j))) 0 (pg_bits p),
            pg_table := (pg_table p)[j := no_block]\<rparr> # ps
      | None \<Rightarrow> p # edealloc addr ps)"

section \<open>Which bytes the search chooses\<close>

definition run :: "(nat \<Rightarrow> int) \<Rightarrow> int \<Rightarrow> nat \<Rightarrow> bool" where
  "run b sz m \<longleftrightarrow> m + nat sz \<le> PAGESIZE \<and> (\<forall>k < nat sz. b (m + k) \<noteq> 1)"

text \<open>The last bytes of a hole: a free run that a used byte or the end of the page follows.\<close>

definition tail_run :: "(nat \<Rightarrow> int) \<Rightarrow> int \<Rightarrow> nat \<Rightarrow> bool" where
  "tail_run b sz m \<longleftrightarrow> run b sz m \<and> (m + nat sz = PAGESIZE \<or> b (m + nat sz) = 1)"

definition chunk :: "(nat \<Rightarrow> int) \<Rightarrow> nat \<Rightarrow> int" where
  "chunk b j = int (scan_end b j) - int j + 1"

lemma scan_end_step: "j < PAGESIZE \<Longrightarrow> b j \<noteq> 1 \<Longrightarrow> scan_end b j = scan_end b (Suc j)"
  by (simp add: scan_end.simps [of b j])

lemma chunk_step:
  assumes "j < PAGESIZE" and "b j \<noteq> 1"
  shows "chunk b j = (if j + 1 < PAGESIZE \<and> b (j + 1) \<noteq> 1 then chunk b (j + 1) + 1 else 1)"
  using assms by (auto simp: chunk_def scan_end_step) (auto simp: scan_end.simps)

lemma scan_end_hole:
  assumes "j < PAGESIZE" and "b j \<noteq> 1"
  shows "j \<le> scan_end b j" and "scan_end b j < PAGESIZE"
    and "j \<le> k \<Longrightarrow> k \<le> scan_end b j \<Longrightarrow> b k \<noteq> 1"
    and "scan_end b j + 1 < PAGESIZE \<Longrightarrow> b (scan_end b j + 1) = 1"
proof -
  have e: "scan_end b j = scan_end b (Suc j)" using assms by (rule scan_end_step)
  with scan_end_ge [of "Suc j" b] assms(1) show "j \<le> scan_end b j" and "scan_end b j < PAGESIZE" by auto
  show "b k \<noteq> 1" if "j \<le> k" "k \<le> scan_end b j"
    using that assms(2) scan_end_free [of "Suc j" k b] e by (cases "k = j") auto
  show "b (scan_end b j + 1) = 1" if "scan_end b j + 1 < PAGESIZE"
    using that scan_end_stop [of "Suc j" b] assms(1) e by simp
qed

lemma scan_end_hole_last:
  assumes "j < PAGESIZE" and "b j \<noteq> 1"
  shows "scan_end b j + 1 = PAGESIZE \<or> b (scan_end b j + 1) = 1"
  using scan_end_hole(2,4) [of j b, OF assms] by (cases "scan_end b j + 1 < PAGESIZE") auto

lemma chunk_run:
  assumes "j < PAGESIZE" and "b j \<noteq> 1" and "0 < sz"
  shows "sz \<le> chunk b j \<longleftrightarrow> run b sz j"
proof
  assume "sz \<le> chunk b j"
  with scan_end_hole [of j b, OF assms(1,2)] assms(3) show "run b sz j"
    by (auto simp: chunk_def run_def)
next
  assume r: "run b sz j"
  show "sz \<le> chunk b j"
  proof (rule ccontr)
    assume short: "\<not> sz \<le> chunk b j"
    with r scan_end_hole(1) [of j b, OF assms(1,2)] have "scan_end b j + 1 < PAGESIZE"
      by (auto simp: chunk_def run_def)
    then have "b (j + (scan_end b j + 1 - j)) = 1"
      using scan_end_hole(1,4) [of j b, OF assms(1,2)] by simp
    moreover have "scan_end b j + 1 - j < nat sz"
      using short scan_end_hole(1) [of j b, OF assms(1,2)] by (simp add: chunk_def)
    ultimately show False using r by (auto simp: run_def)
  qed
qed

lemma chunk_tail_run:
  assumes "j < PAGESIZE" and "b j \<noteq> 1" and "0 < sz"
  shows "chunk b j = sz \<longleftrightarrow> tail_run b sz j"
proof
  assume c: "chunk b j = sz"
  then have "j + nat sz = scan_end b j + 1"
    using scan_end_hole(1) [of j b, OF assms(1,2)] by (simp add: chunk_def)
  with c chunk_run [of j b sz, OF assms] scan_end_hole_last [of j b, OF assms(1,2)]
  show "tail_run b sz j" by (simp add: tail_run_def)
next
  assume t: "tail_run b sz j"
  then have "run b sz j" by (simp add: tail_run_def)
  with chunk_run [of j b sz, OF assms] have le: "sz \<le> chunk b j" by simp
  show "chunk b j = sz"
  proof (rule ccontr)
    assume "chunk b j \<noteq> sz"
    with le assms(3) have "j + nat sz \<le> scan_end b j" by (simp add: chunk_def)
    with t scan_end_hole(2,3) [of j b, OF assms(1,2)] show False by (auto simp: tail_run_def)
  qed
qed

lemma run_free: "run b sz m \<Longrightarrow> 0 < sz \<Longrightarrow> m < PAGESIZE \<and> b m \<noteq> 1"
  by (auto simp: run_def dest: spec [of _ 0])

lemma run_shorter: "run b sz m \<Longrightarrow> 0 < sz \<Longrightarrow> m < PAGESIZE \<and> b m \<noteq> 1 \<and> sz \<le> chunk b m"
  using chunk_run run_free by blast

text \<open>Every hole that is large enough contains a tail run of exactly the requested size.\<close>

lemma run_has_tail:
  assumes "run b sz j" and "0 < sz"
  shows "\<exists>m \<ge> j. tail_run b sz m"
proof -
  have j: "j < PAGESIZE" "b j \<noteq> 1" and c: "sz \<le> chunk b j"
    using run_shorter [OF assms] by auto
  define m where "m = scan_end b j + 1 - nat sz"
  have m: "j \<le> m" "m + nat sz = scan_end b j + 1"
    using c assms(2) scan_end_hole(1) [of j b, OF j] by (auto simp: m_def chunk_def)
  then have "tail_run b sz m"
    using scan_end_hole(2,3) [of j b, OF j] scan_end_hole_last [of j b, OF j]
    by (auto simp: tail_run_def run_def)
  with m(1) show ?thesis by blast
qed

lemma escan_exact: "escan i sz j b (ix, off, sz) = (ix, off, sz)"
proof (induction "PAGESIZE - j" arbitrary: j)
  case 0
  then show ?case by (subst escan.simps) simp
next
  case (Suc d)
  then show ?case by (subst escan.simps) (auto simp: Let_def)
qed

lemma escan_first_tail:
  assumes "0 < sz" and "sz < bs"
  shows "(\<exists>m \<ge> j. tail_run b sz m \<and> (\<forall>m'. j \<le> m' \<and> m' < m \<longrightarrow> \<not> tail_run b sz m')
            \<and> escan i sz j b (ix, off, bs) = (i, m, sz))
       \<or> ((\<forall>m \<ge> j. \<not> run b sz m) \<and> escan i sz j b (ix, off, bs) = (ix, off, bs))"
    (is "?tail j ix off bs \<or> ?none j ix off bs")
  using assms(2)
proof (induction "PAGESIZE - j" arbitrary: j ix off bs)
  case 0
  then show ?case using assms(1) by (auto simp: escan.simps [of _ _ j] run_def)
next
  case (Suc d)
  then have j: "j < PAGESIZE" by simp
  note IH = Suc.hyps(1) [of "j + 1"]
  have later: "?tail j ix off bs"
    if eq: "escan i sz j b (ix, off, bs) = escan i sz (j + 1) b (ix', off', bs')"
      and nt: "\<not> tail_run b sz j" and t: "?tail (j + 1) ix' off' bs'" for ix' off' bs'
    using t unfolding eq by (metis Suc_eq_plus1 Suc_leD Suc_leI le_neq_implies_less nt)
  show ?case
  proof (cases "b j = 1")
    case True
    then have nt: "\<not> tail_run b sz j" and nr: "\<not> run b sz j"
      using run_free [OF _ assms(1)] by (auto simp: tail_run_def)
    have eq: "escan i sz j b (ix, off, bs) = escan i sz (j + 1) b (ix, off, bs)"
      using j True by (simp add: escan.simps [of _ _ j])
    have "?tail (j + 1) ix off bs \<or> ?none (j + 1) ix off bs"
      using Suc.hyps(2) Suc.prems by (intro IH) auto
    then show ?thesis
    proof
      assume "?none (j + 1) ix off bs"
      with eq nr show ?thesis by (metis Suc_eq_plus1 Suc_leI le_neq_implies_less)
    qed (use later [OF eq nt] in blast)
  next
    case False
    note cr = chunk_run [of j b sz, OF j False assms(1)] and ct = chunk_tail_run [of j b sz, OF j False assms(1)]
    consider (small) "chunk b j < sz" | (exact) "chunk b j = sz" | (big) "sz < chunk b j" by linarith
    then show ?thesis
    proof cases
      case small
      then have eq: "escan i sz j b (ix, off, bs) = escan i sz (j + 1) b (ix, off, bs)"
        using j False by (simp add: escan.simps [of _ _ j] Let_def chunk_def)
      have "?tail (j + 1) ix off bs \<or> ?none (j + 1) ix off bs"
        using Suc.hyps(2) Suc.prems by (intro IH) auto
      then show ?thesis
      proof
        assume "?none (j + 1) ix off bs"
        with eq cr small show ?thesis by (metis Suc_eq_plus1 Suc_leI le_neq_implies_less linorder_not_le)
      qed (use later [OF eq] ct small in auto)
    next
      case exact
      then have "escan i sz j b (ix, off, bs) = (i, j, sz)"
        using j False Suc.prems by (simp add: escan.simps [of _ _ j] Let_def chunk_def escan_exact)
      with ct exact show ?thesis by auto
    next
      case big
      obtain ix' off' bs' where best: "(if chunk b j < bs then (i, j, chunk b j) else (ix, off, bs)) = (ix', off', bs')"
        using prod_cases3 by blast
      have eq: "escan i sz j b (ix, off, bs) = escan i sz (j + 1) b (ix', off', bs')"
        using j False big best by (auto simp: escan.simps [of _ _ j] Let_def chunk_def split: if_splits)
      have "sz < bs'" using big Suc.prems best by (auto split: if_splits)
      then have step: "?tail (j + 1) ix' off' bs' \<or> ?none (j + 1) ix' off' bs'"
        using Suc.hyps(2) by (intro IH) auto
      have nt: "\<not> tail_run b sz j" using ct big by simp
      obtain m where "m \<ge> j" and "tail_run b sz m"
        using run_has_tail [of b sz j] cr big assms(1) by auto
      with nt have "m \<ge> j + 1" and "run b sz m"
        by (auto simp: tail_run_def Suc_le_eq le_less)
      with step have "?tail (j + 1) ix' off' bs'" by blast
      from later [OF eq nt this] show ?thesis by blast
    qed
  qed
qed

lemma epages_found:
  "ix \<noteq> -1 \<Longrightarrow> epages f mm sz n (ix, off, sz) ps = (Some (ix, off, sz), ps)"
  by (induction ps arbitrary: n) (auto simp: escan_exact)

lemma epages_first_page:
  assumes "0 < sz" and "sz < bs" and "i < length ps" and "\<forall>k \<le> i. pg_start (ps ! k) \<noteq> 0"
    and "\<forall>k < i. \<forall>m. \<not> run (pg_bits (ps ! k)) sz m" and "run (pg_bits (ps ! i)) sz m0"
  shows "\<exists>m. tail_run (pg_bits (ps ! i)) sz m \<and> (\<forall>m' < m. \<not> tail_run (pg_bits (ps ! i)) sz m')
           \<and> epages f mm sz n (-1, 0, bs) ps = (Some (int (n + i), m, sz), ps)"
  using assms
proof (induction ps arbitrary: i n)
  case Nil
  then show ?case by simp
next
  case (Cons p ps)
  have mapped: "pg_start p \<noteq> 0" using Cons.prems(4) by auto
  have scan: "(\<exists>m. tail_run (pg_bits p) sz m \<and> (\<forall>m' < m. \<not> tail_run (pg_bits p) sz m')
        \<and> escan (int n) sz 0 (pg_bits p) (-1, 0, bs) = (int n, m, sz))
      \<or> ((\<forall>m. \<not> run (pg_bits p) sz m) \<and> escan (int n) sz 0 (pg_bits p) (-1, 0, bs) = (-1, 0, bs))"
    using escan_first_tail [OF Cons.prems(1,2), of 0 "pg_bits p" "int n" "-1" 0] by simp
  show ?case
  proof (cases i)
    case 0
    with Cons.prems(6) have "run (pg_bits p) sz m0" by simp
    with scan obtain m where "tail_run (pg_bits p) sz m" and "\<forall>m' < m. \<not> tail_run (pg_bits p) sz m'"
      and "escan (int n) sz 0 (pg_bits p) (-1, 0, bs) = (int n, m, sz)" by blast
    with mapped 0 show ?thesis by (auto simp: epages_found)
  next
    case (Suc i')
    have "\<not> run (pg_bits p) sz m" for m using Cons.prems(5) Suc by force
    with scan have "escan (int n) sz 0 (pg_bits p) (-1, 0, bs) = (-1, 0, bs)"
      by (auto simp: tail_run_def)
    moreover have "\<exists>m. tail_run (pg_bits (ps ! i')) sz m \<and> (\<forall>m' < m. \<not> tail_run (pg_bits (ps ! i')) sz m')
        \<and> epages f mm sz (n + 1) (-1, 0, bs) ps = (Some (int (n + 1 + i'), m, sz), ps)"
    proof (rule Cons.IH)
      show "\<forall>k \<le> i'. pg_start (ps ! k) \<noteq> 0" using Cons.prems(4) Suc by force
      show "\<forall>k < i'. \<forall>m. \<not> run (pg_bits (ps ! k)) sz m" using Cons.prems(5) Suc by force
    qed (use Cons.prems Suc in auto)
    ultimately show ?thesis using mapped Suc by auto
  qed
qed

lemma run_lt_INF: "run b sz m \<Longrightarrow> sz < INF_const"
  by (auto simp: run_def INF_const_def)

lemma ealloc_first_page:
  assumes "0 < sz" and "sz mod 256 = 0" and "i < length ps" and "\<forall>k \<le> i. pg_start (ps ! k) \<noteq> 0"
    and "\<forall>k < i. \<forall>m. \<not> run (pg_bits (ps ! k)) sz m" and "run (pg_bits (ps ! i)) sz m0"
  shows "\<exists>m. tail_run (pg_bits (ps ! i)) sz m \<and> (\<forall>m' < m. \<not> tail_run (pg_bits (ps ! i)) sz m')
           \<and> ealloc f mm sz ps = (pg_start (ps ! i) + m, ps[i := snd (etake sz m (ps ! i))])"
proof -
  obtain m where t: "tail_run (pg_bits (ps ! i)) sz m"
    and least: "\<forall>m' < m. \<not> tail_run (pg_bits (ps ! i)) sz m'"
    and ep: "epages f mm sz 0 (-1, 0, INF_const) ps = (Some (int i, m, sz), ps)"
    using epages_first_page [OF assms(1) run_lt_INF [OF assms(6)] assms(3-6), of f mm 0] by auto
  have "fst (etake sz m (ps ! i)) = pg_start (ps ! i) + m"
    by (simp add: etake_def Let_def split: option.splits)
  then have "ealloc f mm sz ps = (pg_start (ps ! i) + m, ps[i := snd (etake sz m (ps ! i))])"
    using assms(2) ep by (simp add: ealloc_def split_beta Let_def)
  with t least show ?thesis by blast
qed

section \<open>Properties\<close>

definition epage :: "nat \<Rightarrow> (nat \<Rightarrow> int) \<Rightarrow> page_info" where
  "epage a b = \<lparr>pg_start = a, pg_bits = b, pg_table = replicate 16 no_block\<rparr>"

text \<open>
  What \<open>ealloc.c\<close> really allocates: because the scan does not skip to the end of the
  hole it has measured, the block is always the last \<open>size\<close> bytes of the first hole, in
  the first page, that is large enough; only that page changes.
\<close>

theorem ealloc_takes_tail_of_first_hole:
  assumes "0 < sz" and "sz mod 256 = 0" and "i < length ps" and "\<forall>k \<le> i. pg_start (ps ! k) \<noteq> 0"
    and "\<forall>k < i. \<forall>m. \<not> run (pg_bits (ps ! k)) sz m" and "run (pg_bits (ps ! i)) sz m0"
  shows "\<exists>m. tail_run (pg_bits (ps ! i)) sz m \<and> (\<forall>m' < m. \<not> tail_run (pg_bits (ps ! i)) sz m')
           \<and> ealloc f mm sz ps = (pg_start (ps ! i) + m, ps[i := snd (etake sz m (ps ! i))])"
  using assms by (rule ealloc_first_page)

lemma empty_page_run: "run (\<lambda>_. 0) 256 0"
  by (simp add: run_def)

lemma empty_page_tail: "tail_run (\<lambda>_. 0) 256 m \<longleftrightarrow> m = 3840"
  by (auto simp: tail_run_def run_def)

theorem ealloc_takes_tail_of_first_hole_witness:
  "(0::int) < 256 \<and> (256::int) mod 256 = 0 \<and> run (pg_bits (epage 8192 (\<lambda>_. 0))) 256 0
   \<and> fst (ealloc 1 (\<lambda>_. 0) 256 [epage 8192 (\<lambda>_. 0)]) = 12032"
proof -
  have "\<exists>m. tail_run (pg_bits ([epage 8192 (\<lambda>_. 0)] ! 0)) 256 m
      \<and> (\<forall>m' < m. \<not> tail_run (pg_bits ([epage 8192 (\<lambda>_. 0)] ! 0)) 256 m')
      \<and> ealloc 1 (\<lambda>_. 0) 256 [epage 8192 (\<lambda>_. 0)] =
          (pg_start ([epage 8192 (\<lambda>_. 0)] ! 0) + m,
           [epage 8192 (\<lambda>_. 0)][0 := snd (etake 256 m ([epage 8192 (\<lambda>_. 0)] ! 0))])"
    by (rule ealloc_takes_tail_of_first_hole [where ?m0.0 = 0]) (simp_all add: epage_def empty_page_run)
  then show ?thesis by (auto simp: epage_def empty_page_tail empty_page_run)
qed

definition two_holes :: "nat \<Rightarrow> int" where
  "two_holes k = (if k < 1024 \<or> (2048 \<le> k \<and> k < 2304) then 0 else 1)"

text \<open>
  It is therefore not a best fit: with a hole of 1024 bytes in front of a hole of exactly
  256 bytes, a request for 256 bytes is cut from the end of the larger hole.
\<close>

theorem ealloc_is_not_best_fit:
  assumes "a \<noteq> 0"
  shows "tail_run two_holes 256 2048 \<and> two_holes 2047 = 1
         \<and> fst (ealloc f mm 256 (epage a two_holes # ps)) = a + 768"
proof -
  let ?p = "epage a two_holes"
  obtain m where t: "tail_run two_holes 256 m" and least: "\<forall>m' < m. \<not> tail_run two_holes 256 m'"
    and e: "fst (ealloc f mm 256 (?p # ps)) = a + m"
    using ealloc_first_page [of 256 0 "?p # ps" 0 f mm] assms
    by (auto simp: epage_def two_holes_def run_def)
  have "tail_run two_holes 256 768"
    by (simp add: tail_run_def run_def two_holes_def)
  with least have le: "m \<le> 768" by (meson linorder_not_le)
  have "m = 768"
  proof (rule ccontr)
    assume "m \<noteq> 768"
    with le t show False by (auto simp: tail_run_def two_holes_def)
  qed
  with e show ?thesis
    by (auto simp: tail_run_def run_def two_holes_def)
qed

theorem ealloc_is_not_best_fit_witness:
  "(8192::nat) \<noteq> 0 \<and> fst (ealloc 1 (\<lambda>_. 0) 256 [epage 8192 two_holes]) = 8960"
  using ealloc_is_not_best_fit [of 8192 1 "\<lambda>_. 0" "[]"] by simp

text \<open>
  A failed \<open>mmap\<close> is remembered as if it were a page: the first request returns
  \<open>NULL\<close>, and the next one returns an address computed from \<open>MAP_FAILED\<close>. In the same way
  \<open>cleanup\<close> keeps the addresses of the pages it has unmapped, and the next request hands
  out unmapped memory.
\<close>

theorem ealloc_hands_out_unmapped_memory:
  assumes "map_failed \<noteq> 0" and "a \<noteq> 0"
  shows "(let (p, ps1) = ealloc map_failed (\<lambda>_. map_failed) 256 (epage 0 (\<lambda>_. 0) # ps);
              (q, ps2) = ealloc map_failed (\<lambda>_. map_failed) 256 ps1
          in p = 0 \<and> q = map_failed + 3840)
       \<and> (let (unmapped, ps1) = ecleanup [epage a (\<lambda>_. 0)]; (q, ps2) = ealloc map_failed mm 256 ps1
          in a \<in> set unmapped \<and> q = a + 3840)"
proof -
  have first: "fst (ealloc f mm 256 (p # ps)) = pg_start p + 3840"
    if "pg_start p \<noteq> 0" and "pg_bits p = (\<lambda>_. 0)" for f mm p ps
    using ealloc_first_page [of 256 0 "p # ps" 0 f mm] that
    by (auto simp: empty_page_run empty_page_tail)
  have "ealloc map_failed (\<lambda>_. map_failed) 256 (epage 0 (\<lambda>_. 0) # ps)
      = (0, epage map_failed (\<lambda>_. 0) # ps)"
    by (simp add: ealloc_def epage_def)
  moreover have "ecleanup [epage a (\<lambda>_. 0)] = ([a], [epage a (\<lambda>_. 0)])"
    using assms(2) by (auto simp: ecleanup_def clear_page_def epage_def fun_eq_iff map_replicate_const)
  ultimately show ?thesis
    using first [of "epage map_failed (\<lambda>_. 0)"] first [of "epage a (\<lambda>_. 0)"] assms
    by (auto simp: split_beta epage_def)
qed

theorem ealloc_hands_out_unmapped_memory_witness:
  "(7::nat) \<noteq> 0 \<and> (8192::nat) \<noteq> 0 \<and>
   (let (unmapped, ps1) = ecleanup [epage 8192 (\<lambda>_. 0)]; (q, ps2) = ealloc 7 (\<lambda>_. 0) 256 ps1
    in 8192 \<in> set unmapped \<and> q = 12032)"
  using ealloc_hands_out_unmapped_memory [of 7 8192 "[]" "\<lambda>_. 0"] by simp

end
