(* ===== verification/Lab_Practice.thy ===== *)
theory Lab_Practice
  imports Lab_Ealloc
begin

text \<open>
  The second elastic allocator, \<open>Lab-Memory Management/Practice/malloc-code/ealloc.c\<close>. Its
  structures have the shape of the first one's (\<open>page_info\<close> with \<open>bits\<close> and
  \<open>alloc_table\<close>), so the records of the previous theory are used; the search differs: it
  jumps over the hole it has measured, and \<open>cleanup\<close> forgets the unmapped pages.
\<close>

section \<open>Operations\<close>

definition pinit_alloc :: "page_info list \<Rightarrow> page_info list" where
  "pinit_alloc ps = map (\<lambda>p. clear_page (p\<lparr>pg_start := 0\<rparr>)) ps"

function pscan :: "int \<Rightarrow> int \<Rightarrow> nat \<Rightarrow> (nat \<Rightarrow> int) \<Rightarrow> fit \<Rightarrow> fit" where
  "pscan i n j b best =
     (if j < PAGESIZE then
        if b j = 1 then pscan i n (j + 1) b best
        else
          let e = scan_end b j; curr_size = int e - int j + 1 in
          if curr_size \<ge> n \<and> curr_size < snd (snd best)
          then pscan i n (e + 1) b (i, j, curr_size)
          else pscan i n (e + 1) b best
      else best)"
  by pat_completeness auto
termination
proof (relation "measure (\<lambda>(i, n, j, b, best). PAGESIZE - j)", goal_cases)
  case 1
  show ?case by simp
next
  case 2
  then show ?case by simp
next
  case (3 i n j b best e c)
  then show ?case using scan_end_hole(1) [of j b] by auto
next
  case (4 i n j b best e c)
  then show ?case using scan_end_hole(1) [of j b] by auto
qed

declare pscan.simps [simp del]

fun ppages :: "(nat \<Rightarrow> nat) \<Rightarrow> int \<Rightarrow> nat \<Rightarrow> fit \<Rightarrow> page_info list \<Rightarrow> fit \<times> page_info list" where
  "ppages mmap_ret n i best [] = (best, [])"
| "ppages mmap_ret n i best (p # ps) =
     (if pg_start p = 0 \<and> fst best \<noteq> -1 then
        let (r, ps') = ppages mmap_ret n (i + 1) best ps in (r, p # ps')
      else
        let p = (if pg_start p = 0 then p\<lparr>pg_start := mmap_ret i\<rparr> else p);
            best = pscan (int i) n 0 (pg_bits p) best;
            (r, ps') = ppages mmap_ret n (i + 1) best ps
        in (r, p # ps'))"

definition palloc :: "(nat \<Rightarrow> nat) \<Rightarrow> int \<Rightarrow> page_info list \<Rightarrow> nat \<times> page_info list" where
  "palloc mmap_ret n ps =
     (if n < 0 \<or> n mod 256 > 0 then (0, ps)
      else case ppages mmap_ret n 0 (-1, 0, int PAGESIZE + 1) ps of
        ((ix, off, best_fit_size), ps) \<Rightarrow>
          if ix = -1 then (0, ps)
          else let (a, p) = etake n off (ps ! nat ix) in (a, ps[nat ix := p]))"

fun pdealloc :: "nat \<Rightarrow> page_info list \<Rightarrow> page_info list" where
  "pdealloc addr [] = []"
| "pdealloc addr (p # ps) =
     (case find_idx (\<lambda>t. start_addr t = addr) (pg_table p) of
        Some j \<Rightarrow>
          p\<lparr>pg_bits := fill (addr - pg_start p) (nat (mlength (pg_table p ! j))) 0 (pg_bits p),
            pg_table := (pg_table p)[j := no_block]\<rparr> # ps
      | None \<Rightarrow> p # pdealloc addr ps)"

definition pcleanup :: "page_info list \<Rightarrow> nat list \<times> page_info list" where
  "pcleanup ps =
     (filter (\<lambda>a. a \<noteq> 0) (map pg_start ps), map (\<lambda>p. clear_page (p\<lparr>pg_start := 0\<rparr>)) ps)"

section \<open>Best fit\<close>

text \<open>A hole is a maximal free run: no free byte touches it on either side.\<close>

definition hole :: "(nat \<Rightarrow> int) \<Rightarrow> nat \<Rightarrow> int \<Rightarrow> bool" where
  "hole b m c \<longleftrightarrow> 0 < c \<and> tail_run b c m \<and> (m = 0 \<or> b (m - 1) = 1)"

lemma hole_start: "hole b m c \<Longrightarrow> m < PAGESIZE \<and> b m \<noteq> 1 \<and> chunk b m = c"
  using chunk_tail_run [of m b c] run_free [of b c m] by (auto simp: hole_def tail_run_def)

lemma holeI: "m < PAGESIZE \<Longrightarrow> b m \<noteq> 1 \<Longrightarrow> m = 0 \<or> b (m - 1) = 1 \<Longrightarrow> hole b m (chunk b m)"
  using chunk_tail_run [of m b "chunk b m"] scan_end_hole(1) [of m b] by (auto simp: hole_def chunk_def)

definition fit_in :: "(nat \<Rightarrow> int) \<Rightarrow> int \<Rightarrow> int \<Rightarrow> fit \<Rightarrow> bool" where
  "fit_in b i n r \<longleftrightarrow> fst r = i \<and> hole b (fst (snd r)) (snd (snd r)) \<and> n \<le> snd (snd r)"

lemma pscan_best:
  assumes "j = 0 \<or> b (j - 1) = 1 \<or> PAGESIZE \<le> j \<or> b j = 1"
  shows "snd (snd (pscan i n j b best)) \<le> snd (snd best)
       \<and> (\<forall>m c. j \<le> m \<longrightarrow> hole b m c \<longrightarrow> n \<le> c \<longrightarrow> snd (snd (pscan i n j b best)) \<le> c)
       \<and> (pscan i n j b best = best \<or> fit_in b i n (pscan i n j b best))"
  using assms
proof (induction "PAGESIZE - j" arbitrary: j best rule: less_induct)
  case less
  consider (out) "PAGESIZE \<le> j" | (used) "j < PAGESIZE" "b j = 1" | (free) "j < PAGESIZE" "b j \<noteq> 1"
    by linarith
  then show ?case
  proof cases
    case out
    then show ?thesis by (auto simp: pscan.simps [of i n j] dest: hole_start)
  next
    case used
    have next_hole: "j + 1 \<le> m" if "j \<le> m" "hole b m c" for m c
      using used hole_start [OF that(2)] that(1) by (cases "m = j") auto
    have eq: "pscan i n j b best = pscan i n (j + 1) b best"
      using used by (simp add: pscan.simps [of i n j])
    have "snd (snd (pscan i n (j + 1) b best)) \<le> snd (snd best)
       \<and> (\<forall>m c. j + 1 \<le> m \<longrightarrow> hole b m c \<longrightarrow> n \<le> c \<longrightarrow> snd (snd (pscan i n (j + 1) b best)) \<le> c)
       \<and> (pscan i n (j + 1) b best = best \<or> fit_in b i n (pscan i n (j + 1) b best))"
      using used by (intro less.hyps) auto
    with next_hole show ?thesis unfolding eq by blast
  next
    case free
    let ?e = "scan_end b j"
    define best' where
      "best' = (if n \<le> chunk b j \<and> chunk b j < snd (snd best) then (i, j, chunk b j) else best)"
    note e = scan_end_hole [of j b, OF free]
    have eq: "pscan i n j b best = pscan i n (?e + 1) b best'"
      using free by (simp add: pscan.simps [of i n j] Let_def best'_def chunk_def)
    have IH: "snd (snd (pscan i n (?e + 1) b best')) \<le> snd (snd best')
       \<and> (\<forall>m c. ?e + 1 \<le> m \<longrightarrow> hole b m c \<longrightarrow> n \<le> c \<longrightarrow> snd (snd (pscan i n (?e + 1) b best')) \<le> c)
       \<and> (pscan i n (?e + 1) b best' = best' \<or> fit_in b i n (pscan i n (?e + 1) b best'))"
      using e(1,2) scan_end_hole_last [of j b, OF free] free by (intro less.hyps) auto
    have here: "hole b j (chunk b j)" using free less.prems by (intro holeI) auto
    have cover: "m = j \<and> c = chunk b j \<or> ?e + 1 \<le> m" if "j \<le> m" "hole b m c" for m c
    proof (cases "m = j")
      case True
      then show ?thesis using hole_start [OF that(2)] by simp
    next
      case False
      with that have "b (m - 1) = 1" by (auto simp: hole_def)
      with e(3) [of "m - 1"] False that(1) show ?thesis by force
    qed
    have "snd (snd best') \<le> snd (snd best)" and "n \<le> chunk b j \<Longrightarrow> snd (snd best') \<le> chunk b j"
      and "best' = best \<or> fit_in b i n best'"
      using here by (auto simp: best'_def fit_in_def)
    moreover have "snd (snd (pscan i n (?e + 1) b best')) \<le> c" if "j \<le> m" "hole b m c" "n \<le> c" for m c
      using cover [OF that(1,2)] IH calculation(2) that(2,3) by force
    ultimately show ?thesis using IH unfolding eq by force
  qed
qed

definition hole_of :: "page_info list \<Rightarrow> nat \<Rightarrow> nat \<Rightarrow> int \<Rightarrow> bool" where
  "hole_of ps k m c \<longleftrightarrow> k < length ps \<and> pg_start (ps ! k) \<noteq> 0 \<and> hole (pg_bits (ps ! k)) m c"

definition pages_ok :: "page_info list \<Rightarrow> nat \<Rightarrow> int \<Rightarrow> fit \<Rightarrow> fit \<Rightarrow> bool" where
  "pages_ok ps i n best r \<longleftrightarrow> snd (snd r) \<le> snd (snd best)
   \<and> (\<forall>k m c. hole_of ps k m c \<longrightarrow> n \<le> c \<longrightarrow> snd (snd r) \<le> c)
   \<and> (r = best \<or> (\<exists>k < length ps. fit_in (pg_bits (ps ! k)) (int (i + k)) n r))"

lemma hole_of_Cons:
  "hole_of (p # ps) k m c \<longleftrightarrow>
     k = 0 \<and> pg_start p \<noteq> 0 \<and> hole (pg_bits p) m c \<or> (\<exists>k'. k = Suc k' \<and> hole_of ps k' m c)"
  by (cases k) (auto simp: hole_of_def)

lemma pages_ok_skip:
  assumes "pages_ok ps (i + 1) n best r" and "pg_start p = 0"
  shows "pages_ok (p # ps) i n best r"
proof -
  have "r = best \<or> (\<exists>k < length (p # ps). fit_in (pg_bits ((p # ps) ! k)) (int (i + k)) n r)"
  proof (cases "r = best")
    case False
    with assms(1) obtain k where "k < length ps" and "fit_in (pg_bits (ps ! k)) (int (i + 1 + k)) n r"
      by (auto simp: pages_ok_def)
    then show ?thesis by (intro disjI2 exI [of _ "Suc k"]) simp
  qed simp
  with assms show ?thesis by (auto simp: pages_ok_def hole_of_Cons)
qed

lemma pages_ok_scan:
  assumes "pages_ok ps (i + 1) n best' r" and "best' = pscan (int i) n 0 (pg_bits p) best"
  shows "pages_ok (p # ps) i n best r"
proof -
  have scan: "snd (snd best') \<le> snd (snd best)"
    "\<forall>m c. hole (pg_bits p) m c \<longrightarrow> n \<le> c \<longrightarrow> snd (snd best') \<le> c"
    "best' = best \<or> fit_in (pg_bits p) (int i) n best'"
    using pscan_best [of 0 "pg_bits p" "int i" n best] by (auto simp: assms(2))
  have le: "snd (snd r) \<le> snd (snd best')" using assms(1) by (simp add: pages_ok_def)
  have "r = best \<or> (\<exists>k < length (p # ps). fit_in (pg_bits ((p # ps) ! k)) (int (i + k)) n r)"
  proof (cases "r = best'")
    case True
    with scan(3) show ?thesis by force
  next
    case False
    with assms(1) obtain k where "k < length ps" and "fit_in (pg_bits (ps ! k)) (int (i + 1 + k)) n r"
      by (auto simp: pages_ok_def)
    then show ?thesis by (intro disjI2 exI [of _ "Suc k"]) simp
  qed
  moreover have "snd (snd r) \<le> c" if "hole_of (p # ps) k m c" "n \<le> c" for k m c
    using that assms(1) scan(2) le by (fastforce simp: hole_of_Cons pages_ok_def)
  ultimately show ?thesis using le scan(1) by (simp add: pages_ok_def)
qed

lemma ppages_best: "pages_ok ps i n best (fst (ppages mm n i best ps))"
proof (induction ps arbitrary: i best)
  case Nil
  then show ?case by (simp add: pages_ok_def hole_of_def)
next
  case (Cons p ps)
  show ?case
  proof (cases "pg_start p = 0 \<and> fst best \<noteq> -1")
    case True
    with pages_ok_skip [OF Cons.IH] show ?thesis by (simp add: split_beta)
  next
    case False
    then have "fst (ppages mm n i best (p # ps))
      = fst (ppages mm n (i + 1) (pscan (int i) n 0 (pg_bits p) best) ps)"
      by (auto simp: split_beta Let_def)
    with pages_ok_scan [OF Cons.IH refl] show ?thesis by simp
  qed
qed

lemma ppages_length: "length (snd (ppages mm n i best ps)) = length ps"
  by (induction ps arbitrary: i best) (auto simp: split_beta Let_def)

section \<open>Properties\<close>

text \<open>
  C26. The practice allocator is a best fit: whenever it returns a block of a positive size,
  the block starts a hole (a maximal run of free bytes) that is large enough, and no hole of
  any mapped page that is large enough is smaller.
\<close>

theorem palloc_is_best_fit:
  assumes "0 < n" and "palloc mm n ps = (a, ps')" and "a \<noteq> 0"
  shows "\<exists>k m c. k < length ps \<and> a = pg_start (ps' ! k) + m \<and> hole (pg_bits (ps ! k)) m c \<and> n \<le> c
           \<and> (\<forall>k' m' c'. hole_of ps k' m' c' \<longrightarrow> n \<le> c' \<longrightarrow> c \<le> c')"
proof -
  obtain ix off c ps1 where pp: "ppages mm n 0 (-1, 0, int PAGESIZE + 1) ps = ((ix, off, c), ps1)"
    by (metis prod_cases3 surj_pair)
  have ret: "ix \<noteq> -1" and a: "a = pg_start (ps1 ! nat ix) + off"
    and ps': "ps' = ps1[nat ix := snd (etake n off (ps1 ! nat ix))]"
    using assms pp
    by (auto simp: palloc_def split_beta Let_def etake_def split: if_splits option.splits)
  have best: "pages_ok ps 0 n (-1, 0, int PAGESIZE + 1) (ix, off, c)"
    using ppages_best [of ps 0 n "(-1, 0, int PAGESIZE + 1)" mm] pp by simp
  from best ret obtain k where k: "k < length ps" and f: "fit_in (pg_bits (ps ! k)) (int k) n (ix, off, c)"
    by (auto simp: pages_ok_def)
  then have ix: "nat ix = k" by (auto simp: fit_in_def)
  have "length ps1 = length ps" using ppages_length [of mm n 0 "(-1, 0, int PAGESIZE + 1)" ps] pp by simp
  then have "pg_start (ps' ! k) = pg_start (ps1 ! k)"
    using k by (simp add: ps' ix etake_def Let_def split: option.splits)
  with a f k best show ?thesis
    by (intro exI [of _ k] exI [of _ off] exI [of _ c]) (auto simp: ix fit_in_def pages_ok_def)
qed

lemma ppages_mapped: "\<forall>p \<in> set ps. pg_start p \<noteq> 0 \<Longrightarrow> snd (ppages mm n i best ps) = ps"
  by (induction ps arbitrary: i best) (auto simp: split_beta Let_def)

lemma palloc_succeeds:
  assumes "hole_of ps k m c" and "0 < n" and "n \<le> c" and "n mod 256 = 0" and "\<forall>p \<in> set ps. pg_start p \<noteq> 0"
  shows "fst (palloc mm n ps) \<noteq> 0"
proof -
  obtain ix off c' where pp: "ppages mm n 0 (-1, 0, int PAGESIZE + 1) ps = ((ix, off, c'), ps)"
    using ppages_mapped [OF assms(5)] by (metis prod_cases3 surjective_pairing snd_conv)
  have best: "pages_ok ps 0 n (-1, 0, int PAGESIZE + 1) (ix, off, c')"
    using ppages_best [of ps 0 n "(-1, 0, int PAGESIZE + 1)" mm] pp by simp
  have "c' \<le> c" using best assms(1,3) by (auto simp: pages_ok_def)
  moreover have "c \<le> int PAGESIZE"
    using assms(1) by (auto simp: hole_of_def hole_def tail_run_def run_def)
  ultimately obtain k where "k < length ps" and "ix = int k"
    using best by (auto simp: pages_ok_def fit_in_def)
  with pp assms show ?thesis
    by (auto simp: palloc_def split_beta Let_def etake_def split: option.splits)
qed

lemma etake_start [simp]: "pg_start (snd (etake n off p)) = pg_start p"
  by (simp add: etake_def Let_def split: option.splits)

lemma map_start_update: "map pg_start (ps[k := snd (etake n off (ps ! k))]) = map pg_start ps"
  by (cases "k < length ps") (simp_all add: map_update list_update_same_conv list_update_beyond not_less)

lemma palloc_starts:
  "\<forall>p \<in> set ps. pg_start p \<noteq> 0 \<Longrightarrow> map pg_start (snd (palloc mm n ps)) = map pg_start ps"
  using ppages_mapped [of ps mm n 0 "(-1, 0, int PAGESIZE + 1)"]
  by (auto simp: palloc_def split_beta Let_def map_start_update simp del: map_update)

lemma two_holes_small: "hole two_holes 2048 256"
  by (simp add: hole_def tail_run_def run_def two_holes_def)

lemma two_holes_only: "hole two_holes m 256 \<Longrightarrow> m = 2048"
  by (auto simp: hole_def tail_run_def run_def two_holes_def split: if_splits dest: spec [of _ 0])

theorem palloc_is_best_fit_witness:
  "(0::int) < 256 \<and> fst (palloc (\<lambda>_. 0) 256 [epage 8192 two_holes]) = 10240"
proof -
  let ?ps = "[epage 8192 two_holes]"
  have h: "hole_of ?ps 0 2048 256"
    by (simp add: hole_of_def epage_def two_holes_small)
  have "fst (palloc (\<lambda>_. 0) 256 ?ps) \<noteq> 0"
    using palloc_succeeds [OF h] by (simp add: epage_def)
  then obtain k m c where k: "k < length ?ps" and a: "fst (palloc (\<lambda>_. 0) 256 ?ps) = pg_start (snd (palloc (\<lambda>_. 0) 256 ?ps) ! k) + m"
    and hc: "hole (pg_bits (?ps ! k)) m c" "256 \<le> c" and least: "\<forall>k' m' c'. hole_of ?ps k' m' c' \<longrightarrow> 256 \<le> c' \<longrightarrow> c \<le> c'"
    using palloc_is_best_fit [of 256 "\<lambda>_. 0" ?ps] by (metis prod.collapse zero_less_numeral)
  from least h have "c \<le> 256" by blast
  with hc(2) have "c = 256" by simp
  with hc(1) k have "m = 2048" by (intro two_holes_only) (simp add: epage_def)
  moreover have "map pg_start (snd (palloc (\<lambda>_. 0) 256 ?ps)) = [8192]"
    by (subst palloc_starts) (simp_all add: epage_def)
  then have "pg_start (snd (palloc (\<lambda>_. 0) 256 ?ps) ! 0) = 8192" by (auto simp: map_eq_Cons_conv)
  ultimately show ?thesis using a k by simp
qed

end
