(* ===== verification/Kstring.thy ===== *)
theory Kstring
  imports Prelude
begin

unbundle bit_operations_syntax

text \<open>
  Byte-addressed memory and the block operations of \<open>xv6-public-master/string.c\<close>, with the
  string instructions of \<open>x86.h\<close> they use. An address is a 32-bit word and memory is a total
  function from addresses to bytes; a C pointer walk is address arithmetic modulo \<open>2^32\<close>.
  Loop counters of type \<open>uint\<close> are counted down as \<open>nat\<close>; the two operations whose counter is an
  \<open>int\<close> (\<open>strncpy\<close>, \<open>safestrcpy\<close>) take it as \<open>int\<close>, so that a count that is not positive is a
  case of its own.
\<close>

section \<open>Memory\<close>

type_synonym u8 = "8 word"
type_synonym u32 = "32 word"
type_synonym memory = "u32 \<Rightarrow> u8"

definition rd32 :: "memory \<Rightarrow> u32 \<Rightarrow> u32" where
  "rd32 m a = ucast (m a) OR push_bit 8 (ucast (m (a + 1))) OR push_bit 16 (ucast (m (a + 2)))
     OR push_bit 24 (ucast (m (a + 3)))"

definition wr32 :: "u32 \<Rightarrow> u32 \<Rightarrow> memory \<Rightarrow> memory" where
  "wr32 a v m = m(a := ucast v, a + 1 := ucast (drop_bit 8 v), a + 2 := ucast (drop_bit 16 v),
     a + 3 := ucast (drop_bit 24 v))"

section \<open>Operations\<close>

primrec stosb :: "u32 \<Rightarrow> u8 \<Rightarrow> nat \<Rightarrow> memory \<Rightarrow> memory" where
  "stosb addr data 0 m = m"
| "stosb addr data (Suc cnt) m = (stosb addr data cnt m)(addr + of_nat cnt := data)"

primrec stosl :: "u32 \<Rightarrow> u32 \<Rightarrow> nat \<Rightarrow> memory \<Rightarrow> memory" where
  "stosl addr data 0 m = m"
| "stosl addr data (Suc cnt) m = wr32 (addr + 4 * of_nat cnt) data (stosl addr data cnt m)"

definition memset :: "u32 \<Rightarrow> u32 \<Rightarrow> u32 \<Rightarrow> memory \<Rightarrow> memory" where
  "memset dst c n m =
     (if dst mod 4 = 0 \<and> n mod 4 = 0 then
        let c = c AND 0xFF in
        stosl dst (push_bit 24 c OR push_bit 16 c OR push_bit 8 c OR c) (unat n div 4) m
      else stosb dst (ucast c) (unat n) m)"

primrec memcmp_loop :: "nat \<Rightarrow> u32 \<Rightarrow> u32 \<Rightarrow> memory \<Rightarrow> int" where
  "memcmp_loop 0 s1 s2 m = 0"
| "memcmp_loop (Suc n) s1 s2 m =
     (if m s1 \<noteq> m s2 then uint (m s1) - uint (m s2) else memcmp_loop n (s1 + 1) (s2 + 1) m)"

definition memcmp :: "u32 \<Rightarrow> u32 \<Rightarrow> u32 \<Rightarrow> memory \<Rightarrow> int" where
  "memcmp v1 v2 n m = memcmp_loop (unat n) v1 v2 m"

primrec copy_down :: "nat \<Rightarrow> u32 \<Rightarrow> u32 \<Rightarrow> memory \<Rightarrow> memory" where
  "copy_down 0 d s m = m"
| "copy_down (Suc n) d s m = copy_down n (d - 1) (s - 1) (m(d - 1 := m (s - 1)))"

primrec copy_up :: "nat \<Rightarrow> u32 \<Rightarrow> u32 \<Rightarrow> memory \<Rightarrow> memory" where
  "copy_up 0 d s m = m"
| "copy_up (Suc n) d s m = copy_up n (d + 1) (s + 1) (m(d := m s))"

definition memmove :: "u32 \<Rightarrow> u32 \<Rightarrow> u32 \<Rightarrow> memory \<Rightarrow> memory" where
  "memmove dst src n m =
     (if src < dst \<and> src + n > dst then copy_down (unat n) (dst + n) (src + n) m
      else copy_up (unat n) dst src m)"

definition memcpy :: "u32 \<Rightarrow> u32 \<Rightarrow> u32 \<Rightarrow> memory \<Rightarrow> memory" where
  "memcpy dst src n m = memmove dst src n m"

primrec strncmp_loop :: "nat \<Rightarrow> u32 \<Rightarrow> u32 \<Rightarrow> memory \<Rightarrow> int" where
  "strncmp_loop 0 p q m = 0"
| "strncmp_loop (Suc n) p q m =
     (if m p \<noteq> 0 \<and> m p = m q then strncmp_loop n (p + 1) (q + 1) m
      else uint (m p) - uint (m q))"

definition strncmp :: "u32 \<Rightarrow> u32 \<Rightarrow> u32 \<Rightarrow> memory \<Rightarrow> int" where
  "strncmp p q n m = strncmp_loop (unat n) p q m"

text \<open>
  The copy loop of \<open>strncpy\<close> and \<open>safestrcpy\<close>: it copies up to \<open>n\<close> bytes and stops after a
  null byte; it returns the destination pointer and the count it has left.
\<close>

primrec str_copy :: "nat \<Rightarrow> u32 \<Rightarrow> u32 \<Rightarrow> memory \<Rightarrow> nat \<times> u32 \<times> memory" where
  "str_copy 0 s t m = (0, s, m)"
| "str_copy (Suc n) s t m =
     (let m' = m(s := m t) in if m t \<noteq> 0 then str_copy n (s + 1) (t + 1) m' else (n, s + 1, m'))"

definition strncpy :: "u32 \<Rightarrow> u32 \<Rightarrow> int \<Rightarrow> memory \<Rightarrow> memory" where
  "strncpy s t n m = (case str_copy (nat n) s t m of (k, s', m') \<Rightarrow> stosb s' 0 k m')"

definition safestrcpy :: "u32 \<Rightarrow> u32 \<Rightarrow> int \<Rightarrow> memory \<Rightarrow> memory" where
  "safestrcpy s t n m =
     (if n \<le> 0 then m
      else case str_copy (nat (n - 1)) s t m of (k, s', m') \<Rightarrow> m'(s' := 0))"

text \<open>
  \<open>strlen\<close> counts in an \<open>int\<close>; the loop is given the \<open>2^31 - 1\<close> steps after which the counter
  would overflow.
\<close>

primrec strlen_loop :: "nat \<Rightarrow> u32 \<Rightarrow> nat \<Rightarrow> memory \<Rightarrow> nat option" where
  "strlen_loop 0 s n m = None"
| "strlen_loop (Suc k) s n m =
     (if m (s + of_nat n) = 0 then Some n else strlen_loop k s (Suc n) m)"

definition strlen :: "u32 \<Rightarrow> memory \<Rightarrow> nat option" where
  "strlen s m = strlen_loop 2147483647 s 0 m"

section \<open>Words in byte memory\<close>

lemma sint_small: "unat w < 2 ^ 31 \<Longrightarrow> sint w = int (unat w)" for w :: u32
proof -
  assume "unat w < 2 ^ 31"
  then have "int (unat w) < int (2 ^ 31)" by (simp only: of_nat_less_iff)
  then have "uint w < 2 ^ 31" by simp
  then have "signed_take_bit 31 (uint w) = uint w" by (intro signed_take_bit_int_eq_self) (simp_all add: order_trans [of _ 0])
  then show ?thesis by (simp add: sint_uint)
qed

lemma rd32_wr32_same: "rd32 (wr32 a v m) a = v"
proof (rule bit_word_eqI)
  fix n :: nat
  assume "n < LENGTH(32)"
  then consider "n < 8" | "8 \<le> n" "n < 16" | "16 \<le> n" "n < 24" | "24 \<le> n" "n < 32" by fastforce
  then show "bit (rd32 (wr32 a v m) a) n = bit v n"
    by cases (auto simp: rd32_def wr32_def bit_simps)
qed

lemma rd32_cong: "(\<And>k. k < 4 \<Longrightarrow> m (a + k) = m' (a + k)) \<Longrightarrow> rd32 m a = rd32 m' a"
proof -
  assume A: "\<And>k. k < 4 \<Longrightarrow> m (a + k) = m' (a + k)"
  have "m a = m' a" "m (a + 1) = m' (a + 1)" "m (a + 2) = m' (a + 2)" "m (a + 3) = m' (a + 3)"
    using A [of 0] A [of 1] A [of 2] A [of 3] by simp_all
  then show ?thesis by (simp add: rd32_def)
qed

lemma wr32_other: "x \<notin> {a, a + 1, a + 2, a + 3} \<Longrightarrow> wr32 a v m x = m x"
  by (simp add: wr32_def)

lemma addr_off: "n < 2 ^ 32 \<Longrightarrow> a = d + of_nat n \<longleftrightarrow> unat (a - d) = n" for a d :: u32
proof
  assume "n < 2 ^ 32" and "unat (a - d) = n"
  then have "a - d = of_nat n" by auto
  then show "a = d + of_nat n" by (metis add.commute diff_add_cancel)
qed (simp add: unat_of_nat take_bit_eq_mod)

lemma unat_lt32: "unat (a :: u32) < 2 ^ 32"
  using unsigned_less [of a, where 'a = nat] by simp

lemma unat_le32: "unat (a :: u32) \<le> 2 ^ 32"
  using unat_lt32 [of a] by simp

section \<open>What the block operations do\<close>

lemma stosb_apply: "n \<le> 2 ^ 32 \<Longrightarrow> stosb d c n m a = (if unat (a - d) < n then c else m a)"
  by (induction n) (auto simp: addr_off less_Suc_eq)

lemma wr32_uniform:
  assumes "\<And>k. k \<in> {0, 8, 16, 24} \<Longrightarrow> ucast (drop_bit k v) = c"
  shows "wr32 a v m x = (if x \<in> {a, a + 1, a + 2, a + 3} then c else m x)"
  using assms [of 0] assms [of 8] assms [of 16] assms [of 24] by (auto simp: wr32_def)

lemma word_cell:
  fixes x d :: u32
  assumes "4 * Suc n \<le> 2 ^ 32"
  shows "x \<in> {d + 4 * of_nat n, d + 4 * of_nat n + 1, d + 4 * of_nat n + 2, d + 4 * of_nat n + 3}
     \<longleftrightarrow> unat (x - d) \<in> {4 * n, 4 * n + 1, 4 * n + 2, 4 * n + 3}"
  using assms addr_off [of "4 * n" x d] addr_off [of "4 * n + 1" x d]
    addr_off [of "4 * n + 2" x d] addr_off [of "4 * n + 3" x d]
  by (simp add: algebra_simps)

lemma stosl_apply:
  assumes "\<And>k. k \<in> {0, 8, 16, 24} \<Longrightarrow> ucast (drop_bit k v) = c"
  shows "4 * n \<le> 2 ^ 32 \<Longrightarrow> stosl d v n m a = (if unat (a - d) < 4 * n then c else m a)"
proof (induction n)
  case (Suc n)
  then have "stosl d v (Suc n) m a =
      (if unat (a - d) \<in> {4 * n, 4 * n + 1, 4 * n + 2, 4 * n + 3} then c
       else if unat (a - d) < 4 * n then c else m a)"
    by (simp only: stosl.simps wr32_uniform [OF assms] word_cell) simp
  then show ?case by auto
qed simp

lemma replicate_byte:
  fixes c :: u32
  assumes "k \<in> {0, 8, 16, 24}"
  shows "ucast (drop_bit k (push_bit 24 (c AND 0xFF) OR push_bit 16 (c AND 0xFF)
           OR push_bit 8 (c AND 0xFF) OR (c AND 0xFF))) = (ucast c :: u8)"
proof -
  have m: "c AND 0xFF = take_bit 8 c" by (simp add: take_bit_eq_mask mask_eq_exp_minus_1)
  have "ucast (drop_bit k (push_bit 24 b OR push_bit 16 b OR push_bit 8 b OR b)) = (ucast c :: u8)"
    if "b = take_bit 8 c" for b
    using assms unfolding that by (elim insertE emptyE) (rule bit_word_eqI; auto simp: bit_simps)+
  then show ?thesis by (simp add: m)
qed

text \<open>The word-at-a-time branch of \<open>memset\<close> and the byte branch fill the same bytes.\<close>

lemma memset_apply: "memset d c n m a = (if a - d < n then ucast c else m a)"
proof (cases "d mod 4 = 0 \<and> n mod 4 = 0")
  case True
  then have n: "4 * (unat n div 4) = unat n"
    using unat_mod_distrib [of n 4] by (simp add: mult_div_mod_eq mod_eq_0_iff_dvd)
  have "unat n \<le> 2 ^ 32" by (rule unat_le32)
  then have "stosl d (push_bit 24 (c AND 0xFF) OR push_bit 16 (c AND 0xFF) OR push_bit 8 (c AND 0xFF)
      OR (c AND 0xFF)) (unat n div 4) m a = (if unat (a - d) < unat n then ucast c else m a)"
    using stosl_apply [OF replicate_byte, of "unat n div 4" d c m a] n by simp
  with True show ?thesis unfolding memset_def Let_def word_less_nat_alt by (simp only: if_True simp_thms)
next
  case False
  have "unat n \<le> 2 ^ 32" by (rule unat_le32)
  then show ?thesis
    unfolding memset_def if_not_P [OF False] by (simp add: stosb_apply word_less_nat_alt)
qed

text \<open>
  The two copy loops, in terms of the offset from the end they start at. \<open>copy_up\<close> is right
  when the source is not overwritten ahead of the read pointer, \<open>copy_down\<close> when it is not
  overwritten behind it.
\<close>

lemma unat_dec: "unat (x - 1) = (if x = 0 then 2 ^ 32 - 1 else unat x - 1)" for x :: u32
  by (simp add: unat_minus_one unsigned_minus_1_eq_mask mask_eq_exp_minus_1)

lemma of_nat_neq: "unat x \<noteq> 0 \<Longrightarrow> (\<And>j. 0 < j \<Longrightarrow> j \<le> unat x \<Longrightarrow> y \<noteq> f (of_nat j)) \<Longrightarrow> y \<noteq> f x"
  for x :: u32
proof -
  assume "unat x \<noteq> 0" and A: "\<And>j. 0 < j \<Longrightarrow> j \<le> unat x \<Longrightarrow> y \<noteq> f (of_nat j)"
  then show "y \<noteq> f x" using A [of "unat x"] by simp
qed

lemma copy_up_apply:
  "n \<le> 2 ^ 32 \<Longrightarrow> (\<And>i j. i < j \<Longrightarrow> j < n \<Longrightarrow> d + of_nat i \<noteq> s + of_nat j) \<Longrightarrow>
   copy_up n d s m a = (if unat (a - d) < n then m (s + (a - d)) else m a)"
proof (induction n arbitrary: d s m)
  case (Suc n)
  let ?m = "m(d := m s)"
  have lt: "n < 2 ^ 32" using Suc.prems(1) by simp
  have IH: "copy_up n (d + 1) (s + 1) ?m a =
      (if unat (a - (d + 1)) < n then ?m (s + 1 + (a - (d + 1))) else ?m a)"
  proof (rule Suc.IH)
    fix i j assume "i < j" "j < n"
    then show "d + 1 + of_nat i \<noteq> s + 1 + of_nat j"
      using Suc.prems(2) [of "Suc i" "Suc j"] by (simp add: algebra_simps)
  qed (use Suc.prems(1) in simp)
  have off: "unat (a - (d + 1)) = (if a = d then 2 ^ 32 - 1 else unat (a - d) - 1)"
    using unat_dec [of "a - d"] by (simp add: diff_diff_eq)
  show ?case
  proof (cases "a = d")
    case True
    then show ?thesis using IH off lt by simp
  next
    case False
    then have z: "unat (a - d) \<noteq> 0" by (simp add: unat_eq_zero)
    have "d \<noteq> s + (a - d)" if "unat (a - d) < Suc n"
    proof (rule of_nat_neq [OF z])
      fix j assume "0 < j" and "j \<le> unat (a - d)"
      then show "d \<noteq> s + of_nat j" using Suc.prems(2) [of 0 j] that by simp
    qed
    moreover have "unat (a - d) - 1 < n \<longleftrightarrow> unat (a - d) < Suc n" using z by linarith
    moreover have "s + 1 + (a - (d + 1)) = s + (a - d)" by simp
    ultimately show ?thesis using IH off False by (cases "unat (a - d) < Suc n") (simp_all del: add_diff_eq)
  qed
qed simp

lemma copy_down_apply:
  "n \<le> 2 ^ 32 \<Longrightarrow> (\<And>i j. i < j \<Longrightarrow> j < n \<Longrightarrow> d - 1 - of_nat i \<noteq> s - 1 - of_nat j) \<Longrightarrow>
   copy_down n d s m a = (if unat (d - 1 - a) < n then m (s - 1 - (d - 1 - a)) else m a)"
proof (induction n arbitrary: d s m)
  case (Suc n)
  let ?m = "m(d - 1 := m (s - 1))"
  have lt: "n < 2 ^ 32" using Suc.prems(1) by simp
  have IH: "copy_down n (d - 1) (s - 1) ?m a =
      (if unat (d - 1 - 1 - a) < n then ?m (s - 1 - 1 - (d - 1 - 1 - a)) else ?m a)"
  proof (rule Suc.IH)
    fix i j assume "i < j" "j < n"
    then show "d - 1 - 1 - of_nat i \<noteq> s - 1 - 1 - of_nat j"
      using Suc.prems(2) [of "Suc i" "Suc j"] by (simp add: algebra_simps)
  qed (use Suc.prems(1) in simp)
  have off: "unat (d - 1 - 1 - a) = (if a = d - 1 then 2 ^ 32 - 1 else unat (d - 1 - a) - 1)"
  proof -
    have "d - 1 - 1 - a = d - 1 - a - 1" and "a = d - 1 \<longleftrightarrow> d - 1 - a = 0" by auto
    then show ?thesis using unat_dec [of "d - 1 - a"] by (simp only:)
  qed
  show ?case
  proof (cases "a = d - 1")
    case True
    then show ?thesis using IH off lt by simp
  next
    case False
    then have z: "unat (d - 1 - a) \<noteq> 0" by (simp add: unat_eq_zero)
    have "d - 1 \<noteq> s - 1 - (d - 1 - a)" if "unat (d - 1 - a) < Suc n"
    proof (rule of_nat_neq [OF z])
      fix j assume "0 < j" and "j \<le> unat (d - 1 - a)"
      then show "d - 1 \<noteq> s - 1 - of_nat j" using Suc.prems(2) [of 0 j] that by simp
    qed
    moreover have "unat (d - 1 - a) - 1 < n \<longleftrightarrow> unat (d - 1 - a) < Suc n" using z by linarith
    moreover have "s - 1 - 1 - (d - 1 - 1 - a) = s - 1 - (d - 1 - a)" by simp
    ultimately show ?thesis using IH off False by (cases "unat (d - 1 - a) < Suc n") simp_all
  qed
qed simp

lemma unat_plus_of_nat: "unat x + i < 2 ^ 32 \<Longrightarrow> unat (x + of_nat i) = unat x + i" for x :: u32
  by (simp add: unat_word_ariths unat_of_nat mod_simps)

lemma off_neq:
  "unat x + i < 2 ^ 32 \<Longrightarrow> unat y + j < 2 ^ 32 \<Longrightarrow> unat x + i \<noteq> unat y + j \<Longrightarrow> x + of_nat i \<noteq> y + of_nat j"
  for x y :: u32
  by (metis unat_plus_of_nat)

lemma off_from_end:
  fixes x n :: u32
  assumes "n \<noteq> 0"
  shows "unat (n - 1 - x) < unat n \<longleftrightarrow> unat x < unat n"
proof (cases "x \<le> n - 1")
  case True
  have n1: "unat (n - 1) = unat n - 1" using assms by (simp add: unat_dec)
  from True have "unat (n - 1 - x) = unat n - 1 - unat x" by (simp add: unat_sub n1)
  moreover have "unat x \<le> unat n - 1" and "0 < unat n"
    using True assms n1 by (auto simp: word_le_nat_alt unat_gt_0)
  ultimately show ?thesis by linarith
next
  case False
  have n1: "unat (n - 1) = unat n - 1" using assms by (simp add: unat_dec)
  have "unat (y - x) = 2 ^ 32 + unat y - unat x" if "\<not> x \<le> y" for y :: u32
    using that by (simp add: unat_sub_if_size word_size word_le_nat_alt)
  from this [OF False] have "unat (n - 1 - x) = 2 ^ 32 + (unat n - 1) - unat x" by (simp only: n1)
  moreover have "unat n \<le> unat x" and "unat x < 2 ^ 32"
    using False n1 unat_lt32 [of x] by (auto simp: word_le_nat_alt)
  ultimately show ?thesis by linarith
qed

lemma memmove_apply:
  assumes s: "unat s + unat n < 2 ^ 32" and d: "unat d + unat n \<le> 2 ^ 32"
  shows "memmove d s n m a = (if a - d < n then m (s + (a - d)) else m a)"
proof (cases "s < d \<and> s + n > d")
  case True
  then have "n \<noteq> 0" by auto
  have "d + n - 1 - of_nat i \<noteq> s + n - 1 - of_nat j" if "i < j" "j < unat n" for i j
  proof -
    have "d + of_nat j \<noteq> s + of_nat i" using that s d True by (intro off_neq) (auto simp: word_less_nat_alt)
    then show ?thesis by (auto simp: algebra_simps)
  qed
  then have "memmove d s n m a =
      (if unat (d + n - 1 - a) < unat n then m (s + n - 1 - (d + n - 1 - a)) else m a)"
    using True unat_le32 [of n] by (simp add: memmove_def copy_down_apply)
  moreover have "d + n - 1 - a = n - 1 - (a - d)" and "s + n - 1 - (d + n - 1 - a) = s + (a - d)"
    by (simp_all add: algebra_simps)
  ultimately show ?thesis
    using off_from_end [OF \<open>n \<noteq> 0\<close>, of "a - d"] by (simp only: word_less_nat_alt)
next
  case False
  have "unat (s + n) = unat s + unat n" using unat_plus_of_nat [of s "unat n"] s by simp
  then have "d + of_nat i \<noteq> s + of_nat j" if "i < j" "j < unat n" for i j
    using that s d False by (intro off_neq) (auto simp: word_less_nat_alt)
  then show ?thesis
    unfolding memmove_def if_not_P [OF False] unfolding word_less_nat_alt
    by (intro copy_up_apply unat_le32)
qed

text \<open>The bytes of two ranges of \<open>n\<close> bytes are different bytes.\<close>

definition apart :: "nat \<Rightarrow> u32 \<Rightarrow> u32 \<Rightarrow> bool" where
  "apart n s t \<longleftrightarrow> (\<forall>i < n. \<forall>j < n. s + of_nat i \<noteq> t + of_nat j)"

lemma apart_Suc:
  assumes "apart (Suc n) s t"
  shows "apart n (s + 1) (t + 1)" and "j < Suc n \<Longrightarrow> t + of_nat j \<noteq> s"
proof -
  have "s + of_nat (Suc i) \<noteq> t + of_nat (Suc j)" if "i < n" "j < n" for i j
    using assms [unfolded apart_def, rule_format, of "Suc i" "Suc j"] that by simp
  then show "apart n (s + 1) (t + 1)" by (simp add: apart_def algebra_simps)
  show "j < Suc n \<Longrightarrow> t + of_nat j \<noteq> s"
    using assms [unfolded apart_def, rule_format, of 0 j] by auto
qed

lemma src_kept:
  assumes "apart (Suc n) s t" and "j < n"
  shows "(m(s := v)) (t + 1 + of_nat j) = m (t + of_nat (Suc j))"
  using apart_Suc(2) [OF assms(1), of "Suc j"] assms(2) by (simp add: algebra_simps)

lemma strncpy_loop_other:
  "n < 2 ^ 32 \<Longrightarrow> \<forall>i < n. a \<noteq> s + of_nat i \<Longrightarrow>
   (case str_copy n s t m of (k, s', m') \<Rightarrow> stosb s' 0 k m') a = m a"
proof (induction n arbitrary: s t m)
  case (Suc n)
  have h: "\<forall>i < n. a \<noteq> s + 1 + of_nat i"
    using Suc.prems(2) by (metis Suc_less_eq add.assoc of_nat_Suc)
  have "a \<noteq> s" using Suc.prems(2) by force
  moreover have "\<not> unat (a - (s + 1)) < n"
    using h Suc.prems(1) addr_off [of "unat (a - (s + 1))" a "s + 1"] unat_lt32 by auto
  ultimately show ?case
    using Suc.IH [OF _ h] Suc.prems(1) by (simp add: Let_def stosb_apply)
qed simp

lemma strncpy_loop:
  "n < 2 ^ 32 \<Longrightarrow> apart n s t \<Longrightarrow> i < n \<Longrightarrow>
   (case str_copy n s t m of (k, s', m') \<Rightarrow> stosb s' 0 k m') (s + of_nat i) =
     (if \<exists>k < i. m (t + of_nat k) = 0 then 0 else m (t + of_nat i))"
proof (induction n arbitrary: s t m i)
  case (Suc n)
  show ?case
  proof (cases "m t = 0")
    case True
    have "unat (s + of_nat i - (s + 1)) < n \<longleftrightarrow> i \<noteq> 0"
      using Suc.prems(1,3) unat_dec [of "of_nat i"] by (cases i) (auto simp: unat_of_nat take_bit_eq_mod)
    with True Suc.prems(1) show ?thesis
      by (cases i) (auto simp: stosb_apply)
  next
    case False
    then show ?thesis
    proof (cases i)
      case 0
      have "s \<noteq> s + 1 + of_nat j" if "j < n" for j
        using that Suc.prems(1) off_neq [of 0 0 0 "Suc j"] by (auto simp: add.assoc)
      with False 0 Suc.prems(1) show ?thesis by (simp add: strncpy_loop_other)
    next
      case (Suc i')
      with Suc.prems(3) have "i' < n" by simp
      let ?m = "m(s := m t)"
      have "(case str_copy n (s + 1) (t + 1) ?m of (k, s', m') \<Rightarrow> stosb s' 0 k m') (s + 1 + of_nat i')
        = (if \<exists>k < i'. ?m (t + 1 + of_nat k) = 0 then 0 else ?m (t + 1 + of_nat i'))"
        using Suc.IH [OF _ apart_Suc(1) [OF Suc.prems(2)] \<open>i' < n\<close>] Suc.prems(1) by simp
      moreover have "(\<exists>k < i'. ?m (t + 1 + of_nat k) = 0) = (\<exists>k < i'. m (t + of_nat (Suc k)) = 0)"
        using \<open>i' < n\<close> by (intro ex_cong1 conj_cong refl) (subst src_kept [OF Suc.prems(2)], simp_all)
      moreover have "\<dots> = (\<exists>k < i. m (t + of_nat k) = 0)"
        using False unfolding Suc by (simp add: Ex_less_Suc2)
      ultimately have "(case str_copy n (s + 1) (t + 1) ?m of (k, s', m') \<Rightarrow> stosb s' 0 k m') (s + 1 + of_nat i')
        = (if \<exists>k < i. m (t + of_nat k) = 0 then 0 else m (t + of_nat i))"
        using src_kept [OF Suc.prems(2) \<open>i' < n\<close>, of m "m t"] by (simp only: Suc)
      moreover have "s + of_nat i = s + 1 + of_nat i'" by (simp add: Suc)
      moreover have "str_copy (Suc n) s t m = str_copy n (s + 1) (t + 1) ?m" using False by simp
      ultimately show ?thesis by (simp only:)
    qed
  qed
qed simp

lemma safestrcpy_loop:
  assumes "n < 2 ^ 32" and "apart n s t"
  shows "\<exists>L \<le> n. (\<forall>k < L. m (t + of_nat k) \<noteq> 0) \<and> (L < n \<longrightarrow> m (t + of_nat L) = 0)
    \<and> (\<forall>k < L. (case str_copy n s t m of (k, s', m') \<Rightarrow> m'(s' := 0)) (s + of_nat k) = m (t + of_nat k))
    \<and> (case str_copy n s t m of (k, s', m') \<Rightarrow> m'(s' := 0)) (s + of_nat L) = 0
    \<and> (\<forall>a. (\<forall>k \<le> n. a \<noteq> s + of_nat k) \<longrightarrow> (case str_copy n s t m of (k, s', m') \<Rightarrow> m'(s' := 0)) a = m a)"
  (is "\<exists>L \<le> n. ?P n s t m L")
  using assms
proof (induction n arbitrary: s t m)
  case 0
  then show ?case by simp
next
  case (Suc n)
  let ?m = "m(s := m t)"
  have ne: "s \<noteq> s + of_nat (Suc k)" if "k \<le> n" for k
    using that Suc.prems(1) off_neq [of 0 0 0 "Suc k"] by auto
  show ?case
  proof (cases "m t = 0")
    case True
    then have "?P (Suc n) s t m 0"
      using ne [of 0] by (auto simp: Let_def)
    then show ?thesis by blast
  next
    case False
    define f where "f = (case str_copy n (s + 1) (t + 1) ?m of (k, s', m') \<Rightarrow> m'(s' := 0))"
    have e: "(case str_copy (Suc n) s t m of (k, s', m') \<Rightarrow> m'(s' := 0)) = f"
      using False by (simp add: Let_def f_def)
    note kept = src_kept [OF Suc.prems(2), of _ m "m t"]
    obtain L where "L \<le> n" and no0: "\<And>k. k < L \<Longrightarrow> ?m (t + 1 + of_nat k) \<noteq> 0"
      and stop: "L < n \<Longrightarrow> ?m (t + 1 + of_nat L) = 0"
      and copied: "\<And>k. k < L \<Longrightarrow> f (s + 1 + of_nat k) = ?m (t + 1 + of_nat k)"
      and nul: "f (s + 1 + of_nat L) = 0"
      and rest: "\<And>a. (\<forall>k \<le> n. a \<noteq> s + 1 + of_nat k) \<Longrightarrow> f a = ?m a"
      using Suc.IH [OF _ apart_Suc(1) [OF Suc.prems(2)], of ?m] Suc.prems(1)
      unfolding f_def [symmetric] by auto
    have s0: "f s = m t" using rest [of s] ne by (simp add: add.assoc)
    have "?P (Suc n) s t m (Suc L)"
      unfolding e
    proof (intro conjI allI impI)
      fix k assume k: "k < Suc L"
      show "m (t + of_nat k) \<noteq> 0"
        using False k no0 [of "k - 1"] kept [of "k - 1"] \<open>L \<le> n\<close> by (cases k) (auto simp del: fun_upd_apply)
      show "f (s + of_nat k) = m (t + of_nat k)"
        using s0 k copied [of "k - 1"] kept [of "k - 1"] \<open>L \<le> n\<close>
        by (cases k) (auto simp: add.assoc simp del: fun_upd_apply)
    next
      assume "Suc L < Suc n"
      then show "m (t + of_nat (Suc L)) = 0" using stop kept [of L] by simp
    next
      show "f (s + of_nat (Suc L)) = 0" using nul by (simp add: add.assoc)
    next
      fix a assume a: "\<forall>k \<le> Suc n. a \<noteq> s + of_nat k"
      have "a \<noteq> s + 1 + of_nat k" if "k \<le> n" for k using a [rule_format, of "Suc k"] that by (simp add: add.assoc)
      then have "f a = ?m a" by (intro rest) blast
      moreover have "a \<noteq> s" using a [rule_format, of 0] by simp
      ultimately show "f a = m a" by simp
    qed
    then show ?thesis using \<open>L \<le> n\<close> by blast
  qed
qed

lemma strncmp_loop_zero:
  "strncmp_loop n p q m = 0 \<longleftrightarrow>
   (\<forall>k < n. (\<forall>j < k. m (p + of_nat j) \<noteq> 0) \<longrightarrow> m (p + of_nat k) = m (q + of_nat k))"
proof (induction n arbitrary: p q)
  case (Suc n)
  have "(\<forall>k < Suc n. (\<forall>j < k. m (p + of_nat j) \<noteq> 0) \<longrightarrow> m (p + of_nat k) = m (q + of_nat k)) \<longleftrightarrow>
    m p = m q \<and> (m p \<noteq> 0 \<longrightarrow> (\<forall>k < n. (\<forall>j < k. m (p + 1 + of_nat j) \<noteq> 0) \<longrightarrow>
      m (p + 1 + of_nat k) = m (q + 1 + of_nat k)))"
    by (simp add: All_less_Suc2 add.assoc) blast
  moreover have "uint (m p) - uint (m q) = 0 \<longleftrightarrow> m p = m q" by (simp add: word_uint_eq_iff)
  ultimately show ?case using Suc.IH [of "p + 1" "q + 1"] by (simp only: strncmp_loop.simps split: if_split) blast
qed simp

lemma strlen_loop_first:
  "n + L < k + n \<Longrightarrow> m (s + of_nat (n + L)) = 0 \<Longrightarrow> \<forall>j < L. m (s + of_nat (n + j)) \<noteq> 0 \<Longrightarrow>
   strlen_loop k s n m = Some (n + L)"
proof (induction L arbitrary: k n)
  case 0
  then show ?case by (cases k) auto
next
  case (Suc L)
  have "m (s + of_nat n) \<noteq> 0" and "\<forall>j < L. m (s + of_nat (Suc n + j)) \<noteq> 0"
    using Suc.prems(3) by (simp_all add: All_less_Suc2 ac_simps)
  moreover obtain k' where "k = Suc k'" using Suc.prems(1) by (cases k) auto
  ultimately show ?case using Suc.IH [of "Suc n" k'] Suc.prems(1,2) by simp
qed

lemma bounded_copies:
  assumes "0 < n" and "n < 2 ^ 31" and "apart (nat n) s t"
  shows "\<forall>i < nat n. strncpy s t n m (s + of_nat i) =
           (if \<exists>k < i. m (t + of_nat k) = 0 then 0 else m (t + of_nat i))"
    and "\<exists>L < nat n. (\<forall>k < L. m (t + of_nat k) \<noteq> 0) \<and> (L < nat n - 1 \<longrightarrow> m (t + of_nat L) = 0)
           \<and> (\<forall>k < L. safestrcpy s t n m (s + of_nat k) = m (t + of_nat k))
           \<and> safestrcpy s t n m (s + of_nat L) = 0
           \<and> (\<forall>a. (\<forall>k < nat n. a \<noteq> s + of_nat k) \<longrightarrow>
                 safestrcpy s t n m a = m a \<and> strncpy s t n m a = m a)"
proof -
  have n: "nat n < 2 ^ 32" "nat (n - 1) < 2 ^ 32" using assms(1,2) by (auto simp: nat_less_iff)
  then show "\<forall>i < nat n. strncpy s t n m (s + of_nat i) =
      (if \<exists>k < i. m (t + of_nat k) = 0 then 0 else m (t + of_nat i))"
    using strncpy_loop [OF n(1) assms(3)] by (simp add: strncpy_def)
  have "apart (nat (n - 1)) s t" using assms(3) by (auto simp: apart_def)
  from safestrcpy_loop [OF n(2) this, of m] obtain L where L: "L \<le> nat (n - 1)"
    "\<forall>k < L. m (t + of_nat k) \<noteq> 0" "L < nat (n - 1) \<longrightarrow> m (t + of_nat L) = 0"
    "\<forall>k < L. safestrcpy s t n m (s + of_nat k) = m (t + of_nat k)"
    "safestrcpy s t n m (s + of_nat L) = 0"
    "\<forall>a. (\<forall>k \<le> nat (n - 1). a \<noteq> s + of_nat k) \<longrightarrow> safestrcpy s t n m a = m a"
    using assms(1) by (auto simp: safestrcpy_def)
  have "k \<le> nat (n - 1) \<longleftrightarrow> k < nat n" for k using assms(1) by auto
  then show "\<exists>L < nat n. (\<forall>k < L. m (t + of_nat k) \<noteq> 0) \<and> (L < nat n - 1 \<longrightarrow> m (t + of_nat L) = 0)
     \<and> (\<forall>k < L. safestrcpy s t n m (s + of_nat k) = m (t + of_nat k))
     \<and> safestrcpy s t n m (s + of_nat L) = 0
     \<and> (\<forall>a. (\<forall>k < nat n. a \<noteq> s + of_nat k) \<longrightarrow>
           safestrcpy s t n m a = m a \<and> strncpy s t n m a = m a)"
    using L strncpy_loop_other [OF n(1), of _ s t m] by (intro exI [of _ L]) (auto simp: strncpy_def)
qed

section \<open>Properties\<close>

text \<open>
  C29. \<open>memmove\<close> copies as if through a temporary buffer, whether the ranges overlap or not and
  whichever side they overlap on: every destination byte gets the value the source byte had
  before the call and no other byte changes. The ranges must not wrap around the end of the
  address space.
\<close>

theorem memmove_is_simultaneous_copy:
  assumes "unat s + unat n < 2 ^ 32" and "unat d + unat n \<le> 2 ^ 32"
  shows "memmove d s n m = (\<lambda>a. if a - d < n then m (s + (a - d)) else m a)"
  using memmove_apply [OF assms] by (intro ext)

theorem memmove_is_simultaneous_copy_witness:
  "memmove 0x1002 0x1000 8 ucast 0x1004 = 0x02 \<and> memmove 0x1000 0x1002 8 ucast 0x1004 = 0x06
   \<and> unat (0x1000 :: u32) + unat (8 :: u32) < 2 ^ 32"
  using memmove_is_simultaneous_copy [of "0x1000" 8 "0x1002" ucast]
    memmove_is_simultaneous_copy [of "0x1002" 8 "0x1000" ucast] by simp

text \<open>
  \<open>memset\<close> sets exactly the \<open>n\<close> bytes from \<open>dst\<close> to the low byte of \<open>c\<close>: the branch that
  stores words on an aligned range and the branch that stores bytes agree.
\<close>

theorem memset_fills_range:
  "memset d c n m = (\<lambda>a. if a - d < n then ucast c else m a)"
  by (rule ext) (rule memset_apply)

text \<open>
  The two bounded string copies on separate buffers of \<open>n > 0\<close> bytes. \<open>strncpy\<close> writes all
  \<open>n\<close> bytes: the source up to its first null byte, zeros after it. \<open>safestrcpy\<close> always leaves a
  null-terminated string in the buffer: the longest prefix of the source that fits in \<open>n - 1\<close>
  bytes, and it writes nothing outside the buffer.
\<close>

theorem bounded_string_copies:
  assumes "0 < n" and "n < 2 ^ 31" and "apart (nat n) s t"
  shows "(\<forall>i < nat n. strncpy s t n m (s + of_nat i) =
           (if \<exists>k < i. m (t + of_nat k) = 0 then 0 else m (t + of_nat i)))
    \<and> (\<exists>L < nat n. (\<forall>k < L. m (t + of_nat k) \<noteq> 0) \<and> (L < nat n - 1 \<longrightarrow> m (t + of_nat L) = 0)
           \<and> (\<forall>k < L. safestrcpy s t n m (s + of_nat k) = m (t + of_nat k))
           \<and> safestrcpy s t n m (s + of_nat L) = 0
           \<and> (\<forall>a. (\<forall>k < nat n. a \<noteq> s + of_nat k) \<longrightarrow>
                 safestrcpy s t n m a = m a \<and> strncpy s t n m a = m a))"
  using bounded_copies [OF assms] by (rule conjI)

theorem bounded_string_copies_witness:
  "apart (nat 3) 0x100 0x200
   \<and> strncpy 0x100 0x200 3 ((\<lambda>_. 7)(0x201 := 0)) (0x100 + of_nat 2) = 0"
proof -
  have a: "apart (nat 3) 0x100 0x200" by (simp add: apart_def numeral_3_eq_3 All_less_Suc2)
  show ?thesis
    using bounded_string_copies [OF _ _ a, where m = "(\<lambda>_. 7)(0x201 := 0)"] a
    by (simp add: numeral_2_eq_2 numeral_3_eq_3 All_less_Suc2 Ex_less_Suc2)
qed

end
