(* ===== verification/Mmu.thy ===== *)
theory Mmu
  imports Kstring
begin

unbundle bit_operations_syntax

text \<open>
  Addresses and page-table entries: the macros of \<open>mmu.h\<close> and \<open>memlayout.h\<close> on 32-bit
  words, and the arithmetic facts about pages the memory components share.
\<close>

section \<open>Constants and macros\<close>

abbreviation PGSIZE :: u32 where "PGSIZE \<equiv> 4096"
abbreviation KERNBASE :: u32 where "KERNBASE \<equiv> 0x80000000"
abbreviation EXTMEM :: u32 where "EXTMEM \<equiv> 0x100000"
abbreviation PHYSTOP :: u32 where "PHYSTOP \<equiv> 0xE000000"
abbreviation DEVSPACE :: u32 where "DEVSPACE \<equiv> 0xFE000000"
abbreviation KERNLINK :: u32 where "KERNLINK \<equiv> 0x80100000"
abbreviation PTE_P :: u32 where "PTE_P \<equiv> 1"
abbreviation PTE_W :: u32 where "PTE_W \<equiv> 2"
abbreviation PTE_U :: u32 where "PTE_U \<equiv> 4"

definition V2P :: "u32 \<Rightarrow> u32" where "V2P a = a - KERNBASE"
definition P2V :: "u32 \<Rightarrow> u32" where "P2V a = a + KERNBASE"
definition PDX :: "u32 \<Rightarrow> u32" where "PDX va = drop_bit 22 va AND 0x3FF"
definition PTX :: "u32 \<Rightarrow> u32" where "PTX va = drop_bit 12 va AND 0x3FF"
definition PGADDR :: "u32 \<Rightarrow> u32 \<Rightarrow> u32 \<Rightarrow> u32" where
  "PGADDR d t i = push_bit 22 d OR push_bit 12 t OR i"
definition PGROUNDUP :: "u32 \<Rightarrow> u32" where "PGROUNDUP sz = (sz + PGSIZE - 1) AND NOT (PGSIZE - 1)"
definition PGROUNDDOWN :: "u32 \<Rightarrow> u32" where "PGROUNDDOWN a = a AND NOT (PGSIZE - 1)"
definition PTE_ADDR :: "u32 \<Rightarrow> u32" where "PTE_ADDR pte = pte AND NOT 0xFFF"
definition PTE_FLAGS :: "u32 \<Rightarrow> u32" where "PTE_FLAGS pte = pte AND 0xFFF"

section \<open>Pages\<close>

definition page :: "u32 \<Rightarrow> u32 set" where "page v = {a. a - v < PGSIZE}"

definition aligned :: "u32 \<Rightarrow> bool" where "aligned v \<longleftrightarrow> v mod PGSIZE = 0"

lemma page_self [simp]: "v \<in> page v"
  by (simp add: page_def)

lemma V2P_P2V [simp]: "V2P (P2V a) = a" "P2V (V2P a) = a"
  by (simp_all add: V2P_def P2V_def)

lemma mask_4096: "PGSIZE - 1 = mask 12" "(0xFFF :: u32) = mask 12" "PGSIZE = 2 ^ 12"
  by (simp_all add: mask_eq_exp_minus_1)

lemma aligned_and: "aligned v \<longleftrightarrow> v AND mask 12 = 0"
  unfolding aligned_def mask_4096(3) by (simp only: take_bit_eq_mod [symmetric] take_bit_eq_mask)

lemma PTE_ADDR_down: "PTE_ADDR v = PGROUNDDOWN v"
  by (simp add: PTE_ADDR_def PGROUNDDOWN_def)

lemma PGROUNDDOWN_bits: "PGROUNDDOWN v = v AND NOT (mask 12)"
  unfolding PGROUNDDOWN_def mask_4096(1) ..

lemma aligned_PGROUNDDOWN [simp]: "aligned (PGROUNDDOWN v)" "aligned (PTE_ADDR v)"
  by (simp_all add: PTE_ADDR_down PGROUNDDOWN_bits aligned_and bit_eq_iff bit_simps)

lemma PGROUNDDOWN_aligned [simp]: "aligned v \<Longrightarrow> PGROUNDDOWN v = v"
  by (auto simp: PGROUNDDOWN_bits aligned_and bit_eq_iff bit_simps)

lemma unat_mask12: "unat (a AND mask 12 :: u32) = unat a mod 4096"
  unfolding take_bit_eq_mask [symmetric] by (simp only: take_bit_eq_mod unat_mod_distrib) simp

lemma aligned_unat: "aligned v \<longleftrightarrow> unat v mod 4096 = 0"
  by (metis aligned_and unat_mask12 unat_eq_zero)

lemma split_offset: "PGROUNDDOWN a + (a AND mask 12) = (a :: u32)"
  by (subst disjunctive_add_eq_or) (auto simp: PGROUNDDOWN_bits bit_eq_iff bit_simps)

lemma offset_small: "(a :: u32) AND mask 12 < PGSIZE"
  by (simp add: word_less_nat_alt unat_mask12)

lemma PGROUNDDOWN_diff: "PGROUNDDOWN a = a - (a AND mask 12)"
  using split_offset [of a] by (metis add_diff_cancel_right')

lemma unat_PGROUNDDOWN: "unat (PGROUNDDOWN a) = unat a - unat a mod 4096"
  unfolding PGROUNDDOWN_diff
  by (simp add: unat_sub unat_mask12 word_le_nat_alt)

lemma page_offset_cases:
  assumes "aligned v" and "a - v < PGSIZE"
  shows "unat v \<le> unat a \<and> unat a < unat v + 4096"
proof -
  have lim: "unat a < 2 ^ 32" "unat v < 2 ^ 32" using unsigned_less [of a] unsigned_less [of v] by simp_all
  show ?thesis
  proof (cases "v \<le> a")
    case True
    with assms(2) show ?thesis by (simp add: word_less_nat_alt word_le_nat_alt unat_sub)
  next
    case False
    then have "unat (a - v) = 2 ^ 32 + unat a - unat v"
      by (simp add: unat_sub_if_size word_size word_le_nat_alt)
    then have "2 ^ 32 + unat a - unat v < 4096" using assms(2) by (simp add: word_less_nat_alt)
    moreover have "4096 dvd 2 ^ 32 - unat v" using assms(1) lim by (simp add: aligned_unat mod_eq_0_iff_dvd dvd_diff_nat)
    then have "4096 \<le> 2 ^ 32 - unat v" using lim by (simp add: dvd_imp_le)
    ultimately show ?thesis by linarith
  qed
qed

lemma nat_page_round:
  fixes x y :: nat
  assumes "y mod 4096 = 0" and "y \<le> x \<and> x < y + 4096"
  shows "x - x mod 4096 = y"
proof -
  obtain d where "x = y + d" and "d < 4096" using assms(2) by (metis add_less_cancel_left le_Suc_ex)
  then show ?thesis using assms(1) by (simp add: mod_add_left_eq [symmetric])
qed

lemma page_round: "aligned v \<Longrightarrow> a \<in> page v \<longleftrightarrow> PGROUNDDOWN a = v"
proof
  assume v: "aligned v" and "a \<in> page v"
  then have "unat v \<le> unat a \<and> unat a < unat v + 4096"
    by (simp add: page_offset_cases page_def)
  with v have "unat (PGROUNDDOWN a) = unat v"
    unfolding unat_PGROUNDDOWN aligned_unat by (rule nat_page_round)
  then show "PGROUNDDOWN a = v" by (simp add: unsigned_word_eqI)
next
  assume "PGROUNDDOWN a = v"
  then have "a - v = a AND mask 12" by (auto simp: PGROUNDDOWN_diff algebra_simps)
  then show "a \<in> page v" by (simp add: page_def offset_small)
qed

lemma page_disjoint: "aligned v \<Longrightarrow> aligned w \<Longrightarrow> v \<noteq> w \<Longrightarrow> a \<in> page v \<Longrightarrow> a \<notin> page w"
  by (auto simp: page_round)

lemma PGROUNDUP_down: "PGROUNDUP x = PGROUNDDOWN (x + 4095)"
  by (simp add: PGROUNDUP_def PGROUNDDOWN_def add.commute)

lemma PGROUNDUP_bounds:
  "aligned (PGROUNDUP x)"
  "unat x + 4095 < 2 ^ 32 \<Longrightarrow> unat x \<le> unat (PGROUNDUP x) \<and> unat (PGROUNDUP x) < unat x + 4096"
proof -
  show "aligned (PGROUNDUP x)" by (simp add: PGROUNDUP_down)
  assume "unat x + 4095 < 2 ^ 32"
  then have "unat (x + 4095) = unat x + 4095" using unat_plus_of_nat [of x 4095] by simp
  moreover have "y mod 4096 < 4096" for y :: nat by simp
  from this [of "unat x + 4095"]
  have "unat x \<le> unat x + 4095 - (unat x + 4095) mod 4096"
    "unat x + 4095 - (unat x + 4095) mod 4096 < unat x + 4096" by linarith+
  ultimately show "unat x \<le> unat (PGROUNDUP x) \<and> unat (PGROUNDUP x) < unat x + 4096"
    by (simp only: PGROUNDUP_down unat_PGROUNDDOWN)
qed

lemma PGROUNDUP_aligned: "aligned x \<Longrightarrow> unat x + 4095 < 2 ^ 32 \<Longrightarrow> PGROUNDUP x = x"
proof -
  assume a: "aligned x" and b: "unat x + 4095 < 2 ^ 32"
  have "PGROUNDUP x - x < PGSIZE" 
    using PGROUNDUP_bounds(2) [OF b] by (auto simp: word_less_nat_alt unat_sub word_le_nat_alt)
  then have "PGROUNDDOWN (PGROUNDUP x) = x" using page_round [OF a] by (simp add: page_def)
  then show ?thesis using PGROUNDUP_bounds(1) by simp
qed

end
