(* ===== verification/Spinlock.thy ===== *)
theory Spinlock
  imports Prelude
begin

text \<open>
  CPUs, interrupt nesting and spin locks: \<open>xv6-public-master/spinlock.c\<close> and the CPU
  lookup of \<open>proc.c\<close> (\<open>mycpu\<close>, \<open>cpuid\<close>, \<open>myproc\<close>).

  The record \<open>kst\<close> is the bottom of the kernel state; every kernel component extends it,
  so that an operation of one component applies to the states of the components above
  it. The array \<open>cpus\<close> is kept field by field (\<open>ncli s i\<close> is \<open>cpus[i].ncli\<close>), the
  Local APIC register and the interrupt flag are the hardware state of the CPU that runs
  the path, and every \<open>struct spinlock\<close> of the kernel lives in the store \<open>locks\<close> under
  its name. The recorded call stack (\<open>pcs\<close>) is left out of the lock; \<open>getcallerpcs\<close> is
  modelled on its own.
\<close>

section \<open>State\<close>

datatype lockid =
  Kmem_lock | Ptable_lock | Ticks_lock | Bcache_lock | Log_lock | Icache_lock | Ftable_lock
  | Cons_lock | Ide_lock | Buf_lk nat | Inode_lk nat | Pipe_lock nat

record spinlock =
  locked :: bool
  lname :: string
  lcpu :: "nat option"

record kst =
  lapicid :: int
  apicids :: "int list"
  ncli :: "nat \<Rightarrow> int"
  intena :: "nat \<Rightarrow> bool"
  cproc :: "nat \<Rightarrow> nat option"
  ifl :: bool
  locks :: "lockid \<Rightarrow> spinlock"

section \<open>Operations\<close>

definition mycpu :: "'z kst_scheme \<Rightarrow> nat res" where
  "mycpu s =
     (if ifl s then Panic ''mycpu called with interrupts enabled''
      else case find_idx (\<lambda>a. a = lapicid s) (apicids s) of
        Some i \<Rightarrow> Ok i
      | None \<Rightarrow> Panic ''unknown apicid'')"

definition cpuid :: "'z kst_scheme \<Rightarrow> nat res" where
  "cpuid s = mycpu s"

definition initlock :: "lockid \<Rightarrow> string \<Rightarrow> 'z kst_scheme \<Rightarrow> 'z kst_scheme" where
  "initlock l nm s = s\<lparr>locks := (locks s)(l := \<lparr>locked = False, lname = nm, lcpu = None\<rparr>)\<rparr>"

definition pushcli :: "'z kst_scheme \<Rightarrow> 'z kst_scheme res" where
  "pushcli s =
     (let eflags = ifl s; s = s\<lparr>ifl := False\<rparr> in
      bnd (mycpu s) (\<lambda>i.
        let s = (if ncli s i = 0 then s\<lparr>intena := (intena s)(i := eflags)\<rparr> else s) in
        Ok (s\<lparr>ncli := (ncli s)(i := ncli s i + 1)\<rparr>)))"

definition popcli :: "'z kst_scheme \<Rightarrow> 'z kst_scheme res" where
  "popcli s =
     (if ifl s then Panic ''popcli - interruptible''
      else bnd (mycpu s) (\<lambda>i.
        let s = s\<lparr>ncli := (ncli s)(i := ncli s i - 1)\<rparr> in
        if ncli s i < 0 then Panic ''popcli''
        else if ncli s i = 0 \<and> intena s i then Ok (s\<lparr>ifl := True\<rparr>)
        else Ok s))"

definition holding :: "lockid \<Rightarrow> 'z kst_scheme \<Rightarrow> (bool \<times> 'z kst_scheme) res" where
  "holding l s =
     bnd (pushcli s) (\<lambda>s.
     bnd (mycpu s) (\<lambda>i.
       let r = (locked (locks s l) \<and> lcpu (locks s l) = Some i) in
     bnd (popcli s) (\<lambda>s. Ok (r, s))))"

definition acquire :: "lockid \<Rightarrow> 'z kst_scheme \<Rightarrow> 'z kst_scheme res" where
  "acquire l s =
     bnd (pushcli s) (\<lambda>s.
     bnd (holding l s) (\<lambda>(h, s).
       if h then Panic ''acquire''
       else if locked (locks s l) then Block
       else
         let s = s\<lparr>locks := (locks s)(l := (locks s l)\<lparr>locked := True\<rparr>)\<rparr> in
         bnd (mycpu s) (\<lambda>i. Ok (s\<lparr>locks := (locks s)(l := (locks s l)\<lparr>lcpu := Some i\<rparr>)\<rparr>))))"

definition release :: "lockid \<Rightarrow> 'z kst_scheme \<Rightarrow> 'z kst_scheme res" where
  "release l s =
     bnd (holding l s) (\<lambda>(h, s).
       if \<not> h then Panic ''release''
       else
         let s = s\<lparr>locks := (locks s)(l := (locks s l)\<lparr>lcpu := None\<rparr>)\<rparr>;
             s = s\<lparr>locks := (locks s)(l := (locks s l)\<lparr>locked := False\<rparr>)\<rparr>
         in popcli s)"

definition myproc :: "'z kst_scheme \<Rightarrow> (nat option \<times> 'z kst_scheme) res" where
  "myproc s =
     bnd (pushcli s) (\<lambda>s.
     bnd (mycpu s) (\<lambda>c.
       let p = cproc s c in
     bnd (popcli s) (\<lambda>s. Ok (p, s))))"

text \<open>
  \<open>getcallerpcs\<close> follows the chain of saved frame pointers from \<open>ebp = v - 8\<close> through the
  32-bit words of memory, at most ten frames, stopping at a null, user-space or all-ones
  pointer; the rest of the array is zero.
\<close>

fun callerpcs :: "nat \<Rightarrow> (32 word \<Rightarrow> 32 word) \<Rightarrow> 32 word \<Rightarrow> 32 word list" where
  "callerpcs 0 rd ebp = []"
| "callerpcs (Suc k) rd ebp =
     (if ebp = 0 \<or> ebp < 0x80000000 \<or> ebp = 0xffffffff then replicate (Suc k) 0
      else rd (ebp + 4) # callerpcs k rd (rd ebp))"

definition getcallerpcs :: "(32 word \<Rightarrow> 32 word) \<Rightarrow> 32 word \<Rightarrow> 32 word list" where
  "getcallerpcs rd v = callerpcs 10 rd (v - 8)"

text \<open>A critical section whose every exit releases the lock before returning.\<close>

definition with_lock ::
  "lockid \<Rightarrow> ('z kst_scheme \<Rightarrow> ('r \<times> 'z kst_scheme) res) \<Rightarrow> 'z kst_scheme \<Rightarrow> ('r \<times> 'z kst_scheme) res" where
  "with_lock l body s =
     bnd (acquire l s) (\<lambda>s. bnd (body s) (\<lambda>(r, s). bnd (release l s) (\<lambda>s. Ok (r, s))))"

section \<open>What a critical section does to the CPU\<close>

definition cur :: "'z kst_scheme \<Rightarrow> nat" where
  "cur s = (case find_idx (\<lambda>a. a = lapicid s) (apicids s) of Some i \<Rightarrow> i | None \<Rightarrow> 0)"

text \<open>
  The state of the running CPU between kernel paths: it is in the table, its nesting depth
  is not negative, at depth 0 the saved flag agrees with the interrupt flag, and at a
  positive depth interrupts are off.
\<close>

definition cpu_ok :: "'z kst_scheme \<Rightarrow> bool" where
  "cpu_ok s \<longleftrightarrow> find_idx (\<lambda>a. a = lapicid s) (apicids s) \<noteq> None
     \<and> 0 \<le> ncli s (cur s)
     \<and> (ncli s (cur s) = 0 \<longrightarrow> intena s (cur s) = ifl s)
     \<and> (0 < ncli s (cur s) \<longrightarrow> \<not> ifl s)"

definition lock_free :: "lockid \<Rightarrow> 'z kst_scheme \<Rightarrow> bool" where
  "lock_free l s \<longleftrightarrow> \<not> locked (locks s l) \<and> lcpu (locks s l) = None"

definition enter :: "lockid \<Rightarrow> 'z kst_scheme \<Rightarrow> 'z kst_scheme" where
  "enter l s = s\<lparr>ifl := False, ncli := (ncli s)(cur s := ncli s (cur s) + 1),
     locks := (locks s)(l := (locks s l)\<lparr>locked := True, lcpu := Some (cur s)\<rparr>)\<rparr>"

definition leave :: "lockid \<Rightarrow> 'z kst_scheme \<Rightarrow> 'z kst_scheme" where
  "leave l s = s\<lparr>ncli := (ncli s)(cur s := ncli s (cur s) - 1),
     ifl := (ncli s (cur s) = 1 \<and> intena s (cur s)),
     locks := (locks s)(l := (locks s l)\<lparr>locked := False, lcpu := None\<rparr>)\<rparr>"

lemma mycpu_off: "find_idx (\<lambda>a. a = lapicid s) (apicids s) \<noteq> None \<Longrightarrow> \<not> ifl s \<Longrightarrow> mycpu s = Ok (cur s)"
  by (auto simp: mycpu_def cur_def)

lemma cpu_ok_known: "cpu_ok s \<Longrightarrow> find_idx (\<lambda>a. a = lapicid s) (apicids s) \<noteq> None"
  by (simp add: cpu_ok_def)

lemma cur_cong: "lapicid s = lapicid t \<Longrightarrow> apicids s = apicids t \<Longrightarrow> cur s = cur t"
  by (simp add: cur_def)

named_theorems frame \<open>what an update of one field of the kernel state leaves alone\<close>

lemma cur_upd [simp, frame]:
  "cur (s\<lparr>ncli := a\<rparr>) = cur s" "cur (s\<lparr>intena := b\<rparr>) = cur s" "cur (s\<lparr>cproc := c\<rparr>) = cur s"
  "cur (s\<lparr>ifl := d\<rparr>) = cur s" "cur (s\<lparr>locks := e\<rparr>) = cur s"
  by (simp_all add: cur_def)

lemma cpu_ok_locks [simp, frame]: "cpu_ok (s\<lparr>locks := e\<rparr>) = cpu_ok s" "cpu_ok (s\<lparr>cproc := c\<rparr>) = cpu_ok s"
  by (simp_all add: cpu_ok_def)

lemma pushcli_ok:
  "cpu_ok s \<Longrightarrow> pushcli s = Ok (s\<lparr>ifl := False, ncli := (ncli s)(cur s := ncli s (cur s) + 1)\<rparr>)"
  by (auto simp: pushcli_def mycpu_off cpu_ok_def Let_def fun_upd_idem)

lemma popcli_ok:
  assumes "find_idx (\<lambda>a. a = lapicid s) (apicids s) \<noteq> None" and "\<not> ifl s" and "0 < ncli s (cur s)"
  shows "popcli s = Ok (s\<lparr>ncli := (ncli s)(cur s := ncli s (cur s) - 1),
                          ifl := (ncli s (cur s) = 1 \<and> intena s (cur s))\<rparr>)"
  using assms by (auto simp: popcli_def mycpu_off Let_def)

lemma push_pop:
  assumes "cpu_ok s"
  shows "popcli (s\<lparr>ifl := False, ncli := (ncli s)(cur s := ncli s (cur s) + 1)\<rparr>) = Ok s"
proof -
  have "(ncli s (cur s) = 0 \<and> intena s (cur s)) = ifl s"
    using assms by (auto simp: cpu_ok_def)
  then show ?thesis using assms by (subst popcli_ok) (auto simp: cpu_ok_def)
qed

lemma holding_ok:
  "cpu_ok s \<Longrightarrow> holding l s = Ok (locked (locks s l) \<and> lcpu (locks s l) = Some (cur s), s)"
  using cpu_ok_known [of s] by (simp add: holding_def pushcli_ok mycpu_off push_pop Let_def)

lemma myproc_ok [simp]: "cpu_ok s \<Longrightarrow> myproc s = Ok (cproc s (cur s), s)"
  using cpu_ok_known [of s] by (simp add: myproc_def pushcli_ok mycpu_off push_pop Let_def)

lemma cpu_ok_pushed:
  "cpu_ok s \<Longrightarrow> cpu_ok (s\<lparr>ifl := False, ncli := (ncli s)(cur s := ncli s (cur s) + 1)\<rparr>)"
  by (auto simp: cpu_ok_def)

text \<open>The three outcomes of \<open>acquire\<close>: self-deadlock is a panic, contention spins.\<close>

lemma acquire_cases:
  assumes "cpu_ok s"
  shows "acquire l s =
    (if locked (locks s l) then if lcpu (locks s l) = Some (cur s) then Panic ''acquire'' else Block
     else Ok (enter l s))"
  using cpu_ok_known [OF assms] assms
  by (simp add: acquire_def pushcli_ok holding_ok [OF cpu_ok_pushed] mycpu_off enter_def Let_def)

lemma acquire_free: "cpu_ok s \<Longrightarrow> lock_free l s \<Longrightarrow> acquire l s = Ok (enter l s)"
  by (simp add: acquire_cases lock_free_def)

lemma enter_simps [simp]:
  "lapicid (enter l s) = lapicid s" "apicids (enter l s) = apicids s" "intena (enter l s) = intena s"
  "cproc (enter l s) = cproc s" "cur (enter l s) = cur s" "kst.more (enter l s) = kst.more s"
  "\<not> ifl (enter l s)"
  by (simp_all add: enter_def)

lemma cpu_ok_enter [simp]: "cpu_ok s \<Longrightarrow> cpu_ok (enter l s)"
  by (auto simp: enter_def cpu_ok_def)

lemma lock_free_enter [simp]: "l \<noteq> k \<Longrightarrow> lock_free k (enter l s) = lock_free k s"
  by (simp add: lock_free_def enter_def)

lemma release_held:
  assumes "cpu_ok s" and "0 < ncli s (cur s)" and "locked (locks s l)" and "lcpu (locks s l) = Some (cur s)"
  shows "release l s = Ok (leave l s)"
  using assms cpu_ok_known [OF assms(1)]
  by (auto simp: release_def holding_ok Let_def leave_def popcli_ok cpu_ok_def fun_eq_iff
      intro!: kst.equality)

lemma release_not_held:
  "cpu_ok s \<Longrightarrow> \<not> (locked (locks s l) \<and> lcpu (locks s l) = Some (cur s)) \<Longrightarrow> release l s = Panic ''release''"
  by (simp add: release_def holding_ok)

lemma cpu_ok_cong:
  "lapicid s = lapicid t \<Longrightarrow> apicids s = apicids t \<Longrightarrow> ncli s = ncli t \<Longrightarrow> intena s = intena t
   \<Longrightarrow> ifl s = ifl t \<Longrightarrow> cpu_ok s = cpu_ok t"
  by (simp add: cpu_ok_def cur_def)

lemma unlock_free: "lock_free l s \<Longrightarrow> (locks s l)\<lparr>locked := False, lcpu := None\<rparr> = locks s l"
  by (cases "locks s l") (simp add: lock_free_def)

text \<open>
  A critical section run on a free lock: its body starts in the entered state, and if it
  leaves the CPU fields and this lock alone, the section ends with them as they were.
\<close>

lemma with_lock_ok:
  assumes cpu: "cpu_ok s" and free: "lock_free l s" and body: "body (enter l s) = Ok (r, s')"
    and same: "lapicid s' = lapicid s" "apicids s' = apicids s" "ncli s' = ncli (enter l s)"
      "intena s' = intena s" "ifl s' = ifl (enter l s)" "locks s' l = locks (enter l s) l"
  shows "with_lock l body s =
    Ok (r, s'\<lparr>ncli := ncli s, ifl := ifl s, locks := (locks s')(l := locks s l)\<rparr>)"
proof -
  have c: "cur s' = cur s" using same(1,2) by (rule cur_cong)
  have "cpu_ok s'" using cpu_ok_enter [OF cpu, of l] cpu_ok_cong [of s' "enter l s"] same by simp
  then have "release l s' = Ok (leave l s')"
    using cpu same c by (intro release_held) (auto simp: enter_def cpu_ok_def)
  moreover have "leave l s' = s'\<lparr>ncli := ncli s, ifl := ifl s, locks := (locks s')(l := locks s l)\<rparr>"
  proof -
    have "(ncli s (cur s) = 0 \<and> intena s (cur s)) = ifl s"
      using cpu by (auto simp: cpu_ok_def)
    then show ?thesis using same c unlock_free [OF free] by (simp add: leave_def enter_def)
  qed
  ultimately show ?thesis
    using acquire_free [OF cpu free] body by (simp add: with_lock_def)
qed

lemma acquire_release: "cpu_ok s \<Longrightarrow> lock_free l s \<Longrightarrow> bnd (acquire l s) (release l) = Ok s"
  using with_lock_ok [of s l "\<lambda>s. Ok ((), s)" "()" "enter l s"]
  by (auto simp: with_lock_def acquire_free enter_def)

section \<open>Several CPUs: the lock word as a state machine\<close>

text \<open>
  The interleaving the sequential model leaves out. Each CPU is at one of five points of
  \<open>acquire\<close> and \<open>release\<close>: outside, spinning on \<open>xchg\<close>, past the \<open>xchg\<close> that returned 0
  but before \<open>lk->cpu\<close> is set, inside, or past the store of \<open>lk->cpu = 0\<close> but before
  \<open>movl $0\<close>. One step is one CPU executing one of these memory operations; \<open>stuck\<close>
  records that a check of \<open>holding\<close> made the CPU panic.
\<close>

datatype pc = Outside | Spinning | Got | Inside | Clearing

record lock_sys =
  word :: bool
  owner :: "nat option"
  pcs :: "nat \<Rightarrow> pc"
  stuck :: "nat \<Rightarrow> bool"

definition holds_it :: "lock_sys \<Rightarrow> nat \<Rightarrow> bool" where
  "holds_it s i \<longleftrightarrow> word s \<and> owner s = Some i"

inductive lock_step :: "lock_sys \<Rightarrow> lock_sys \<Rightarrow> bool" where
  acquire_start: "pcs s i = Outside \<Longrightarrow> \<not> holds_it s i \<Longrightarrow> lock_step s (s\<lparr>pcs := (pcs s)(i := Spinning)\<rparr>)"
| acquire_panic: "pcs s i = Outside \<Longrightarrow> holds_it s i \<Longrightarrow> lock_step s (s\<lparr>stuck := (stuck s)(i := True)\<rparr>)"
| xchg_busy: "pcs s i = Spinning \<Longrightarrow> word s \<Longrightarrow> lock_step s s"
| xchg_won: "pcs s i = Spinning \<Longrightarrow> \<not> word s \<Longrightarrow>
    lock_step s (s\<lparr>word := True, pcs := (pcs s)(i := Got)\<rparr>)"
| set_cpu: "pcs s i = Got \<Longrightarrow> lock_step s (s\<lparr>owner := Some i, pcs := (pcs s)(i := Inside)\<rparr>)"
| release_clear: "pcs s i = Inside \<Longrightarrow> holds_it s i \<Longrightarrow>
    lock_step s (s\<lparr>owner := None, pcs := (pcs s)(i := Clearing)\<rparr>)"
| release_panic: "pcs s i = Inside \<Longrightarrow> \<not> holds_it s i \<Longrightarrow> lock_step s (s\<lparr>stuck := (stuck s)(i := True)\<rparr>)"
| release_word: "pcs s i = Clearing \<Longrightarrow>
    lock_step s (s\<lparr>word := False, pcs := (pcs s)(i := Outside)\<rparr>)"

definition lock_init :: lock_sys where
  "lock_init = \<lparr>word = False, owner = None, pcs = (\<lambda>_. Outside), stuck = (\<lambda>_. False)\<rparr>"

inductive lock_reach :: "lock_sys \<Rightarrow> bool" where
  start: "lock_reach lock_init"
| step: "lock_reach s \<Longrightarrow> lock_step s t \<Longrightarrow> lock_reach t"

definition has_word :: "lock_sys \<Rightarrow> nat \<Rightarrow> bool" where
  "has_word s i \<longleftrightarrow> pcs s i \<in> {Got, Inside, Clearing}"

definition lock_sys_inv :: "lock_sys \<Rightarrow> bool" where
  "lock_sys_inv s \<longleftrightarrow>
     (\<forall>i j. has_word s i \<longrightarrow> has_word s j \<longrightarrow> i = j)
     \<and> (\<forall>i. has_word s i \<longrightarrow> word s)
     \<and> (\<forall>i. pcs s i = Inside \<longleftrightarrow> owner s = Some i)
     \<and> (\<forall>i. \<not> stuck s i)"

lemma has_word_upd:
  "has_word (s\<lparr>pcs := (pcs s)(i := q)\<rparr>) k = (if k = i then q \<in> {Got, Inside, Clearing} else has_word s k)"
  "has_word (s\<lparr>word := w\<rparr>) k = has_word s k" "has_word (s\<lparr>owner := ow\<rparr>) k = has_word s k"
  "has_word (s\<lparr>word := w, pcs := p\<rparr>) k = has_word (s\<lparr>pcs := p\<rparr>) k"
  "has_word (s\<lparr>owner := ow, pcs := p\<rparr>) k = has_word (s\<lparr>pcs := p\<rparr>) k"
  by (simp_all add: has_word_def)

lemma lock_sys_invD:
  assumes "lock_sys_inv s"
  shows "has_word s i \<Longrightarrow> has_word s k \<longleftrightarrow> k = i" and "\<not> word s \<Longrightarrow> \<not> has_word s k"
    and "has_word s i \<Longrightarrow> word s" and "pcs s k = Inside \<longleftrightarrow> owner s = Some k" and "\<not> stuck s k"
  using assms unfolding lock_sys_inv_def by metis+

lemma lock_step_inv: "lock_step s t \<Longrightarrow> lock_sys_inv s \<Longrightarrow> lock_sys_inv t"
proof (induction rule: lock_step.induct)
  case (acquire_start s i)
  note D = lock_sys_invD [OF acquire_start(3)]
  have "owner s \<noteq> Some i" and "\<not> has_word s i"
    using D(4) [of i] acquire_start(1) by (auto simp: has_word_def)
  with acquire_start(3) show ?case by (auto simp: lock_sys_inv_def has_word_upd)
next
  case (acquire_panic s i)
  then have "pcs s i = Inside" using lock_sys_invD(4) [of s i] by (simp add: holds_it_def)
  with acquire_panic(1) show ?case by simp
next
  case (xchg_busy s i)
  then show ?case by simp
next
  case (xchg_won s i)
  note D = lock_sys_invD [OF xchg_won(3)]
  have "owner s \<noteq> Some k" for k
    using D(2) [OF xchg_won(2), of k] D(4) [of k] by (auto simp: has_word_def)
  with D(2) [OF xchg_won(2)] D(4,5) show ?case
    by (simp add: lock_sys_inv_def has_word_upd)
next
  case (set_cpu s i)
  note D = lock_sys_invD [OF set_cpu(2)]
  have i: "has_word s i" using set_cpu(1) by (simp add: has_word_def)
  have "pcs s k \<noteq> Inside" if "k \<noteq> i" for k using D(1) [OF i, of k] that by (simp add: has_word_def)
  with D(1) [OF i] D(3) [OF i] D(5) show ?case
    by (auto simp: lock_sys_inv_def has_word_upd)
next
  case (release_clear s i)
  note D = lock_sys_invD [OF release_clear(3)]
  have i: "has_word s i" using release_clear(1) by (simp add: has_word_def)
  have "pcs s k \<noteq> Inside" if "k \<noteq> i" for k using D(1) [OF i, of k] that by (simp add: has_word_def)
  with D(1) [OF i] D(3) [OF i] D(5) show ?case
    by (auto simp: lock_sys_inv_def has_word_upd)
next
  case (release_panic s i)
  then have "has_word s i" by (simp add: has_word_def)
  with release_panic lock_sys_invD(3,4) [of s i] show ?case by (simp add: holds_it_def)
next
  case (release_word s i)
  note D = lock_sys_invD [OF release_word(2)]
  have i: "has_word s i" using release_word(1) by (simp add: has_word_def)
  have "pcs s k \<noteq> Inside" for k
    using D(1) [OF i, of k] release_word(1) by (cases "k = i") (auto simp: has_word_def)
  moreover from this D(4) have "owner s \<noteq> Some k" for k by blast
  ultimately show ?case
    using D(1) [OF i] D(5) by (auto simp: lock_sys_inv_def has_word_upd)
qed

lemma lock_reach_inv: "lock_reach s \<Longrightarrow> lock_sys_inv s"
proof (induction rule: lock_reach.induct)
  case start
  then show ?case by (simp add: lock_sys_inv_def lock_init_def has_word_def)
next
  case (step s t)
  then show ?case using lock_step_inv by blast
qed

section \<open>Properties\<close>

text \<open>
  C21. Mutual exclusion under every interleaving of CPUs: two CPUs are never both between
  the winning \<open>xchg\<close> of \<open>acquire\<close> and the final store of \<open>release\<close>, and the \<open>holding\<close>
  checks never make a CPU that follows the protocol panic.
\<close>

theorem spinlock_mutual_exclusion:
  assumes "lock_reach s" and "has_word s i" and "has_word s j"
  shows "i = j \<and> word s \<and> \<not> stuck s i"
  using lock_reach_inv [OF assms(1)] assms(2,3) by (auto simp: lock_sys_inv_def)

lemma lock_reach_example: "lock_reach (lock_init\<lparr>word := True, pcs := (\<lambda>_. Outside)(3 := Got)\<rparr>)"
proof -
  have 1: "lock_reach (lock_init\<lparr>pcs := (pcs lock_init)(3 := Spinning)\<rparr>)"
    by (rule lock_reach.step [OF lock_reach.start], rule lock_step.acquire_start)
      (simp_all add: lock_init_def holds_it_def)
  have 2: "lock_step (lock_init\<lparr>pcs := (pcs lock_init)(3 := Spinning)\<rparr>)
      (lock_init\<lparr>pcs := (pcs lock_init)(3 := Spinning), word := True,
         pcs := (pcs (lock_init\<lparr>pcs := (pcs lock_init)(3 := Spinning)\<rparr>))(3 := Got)\<rparr>)"
    by (rule lock_step.xchg_won) (simp_all add: lock_init_def)
  from lock_reach.step [OF 1 2] show ?thesis by (simp add: lock_init_def)
qed

theorem spinlock_mutual_exclusion_witness:
  "let s = lock_init\<lparr>word := True, pcs := (\<lambda>_. Outside)(3 := Got)\<rparr> in
     lock_reach s \<and> has_word s 3 \<and> word s \<and> \<not> stuck s 3"
proof -
  let ?s = "lock_init\<lparr>word := True, pcs := (\<lambda>_. Outside)(3 := Got)\<rparr>"
  have h: "has_word ?s 3" by (simp add: has_word_def)
  show ?thesis using spinlock_mutual_exclusion [OF lock_reach_example h h] lock_reach_example h
    by (simp add: Let_def)
qed

text \<open>
  What \<open>acquire\<close> and \<open>release\<close> do on one CPU: taking a lock this CPU already holds
  panics, a lock held elsewhere makes it spin, and otherwise the lock is taken, interrupts
  are off, and the matching \<open>release\<close> restores the whole state, nesting depth and interrupt
  flag included; a release of a lock not held panics.
\<close>

theorem acquire_release_protocol:
  assumes "cpu_ok s"
  shows "(locked (locks s l) \<and> lcpu (locks s l) = Some (cur s) \<longrightarrow> acquire l s = Panic ''acquire'')
       \<and> (locked (locks s l) \<and> lcpu (locks s l) \<noteq> Some (cur s) \<longrightarrow> acquire l s = Block)
       \<and> (lock_free l s \<longrightarrow>
            (\<exists>t. acquire l s = Ok t \<and> \<not> ifl t \<and> locked (locks t l) \<and> release l t = Ok s)
            \<and> release l s = Panic ''release'')"
proof -
  have "\<exists>t. acquire l s = Ok t \<and> \<not> ifl t \<and> locked (locks t l) \<and> release l t = Ok s" if "lock_free l s"
    using acquire_free [OF assms that] acquire_release [OF assms that] by (simp add: enter_def)
  moreover have "release l s = Panic ''release''" if "lock_free l s"
    using that assms by (intro release_not_held) (auto simp: lock_free_def)
  ultimately show ?thesis using acquire_cases [OF assms, of l] by (auto simp: lock_free_def)
qed

definition kst0 :: kst where
  "kst0 = \<lparr>lapicid = 0, apicids = [0], ncli = (\<lambda>_. 0), intena = (\<lambda>_. True), cproc = (\<lambda>_. None), ifl = True,
     locks = (\<lambda>_. \<lparr>locked = False, lname = [], lcpu = None\<rparr>)\<rparr>"

lemma kst0_ok: "cpu_ok kst0" and kst0_free: "lock_free l kst0"
  by (simp_all add: cpu_ok_def lock_free_def cur_def kst0_def)

theorem acquire_release_protocol_witness:
  "cpu_ok kst0 \<and> lock_free Kmem_lock kst0 \<and>
   (\<exists>t. acquire Kmem_lock kst0 = Ok t \<and> \<not> ifl t \<and> release Kmem_lock t = Ok kst0)"
  using acquire_release_protocol [OF kst0_ok, of Kmem_lock] kst0_ok kst0_free by auto

end
