(* ===== verification/Kalloc.thy ===== *)
theory Kalloc
  imports Mmu Spinlock
begin

text \<open>
  The physical page allocator: \<open>xv6-public-master/kalloc.c\<close>. Free pages are chained through
  their own first word, so the free list lives in memory; the linker symbols \<open>end\<close>
  and \<open>data\<close> are the fields \<open>kend\<close> and \<open>kdata\<close>. The locale \<open>page_alloc\<close> is the contract the page-table code relies on; it is
  interpreted here on the allocator of the base kernel and in \<open>Cow_Kalloc\<close> on the
  reference-counting one.
\<close>

section \<open>State and operations\<close>

record kmem_st = kst +
  mem :: memory
  use_lock :: bool
  freelist :: u32
  kend :: u32
  kdata :: u32

definition lock_kmem :: "'z kmem_st_scheme \<Rightarrow> 'z kmem_st_scheme res" where
  "lock_kmem s = (if use_lock s then acquire Kmem_lock s else Ok s)"

definition unlock_kmem :: "'z kmem_st_scheme \<Rightarrow> 'z kmem_st_scheme res" where
  "unlock_kmem s = (if use_lock s then release Kmem_lock s else Ok s)"

definition bad_page :: "u32 \<Rightarrow> 'z kmem_st_scheme \<Rightarrow> bool" where
  "bad_page v s \<longleftrightarrow> v mod PGSIZE \<noteq> 0 \<or> v < kend s \<or> V2P v \<ge> PHYSTOP"

definition kfree :: "u32 \<Rightarrow> 'z kmem_st_scheme \<Rightarrow> 'z kmem_st_scheme res" where
  "kfree v s =
     (if bad_page v s then Panic ''kfree''
      else
        let s = s\<lparr>mem := memset v 1 PGSIZE (mem s)\<rparr> in
        bnd (lock_kmem s) (\<lambda>s.
          let r = v;
              s = s\<lparr>mem := wr32 r (freelist s) (mem s)\<rparr>;
              s = s\<lparr>freelist := r\<rparr>
          in unlock_kmem s))"

definition kalloc :: "'z kmem_st_scheme \<Rightarrow> (u32 \<times> 'z kmem_st_scheme) res" where
  "kalloc s =
     bnd (lock_kmem s) (\<lambda>s.
       let r = freelist s;
           s = (if r \<noteq> 0 then s\<lparr>freelist := rd32 (mem s) r\<rparr> else s)
       in bnd (unlock_kmem s) (\<lambda>s. Ok (r, s)))"

text \<open>
  The loop of \<open>freerange\<close>: at most \<open>2^20\<close> pages fit in the address space, so that many
  iterations are enough unless \<open>p + PGSIZE\<close> wraps, which the claims exclude.
\<close>

primrec freerange_loop ::
  "nat \<Rightarrow> (u32 \<Rightarrow> 'z kmem_st_scheme \<Rightarrow> 'z kmem_st_scheme res) \<Rightarrow> u32 \<Rightarrow> u32 \<Rightarrow> 'z kmem_st_scheme \<Rightarrow> 'z kmem_st_scheme res" where
  "freerange_loop 0 kf p vend s = Block"
| "freerange_loop (Suc k) kf p vend s =
     (if p + PGSIZE \<le> vend then bnd (kf p s) (\<lambda>s. freerange_loop k kf (p + PGSIZE) vend s) else Ok s)"

definition freerange :: "u32 \<Rightarrow> u32 \<Rightarrow> 'z kmem_st_scheme \<Rightarrow> 'z kmem_st_scheme res" where
  "freerange vstart vend s = freerange_loop (2 ^ 20) kfree (PGROUNDUP vstart) vend s"

definition kinit1 :: "u32 \<Rightarrow> u32 \<Rightarrow> 'z kmem_st_scheme \<Rightarrow> 'z kmem_st_scheme res" where
  "kinit1 vstart vend s =
     (let s = initlock Kmem_lock ''kmem'' s; s = s\<lparr>use_lock := False\<rparr> in freerange vstart vend s)"

definition kinit2 :: "u32 \<Rightarrow> u32 \<Rightarrow> 'z kmem_st_scheme \<Rightarrow> 'z kmem_st_scheme res" where
  "kinit2 vstart vend s = bnd (freerange vstart vend s) (\<lambda>s. Ok (s\<lparr>use_lock := True\<rparr>))"

section \<open>The free list\<close>

primrec flist :: "memory \<Rightarrow> u32 \<Rightarrow> u32 list \<Rightarrow> bool" where
  "flist m p [] = (p = 0)"
| "flist m p (x # xs) = (p = x \<and> x \<noteq> 0 \<and> flist m (rd32 m x) xs)"

definition good_page :: "'z kmem_st_scheme \<Rightarrow> u32 \<Rightarrow> bool" where
  "good_page s v \<longleftrightarrow> \<not> bad_page v s \<and> KERNBASE \<le> v"

definition kmem_ready :: "'z kmem_st_scheme \<Rightarrow> bool" where
  "kmem_ready s \<longleftrightarrow> KERNBASE \<le> kend s \<and> (use_lock s \<longrightarrow> cpu_ok s \<and> lock_free Kmem_lock s)"

definition kmem_inv :: "'z kmem_st_scheme \<Rightarrow> u32 list \<Rightarrow> bool" where
  "kmem_inv s xs \<longleftrightarrow> kmem_ready s \<and> flist (mem s) (freelist s) xs \<and> distinct xs
     \<and> (\<forall>x \<in> set xs. good_page s x)"

lemma good_page_aligned: "good_page s v \<Longrightarrow> aligned v"
  by (simp add: good_page_def bad_page_def aligned_def)

lemma good_page_nonzero: "good_page s v \<Longrightarrow> v \<noteq> 0"
  by (auto simp: good_page_def)

lemma good_page_upd [simp, frame]:
  "good_page (s\<lparr>mem := a\<rparr>) v = good_page s v" "good_page (s\<lparr>freelist := b\<rparr>) v = good_page s v"
  "good_page (s\<lparr>use_lock := c\<rparr>) v = good_page s v"
  by (simp_all add: good_page_def bad_page_def)

lemma page_word: "aligned v \<Longrightarrow> a \<in> {v, v + 1, v + 2, v + 3} \<Longrightarrow> a \<in> page v"
  by (auto simp: page_def)

lemma rd32_page: "aligned v \<Longrightarrow> (\<And>a. a \<in> page v \<Longrightarrow> m a = m' a) \<Longrightarrow> rd32 m v = rd32 m' v"
  by (intro rd32_cong) (simp add: page_def word_less_nat_alt)

lemma flist_frame:
  "(\<And>x a. x \<in> set xs \<Longrightarrow> a \<in> page x \<Longrightarrow> m a = m' a) \<Longrightarrow> \<forall>x \<in> set xs. aligned x \<Longrightarrow>
   flist m p xs = flist m' p xs"
proof (induction xs arbitrary: p)
  case (Cons x xs)
  have "rd32 m x = rd32 m' x" using Cons.prems by (intro rd32_page) auto
  moreover have "flist m q xs = flist m' q xs" for q
    by (rule Cons.IH) (use Cons.prems in \<open>auto dest: bspec\<close>)
  ultimately show ?case by simp
qed simp

text \<open>Leaving the critical section puts everything but the free list back.\<close>

lemma kmem_section:
  assumes "kmem_ready s"
  shows "bnd (lock_kmem s) (\<lambda>s. unlock_kmem (s\<lparr>mem := f s, freelist := g s\<rparr>)) =
      Ok (s\<lparr>mem := f (if use_lock s then enter Kmem_lock s else s),
            freelist := g (if use_lock s then enter Kmem_lock s else s)\<rparr>)"
proof (cases "use_lock s")
  case True
  then have c: "cpu_ok s" and l: "lock_free Kmem_lock s" using assms by (auto simp: kmem_ready_def)
  let ?e = "enter Kmem_lock s"
  have u: "use_lock ?e" using True by (simp add: enter_def)
  have "with_lock Kmem_lock (\<lambda>s. Ok ((), s\<lparr>mem := f s, freelist := g s\<rparr>)) s =
      Ok ((), ?e\<lparr>mem := f ?e, freelist := g ?e, ncli := ncli s, ifl := ifl s,
         locks := (locks ?e)(Kmem_lock := locks s Kmem_lock)\<rparr>)"
    using with_lock_ok [OF c l, of "\<lambda>s. Ok ((), s\<lparr>mem := f s, freelist := g s\<rparr>)" "()"
        "?e\<lparr>mem := f ?e, freelist := g ?e\<rparr>"] by simp
  then have "bnd (lock_kmem s) (\<lambda>s. unlock_kmem (s\<lparr>mem := f s, freelist := g s\<rparr>)) =
      Ok (?e\<lparr>mem := f ?e, freelist := g ?e, ncli := ncli s, ifl := ifl s,
         locks := (locks ?e)(Kmem_lock := locks s Kmem_lock)\<rparr>)"
    using u True acquire_free [OF c l] by (auto simp: with_lock_def lock_kmem_def unlock_kmem_def)
  with True show ?thesis by (simp add: enter_def)
next
  case False
  then show ?thesis by (simp add: lock_kmem_def unlock_kmem_def)
qed

lemma enter_kmem [simp]:
  "mem (enter l s) = mem s" "freelist (enter l s) = freelist s" "use_lock (enter l s) = use_lock s"
  "kend (enter l s) = kend s"
  by (simp_all add: enter_def)


text \<open>The two operations on an allocator in its invariant.\<close>

lemma freelist_id: "freelist s = p \<Longrightarrow> s\<lparr>freelist := p\<rparr> = s"
  by auto

lemma kalloc_eq:
  assumes "kmem_ready s"
  shows "kalloc s = Ok (freelist s, s\<lparr>freelist := if freelist s \<noteq> 0 then rd32 (mem s) (freelist s) else freelist s\<rparr>)"
proof -
  have "kalloc s = bnd (bnd (lock_kmem s) (\<lambda>s. unlock_kmem (s\<lparr>mem := mem s,
      freelist := if freelist s \<noteq> 0 then rd32 (mem s) (freelist s) else freelist s\<rparr>))) (\<lambda>t. Ok (freelist s, t))"
    using assms acquire_free [of s Kmem_lock]
    by (auto simp: kalloc_def lock_kmem_def Let_def kmem_ready_def freelist_id)
  then show ?thesis using kmem_section [OF assms, of "\<lambda>s. if freelist s \<noteq> 0 then rd32 (mem s) (freelist s) else freelist s" mem]
    by simp
qed

lemma kfree_eq:
  assumes "kmem_ready s" and "\<not> bad_page v s"
  shows "kfree v s = Ok (s\<lparr>mem := wr32 v (freelist s) (memset v 1 PGSIZE (mem s)), freelist := v\<rparr>)"
proof -
  let ?s = "s\<lparr>mem := memset v 1 PGSIZE (mem s)\<rparr>"
  have r: "kmem_ready ?s" using assms(1) by (simp add: kmem_ready_def cpu_ok_def cur_def lock_free_def)
  have "kfree v s = bnd (lock_kmem ?s) (\<lambda>s. unlock_kmem (s\<lparr>mem := wr32 v (freelist s) (mem s), freelist := v\<rparr>))"
    using assms(2) by (simp add: kfree_def Let_def)
  then show ?thesis using kmem_section [OF r, of "\<lambda>_. v" "\<lambda>s. wr32 v (freelist s) (mem s)"] by simp
qed

lemma kmem_ready_upd [simp, frame]:
  "kmem_ready (s\<lparr>mem := a\<rparr>) = kmem_ready s" "kmem_ready (s\<lparr>freelist := b\<rparr>) = kmem_ready s"
  by (simp_all add: kmem_ready_def cpu_ok_def cur_def lock_free_def)

lemma kmem_inv_kalloc:
  "kmem_inv s [] \<Longrightarrow> kalloc s = Ok (0, s)"
  "kmem_inv s (x # xs) \<Longrightarrow> kalloc s = Ok (x, s\<lparr>freelist := rd32 (mem s) x\<rparr>)
     \<and> kmem_inv (s\<lparr>freelist := rd32 (mem s) x\<rparr>) xs"
  by (auto simp: kmem_inv_def kalloc_eq)

lemma kfree_other: "aligned v \<Longrightarrow> a \<notin> page v \<Longrightarrow> wr32 v w (memset v c PGSIZE m) a = m a"
  using page_word [of v a] by (subst wr32_other) (auto simp: memset_apply page_def)

lemma kmem_inv_kfree:
  assumes "kmem_inv s xs" and "good_page s v" and "v \<notin> set xs"
  defines "s' \<equiv> s\<lparr>mem := wr32 v (freelist s) (memset v 1 PGSIZE (mem s)), freelist := v\<rparr>"
  shows "kfree v s = Ok s' \<and> kmem_inv s' (v # xs)"
proof -
  have v: "aligned v" "\<not> bad_page v s" "v \<noteq> 0"
    using assms(2) good_page_aligned good_page_nonzero by (auto simp: good_page_def)
  have al: "\<forall>x \<in> set xs. aligned x" using assms(1) good_page_aligned by (auto simp: kmem_inv_def)
  have "flist (mem s') (freelist s) xs = flist (mem s) (freelist s) xs"
  proof (rule flist_frame)
    fix x a assume "x \<in> set xs" and "a \<in> page x"
    then have "a \<notin> page v" using page_disjoint [of x v a] al v(1) assms(3) by auto
    then show "mem s' a = mem s a" using kfree_other [OF v(1)] by (simp add: s'_def)
  qed (use al in auto)
  then have "flist (mem s') v (v # xs)"
    using assms(1) v(3) by (simp add: s'_def rd32_wr32_same kmem_inv_def)
  then show ?thesis using assms(1-3) v kfree_eq [of s v] by (simp add: kmem_inv_def s'_def)
qed

lemma kmem_inv_frame:
  assumes "kmem_inv s xs" and "\<And>x a. x \<in> set xs \<Longrightarrow> a \<in> page x \<Longrightarrow> m a = mem s a"
  shows "kmem_inv (s\<lparr>mem := m\<rparr>) xs"
proof -
  have "flist m (freelist s) xs = flist (mem s) (freelist s) xs"
    using assms by (intro flist_frame) (auto simp: kmem_inv_def intro: good_page_aligned)
  then show ?thesis using assms(1) by (simp add: kmem_inv_def)
qed

section \<open>The contract of a page allocator\<close>

text \<open>
  What the page-table code relies on. \<open>free s xs\<close> says that the allocator is consistent and
  would hand out the pages \<open>xs\<close> in this order; \<open>sole s v\<close> that \<open>v\<close> is an allocated page with a
  single user, which \<open>kf\<close> would put back on the free list.
\<close>

locale page_alloc =
  fixes ka :: "'z kmem_st_scheme \<Rightarrow> (u32 \<times> 'z kmem_st_scheme) res"
    and kf :: "u32 \<Rightarrow> 'z kmem_st_scheme \<Rightarrow> 'z kmem_st_scheme res"
    and free :: "'z kmem_st_scheme \<Rightarrow> u32 list \<Rightarrow> bool"
    and sole :: "'z kmem_st_scheme \<Rightarrow> u32 \<Rightarrow> bool"
  assumes alloc_none: "free s [] \<Longrightarrow> ka s = Ok (0, s)"
    and alloc_some: "free s (x # xs) \<Longrightarrow>
      \<exists>s'. ka s = Ok (x, s') \<and> free s' xs \<and> mem s' = mem s \<and> sole s' x
        \<and> (\<forall>v. v \<noteq> x \<longrightarrow> sole s' v = sole s v)"
    and free_ok: "free s xs \<Longrightarrow> sole s v \<Longrightarrow> v \<notin> set xs \<Longrightarrow>
      \<exists>s'. kf v s = Ok s' \<and> free s' (v # xs) \<and> (\<forall>a. a \<notin> page v \<longrightarrow> mem s' a = mem s a)
        \<and> (\<forall>w. w \<noteq> v \<longrightarrow> sole s' w = sole s w)"
    and free_distinct: "free s xs \<Longrightarrow> distinct xs"
    and free_page: "free s xs \<Longrightarrow> x \<in> set xs \<Longrightarrow> aligned x \<and> KERNBASE \<le> x \<and> V2P x < PHYSTOP"
    and sole_page: "sole s v \<Longrightarrow> aligned v \<and> KERNBASE \<le> v \<and> V2P v < PHYSTOP"
    and free_frame: "free s xs \<Longrightarrow> (\<And>x a. x \<in> set xs \<Longrightarrow> a \<in> page x \<Longrightarrow> m a = mem s a) \<Longrightarrow> free (s\<lparr>mem := m\<rparr>) xs"
    and sole_frame: "sole (s\<lparr>mem := m\<rparr>) v = sole s v"
begin

lemma page_nonzero: "KERNBASE \<le> x \<Longrightarrow> x \<noteq> (0 :: u32)"
  by auto

lemma free_aligned: "free s xs \<Longrightarrow> x \<in> set xs \<Longrightarrow> aligned x"
  using free_page by blast

text \<open>A page that was allocated is not handed out again before it is freed.\<close>

lemma alloc_fresh: "free s (x # xs) \<Longrightarrow> ka s = Ok (y, s') \<Longrightarrow> y = x \<and> y \<notin> set xs \<and> free s' xs"
  using alloc_some [of s x xs] free_distinct [of s "x # xs"] by auto

lemma alloc_then_free:
  assumes "free s (x # xs)" and "ka s = Ok (y, s')"
  shows "\<exists>s''. kf y s' = Ok s'' \<and> free s'' (x # xs) \<and> (\<forall>a. a \<notin> page x \<longrightarrow> mem s'' a = mem s a)"
proof -
  obtain t where t: "ka s = Ok (x, t)" "free t xs" "mem t = mem s" "sole t x"
    using alloc_some [OF assms(1)] by auto
  with assms have "y = x" "s' = t" "x \<notin> set xs" using free_distinct [of s "x # xs"] by auto
  then show ?thesis using free_ok [OF t(2,4)] t(3) by auto
qed

end

text \<open>The allocator of the base kernel.\<close>

interpretation base: page_alloc kalloc kfree kmem_inv good_page
proof (unfold_locales, goal_cases)
  case (2 s x xs)
  then show ?case using kmem_inv_kalloc(2) [of s x xs] by (auto simp: kmem_inv_def)
next
  case (3 s xs v)
  then show ?case
    using kmem_inv_kfree [of s xs v] kfree_other [OF good_page_aligned [of s v]] by auto
next
  case (7 s xs m)
  then show ?case by (rule kmem_inv_frame)
qed (auto simp: kmem_inv_kalloc kmem_inv_def good_page_def bad_page_def aligned_def)


section \<open>Building the free list at boot\<close>

lemma unat_page_next: "unat p + 4096 < 2 ^ 32 \<Longrightarrow> unat (p + PGSIZE) = unat p + 4096"
  using unat_plus_of_nat [of p 4096] by simp

lemma aligned_next: "aligned p \<Longrightarrow> unat p + 4096 < 2 ^ 32 \<Longrightarrow> aligned (p + PGSIZE)"
  by (simp add: aligned_unat unat_page_next)

lemma next_aligned_step: "x mod 4096 = 0 \<Longrightarrow> y mod 4096 = 0 \<Longrightarrow> y \<noteq> x \<Longrightarrow> x \<le> y \<Longrightarrow> x + 4096 \<le> y" for x y :: nat
proof -
  assume "x mod 4096 = 0" "y mod 4096 = 0" "y \<noteq> x" "x \<le> y"
  then obtain i j where "x = 4096 * i" "y = 4096 * j" by (meson mod_0_imp_dvd dvdE)
  with \<open>y \<noteq> x\<close> \<open>x \<le> y\<close> show ?thesis by simp
qed

lemma good_page_in_range:
  assumes "aligned p" and "KERNBASE \<le> p" and "kend s \<le> p" and "unat p + 4096 \<le> unat vend" and "unat vend \<le> 0x8E000000"
  shows "good_page s p"
proof -
  have "unat (V2P p) = unat p - 0x80000000" using assms(2) by (simp add: V2P_def unat_sub word_le_nat_alt)
  then show ?thesis using assms by (simp add: good_page_def bad_page_def aligned_def word_less_nat_alt word_le_nat_alt)
qed

text \<open>The pages a run of the loop from \<open>p\<close> to \<open>vend\<close> gives to the allocator.\<close>

definition range_pages :: "u32 \<Rightarrow> u32 \<Rightarrow> u32 set" where
  "range_pages p vend = {v. aligned v \<and> p \<le> v \<and> unat v + 4096 \<le> unat vend}"

lemma range_pages_step:
  assumes "aligned p" and "unat p + 4096 \<le> unat vend" and "unat vend \<le> 0x8E000000"
  shows "range_pages p vend = insert p (range_pages (p + PGSIZE) vend)"
proof -
  have n: "unat (p + PGSIZE) = unat p + 4096" using assms(2,3) by (intro unat_page_next) simp
  have "p + PGSIZE \<le> v" if "aligned v" "p \<le> v" "v \<noteq> p" for v
    using next_aligned_step [of "unat p" "unat v"] that assms(1) n
    by (auto simp: aligned_unat word_le_nat_alt word_unat_eq_iff)
  moreover have "p \<le> v" if "p + PGSIZE \<le> v" for v using that n by (simp add: word_le_nat_alt)
  ultimately show ?thesis using assms(1,2) by (auto simp: range_pages_def)
qed

lemma freerange_loop_ok:
  "unat vend \<le> 0x8E000000 \<Longrightarrow> unat p \<le> 0x8E000000 \<Longrightarrow> aligned p \<Longrightarrow> KERNBASE \<le> p \<Longrightarrow> kend s \<le> p \<Longrightarrow>
   kmem_inv s xs \<Longrightarrow> \<forall>x \<in> set xs. x < p \<Longrightarrow> unat vend < unat p + 4096 * k \<Longrightarrow> 0 < k \<Longrightarrow>
   \<exists>m f ys. freerange_loop k kfree p vend s = Ok (s\<lparr>mem := m, freelist := f\<rparr>)
     \<and> kmem_inv (s\<lparr>mem := m, freelist := f\<rparr>) (ys @ xs) \<and> set ys = range_pages p vend"
proof (induction k arbitrary: p s xs)
  case (Suc k)
  have n: "unat (p + PGSIZE) = unat p + 4096" using Suc.prems(2) by (intro unat_page_next) simp
  show ?case
  proof (cases "p + PGSIZE \<le> vend")
    case True
    then have le: "unat p + 4096 \<le> unat vend" by (simp add: word_le_nat_alt n)
    have g: "good_page s p" by (rule good_page_in_range [OF Suc.prems(3-5) le Suc.prems(1)])
    define t where "t = s\<lparr>mem := wr32 p (freelist s) (memset p 1 PGSIZE (mem s)), freelist := p\<rparr>"
    have t: "kfree p s = Ok t" "kmem_inv t (p # xs)" "kend t = kend s"
      using kmem_inv_kfree [OF Suc.prems(6) g] Suc.prems(7) by (auto simp: t_def)
    have "\<exists>m f ys. freerange_loop k kfree (p + PGSIZE) vend t = Ok (t\<lparr>mem := m, freelist := f\<rparr>)
        \<and> kmem_inv (t\<lparr>mem := m, freelist := f\<rparr>) (ys @ p # xs) \<and> set ys = range_pages (p + PGSIZE) vend"
    proof (rule Suc.IH)
      show "aligned (p + PGSIZE)" using Suc.prems(2,3) by (intro aligned_next) auto
      show "\<forall>x \<in> set (p # xs). x < p + PGSIZE" using Suc.prems(7) n by (auto simp: word_less_nat_alt)
      show "unat (p + PGSIZE) \<le> 0x8E000000" using le n Suc.prems(1) by simp
      show "unat vend < unat (p + PGSIZE) + 4096 * k" using Suc.prems(8) n by simp
      show "KERNBASE \<le> p + PGSIZE" and "kend t \<le> p + PGSIZE"
        using Suc.prems(4,5) n t(3) by (auto simp: word_le_nat_alt)
      show "0 < k" using Suc.prems(8) le by (cases k) auto
    qed (use Suc.prems t in auto)
    then obtain m f ys where "freerange_loop k kfree (p + PGSIZE) vend t = Ok (s\<lparr>mem := m, freelist := f\<rparr>)"
      "kmem_inv (s\<lparr>mem := m, freelist := f\<rparr>) (ys @ p # xs)" "set ys = range_pages (p + PGSIZE) vend"
      by (auto simp: t_def)
    then show ?thesis
      using True t(1) range_pages_step [OF Suc.prems(3) le Suc.prems(1)]
      by (intro exI [of _ m] exI [of _ f] exI [of _ "ys @ [p]"]) auto
  next
    case False
    then have "range_pages p vend = {}" by (auto simp: range_pages_def word_le_nat_alt n)
    with False Suc.prems(6) show ?thesis 
      by (intro exI [of _ "mem s"] exI [of _ "freelist s"] exI [of _ "[]"]) simp
  qed
qed simp

lemma freerange_ok:
  assumes "unat vend \<le> 0x8E000000" and "unat vstart \<le> 0x8DFFF000" and "KERNBASE \<le> vstart" and "kend s \<le> vstart"
    and "kmem_inv s xs" and "\<forall>x \<in> set xs. x < PGROUNDUP vstart"
  shows "\<exists>m f ys. freerange vstart vend s = Ok (s\<lparr>mem := m, freelist := f\<rparr>)
     \<and> kmem_inv (s\<lparr>mem := m, freelist := f\<rparr>) (ys @ xs) \<and> set ys = range_pages (PGROUNDUP vstart) vend"
proof -
  note up = PGROUNDUP_bounds [of vstart]
  have *: "unat vstart \<le> unat (PGROUNDUP vstart)" "unat (PGROUNDUP vstart) < unat vstart + 4096"
    and al: "aligned (PGROUNDUP vstart)" using up assms(2) by auto
  show ?thesis unfolding freerange_def
  proof (rule freerange_loop_ok)
    show "unat vend < unat (PGROUNDUP vstart) + 4096 * 2 ^ 20" using assms(1) by simp
    show "KERNBASE \<le> PGROUNDUP vstart" and "kend s \<le> PGROUNDUP vstart"
      using * assms(3,4) by (auto simp: word_le_nat_alt)
  qed (use * al assms in auto)
qed

section \<open>Properties\<close>

text \<open>
  C11. Allocation and release in any order: on a consistent allocator, \<open>kalloc\<close> returns 0 exactly
  when no page is free and otherwise a page that is not free any more, \<open>kfree\<close> of a page that
  is not free makes it the next page to be handed out and touches no byte outside it, and both
  keep the free list a duplicate-free chain of valid pages.
\<close>

theorem kalloc_kfree_correct:
  assumes "kmem_inv s xs"
  shows "(xs = [] \<longrightarrow> kalloc s = Ok (0, s))
    \<and> (xs \<noteq> [] \<longrightarrow> (\<exists>s'. kalloc s = Ok (hd xs, s') \<and> kmem_inv s' (tl xs) \<and> hd xs \<noteq> 0
          \<and> hd xs \<notin> set (tl xs) \<and> mem s' = mem s))
    \<and> (good_page s v \<and> v \<notin> set xs \<longrightarrow> (\<exists>s'. kfree v s = Ok s' \<and> kmem_inv s' (v # xs)
          \<and> (\<forall>a. a \<notin> page v \<longrightarrow> mem s' a = mem s a)))
    \<and> (bad_page v s \<longrightarrow> kfree v s = Panic ''kfree'')"
proof (intro conjI impI)
  assume "xs \<noteq> []"
  then obtain x ys where x: "xs = x # ys" by (cases xs) auto
  then have "x \<noteq> 0" "x \<notin> set ys" using assms by (auto simp: kmem_inv_def)
  then show "\<exists>s'. kalloc s = Ok (hd xs, s') \<and> kmem_inv s' (tl xs) \<and> hd xs \<noteq> 0
      \<and> hd xs \<notin> set (tl xs) \<and> mem s' = mem s"
    using base.alloc_some [of s x ys] assms x by auto
next
  assume "good_page s v \<and> v \<notin> set xs"
  then show "\<exists>s'. kfree v s = Ok s' \<and> kmem_inv s' (v # xs) \<and> (\<forall>a. a \<notin> page v \<longrightarrow> mem s' a = mem s a)"
    using base.free_ok [OF assms, of v] by auto
qed (use assms in \<open>auto simp: base.alloc_none kfree_def\<close>)

definition kmem0 :: kmem_st where
  "kmem0 = kst.extend kst0 \<lparr>mem = (\<lambda>_. 0), use_lock = False, freelist = 0, kend = 0x80110000, kdata = 0x80108000\<rparr>"

lemma kmem0_inv: "kmem_inv kmem0 []"
  by (simp add: kmem0_def kmem_inv_def kmem_ready_def kst.defs kmem_st.defs)

theorem kalloc_kfree_correct_witness:
  "kmem_inv kmem0 [] \<and> kalloc kmem0 = Ok (0, kmem0)
   \<and> (\<exists>s'. kfree 0x80200000 kmem0 = Ok s' \<and> kmem_inv s' [0x80200000])
   \<and> kfree 0x80200001 kmem0 = Panic ''kfree''"
proof -
  have "good_page kmem0 0x80200000" and "bad_page 0x80200001 kmem0"
    by (simp_all add: good_page_def bad_page_def V2P_def kmem0_def kst.defs kmem_st.defs)
  then show ?thesis
    using kmem0_inv kalloc_kfree_correct [OF kmem0_inv, of "0x80200000"]
      kalloc_kfree_correct [OF kmem0_inv, of "0x80200001"] by auto
qed

text \<open>
  C27. \<open>kinit1\<close> and \<open>kinit2\<close>: after both phases of boot every whole page between the two ranges'
  bounds, and nothing else, is free, each exactly once, and the allocator locks from then on.
  The second range may reach up to \<open>P2V(PHYSTOP)\<close>, as it does in \<open>main\<close>.
\<close>

theorem kinit_frees_all_pages:
  assumes "KERNBASE \<le> kend s" and "freelist s = 0" and "cpu_ok s"
    and "aligned vmid" and "kend s \<le> vstart" and "vstart \<le> vmid" and "vmid < vend" and "vend \<le> P2V PHYSTOP"
  shows "\<exists>s1 s2 xs. kinit1 vstart vmid s = Ok s1 \<and> kinit2 vmid vend s1 = Ok s2 \<and> use_lock s2
     \<and> kmem_inv s2 xs \<and> distinct xs
     \<and> set xs = range_pages (PGROUNDUP vstart) vmid \<union> range_pages vmid vend"
proof -
  let ?s = "(initlock Kmem_lock ''kmem'' s)\<lparr>use_lock := False\<rparr>"
  have le: "unat vend \<le> 0x8E000000" "unat vmid < unat vend" "unat vstart \<le> unat vmid" "KERNBASE \<le> vmid" "KERNBASE \<le> vstart"
    "kend ?s \<le> vstart" "kend ?s \<le> vmid"
    using assms by (auto simp: word_le_nat_alt word_less_nat_alt initlock_def P2V_def)
  have mid: "unat vmid \<le> 0x8DFFF000"
    using next_aligned_step [of "unat vmid" "0x8E000000"] assms(4) le(1,2) by (simp add: aligned_unat)
  then have start: "unat vstart \<le> 0x8DFFF000" using le(3) by simp
  have inv0: "kmem_inv ?s []" using assms(1,2) by (simp add: kmem_inv_def kmem_ready_def initlock_def)
  obtain m f ys where 1: "freerange vstart vmid ?s = Ok (?s\<lparr>mem := m, freelist := f\<rparr>)"
    "kmem_inv (?s\<lparr>mem := m, freelist := f\<rparr>) ys" "set ys = range_pages (PGROUNDUP vstart) vmid"
    using freerange_ok [OF _ start le(5,6) inv0, of vmid] le by auto
  let ?s1 = "?s\<lparr>mem := m, freelist := f\<rparr>"
  have below: "\<forall>x \<in> set ys. x < PGROUNDUP vmid"
    using 1(3) assms(4) PGROUNDUP_bounds [of vmid] le mid by (auto simp: range_pages_def word_less_nat_alt)
  obtain m' f' zs where 2: "freerange vmid vend ?s1 = Ok (?s1\<lparr>mem := m', freelist := f'\<rparr>)"
    "kmem_inv (?s1\<lparr>mem := m', freelist := f'\<rparr>) (zs @ ys)" "set zs = range_pages (PGROUNDUP vmid) vend"
    using freerange_ok [OF le(1) mid le(4) _ 1(2) below] le by auto
  let ?s2 = "?s1\<lparr>mem := m', freelist := f'\<rparr>"
  have "cpu_ok ?s2" using assms(3) by (simp add: cpu_ok_def cur_def initlock_def)
  moreover have "lock_free Kmem_lock ?s2" by (simp add: lock_free_def initlock_def)
  ultimately have "kmem_inv (?s2\<lparr>use_lock := True\<rparr>) (zs @ ys)"
    using 2(2) by (simp add: kmem_inv_def kmem_ready_def cpu_ok_def cur_def lock_free_def)
  moreover have "PGROUNDUP vmid = vmid" using PGROUNDUP_aligned assms(4) mid by simp
  ultimately show ?thesis
    using 1 2 by (intro exI [of _ ?s1] exI [of _ "?s2\<lparr>use_lock := True\<rparr>"] exI [of _ "zs @ ys"])
      (auto simp: kinit1_def kinit2_def Let_def kmem_inv_def)
qed

theorem kinit_frees_all_pages_witness:
  "\<exists>s1 s2 xs. kinit1 0x80110000 0x80400000 kmem0 = Ok s1 \<and> kinit2 0x80400000 0x8E000000 s1 = Ok s2
     \<and> use_lock s2 \<and> kmem_inv s2 xs
     \<and> set xs = range_pages (PGROUNDUP 0x80110000) 0x80400000 \<union> range_pages 0x80400000 0x8E000000"
proof -
  have "cpu_ok kmem0" by (simp add: cpu_ok_def cur_def kmem0_def kst0_def kst.defs kmem_st.defs)
  then show ?thesis
    using kinit_frees_all_pages [of kmem0 "0x80400000" "0x80110000" "0x8E000000"]
    by (simp add: P2V_def kmem0_def kst.defs kmem_st.defs aligned_def) blast
qed

end
