(* ===== verification/Cow_Kalloc.thy ===== *)
theory Cow_Kalloc
  imports Kalloc
begin

text \<open>
  The page allocator of the copy-on-write kernel
  (\<open>Lab-Memory Management in xv6/CoW Implement/xv6-public-master/kalloc.c\<close>): the base
  allocator with a reference count per physical page. \<open>kalloc\<close> gives a page the count 1,
  \<open>kfree\<close> drops one reference and frees the page when none is left. A count is a C \<open>int\<close>: a 32-bit
  word that wraps around, read with its sign (\<open>refs\<close>). The names carry the
  prefix \<open>cow_\<close> because the functions have the names of the base kernel's.
\<close>

section \<open>State and operations\<close>

record cow_st = kmem_st +
  refcount_list :: "nat \<Rightarrow> u32"

definition pidx :: "u32 \<Rightarrow> nat" where
  "pidx pa = unat pa div 4096"

definition set_ref :: "u32 \<Rightarrow> u32 \<Rightarrow> 'z cow_st_scheme \<Rightarrow> 'z cow_st_scheme" where
  "set_ref pa n s = s\<lparr>refcount_list := (refcount_list s)(pidx pa := n)\<rparr>"

abbreviation refs :: "'z cow_st_scheme \<Rightarrow> u32 \<Rightarrow> int" where
  "refs s pa \<equiv> sint (refcount_list s (pidx pa))"

lemma refs_up: "sint w < 2 ^ 31 - 1 \<Longrightarrow> sint (w + 1) = sint w + 1" for w :: u32
  using sint_ge [of w] by (simp add: sint_word_ariths signed_take_bit_int_eq_self)

lemma refs_down: "0 < sint w \<Longrightarrow> sint (w - 1) = sint w - 1" for w :: u32
  using sint_lt [of w] by (simp add: sint_word_ariths signed_take_bit_int_eq_self)

lemma sint_eq: "sint w = sint v \<longleftrightarrow> w = v" for v w :: u32
  by (rule word_eq_iff_signed [symmetric])

lemma refs_eq [simp]: "sint w = 0 \<longleftrightarrow> w = 0" "sint w = 1 \<longleftrightarrow> w = 1" for w :: u32
proof -
  have "sint (0 :: u32) = 0" "sint (1 :: u32) = 1" by simp_all
  then show "sint w = 0 \<longleftrightarrow> w = 0" "sint w = 1 \<longleftrightarrow> w = 1" using sint_eq [of w 0] sint_eq [of w 1] by simp_all
qed

definition cow_kfree :: "u32 \<Rightarrow> 'z cow_st_scheme \<Rightarrow> 'z cow_st_scheme res" where
  "cow_kfree v s =
     (if bad_page v s then Panic ''kfree''
      else bnd (lock_kmem s) (\<lambda>s.
        if refs s (V2P v) < 0 then bnd (unlock_kmem s) (\<lambda>s. Panic ''kfree: WTF'')
        else
          let s = (if refs s (V2P v) > 0 then set_ref (V2P v) (refcount_list s (pidx (V2P v)) - 1) s else s);
              s = (if refs s (V2P v) = 0 then
                     let s = s\<lparr>mem := memset v 1 PGSIZE (mem s)\<rparr>;
                         s = s\<lparr>mem := wr32 v (freelist s) (mem s)\<rparr>
                     in s\<lparr>freelist := v\<rparr>
                   else s)
          in unlock_kmem s))"

definition cow_kalloc :: "'z cow_st_scheme \<Rightarrow> (u32 \<times> 'z cow_st_scheme) res" where
  "cow_kalloc s =
     bnd (lock_kmem s) (\<lambda>s.
       let r = freelist s in
       if r \<noteq> 0 \<and> refs s (V2P r) \<noteq> 0 then
         bnd (unlock_kmem s) (\<lambda>s. Panic ''kalloc: refcount of a free page is not 0'')
       else
         let s = (if r \<noteq> 0 then (set_ref (V2P r) 1 s)\<lparr>freelist := rd32 (mem s) r\<rparr> else s)
         in bnd (unlock_kmem s) (\<lambda>s. Ok (r, s)))"

text \<open>The list walk is given one step for every page of the address space, and one to see the end.\<close>

primrec count_loop :: "nat \<Rightarrow> memory \<Rightarrow> u32 \<Rightarrow> int \<Rightarrow> int res" where
  "count_loop 0 m r c = Block"
| "count_loop (Suc k) m r c = (if r = 0 then Ok c else count_loop k m (rd32 m r) (c + 1))"

definition get_count_of_free_pages_right_now :: "'z cow_st_scheme \<Rightarrow> (int \<times> 'z cow_st_scheme) res" where
  "get_count_of_free_pages_right_now s =
     bnd (lock_kmem s) (\<lambda>s.
     bnd (count_loop (2 ^ 20 + 1) (mem s) (freelist s) 0) (\<lambda>count.
     bnd (unlock_kmem s) (\<lambda>s. Ok (count, s))))"

definition increase_refcount :: "u32 \<Rightarrow> 'z cow_st_scheme \<Rightarrow> 'z cow_st_scheme res" where
  "increase_refcount pa s =
     bnd (lock_kmem s) (\<lambda>s. let s = set_ref pa (refcount_list s (pidx pa) + 1) s in unlock_kmem s)"

definition get_refcount :: "u32 \<Rightarrow> 'z cow_st_scheme \<Rightarrow> (int \<times> 'z cow_st_scheme) res" where
  "get_refcount pa s =
     bnd (lock_kmem s) (\<lambda>s. let ret = refs s pa in bnd (unlock_kmem s) (\<lambda>s. Ok (ret, s)))"

definition decrease_refcount :: "u32 \<Rightarrow> 'z cow_st_scheme \<Rightarrow> 'z cow_st_scheme res" where
  "decrease_refcount pa s =
     bnd (lock_kmem s) (\<lambda>s. let s = set_ref pa (refcount_list s (pidx pa) - 1) s in unlock_kmem s)"

section \<open>Critical sections of the allocator\<close>

definition cow_upd :: "(nat \<Rightarrow> u32) \<Rightarrow> memory \<Rightarrow> u32 \<Rightarrow> 'z cow_st_scheme \<Rightarrow> 'z cow_st_scheme" where
  "cow_upd rc m f s = s\<lparr>mem := m, freelist := f, refcount_list := rc\<rparr>"

lemma cow_upd_simps [simp]:
  "mem (cow_upd rc m f s) = m" "freelist (cow_upd rc m f s) = f" "refcount_list (cow_upd rc m f s) = rc"
  "kend (cow_upd rc m f s) = kend s" "use_lock (cow_upd rc m f s) = use_lock s"
  "kmem_ready (cow_upd rc m f s) = kmem_ready s" "good_page (cow_upd rc m f s) v = good_page s v"
  "bad_page v (cow_upd rc m f s) = bad_page v s"
  by (simp_all add: cow_upd_def kmem_ready_def cpu_ok_def cur_def lock_free_def good_page_def bad_page_def)

lemma cow_upd_id: "refcount_list t = rc \<Longrightarrow> mem t = m \<Longrightarrow> freelist t = f \<Longrightarrow> cow_upd rc m f t = t"
  by (auto simp: cow_upd_def)

lemma cow_upd_fold:
  "s\<lparr>refcount_list := rc\<rparr> = cow_upd rc (mem s) (freelist s) s"
  "s\<lparr>freelist := f\<rparr> = cow_upd (refcount_list s) (mem s) f s"
  "s\<lparr>mem := m\<rparr> = cow_upd (refcount_list s) m (freelist s) s"
  "cow_upd rc m f (cow_upd rc' m' f' s) = cow_upd rc m f s"
  by (simp_all add: cow_upd_def)

lemma enter_cow [simp]: "refcount_list (enter l s) = refcount_list s"
  by (simp add: enter_def)

text \<open>
  A body that runs between \<open>lock_kmem\<close> and \<open>unlock_kmem\<close> and computes the new counts, memory
  and list head from the old ones has exactly that effect.
\<close>

lemma cow_section:
  assumes "kmem_ready s"
    and "\<And>t. mem t = mem s \<Longrightarrow> freelist t = freelist s \<Longrightarrow> refcount_list t = refcount_list s \<Longrightarrow>
      kend t = kend s \<Longrightarrow> body t = bnd (unlock_kmem (cow_upd rc m f t)) k"
  shows "bnd (lock_kmem s) body = k (cow_upd rc m f s)"
proof (cases "use_lock s")
  case True
  then have c: "cpu_ok s" and l: "lock_free Kmem_lock s" using assms by (auto simp: kmem_ready_def)
  let ?e = "enter Kmem_lock s"
  have "with_lock Kmem_lock (\<lambda>s. Ok ((), cow_upd rc m f s)) s =
      Ok ((), (cow_upd rc m f ?e)\<lparr>ncli := ncli s, ifl := ifl s,
         locks := (locks ?e)(Kmem_lock := locks s Kmem_lock)\<rparr>)"
    using with_lock_ok [OF c l, of "\<lambda>s. Ok ((), cow_upd rc m f s)" "()" "cow_upd rc m f ?e"]
    by (simp add: cow_upd_def)
  moreover have "(cow_upd rc m f ?e)\<lparr>ncli := ncli s, ifl := ifl s,
       locks := (locks ?e)(Kmem_lock := locks s Kmem_lock)\<rparr> = cow_upd rc m f s"
    by (simp add: cow_upd_def enter_def)
  ultimately have "release Kmem_lock (cow_upd rc m f ?e) = Ok (cow_upd rc m f s)"
    using acquire_free [OF c l] by (auto simp: with_lock_def)
  then show ?thesis
    using True assms(2) [of ?e] acquire_free [OF c l] by (simp add: lock_kmem_def unlock_kmem_def)
next
  case False
  then show ?thesis using assms(2) [of s] by (simp add: lock_kmem_def unlock_kmem_def)
qed

lemma cow_kalloc_eq:
  assumes "kmem_ready s" and "freelist s \<noteq> 0 \<Longrightarrow> refs s (V2P (freelist s)) = 0"
  shows "cow_kalloc s = Ok (freelist s,
      if freelist s = 0 then s
      else cow_upd ((refcount_list s)(pidx (V2P (freelist s)) := 1)) (mem s) (rd32 (mem s) (freelist s)) s)"
proof (cases "freelist s = 0")
  case True
  have "cow_kalloc s = Ok (freelist s, cow_upd (refcount_list s) (mem s) (freelist s) s)"
    unfolding cow_kalloc_def by (rule cow_section [OF assms(1)]) (simp add: Let_def True cow_upd_id)
  with True show ?thesis by (simp add: cow_upd_def)
next
  case False
  have z: "refcount_list s (pidx (V2P (freelist s))) = 0" using assms(2) False by simp
  have "cow_kalloc s = Ok (freelist s,
      cow_upd ((refcount_list s)(pidx (V2P (freelist s)) := 1)) (mem s) (rd32 (mem s) (freelist s)) s)"
    unfolding cow_kalloc_def
    by (rule cow_section [OF assms(1)]) (auto simp: Let_def False z cow_upd_fold set_ref_def fun_upd_def)
  with False show ?thesis by simp
qed

lemma cow_kfree_eq:
  assumes "kmem_ready s" and "\<not> bad_page v s" and "0 < refs s (V2P v)"
  shows "cow_kfree v s = Ok (
     if refs s (V2P v) = 1
     then cow_upd ((refcount_list s)(pidx (V2P v) := 0)) (wr32 v (freelist s) (memset v 1 PGSIZE (mem s))) v s
     else cow_upd ((refcount_list s)(pidx (V2P v) := refcount_list s (pidx (V2P v)) - 1)) (mem s) (freelist s) s)"
proof (cases "refs s (V2P v) = 1")
  case True
  have "cow_kfree v s = Ok (cow_upd ((refcount_list s)(pidx (V2P v) := 0))
      (wr32 v (freelist s) (memset v 1 PGSIZE (mem s))) v s)"
    unfolding cow_kfree_def if_not_P [OF assms(2)]
    by (rule cow_section [OF assms(1)]) (use True in \<open>auto simp: Let_def cow_upd_fold set_ref_def fun_upd_def\<close>)
  with True show ?thesis by simp
next
  case False
  have "cow_kfree v s = Ok (cow_upd ((refcount_list s)(pidx (V2P v) := refcount_list s (pidx (V2P v)) - 1)) (mem s) (freelist s) s)"
    unfolding cow_kfree_def if_not_P [OF assms(2)]
    by (rule cow_section [OF assms(1)])
      (use assms(3) False refs_down [OF assms(3)] in \<open>auto simp: Let_def cow_upd_fold set_ref_def fun_upd_def\<close>)
  with False show ?thesis by simp
qed

section \<open>The contract\<close>

text \<open>A free page has no references; a page used once has exactly one.\<close>

definition cow_inv :: "'z cow_st_scheme \<Rightarrow> u32 list \<Rightarrow> bool" where
  "cow_inv s xs \<longleftrightarrow> kmem_inv s xs \<and> (\<forall>x \<in> set xs. refs s (V2P x) = 0)"

definition cow_sole :: "'z cow_st_scheme \<Rightarrow> u32 \<Rightarrow> bool" where
  "cow_sole s v \<longleftrightarrow> good_page s v \<and> refs s (V2P v) = 1"

lemma unat_V2P: "KERNBASE \<le> v \<Longrightarrow> unat (V2P v) = unat v - 0x80000000"
  by (simp add: V2P_def unat_sub word_le_nat_alt)

lemma nat_page_inj:
  fixes x y :: nat
  assumes "x mod 4096 = 0" and "y mod 4096 = 0" and "0x80000000 \<le> x" and "0x80000000 \<le> y"
    and "(x - 0x80000000) div 4096 = (y - 0x80000000) div 4096"
  shows "x = y"
proof -
  obtain i j where "x = 4096 * i" "y = 4096 * j" using assms(1,2) by (meson mod_0_imp_dvd dvdE)
  moreover have "(4096 * k - 0x80000000) div 4096 = k - 0x80000" for k :: nat
    using div_mult_self1_is_m [of 4096 "k - 0x80000"] by (simp add: diff_mult_distrib2)
  ultimately show ?thesis using assms(3-5) by simp
qed

lemma pidx_inj:
  assumes "good_page s v" and "good_page t w"
  shows "pidx (V2P v) = pidx (V2P w) \<longleftrightarrow> v = w"
proof
  assume "pidx (V2P v) = pidx (V2P w)"
  moreover have "aligned v" "aligned w" "KERNBASE \<le> v" "KERNBASE \<le> w"
    using assms good_page_aligned by (auto simp: good_page_def)
  ultimately have "unat v = unat w"
    using nat_page_inj [of "unat v" "unat w"] by (simp add: pidx_def unat_V2P aligned_unat word_le_nat_alt)
  then show "v = w" by (simp add: word_unat_eq_iff)
qed simp

lemma cow_inv_kmem: "cow_inv s xs \<Longrightarrow> kmem_inv s xs"
  by (simp add: cow_inv_def)

lemma kmem_inv_cow_upd:
  "kmem_inv (cow_upd rc m f s) xs = kmem_inv (s\<lparr>mem := m, freelist := f\<rparr>) xs"
  by (simp add: kmem_inv_def)

lemma cow_kalloc_some:
  assumes "cow_inv s (x # xs)"
  defines "s' \<equiv> cow_upd ((refcount_list s)(pidx (V2P x) := 1)) (mem s) (rd32 (mem s) x) s"
  shows "cow_kalloc s = Ok (x, s') \<and> cow_inv s' xs \<and> cow_sole s' x \<and> (\<forall>v. v \<noteq> x \<longrightarrow> cow_sole s' v = cow_sole s v)"
proof -
  have k: "kmem_inv s (x # xs)" and r: "refs s (V2P x) = 0" "\<forall>y \<in> set xs. refs s (V2P y) = 0"
    using assms(1) by (auto simp: cow_inv_def)
  from k have x: "freelist s = x" "x \<noteq> 0" "good_page s x" "x \<notin> set xs" "kmem_ready s"
    and good: "\<forall>y \<in> set xs. good_page s y" by (auto simp: kmem_inv_def)
  have "cow_kalloc s = Ok (x, s')" using cow_kalloc_eq [of s] x r by (simp add: s'_def)
  moreover have "kmem_inv s' xs"
    using kmem_inv_kalloc(2) [OF k] by (simp add: s'_def kmem_inv_cow_upd)
  moreover have "refs s' (V2P y) = refs s (V2P y)" if "good_page s y" "y \<noteq> x" for y
    using pidx_inj [OF that(1) x(3)] that(2) by (simp add: s'_def)
  ultimately show ?thesis
    using x good r by (auto simp: cow_inv_def cow_sole_def s'_def pidx_inj [of s _ s])
qed

lemma cow_kfree_sole:
  assumes "cow_inv s xs" and "cow_sole s v" and "v \<notin> set xs"
  defines "s' \<equiv> cow_upd ((refcount_list s)(pidx (V2P v) := 0)) (wr32 v (freelist s) (memset v 1 PGSIZE (mem s))) v s"
  shows "cow_kfree v s = Ok s' \<and> cow_inv s' (v # xs) \<and> (\<forall>w. w \<noteq> v \<longrightarrow> cow_sole s' w = cow_sole s w)"
proof -
  have k: "kmem_inv s xs" and r: "\<forall>y \<in> set xs. refs s (V2P y) = 0" using assms(1) by (auto simp: cow_inv_def)
  have g: "good_page s v" and one: "refs s (V2P v) = 1" using assms(2) by (auto simp: cow_sole_def)
  have "cow_kfree v s = Ok s'"
    using cow_kfree_eq [of s v] g one k by (simp add: s'_def good_page_def kmem_inv_def)
  moreover have "kmem_inv s' (v # xs)"
    using kmem_inv_kfree [OF k g assms(3)] by (simp add: s'_def kmem_inv_cow_upd)
  moreover have "refs s' (V2P y) = refs s (V2P y)" if "good_page s y" "y \<noteq> v" for y
    using pidx_inj [OF that(1) g] that(2) by (simp add: s'_def)
  ultimately show ?thesis
    using r k by (auto simp: cow_inv_def cow_sole_def kmem_inv_def s'_def pidx_inj [of s _ s])
qed

interpretation cow: page_alloc cow_kalloc cow_kfree cow_inv cow_sole
proof (unfold_locales, goal_cases)
  case (1 s)
  then show ?case using cow_kalloc_eq [of s] by (auto simp: cow_inv_def kmem_inv_def)
next
  case (2 s x xs)
  then show ?case using cow_kalloc_some [of s x xs] by auto
next
  case (3 s xs v)
  then have "aligned v" using good_page_aligned by (auto simp: cow_sole_def)
  with 3 show ?case using cow_kfree_sole [of s xs v] by (auto simp: kfree_other)
next
  case (7 s xs m)
  then show ?case using kmem_inv_frame [of s xs m] by (auto simp: cow_inv_def)
next
  case (8 s m v)
  then show ?case by (simp add: cow_sole_def)
qed (auto simp: cow_inv_def kmem_inv_def cow_sole_def good_page_def bad_page_def aligned_def)

section \<open>Reference counts\<close>

lemma increase_refcount_eq:
  "kmem_ready s \<Longrightarrow> increase_refcount pa s =
     Ok (cow_upd ((refcount_list s)(pidx pa := refcount_list s (pidx pa) + 1)) (mem s) (freelist s) s)"
  unfolding increase_refcount_def by (rule cow_section) (auto simp: cow_upd_fold set_ref_def fun_upd_def)

lemma decrease_refcount_eq:
  "kmem_ready s \<Longrightarrow> decrease_refcount pa s =
     Ok (cow_upd ((refcount_list s)(pidx pa := refcount_list s (pidx pa) - 1)) (mem s) (freelist s) s)"
  unfolding decrease_refcount_def by (rule cow_section) (auto simp: cow_upd_fold set_ref_def fun_upd_def)

lemma get_refcount_eq: "kmem_ready s \<Longrightarrow> get_refcount pa s = Ok (refs s pa, s)"
proof -
  assume "kmem_ready s"
  then have "get_refcount pa s = Ok (refs s pa, cow_upd (refcount_list s) (mem s) (freelist s) s)"
    unfolding get_refcount_def by (rule cow_section) (auto simp: cow_upd_id)
  then show ?thesis by (simp add: cow_upd_id)
qed

lemma cow_kfree_negative:
  assumes "kmem_ready s" "\<not> bad_page v s" "refs s (V2P v) < 0"
  shows "cow_kfree v s = Panic ''kfree: WTF''"
  unfolding cow_kfree_def if_not_P [OF assms(2)]
  by (rule cow_section [OF assms(1), of _ "refcount_list s" "mem s" "freelist s" "\<lambda>s. Panic ''kfree: WTF''"]) (simp add: assms(3) cow_upd_id)

text \<open>Taking a reference and dropping it again.\<close>

lemma increase_then_kfree:
  assumes "cow_inv s xs" "good_page s v" "0 < refs s (V2P v)"
  shows "bnd (increase_refcount (V2P v) s) (cow_kfree v) = (if refs s (V2P v) < 2 ^ 31 - 1 then Ok s else Panic ''kfree: WTF'')"
proof -
  let ?w = "refcount_list s (pidx (V2P v))"
  let ?t = "cow_upd ((refcount_list s)(pidx (V2P v) := ?w + 1)) (mem s) (freelist s) s"
  have ready: "kmem_ready s" "\<not> bad_page v s" using assms(1,2) by (simp_all add: cow_inv_def kmem_inv_def good_page_def)
  then have inc: "bnd (increase_refcount (V2P v) s) (cow_kfree v) = cow_kfree v ?t"
    using increase_refcount_eq [OF ready(1), of "V2P v"] by simp
  show ?thesis
  proof (cases "sint ?w < 2 ^ 31 - 1")
    case True
    then have up: "refs ?t (V2P v) = sint ?w + 1" using refs_up by simp
    moreover have "?w \<noteq> 0" using assms(3) by auto
    ultimately have "cow_kfree v ?t = Ok s"
      using cow_kfree_eq [of ?t v] ready assms(3) by (simp add: cow_upd_fold cow_upd_id fun_upd_idem)
    then show ?thesis using inc True by simp
  next
    case False
    then have "sint ?w = 2 ^ 31 - 1" using sint_lt [of ?w] by simp
    moreover have "sint (0x7FFFFFFF :: u32) = 2 ^ 31 - 1" by simp
    ultimately have "?w = 0x7FFFFFFF" using sint_eq [of ?w "0x7FFFFFFF"] by simp
    then have "refs ?t (V2P v) < 0" by simp
    then have "cow_kfree v ?t = Panic ''kfree: WTF''" using cow_kfree_negative [of ?t v] ready by simp
    then show ?thesis using inc False by simp
  qed
qed

primrec kfree_times :: "nat \<Rightarrow> u32 \<Rightarrow> 'z cow_st_scheme \<Rightarrow> 'z cow_st_scheme res" where
  "kfree_times 0 v s = Ok s"
| "kfree_times (Suc k) v s = bnd (cow_kfree v s) (kfree_times k v)"

lemma kfree_times_shared:
  "cow_inv s xs \<Longrightarrow> good_page s v \<Longrightarrow> v \<notin> set xs \<Longrightarrow> refs s (V2P v) = int k + 1 \<Longrightarrow>
   kfree_times k v s = Ok (cow_upd ((refcount_list s)(pidx (V2P v) := 1)) (mem s) (freelist s) s)
   \<and> cow_inv (cow_upd ((refcount_list s)(pidx (V2P v) := 1)) (mem s) (freelist s) s) xs"
proof (induction k arbitrary: s)
  case 0
  then show ?case by (simp add: cow_upd_id fun_upd_idem)
next
  case (Suc k)
  let ?w = "refcount_list s (pidx (V2P v))"
  define t where "t = cow_upd ((refcount_list s)(pidx (V2P v) := ?w - 1)) (mem s) (freelist s) s"
  have "?w \<noteq> 1" using Suc.prems(4) by auto
  then have "cow_kfree v s = Ok t"
    using cow_kfree_eq [of s v] Suc.prems by (simp add: t_def cow_inv_def kmem_inv_def good_page_def)
  moreover have "cow_inv t xs"
    using Suc.prems by (auto simp: t_def cow_inv_def kmem_inv_def pidx_inj [of s _ s])
  moreover have "cow_upd ((refcount_list t)(pidx (V2P v) := 1)) (mem t) (freelist t) t
      = cow_upd ((refcount_list s)(pidx (V2P v) := 1)) (mem s) (freelist s) s"
    by (simp add: t_def cow_upd_def)
  moreover have "good_page t v" and "refs t (V2P v) = int k + 1"
    using Suc.prems(2,4) refs_down [of ?w] by (simp_all add: t_def)
  ultimately show ?case using Suc.IH [of t] Suc.prems(3) by (simp del: fun_upd_apply)
qed

lemma count_loop_flist: "flist m r xs \<Longrightarrow> length xs < k \<Longrightarrow> count_loop k m r c = Ok (c + int (length xs))"
proof (induction xs arbitrary: k r c)
  case Nil
  then show ?case by (cases k) auto
next
  case (Cons x xs)
  then obtain k' where "k = Suc k'" "length xs < k'" by (cases k) auto
  with Cons show ?case by simp
qed

lemma free_list_short: "kmem_inv s xs \<Longrightarrow> length xs \<le> 2 ^ 20"
proof -
  assume k: "kmem_inv s xs"
  have "inj_on (\<lambda>v. pidx (V2P v)) (set xs)"
    using k by (auto simp: inj_on_def kmem_inv_def pidx_inj [of s _ s])
  moreover have "(\<lambda>v. pidx (V2P v)) ` set xs \<subseteq> {..< 2 ^ 20}"
  proof -
    have "unat (a :: u32) div 4096 < 2 ^ 20" for a using unat_lt32 [of a] by (simp add: less_mult_imp_div_less)
    then show ?thesis by (auto simp: pidx_def)
  qed
  ultimately have "card (set xs) \<le> 2 ^ 20" by (metis card_inj_on_le card_lessThan finite_lessThan)
  then show ?thesis using k by (simp add: kmem_inv_def distinct_card)
qed

section \<open>Properties\<close>

text \<open>
  C28. A page shared by \<open>n + 1\<close> users survives \<open>n\<close> calls of \<open>kfree\<close> with its contents and the free
  list untouched, and the next call puts it on the free list. A reference taken with
  \<open>increase_refcount\<close> is given back by one \<open>kfree\<close> as long as the count stays below the largest
  \<open>int\<close>; at that value the count wraps around and the \<open>kfree\<close> panics.
\<close>

theorem cow_page_freed_with_last_reference:
  assumes "cow_inv s xs" and "good_page s v" and "v \<notin> set xs" and "refs s (V2P v) = int n + 1"
  shows "\<exists>s1 s2. kfree_times n v s = Ok s1 \<and> mem s1 = mem s \<and> cow_inv s1 xs \<and> cow_sole s1 v
      \<and> cow_kfree v s1 = Ok s2 \<and> cow_inv s2 (v # xs)
      \<and> bnd (increase_refcount (V2P v) s) (cow_kfree v) = (if int n + 1 < 2 ^ 31 - 1 then Ok s else Panic ''kfree: WTF'')"
proof -
  define s1 where "s1 = cow_upd ((refcount_list s)(pidx (V2P v) := 1)) (mem s) (freelist s) s"
  have 1: "kfree_times n v s = Ok s1" "cow_inv s1 xs" using kfree_times_shared [OF assms] by (simp_all add: s1_def)
  have sole: "cow_sole s1 v" using assms(2) by (simp add: cow_sole_def s1_def)
  obtain s2 where 2: "cow_kfree v s1 = Ok s2" "cow_inv s2 (v # xs)"
    using cow.free_ok [OF 1(2) sole assms(3)] by auto
  have "bnd (increase_refcount (V2P v) s) (cow_kfree v) = (if int n + 1 < 2 ^ 31 - 1 then Ok s else Panic ''kfree: WTF'')"
    using increase_then_kfree [OF assms(1,2)] assms(4) by simp
  then show ?thesis using 1 2 sole by (auto simp: s1_def)
qed

definition cow0 :: cow_st where
  "cow0 = kmem_st.extend kmem0 \<lparr>refcount_list = (\<lambda>_. 0)(0x200 := 3)\<rparr>"

lemma cow0_inv: "cow_inv cow0 []"
  by (simp add: cow0_def cow_inv_def kmem0_def kmem_inv_def kmem_ready_def kst.defs kmem_st.defs)

theorem cow_page_freed_with_last_reference_witness:
  "\<exists>s1 s2. kfree_times 2 0x80200000 cow0 = Ok s1 \<and> cow_kfree 0x80200000 s1 = Ok s2 \<and> cow_inv s2 [0x80200000]"
proof -
  have "good_page cow0 0x80200000" "refs cow0 (V2P 0x80200000) = int 2 + 1"
    by (simp_all add: cow0_def kmem0_def good_page_def bad_page_def V2P_def pidx_def kst.defs kmem_st.defs)
  from cow_page_freed_with_last_reference [OF cow0_inv this(1) _ this(2)] show ?thesis by auto
qed

text \<open>
  \<open>get_count_of_free_pages_right_now\<close> terminates and returns the number of free pages,
  and the state is as before.
\<close>

theorem free_page_count_correct:
  assumes "cow_inv s xs"
  shows "get_count_of_free_pages_right_now s = Ok (int (length xs), s)"
proof -
  have k: "kmem_ready s" "flist (mem s) (freelist s) xs" using assms by (auto simp: cow_inv_def kmem_inv_def)
  have "length xs < 2 ^ 20 + 1" using free_list_short [OF cow_inv_kmem [OF assms]] by simp
  then have c: "count_loop (2 ^ 20 + 1) (mem s) (freelist s) 0 = Ok (int (length xs))"
    using count_loop_flist [OF k(2), of "2 ^ 20 + 1" 0] by (simp only: add_0_left)
  have "get_count_of_free_pages_right_now s
      = Ok (int (length xs), cow_upd (refcount_list s) (mem s) (freelist s) s)"
    unfolding get_count_of_free_pages_right_now_def
    by (rule cow_section [OF k(1)]) (simp only: c bnd.simps cow_upd_id)
  then show ?thesis by (simp add: cow_upd_id)
qed

theorem free_page_count_correct_witness:
  "cow_inv cow0 [] \<and> get_count_of_free_pages_right_now cow0 = Ok (0, cow0)"
  using free_page_count_correct [OF cow0_inv] cow0_inv by simp

end
