(* ===== verification/Vm.thy ===== *)
theory Vm
  imports Cow_Kalloc
begin

text \<open>
  Page tables: \<open>xv6-public-master/vm.c\<close>. The functions take the allocator's operations
  (\<open>ka\<close> for \<open>kalloc\<close>, \<open>kf\<close> for \<open>kfree\<close>) as their first arguments because three kernels of the
  repository link the same \<open>vm.c\<close> code against different allocators; the base kernel's
  instances are at the end of the operations. A page directory is the kernel address of its
  page, a \<open>pte_t*\<close> is the address of the entry in memory, 0 the null pointer, and a
  dereference of the null pointer is a panic of its own.
\<close>

section \<open>Walking and mapping\<close>

type_synonym 'z kalloc_fn = "'z kmem_st_scheme \<Rightarrow> (u32 \<times> 'z kmem_st_scheme) res"
type_synonym 'z kfree_fn = "u32 \<Rightarrow> 'z kmem_st_scheme \<Rightarrow> 'z kmem_st_scheme res"

definition ld :: "u32 \<Rightarrow> 'z kmem_st_scheme \<Rightarrow> u32" where
  "ld a s = rd32 (mem s) a"

definition st :: "u32 \<Rightarrow> u32 \<Rightarrow> 'z kmem_st_scheme \<Rightarrow> 'z kmem_st_scheme" where
  "st a v s = s\<lparr>mem := wr32 a v (mem s)\<rparr>"

definition deref :: "u32 \<Rightarrow> 'z kmem_st_scheme \<Rightarrow> u32 res" where
  "deref p s = (if p = 0 then Panic ''null pointer'' else Ok (ld p s))"

definition walkpgdir :: "'z kalloc_fn \<Rightarrow> u32 \<Rightarrow> u32 \<Rightarrow> bool \<Rightarrow> 'z kmem_st_scheme \<Rightarrow> (u32 \<times> 'z kmem_st_scheme) res" where
  "walkpgdir ka pgdir va alloc s =
     (let pde = pgdir + 4 * PDX va in
      if ld pde s AND PTE_P \<noteq> 0 then
        let pgtab = P2V (PTE_ADDR (ld pde s)) in Ok (pgtab + 4 * PTX va, s)
      else if \<not> alloc then Ok (0, s)
      else bnd (ka s) (\<lambda>(pgtab, s).
        if pgtab = 0 then Ok (0, s)
        else
          let s = s\<lparr>mem := memset pgtab 0 PGSIZE (mem s)\<rparr>;
              s = st pde (V2P pgtab OR PTE_P OR PTE_W OR PTE_U) s
          in Ok (pgtab + 4 * PTX va, s)))"

text \<open>\<open>a\<close> and \<open>last\<close> are page aligned, so the loop meets \<open>last\<close> after at most \<open>2^20\<close> rounds.\<close>

primrec mappages_loop ::
  "nat \<Rightarrow> 'z kalloc_fn \<Rightarrow> u32 \<Rightarrow> u32 \<Rightarrow> u32 \<Rightarrow> u32 \<Rightarrow> u32 \<Rightarrow> 'z kmem_st_scheme \<Rightarrow> (int \<times> 'z kmem_st_scheme) res" where
  "mappages_loop 0 ka pgdir a lst pa perm s = Block"
| "mappages_loop (Suc k) ka pgdir a lst pa perm s =
     bnd (walkpgdir ka pgdir a True s) (\<lambda>(pte, s).
       if pte = 0 then Ok (-1, s)
       else if ld pte s AND PTE_P \<noteq> 0 then Panic ''remap''
       else
         let s = st pte (pa OR perm OR PTE_P) s in
         if a = lst then Ok (0, s)
         else mappages_loop k ka pgdir (a + PGSIZE) lst (pa + PGSIZE) perm s)"

definition mappages ::
  "'z kalloc_fn \<Rightarrow> u32 \<Rightarrow> u32 \<Rightarrow> u32 \<Rightarrow> u32 \<Rightarrow> u32 \<Rightarrow> 'z kmem_st_scheme \<Rightarrow> (int \<times> 'z kmem_st_scheme) res" where
  "mappages ka pgdir va sz pa perm s =
     mappages_loop (2 ^ 20) ka pgdir (PGROUNDDOWN va) (PGROUNDDOWN (va + sz - 1)) pa perm s"

section \<open>User memory\<close>

text \<open>
  The address at which \<open>deallocuvm\<close> resumes after a missing page table is computed by the loop
  body; \<open>2^20\<close> rounds cover every page of the address space.
\<close>

primrec deallocuvm_loop ::
  "nat \<Rightarrow> 'z kalloc_fn \<Rightarrow> 'z kfree_fn \<Rightarrow> u32 \<Rightarrow> u32 \<Rightarrow> u32 \<Rightarrow> 'z kmem_st_scheme \<Rightarrow> 'z kmem_st_scheme res" where
  "deallocuvm_loop 0 ka kf pgdir a oldsz s = Block"
| "deallocuvm_loop (Suc k) ka kf pgdir a oldsz s =
     (if \<not> a < oldsz then Ok s
      else bnd (walkpgdir ka pgdir a False s) (\<lambda>(pte, s).
        if pte = 0 then
          deallocuvm_loop k ka kf pgdir (PGADDR (PDX a + 1) 0 0 - PGSIZE + PGSIZE) oldsz s
        else if ld pte s AND PTE_P \<noteq> 0 then
          let pa = PTE_ADDR (ld pte s) in
          if pa = 0 then Panic ''kfree''
          else bnd (kf (P2V pa) s) (\<lambda>s.
            deallocuvm_loop k ka kf pgdir (a + PGSIZE) oldsz (st pte 0 s))
        else deallocuvm_loop k ka kf pgdir (a + PGSIZE) oldsz s))"

definition deallocuvm ::
  "'z kalloc_fn \<Rightarrow> 'z kfree_fn \<Rightarrow> u32 \<Rightarrow> u32 \<Rightarrow> u32 \<Rightarrow> 'z kmem_st_scheme \<Rightarrow> (u32 \<times> 'z kmem_st_scheme) res" where
  "deallocuvm ka kf pgdir oldsz newsz s =
     (if newsz \<ge> oldsz then Ok (oldsz, s)
      else bnd (deallocuvm_loop (2 ^ 20 + 1) ka kf pgdir (PGROUNDUP newsz) oldsz s) (\<lambda>s. Ok (newsz, s)))"

primrec allocuvm_loop ::
  "nat \<Rightarrow> 'z kalloc_fn \<Rightarrow> 'z kfree_fn \<Rightarrow> u32 \<Rightarrow> u32 \<Rightarrow> u32 \<Rightarrow> u32 \<Rightarrow> 'z kmem_st_scheme \<Rightarrow> (u32 \<times> 'z kmem_st_scheme) res" where
  "allocuvm_loop 0 ka kf pgdir a oldsz newsz s = Block"
| "allocuvm_loop (Suc k) ka kf pgdir a oldsz newsz s =
     (if \<not> a < newsz then Ok (newsz, s)
      else bnd (ka s) (\<lambda>(p, s).
        if p = 0 then bnd (deallocuvm ka kf pgdir newsz oldsz s) (\<lambda>(_, s). Ok (0, s))
        else
          let s = s\<lparr>mem := memset p 0 PGSIZE (mem s)\<rparr> in
          bnd (mappages ka pgdir a PGSIZE (V2P p) (PTE_W OR PTE_U) s) (\<lambda>(r, s).
            if r < 0 then
              bnd (deallocuvm ka kf pgdir newsz oldsz s) (\<lambda>(_, s).
              bnd (kf p s) (\<lambda>s. Ok (0, s)))
            else allocuvm_loop k ka kf pgdir (a + PGSIZE) oldsz newsz s)))"

definition allocuvm ::
  "'z kalloc_fn \<Rightarrow> 'z kfree_fn \<Rightarrow> u32 \<Rightarrow> u32 \<Rightarrow> u32 \<Rightarrow> 'z kmem_st_scheme \<Rightarrow> (u32 \<times> 'z kmem_st_scheme) res" where
  "allocuvm ka kf pgdir oldsz newsz s =
     (if newsz \<ge> KERNBASE then Ok (0, s)
      else if newsz < oldsz then Ok (oldsz, s)
      else allocuvm_loop (2 ^ 20) ka kf pgdir (PGROUNDUP oldsz) oldsz newsz s)"

primrec freevm_loop :: "nat \<Rightarrow> 'z kfree_fn \<Rightarrow> u32 \<Rightarrow> u32 \<Rightarrow> 'z kmem_st_scheme \<Rightarrow> 'z kmem_st_scheme res" where
  "freevm_loop 0 kf pgdir i s = Ok s"
| "freevm_loop (Suc k) kf pgdir i s =
     (let pde = ld (pgdir + 4 * i) s in
      if pde AND PTE_P \<noteq> 0 then bnd (kf (P2V (PTE_ADDR pde)) s) (freevm_loop k kf pgdir (i + 1))
      else freevm_loop k kf pgdir (i + 1) s)"

definition freevm :: "'z kalloc_fn \<Rightarrow> 'z kfree_fn \<Rightarrow> u32 \<Rightarrow> 'z kmem_st_scheme \<Rightarrow> 'z kmem_st_scheme res" where
  "freevm ka kf pgdir s =
     (if pgdir = 0 then Panic ''freevm: no pgdir''
      else bnd (deallocuvm ka kf pgdir KERNBASE 0 s) (\<lambda>(_, s).
           bnd (freevm_loop 1024 kf pgdir 0 s) (\<lambda>s. kf pgdir s)))"

section \<open>Kernel mappings\<close>

record kmap_entry =
  virt :: u32
  phys_start :: u32
  phys_end :: u32
  kperm :: u32

definition kmap :: "'z kmem_st_scheme \<Rightarrow> kmap_entry list" where
  "kmap s =
    [\<lparr>virt = KERNBASE, phys_start = 0, phys_end = EXTMEM, kperm = PTE_W\<rparr>,
     \<lparr>virt = KERNLINK, phys_start = V2P KERNLINK, phys_end = V2P (kdata s), kperm = 0\<rparr>,
     \<lparr>virt = kdata s, phys_start = V2P (kdata s), phys_end = PHYSTOP, kperm = PTE_W\<rparr>,
     \<lparr>virt = DEVSPACE, phys_start = DEVSPACE, phys_end = 0, kperm = PTE_W\<rparr>]"

primrec setupkvm_loop ::
  "kmap_entry list \<Rightarrow> 'z kalloc_fn \<Rightarrow> 'z kfree_fn \<Rightarrow> u32 \<Rightarrow> 'z kmem_st_scheme \<Rightarrow> (u32 \<times> 'z kmem_st_scheme) res" where
  "setupkvm_loop [] ka kf pgdir s = Ok (pgdir, s)"
| "setupkvm_loop (k # ks) ka kf pgdir s =
     bnd (mappages ka pgdir (virt k) (phys_end k - phys_start k) (phys_start k) (kperm k) s) (\<lambda>(r, s).
       if r < 0 then bnd (freevm ka kf pgdir s) (\<lambda>s. Ok (0, s))
       else setupkvm_loop ks ka kf pgdir s)"

definition setupkvm :: "'z kalloc_fn \<Rightarrow> 'z kfree_fn \<Rightarrow> 'z kmem_st_scheme \<Rightarrow> (u32 \<times> 'z kmem_st_scheme) res" where
  "setupkvm ka kf s =
     bnd (ka s) (\<lambda>(pgdir, s).
       if pgdir = 0 then Ok (0, s)
       else
         let s = s\<lparr>mem := memset pgdir 0 PGSIZE (mem s)\<rparr> in
         if P2V PHYSTOP > DEVSPACE then Panic ''PHYSTOP too high''
         else setupkvm_loop (kmap s) ka kf pgdir s)"

section \<open>Copying address spaces and crossing them\<close>

definition inituvm :: "'z kalloc_fn \<Rightarrow> u32 \<Rightarrow> u32 \<Rightarrow> u32 \<Rightarrow> 'z kmem_st_scheme \<Rightarrow> 'z kmem_st_scheme res" where
  "inituvm ka pgdir init sz s =
     (if sz \<ge> PGSIZE then Panic ''inituvm: more than a page''
      else bnd (ka s) (\<lambda>(p, s).
        let s = s\<lparr>mem := memset p 0 PGSIZE (mem s)\<rparr> in
        bnd (mappages ka pgdir 0 PGSIZE (V2P p) (PTE_W OR PTE_U) s) (\<lambda>(_, s).
          Ok (s\<lparr>mem := memmove p init sz (mem s)\<rparr>))))"

definition clearpteu :: "'z kalloc_fn \<Rightarrow> u32 \<Rightarrow> u32 \<Rightarrow> 'z kmem_st_scheme \<Rightarrow> 'z kmem_st_scheme res" where
  "clearpteu ka pgdir uva s =
     bnd (walkpgdir ka pgdir uva False s) (\<lambda>(pte, s).
       if pte = 0 then Panic ''clearpteu'' else Ok (st pte (ld pte s AND NOT PTE_U) s))"

primrec copyuvm_loop ::
  "nat \<Rightarrow> 'z kalloc_fn \<Rightarrow> 'z kfree_fn \<Rightarrow> u32 \<Rightarrow> u32 \<Rightarrow> u32 \<Rightarrow> u32 \<Rightarrow> 'z kmem_st_scheme \<Rightarrow> (u32 \<times> 'z kmem_st_scheme) res" where
  "copyuvm_loop 0 ka kf pgdir d i sz s = Block"
| "copyuvm_loop (Suc k) ka kf pgdir d i sz s =
     (if \<not> i < sz then Ok (d, s)
      else bnd (walkpgdir ka pgdir i False s) (\<lambda>(pte, s).
        if pte = 0 then Panic ''copyuvm: pte should exist''
        else if ld pte s AND PTE_P = 0 then Panic ''copyuvm: page not present''
        else
          let pa = PTE_ADDR (ld pte s); flags = PTE_FLAGS (ld pte s) in
          bnd (ka s) (\<lambda>(p, s).
            if p = 0 then bnd (freevm ka kf d s) (\<lambda>s. Ok (0, s))
            else
              let s = s\<lparr>mem := memmove p (P2V pa) PGSIZE (mem s)\<rparr> in
              bnd (mappages ka d i PGSIZE (V2P p) flags s) (\<lambda>(r, s).
                if r < 0 then bnd (kf p s) (\<lambda>s. bnd (freevm ka kf d s) (\<lambda>s. Ok (0, s)))
                else copyuvm_loop k ka kf pgdir d (i + PGSIZE) sz s))))"

definition copyuvm :: "'z kalloc_fn \<Rightarrow> 'z kfree_fn \<Rightarrow> u32 \<Rightarrow> u32 \<Rightarrow> 'z kmem_st_scheme \<Rightarrow> (u32 \<times> 'z kmem_st_scheme) res" where
  "copyuvm ka kf pgdir sz s =
     bnd (setupkvm ka kf s) (\<lambda>(d, s).
       if d = 0 then Ok (0, s) else copyuvm_loop (2 ^ 20) ka kf pgdir d 0 sz s)"

definition uva2ka :: "'z kalloc_fn \<Rightarrow> u32 \<Rightarrow> u32 \<Rightarrow> 'z kmem_st_scheme \<Rightarrow> (u32 \<times> 'z kmem_st_scheme) res" where
  "uva2ka ka pgdir uva s =
     bnd (walkpgdir ka pgdir uva False s) (\<lambda>(pte, s).
     bnd (deref pte s) (\<lambda>e.
       if e AND PTE_P = 0 then Ok (0, s)
       else if e AND PTE_U = 0 then Ok (0, s)
       else Ok (P2V (PTE_ADDR e), s)))"

text \<open>Each round of \<open>copyout\<close> but the last ends at a page boundary.\<close>

primrec copyout_loop :: "nat \<Rightarrow> 'z kalloc_fn \<Rightarrow> u32 \<Rightarrow> u32 \<Rightarrow> u32 \<Rightarrow> u32 \<Rightarrow> 'z kmem_st_scheme \<Rightarrow> (int \<times> 'z kmem_st_scheme) res" where
  "copyout_loop 0 ka pgdir va buf len s = Block"
| "copyout_loop (Suc k) ka pgdir va buf len s =
     (if \<not> 0 < len then Ok (0, s)
      else
        let va0 = PGROUNDDOWN va in
        bnd (uva2ka ka pgdir va0 s) (\<lambda>(pa0, s).
          if pa0 = 0 then Ok (-1, s)
          else
            let n = PGSIZE - (va - va0);
                n = (if n > len then len else n);
                s = s\<lparr>mem := memmove (pa0 + (va - va0)) buf n (mem s)\<rparr>
            in copyout_loop k ka pgdir (va0 + PGSIZE) (buf + n) (len - n) s))"

definition copyout :: "'z kalloc_fn \<Rightarrow> u32 \<Rightarrow> u32 \<Rightarrow> u32 \<Rightarrow> u32 \<Rightarrow> 'z kmem_st_scheme \<Rightarrow> (int \<times> 'z kmem_st_scheme) res" where
  "copyout ka pgdir va p len s = copyout_loop (2 ^ 21) ka pgdir va p len s"

section \<open>Entries of a page of words\<close>

lemma PDX_lt [simp]: "PDX va < 1024" and PTX_lt [simp]: "PTX va < 1024"
proof -
  have "x AND 0x3FF < (1024 :: u32)" for x
    using word_and_le1 [of x "0x3FF"] by (auto intro: le_less_trans)
  then show "PDX va < 1024" "PTX va < 1024" by (simp_all add: PDX_def PTX_def)
qed

lemma slot_off:
  assumes "i < (1024 :: u32)" and "k < 4"
  shows "unat (4 * i + k) = 4 * unat i + unat k" and "4 * unat i + unat k < 4096"
proof -
  show b: "4 * unat i + unat k < 4096" using assms by (simp add: word_less_nat_alt)
  have "unat (4 * i) = 4 * unat i" using b by (simp add: unat_word_ariths)
  then show "unat (4 * i + k) = 4 * unat i + unat k" using b by (simp add: unat_word_ariths)
qed

lemma slot_in_page: "i < 1024 \<Longrightarrow> k < 4 \<Longrightarrow> p + 4 * i + k \<in> page p"
  using slot_off [of i k] by (simp add: page_def word_less_nat_alt add.assoc)

lemma slot_in_page0: "i < 1024 \<Longrightarrow> p + 4 * i \<in> page p"
  using slot_in_page [of i 0 p] by simp

lemma slot_cell: "x \<in> {a, a + 1, a + 2, a + 3} \<longleftrightarrow> (\<exists>k < 4. x = a + k)" for x a :: u32
proof
  assume "\<exists>k < 4. x = a + k"
  then obtain k where k: "k < 4" "x = a + k" by blast
  then have "k = 0 \<or> k = 1 \<or> k = 2 \<or> k = 3" by (simp add: word_less_nat_alt word_unat_eq_iff) linarith
  with k(2) show "x \<in> {a, a + 1, a + 2, a + 3}" by auto
next
  assume "x \<in> {a, a + 1, a + 2, a + 3}"
  moreover have "(0 :: u32) < 4" "(1 :: u32) < 4" "(2 :: u32) < 4" "(3 :: u32) < 4" by simp_all
  ultimately show "\<exists>k < 4. x = a + k" by (metis add.right_neutral empty_iff insert_iff)
qed

lemma wr32_slot_page: "i < 1024 \<Longrightarrow> a \<notin> page p \<Longrightarrow> wr32 (p + 4 * i) v m a = m a"
  using slot_in_page [of i _ p] by (intro wr32_other) (auto simp: slot_cell simp del: insert_iff)

lemma rd32_slot:
  assumes "aligned p" and "aligned q" and "i < 1024" and "j < 1024"
  shows "rd32 (wr32 (q + 4 * j) v m) (p + 4 * i) = (if p = q \<and> i = j then v else rd32 m (p + 4 * i))"
proof (cases "p = q \<and> i = j")
  case True
  then show ?thesis by (simp add: rd32_wr32_same)
next
  case False
  have "rd32 (wr32 (q + 4 * j) v m) (p + 4 * i) = rd32 m (p + 4 * i)"
  proof (rule rd32_cong)
    fix k :: u32 assume k: "k < 4"
    have "p + 4 * i + k \<noteq> q + 4 * j + l" if l: "l < 4" for l
    proof (cases "p = q")
      case True
      with False have "unat i \<noteq> unat j" by (auto simp: word_unat_eq_iff)
      then have "4 * unat i + unat k \<noteq> 4 * unat j + unat l"
        using k l by (simp add: word_less_nat_alt)
      then have "4 * i + k \<noteq> 4 * j + l" using slot_off [OF assms(3) k] slot_off [OF assms(4) l] by metis
      with True show ?thesis by (simp add: add.assoc)
    next
      case False
      then show ?thesis
        using slot_in_page [OF assms(3) k, of p] slot_in_page [OF assms(4) l, of q] page_disjoint [OF assms(1,2)]
        by metis
    qed
    then show "wr32 (q + 4 * j) v m (p + 4 * i + k) = m (p + 4 * i + k)"
      by (intro wr32_other) (auto simp: slot_cell simp del: insert_iff)
  qed
  then show ?thesis unfolding if_not_P [OF False] .
qed

lemma rd32_slot_frame: "i < 1024 \<Longrightarrow> (\<And>a. a \<in> page p \<Longrightarrow> m a = m' a) \<Longrightarrow> rd32 m (p + 4 * i) = rd32 m' (p + 4 * i)"
  by (rule rd32_cong) (simp add: slot_in_page)

text \<open>Two addresses share both table indices exactly when they lie in the same page.\<close>

lemma bit_PDX: "bit (PDX a) n \<longleftrightarrow> n < 10 \<and> bit a (n + 22)" and bit_PTX: "bit (PTX a) n \<longleftrightarrow> n < 10 \<and> bit a (n + 12)"
proof -
  have m: "(0x3FF :: u32) = mask 10" by (simp add: mask_eq_exp_minus_1)
  show "bit (PDX a) n \<longleftrightarrow> n < 10 \<and> bit a (n + 22)" "bit (PTX a) n \<longleftrightarrow> n < 10 \<and> bit a (n + 12)"
    unfolding PDX_def PTX_def m by (auto simp: bit_simps add.commute)
qed

lemma same_slot: "PDX a = PDX b \<and> PTX a = PTX b \<longleftrightarrow> PGROUNDDOWN a = PGROUNDDOWN b"
proof
  assume A: "PDX a = PDX b \<and> PTX a = PTX b"
  have 1: "bit a (n + 22) = bit b (n + 22)" and 2: "bit a (n + 12) = bit b (n + 12)" if "n < 10" for n
    using A that bit_PDX [of a n] bit_PDX [of b n] bit_PTX [of a n] bit_PTX [of b n] by auto
  show "PGROUNDDOWN a = PGROUNDDOWN b"
  proof (rule bit_word_eqI)
    fix n assume "n < LENGTH(32)"
    then consider "n < 12" | "12 \<le> n" "n < 22" | "22 \<le> n" "n < 32" by fastforce
    then show "bit (PGROUNDDOWN a) n = bit (PGROUNDDOWN b) n"
      using 1 [of "n - 22"] 2 [of "n - 12"] by cases (simp_all add: PGROUNDDOWN_bits bit_simps)
  qed
next
  assume A: "PGROUNDDOWN a = PGROUNDDOWN b"
  have "bit a n = bit b n" if "12 \<le> n" "n < 32" for n
    using arg_cong [OF A, of "\<lambda>x. bit x n"] that by (simp add: PGROUNDDOWN_bits bit_simps)
  then show "PDX a = PDX b \<and> PTX a = PTX b"
    by (intro conjI bit_word_eqI) (auto simp: bit_PDX bit_PTX)
qed

section \<open>The mapping a page directory stands for\<close>

text \<open>
  \<open>pte_view m pgdir va\<close> is the page-table entry the hardware finds for \<open>va\<close>, 0 when the
  directory has no table for it. \<open>vm_ok\<close> is the well-formedness of an address space under
  construction: its directory and tables are different pages, all allocated, none free.
\<close>

definition present :: "memory \<Rightarrow> u32 \<Rightarrow> u32 \<Rightarrow> bool" where
  "present m pgdir i \<longleftrightarrow> rd32 m (pgdir + 4 * i) AND PTE_P \<noteq> 0"

definition tab :: "memory \<Rightarrow> u32 \<Rightarrow> u32 \<Rightarrow> u32" where
  "tab m pgdir i = P2V (PTE_ADDR (rd32 m (pgdir + 4 * i)))"

definition pte_view :: "memory \<Rightarrow> u32 \<Rightarrow> u32 \<Rightarrow> u32" where
  "pte_view m pgdir va = (if present m pgdir (PDX va) then rd32 m (tab m pgdir (PDX va) + 4 * PTX va) else 0)"

definition pt_pages :: "memory \<Rightarrow> u32 \<Rightarrow> u32 set" where
  "pt_pages m pgdir = insert pgdir {tab m pgdir i | i. i < 1024 \<and> present m pgdir i}"

definition vm_ok ::
  "('z kmem_st_scheme \<Rightarrow> u32 list \<Rightarrow> bool) \<Rightarrow> ('z kmem_st_scheme \<Rightarrow> u32 \<Rightarrow> bool)
   \<Rightarrow> 'z kmem_st_scheme \<Rightarrow> u32 list \<Rightarrow> u32 \<Rightarrow> bool" where
  "vm_ok free sole s xs pgdir \<longleftrightarrow> free s xs \<and> (\<forall>p \<in> pt_pages (mem s) pgdir. sole s p \<and> p \<notin> set xs)
     \<and> (\<forall>i < 1024. present (mem s) pgdir i \<longrightarrow> tab (mem s) pgdir i \<noteq> pgdir
          \<and> (\<forall>j < 1024. present (mem s) pgdir j \<longrightarrow> tab (mem s) pgdir i = tab (mem s) pgdir j \<longrightarrow> i = j))"

lemma walk_lookup:
  "walkpgdir ka pgdir va False s =
     Ok (if present (mem s) pgdir (PDX va) then tab (mem s) pgdir (PDX va) + 4 * PTX va else 0, s)"
  by (simp add: walkpgdir_def ld_def present_def tab_def)

lemma walk_present:
  "present (mem s) pgdir (PDX va) \<Longrightarrow> walkpgdir ka pgdir va al s = Ok (tab (mem s) pgdir (PDX va) + 4 * PTX va, s)"
  by (simp add: walkpgdir_def ld_def present_def tab_def)

lemma aligned_V2P: "aligned x \<Longrightarrow> KERNBASE \<le> x \<Longrightarrow> aligned (V2P x)"
  by (simp add: aligned_unat unat_V2P mod_eq_0_iff_dvd dvd_diff_nat)

lemma entry_addr:
  assumes "aligned x" and "f < 4096"
  shows "PTE_ADDR (x OR f) = x"
proof (rule bit_word_eqI)
  have f: "f AND mask 12 = f"
    using assms(2) by (simp add: word_unat_eq_iff unat_mask12 word_less_nat_alt)
  fix n assume n: "n < LENGTH(32)"
  have "n < 12 \<Longrightarrow> \<not> bit x n"
    using arg_cong [OF assms(1) [unfolded aligned_and], of "\<lambda>y. bit y n"] n by (simp add: bit_simps)
  moreover have "12 \<le> n \<Longrightarrow> \<not> bit f n"
    using arg_cong [OF f, of "\<lambda>y. bit y n"] by (auto simp: bit_simps)
  ultimately show "bit (PTE_ADDR (x OR f)) n = bit x n"
    using n by (cases "n < 12") (simp_all add: PTE_ADDR_down PGROUNDDOWN_bits bit_simps)
qed

lemma has_bit0: "bit w 0 \<Longrightarrow> w AND PTE_P \<noteq> 0" for w :: u32
proof
  assume "bit w 0" and "w AND PTE_P = 0"
  moreover have "bit (w AND PTE_P) 0 \<longleftrightarrow> bit w 0" by (simp add: bit_simps)
  ultimately show False by simp
qed

lemma new_pde:
  assumes "aligned x" and "KERNBASE \<le> x"
  shows "(V2P x OR PTE_P OR PTE_W OR PTE_U) AND PTE_P \<noteq> 0"
    and "P2V (PTE_ADDR (V2P x OR PTE_P OR PTE_W OR PTE_U)) = x"
proof -
  show "(V2P x OR PTE_P OR PTE_W OR PTE_U) AND PTE_P \<noteq> 0" by (rule has_bit0) (simp add: bit_simps)
  have "V2P x OR PTE_P OR PTE_W OR PTE_U = V2P x OR 7" by (simp add: or.assoc)
  then show "P2V (PTE_ADDR (V2P x OR PTE_P OR PTE_W OR PTE_U)) = x"
    using entry_addr [OF aligned_V2P [OF assms], of 7] by simp
qed

lemma vm_okD:
  assumes "vm_ok free sole s xs pgdir"
  shows "free s xs" and "p \<in> pt_pages (mem s) pgdir \<Longrightarrow> sole s p" and "p \<in> pt_pages (mem s) pgdir \<Longrightarrow> p \<notin> set xs"
    and "i < 1024 \<Longrightarrow> present (mem s) pgdir i \<Longrightarrow> tab (mem s) pgdir i \<noteq> pgdir"
    and "i < 1024 \<Longrightarrow> present (mem s) pgdir i \<Longrightarrow> j < 1024 \<Longrightarrow> present (mem s) pgdir j \<Longrightarrow>
      tab (mem s) pgdir i = tab (mem s) pgdir j \<longleftrightarrow> i = j"
  using assms unfolding vm_ok_def by blast+

lemma pt_pages_simps:
  "pgdir \<in> pt_pages m pgdir" "i < 1024 \<Longrightarrow> present m pgdir i \<Longrightarrow> tab m pgdir i \<in> pt_pages m pgdir"
  by (auto simp: pt_pages_def)

lemma pt_frame:
  assumes "\<And>a. a \<in> page pgdir \<Longrightarrow> m' a = m a" and "i < 1024"
  shows "present m' pgdir i = present m pgdir i" and "tab m' pgdir i = tab m pgdir i"
  using rd32_slot_frame [OF assms(2), of pgdir m' m] assms(1) by (simp_all add: present_def tab_def)

lemma pt_pages_frame:
  "(\<And>a. a \<in> page pgdir \<Longrightarrow> m' a = m a) \<Longrightarrow> pt_pages m' pgdir = pt_pages m pgdir"
  using pt_frame [of pgdir m' m] unfolding pt_pages_def by (intro arg_cong [of _ _ "insert pgdir"]) force


lemma image_insert_one:
  assumes "\<And>i. A' i \<longleftrightarrow> i = k \<or> A i" and "f' k = x" and "\<And>i. A i \<Longrightarrow> f' i = f i"
  shows "{f' i |i. A' i} = insert x {f i |i. A i}"
proof -
  have "{f' i |i. A' i} = insert (f' k) {f' i |i. A i}" using assms(1) by auto
  also have "{f' i |i. A i} = {f i |i. A i}" using assms(3) by force
  finally show ?thesis using assms(2) by simp
qed

definition vm_step ::
  "('z kmem_st_scheme \<Rightarrow> u32 list \<Rightarrow> bool) \<Rightarrow> ('z kmem_st_scheme \<Rightarrow> u32 \<Rightarrow> bool) \<Rightarrow> u32
   \<Rightarrow> 'z kmem_st_scheme \<Rightarrow> u32 list \<Rightarrow> 'z kmem_st_scheme \<Rightarrow> u32 list \<Rightarrow> bool" where
  "vm_step free sole pgdir s xs s' ys \<longleftrightarrow> vm_ok free sole s' ys pgdir
     \<and> (\<exists>zs. xs = zs @ ys \<and> pt_pages (mem s') pgdir = pt_pages (mem s) pgdir \<union> set zs)
     \<and> (\<forall>a. (\<forall>p \<in> pt_pages (mem s') pgdir. a \<notin> page p) \<longrightarrow> mem s' a = mem s a)
     \<and> (\<forall>v. v \<notin> set xs \<longrightarrow> sole s' v = sole s v)"

lemma vm_step_ok: "vm_step free sole pgdir s xs s' ys \<Longrightarrow> vm_ok free sole s' ys pgdir"
  by (simp add: vm_step_def)

text \<open>The view after the first \<open>n\<close> pages from \<open>a\<close> have been mapped to the physical pages from \<open>pa\<close>.\<close>

definition mapped :: "nat \<Rightarrow> u32 \<Rightarrow> u32 \<Rightarrow> u32 \<Rightarrow> (u32 \<Rightarrow> u32) \<Rightarrow> u32 \<Rightarrow> u32" where
  "mapped n a pa pm f va =
     (let d = PGROUNDDOWN va - a in if unat d < 4096 * n then (pa + d) OR pm OR PTE_P else f va)"

lemma aligned_diff: "aligned x \<Longrightarrow> aligned y \<Longrightarrow> aligned (x - y)"
  using unat_lt32 [of y]
  by (auto simp: aligned_unat unat_sub_if_size word_size mod_eq_0_iff_dvd dvd_diff_nat)

lemma aligned_add_page: "aligned x \<Longrightarrow> aligned (x + PGSIZE)"
  using aligned_diff [of x "- PGSIZE"] by (simp add: aligned_unat)

lemma mapped_0 [simp]: "mapped 0 a pa pm f = f"
  by (rule ext) (simp add: mapped_def)

lemma page_off_next:
  assumes "aligned a" and "n < 2 ^ 20"
  shows "unat (PGROUNDDOWN va - (a + PGSIZE)) < 4096 * n \<longleftrightarrow>
    PGROUNDDOWN va \<noteq> a \<and> unat (PGROUNDDOWN va - a) < 4096 * Suc n"
proof -
  define d where "d = PGROUNDDOWN va - a"
  have al: "unat d mod 4096 = 0" using aligned_diff [OF aligned_PGROUNDDOWN(1) assms(1)] by (simp only: d_def aligned_unat)
  have d': "PGROUNDDOWN va - (a + PGSIZE) = d - PGSIZE" and z: "PGROUNDDOWN va = a \<longleftrightarrow> d = 0" by (auto simp: d_def)
  show ?thesis
  proof (cases "d = 0")
    case True
    then have "unat (d - PGSIZE) = 2 ^ 32 - 4096" by simp
    then have "\<not> unat (d - PGSIZE) < 4096 * n" using assms(2) by simp
    then show ?thesis unfolding d' z d_def [symmetric] using True by simp
  next
    case False
    then have ge: "4096 \<le> unat d" using al by (cases "unat d < 4096") (auto simp: unat_eq_zero)
    then have "unat (d - PGSIZE) = unat d - 4096" by (simp add: unat_sub word_le_nat_alt)
    then have "unat (d - PGSIZE) < 4096 * n \<longleftrightarrow> unat d < 4096 * Suc n" using ge by auto
    then show ?thesis unfolding d' z d_def [symmetric] using False by simp
  qed
qed

lemma mapped_Suc:
  assumes "aligned a" and "n < 2 ^ 20"
    and "\<And>va. f' va = (if PGROUNDDOWN va = a then pa OR pm OR PTE_P else f va)"
  shows "mapped n (a + PGSIZE) (pa + PGSIZE) pm f' va = mapped (Suc n) a pa pm f va"
proof -
  have "pa + PGSIZE + (PGROUNDDOWN va - (a + PGSIZE)) = pa + (PGROUNDDOWN va - a)" by simp
  then show ?thesis
    unfolding mapped_def Let_def page_off_next [OF assms(1,2)] assms(3) by (auto simp del: mult_Suc_right)
qed

text \<open>The number of pages \<open>mappages\<close> visits.\<close>

definition npages :: "u32 \<Rightarrow> u32 \<Rightarrow> nat" where
  "npages va sz = Suc ((unat (PGROUNDDOWN (va + sz - 1)) - unat (PGROUNDDOWN va)) div 4096)"

lemma npages_lt: "npages va sz - 1 < 2 ^ 20"
proof -
  have "unat (PGROUNDDOWN (va + sz - 1)) - unat (PGROUNDDOWN va) < 4096 * 2 ^ 20"
    using unat_lt32 [of "PGROUNDDOWN (va + sz - 1)"] by simp
  then show ?thesis by (simp add: npages_def less_mult_imp_div_less)
qed

lemma round_mono: "x \<le> y \<Longrightarrow> x - x mod 4096 \<le> y - y mod (4096 :: nat)"
  by (simp add: minus_mod_eq_mult_div div_le_mono)

lemma npages_last:
  assumes "0 < sz" and "unat va + unat sz \<le> 2 ^ 32"
  shows "PGROUNDDOWN (va + sz - 1) = PGROUNDDOWN va + of_nat (npages va sz - 1) * PGSIZE"
proof -
  have z: "1 \<le> unat sz" using assms(1) by (simp add: word_less_nat_alt)
  have "unat (va + sz - 1) = unat va + unat sz - 1"
    using unat_plus_of_nat [of va "unat sz - 1"] assms z by (simp add: of_nat_diff add_diff_eq)
  then have le: "unat (PGROUNDDOWN va) \<le> unat (PGROUNDDOWN (va + sz - 1))"
    using z unat_PGROUNDDOWN [of va] unat_PGROUNDDOWN [of "va + sz - 1"] round_mono [of "unat va" "unat (va + sz - 1)"]
    by simp
  have dvd: "4096 dvd unat (PGROUNDDOWN (va + sz - 1)) - unat (PGROUNDDOWN va)"
    using aligned_PGROUNDDOWN(1) [unfolded aligned_unat] by (simp add: mod_eq_0_iff_dvd dvd_diff_nat)
  have "of_nat (npages va sz - 1) * PGSIZE = of_nat (unat (PGROUNDDOWN (va + sz - 1)) - unat (PGROUNDDOWN va))"
  proof -
    have "(npages va sz - 1) * 4096 = unat (PGROUNDDOWN (va + sz - 1)) - unat (PGROUNDDOWN va)"
      using dvd by (simp add: npages_def)
    then show ?thesis by (metis of_nat_mult of_nat_numeral)
  qed
  also have "\<dots> = PGROUNDDOWN (va + sz - 1) - PGROUNDDOWN va" using le by (simp add: of_nat_diff)
  finally show ?thesis by simp
qed

context page_alloc
begin

lemma vm_ok_aligned:
  assumes "vm_ok free sole s xs pgdir" and "p \<in> pt_pages (mem s) pgdir"
  shows "aligned p \<and> KERNBASE \<le> p \<and> V2P p < PHYSTOP"
  using vm_okD(2) [OF assms] sole_page by blast

text \<open>A write that leaves the directory and the free pages alone keeps the address space well-formed.\<close>

lemma vm_ok_frame:
  assumes ok: "vm_ok free sole s xs pgdir" and dir: "\<And>a. a \<in> page pgdir \<Longrightarrow> m a = mem s a"
    and fr: "\<And>x a. x \<in> set xs \<Longrightarrow> a \<in> page x \<Longrightarrow> m a = mem s a"
  shows "vm_ok free sole (s\<lparr>mem := m\<rparr>) xs pgdir"
proof -
  have "free (s\<lparr>mem := m\<rparr>) xs" using free_frame [OF vm_okD(1) [OF ok] fr] .
  then show ?thesis
    using ok pt_frame [OF dir] pt_pages_frame [OF dir] sole_frame by (simp add: vm_ok_def)
qed

lemma store_entry:
  assumes ok: "vm_ok free sole s xs pgdir" and pr: "present (mem s) pgdir (PDX va)"
  defines "t \<equiv> tab (mem s) pgdir (PDX va)"
  shows "vm_ok free sole (st (t + 4 * PTX va) v s) xs pgdir"
    and "pte_view (mem (st (t + 4 * PTX va) v s)) pgdir va' =
      (if PGROUNDDOWN va' = PGROUNDDOWN va then v else pte_view (mem s) pgdir va')"
    and "pt_pages (mem (st (t + 4 * PTX va) v s)) pgdir = pt_pages (mem s) pgdir"
    and "a \<notin> page t \<Longrightarrow> mem (st (t + 4 * PTX va) v s) a = mem s a"
proof -
  let ?m = "wr32 (t + 4 * PTX va) v (mem s)"
  have t: "t \<in> pt_pages (mem s) pgdir" "t \<noteq> pgdir"
    using pt_pages_simps(2) [OF _ pr] vm_okD(4) [OF ok _ pr] by (simp_all add: t_def)
  have al: "aligned t" "aligned pgdir" using vm_ok_aligned [OF ok] t(1) pt_pages_simps(1) by blast+
  have other: "?m a = mem s a" if "a \<notin> page t" for a by (rule wr32_slot_page [OF PTX_lt that])
  have dir: "?m a = mem s a" if "a \<in> page pgdir" for a
    using other page_disjoint [OF al(2,1) t(2) [symmetric] that] by blast
  have fr: "?m a = mem s a" if "x \<in> set xs" "a \<in> page x" for x a
  proof -
    have "x \<noteq> t" "aligned x" using vm_okD(3) [OF ok t(1)] free_aligned [OF vm_okD(1) [OF ok]] that by auto
    then show ?thesis using other page_disjoint [OF _ al(1) _ that(2)] by blast
  qed
  show "vm_ok free sole (st (t + 4 * PTX va) v s) xs pgdir"
    unfolding st_def by (rule vm_ok_frame [OF ok dir fr])
  show "pt_pages (mem (st (t + 4 * PTX va) v s)) pgdir = pt_pages (mem s) pgdir"
    using pt_pages_frame [OF dir] by (simp add: st_def)
  show "a \<notin> page t \<Longrightarrow> mem (st (t + 4 * PTX va) v s) a = mem s a" using other by (simp add: st_def)
  show "pte_view (mem (st (t + 4 * PTX va) v s)) pgdir va' =
      (if PGROUNDDOWN va' = PGROUNDDOWN va then v else pte_view (mem s) pgdir va')"
  proof (cases "present (mem s) pgdir (PDX va')")
    case True
    have "aligned (tab (mem s) pgdir (PDX va'))"
      using vm_ok_aligned [OF ok] pt_pages_simps(2) [OF _ True] by simp
    moreover have "tab (mem s) pgdir (PDX va') = t \<longleftrightarrow> PDX va' = PDX va"
      using vm_okD(5) [OF ok PDX_lt True PDX_lt pr] by (simp add: t_def)
    ultimately show ?thesis
      using True al(1) pt_frame [OF dir PDX_lt] same_slot [of va' va]
      by (auto simp: pte_view_def st_def rd32_slot)
  next
    case False
    then have "PGROUNDDOWN va' \<noteq> PGROUNDDOWN va" using pr same_slot [of va' va] by auto
    with False show ?thesis using pt_frame(1) [OF dir PDX_lt] by (simp add: pte_view_def st_def)
  qed
qed

lemma walk_new_table:
  assumes ok: "vm_ok free sole s (x # ys) pgdir" and np: "\<not> present (mem s) pgdir (PDX va)"
  shows "\<exists>s'. walkpgdir ka pgdir va True s = Ok (x + 4 * PTX va, s') \<and> vm_ok free sole s' ys pgdir
     \<and> present (mem s') pgdir (PDX va) \<and> tab (mem s') pgdir (PDX va) = x
     \<and> (\<forall>va'. pte_view (mem s') pgdir va' = pte_view (mem s) pgdir va')
     \<and> pt_pages (mem s') pgdir = insert x (pt_pages (mem s) pgdir)
     \<and> (\<forall>a. a \<notin> page x \<longrightarrow> a \<notin> page pgdir \<longrightarrow> mem s' a = mem s a)
     \<and> (\<forall>v. v \<noteq> x \<longrightarrow> sole s' v = sole s v)
     \<and> (\<forall>i < 1024. present (mem s') pgdir i = (i = PDX va \<or> present (mem s) pgdir i))"
proof -
  have fr: "free s (x # ys)" using vm_okD(1) [OF ok] .
  obtain s1 where s1: "ka s = Ok (x, s1)" "free s1 ys" "mem s1 = mem s" "sole s1 x"
    "\<And>v. v \<noteq> x \<Longrightarrow> sole s1 v = sole s v" using alloc_some [OF fr] by blast
  have x: "aligned x" "KERNBASE \<le> x" "x \<notin> set ys" using free_page [OF fr, of x] free_distinct [OF fr] by auto
  have own: "p \<noteq> x" "p \<notin> set ys" "aligned p" if "p \<in> pt_pages (mem s) pgdir" for p
    using vm_okD(3) [OF ok that] vm_ok_aligned [OF ok that] by auto
  note pg = own [OF pt_pages_simps(1)]
  define e where "e = V2P x OR PTE_P OR PTE_W OR PTE_U"
  define m where "m = wr32 (pgdir + 4 * PDX va) e (memset x 0 PGSIZE (mem s))"
  let ?s = "s1\<lparr>mem := m\<rparr>"
  have w: "walkpgdir ka pgdir va True s = Ok (x + 4 * PTX va, ?s)"
    using np s1 page_nonzero [OF x(2)] by (simp add: walkpgdir_def ld_def present_def st_def m_def e_def Let_def)
  have m_other: "m a = mem s a" if "a \<notin> page x" "a \<notin> page pgdir" for a
    using wr32_slot_page [OF PDX_lt that(2)] that(1) by (simp add: m_def memset_apply page_def)
  have zero: "rd32 m (x + 4 * i) = 0" if "i < 1024" for i
  proof -
    have "rd32 m (x + 4 * i) = rd32 (\<lambda>_. 0) (x + 4 * i)"
    proof (rule rd32_slot_frame [OF that])
      fix a assume "a \<in> page x"
      then have "a \<notin> page pgdir" using page_disjoint [OF x(1) pg(3)] pg(1) by auto
      then show "m a = 0" using \<open>a \<in> page x\<close> wr32_slot_page [OF PDX_lt] by (simp add: m_def memset_apply page_def)
    qed
    then show ?thesis by (simp add: rd32_def)
  qed
  have pde: "rd32 m (pgdir + 4 * i) = (if i = PDX va then e else rd32 (mem s) (pgdir + 4 * i))" if "i < 1024" for i
  proof -
    have "rd32 (memset x 0 PGSIZE (mem s)) (pgdir + 4 * i) = rd32 (mem s) (pgdir + 4 * i)"
    proof (rule rd32_slot_frame [OF that])
      fix a assume "a \<in> page pgdir"
      then have "a \<notin> page x" using page_disjoint [OF pg(3) x(1) pg(1)] by blast
      then show "memset x 0 PGSIZE (mem s) a = mem s a" by (simp add: memset_apply page_def)
    qed
    then show ?thesis using rd32_slot [OF pg(3) pg(3) that PDX_lt] by (auto simp: m_def)
  qed
  have pt: "present m pgdir i = (i = PDX va \<or> present (mem s) pgdir i)"
    "tab m pgdir i = (if i = PDX va then x else tab (mem s) pgdir i)" if "i < 1024" for i
    using pde [OF that] new_pde [OF x(1,2)] by (auto simp: present_def tab_def e_def)
  have pages: "pt_pages m pgdir = insert x (pt_pages (mem s) pgdir)"
  proof -
    have "{tab m pgdir i |i. i < 1024 \<and> present m pgdir i}
        = insert x {tab (mem s) pgdir i |i. i < 1024 \<and> present (mem s) pgdir i}"
      by (rule image_insert_one [of _ "PDX va"]) (use pt np PDX_lt [of va] in auto)
    then show ?thesis by (simp add: pt_pages_def insert_commute)
  qed
  have "free ?s ys"
    using s1(2,3) m_other x free_aligned [OF s1(2)] pg page_disjoint by (intro free_frame) (metis)+
  moreover have "sole ?s p \<and> p \<notin> set ys" if "p \<in> pt_pages m pgdir" for p
    using that pages s1(4) s1(5) [of p] x(3) own [of p] vm_okD(2) [OF ok] by (auto simp: sole_frame)
  moreover have "tab m pgdir i \<noteq> pgdir \<and> (\<forall>j < 1024. present m pgdir j \<longrightarrow> tab m pgdir i = tab m pgdir j \<longrightarrow> i = j)"
    if "i < 1024" "present m pgdir i" for i
    using that pt pg(1) vm_okD(4,5) [OF ok] own(1) pt_pages_simps(2) by (auto split: if_splits) metis+
  ultimately have vm: "vm_ok free sole ?s ys pgdir" unfolding vm_ok_def by simp
  have view: "pte_view m pgdir va' = pte_view (mem s) pgdir va'" for va'
  proof (cases "PDX va' = PDX va")
    case True
    then show ?thesis using pt [OF PDX_lt] zero np by (simp add: pte_view_def)
  next
    case False
    have "rd32 m (tab (mem s) pgdir (PDX va') + 4 * PTX va') = rd32 (mem s) (tab (mem s) pgdir (PDX va') + 4 * PTX va')"
      if pr: "present (mem s) pgdir (PDX va')"
    proof (rule rd32_slot_frame [OF PTX_lt])
      fix a assume a: "a \<in> page (tab (mem s) pgdir (PDX va'))"
      note o = own [OF pt_pages_simps(2) [OF PDX_lt pr]]
      show "m a = mem s a"
        using m_other page_disjoint [OF o(3) x(1) o(1) a] page_disjoint [OF o(3) pg(3) vm_okD(4) [OF ok PDX_lt pr] a] by blast
    qed
    then show ?thesis using pt [of "PDX va'"] False by (simp add: pte_view_def)
  qed
  show ?thesis using w vm pt(1,2) [OF PDX_lt] pt(1) view pages m_other s1(5) by (auto simp: sole_frame)
qed

text \<open>
  What building up one address space may do: use up a prefix of the free list as page
  tables and write to page-table pages, nothing else.
\<close>

lemma vm_step_refl: "vm_ok free sole s xs pgdir \<Longrightarrow> vm_step free sole pgdir s xs s xs"
  by (simp add: vm_step_def)

lemma vm_step_trans:
  "vm_step free sole pgdir s xs s' ys \<Longrightarrow> vm_step free sole pgdir s' ys s'' zs \<Longrightarrow> vm_step free sole pgdir s xs s'' zs"
  unfolding vm_step_def by (fastforce simp: Un_assoc)

lemma pt_page_no_null: "aligned p \<Longrightarrow> KERNBASE \<le> p \<Longrightarrow> i < 1024 \<Longrightarrow> p + 4 * i \<noteq> 0"
  using slot_in_page0 [of i p] page_round [of p 0] page_nonzero [of p] by (auto simp: PGROUNDDOWN_def)

lemma walk_alloc:
  assumes ok: "vm_ok free sole s xs pgdir"
  shows "(\<exists>s' ys. walkpgdir ka pgdir va True s = Ok (tab (mem s') pgdir (PDX va) + 4 * PTX va, s')
       \<and> tab (mem s') pgdir (PDX va) + 4 * PTX va \<noteq> 0
       \<and> present (mem s') pgdir (PDX va) \<and> vm_step free sole pgdir s xs s' ys
       \<and> (\<forall>va'. pte_view (mem s') pgdir va' = pte_view (mem s) pgdir va'))
     \<or> walkpgdir ka pgdir va True s = Ok (0, s) \<and> xs = []"
proof (cases "present (mem s) pgdir (PDX va)")
  case True
  have "aligned (tab (mem s) pgdir (PDX va)) \<and> KERNBASE \<le> tab (mem s) pgdir (PDX va)"
    using vm_ok_aligned [OF ok pt_pages_simps(2) [OF PDX_lt True]] by blast
  then show ?thesis
    using True walk_present [OF True, of ka True] vm_step_refl [OF ok] pt_page_no_null [OF _ _ PTX_lt] by blast
next
  case False
  show ?thesis
  proof (cases xs)
    case Nil
    then show ?thesis
      using False alloc_none [of s] vm_okD(1) [OF ok] by (simp add: walkpgdir_def ld_def present_def)
  next
    case (Cons x ys)
    obtain s' where s': "walkpgdir ka pgdir va True s = Ok (x + 4 * PTX va, s')" "vm_ok free sole s' ys pgdir"
      "present (mem s') pgdir (PDX va)" "tab (mem s') pgdir (PDX va) = x"
      "\<forall>va'. pte_view (mem s') pgdir va' = pte_view (mem s) pgdir va'"
      "pt_pages (mem s') pgdir = insert x (pt_pages (mem s) pgdir)"
      "\<forall>a. a \<notin> page x \<longrightarrow> a \<notin> page pgdir \<longrightarrow> mem s' a = mem s a" "\<forall>v. v \<noteq> x \<longrightarrow> sole s' v = sole s v"
      using walk_new_table [OF ok [unfolded Cons] False] by blast
    have x: "aligned x" "KERNBASE \<le> x" using free_page [OF vm_okD(1) [OF ok], of x] Cons by auto
    have "vm_step free sole pgdir s xs s' ys"
      unfolding vm_step_def using s'(2,6-8) Cons pt_pages_simps(1) by (auto intro: exI [of _ "[x]"])
    then show ?thesis using s'(1,3-5) pt_page_no_null [OF x PTX_lt] by auto
  qed
qed

text \<open>One round of \<open>mappages\<close>.\<close>

lemma map_page:
  assumes ok: "vm_ok free sole s xs pgdir" and a: "aligned a" and clear: "pte_view (mem s) pgdir a AND PTE_P = 0"
  shows "(\<exists>s' ys pte. walkpgdir ka pgdir a True s = Ok (pte, s') \<and> pte \<noteq> 0 \<and> ld pte s' AND PTE_P = 0
       \<and> vm_step free sole pgdir s xs (st pte v s') ys
       \<and> (\<forall>va. pte_view (mem (st pte v s')) pgdir va = (if PGROUNDDOWN va = a then v else pte_view (mem s) pgdir va)))
     \<or> walkpgdir ka pgdir a True s = Ok (0, s) \<and> xs = []"
  using walk_alloc [OF ok, of a]
proof (elim disjE exE conjE)
  fix s' :: "'z kmem_st_scheme" and ys
  let ?p = "tab (mem s') pgdir (PDX a) + 4 * PTX a"
  assume w: "walkpgdir ka pgdir a True s = Ok (?p, s')" "?p \<noteq> 0" "present (mem s') pgdir (PDX a)"
    "vm_step free sole pgdir s xs s' ys" "\<forall>va'. pte_view (mem s') pgdir va' = pte_view (mem s) pgdir va'"
  note ok' = vm_step_ok [OF w(4)]
  have "ld ?p s' = pte_view (mem s') pgdir a" using w(3) by (simp add: ld_def pte_view_def)
  then have "ld ?p s' AND PTE_P = 0" using clear w(5) by simp
  moreover have "vm_step free sole pgdir s' ys (st ?p v s') ys"
    using store_entry [OF ok' w(3)] pt_pages_simps(2) [OF PDX_lt w(3)] sole_frame
    by (auto simp: vm_step_def st_def)
  then have "vm_step free sole pgdir s xs (st ?p v s') ys" by (rule vm_step_trans [OF w(4)])
  ultimately show ?thesis
    using w store_entry(2) [OF ok' w(3), of v] a by (intro disjI1 exI [of _ s'] exI [of _ ys] exI [of _ ?p]) simp
qed auto

lemma mappages_loop_ok:
  "vm_ok free sole s xs pgdir \<Longrightarrow> aligned a \<Longrightarrow> n < 2 ^ 20 \<Longrightarrow> n < k \<Longrightarrow> lst = a + of_nat n * PGSIZE \<Longrightarrow>
   (\<And>va. unat (PGROUNDDOWN va - a) < 4096 * Suc n \<Longrightarrow> pte_view (mem s) pgdir va AND PTE_P = 0) \<Longrightarrow>
   \<exists>r s' ys j. mappages_loop k ka pgdir a lst pa pm s = Ok (r, s') \<and> vm_step free sole pgdir s xs s' ys
     \<and> pte_view (mem s') pgdir = mapped j a pa pm (pte_view (mem s) pgdir)
     \<and> (r = 0 \<and> j = Suc n \<or> r = -1 \<and> j \<le> n \<and> ys = [])"
proof (induction k arbitrary: s xs a pa n)
  case (Suc k)
  have clear: "pte_view (mem s) pgdir a AND PTE_P = 0" using Suc.prems(2,6) by simp
  from map_page [OF Suc.prems(1,2) clear, of "pa OR pm OR PTE_P"] show ?case
  proof (elim disjE exE conjE)
    assume w: "walkpgdir ka pgdir a True s = Ok (0, s)" "xs = []"
    then have "mappages_loop (Suc k) ka pgdir a lst pa pm s = Ok (-1, s)" by simp
    then show ?thesis
      using vm_step_refl [OF Suc.prems(1)] w(2)
      by (intro exI [of _ "-1"] exI [of _ s] exI [of _ "[]"] exI [of _ "0 :: nat"]) simp
  next
    fix s1 ys pte
    assume w: "walkpgdir ka pgdir a True s = Ok (pte, s1)" "pte \<noteq> 0" "ld pte s1 AND PTE_P = 0"
    define t where "t = st pte (pa OR pm OR PTE_P) s1"
    assume "vm_step free sole pgdir s xs (st pte (pa OR pm OR PTE_P) s1) ys"
      and "\<forall>va. pte_view (mem (st pte (pa OR pm OR PTE_P) s1)) pgdir va =
        (if PGROUNDDOWN va = a then pa OR pm OR PTE_P else pte_view (mem s) pgdir va)"
    then have step: "vm_step free sole pgdir s xs t ys"
      and view: "\<And>va. pte_view (mem t) pgdir va = (if PGROUNDDOWN va = a then pa OR pm OR PTE_P else pte_view (mem s) pgdir va)"
      by (simp_all add: t_def)
    have loop: "mappages_loop (Suc k) ka pgdir a lst pa pm s =
        (if a = lst then Ok (0, t) else mappages_loop k ka pgdir (a + PGSIZE) lst (pa + PGSIZE) pm t)"
      using w by (simp add: t_def Let_def)
    show ?thesis
    proof (cases n)
      case 0
      have "pte_view (mem t) pgdir = mapped (Suc 0) a pa pm (pte_view (mem s) pgdir)"
        using mapped_Suc [OF Suc.prems(2) _ view, of 0] by (intro ext) simp
      then show ?thesis using loop step 0 Suc.prems(5) by auto
    next
      case (Suc n')
      have ne: "a \<noteq> lst"
      proof
        assume "a = lst"
        then have "(of_nat n * PGSIZE :: u32) = 0" using Suc.prems(5) by simp
        moreover have "unat (of_nat n * PGSIZE :: u32) = n * 4096"
          using Suc.prems(3) by (simp add: unat_word_ariths unat_of_nat mod_simps)
        ultimately show False using Suc by simp
      qed
      have "\<exists>r s' zs j. mappages_loop k ka pgdir (a + PGSIZE) lst (pa + PGSIZE) pm t = Ok (r, s')
          \<and> vm_step free sole pgdir t ys s' zs
          \<and> pte_view (mem s') pgdir = mapped j (a + PGSIZE) (pa + PGSIZE) pm (pte_view (mem t) pgdir)
          \<and> (r = 0 \<and> j = Suc n' \<or> r = -1 \<and> j \<le> n' \<and> zs = [])"
      proof (rule Suc.IH [OF vm_step_ok [OF step] aligned_add_page [OF Suc.prems(2)]])
        show "n' < 2 ^ 20" "n' < k" using Suc.prems(3,4) Suc by auto
        show "lst = a + PGSIZE + of_nat n' * PGSIZE" using Suc.prems(5) Suc by (simp add: algebra_simps)
        fix va assume va: "unat (PGROUNDDOWN va - (a + PGSIZE)) < 4096 * Suc n'"
        show "pte_view (mem t) pgdir va AND PTE_P = 0"
          using va page_off_next [OF Suc.prems(2), of "Suc n'" va] Suc.prems(3,6) view [of va] Suc
          by (auto simp del: mult_Suc_right)
      qed
      then obtain r s' zs j where IH: "mappages_loop k ka pgdir (a + PGSIZE) lst (pa + PGSIZE) pm t = Ok (r, s')"
        "vm_step free sole pgdir t ys s' zs"
        "pte_view (mem s') pgdir = mapped j (a + PGSIZE) (pa + PGSIZE) pm (pte_view (mem t) pgdir)"
        "r = 0 \<and> j = Suc n' \<or> r = -1 \<and> j \<le> n' \<and> zs = []" by blast
      have "j < 2 ^ 20" using IH(4) Suc.prems(3) Suc by auto
      then have "pte_view (mem s') pgdir = mapped (Suc j) a pa pm (pte_view (mem s) pgdir)"
        unfolding IH(3) using mapped_Suc [OF Suc.prems(2) _ view] by (intro ext) simp
      then show ?thesis
        using loop ne IH(1,4) vm_step_trans [OF step IH(2)] Suc by (intro exI [of _ r] exI [of _ s'] exI [of _ zs] exI [of _ "Suc j"]) auto
    qed
  qed
qed simp

lemma mappages_ok:
  assumes "vm_ok free sole s xs pgdir" and "0 < sz" and "unat va + unat sz \<le> 2 ^ 32"
    and "\<And>va'. unat (PGROUNDDOWN va' - PGROUNDDOWN va) < 4096 * npages va sz \<Longrightarrow> pte_view (mem s) pgdir va' AND PTE_P = 0"
  shows "\<exists>r s' ys j. mappages ka pgdir va sz pa pm s = Ok (r, s') \<and> vm_step free sole pgdir s xs s' ys
     \<and> pte_view (mem s') pgdir = mapped j (PGROUNDDOWN va) pa pm (pte_view (mem s) pgdir)
     \<and> (r = 0 \<and> j = npages va sz \<or> r = -1 \<and> j < npages va sz \<and> ys = [])"
  using mappages_loop_ok [OF assms(1) aligned_PGROUNDDOWN(1) npages_lt _ npages_last [OF assms(2,3)],
      of "2 ^ 20" pa pm] assms(4) npages_lt [of va sz]
  by (simp add: mappages_def npages_def less_Suc_eq_le)

text \<open>Mapping one page succeeds whenever a page is free, or the table is already there.\<close>

lemma mappages_one:
  assumes ok: "vm_ok free sole s xs pgdir" and a: "aligned a" and clear: "pte_view (mem s) pgdir a AND PTE_P = 0"
    and room: "xs \<noteq> [] \<or> present (mem s) pgdir (PDX a)"
  shows "\<exists>s' ys. mappages ka pgdir a PGSIZE pa pm s = Ok (0, s') \<and> vm_step free sole pgdir s xs s' ys
     \<and> (\<forall>va. pte_view (mem s') pgdir va = (if PGROUNDDOWN va = a then pa OR pm OR PTE_P else pte_view (mem s) pgdir va))"
proof -
  have l: "PGROUNDDOWN (a + PGSIZE - 1) = a"
    using page_round [OF a, of "a + PGSIZE - 1"] by (simp add: page_def)
  have "\<not> (walkpgdir ka pgdir a True s = Ok (0, s) \<and> xs = [])"
  proof
    assume w: "walkpgdir ka pgdir a True s = Ok (0, s) \<and> xs = []"
    then have pr: "present (mem s) pgdir (PDX a)" using room by simp
    have "aligned (tab (mem s) pgdir (PDX a)) \<and> KERNBASE \<le> tab (mem s) pgdir (PDX a)"
      using vm_ok_aligned [OF ok pt_pages_simps(2) [OF PDX_lt pr]] by blast
    then show False using walk_present [OF pr, of ka True] w pt_page_no_null [OF _ _ PTX_lt] by auto
  qed
  with map_page [OF ok a clear, of "pa OR pm OR PTE_P"] obtain s' ys pte where
    w: "walkpgdir ka pgdir a True s = Ok (pte, s')" "pte \<noteq> 0" "ld pte s' AND PTE_P = 0"
      "vm_step free sole pgdir s xs (st pte (pa OR pm OR PTE_P) s') ys"
      "\<forall>va. pte_view (mem (st pte (pa OR pm OR PTE_P) s')) pgdir va = (if PGROUNDDOWN va = a then pa OR pm OR PTE_P else pte_view (mem s) pgdir va)"
    by blast
  obtain k where k: "(2 ^ 20 :: nat) = Suc k" by (metis not0_implies_Suc power_not_zero zero_neq_numeral)
  have "mappages ka pgdir a PGSIZE pa pm s = Ok (0, st pte (pa OR pm OR PTE_P) s')"
    unfolding mappages_def l k using a w(1-3) by (simp add: Let_def)
  then show ?thesis using w(4,5) by blast
qed

end

section \<open>Properties\<close>

text \<open>
  C12. \<open>mappages\<close> maps exactly the pages of \<open>[va, va + size)\<close>: every address of the range gets the
  entry for its physical page, every other address keeps its entry, the loop always ends, and
  \<open>-1\<close> is returned only when no page is left for a page table, with a prefix of the range
  mapped. Memory outside the page-table pages is not touched and the address space and the
  allocator stay well-formed.
\<close>

theorem mappages_maps_range:
  assumes "vm_ok kmem_inv good_page s xs pgdir" and "0 < sz" and "unat va + unat sz \<le> 2 ^ 32"
    and "\<And>va'. unat (PGROUNDDOWN va' - PGROUNDDOWN va) < 4096 * npages va sz \<Longrightarrow> pte_view (mem s) pgdir va' AND PTE_P = 0"
  shows "\<exists>r s' ys j. mappages kalloc pgdir va sz pa pm s = Ok (r, s') \<and> vm_step kmem_inv good_page pgdir s xs s' ys
     \<and> pte_view (mem s') pgdir = mapped j (PGROUNDDOWN va) pa pm (pte_view (mem s) pgdir)
     \<and> (r = 0 \<and> j = npages va sz \<or> r = -1 \<and> j < npages va sz \<and> ys = [])"
  by (rule base.mappages_ok [OF assms])

definition vm0 :: kmem_st where
  "vm0 = kmem0\<lparr>freelist := 0x80300000\<rparr>"

lemma vm0_simps [simp]: "mem vm0 = (\<lambda>_. 0)" "kmem_inv vm0 [0x80300000]" "good_page vm0 0x80200000"
  by (simp_all add: vm0_def kmem0_def kmem_inv_def kmem_ready_def good_page_def bad_page_def V2P_def
      rd32_def kst.defs kmem_st.defs)

lemma empty_memory: "\<not> present (\<lambda>_. 0) pgdir i" "pte_view (\<lambda>_. 0) pgdir va = 0" "pt_pages (\<lambda>_. 0) pgdir = {pgdir}"
  by (simp_all add: present_def pte_view_def pt_pages_def rd32_def)

lemma vm0_ok: "vm_ok kmem_inv good_page vm0 [0x80300000] 0x80200000"
  by (simp add: vm_ok_def empty_memory)

theorem mappages_maps_range_witness:
  "vm_ok kmem_inv good_page vm0 [0x80300000] 0x80200000 \<and>
   (\<exists>r s' ys j. mappages kalloc 0x80200000 0x1234 0x3000 0x5000 2 vm0 = Ok (r, s')
     \<and> pte_view (mem s') 0x80200000 = mapped j (PGROUNDDOWN 0x1234) 0x5000 2 (\<lambda>_. 0))"
proof -
  have "pte_view (\<lambda>_. 0) (0x80200000) = (\<lambda>_. 0)" by (intro ext) (rule empty_memory)
  then show ?thesis
    using mappages_maps_range [OF vm0_ok, of "0x3000" "0x1234" "0x5000" 2] vm0_ok by (simp add: empty_memory) blast
qed

end
