(* ===== verification/Ptable.thy ===== *)
theory Ptable
  imports Vm
begin

text \<open>
  The process table and the scheduler: \<open>xv6-public-master/proc.c\<close> without the functions that
  need the file system (\<open>fork\<close>, \<open>exit\<close>, \<open>spawn\<close> are in \<open>Process\<close>).

  A \<open>struct proc*\<close> is an index into the table. \<open>swtch\<close> hands the CPU to another kernel
  thread, so a function that calls \<open>sched\<close> is split there: the part before it is a function
  of its own, and the sequential path of the caller ends in \<open>Block\<close>. A channel is the
  address of the object slept on, named after it. \<open>nextpid\<close> is a C \<open>int\<close>, a 32-bit word that
  wraps around, and a \<open>pid\<close> its value. \<open>trapret\<close> and \<open>forkret\<close> are code addresses.
\<close>

section \<open>State\<close>

datatype procstate = UNUSED | EMBRYO | SLEEPING | RUNNABLE | RUNNING | ZOMBIE

datatype chan =
  Proc_chan nat | Ticks_chan | Buf_chan nat | Buf_io_chan nat | Log_chan | Inode_chan nat | Pipe_read nat | Pipe_write nat
  | Input_chan

record proc =
  psz :: u32
  pgdir :: u32
  kstack :: u32
  pstate :: procstate
  pid :: int
  parent :: "nat option"
  tf :: u32
  pcontext :: u32
  chan :: "chan option"
  killed :: bool
  ofile :: "nat option list"
  cwd :: "nat option"
  pname :: string

record ptable_st = kmem_st +
  procs :: "proc list"
  initproc :: "nat option"
  nextpid :: u32
  cr3 :: u32
  ts_esp0 :: u32
  kpgdir :: u32
  trapret :: u32
  forkret_ip :: u32

abbreviation KSTACKSIZE :: u32 where "KSTACKSIZE \<equiv> 4096"
abbreviation NPROC :: nat where "NPROC \<equiv> 64"
abbreviation tf_size :: u32 where "tf_size \<equiv> 76"
abbreviation context_size :: u32 where "context_size \<equiv> 20"
abbreviation tf_eax :: u32 where "tf_eax \<equiv> 28"
abbreviation tf_eip :: u32 where "tf_eip \<equiv> 56"
abbreviation tf_esp :: u32 where "tf_esp \<equiv> 68"

definition upd_proc :: "nat \<Rightarrow> (proc \<Rightarrow> proc) \<Rightarrow> 'z ptable_st_scheme \<Rightarrow> 'z ptable_st_scheme" where
  "upd_proc i f s = s\<lparr>procs := (procs s)[i := f (procs s ! i)]\<rparr>"

text \<open>\<open>myproc()\<close> followed by a dereference of the result.\<close>

definition curproc :: "'z ptable_st_scheme \<Rightarrow> nat res" where
  "curproc s = bnd (myproc s) (\<lambda>(p, _). case p of None \<Rightarrow> Panic ''null pointer'' | Some i \<Rightarrow> Ok i)"

section \<open>Operations\<close>

definition pinit :: "'z ptable_st_scheme \<Rightarrow> 'z ptable_st_scheme" where
  "pinit s = initlock Ptable_lock ''ptable'' s"

definition alloc_slot :: "'z ptable_st_scheme \<Rightarrow> (nat option \<times> 'z ptable_st_scheme) res" where
  "alloc_slot s =
     (case find_idx (\<lambda>p. pstate p = UNUSED) (procs s) of
        None \<Rightarrow> Ok (None, s)
      | Some i \<Rightarrow>
          let s = upd_proc i (\<lambda>p. p\<lparr>pstate := EMBRYO\<rparr>) s;
              s = upd_proc i (\<lambda>p. p\<lparr>pid := sint (nextpid s)\<rparr>) s;
              s = s\<lparr>nextpid := nextpid s + 1\<rparr>
          in Ok (Some i, s))"

definition allocproc :: "'z ptable_st_scheme \<Rightarrow> (nat option \<times> 'z ptable_st_scheme) res" where
  "allocproc s =
     bnd (with_lock Ptable_lock alloc_slot s) (\<lambda>(r, s).
       case r of None \<Rightarrow> Ok (None, s)
       | Some i \<Rightarrow>
           bnd (kalloc s) (\<lambda>(k, s).
             let s = upd_proc i (\<lambda>p. p\<lparr>kstack := k\<rparr>) s in
             if k = 0 then Ok (None, upd_proc i (\<lambda>p. p\<lparr>pstate := UNUSED\<rparr>) s)
             else
               let sp = k + KSTACKSIZE;
                   sp = sp - tf_size;
                   s = upd_proc i (\<lambda>p. p\<lparr>tf := sp\<rparr>) s;
                   sp = sp - 4;
                   s = st sp (trapret s) s;
                   sp = sp - context_size;
                   s = upd_proc i (\<lambda>p. p\<lparr>pcontext := sp\<rparr>) s;
                   s = s\<lparr>mem := memset sp 0 context_size (mem s)\<rparr>;
                   s = st (sp + 16) (forkret_ip s) s
               in Ok (Some i, s)))"

definition switchkvm :: "'z ptable_st_scheme \<Rightarrow> 'z ptable_st_scheme" where
  "switchkvm s = s\<lparr>cr3 := V2P (kpgdir s)\<rparr>"

definition kvmalloc :: "'z ptable_st_scheme \<Rightarrow> 'z ptable_st_scheme res" where
  "kvmalloc s = bnd (setupkvm kalloc kfree s) (\<lambda>(d, s). Ok (switchkvm (s\<lparr>kpgdir := d\<rparr>)))"

definition switchuvm :: "nat option \<Rightarrow> 'z ptable_st_scheme \<Rightarrow> 'z ptable_st_scheme res" where
  "switchuvm po s =
     (case po of None \<Rightarrow> Panic ''switchuvm: no process''
      | Some i \<Rightarrow>
          if kstack (procs s ! i) = 0 then Panic ''switchuvm: no kstack''
          else if pgdir (procs s ! i) = 0 then Panic ''switchuvm: no pgdir''
          else bnd (pushcli s) (\<lambda>s.
               bnd (mycpu s) (\<lambda>_.
                 let s = s\<lparr>ts_esp0 := kstack (procs s ! i) + KSTACKSIZE\<rparr>;
                     s = s\<lparr>cr3 := V2P (pgdir (procs s ! i))\<rparr>
                 in popcli s)))"

definition growproc :: "int \<Rightarrow> 'z ptable_st_scheme \<Rightarrow> (int \<times> 'z ptable_st_scheme) res" where
  "growproc n s =
     bnd (curproc s) (\<lambda>i.
       let sz = psz (procs s ! i); pd = pgdir (procs s ! i);
           grown = (\<lambda>(sz, s). let s = upd_proc i (\<lambda>p. p\<lparr>psz := sz\<rparr>) s in
                      bnd (switchuvm (Some i) s) (\<lambda>s. Ok (0, s)))
       in if n > 0 then
            bnd (allocuvm kalloc kfree pd sz (sz + word_of_int n) s) (\<lambda>(sz, s).
              if sz = 0 then Ok (-1, s) else grown (sz, s))
          else if n < 0 then
            bnd (deallocuvm kalloc kfree pd sz (sz + word_of_int n) s) (\<lambda>(sz, s).
              if sz = 0 then Ok (-1, s) else grown (sz, s))
          else grown (sz, s))"

text \<open>\<open>sched\<close> up to \<open>swtch\<close>: the checks, and the saved interrupt flag.\<close>

definition sched :: "'z ptable_st_scheme \<Rightarrow> (bool \<times> 'z ptable_st_scheme) res" where
  "sched s =
     bnd (curproc s) (\<lambda>i.
     bnd (holding Ptable_lock s) (\<lambda>(h, s).
       if \<not> h then Panic ''sched ptable.lock''
       else bnd (mycpu s) (\<lambda>c.
         if ncli s c \<noteq> 1 then Panic ''sched locks''
         else if pstate (procs s ! i) = RUNNING then Panic ''sched running''
         else if ifl s then Panic ''sched interruptible''
         else Ok (intena s c, s))))"

definition yield_off :: "'z ptable_st_scheme \<Rightarrow> (bool \<times> 'z ptable_st_scheme) res" where
  "yield_off s =
     bnd (acquire Ptable_lock s) (\<lambda>s.
     bnd (curproc s) (\<lambda>i. sched (upd_proc i (\<lambda>p. p\<lparr>pstate := RUNNABLE\<rparr>) s)))"

definition yield_back :: "bool \<Rightarrow> 'z ptable_st_scheme \<Rightarrow> 'z ptable_st_scheme res" where
  "yield_back en s = bnd (mycpu s) (\<lambda>c. release Ptable_lock (s\<lparr>intena := (intena s)(c := en)\<rparr>))"

text \<open>\<open>sleep\<close> up to \<open>swtch\<close>, and from there on when the thread is scheduled again.\<close>

definition sleep_off :: "chan \<Rightarrow> lockid option \<Rightarrow> 'z ptable_st_scheme \<Rightarrow> (bool \<times> 'z ptable_st_scheme) res" where
  "sleep_off ch lk s =
     bnd (myproc s) (\<lambda>(p, s).
       case p of None \<Rightarrow> Panic ''sleep''
       | Some i \<Rightarrow>
         (case lk of None \<Rightarrow> Panic ''sleep without lk''
          | Some l \<Rightarrow>
            bnd (if l \<noteq> Ptable_lock then bnd (acquire Ptable_lock s) (release l) else Ok s) (\<lambda>s.
              let s = upd_proc i (\<lambda>p. p\<lparr>chan := Some ch\<rparr>) s;
                  s = upd_proc i (\<lambda>p. p\<lparr>pstate := SLEEPING\<rparr>) s
              in sched s)))"

definition sleep_back :: "bool \<Rightarrow> lockid \<Rightarrow> 'z ptable_st_scheme \<Rightarrow> 'z ptable_st_scheme res" where
  "sleep_back en l s =
     bnd (mycpu s) (\<lambda>c.
       let s = s\<lparr>intena := (intena s)(c := en)\<rparr> in
       bnd (curproc s) (\<lambda>i.
         let s = upd_proc i (\<lambda>p. p\<lparr>chan := None\<rparr>) s in
         if l \<noteq> Ptable_lock then bnd (release Ptable_lock s) (acquire l) else Ok s))"

definition sleep :: "chan \<Rightarrow> lockid \<Rightarrow> 'z ptable_st_scheme \<Rightarrow> 'r res" where
  "sleep ch l s = bnd (sleep_off ch (Some l) s) (\<lambda>_. Block)"

definition wakeup1 :: "chan \<Rightarrow> 'z ptable_st_scheme \<Rightarrow> 'z ptable_st_scheme" where
  "wakeup1 ch s = s\<lparr>procs := map (\<lambda>p. if pstate p = SLEEPING \<and> chan p = Some ch then p\<lparr>pstate := RUNNABLE\<rparr> else p) (procs s)\<rparr>"

definition wakeup :: "chan \<Rightarrow> 'z ptable_st_scheme \<Rightarrow> 'z ptable_st_scheme res" where
  "wakeup ch s = bnd (with_lock Ptable_lock (\<lambda>s. Ok ((), wakeup1 ch s)) s) (\<lambda>(_, s). Ok s)"

definition kill :: "int \<Rightarrow> 'z ptable_st_scheme \<Rightarrow> (int \<times> 'z ptable_st_scheme) res" where
  "kill q s =
     with_lock Ptable_lock (\<lambda>s.
       case find_idx (\<lambda>p. pid p = q) (procs s) of
         None \<Rightarrow> Ok (-1, s)
       | Some i \<Rightarrow>
           let s = upd_proc i (\<lambda>p. p\<lparr>killed := True\<rparr>) s;
               s = (if pstate (procs s ! i) = SLEEPING then upd_proc i (\<lambda>p. p\<lparr>pstate := RUNNABLE\<rparr>) s else s)
           in Ok (0, s)) s"

definition wait :: "'z ptable_st_scheme \<Rightarrow> (int \<times> 'z ptable_st_scheme) res" where
  "wait s =
     bnd (curproc s) (\<lambda>c.
     bnd (acquire Ptable_lock s) (\<lambda>s.
       case find_idx (\<lambda>p. parent p = Some c \<and> pstate p = ZOMBIE) (procs s) of
         Some i \<Rightarrow>
           let q = pid (procs s ! i) in
           bnd (kfree (kstack (procs s ! i)) s) (\<lambda>s.
             let s = upd_proc i (\<lambda>p. p\<lparr>kstack := 0\<rparr>) s in
             bnd (freevm kalloc kfree (pgdir (procs s ! i)) s) (\<lambda>s.
               let s = upd_proc i (\<lambda>p. p\<lparr>pid := 0, parent := None, pname := [], killed := False, pstate := UNUSED\<rparr>) s in
               bnd (release Ptable_lock s) (\<lambda>s. Ok (q, s))))
       | None \<Rightarrow>
           let havekids = (\<exists>p \<in> set (procs s). parent p = Some c) in
           if \<not> havekids \<or> killed (procs s ! c) then bnd (release Ptable_lock s) (\<lambda>s. Ok (-1, s))
           else sleep (Proc_chan c) Ptable_lock s))"

text \<open>
  One choice of the scheduler's inner loop, from table index \<open>i\<close>: the next runnable process
  is made current and \<open>RUNNING\<close>, up to \<open>swtch\<close>; \<open>None\<close> when the pass is over. After \<open>swtch\<close>
  returns, \<open>scheduler_back\<close> runs and the loop goes on at the next index.
\<close>

definition scheduler_pick :: "nat \<Rightarrow> 'z ptable_st_scheme \<Rightarrow> (nat option \<times> 'z ptable_st_scheme) res" where
  "scheduler_pick i s =
     (case find_idx (\<lambda>p. pstate p = RUNNABLE) (drop i (procs s)) of
        None \<Rightarrow> Ok (None, s)
      | Some d \<Rightarrow>
          bnd (mycpu s) (\<lambda>c.
            let p = i + d; s = s\<lparr>cproc := (cproc s)(c := Some p)\<rparr> in
            bnd (switchuvm (Some p) s) (\<lambda>s. Ok (Some p, upd_proc p (\<lambda>q. q\<lparr>pstate := RUNNING\<rparr>) s))))"

definition scheduler_back :: "'z ptable_st_scheme \<Rightarrow> 'z ptable_st_scheme res" where
  "scheduler_back s = bnd (mycpu s) (\<lambda>c. Ok ((switchkvm s)\<lparr>cproc := (cproc s)(c := None)\<rparr>))"

definition state_name :: "procstate \<Rightarrow> string" where
  "state_name q = (case q of UNUSED \<Rightarrow> ''unused'' | EMBRYO \<Rightarrow> ''embryo'' | SLEEPING \<Rightarrow> ''sleep '' | RUNNABLE \<Rightarrow> ''runble''
     | RUNNING \<Rightarrow> ''run   '' | ZOMBIE \<Rightarrow> ''zombie'')"

text \<open>The lines \<open>procdump\<close> prints: pid, state, name and, for a sleeping process, the nonzero prefix of its call stack.\<close>

definition procdump :: "'z ptable_st_scheme \<Rightarrow> (int \<times> string \<times> string \<times> u32 list) list" where
  "procdump s =
     map (\<lambda>p. (pid p, state_name (pstate p), pname p,
            if pstate p = SLEEPING
            then takeWhile (\<lambda>c. c \<noteq> 0) (getcallerpcs (rd32 (mem s)) (rd32 (mem s) (pcontext p + 12) + 8)) else []))
       (filter (\<lambda>p. pstate p \<noteq> UNUSED) (procs s))"

definition numberofprocesses :: "'z ptable_st_scheme \<Rightarrow> (int \<times> 'z ptable_st_scheme) res" where
  "numberofprocesses s =
     with_lock Ptable_lock (\<lambda>s. Ok (int (length (filter (\<lambda>p. pstate p = RUNNABLE) (procs s))), s)) s"

text \<open>
  \<open>whatsthestatus\<close> returns the parent's pid; the first component is the line it prints (pid,
  state, parent's pid, parent's name). An unknown pid leaves \<open>in_question\<close> uninitialised,
  and a process without a parent makes \<open>p\<close> point past the table: both are undefined behaviour.
\<close>

definition status_name :: "procstate \<Rightarrow> string" where
  "status_name q = (case q of UNUSED \<Rightarrow> ''UNUSED'' | EMBRYO \<Rightarrow> ''EMBRYO'' | SLEEPING \<Rightarrow> ''SLEEPING'' | RUNNABLE \<Rightarrow> ''RUNNABLE''
     | RUNNING \<Rightarrow> ''RUNNING'' | ZOMBIE \<Rightarrow> ''ZOMBIE'')"

definition whatsthestatus ::
  "int \<Rightarrow> 'z ptable_st_scheme \<Rightarrow> (((int \<times> string \<times> int \<times> string) \<times> int) \<times> 'z ptable_st_scheme) res" where
  "whatsthestatus q s =
     with_lock Ptable_lock (\<lambda>s.
       case find_idx (\<lambda>p. pid p = q) (procs s) of
         None \<Rightarrow> Panic ''uninitialised pointer''
       | Some i \<Rightarrow>
           (case parent (procs s ! i) of
              None \<Rightarrow> Panic ''out of bounds''
            | Some j \<Rightarrow>
                if j < length (procs s)
                then Ok (((pid (procs s ! i), status_name (pstate (procs s ! i)), pid (procs s ! j), pname (procs s ! j)),
                          pid (procs s ! j)), s)
                else Panic ''out of bounds'')) s"

definition va2pa :: "u32 \<Rightarrow> 'z ptable_st_scheme \<Rightarrow> u32 res" where
  "va2pa va s =
     bnd (curproc s) (\<lambda>i.
       let pde = pgdir (procs s ! i) + 4 * PDX va;
           pte = P2V (PTE_ADDR (ld pde s));
           pa20 = PTE_ADDR (ld (pte + 4 * PTX va) s)
       in Ok (pa20 OR (va AND 0xFFF)))"

definition getpasize :: "int \<Rightarrow> 'z ptable_st_scheme \<Rightarrow> int" where
  "getpasize q s =
     (case find_idx (\<lambda>p. pid p = q) (procs s) of
        None \<Rightarrow> -1
      | Some i \<Rightarrow>
          let pd = pgdir (procs s ! i) in
          int (length (filter (\<lambda>(d, t). ld (pd + 4 * of_nat d) s AND PTE_P \<noteq> 0
                 \<and> ld (P2V (PTE_ADDR (ld (pd + 4 * of_nat d) s)) + 4 * of_nat t) s AND PTE_P \<noteq> 0)
            (List.product [0..<512] [0..<1024]))))"

section \<open>Critical sections on the process table\<close>

lemma upd_proc_simps [simp]:
  "locks (upd_proc i f s) = locks s" "lapicid (upd_proc i f s) = lapicid s" "apicids (upd_proc i f s) = apicids s"
  "ncli (upd_proc i f s) = ncli s" "intena (upd_proc i f s) = intena s" "ifl (upd_proc i f s) = ifl s"
  "cproc (upd_proc i f s) = cproc s" "mem (upd_proc i f s) = mem s" "freelist (upd_proc i f s) = freelist s"
  "use_lock (upd_proc i f s) = use_lock s" "kend (upd_proc i f s) = kend s" "nextpid (upd_proc i f s) = nextpid s"
  "length (procs (upd_proc i f s)) = length (procs s)" "trapret (upd_proc i f s) = trapret s"
  "forkret_ip (upd_proc i f s) = forkret_ip s" "cpu_ok (upd_proc i f s) = cpu_ok s"
  "lock_free l (upd_proc i f s) = lock_free l s" "cur (upd_proc i f s) = cur s" "kpgdir (upd_proc i f s) = kpgdir s"
  by (simp_all add: upd_proc_def cpu_ok_def cur_def lock_free_def)

lemma procs_upd_proc: "i < length (procs s) \<Longrightarrow>
    procs (upd_proc i f s) ! j = (if i = j then f (procs s ! j) else procs s ! j)"
  by (simp add: upd_proc_def nth_list_update)

lemma enter_ptable [simp]:
  "procs (enter l s) = procs s" "nextpid (enter l s) = nextpid s" "initproc (enter l s) = initproc s"
  "cr3 (enter l s) = cr3 s" "kpgdir (enter l s) = kpgdir s"
  by (simp_all add: enter_def)

text \<open>
  A section on the process table that only rewrites the table and the pid counter has just
  that effect once it is over.
\<close>

definition pt_upd :: "proc list \<Rightarrow> u32 \<Rightarrow> 'z ptable_st_scheme \<Rightarrow> 'z ptable_st_scheme" where
  "pt_upd ps n s = s\<lparr>procs := ps, nextpid := n\<rparr>"

lemma pt_upd_simps [simp]:
  "procs (pt_upd ps n s) = ps" "nextpid (pt_upd ps n s) = n" "mem (pt_upd ps n s) = mem s"
  "cpu_ok (pt_upd ps n s) = cpu_ok s" "lock_free l (pt_upd ps n s) = lock_free l s"
  "kmem_inv (pt_upd ps n s) xs = kmem_inv s xs" "cproc (pt_upd ps n s) = cproc s" "cur (pt_upd ps n s) = cur s"
  by (simp_all add: pt_upd_def cpu_ok_def cur_def lock_free_def kmem_inv_def kmem_ready_def good_page_def bad_page_def)

lemma pt_upd_id: "procs s = ps \<Longrightarrow> nextpid s = n \<Longrightarrow> pt_upd ps n s = s"
  by (auto simp: pt_upd_def)

lemma pt_section:
  assumes "cpu_ok s" and "lock_free Ptable_lock s"
    and "\<And>t. procs t = procs s \<Longrightarrow> nextpid t = nextpid s \<Longrightarrow> body t = Ok (r, pt_upd ps n t)"
  shows "with_lock Ptable_lock body s = Ok (r, pt_upd ps n s)"
proof -
  let ?e = "enter Ptable_lock s"
  have b: "body ?e = Ok (r, pt_upd ps n ?e)" by (rule assms(3)) simp_all
  show ?thesis
    using with_lock_ok [of s Ptable_lock body r, OF assms(1,2) b] by (simp add: pt_upd_def) (simp add: enter_def)
qed

lemma wakeup_eq: "cpu_ok s \<Longrightarrow> lock_free Ptable_lock s \<Longrightarrow> wakeup ch s = Ok (wakeup1 ch s)"
proof -
  assume a: "cpu_ok s" "lock_free Ptable_lock s"
  have "with_lock Ptable_lock (\<lambda>s. Ok ((), wakeup1 ch s)) s = Ok ((), pt_upd (procs (wakeup1 ch s)) (nextpid s) s)"
    by (rule pt_section [OF a]) (simp add: wakeup1_def pt_upd_def)
  then show ?thesis by (simp add: wakeup_def wakeup1_def pt_upd_def)
qed

lemma kill_eq:
  assumes "cpu_ok s" and "lock_free Ptable_lock s"
  shows "kill q s = (case find_idx (\<lambda>p. pid p = q) (procs s) of None \<Rightarrow> Ok (-1, s)
    | Some i \<Rightarrow> Ok (0, pt_upd ((procs s)[i := (procs s ! i)\<lparr>killed := True,
        pstate := if pstate (procs s ! i) = SLEEPING then RUNNABLE else pstate (procs s ! i)\<rparr>]) (nextpid s) s))"
proof (cases "find_idx (\<lambda>p. pid p = q) (procs s)")
  case None
  have "kill q s = Ok (-1, pt_upd (procs s) (nextpid s) s)"
    unfolding kill_def by (rule pt_section [OF assms]) (simp add: None pt_upd_def)
  with None show ?thesis by (simp add: pt_upd_def)
next
  case (Some i)
  have "kill q s = Ok (0, pt_upd ((procs s)[i := (procs s ! i)\<lparr>killed := True,
        pstate := if pstate (procs s ! i) = SLEEPING then RUNNABLE else pstate (procs s ! i)\<rparr>]) (nextpid s) s)"
    unfolding kill_def
    by (rule pt_section [OF assms]) (use find_idx_Some_lt [OF Some] in \<open>simp add: Some pt_upd_def Let_def upd_proc_def\<close>)
  with Some show ?thesis by simp
qed

lemma alloc_slot_eq:
  assumes "cpu_ok s" and "lock_free Ptable_lock s"
  shows "with_lock Ptable_lock alloc_slot s = (case find_idx (\<lambda>p. pstate p = UNUSED) (procs s) of
      None \<Rightarrow> Ok (None, s)
    | Some i \<Rightarrow> Ok (Some i, pt_upd ((procs s)[i := (procs s ! i)\<lparr>pstate := EMBRYO, pid := sint (nextpid s)\<rparr>]) (nextpid s + 1) s))"
proof (cases "find_idx (\<lambda>p. pstate p = UNUSED) (procs s)")
  case None
  have "with_lock Ptable_lock alloc_slot s = Ok (None, pt_upd (procs s) (nextpid s) s)"
    by (rule pt_section [OF assms]) (simp add: None pt_upd_def alloc_slot_def)
  with None show ?thesis by (simp add: pt_upd_def)
next
  case (Some i)
  have "with_lock Ptable_lock alloc_slot s =
      Ok (Some i, pt_upd ((procs s)[i := (procs s ! i)\<lparr>pstate := EMBRYO, pid := sint (nextpid s)\<rparr>]) (nextpid s + 1) s)"
    by (rule pt_section [OF assms])
      (use find_idx_Some_lt [OF Some] in \<open>simp add: Some pt_upd_def alloc_slot_def Let_def upd_proc_def\<close>)
  with Some show ?thesis by simp
qed

lemma kmem_inv_cong:
  "kmem_inv s xs \<Longrightarrow> mem t = mem s \<Longrightarrow> freelist t = freelist s \<Longrightarrow> kend t = kend s \<Longrightarrow> use_lock t = use_lock s \<Longrightarrow>
   (use_lock s \<Longrightarrow> cpu_ok t \<and> lock_free Kmem_lock t) \<Longrightarrow> kmem_inv t xs"
  by (auto simp: kmem_inv_def kmem_ready_def good_page_def bad_page_def)

text \<open>
  A successful \<open>allocproc\<close>: the first unused slot becomes an embryo with a fresh pid and the
  next free page as its kernel stack, laid out so that the first \<open>swtch\<close> to it runs \<open>forkret\<close>
  and returns to \<open>trapret\<close>.
\<close>

lemma stack_off: "aligned x \<Longrightarrow> d < PGSIZE \<Longrightarrow> x + d \<in> page x"
  by (simp add: page_def)


definition kstack_image :: "u32 \<Rightarrow> u32 \<Rightarrow> u32 \<Rightarrow> memory \<Rightarrow> memory" where
  "kstack_image x fr tr m = wr32 (x + 4012) fr (memset (x + 3996) 0 20 (wr32 (x + 4016) tr m))"

lemma kstack_image_out: "a \<notin> page x \<Longrightarrow> kstack_image x fr tr m a = m a"
proof -
  assume a: "a \<notin> page x"
  have 1: "a \<notin> {x + 4012, x + 4012 + 1, x + 4012 + 2, x + 4012 + 3}"
    and 2: "a \<notin> {x + 4016, x + 4016 + 1, x + 4016 + 2, x + 4016 + 3}"
    using a by (auto simp: page_def)
  have "\<not> a - (x + 3996) < 20"
  proof
    define k where "k = a - (x + 3996)"
    assume "a - (x + 3996) < 20"
    then have "k < 20" by (simp add: k_def)
    then have "3996 + k < PGSIZE" by (simp add: word_less_nat_alt unat_word_ariths)
    moreover have "a - x = 3996 + k" by (simp add: k_def)
    ultimately show False using a by (simp add: page_def)
  qed
  then show ?thesis unfolding kstack_image_def wr32_other [OF 1] memset_apply by (simp add: wr32_other [OF 2])
qed


lemma allocproc_ok:
  assumes s: "cpu_ok s" "lock_free Ptable_lock s" "kmem_inv s (x # xs)"
    and i: "find_idx (\<lambda>p. pstate p = UNUSED) (procs s) = Some i"
  defines "s' \<equiv> s\<lparr>nextpid := nextpid s + 1, freelist := rd32 (mem s) x,
    procs := (procs s)[i := (procs s ! i)\<lparr>pstate := EMBRYO, pid := sint (nextpid s), kstack := x, tf := x + 4020, pcontext := x + 3996\<rparr>],
    mem := kstack_image x (forkret_ip s) (trapret s) (mem s)\<rparr>"
  shows "allocproc s = Ok (Some i, s') \<and> kmem_inv s' xs"
proof
  have lt: "i < length (procs s)" using find_idx_Some_lt [OF i] .
  define s1 where "s1 = pt_upd ((procs s)[i := (procs s ! i)\<lparr>pstate := EMBRYO, pid := sint (nextpid s)\<rparr>]) (nextpid s + 1) s"
  have k1: "kmem_inv s1 (x # xs)" using s(3) by (simp add: s1_def)
  have ka: "kalloc s1 = Ok (x, s1\<lparr>freelist := rd32 (mem s1) x\<rparr>)" "kmem_inv (s1\<lparr>freelist := rd32 (mem s1) x\<rparr>) xs"
    using kmem_inv_kalloc(2) [OF k1] by blast+
  have x: "aligned x" "x \<noteq> 0" "x \<notin> set xs" using s(3) good_page_aligned good_page_nonzero by (auto simp: kmem_inv_def)
  show "allocproc s = Ok (Some i, s')"
    using alloc_slot_eq [OF s(1,2)] i ka(1) x(2) lt
    by (simp add: allocproc_def s1_def [symmetric] Let_def st_def upd_proc_def kstack_image_def s'_def)
      (simp add: s1_def pt_upd_def add.commute)
  have "kmem_inv (s1\<lparr>freelist := rd32 (mem s1) x, mem := kstack_image x (forkret_ip s) (trapret s) (mem s)\<rparr>) xs"
  proof (rule kmem_inv_frame [OF ka(2)])
    fix y a assume y: "y \<in> set xs" "a \<in> page y"
    then have "aligned y" "y \<noteq> x" using s(3) x(3) good_page_aligned by (auto simp: kmem_inv_def)
    then have "a \<notin> page x" using page_disjoint [OF _ x(1) _ y(2)] by blast
    then show "kstack_image x (forkret_ip s) (trapret s) (mem s) a = mem (s1\<lparr>freelist := rd32 (mem s1) x\<rparr>) a"
      by (simp add: kstack_image_out s1_def)
  qed
  then show "kmem_inv s' xs"
    by (rule kmem_inv_cong) (use s in \<open>auto simp: s'_def s1_def pt_upd_def kmem_inv_def kmem_ready_def cpu_ok_def cur_def lock_free_def\<close>)
qed

section \<open>Sleeping and waking up under interleaving\<close>

text \<open>
  One sleeper and one waker, step by step. The sleeper takes \<open>lk\<close>, and while the condition
  does not hold it calls \<open>sleep\<close>: take \<open>ptable.lock\<close>, release \<open>lk\<close>, become \<open>SLEEPING\<close>, and let
  the scheduler release \<open>ptable.lock\<close>. The waker takes \<open>lk\<close>, makes the condition true, and calls
  \<open>wakeup\<close> (which takes \<open>ptable.lock\<close>) before it releases \<open>lk\<close>. A waker may also take the
  condition away again (another consumer), so that the sleeper goes back to sleep.
\<close>

datatype sleeper_pc = S_out | S_check | S_has_both | S_has_pt | S_asleep | S_woken
datatype waker_pc = W_out | W_has_lk | W_set | W_has_both | W_done

record sw_sys =
  cond :: bool
  lk_held :: bool
  pt_held :: bool
  spc :: sleeper_pc
  wpc :: waker_pc

inductive sw_step :: "sw_sys \<Rightarrow> sw_sys \<Rightarrow> bool" where
  s_acquire: "spc s = S_out \<Longrightarrow> \<not> lk_held s \<Longrightarrow> sw_step s (s\<lparr>spc := S_check, lk_held := True\<rparr>)"
| s_ready: "spc s = S_check \<Longrightarrow> cond s \<Longrightarrow> sw_step s (s\<lparr>spc := S_out, lk_held := False\<rparr>)"
| s_sleep: "spc s = S_check \<Longrightarrow> \<not> cond s \<Longrightarrow> \<not> pt_held s \<Longrightarrow> sw_step s (s\<lparr>spc := S_has_both, pt_held := True\<rparr>)"
| s_release: "spc s = S_has_both \<Longrightarrow> sw_step s (s\<lparr>spc := S_has_pt, lk_held := False\<rparr>)"
| s_sched: "spc s = S_has_pt \<Longrightarrow> sw_step s (s\<lparr>spc := S_asleep, pt_held := False\<rparr>)"
| s_resume: "spc s = S_woken \<Longrightarrow> \<not> lk_held s \<Longrightarrow> sw_step s (s\<lparr>spc := S_check, lk_held := True\<rparr>)"
| w_acquire: "wpc s = W_out \<Longrightarrow> \<not> lk_held s \<Longrightarrow> sw_step s (s\<lparr>wpc := W_has_lk, lk_held := True\<rparr>)"
| w_set: "wpc s = W_has_lk \<Longrightarrow> sw_step s (s\<lparr>wpc := W_set, cond := True\<rparr>)"
| w_consume: "wpc s = W_has_lk \<Longrightarrow> sw_step s (s\<lparr>wpc := W_done, cond := False\<rparr>)"
| w_wakeup: "wpc s = W_set \<Longrightarrow> \<not> pt_held s \<Longrightarrow> sw_step s (s\<lparr>wpc := W_has_both, pt_held := True\<rparr>)"
| w_wakeup1: "wpc s = W_has_both \<Longrightarrow>
    sw_step s (s\<lparr>wpc := W_done, pt_held := False, spc := (if spc s = S_asleep then S_woken else spc s)\<rparr>)"
| w_release: "wpc s = W_done \<Longrightarrow> sw_step s (s\<lparr>wpc := W_out, lk_held := False\<rparr>)"

inductive sw_reach :: "sw_sys \<Rightarrow> bool" where
  start: "sw_reach \<lparr>cond = False, lk_held = False, pt_held = False, spc = S_out, wpc = W_out\<rparr>"
| step: "sw_reach s \<Longrightarrow> sw_step s t \<Longrightarrow> sw_reach t"

inductive_cases sw_stepE: "sw_step s t"

text \<open>Who holds which lock, and that a sleeper that has committed to sleep saw the condition false.\<close>

definition sw_inv :: "sw_sys \<Rightarrow> bool" where
  "sw_inv s \<longleftrightarrow>
     (lk_held s \<longleftrightarrow> spc s \<in> {S_check, S_has_both} \<or> wpc s \<noteq> W_out)
     \<and> \<not> (spc s \<in> {S_check, S_has_both} \<and> wpc s \<noteq> W_out)
     \<and> (pt_held s \<longleftrightarrow> spc s \<in> {S_has_both, S_has_pt} \<or> wpc s = W_has_both)
     \<and> \<not> (spc s \<in> {S_has_both, S_has_pt} \<and> wpc s = W_has_both)
     \<and> (cond s \<and> spc s \<in> {S_has_both, S_has_pt, S_asleep} \<longrightarrow> wpc s \<in> {W_set, W_has_both})"

lemma sw_step_inv: "sw_step s t \<Longrightarrow> sw_inv s \<Longrightarrow> sw_inv t"
  by (erule sw_stepE) (auto simp: sw_inv_def)

lemma sw_reach_inv: "sw_reach s \<Longrightarrow> sw_inv s"
proof (induction rule: sw_reach.induct)
  case start
  then show ?case by (simp add: sw_inv_def)
next
  case (step s t)
  then show ?case using sw_step_inv by blast
qed

section \<open>Scheduling\<close>

lemma switchuvm_ok:
  assumes "cpu_ok s" and "kstack (procs s ! i) \<noteq> 0" and "pgdir (procs s ! i) \<noteq> 0"
  shows "switchuvm (Some i) s = Ok (s\<lparr>ts_esp0 := kstack (procs s ! i) + KSTACKSIZE, cr3 := V2P (pgdir (procs s ! i))\<rparr>)"
proof -
  let ?t = "s\<lparr>ifl := False, ncli := (ncli s)(cur s := ncli s (cur s) + 1)\<rparr>"
  let ?u = "?t\<lparr>ts_esp0 := kstack (procs s ! i) + KSTACKSIZE, cr3 := V2P (pgdir (procs s ! i))\<rparr>"
  have known: "find_idx (\<lambda>a. a = lapicid s) (apicids s) \<noteq> None" using cpu_ok_known [OF assms(1)] .
  have c: "cur ?u = cur s" by (simp add: cur_def)
  have "popcli ?u = Ok (?u\<lparr>ncli := (ncli ?u)(cur ?u := ncli ?u (cur ?u) - 1), ifl := (ncli ?u (cur ?u) = 1 \<and> intena ?u (cur ?u))\<rparr>)"
    using known assms(1) c by (intro popcli_ok) (auto simp: cpu_ok_def)
  moreover have "(ncli s (cur s) = 0 \<and> intena s (cur s)) = ifl s" using assms(1) by (auto simp: cpu_ok_def)
  ultimately have "popcli ?u = Ok (s\<lparr>ts_esp0 := kstack (procs s ! i) + KSTACKSIZE, cr3 := V2P (pgdir (procs s ! i))\<rparr>)"
    using c by simp
  moreover have "mycpu ?t = Ok (cur s)" using mycpu_off [of ?t] known by (simp add: cur_def)
  ultimately show ?thesis using assms(2,3) pushcli_ok [OF assms(1)] by (simp add: switchuvm_def Let_def)
qed

section \<open>Properties\<close>

text \<open>
  C30. No wakeup is lost. Under every interleaving of a sleeper and a waker that use the same
  lock, whenever the condition holds while the sleeper is \<open>SLEEPING\<close>, the waker has not called
  \<open>wakeup1\<close> yet, and its next steps do wake the sleeper.
\<close>

theorem sleep_wakeup_not_lost:
  assumes "sw_reach s" and "cond s" and "spc s = S_asleep"
  shows "(wpc s = W_set \<and> (\<exists>t u. sw_step s t \<and> sw_step t u \<and> spc u = S_woken))
     \<or> (wpc s = W_has_both \<and> (\<exists>t. sw_step s t \<and> spc t = S_woken))"
proof -
  have inv: "sw_inv s" using sw_reach_inv [OF assms(1)] .
  then have "wpc s = W_set \<or> wpc s = W_has_both" using assms(2,3) by (auto simp: sw_inv_def)
  then show ?thesis
  proof
    assume w: "wpc s = W_set"
    then have "\<not> pt_held s" using inv assms(3) by (auto simp: sw_inv_def)
    then have "sw_step s (s\<lparr>wpc := W_has_both, pt_held := True\<rparr>)" using w by (intro sw_step.w_wakeup)
    moreover have "sw_step (s\<lparr>wpc := W_has_both, pt_held := True\<rparr>)
        ((s\<lparr>wpc := W_has_both, pt_held := True\<rparr>)\<lparr>wpc := W_done, pt_held := False, spc := S_woken\<rparr>)"
      using sw_step.w_wakeup1 [of "s\<lparr>wpc := W_has_both, pt_held := True\<rparr>"] assms(3) by simp
    ultimately show ?thesis using w by (metis sw_sys.select_convs(4) sw_sys.surjective sw_sys.update_convs(4))
  next
    assume w: "wpc s = W_has_both"
    have "sw_step s (s\<lparr>wpc := W_done, pt_held := False, spc := S_woken\<rparr>)"
      using sw_step.w_wakeup1 [OF w] assms(3) by simp
    then show ?thesis using w by force
  qed
qed

definition sw_example :: "sw_sys list" where
  "sw_example = (let s0 = \<lparr>cond = False, lk_held = False, pt_held = False, spc = S_out, wpc = W_out\<rparr> in
     [s0\<lparr>spc := S_check, lk_held := True\<rparr>, s0\<lparr>spc := S_has_both, lk_held := True, pt_held := True\<rparr>,
      s0\<lparr>spc := S_has_pt, pt_held := True\<rparr>, s0\<lparr>spc := S_asleep\<rparr>, s0\<lparr>spc := S_asleep, wpc := W_has_lk, lk_held := True\<rparr>,
      s0\<lparr>spc := S_asleep, wpc := W_set, lk_held := True, cond := True\<rparr>])"

lemma sw_example_reach: "sw_reach (last sw_example)"
proof -
  let ?s = "\<lambda>i. sw_example ! i"
  have "sw_reach (?s 0)"
    using sw_reach.step [OF sw_reach.start sw_step.s_acquire] by (simp add: sw_example_def Let_def)
  then have "sw_reach (?s 1)" using sw_reach.step [OF _ sw_step.s_sleep, of "?s 0"] by (simp add: sw_example_def Let_def)
  then have "sw_reach (?s 2)" using sw_reach.step [OF _ sw_step.s_release, of "?s 1"] by (simp add: sw_example_def Let_def)
  then have "sw_reach (?s 3)" using sw_reach.step [OF _ sw_step.s_sched, of "?s 2"] by (simp add: sw_example_def Let_def)
  then have "sw_reach (?s 4)" using sw_reach.step [OF _ sw_step.w_acquire, of "?s 3"] by (simp add: sw_example_def Let_def)
  then have "sw_reach (?s 5)" using sw_reach.step [OF _ sw_step.w_set, of "?s 4"] by (simp add: sw_example_def Let_def)
  then show ?thesis by (simp add: sw_example_def Let_def)
qed

theorem sleep_wakeup_not_lost_witness:
  "sw_reach (last sw_example) \<and> cond (last sw_example) \<and>
   (\<exists>t u. sw_step (last sw_example) t \<and> sw_step t u \<and> spc u = S_woken)"
proof -
  have "cond (last sw_example)" "spc (last sw_example) = S_asleep" "wpc (last sw_example) = W_set"
    by (simp_all add: sw_example_def Let_def)
  then show ?thesis using sleep_wakeup_not_lost [OF sw_example_reach] sw_example_reach by auto
qed

definition pid_inv :: "'z ptable_st_scheme \<Rightarrow> bool" where
  "pid_inv s \<longleftrightarrow> (\<forall>p \<in> set (procs s). pid p < sint (nextpid s))
     \<and> (\<forall>i < length (procs s). \<forall>j < length (procs s). pstate (procs s ! i) \<noteq> UNUSED \<longrightarrow> pstate (procs s ! j) \<noteq> UNUSED
          \<longrightarrow> pid (procs s ! i) = pid (procs s ! j) \<longrightarrow> i = j)"



definition proc0 :: proc where
  "proc0 = \<lparr>psz = 0, pgdir = 0, kstack = 0, pstate = UNUSED, pid = 0, parent = None, tf = 0, pcontext = 0, chan = None,
     killed = False, ofile = replicate 16 None, cwd = None, pname = []\<rparr>"

definition ptable0 :: ptable_st where
  "ptable0 = kmem_st.extend vm0 \<lparr>procs = replicate 64 proc0, initproc = None, nextpid = 1, cr3 = 0, ts_esp0 = 0,
     kpgdir = 0, trapret = 0x80105000, forkret_ip = 0x80104000\<rparr>"

lemma ptable0_simps [simp]:
  "procs ptable0 = replicate 64 proc0" "nextpid ptable0 = 1" "cpu_ok ptable0" "lock_free l ptable0"
  "kmem_inv ptable0 [0x80300000]" "mem ptable0 = (\<lambda>_. 0)"
  by (simp_all add: ptable0_def vm0_def kmem0_def kst0_def cpu_ok_def cur_def lock_free_def kmem_inv_def kmem_ready_def
      good_page_def bad_page_def V2P_def rd32_def kst.defs kmem_st.defs ptable_st.defs)

lemma ptable0_slot: "find_idx (\<lambda>p. pstate p = UNUSED) (procs ptable0) = Some 0" "pid_inv ptable0"
  by (simp_all add: find_idx_Some_iff proc0_def pid_inv_def)


text \<open>
  \<open>kill(0)\<close> matches an unused slot, whose pid is 0, marks it killed and reports success;
  \<open>allocproc\<close> does not clear the mark, so the next process created in that slot is killed as
  soon as it enters the kernel.
\<close>

theorem kill_zero_marks_next_process:
  assumes "cpu_ok s" and "lock_free Ptable_lock s" and "kmem_inv s (x # xs)"
    and "find_idx (\<lambda>p. pid p = 0) (procs s) = Some i" and "find_idx (\<lambda>p. pstate p = UNUSED) (procs s) = Some i"
  shows "\<exists>s1 s2. kill 0 s = Ok (0, s1) \<and> allocproc s1 = Ok (Some i, s2) \<and> killed (procs s2 ! i)
    \<and> pid (procs s2 ! i) = sint (nextpid s)"
proof -
  have lt: "i < length (procs s)" and un: "pstate (procs s ! i) = UNUSED"
    using find_idx_SomeD [OF assms(5)] by auto
  define s1 where "s1 = pt_upd ((procs s)[i := (procs s ! i)\<lparr>killed := True, pstate := UNUSED\<rparr>]) (nextpid s) s"
  have k: "kill 0 s = Ok (0, s1)" using kill_eq [OF assms(1,2), of 0] assms(4) un by (simp add: s1_def)
  have "find_idx (\<lambda>p. pstate p = UNUSED) (procs s1) = Some i"
    using find_idx_SomeD [OF assms(5)] by (auto simp: find_idx_Some_iff s1_def)
  from allocproc_ok [OF _ _ _ this, of x xs] assms(1-3) lt
  obtain s2 where "allocproc s1 = Ok (Some i, s2)" "procs s2 ! i = (procs s1 ! i)\<lparr>pstate := EMBRYO, pid := sint (nextpid s1),
      kstack := x, tf := x + 4020, pcontext := x + 3996\<rparr>"
    by (auto simp: s1_def)
  then show ?thesis using k lt by (auto simp: s1_def)
qed

theorem kill_zero_marks_next_process_witness:
  "\<exists>s1 s2. kill 0 ptable0 = Ok (0, s1) \<and> allocproc s1 = Ok (Some 0, s2) \<and> killed (procs s2 ! 0)"
proof -
  have "find_idx (\<lambda>p. pid p = 0) (procs ptable0) = Some 0" by (simp add: find_idx_Some_iff proc0_def)
  from kill_zero_marks_next_process [OF ptable0_simps(3,4,5) this ptable0_slot(1)] show ?thesis by blast
qed

text \<open>
  The scheduler's choice: from index \<open>i\<close> it takes the first runnable process, makes it the
  CPU's current process, switches to its kernel stack and page table, marks it \<open>RUNNING\<close> and
  changes no other process; when no process from \<open>i\<close> on is runnable the pass ends with
  nothing changed. No panic is possible for processes that have a stack and a page table.
\<close>

theorem scheduler_picks_next_runnable:
  assumes "cpu_ok s" and "\<not> ifl s"
    and "\<And>p. p \<in> set (procs s) \<Longrightarrow> pstate p = RUNNABLE \<Longrightarrow> kstack p \<noteq> 0 \<and> pgdir p \<noteq> 0"
  shows "((\<forall>j. i \<le> j \<and> j < length (procs s) \<longrightarrow> pstate (procs s ! j) \<noteq> RUNNABLE) \<and> scheduler_pick i s = Ok (None, s))
    \<or> (\<exists>j s'. i \<le> j \<and> j < length (procs s) \<and> pstate (procs s ! j) = RUNNABLE
         \<and> (\<forall>k. i \<le> k \<and> k < j \<longrightarrow> pstate (procs s ! k) \<noteq> RUNNABLE)
         \<and> scheduler_pick i s = Ok (Some j, s') \<and> procs s' = (procs s)[j := (procs s ! j)\<lparr>pstate := RUNNING\<rparr>]
         \<and> cproc s' (cur s) = Some j \<and> cr3 s' = V2P (pgdir (procs s ! j)) \<and> ts_esp0 s' = kstack (procs s ! j) + KSTACKSIZE
         \<and> cpu_ok s' \<and> locks s' = locks s \<and> mem s' = mem s)"
proof (cases "find_idx (\<lambda>p. pstate p = RUNNABLE) (drop i (procs s))")
  case None
  then have "pstate (procs s ! j) \<noteq> RUNNABLE" if "i \<le> j" "j < length (procs s)" for j
    using that nth_mem [of "j - i" "drop i (procs s)"] by (auto simp: find_idx_None)
  then show ?thesis using None by (simp add: scheduler_pick_def)
next
  case (Some d)
  let ?j = "i + d"
  have j: "?j < length (procs s)" "pstate (procs s ! ?j) = RUNNABLE"
    and first: "\<And>k. k < d \<Longrightarrow> pstate (procs s ! (i + k)) \<noteq> RUNNABLE"
    using find_idx_SomeD [OF Some] by auto
  have first': "pstate (procs s ! k) \<noteq> RUNNABLE" if "i \<le> k" "k < ?j" for k using first [of "k - i"] that by auto
  define t where "t = s\<lparr>cproc := (cproc s)(cur s := Some ?j)\<rparr>"
  have ok: "cpu_ok t" "kstack (procs t ! ?j) \<noteq> 0" "pgdir (procs t ! ?j) \<noteq> 0"
    using assms(1) assms(3) [of "procs s ! ?j"] j by (auto simp: t_def)
  have "mycpu s = Ok (cur s)" using mycpu_off [OF cpu_ok_known [OF assms(1)] assms(2)] .
  moreover define u where "u = upd_proc ?j (\<lambda>q. q\<lparr>pstate := RUNNING\<rparr>)
      (t\<lparr>ts_esp0 := kstack (procs t ! ?j) + KSTACKSIZE, cr3 := V2P (pgdir (procs t ! ?j))\<rparr>)"
  ultimately have "scheduler_pick i s = Ok (Some ?j, u)"
    using Some switchuvm_ok [OF ok] by (simp add: scheduler_pick_def t_def Let_def)
  moreover have "cpu_ok u" using assms(1) by (simp add: u_def t_def cpu_ok_def cur_def)
  moreover have "procs u = (procs s)[?j := (procs s ! ?j)\<lparr>pstate := RUNNING\<rparr>]" "cproc u (cur s) = Some ?j"
    "cr3 u = V2P (pgdir (procs s ! ?j))" "ts_esp0 u = kstack (procs s ! ?j) + KSTACKSIZE" "locks u = locks s" "mem u = mem s"
    by (simp_all add: u_def t_def upd_proc_def)
  ultimately show ?thesis using j first' by (intro disjI2 exI [of _ ?j] exI [of _ u]) simp
qed

definition sched0 :: ptable_st where
  "sched0 = ptable0\<lparr>ifl := False, procs := [proc0, proc0\<lparr>pstate := RUNNABLE, kstack := 0x1000, pgdir := 0x2000\<rparr>],
     intena := (\<lambda>_. False)\<rparr>"

lemma sched0_ok: "cpu_ok sched0" "\<not> ifl sched0" "length (procs sched0) = 2"
  "pstate (procs sched0 ! 0) = UNUSED" "pstate (procs sched0 ! 1) = RUNNABLE"
  "p \<in> set (procs sched0) \<Longrightarrow> pstate p = RUNNABLE \<Longrightarrow> kstack p \<noteq> 0 \<and> pgdir p \<noteq> 0"
  by (auto simp: sched0_def ptable0_def vm0_def kmem0_def kst0_def proc0_def cpu_ok_def cur_def kst.defs kmem_st.defs ptable_st.defs)

theorem scheduler_picks_next_runnable_witness:
  "cpu_ok sched0 \<and> (\<exists>s'. scheduler_pick 0 sched0 = Ok (Some 1, s') \<and> cr3 s' = V2P (pgdir (procs sched0 ! 1)))"
proof -
  from scheduler_picks_next_runnable [OF sched0_ok(1,2) sched0_ok(6), where i = 0]
  consider "\<forall>j. 0 \<le> j \<and> j < length (procs sched0) \<longrightarrow> pstate (procs sched0 ! j) \<noteq> RUNNABLE"
    | j s' where "j < length (procs sched0)" "pstate (procs sched0 ! j) = RUNNABLE" "scheduler_pick 0 sched0 = Ok (Some j, s')"
        "cr3 s' = V2P (pgdir (procs sched0 ! j))" by blast
  then show ?thesis
  proof cases
    case 1
    then show ?thesis using sched0_ok(3,5) by (metis One_nat_def le0 lessI numeral_2_eq_2)
  next
    case 2
    have "j = 0 \<or> j = 1" using 2(1) sched0_ok(3) by linarith
    then have "j = 1" using 2(2) sched0_ok(4) by auto
    then show ?thesis using 2(3,4) sched0_ok(1) by blast
  qed
qed

text \<open>
  Shrinking a process to size 0 with \<open>growproc\<close> reports failure although the pages were
  freed: \<open>deallocuvm\<close> returns the new size, 0, which \<open>growproc\<close> takes for an error, and the
  recorded process size keeps its old value.
\<close>

theorem growproc_to_zero_reports_failure:
  assumes "curproc s = Ok i" and "0 < psz (procs s ! i)" and "psz (procs s ! i) < KERNBASE"
    and "deallocuvm_loop (2 ^ 20 + 1) kalloc kfree (pgdir (procs s ! i)) 0 (psz (procs s ! i)) s = Ok s'"
  shows "growproc (- uint (psz (procs s ! i))) s = Ok (-1, s')"
proof -
  let ?sz = "psz (procs s ! i)"
  have "?sz + word_of_int (- uint ?sz) = 0" by simp
  moreover have "- uint ?sz < 0" using assms(2) by (simp add: word_less_def)
  moreover have "PGROUNDUP 0 = 0" by (simp add: PGROUNDUP_def)
  moreover have "deallocuvm kalloc kfree (pgdir (procs s ! i)) ?sz 0 s = Ok (0, s')"
    using assms(2,4) by (simp add: deallocuvm_def PGROUNDUP_def)
  ultimately show ?thesis using assms(1) by (simp add: growproc_def Let_def)
qed

theorem growproc_to_zero_reports_failure_witness:
  "let s = ptable0\<lparr>cproc := (\<lambda>_. Some 0), procs := [proc0\<lparr>psz := 4096, pgdir := 0x80200000\<rparr>]\<rparr>
   in growproc (- 4096) s = Ok (-1, s)"
proof -
  let ?s = "ptable0\<lparr>cproc := (\<lambda>_. Some 0), procs := [proc0\<lparr>psz := 4096, pgdir := 0x80200000\<rparr>]\<rparr>"
  have ok: "cpu_ok ?s"
    by (simp add: ptable0_def vm0_def kmem0_def kst0_def cpu_ok_def cur_def kst.defs kmem_st.defs ptable_st.defs)
  have "curproc ?s = Ok 0" using myproc_ok [OF ok] by (simp add: curproc_def)
  moreover have "deallocuvm_loop (2 ^ 20 + 1) kalloc kfree 0x80200000 0 4096 ?s = Ok ?s"
  proof -
    have w: "walkpgdir kalloc 0x80200000 0 False ?s = Ok (0, ?s)" by (simp add: walk_lookup empty_memory)
    have "deallocuvm_loop (Suc (Suc n)) kalloc kfree 0x80200000 0 4096 ?s = Ok ?s" for n
      using w by (simp add: PGADDR_def PDX_def)
    from this [of 1048575] show ?thesis by simp
  qed
  ultimately show ?thesis using growproc_to_zero_reports_failure [of ?s 0 ?s] by (simp add: Let_def proc0_def)
qed

end
