(* ===== verification/Sleeplock.thy ===== *)
theory Sleeplock
  imports Ptable
begin

text \<open>
  Sleep locks: \<open>xv6-public-master/sleeplock.c\<close>. Every sleep lock of the kernel lives in the
  store \<open>sleeplocks\<close> under the object it protects (a buffer or an inode); the spin lock inside
  it is the lock \<open>inner l\<close> of the spin-lock store, and its sleep channel is \<open>sl_chan l\<close>.
\<close>

section \<open>State\<close>

datatype slid = SL_buf nat | SL_inode nat

record sleeplock =
  slocked :: bool
  slname :: string
  slpid :: int

record slock_st = ptable_st +
  sleeplocks :: "slid \<Rightarrow> sleeplock"

fun inner :: "slid \<Rightarrow> lockid" where
  "inner (SL_buf i) = Buf_lk i"
| "inner (SL_inode i) = Inode_lk i"

fun sl_chan :: "slid \<Rightarrow> chan" where
  "sl_chan (SL_buf i) = Buf_chan i"
| "sl_chan (SL_inode i) = Inode_chan i"

section \<open>Operations\<close>

definition initsleeplock :: "slid \<Rightarrow> string \<Rightarrow> 'z slock_st_scheme \<Rightarrow> 'z slock_st_scheme" where
  "initsleeplock l nm s =
     (let s = initlock (inner l) ''sleep lock'' s
      in s\<lparr>sleeplocks := (sleeplocks s)(l := \<lparr>slocked = False, slname = nm, slpid = 0\<rparr>)\<rparr>)"

definition acquiresleep :: "slid \<Rightarrow> 'z slock_st_scheme \<Rightarrow> 'z slock_st_scheme res" where
  "acquiresleep l s =
     bnd (acquire (inner l) s) (\<lambda>s.
       if slocked (sleeplocks s l) then sleep (sl_chan l) (inner l) s
       else
         let s = s\<lparr>sleeplocks := (sleeplocks s)(l := (sleeplocks s l)\<lparr>slocked := True\<rparr>)\<rparr> in
         bnd (curproc s) (\<lambda>p.
           let s = s\<lparr>sleeplocks := (sleeplocks s)(l := (sleeplocks s l)\<lparr>slpid := pid (procs s ! p)\<rparr>)\<rparr>
           in release (inner l) s))"

definition releasesleep :: "slid \<Rightarrow> 'z slock_st_scheme \<Rightarrow> 'z slock_st_scheme res" where
  "releasesleep l s =
     bnd (acquire (inner l) s) (\<lambda>s.
       let s = s\<lparr>sleeplocks := (sleeplocks s)(l := (sleeplocks s l)\<lparr>slocked := False, slpid := 0\<rparr>)\<rparr> in
       bnd (wakeup (sl_chan l) s) (release (inner l)))"

definition holdingsleep :: "slid \<Rightarrow> 'z slock_st_scheme \<Rightarrow> (bool \<times> 'z slock_st_scheme) res" where
  "holdingsleep l s =
     with_lock (inner l) (\<lambda>s.
       bnd (curproc s) (\<lambda>p. Ok (slocked (sleeplocks s l) \<and> slpid (sleeplocks s l) = pid (procs s ! p), s))) s"

section \<open>Laws\<close>

text \<open>
  Leaving a critical section: \<open>relock l s t\<close> is \<open>t\<close> with the CPU fields and the lock \<open>l\<close> as they
  were in \<open>s\<close> when the section was entered.
\<close>

definition relock :: "lockid \<Rightarrow> 'z kst_scheme \<Rightarrow> 'z kst_scheme \<Rightarrow> 'z kst_scheme" where
  "relock l s t = t\<lparr>ncli := ncli s, ifl := ifl s, locks := (locks t)(l := locks s l)\<rparr>"

lemma relock_enter: "relock l s (enter l s) = s"
  by (simp add: relock_def enter_def)

lemma release_relock:
  assumes cpu: "cpu_ok s" and free: "lock_free l s"
    and same: "lapicid t = lapicid s" "apicids t = apicids s" "ncli t = ncli (enter l s)"
      "intena t = intena s" "ifl t = ifl (enter l s)" "locks t l = locks (enter l s) l"
  shows "release l t = Ok (relock l s t)"
  using with_lock_ok [OF cpu free, of "\<lambda>_. Ok ((), t)" "()" t] same acquire_free [OF cpu free]
  by (auto simp: with_lock_def relock_def)

definition sl_upd :: "slid \<Rightarrow> bool \<Rightarrow> int \<Rightarrow> 'z slock_st_scheme \<Rightarrow> 'z slock_st_scheme" where
  "sl_upd l b q s = s\<lparr>sleeplocks := (sleeplocks s)(l := (sleeplocks s l)\<lparr>slocked := b, slpid := q\<rparr>)\<rparr>"

lemma sl_upd_simps [simp]:
  "lapicid (sl_upd l b q s) = lapicid s" "apicids (sl_upd l b q s) = apicids s" "ncli (sl_upd l b q s) = ncli s"
  "intena (sl_upd l b q s) = intena s" "ifl (sl_upd l b q s) = ifl s" "locks (sl_upd l b q s) = locks s"
  "cproc (sl_upd l b q s) = cproc s" "procs (sl_upd l b q s) = procs s" "cur (sl_upd l b q s) = cur s"
  "cpu_ok (sl_upd l b q s) = cpu_ok s" "lock_free k (sl_upd l b q s) = lock_free k s"
  "sleeplocks (sl_upd l b q s) = (sleeplocks s)(l := (sleeplocks s l)\<lparr>slocked := b, slpid := q\<rparr>)"
  by (simp_all add: sl_upd_def cpu_ok_def cur_def lock_free_def)

lemma relock_sl_upd: "relock k s (sl_upd l b q t) = sl_upd l b q (relock k s t)"
  by (simp add: relock_def sl_upd_def)

lemma relock_wakeup1: "relock k s (wakeup1 c t) = wakeup1 c (relock k s t)"
  by (simp add: relock_def wakeup1_def)

lemma inner_neq [simp]: "inner l \<noteq> Ptable_lock" "inner l \<noteq> Bcache_lock" "inner l \<noteq> Log_lock" "inner l \<noteq> Icache_lock"
  by (cases l; simp)+

lemma enter_slock [simp]: "sleeplocks (enter k s) = sleeplocks s"
  by (simp add: enter_def)

lemma curproc_ok [simp]: "cpu_ok s \<Longrightarrow> cproc s (cur s) = Some p \<Longrightarrow> curproc s = Ok p"
  by (simp add: curproc_def)

lemma acquiresleep_ok:
  assumes "cpu_ok s" "lock_free (inner l) s" "\<not> slocked (sleeplocks s l)" "cproc s (cur s) = Some p"
  shows "acquiresleep l s = Ok (sl_upd l True (pid (procs s ! p)) s)"
proof -
  let ?e = "enter (inner l) s"
  let ?f = "?e\<lparr>sleeplocks := (sleeplocks s)(l := (sleeplocks s l)\<lparr>slocked := True\<rparr>)\<rparr>"
  have "curproc ?f = Ok p" using assms(1,4) by (intro curproc_ok) (simp_all add: cpu_ok_def cur_def enter_def)
  then have "acquiresleep l s = release (inner l) (sl_upd l True (pid (procs s ! p)) ?e)"
    using assms by (simp add: acquiresleep_def acquire_free sl_upd_def)
  also have "\<dots> = Ok (relock (inner l) s (sl_upd l True (pid (procs s ! p)) ?e))"
    using assms(1,2) by (intro release_relock) simp_all
  finally show ?thesis by (simp add: relock_sl_upd relock_enter)
qed

lemma holdingsleep_ok:
  assumes "cpu_ok s" "lock_free (inner l) s" "cproc s (cur s) = Some p"
  shows "holdingsleep l s = Ok (slocked (sleeplocks s l) \<and> slpid (sleeplocks s l) = pid (procs s ! p), s)"
proof -
  let ?e = "enter (inner l) s"
  have "release (inner l) ?e = Ok (relock (inner l) s ?e)" using assms(1,2) by (intro release_relock) simp_all
  then show ?thesis using assms by (simp add: holdingsleep_def with_lock_def acquire_free relock_enter)
qed

lemma releasesleep_ok:
  assumes "cpu_ok s" "lock_free (inner l) s" "lock_free Ptable_lock s"
  shows "releasesleep l s = Ok (wakeup1 (sl_chan l) (sl_upd l False 0 s))"
proof -
  let ?e = "sl_upd l False 0 (enter (inner l) s)"
  have "wakeup (sl_chan l) ?e = Ok (wakeup1 (sl_chan l) ?e)"
    using assms by (intro wakeup_eq) (simp_all add: inner_neq [symmetric])
  moreover have "release (inner l) (wakeup1 (sl_chan l) ?e) = Ok (relock (inner l) s (wakeup1 (sl_chan l) ?e))"
    using assms(1,2) by (intro release_relock) (simp_all add: wakeup1_def)
  ultimately show ?thesis
    using assms by (simp add: releasesleep_def acquire_free relock_wakeup1 relock_sl_upd relock_enter flip: sl_upd_def)
qed

text \<open>
  A thread that sleeps while it holds the one lock it passes to \<open>sleep\<close> gives up the CPU: no
  check of \<open>sched\<close> panics.
\<close>

lemma sleep_blocks:
  assumes s: "cpu_ok s" "ncli s (cur s) = 1" "locked (locks s l)" "lcpu (locks s l) = Some (cur s)" "l \<noteq> Ptable_lock"
    "lock_free Ptable_lock s" and p: "cproc s (cur s) = Some p" "p < length (procs s)"
  shows "sleep ch l s = Block"
proof -
  let ?e = "enter Ptable_lock s"
  let ?t = "leave l ?e"
  let ?u = "upd_proc p (\<lambda>q. q\<lparr>pstate := SLEEPING\<rparr>) (upd_proc p (\<lambda>q. q\<lparr>chan := Some ch\<rparr>) ?t)"
  have rel: "release l ?e = Ok ?t" using s by (intro release_held) (auto simp: enter_def cpu_ok_def)
  have cpu: "cpu_ok ?u" and c: "cur ?u = cur s" and n: "ncli ?u (cur s) = 1" and i: "\<not> ifl ?u"
    using s by (auto simp: cpu_ok_def leave_def enter_def cur_def upd_proc_def)
  have h: "locked (locks ?u Ptable_lock) \<and> lcpu (locks ?u Ptable_lock) = Some (cur ?u)"
    using s(5) c by (auto simp: leave_def enter_def)
  have "curproc ?u = Ok p" using cpu c p(1) by (intro curproc_ok) (auto simp: leave_def)
  moreover have "pstate (procs ?u ! p) = SLEEPING" using p(2) by (simp add: procs_upd_proc leave_def)
  moreover have "mycpu ?u = Ok (cur s)" using mycpu_off [OF cpu_ok_known [OF cpu] i] c by simp
  ultimately have "sched ?u = Ok (intena ?u (cur s), ?u)"
    using h i n by (simp add: sched_def holding_ok [OF cpu])
  then show ?thesis
    using s p(1) rel by (simp add: sleep_def sleep_off_def acquire_free Let_def)
qed

lemma acquiresleep_busy:
  assumes "cpu_ok s" "ncli s (cur s) = 0" "lock_free (inner l) s" "lock_free Ptable_lock s" "slocked (sleeplocks s l)"
    "cproc s (cur s) = Some p" "p < length (procs s)"
  shows "acquiresleep l s = Block"
proof -
  have "sleep (sl_chan l) (inner l) (enter (inner l) s) = (Block :: 'a slock_st_scheme res)"
    using assms by (intro sleep_blocks) (auto simp: enter_def lock_free_def cpu_ok_def inner_neq [symmetric])
  then show ?thesis using assms by (simp add: acquiresleep_def acquire_free)
qed

text \<open>
  Sleep locks: taking a free one records the caller, who then holds it; a second taker goes
  to sleep without a panic; releasing it makes it free, wakes exactly the processes that
  sleep on it and changes nothing else, so that taking and releasing cancel when nobody waits.
\<close>

theorem sleeplock_contract:
  assumes "cpu_ok s" "ncli s (cur s) = 0" "lock_free (inner l) s" "lock_free Ptable_lock s"
    "cproc s (cur s) = Some p" "p < length (procs s)"
  shows "(slocked (sleeplocks s l) \<longrightarrow> acquiresleep l s = Block)
    \<and> (\<not> slocked (sleeplocks s l) \<and> slpid (sleeplocks s l) = 0 \<longrightarrow>
      (\<exists>t. acquiresleep l s = Ok t \<and> holdingsleep l t = Ok (True, t)
        \<and> releasesleep l t = Ok (wakeup1 (sl_chan l) s)
        \<and> (\<forall>k. k \<noteq> l \<longrightarrow> sleeplocks t k = sleeplocks s k) \<and> procs t = procs s))"
proof (intro conjI impI)
  show "acquiresleep l s = Block" if "slocked (sleeplocks s l)" using assms that by (intro acquiresleep_busy)
  assume "\<not> slocked (sleeplocks s l) \<and> slpid (sleeplocks s l) = 0"
  then have free: "\<not> slocked (sleeplocks s l)" "slpid (sleeplocks s l) = 0" by simp_all
  let ?t = "sl_upd l True (pid (procs s ! p)) s"
  have "sl_upd l False 0 ?t = s" using free by (simp add: sl_upd_def fun_upd_idem)
  then have "releasesleep l ?t = Ok (wakeup1 (sl_chan l) s)" using assms by (simp add: releasesleep_ok)
  moreover have "holdingsleep l ?t = Ok (True, ?t)" using assms by (simp add: holdingsleep_ok)
  ultimately show "\<exists>t. acquiresleep l s = Ok t \<and> holdingsleep l t = Ok (True, t)
        \<and> releasesleep l t = Ok (wakeup1 (sl_chan l) s)
        \<and> (\<forall>k. k \<noteq> l \<longrightarrow> sleeplocks t k = sleeplocks s k) \<and> procs t = procs s"
    using assms free by (intro exI [of _ ?t]) (simp add: acquiresleep_ok)
qed

definition sl0 :: slock_st where
  "sl0 = ptable_st.extend (ptable0\<lparr>cproc := (\<lambda>_. Some 0)\<rparr>) \<lparr>sleeplocks = (\<lambda>_. \<lparr>slocked = False, slname = [], slpid = 0\<rparr>)\<rparr>"
lemma sl0_ok: "cpu_ok sl0" "ncli sl0 (cur sl0) = 0" "lock_free k sl0" "cproc sl0 (cur sl0) = Some 0" "length (procs sl0) = 64"
    "\<not> slocked (sleeplocks sl0 l)" "slpid (sleeplocks sl0 l) = 0"
  by (simp_all add: sl0_def ptable0_def vm0_def kmem0_def kst0_def cpu_ok_def cur_def lock_free_def
      kst.defs kmem_st.defs ptable_st.defs slock_st.defs)

theorem sleeplock_contract_witness:
  "\<exists>t. acquiresleep (SL_buf 3) sl0 = Ok t \<and> holdingsleep (SL_buf 3) t = Ok (True, t)"
  using sleeplock_contract [of sl0 "SL_buf 3" 0] sl0_ok by auto

end
