(* ===== verification/Console.thy ===== *)
theory Console
  imports Sleeplock
begin

text \<open>
  The console: \<open>xv6-public-master/console.c\<close>. The serial port is the sequence of characters
  written to it (\<open>uart_out\<close>), the CGA text screen is the array \<open>crt\<close> with the cursor position
  held by the CRT controller (\<open>crt_pos\<close>). \<open>devsw\<close> has one entry, the console, and \<open>dev_on\<close> says
  whether \<open>consoleinit\<close> has filled it in. The functions that also lock an inode
  (\<open>consoleread\<close>, \<open>consolewrite\<close>) are here without the inode calls, which \<open>Fs\<close> puts around them.
\<close>

section \<open>State\<close>

record cons_st = slock_st +
  cons_locking :: bool
  panicked :: bool
  uart_out :: "int list"
  crt :: "nat \<Rightarrow> 16 word"
  crt_pos :: int
  in_buf :: "nat \<Rightarrow> u8"
  in_r :: u32
  in_w :: u32
  in_e :: u32
  dev_on :: bool

abbreviation BACKSPACE :: int where "BACKSPACE \<equiv> 0x100"
abbreviation INPUT_BUF :: u32 where "INPUT_BUF \<equiv> 128"

section \<open>Output\<close>

fun digits_rev :: "nat \<Rightarrow> nat \<Rightarrow> nat list" where
  "digits_rev base x = (if x < base \<or> base < 2 then [x mod base] else (x mod base) # digits_rev base (x div base))"

declare digits_rev.simps [simp del]

definition digit_char :: "nat \<Rightarrow> int" where
  "digit_char d = int (if d < 10 then 48 + d else 87 + d)"

text \<open>\<open>printint\<close>: the characters it sends to \<open>consputc\<close>.\<close>

definition printint :: "int \<Rightarrow> nat \<Rightarrow> bool \<Rightarrow> int list" where
  "printint xx base sign =
     (let sign = (sign \<and> xx < 0);
          x = (if sign then unat (word_of_int (- xx) :: u32) else unat (word_of_int xx :: u32));
          buf = map digit_char (digits_rev base x);
          buf = (if sign then buf @ [45] else buf)
      in rev buf)"

datatype carg = Int_arg int | Str_arg "int list option"

text \<open>
  The characters \<open>cprintf\<close> sends for a format and its arguments; \<open>None\<close> when it reads an
  argument that was not passed.
\<close>

fun cprintf_chars :: "int list \<Rightarrow> carg list \<Rightarrow> int list option" where
  "cprintf_chars [] args = Some []"
| "cprintf_chars (c # fmt) args =
     (if c \<noteq> 37 then map_option ((#) c) (cprintf_chars fmt args)
      else case fmt of [] \<Rightarrow> Some []
        | d # fmt' \<Rightarrow>
            if d = 100 then (case args of Int_arg n # as \<Rightarrow> map_option ((@) (printint n 10 True)) (cprintf_chars fmt' as) | _ \<Rightarrow> None)
            else if d = 120 \<or> d = 112 then
              (case args of Int_arg n # as \<Rightarrow> map_option ((@) (printint n 16 False)) (cprintf_chars fmt' as) | _ \<Rightarrow> None)
            else if d = 115 then
              (case args of
                 Str_arg None # as \<Rightarrow> map_option ((@) [40, 110, 117, 108, 108, 41]) (cprintf_chars fmt' as)
               | Str_arg (Some t) # as \<Rightarrow> map_option ((@) (takeWhile (\<lambda>c. c \<noteq> 0) t)) (cprintf_chars fmt' as)
               | _ \<Rightarrow> None)
            else if d = 37 then map_option ((#) 37) (cprintf_chars fmt' args)
            else map_option ((@) [37, d]) (cprintf_chars fmt' args))"

definition cgaputc :: "int \<Rightarrow> 'z cons_st_scheme \<Rightarrow> 'z cons_st_scheme res" where
  "cgaputc c s =
     (let pos = crt_pos s;
          (pos, s) =
            (if c = 10 then (pos + (80 - pos mod 80), s)
             else if c = BACKSPACE then ((if pos > 0 then pos - 1 else pos), s)
             else (pos + 1, s\<lparr>crt := (crt s)(nat pos := (word_of_int c AND 0xFF) OR 0x700)\<rparr>))
      in if pos < 0 \<or> pos > 25 * 80 then Panic ''pos under/overflow''
         else
           let (pos, s) =
             (if pos div 80 \<ge> 24 then
                let s = s\<lparr>crt := (\<lambda>i. if i < 23 * 80 then crt s (i + 80) else crt s i)\<rparr>;
                    pos = pos - 80
                in (pos, s\<lparr>crt := (\<lambda>i. if nat pos \<le> i \<and> i < 24 * 80 then 0 else crt s i)\<rparr>)
              else (pos, s))
           in Ok (s\<lparr>crt_pos := pos, crt := (crt s)(nat pos := 0x720)\<rparr>))"

definition consputc :: "int \<Rightarrow> 'z cons_st_scheme \<Rightarrow> 'z cons_st_scheme res" where
  "consputc c s =
     (if panicked s then Block
      else cgaputc c (s\<lparr>uart_out := uart_out s @ (if c = BACKSPACE then [8, 32, 8] else [c])\<rparr>))"

fun consputs :: "int list \<Rightarrow> 'z cons_st_scheme \<Rightarrow> 'z cons_st_scheme res" where
  "consputs [] s = Ok s"
| "consputs (c # cs) s = bnd (consputc c s) (consputs cs)"

definition cprintf :: "int list \<Rightarrow> carg list \<Rightarrow> 'z cons_st_scheme \<Rightarrow> 'z cons_st_scheme res" where
  "cprintf fmt args s =
     (let locking = cons_locking s in
      bnd (if locking then acquire Cons_lock s else Ok s) (\<lambda>s.
        case cprintf_chars fmt args of None \<Rightarrow> Panic ''missing argument''
        | Some cs \<Rightarrow> bnd (consputs cs s) (\<lambda>s. if locking then release Cons_lock s else Ok s)))"

section \<open>Input\<close>

function kill_line :: "'z cons_st_scheme \<Rightarrow> 'z cons_st_scheme res" where
  "kill_line s =
     (if in_e s \<noteq> in_w s \<and> in_buf s (unat ((in_e s - 1) mod INPUT_BUF)) \<noteq> 10 then
        bnd (consputc BACKSPACE (s\<lparr>in_e := in_e s - 1\<rparr>)) (\<lambda>t. kill_line (t\<lparr>in_e := in_e s - 1, in_w := in_w s\<rparr>))
      else Ok s)"
  by pat_completeness auto

termination
proof (relation "measure (\<lambda>s. unat (in_e s - in_w s))", goal_cases)
  case (2 s v)
  then have "in_e s - in_w s \<noteq> 0" by simp
  moreover have "in_e s - 1 - in_w s = (in_e s - in_w s) - 1" by simp
  ultimately have "unat (in_e s - 1 - in_w s) = unat (in_e s - in_w s) - 1" by (simp only: unat_dec if_False)
  then show ?case using \<open>in_e s - in_w s \<noteq> 0\<close> unat_gt_0 [of "in_e s - in_w s"] by simp
qed simp

declare kill_line.simps [simp del]

text \<open>One character of \<open>consoleintr\<close>; \<open>C('P')\<close> only asks for the process listing.\<close>

definition cons_char :: "int \<Rightarrow> 'z cons_st_scheme \<Rightarrow> 'z cons_st_scheme res" where
  "cons_char c s =
     (if c = 16 then Ok s
      else if c = 21 then kill_line s
      else if c = 8 \<or> c = 127 then
        (if in_e s \<noteq> in_w s then consputc BACKSPACE (s\<lparr>in_e := in_e s - 1\<rparr>) else Ok s)
      else if c \<noteq> 0 \<and> in_e s - in_r s < INPUT_BUF then
        let c = (if c = 13 then 10 else c);
            s = s\<lparr>in_buf := (in_buf s)(unat (in_e s mod INPUT_BUF) := word_of_int c)\<rparr>;
            s = s\<lparr>in_e := in_e s + 1\<rparr>
        in bnd (consputc c s) (\<lambda>s.
             if c = 10 \<or> c = 4 \<or> in_e s = in_r s + INPUT_BUF then wakeup Input_chan (s\<lparr>in_w := in_e s\<rparr>)
             else Ok s)
      else Ok s)"

fun cons_chars :: "int list \<Rightarrow> 'z cons_st_scheme \<Rightarrow> 'z cons_st_scheme res" where
  "cons_chars [] s = Ok s"
| "cons_chars (c # cs) s = (if c < 0 then Ok s else bnd (cons_char c s) (cons_chars cs))"

text \<open>\<open>consoleintr\<close> with the characters \<open>getc\<close> returns; the flag is \<open>doprocdump\<close>.\<close>

definition consoleintr :: "int list \<Rightarrow> 'z cons_st_scheme \<Rightarrow> (bool \<times> 'z cons_st_scheme) res" where
  "consoleintr cs s =
     bnd (acquire Cons_lock s) (\<lambda>s.
     bnd (cons_chars cs s) (\<lambda>s.
     bnd (release Cons_lock s) (\<lambda>s. Ok (16 \<in> set (takeWhile (\<lambda>c. \<not> c < 0) cs), s))))"

text \<open>
  The loop of \<open>consoleread\<close> with \<open>n\<close> bytes to go of a request for \<open>target\<close>; it returns \<open>None\<close> when
  the process was killed, the bytes stored and the \<open>n\<close> left otherwise.
\<close>

fun consoleread_loop :: "nat \<Rightarrow> nat \<Rightarrow> 'z cons_st_scheme \<Rightarrow> ((u8 list \<times> nat) option \<times> 'z cons_st_scheme) res" where
  "consoleread_loop target 0 s = Ok (Some ([], 0), s)"
| "consoleread_loop target (Suc n) s =
     (if in_r s = in_w s then
        bnd (curproc s) (\<lambda>p. if killed (procs s ! p) then Ok (None, s) else sleep Input_chan Cons_lock s)
      else
        let c = in_buf s (unat (in_r s mod INPUT_BUF)); s = s\<lparr>in_r := in_r s + 1\<rparr> in
        if c = 4 then Ok (Some ([], Suc n), if Suc n < target then s\<lparr>in_r := in_r s - 1\<rparr> else s)
        else if c = 10 then Ok (Some ([c], n), s)
        else bnd (consoleread_loop target n s) (\<lambda>(r, s). Ok (map_option (\<lambda>(cs, k). (c # cs, k)) r, s)))"

definition consoleread_body :: "nat \<Rightarrow> 'z cons_st_scheme \<Rightarrow> ((u8 list \<times> nat) option \<times> 'z cons_st_scheme) res" where
  "consoleread_body n s = with_lock Cons_lock (consoleread_loop n n) s"

definition consolewrite_body :: "u8 list \<Rightarrow> 'z cons_st_scheme \<Rightarrow> 'z cons_st_scheme res" where
  "consolewrite_body bs s =
     bnd (with_lock Cons_lock (\<lambda>s. bnd (consputs (map uint bs) s) (\<lambda>s. Ok ((), s))) s) (\<lambda>(_, s). Ok s)"

definition consoleinit :: "'z cons_st_scheme \<Rightarrow> 'z cons_st_scheme" where
  "consoleinit s = (initlock Cons_lock ''console'' s)\<lparr>dev_on := True, cons_locking := True\<rparr>"

section \<open>Printing numbers\<close>

text \<open>The value of a digit sequence, least significant digit first.\<close>

fun digits_value :: "nat \<Rightarrow> nat list \<Rightarrow> nat" where
  "digits_value base [] = 0"
| "digits_value base (d # ds) = d + base * digits_value base ds"

lemma digits_rev_value: "2 \<le> base \<Longrightarrow> digits_value base (digits_rev base x) = x"
proof (induction base x rule: digits_rev.induct)
  case (1 base x)
  then show ?case by (subst digits_rev.simps) (simp add: mult_div_mod_eq)
qed

lemma digits_rev_bound: "2 \<le> base \<Longrightarrow> d \<in> set (digits_rev base x) \<Longrightarrow> d < base"
proof (induction base x rule: digits_rev.induct)
  case (1 base x)
  then show ?case by (subst (asm) (2) digits_rev.simps) (auto split: if_splits)
qed

definition char_digit :: "int \<Rightarrow> nat" where
  "char_digit c = nat (if c < 58 then c - 48 else c - 87)"

lemma char_digit_char: "d < 16 \<Longrightarrow> char_digit (digit_char d) = d" "digit_char d \<noteq> 45"
  by (auto simp: char_digit_def digit_char_def)

section \<open>The screen and the input buffer\<close>

lemma consputc_input:
  "consputc c s = Ok t \<Longrightarrow> in_e t = in_e s \<and> in_w t = in_w s \<and> in_r t = in_r s \<and> in_buf t = in_buf s"
  by (auto simp: consputc_def cgaputc_def Let_def split: if_splits prod.splits)

text \<open>The loop of \<open>C('U')\<close> as it is written.\<close>

lemma kill_line_step:
  "kill_line s = (if in_e s \<noteq> in_w s \<and> in_buf s (unat ((in_e s - 1) mod INPUT_BUF)) \<noteq> 10
     then bnd (consputc BACKSPACE (s\<lparr>in_e := in_e s - 1\<rparr>)) kill_line else Ok s)"
proof -
  have "t\<lparr>in_e := in_e s - 1, in_w := in_w s\<rparr> = t" if "consputc BACKSPACE (s\<lparr>in_e := in_e s - 1\<rparr>) = Ok t" for t
    using consputc_input [OF that] by (cases t) simp
  then show ?thesis by (subst kill_line.simps) (auto intro: bnd_cong)
qed

text \<open>
  The indices of the input buffer: read, write and edit position in this order, at most a
  buffer apart, modulo wrap-around.
\<close>

definition input_inv :: "'z cons_st_scheme \<Rightarrow> bool" where
  "input_inv s \<longleftrightarrow> unat (in_w s - in_r s) \<le> unat (in_e s - in_r s) \<and> unat (in_e s - in_r s) \<le> 128"

lemma input_inv_back:
  assumes "input_inv s" and "in_e s \<noteq> in_w s"
  shows "input_inv (s\<lparr>in_e := in_e s - 1\<rparr>)"
proof -
  have ne: "unat (in_w s - in_r s) \<noteq> unat (in_e s - in_r s)"
  proof
    assume "unat (in_w s - in_r s) = unat (in_e s - in_r s)"
    then have "in_w s - in_r s = in_e s - in_r s" by (simp only: word_unat_eq_iff)
    then show False using assms(2) by simp
  qed
  have le: "unat (in_w s - in_r s) \<le> unat (in_e s - in_r s)" "unat (in_e s - in_r s) \<le> 128"
    using assms(1) by (simp_all add: input_inv_def)
  have "in_e s - in_r s \<noteq> 0"
  proof
    assume "in_e s - in_r s = 0"
    then show False using le(1) ne by simp
  qed
  then have "unat (in_e s - in_r s - 1) = unat (in_e s - in_r s) - 1" by (simp only: unat_dec if_False)
  moreover have "in_e s - 1 - in_r s = in_e s - in_r s - 1" by simp
  moreover have "input_inv (s\<lparr>in_e := e\<rparr>) \<longleftrightarrow> unat (in_w s - in_r s) \<le> unat (e - in_r s) \<and> unat (e - in_r s) \<le> 128" for e
    by (simp add: input_inv_def)
  ultimately have "input_inv (s\<lparr>in_e := in_e s - 1\<rparr>) \<longleftrightarrow>
      unat (in_w s - in_r s) \<le> unat (in_e s - in_r s) - 1 \<and> unat (in_e s - in_r s) - 1 \<le> 128" by (simp only:)
  then show ?thesis using ne le by linarith
qed

lemma input_inv_cong:
  "in_e t = in_e s \<Longrightarrow> in_w t = in_w s \<Longrightarrow> in_r t = in_r s \<Longrightarrow> input_inv t = input_inv s"
  by (simp add: input_inv_def)

lemma kill_line_inv: "input_inv s \<Longrightarrow> kill_line s = Ok t \<Longrightarrow> input_inv t \<and> in_r t = in_r s \<and> in_w t = in_w s"
proof (induction s rule: kill_line.induct)
  case (1 s)
  show ?case
  proof (cases "in_e s \<noteq> in_w s \<and> in_buf s (unat ((in_e s - 1) mod INPUT_BUF)) \<noteq> 10")
    case True
    with 1 obtain u where u: "consputc BACKSPACE (s\<lparr>in_e := in_e s - 1\<rparr>) = Ok u" "kill_line (u\<lparr>in_e := in_e s - 1, in_w := in_w s\<rparr>) = Ok t"
      by (subst (asm) (2) kill_line.simps) auto
    have "input_inv (u\<lparr>in_e := in_e s - 1, in_w := in_w s\<rparr>)"
      using input_inv_back [OF 1(2)] True consputc_input [OF u(1)] by (simp add: input_inv_def)
    with 1(1) [OF True u(1) _ u(2)] show ?thesis using consputc_input [OF u(1)] by simp
  next
    case False
    have "kill_line s = Ok s" unfolding kill_line.simps [of s] if_not_P [OF False] ..
    then show ?thesis using 1 by simp
  qed
qed

text \<open>A console that can print: not frozen by a panic, cursor on the screen.\<close>

definition screen_ok :: "'z cons_st_scheme \<Rightarrow> bool" where
  "screen_ok s \<longleftrightarrow> \<not> panicked s \<and> 0 \<le> crt_pos s \<and> crt_pos s < 24 * 80"

lemma cgaputc_ok:
  assumes "0 \<le> crt_pos s" and "crt_pos s < 24 * 80"
  shows "\<exists>t. cgaputc c s = Ok t \<and> 0 \<le> crt_pos t \<and> crt_pos t < 24 * 80 \<and> (\<forall>i. 25 * 80 \<le> i \<longrightarrow> crt t i = crt s i)
    \<and> t = s\<lparr>crt := crt t, crt_pos := crt_pos t\<rparr>"
proof -
  have nl: "0 < 80 - crt_pos s mod 80" "80 - crt_pos s mod 80 \<le> 80" by auto
  consider "c = 10" | "c = BACKSPACE" | "c \<noteq> 10" "c \<noteq> BACKSPACE" by blast
  then show ?thesis
  proof cases
    case 1
    define pos where "pos = crt_pos s + (80 - crt_pos s mod 80)"
    have e: "80 * (crt_pos s div 80) + crt_pos s mod 80 = crt_pos s" by simp
    have "crt_pos s div 80 \<le> 23"
    proof (rule ccontr)
      assume "\<not> crt_pos s div 80 \<le> 23"
      then have "80 * 24 \<le> 80 * (crt_pos s div 80)" by simp
      then show False using e assms(2) nl(2) by linarith
    qed
    then have p: "0 < pos" "pos \<le> 24 * 80" using assms nl e unfolding pos_def by linarith+
    then show ?thesis using 1 assms by (cases "pos div 80 \<ge> 24") (auto simp: cgaputc_def Let_def simp flip: pos_def)
  next
    case 2
    then show ?thesis using assms by (auto simp: cgaputc_def Let_def)
  next
    case 3
    have "crt_pos s + 1 \<le> 24 * 80" using assms by simp
    then show ?thesis using 3 assms by (cases "(crt_pos s + 1) div 80 \<ge> 24") (auto simp: cgaputc_def Let_def)
  qed
qed

lemma consputc_ok:
  assumes "screen_ok s"
  shows "\<exists>t. consputc c s = Ok t \<and> screen_ok t \<and> cpu_ok t = cpu_ok s \<and> lock_free l t = lock_free l s"
proof -
  let ?u = "s\<lparr>uart_out := uart_out s @ (if c = BACKSPACE then [8, 32, 8] else [c])\<rparr>"
  obtain t where t: "cgaputc c ?u = Ok t" "0 \<le> crt_pos t" "crt_pos t < 24 * 80" "t = ?u\<lparr>crt := crt t, crt_pos := crt_pos t\<rparr>"
    using cgaputc_ok [of ?u c] assms by (auto simp: screen_ok_def)
  have "panicked t = panicked s" "cpu_ok t = cpu_ok s" "lock_free l t = lock_free l s"
    by (subst t(4), simp add: cpu_ok_def cur_def lock_free_def)+
  then show ?thesis using t assms by (auto simp: consputc_def screen_ok_def)
qed

section \<open>Handling a keyboard interrupt\<close>

lemma mod128_apart:
  fixes x y :: u32
  assumes "unat (x - y) < 128" and "x \<noteq> y"
  shows "unat (x mod INPUT_BUF) \<noteq> unat (y mod INPUT_BUF)"
proof
  define d where "d = x - y"
  have "x = y + d" by (simp add: d_def)
  then have "unat x = (unat y + unat d) mod 2 ^ 32" by (simp add: unat_word_ariths)
  then have x: "unat x mod 128 = (unat y + unat d) mod 128" by (simp add: mod_mod_cancel)
  assume "unat (x mod INPUT_BUF) = unat (y mod INPUT_BUF)"
  then have "(unat y + unat d) mod 128 = unat y mod 128" using x by (simp add: unat_mod_distrib)
  then have "128 dvd unat d" by (simp add: mod_eq_dvd_iff_nat)
  then have "unat d = 0" using assms(1) by (auto simp: d_def dest: dvd_imp_le)
  then show False using assms(2) by (simp add: d_def unat_eq_zero)
qed

text \<open>
  What one character leaves true: the indices stay in order, nothing a reader may already
  take is overwritten, and the console can still print.
\<close>

definition cons_step :: "'z cons_st_scheme \<Rightarrow> 'z cons_st_scheme \<Rightarrow> bool" where
  "cons_step s t \<longleftrightarrow> input_inv t \<and> screen_ok t \<and> cpu_ok t = cpu_ok s \<and> (\<forall>l. lock_free l t = lock_free l s) \<and> in_r t = in_r s
     \<and> unat (in_w s - in_r s) \<le> unat (in_w t - in_r s)
     \<and> (\<forall>k < unat (in_w s - in_r s). in_buf t (unat ((in_r s + of_nat k) mod INPUT_BUF)) = in_buf s (unat ((in_r s + of_nat k) mod INPUT_BUF)))"

lemma cons_step_refl: "input_inv s \<Longrightarrow> screen_ok s \<Longrightarrow> cons_step s s"
  by (simp add: cons_step_def)

lemma cons_step_trans: "cons_step s t \<Longrightarrow> cons_step t u \<Longrightarrow> cons_step s u"
proof -
  assume A: "cons_step s t" and B: "cons_step t u"
  have "in_r t = in_r s" "unat (in_w s - in_r s) \<le> unat (in_w t - in_r s)" using A unfolding cons_step_def by blast+
  then show ?thesis using A B unfolding cons_step_def by auto
qed

lemma consputc_step:
  assumes "input_inv s" and "screen_ok s"
  shows "\<exists>t. consputc c s = Ok t \<and> cons_step s t \<and> in_e t = in_e s \<and> in_w t = in_w s \<and> in_buf t = in_buf s"
proof -
  obtain t where t: "consputc c s = Ok t" "screen_ok t" "cpu_ok t = cpu_ok s" using consputc_ok [OF assms(2)] by blast
  moreover have "lock_free l t = lock_free l s" for l using consputc_ok [OF assms(2), of c l] t(1) by auto
  ultimately show ?thesis using assms(1) consputc_input [OF t(1)] by (auto simp: cons_step_def input_inv_def)
qed

lemma backspace_step:
  assumes "input_inv s" and "screen_ok s" and "in_e s \<noteq> in_w s"
  shows "\<exists>t. consputc BACKSPACE (s\<lparr>in_e := in_e s - 1\<rparr>) = Ok t \<and> cons_step s t \<and> in_e t = in_e s - 1 \<and> in_w t = in_w s"
proof -
  let ?u = "s\<lparr>in_e := in_e s - 1\<rparr>"
  have "screen_ok ?u" using assms(2) by (simp add: screen_ok_def)
  from consputc_step [OF input_inv_back [OF assms(1,3)] this, of BACKSPACE] show ?thesis
    by (auto simp: cons_step_def cpu_ok_def cur_def lock_free_def)
qed

lemma kill_line_ok: "input_inv s \<Longrightarrow> screen_ok s \<Longrightarrow> \<exists>t. kill_line s = Ok t \<and> cons_step s t"
proof (induction "unat (in_e s - in_w s)" arbitrary: s rule: less_induct)
  case less
  show ?case
  proof (cases "in_e s \<noteq> in_w s \<and> in_buf s (unat ((in_e s - 1) mod INPUT_BUF)) \<noteq> 10")
    case True
    obtain t where t: "consputc BACKSPACE (s\<lparr>in_e := in_e s - 1\<rparr>) = Ok t" "cons_step s t" "in_e t = in_e s - 1" "in_w t = in_w s"
      using backspace_step [OF less.prems] True by blast
    have "in_e s - in_w s \<noteq> 0" using True by simp
    then have "unat (in_e t - in_w t) < unat (in_e s - in_w s)"
      using unat_dec [of "in_e s - in_w s"] unat_gt_0 [of "in_e s - in_w s"] t(3,4) by (simp add: diff_right_commute)
    moreover have "input_inv t" "screen_ok t" using t(2) by (simp_all add: cons_step_def)
    ultimately obtain u where "kill_line t = Ok u" "cons_step t u" using less.hyps by blast
    then show ?thesis using True t(1) cons_step_trans [OF t(2)] by (subst kill_line_step) auto
  next
    case False
    have "kill_line s = Ok s" unfolding kill_line_step [of s] if_not_P [OF False] ..
    then show ?thesis using cons_step_refl [OF less.prems] by blast
  qed
qed

lemma wakeup1_cons [simp]:
  "in_e (wakeup1 c s) = in_e s" "in_w (wakeup1 c s) = in_w s" "in_r (wakeup1 c s) = in_r s" "in_buf (wakeup1 c s) = in_buf s"
  "screen_ok (wakeup1 c s) = screen_ok s" "cpu_ok (wakeup1 c s) = cpu_ok s" "lock_free l (wakeup1 c s) = lock_free l s"
  by (simp_all add: wakeup1_def screen_ok_def cpu_ok_def cur_def lock_free_def)

lemma store_char_step:
  fixes s :: "'z cons_st_scheme" and v :: u8 and c :: int
  assumes inv: "input_inv s" "screen_ok s" and cpu: "cpu_ok s" "lock_free Ptable_lock s" and room: "in_e s - in_r s < INPUT_BUF"
  defines "u \<equiv> s\<lparr>in_buf := (in_buf s)(unat (in_e s mod INPUT_BUF) := v), in_e := in_e s + 1\<rparr>"
  shows "\<exists>t. bnd (consputc c u) (\<lambda>s. if c = 10 \<or> c = 4 \<or> in_e s = in_r s + INPUT_BUF
     then wakeup Input_chan (s\<lparr>in_w := in_e s\<rparr>) else Ok s) = Ok t \<and> cons_step s t"
proof -
  have lt: "unat (in_e s - in_r s) < 128" using room by (simp add: word_less_nat_alt)
  have e: "in_e u - in_r u = in_e s - in_r s + 1" by (simp add: u_def)
  have eu: "unat (in_e u - in_r u) = unat (in_e s - in_r s) + 1"
    unfolding e using unat_plus_of_nat [of "in_e s - in_r s" 1] lt by simp
  have inv_u: "input_inv u" using inv(1) eu lt by (simp add: input_inv_def u_def)
  have keep: "in_buf u (unat ((in_r s + of_nat k) mod INPUT_BUF)) = in_buf s (unat ((in_r s + of_nat k) mod INPUT_BUF))"
    if "k < unat (in_w s - in_r s)" for k
  proof -
    have k: "k < unat (in_e s - in_r s)" using that inv(1) by (simp add: input_inv_def)
    have "unat (in_e s - in_r s - of_nat k) = unat (in_e s - in_r s) - k"
      using k lt by (simp add: unat_sub word_le_nat_alt unat_of_nat take_bit_eq_mod)
    moreover have "in_e s - (in_r s + of_nat k) = in_e s - in_r s - of_nat k" by (simp add: diff_diff_eq)
    ultimately have d: "unat (in_e s - (in_r s + of_nat k)) = unat (in_e s - in_r s) - k" by (simp only:)
    then have "unat (in_e s - (in_r s + of_nat k)) \<noteq> 0" using k by simp
    then have "in_e s \<noteq> in_r s + of_nat k" by auto
    then have "unat (in_e s mod INPUT_BUF) \<noteq> unat ((in_r s + of_nat k) mod INPUT_BUF)"
      using d lt by (intro mod128_apart) auto
    then show ?thesis by (simp add: u_def)
  qed
  have scr: "screen_ok u" using inv(2) by (simp add: screen_ok_def u_def)
  obtain t where t: "consputc c u = Ok t" "cons_step u t" "in_e t = in_e u" "in_w t = in_w u" "in_buf t = in_buf u"
    using consputc_step [OF inv_u scr] by blast
  have eqs: "in_r u = in_r s" "in_w u = in_w s" "cpu_ok u = cpu_ok s" "\<And>l. lock_free l u = lock_free l s"
    by (simp_all add: u_def cpu_ok_def cur_def lock_free_def)
  have su: "cons_step s t" using t(2) eqs keep unfolding cons_step_def t(5) by simp
  have ct: "cpu_ok t" "lock_free Ptable_lock t" using t(2) eqs cpu by (simp_all add: cons_step_def)
  let ?w = "t\<lparr>in_w := in_e t\<rparr>"
  have "cpu_ok ?w" "lock_free Ptable_lock ?w" using ct by (simp_all add: cpu_ok_def cur_def lock_free_def)
  then have w: "wakeup Input_chan ?w = Ok (wakeup1 Input_chan ?w)" by (rule wakeup_eq)
  have "input_inv ?w" "unat (in_w s - in_r s) \<le> unat (in_w ?w - in_r s)"
  proof -
    have "in_r t = in_r u" using t(2) by (simp add: cons_step_def)
    then show "input_inv ?w" using inv_u t(3) by (simp add: input_inv_def)
    show "unat (in_w s - in_r s) \<le> unat (in_w ?w - in_r s)"
      using inv_u t(3) \<open>in_r t = in_r u\<close> eqs(1,2) by (simp add: input_inv_def)
  qed
  moreover have "screen_ok ?w = screen_ok t" "cpu_ok ?w = cpu_ok t" "\<And>l. lock_free l ?w = lock_free l t"
    by (simp_all add: screen_ok_def cpu_ok_def cur_def lock_free_def)
  ultimately have "cons_step s ?w" using su unfolding cons_step_def by simp
  then have "cons_step s (wakeup1 Input_chan ?w)" unfolding cons_step_def wakeup1_cons input_inv_cong [OF wakeup1_cons(1-3)] .
  then show ?thesis using t(1) su w by (cases "c = 10 \<or> c = 4 \<or> in_e t = in_r t + INPUT_BUF") auto
qed


lemma cons_char_step:
  assumes "input_inv s" "screen_ok s" "cpu_ok s" "lock_free Ptable_lock s"
  shows "\<exists>t. cons_char c s = Ok t \<and> cons_step s t"
proof -
  consider "c = 16" | "c = 21" | "c = 8 \<or> c = 127" | "c \<notin> {16, 21, 8, 127}" "c \<noteq> 0 \<and> in_e s - in_r s < INPUT_BUF"
    | "c \<notin> {16, 21, 8, 127}" "\<not> (c \<noteq> 0 \<and> in_e s - in_r s < INPUT_BUF)" by blast
  then show ?thesis
  proof cases
    case 2
    then show ?thesis using kill_line_ok [OF assms(1,2)] by (simp add: cons_char_def)
  next
    case 3
    then show ?thesis
      using backspace_step [OF assms(1,2)] cons_step_refl [OF assms(1,2)]
      by (cases "in_e s = in_w s") (auto simp: cons_char_def)
  next
    case 4
    then show ?thesis
      using store_char_step [OF assms conjunct2 [OF 4(2)], of "if c = 13 then 10 else c" "word_of_int (if c = 13 then 10 else c)"]
      by (simp add: cons_char_def Let_def)
  qed (use cons_step_refl [OF assms(1,2)] in \<open>auto simp: cons_char_def\<close>)
qed

lemma cons_chars_step:
  "input_inv s \<Longrightarrow> screen_ok s \<Longrightarrow> cpu_ok s \<Longrightarrow> lock_free Ptable_lock s \<Longrightarrow> \<exists>t. cons_chars cs s = Ok t \<and> cons_step s t"
proof (induction cs arbitrary: s)
  case (Cons c cs)
  obtain t where t: "cons_char c s = Ok t" "cons_step s t" using cons_char_step [OF Cons.prems] by blast
  then have "input_inv t" "screen_ok t" "cpu_ok t" "lock_free Ptable_lock t"
    using Cons.prems(3,4) by (simp_all add: cons_step_def)
  then obtain u where "cons_chars cs t = Ok u" "cons_step t u" using Cons.IH by blast
  then show ?case using t cons_step_trans [OF t(2)] cons_step_refl [OF Cons.prems(1,2)] by auto
qed (simp add: cons_step_refl)

section \<open>Properties\<close>

text \<open>
  C34. Keyboard input: whatever characters arrive, the interrupt handler terminates without a
  panic, keeps the read, write and edit indices of the 128-byte ring in order across
  wrap-around, and never changes or takes back a byte that a reader may already consume.
\<close>

theorem console_input_ring_safe:
  assumes "input_inv s" "screen_ok s" "cpu_ok s" "lock_free Ptable_lock s"
  shows "\<exists>t. cons_chars cs s = Ok t \<and> input_inv t \<and> screen_ok t \<and> in_r t = in_r s
    \<and> unat (in_w s - in_r s) \<le> unat (in_w t - in_r s)
    \<and> (\<forall>k < unat (in_w s - in_r s).
         in_buf t (unat ((in_r s + of_nat k) mod INPUT_BUF)) = in_buf s (unat ((in_r s + of_nat k) mod INPUT_BUF)))"
  using cons_chars_step [OF assms, of cs] unfolding cons_step_def by blast

definition cons0 :: cons_st where
  "cons0 = slock_st.extend (ptable_st.extend ptable0 \<lparr>sleeplocks = (\<lambda>_. \<lparr>slocked = False, slname = [], slpid = 0\<rparr>)\<rparr>)
     \<lparr>cons_locking = True, panicked = False, uart_out = [], crt = (\<lambda>_. 0), crt_pos = 0, in_buf = (\<lambda>_. 0),
      in_r = 0, in_w = 0, in_e = 0, dev_on = True\<rparr>"

lemma cons0_ok: "input_inv cons0" "screen_ok cons0" "cpu_ok cons0" "lock_free l cons0"
  by (simp_all add: cons0_def ptable0_def vm0_def kmem0_def kst0_def input_inv_def screen_ok_def cpu_ok_def cur_def lock_free_def
      kst.defs kmem_st.defs ptable_st.defs slock_st.defs cons_st.defs)

theorem console_input_ring_safe_witness:
  "input_inv cons0 \<and> (\<exists>t. cons_chars [108, 115, 10, 21, 8] cons0 = Ok t \<and> input_inv t \<and> screen_ok t)"
  using console_input_ring_safe [OF cons0_ok(1,2,3) cons0_ok(4)] cons0_ok(1) by blast

text \<open>
  C35. The cursor of the screen: printing any character, newline or backspace from a cursor
  inside the 24 lines terminates, never trips the bounds panic, leaves the cursor inside
  the 24 lines and writes no cell outside the 25 by 80 screen.
\<close>

theorem cga_cursor_stays_on_screen:
  assumes "screen_ok s"
  shows "\<exists>t. consputc c s = Ok t \<and> screen_ok t \<and> (\<forall>i. 25 * 80 \<le> i \<longrightarrow> crt t i = crt s i)
    \<and> uart_out t = uart_out s @ (if c = BACKSPACE then [8, 32, 8] else [c])"
proof -
  let ?u = "s\<lparr>uart_out := uart_out s @ (if c = BACKSPACE then [8, 32, 8] else [c])\<rparr>"
  obtain t where t: "cgaputc c ?u = Ok t" "0 \<le> crt_pos t" "crt_pos t < 24 * 80"
    "\<forall>i. 25 * 80 \<le> i \<longrightarrow> crt t i = crt ?u i" "t = ?u\<lparr>crt := crt t, crt_pos := crt_pos t\<rparr>"
    using cgaputc_ok [of ?u c] assms by (auto simp: screen_ok_def)
  have "panicked t = panicked s" "uart_out t = uart_out s @ (if c = BACKSPACE then [8, 32, 8] else [c])"
    by (subst t(5), simp)+
  then show ?thesis using t(1-4) assms by (auto simp: consputc_def screen_ok_def)
qed

theorem cga_cursor_stays_on_screen_witness:
  "screen_ok (cons0\<lparr>crt_pos := 1919\<rparr>) \<and> (\<exists>t. consputc 65 (cons0\<lparr>crt_pos := 1919\<rparr>) = Ok t \<and> screen_ok t)"
proof -
  have "screen_ok (cons0\<lparr>crt_pos := 1919\<rparr>)" using cons0_ok(2) by (simp add: screen_ok_def)
  with cga_cursor_stays_on_screen [OF this] show ?thesis by blast
qed

definition read_number :: "nat \<Rightarrow> int list \<Rightarrow> int" where
  "read_number base cs =
     (if cs \<noteq> [] \<and> hd cs = 45 then - int (digits_value base (rev (map char_digit (tl cs))))
      else int (digits_value base (rev (map char_digit cs))))"

lemma read_number_digits:
  assumes "base \<in> {10, 16}"
  shows "read_number base (rev (map digit_char (digits_rev base x))) = int x"
    and "read_number base (rev (map digit_char (digits_rev base x) @ [45])) = - int x"
proof -
  have b: "2 \<le> base" "base \<le> 16" using assms by auto
  have "map (char_digit \<circ> digit_char) (digits_rev base x) = digits_rev base x"
  proof (rule map_idI)
    fix d assume "d \<in> set (digits_rev base x)"
    then have "d < 16" using digits_rev_bound [OF b(1)] b(2) less_le_trans by blast
    then show "(char_digit \<circ> digit_char) d = d" by (simp add: char_digit_char(1))
  qed
  then have m: "map char_digit (map digit_char (digits_rev base x)) = digits_rev base x" by simp
  have ne: "digits_rev base x \<noteq> []" by (subst digits_rev.simps) simp
  have "hd (rev (map digit_char (digits_rev base x))) \<noteq> 45" using char_digit_char(2) ne by (auto simp: hd_rev last_map)
  then show "read_number base (rev (map digit_char (digits_rev base x))) = int x"
    using m digits_rev_value [OF b(1)] by (simp add: read_number_def rev_map)
  show "read_number base (rev (map digit_char (digits_rev base x) @ [45])) = - int x"
    using m digits_rev_value [OF b(1)] by (simp add: read_number_def rev_map)
qed

lemma unat_word_of_int32: "0 \<le> m \<Longrightarrow> m < 4294967296 \<Longrightarrow> unat (word_of_int m :: u32) = nat m"
  by (simp add: unsigned_of_int take_bit_int_eq_self)

text \<open>
  \<open>printint\<close> prints what it is given: the characters it emits, read back in the same base
  with a leading minus sign, are the 32-bit number, including the most negative one; without
  the sign flag they are its unsigned value.
\<close>

theorem printint_reads_back:
  assumes "- 2147483648 \<le> n" and "n < 2147483648"
  shows "read_number 10 (printint n 10 True) = n \<and> read_number 16 (printint n 16 False) = uint (word_of_int n :: u32)"
proof
  have "unat (word_of_int (- n) :: u32) = nat (- n)" if "n < 0"
    using that assms(1) by (intro unat_word_of_int32) auto
  moreover have "unat (word_of_int n :: u32) = nat n" if "\<not> n < 0"
    using that assms(2) by (intro unat_word_of_int32) auto
  ultimately show "read_number 10 (printint n 10 True) = n"
    using read_number_digits [of 10] by (auto simp: printint_def Let_def)
  show "read_number 16 (printint n 16 False) = uint (word_of_int n :: u32)"
    using read_number_digits(1) [of 16] by (simp add: printint_def Let_def)
qed

theorem printint_reads_back_witness:
  "read_number 10 (printint (- 2147483648) 10 True) = - 2147483648"
  using printint_reads_back [of "- 2147483648"] by simp

end
