(* ===== verification/Bio.thy ===== *)
theory Bio
  imports Console
begin

text \<open>
  The buffer cache, \<open>xv6-public-master/bio.c\<close>, over the block driver of
  \<open>xv6-public-master/memide.c\<close> (the driver the kernel image with a memory disk links; its
  \<open>iderw\<close> has the contract of the one in \<open>ide.c\<close> and completes at once).

  \<open>bufs i\<close> is \<open>bcache.buf[i]\<close> for \<open>i < NBUF\<close>, and \<open>bufs HEAD\<close> is \<open>bcache.head\<close>; \<open>bprev\<close> and \<open>bnext\<close>
  hold indices for pointers. The two flag bits are two booleans. A block is a function on
  byte offsets, of which the first 512 are its content. \<open>dwrites\<close> is the history of the block
  writes the driver has done, oldest first.
\<close>

section \<open>State\<close>

type_synonym block = "nat \<Rightarrow> u8"

record buf =
  bvalid :: bool
  bdirty :: bool
  bdev :: u32
  blockno :: u32
  brefcnt :: u32
  bprev :: nat
  bnext :: nat
  bdata :: block

record bio_st = cons_st +
  bufs :: "nat \<Rightarrow> buf"
  disk :: "u32 \<Rightarrow> block"
  disksize :: u32
  dwrites :: "(u32 \<times> block) list"

abbreviation NBUF :: nat where "NBUF \<equiv> 30"
abbreviation HEAD :: nat where "HEAD \<equiv> 30"

definition upd_buf :: "nat \<Rightarrow> (buf \<Rightarrow> buf) \<Rightarrow> 'z bio_st_scheme \<Rightarrow> 'z bio_st_scheme" where
  "upd_buf i f s = s\<lparr>bufs := (bufs s)(i := f (bufs s i))\<rparr>"

section \<open>The block driver\<close>

text \<open>\<open>img\<close> and \<open>nbytes\<close> are the file system image linked into the kernel.\<close>

definition ideinit :: "(u32 \<Rightarrow> block) \<Rightarrow> u32 \<Rightarrow> 'z bio_st_scheme \<Rightarrow> 'z bio_st_scheme" where
  "ideinit img nbytes s = s\<lparr>disk := img, disksize := nbytes div 512\<rparr>"

definition iderw :: "nat \<Rightarrow> 'z bio_st_scheme \<Rightarrow> 'z bio_st_scheme res" where
  "iderw i s =
     bnd (holdingsleep (SL_buf i) s) (\<lambda>(h, s).
       let b = bufs s i in
       if \<not> h then Panic ''iderw: buf not locked''
       else if bvalid b \<and> \<not> bdirty b then Panic ''iderw: nothing to do''
       else if bdev b \<noteq> 1 then Panic ''iderw: request not for disk 1''
       else if disksize s \<le> blockno b then Panic ''iderw: block out of range''
       else
         let s = (if bdirty b
                  then (upd_buf i (\<lambda>b. b\<lparr>bdirty := False\<rparr>) s)\<lparr>disk := (disk s)(blockno b := bdata b),
                         dwrites := dwrites s @ [(blockno b, bdata b)]\<rparr>
                  else upd_buf i (\<lambda>b'. b'\<lparr>bdata := disk s (blockno b)\<rparr>) s)
         in Ok (upd_buf i (\<lambda>b. b\<lparr>bvalid := True\<rparr>) s))"

section \<open>The buffer cache\<close>

text \<open>Inserting a buffer after the head of the list, as in \<open>binit\<close> and \<open>brelse\<close>.\<close>

definition push_front :: "nat \<Rightarrow> 'z bio_st_scheme \<Rightarrow> 'z bio_st_scheme" where
  "push_front i s =
     (let s = upd_buf i (\<lambda>b. b\<lparr>bnext := bnext (bufs s HEAD)\<rparr>) s;
          s = upd_buf i (\<lambda>b. b\<lparr>bprev := HEAD\<rparr>) s;
          s = upd_buf (bnext (bufs s HEAD)) (\<lambda>b. b\<lparr>bprev := i\<rparr>) s
      in upd_buf HEAD (\<lambda>b. b\<lparr>bnext := i\<rparr>) s)"

primrec binit_loop :: "nat \<Rightarrow> 'z bio_st_scheme \<Rightarrow> 'z bio_st_scheme" where
  "binit_loop 0 s = s"
| "binit_loop (Suc n) s = push_front n (initsleeplock (SL_buf n) ''buffer'' (binit_loop n s))"

definition binit :: "'z bio_st_scheme \<Rightarrow> 'z bio_st_scheme" where
  "binit s =
     (let s = initlock Bcache_lock ''bcache'' s;
          s = upd_buf HEAD (\<lambda>b. b\<lparr>bprev := HEAD\<rparr>) s;
          s = upd_buf HEAD (\<lambda>b. b\<lparr>bnext := HEAD\<rparr>) s
      in binit_loop NBUF s)"

text \<open>
  Walking the list from buffer \<open>b\<close> along the links \<open>lnk\<close> until \<open>P\<close> holds or the head is met.
  The list has \<open>NBUF\<close> buffers, so \<open>NBUF + 1\<close> steps are enough (\<open>scan_next\<close> and \<open>scan_prev\<close> below).
\<close>

primrec scan :: "(buf \<Rightarrow> nat) \<Rightarrow> (buf \<Rightarrow> bool) \<Rightarrow> nat \<Rightarrow> nat \<Rightarrow> (nat \<Rightarrow> buf) \<Rightarrow> nat option res" where
  "scan lnk P 0 b bf = Block"
| "scan lnk P (Suc n) b bf =
     (if b = HEAD then Ok None else if P (bf b) then Ok (Some b) else scan lnk P n (lnk (bf b)) bf)"

definition bget :: "u32 \<Rightarrow> u32 \<Rightarrow> 'z bio_st_scheme \<Rightarrow> (nat \<times> 'z bio_st_scheme) res" where
  "bget dev bno s =
     bnd (acquire Bcache_lock s) (\<lambda>s.
     bnd (scan bnext (\<lambda>b. bdev b = dev \<and> blockno b = bno) (NBUF + 1) (bnext (bufs s HEAD)) (bufs s)) (\<lambda>hit.
       case hit of
         Some i \<Rightarrow>
           let s = upd_buf i (\<lambda>b. b\<lparr>brefcnt := brefcnt b + 1\<rparr>) s in
           bnd (release Bcache_lock s) (\<lambda>s. bnd (acquiresleep (SL_buf i) s) (\<lambda>s. Ok (i, s)))
       | None \<Rightarrow>
           bnd (scan bprev (\<lambda>b. brefcnt b = 0 \<and> \<not> bdirty b) (NBUF + 1) (bprev (bufs s HEAD)) (bufs s)) (\<lambda>free.
             case free of
               Some i \<Rightarrow>
                 let s = upd_buf i (\<lambda>b. b\<lparr>bdev := dev, blockno := bno, bvalid := False, bdirty := False, brefcnt := 1\<rparr>) s in
                 bnd (release Bcache_lock s) (\<lambda>s. bnd (acquiresleep (SL_buf i) s) (\<lambda>s. Ok (i, s)))
             | None \<Rightarrow> Panic ''bget: no buffers'')))"

definition bread :: "u32 \<Rightarrow> u32 \<Rightarrow> 'z bio_st_scheme \<Rightarrow> (nat \<times> 'z bio_st_scheme) res" where
  "bread dev bno s =
     bnd (bget dev bno s) (\<lambda>(i, s).
       if \<not> bvalid (bufs s i) then bnd (iderw i s) (\<lambda>s. Ok (i, s)) else Ok (i, s))"

definition bwrite :: "nat \<Rightarrow> 'z bio_st_scheme \<Rightarrow> 'z bio_st_scheme res" where
  "bwrite i s =
     bnd (holdingsleep (SL_buf i) s) (\<lambda>(h, s).
       if \<not> h then Panic ''bwrite''
       else iderw i (upd_buf i (\<lambda>b. b\<lparr>bdirty := True\<rparr>) s))"

definition brelse :: "nat \<Rightarrow> 'z bio_st_scheme \<Rightarrow> 'z bio_st_scheme res" where
  "brelse i s =
     bnd (holdingsleep (SL_buf i) s) (\<lambda>(h, s).
       if \<not> h then Panic ''brelse''
       else
         bnd (releasesleep (SL_buf i) s) (\<lambda>s.
         bnd (acquire Bcache_lock s) (\<lambda>s.
           let s = upd_buf i (\<lambda>b. b\<lparr>brefcnt := brefcnt b - 1\<rparr>) s in
           if brefcnt (bufs s i) = 0 then
             let s = upd_buf (bnext (bufs s i)) (\<lambda>b. b\<lparr>bprev := bprev (bufs s i)\<rparr>) s;
                 s = upd_buf (bprev (bufs s i)) (\<lambda>b. b\<lparr>bnext := bnext (bufs s i)\<rparr>) s
             in release Bcache_lock (push_front i s)
           else release Bcache_lock s)))"

section \<open>The list of buffers\<close>

text \<open>
  \<open>lseg bf a xs z\<close>: from \<open>a\<close>, the links lead through \<open>xs\<close> to \<open>z\<close>, forwards and back. \<open>dll bf xs\<close>: the
  circular list through the head holds the buffers \<open>xs\<close>, the most recently used one first.
\<close>

primrec lseg :: "(nat \<Rightarrow> buf) \<Rightarrow> nat \<Rightarrow> nat list \<Rightarrow> nat \<Rightarrow> bool" where
  "lseg bf a [] z \<longleftrightarrow> bnext (bf a) = z \<and> bprev (bf z) = a"
| "lseg bf a (x # xs) z \<longleftrightarrow> bnext (bf a) = x \<and> bprev (bf x) = a \<and> lseg bf x xs z"

definition dll :: "(nat \<Rightarrow> buf) \<Rightarrow> nat list \<Rightarrow> bool" where
  "dll bf xs \<longleftrightarrow> lseg bf HEAD xs HEAD \<and> distinct xs \<and> set xs = {..<NBUF}"

lemma lseg_append: "lseg bf a (xs @ y # ys) z \<longleftrightarrow> lseg bf a xs y \<and> lseg bf y ys z"
  by (induction xs arbitrary: a) auto

lemma lseg_last: "lseg bf a xs z \<Longrightarrow> bnext (bf (last (a # xs))) = z \<and> bprev (bf z) = last (a # xs)"
  by (induction xs arbitrary: a) auto

lemma lseg_retarget:
  "lseg bf a xs z \<Longrightarrow> \<forall>j \<in> set (butlast (a # xs)). bnext (bf' j) = bnext (bf j) \<Longrightarrow> \<forall>j \<in> set xs. bprev (bf' j) = bprev (bf j)
   \<Longrightarrow> bnext (bf' (last (a # xs))) = z' \<Longrightarrow> bprev (bf' z') = last (a # xs) \<Longrightarrow> lseg bf' a xs z'"
  by (induction xs arbitrary: a) auto

lemma lseg_cong:
  "lseg bf a xs z \<Longrightarrow> \<forall>j \<in> set (a # xs). bnext (bf' j) = bnext (bf j) \<Longrightarrow> \<forall>j \<in> set (xs @ [z]). bprev (bf' j) = bprev (bf j)
   \<Longrightarrow> lseg bf' a xs z"
  by (induction xs arbitrary: a) auto

lemma scan_next:
  "lseg bf a xs HEAD \<Longrightarrow> HEAD \<notin> set xs \<Longrightarrow> length xs < n \<Longrightarrow>
   scan bnext P n (bnext (bf a)) bf = Ok (find (\<lambda>i. P (bf i)) xs)"
  by (induction xs arbitrary: a n) (auto simp: gr0_conv_Suc Suc_less_eq2)

lemma scan_prev:
  "lseg bf HEAD xs z \<Longrightarrow> HEAD \<notin> set xs \<Longrightarrow> length xs < n \<Longrightarrow>
   scan bprev P n (bprev (bf z)) bf = Ok (find (\<lambda>i. P (bf i)) (rev xs))"
proof (induction xs arbitrary: z n rule: rev_induct)
  case Nil
  then show ?case by (auto simp: gr0_conv_Suc)
next
  case (snoc x xs)
  obtain m where m: "n = Suc m" using snoc.prems(3) by (cases n) auto
  have "lseg bf HEAD xs x" "bprev (bf z) = x" using snoc.prems(1) by (auto simp: lseg_append)
  then show ?case using snoc.IH [of x m] snoc.prems m by auto
qed

lemma dll_length: "dll bf xs \<Longrightarrow> length xs = NBUF"
  using distinct_card [of xs] by (simp add: dll_def)

lemma dll_scan:
  assumes "dll bf xs"
  shows "scan bnext P (NBUF + 1) (bnext (bf HEAD)) bf = Ok (find (\<lambda>i. P (bf i)) xs)"
    and "scan bprev P (NBUF + 1) (bprev (bf HEAD)) bf = Ok (find (\<lambda>i. P (bf i)) (rev xs))"
  using assms dll_length [OF assms] by (intro scan_next scan_prev; simp add: dll_def)+

lemma dll_cong: "dll bf xs \<Longrightarrow> (\<And>j. bnext (bf' j) = bnext (bf j)) \<Longrightarrow> (\<And>j. bprev (bf' j) = bprev (bf j)) \<Longrightarrow> dll bf' xs"
  unfolding dll_def using lseg_cong [of bf HEAD xs HEAD bf'] by blast

text \<open>The link updates of \<open>brelse\<close> on the array alone.\<close>

definition unlinkb :: "nat \<Rightarrow> (nat \<Rightarrow> buf) \<Rightarrow> nat \<Rightarrow> buf" where
  "unlinkb i bf =
     (let bf = bf(bnext (bf i) := (bf (bnext (bf i)))\<lparr>bprev := bprev (bf i)\<rparr>)
      in bf(bprev (bf i) := (bf (bprev (bf i)))\<lparr>bnext := bnext (bf i)\<rparr>))"

definition pushb :: "nat \<Rightarrow> (nat \<Rightarrow> buf) \<Rightarrow> nat \<Rightarrow> buf" where
  "pushb i bf =
     (let bf = bf(i := (bf i)\<lparr>bnext := bnext (bf HEAD), bprev := HEAD\<rparr>);
          bf = bf(bnext (bf HEAD) := (bf (bnext (bf HEAD)))\<lparr>bprev := i\<rparr>)
      in bf(HEAD := (bf HEAD)\<lparr>bnext := i\<rparr>))"

lemma push_front_bufs: "push_front i s = s\<lparr>bufs := pushb i (bufs s)\<rparr>"
  by (simp add: push_front_def pushb_def upd_buf_def Let_def)

lemma lseg_hd: "lseg bf a xs z \<Longrightarrow> bnext (bf a) = hd (xs @ [z]) \<and> bprev (bf (hd (xs @ [z]))) = a"
  by (cases xs) auto

lemma lseg_change_hd:
  "lseg bf a xs z \<Longrightarrow> bnext (bf' a') = hd (xs @ [z]) \<Longrightarrow> bprev (bf' (hd (xs @ [z]))) = a' \<Longrightarrow>
   \<forall>j \<in> set xs. bnext (bf' j) = bnext (bf j) \<Longrightarrow> \<forall>j \<in> set (tl (xs @ [z])). bprev (bf' j) = bprev (bf j) \<Longrightarrow> lseg bf' a' xs z"
proof (cases xs)
  case (Cons x ys)
  assume "lseg bf a xs z" "\<forall>j \<in> set xs. bnext (bf' j) = bnext (bf j)" "\<forall>j \<in> set (tl (xs @ [z])). bprev (bf' j) = bprev (bf j)"
    "bnext (bf' a') = hd (xs @ [z])" "bprev (bf' (hd (xs @ [z]))) = a'"
  then show ?thesis using Cons lseg_cong [of bf x ys z bf'] by auto
qed simp

lemma pushb_lseg:
  assumes "lseg bf HEAD zs HEAD" and "i \<notin> set zs" and "i \<noteq> HEAD" and "HEAD \<notin> set zs" and "distinct zs"
  shows "lseg (pushb i bf) HEAD (i # zs) HEAD"
proof -
  have "lseg (pushb i bf) i zs HEAD"
    by (rule lseg_change_hd [OF assms(1)]) (use assms lseg_hd [OF assms(1)] in \<open>cases zs; auto simp: pushb_def Let_def\<close>)+
  moreover have "bnext (bf HEAD) \<noteq> i" using lseg_hd [OF assms(1)] assms(2,3) by (cases zs) auto
  ultimately show ?thesis using assms(3) by (auto simp: pushb_def Let_def)
qed

lemma butlast_not_last: "distinct xs \<Longrightarrow> j \<in> set (butlast xs) \<Longrightarrow> j \<noteq> last xs"
  by (cases xs rule: rev_cases) auto

lemma unlinkb_bnext:
  "bnext (unlinkb i bf j) = (if j = bprev (bf i) then bnext (bf i) else bnext (bf j))"
  "bprev (unlinkb i bf j) = (if j = bnext (bf i) then bprev (bf i) else bprev (bf j))"
  by (auto simp: unlinkb_def Let_def)

lemma unlinkb_lseg:
  assumes "lseg bf HEAD (ps @ i # qs) HEAD" and "distinct (HEAD # ps @ i # qs)"
  shows "lseg (unlinkb i bf) HEAD (ps @ qs) HEAD"
proof -
  define L where "L = last (HEAD # ps)"
  define N where "N = hd (qs @ [HEAD])"
  have l: "lseg bf HEAD ps i" "lseg bf i qs HEAD" using assms(1) by (auto simp: lseg_append)
  have p: "bprev (bf i) = L" and n: "bnext (bf i) = N"
    using lseg_last [OF l(1)] lseg_hd [OF l(2)] by (auto simp only: L_def N_def)
  have L: "L \<in> set (HEAD # ps)" unfolding L_def by (rule last_in_set) simp
  have db: "j \<noteq> L" if "j \<in> set (butlast (HEAD # ps))" for j
    unfolding L_def using assms(2) by (intro butlast_not_last [OF _ that]) auto
  have nx: "N \<notin> set ps" unfolding N_def using assms(2) by (cases qs) auto
  have bn: "bnext (unlinkb i bf j) = (if j = L then N else bnext (bf j))"
    and bp: "bprev (unlinkb i bf j) = (if j = N then L else bprev (bf j))" for j
    by (simp_all only: unlinkb_bnext p n)
  have first: "lseg (unlinkb i bf) HEAD ps N"
  proof (rule lseg_retarget [OF l(1)], unfold bn bp, fold L_def)
    show "\<forall>j \<in> set (butlast (HEAD # ps)). (if j = L then N else bnext (bf j)) = bnext (bf j)" using db by metis
    show "\<forall>j \<in> set ps. (if j = N then L else bprev (bf j)) = bprev (bf j)" using nx by metis
  qed simp_all
  show ?thesis
  proof (cases qs)
    case Nil
    then show ?thesis using first by (simp add: N_def)
  next
    case (Cons q qs')
    have "lseg (unlinkb i bf) q qs' HEAD"
    proof (rule lseg_cong, unfold bn bp)
      show "lseg bf q qs' HEAD" using l(2) Cons by simp
      show "\<forall>j \<in> set (q # qs'). (if j = L then N else bnext (bf j)) = bnext (bf j)" using L assms(2) Cons by auto
      show "\<forall>j \<in> set (qs' @ [HEAD]). (if j = N then L else bprev (bf j)) = bprev (bf j)"
        using assms(2) Cons by (auto simp: N_def)
    qed
    then show ?thesis using first Cons by (simp add: lseg_append N_def)
  qed
qed

lemma dll_move_front:
  assumes "dll bf xs" and "i < NBUF"
  shows "dll (pushb i (unlinkb i bf)) (i # remove1 i xs)"
proof -
  have d: "distinct xs" "set xs = {..<NBUF}" "lseg bf HEAD xs HEAD" using assms(1) by (simp_all add: dll_def)
  obtain ps qs where xs: "xs = ps @ i # qs" using assms(2) d(2) split_list [of i xs] by auto
  have h: "HEAD \<notin> set xs" using d(2) by simp
  have r: "remove1 i xs = ps @ qs" using d(1) xs by (simp add: remove1_append)
  have "lseg (unlinkb i bf) HEAD (ps @ qs) HEAD" using d xs h by (intro unlinkb_lseg) auto
  then have "lseg (pushb i (unlinkb i bf)) HEAD (i # ps @ qs) HEAD"
    using d h xs assms(2) by (intro pushb_lseg) auto
  then show ?thesis using d xs r by (auto simp: dll_def)
qed

lemma link_fields [simp]:
  "bvalid (pushb i bf j) = bvalid (bf j)" "bdirty (pushb i bf j) = bdirty (bf j)" "bdev (pushb i bf j) = bdev (bf j)"
  "blockno (pushb i bf j) = blockno (bf j)" "brefcnt (pushb i bf j) = brefcnt (bf j)" "bdata (pushb i bf j) = bdata (bf j)"
  "bvalid (unlinkb i bf j) = bvalid (bf j)" "bdirty (unlinkb i bf j) = bdirty (bf j)" "bdev (unlinkb i bf j) = bdev (bf j)"
  "blockno (unlinkb i bf j) = blockno (bf j)" "brefcnt (unlinkb i bf j) = brefcnt (bf j)" "bdata (unlinkb i bf j) = bdata (bf j)"
  by (auto simp: pushb_def unlinkb_def Let_def)

section \<open>The cache between operations\<close>

text \<open>The pid of the running process, and the buffer that caches block \<open>b\<close> of disk 1.\<close>

definition me :: "'z ptable_st_scheme \<Rightarrow> int" where
  "me s = pid (procs s ! the (cproc s (cur s)))"

definition caches :: "'z bio_st_scheme \<Rightarrow> nat \<Rightarrow> u32 \<Rightarrow> bool" where
  "caches s i b \<longleftrightarrow> bdev (bufs s i) = 1 \<and> blockno (bufs s i) = b"

text \<open>The content of a block as the kernel sees it: the buffer that caches it, or the disk.\<close>

definition view :: "'z bio_st_scheme \<Rightarrow> u32 \<Rightarrow> block" where
  "view s b = (case find (\<lambda>i. caches s i b) [0..<NBUF] of Some i \<Rightarrow> bdata (bufs s i) | None \<Rightarrow> disk s b)"

text \<open>
  \<open>bio_ok xs H s\<close>: the list is \<open>xs\<close>; the running process holds the buffers \<open>H\<close>, nobody holds
  another one; no block is cached twice; a buffer that is neither held nor pinned by the log
  agrees with the disk.
\<close>

definition bio_ok :: "nat list \<Rightarrow> nat set \<Rightarrow> 'z bio_st_scheme \<Rightarrow> bool" where
  "bio_ok xs H s \<longleftrightarrow> dll (bufs s) xs \<and> cpu_ok s \<and> (\<forall>l. lock_free l s) \<and> (\<exists>p < length (procs s). cproc s (cur s) = Some p) \<and> H \<subseteq> {..<NBUF}
     \<and> (\<forall>i < NBUF. \<forall>j < NBUF. \<forall>b. caches s i b \<longrightarrow> caches s j b \<longrightarrow> i = j)
     \<and> (\<forall>i < NBUF. slocked (sleeplocks s (SL_buf i)) = (i \<in> H)
          \<and> (i \<in> H \<longrightarrow> slpid (sleeplocks s (SL_buf i)) = me s \<and> bdev (bufs s i) = 1)
          \<and> brefcnt (bufs s i) = (if i \<in> H then 1 else 0))
     \<and> (\<forall>i < NBUF. bdirty (bufs s i) \<longrightarrow> bdev (bufs s i) = 1)
     \<and> (\<forall>i < NBUF. bdev (bufs s i) = 1 \<longrightarrow> bvalid (bufs s i))
     \<and> (\<forall>i < NBUF. bdev (bufs s i) = 1 \<longrightarrow> \<not> bdirty (bufs s i) \<longrightarrow> i \<notin> H \<longrightarrow> bdata (bufs s i) = disk s (blockno (bufs s i)))"

lemma bio_okD:
  assumes "bio_ok xs H s"
  shows "dll (bufs s) xs" "cpu_ok s" "lock_free l s" "\<exists>p < length (procs s). cproc s (cur s) = Some p \<and> me s = pid (procs s ! p)" "H \<subseteq> {..<NBUF}"
    "i < NBUF \<Longrightarrow> j < NBUF \<Longrightarrow> caches s i b \<Longrightarrow> caches s j b \<Longrightarrow> i = j"
    "i < NBUF \<Longrightarrow> slocked (sleeplocks s (SL_buf i)) = (i \<in> H)" "i \<in> H \<Longrightarrow> slpid (sleeplocks s (SL_buf i)) = me s"
    "i \<in> H \<Longrightarrow> bdev (bufs s i) = 1"
    "i < NBUF \<Longrightarrow> brefcnt (bufs s i) = (if i \<in> H then 1 else 0)"
    "i < NBUF \<Longrightarrow> bdirty (bufs s i) \<Longrightarrow> bdev (bufs s i) = 1" "i < NBUF \<Longrightarrow> bdev (bufs s i) = 1 \<Longrightarrow> bvalid (bufs s i)"
    "i < NBUF \<Longrightarrow> bdev (bufs s i) = 1 \<Longrightarrow> \<not> bdirty (bufs s i) \<Longrightarrow> i \<notin> H \<Longrightarrow> bdata (bufs s i) = disk s (blockno (bufs s i))"
  using assms unfolding bio_ok_def me_def by (auto simp del: One_nat_def)

lemma view_caches: "bio_ok xs H s \<Longrightarrow> i < NBUF \<Longrightarrow> caches s i b \<Longrightarrow> view s b = bdata (bufs s i)"
proof -
  assume a: "bio_ok xs H s" "i < NBUF" "caches s i b"
  then have "find (\<lambda>i. caches s i b) [0..<NBUF] \<noteq> None" unfolding find_None_iff by auto
  then obtain j where j: "find (\<lambda>i. caches s i b) [0..<NBUF] = Some j" by auto
  then have "caches s j b" "j < NBUF" by (auto simp: find_Some_iff)
  then have "j = i" using bio_okD(6) [OF a(1) _ a(2) _ a(3)] by blast
  then show ?thesis using j by (simp add: view_def)
qed

lemma view_uncached: "\<forall>i < NBUF. \<not> caches s i b \<Longrightarrow> view s b = disk s b"
proof -
  assume "\<forall>i < NBUF. \<not> caches s i b"
  then have "find (\<lambda>i. caches s i b) [0..<NBUF] = None" unfolding find_None_iff by auto
  then show ?thesis by (simp add: view_def)
qed

section \<open>Reading a block\<close>

lemma upd_buf_simps [simp]:
  "lapicid (upd_buf i f s) = lapicid s" "apicids (upd_buf i f s) = apicids s" "ncli (upd_buf i f s) = ncli s"
  "intena (upd_buf i f s) = intena s" "ifl (upd_buf i f s) = ifl s" "locks (upd_buf i f s) = locks s"
  "cproc (upd_buf i f s) = cproc s" "procs (upd_buf i f s) = procs s" "cur (upd_buf i f s) = cur s"
  "cpu_ok (upd_buf i f s) = cpu_ok s" "lock_free k (upd_buf i f s) = lock_free k s" "sleeplocks (upd_buf i f s) = sleeplocks s"
  "disk (upd_buf i f s) = disk s" "disksize (upd_buf i f s) = disksize s" "dwrites (upd_buf i f s) = dwrites s"
  "bufs (upd_buf i f s) = (bufs s)(i := f (bufs s i))" "me (upd_buf i f s) = me s"
  by (simp_all add: upd_buf_def cpu_ok_def cur_def lock_free_def me_def)

lemma enter_bio [simp]: "bufs (enter l s) = bufs s" "disk (enter l s) = disk s" "disksize (enter l s) = disksize s"
  by (simp_all add: enter_def)

lemma sl_upd_bio [simp]:
  "bufs (sl_upd l b q s) = bufs s" "disk (sl_upd l b q s) = disk s" "disksize (sl_upd l b q s) = disksize s"
  "dwrites (sl_upd l b q s) = dwrites s" "me (sl_upd l b q s) = me s"
  by (simp_all add: sl_upd_def me_def cur_def)

lemma relock_upd_buf: "relock k s (upd_buf i f t) = upd_buf i f (relock k s t)"
  by (simp add: relock_def upd_buf_def)

lemma upd_buf_twice: "upd_buf i f (upd_buf i g s) = upd_buf i (f \<circ> g) s"
  by (simp add: upd_buf_def)

lemma upd_buf_sl_upd: "upd_buf i f (sl_upd l b q s) = sl_upd l b q (upd_buf i f s)"
  by (simp add: upd_buf_def sl_upd_def)

lemma upd_buf_cong: "f (bufs s i) = g (bufs s i) \<Longrightarrow> upd_buf i f s = upd_buf i g s"
  by (simp add: upd_buf_def)

text \<open>The state in which the running process has block \<open>b\<close> in buffer \<open>i\<close>.\<close>

definition hold :: "nat \<Rightarrow> u32 \<Rightarrow> 'z bio_st_scheme \<Rightarrow> 'z bio_st_scheme" where
  "hold i b s = sl_upd (SL_buf i) True (me s)
     (upd_buf i (\<lambda>q. q\<lparr>bvalid := True, bdev := 1, blockno := b, brefcnt := 1, bdata := view s b\<rparr>) s)"

lemma bget_release:
  assumes "bio_ok xs H s" and "i < NBUF" and "i \<notin> H"
  shows "bnd (release Bcache_lock (upd_buf i f (enter Bcache_lock s))) (\<lambda>s. bnd (acquiresleep (SL_buf i) s) (\<lambda>s. Ok (i, s)))
     = Ok (i, sl_upd (SL_buf i) True (me s) (upd_buf i f s))"
proof -
  obtain p where p: "cproc s (cur s) = Some p" "me s = pid (procs s ! p)" using bio_okD(4) [OF assms(1)] by blast
  have "release Bcache_lock (upd_buf i f (enter Bcache_lock s)) = Ok (relock Bcache_lock s (upd_buf i f (enter Bcache_lock s)))"
    using bio_okD(2,3) [OF assms(1)] by (intro release_relock) simp_all
  moreover have "acquiresleep (SL_buf i) (upd_buf i f s) = Ok (sl_upd (SL_buf i) True (pid (procs s ! p)) (upd_buf i f s))"
    using bio_okD(2,3,7) [OF assms(1)] assms(2,3) p(1) acquiresleep_ok [of "upd_buf i f s" "SL_buf i" p] by simp
  ultimately show ?thesis using p by (simp add: relock_upd_buf relock_enter)
qed

lemma find_unique: "find P xs = Some i \<Longrightarrow> P i \<and> i \<in> set xs"
  by (auto simp: find_Some_iff)

lemma bread_hit:
  assumes ok: "bio_ok xs H s" and i: "i < NBUF" "i \<notin> H" "caches s i b"
  shows "bread 1 b s = Ok (i, hold i b s)"
proof -
  have d: "dll (bufs s) xs" using bio_okD(1) [OF ok] .
  have "find (\<lambda>i. caches s i b) xs \<noteq> None" using d i unfolding find_None_iff by (auto simp: dll_def)
  then obtain j where j: "find (\<lambda>i. caches s i b) xs = Some j" by auto
  have "j = i" using find_unique [OF j] i bio_okD(6) [OF ok, of j i b] d by (auto simp: dll_def)
  then have f: "find (\<lambda>i. bdev (bufs s i) = 1 \<and> blockno (bufs s i) = b) xs = Some i" using j unfolding caches_def by simp
  have acq: "acquire Bcache_lock s = Ok (enter Bcache_lock s)" using bio_okD(2,3) [OF ok] by (simp add: acquire_free)
  have "bget 1 b s = Ok (i, sl_upd (SL_buf i) True (me s) (upd_buf i (\<lambda>b. b\<lparr>brefcnt := brefcnt b + 1\<rparr>) s))"
    unfolding bget_def acq using f bget_release [OF ok i(1,2)] by (simp add: dll_scan [OF d, simplified])
  moreover have "bvalid (bufs s i)" "view s b = bdata (bufs s i)" "brefcnt (bufs s i) = 0"
    using bio_okD(10,12) [OF ok i(1)] i view_caches [OF ok i(1,3)] by (simp_all add: caches_def)
  ultimately show ?thesis using i(3)
    by (auto simp: bread_def hold_def caches_def intro!: arg_cong [of _ _ "sl_upd _ _ _"] upd_buf_cong)
qed

lemma bread_miss:
  assumes ok: "bio_ok xs H s" and b: "b < disksize s" and un: "\<forall>i < NBUF. \<not> caches s i b"
    and fr: "find (\<lambda>i. brefcnt (bufs s i) = 0 \<and> \<not> bdirty (bufs s i)) (rev xs) = Some i"
  shows "i < NBUF \<and> i \<notin> H \<and> \<not> bdirty (bufs s i) \<and> bread 1 b s = Ok (i, hold i b s)"
proof -
  have d: "dll (bufs s) xs" using bio_okD(1) [OF ok] .
  have i: "i < NBUF" "brefcnt (bufs s i) = 0" "\<not> bdirty (bufs s i)" using find_unique [OF fr] d by (auto simp: dll_def)
  then have nH: "i \<notin> H" using bio_okD(10) [OF ok i(1)] by auto
  have "find (\<lambda>i. bdev (bufs s i) = 1 \<and> blockno (bufs s i) = b) xs = None"
    using un d unfolding find_None_iff caches_def dll_def by auto
  moreover have acq: "acquire Bcache_lock s = Ok (enter Bcache_lock s)" using bio_okD(2,3) [OF ok] by (simp add: acquire_free)
  ultimately have g: "bget 1 b s = Ok (i, sl_upd (SL_buf i) True (me s)
      (upd_buf i (\<lambda>q. q\<lparr>bdev := 1, blockno := b, bvalid := False, bdirty := False, brefcnt := 1\<rparr>) s))"
    unfolding bget_def acq using fr bget_release [OF ok i(1) nH] by (simp add: dll_scan [OF d, simplified])
  let ?t = "sl_upd (SL_buf i) True (me s) (upd_buf i (\<lambda>q. q\<lparr>bdev := 1, blockno := b, bvalid := False, bdirty := False, brefcnt := 1\<rparr>) s)"
  obtain p where p: "cproc s (cur s) = Some p" "me s = pid (procs s ! p)" using bio_okD(4) [OF ok] by blast
  have h: "holdingsleep (SL_buf i) ?t = Ok (True, ?t)"
    using bio_okD(2,3) [OF ok] p holdingsleep_ok [of ?t "SL_buf i" p] by simp
  have "iderw i ?t = Ok (hold i b s)"
    unfolding iderw_def h using b i view_uncached [OF un]
    by (auto simp: Let_def upd_buf_sl_upd upd_buf_twice hold_def not_le intro!: arg_cong [of _ _ "sl_upd _ _ _"] upd_buf_cong)
  then show ?thesis using g i nH by (simp add: bread_def)
qed

lemma bread_spec:
  assumes ok: "bio_ok xs H s" and b: "b < disksize s" "\<forall>i \<in> H. blockno (bufs s i) \<noteq> b"
    and room: "(\<exists>i < NBUF. caches s i b) \<or> (\<exists>i < NBUF. i \<notin> H \<and> \<not> bdirty (bufs s i))"
  shows "\<exists>i < NBUF. i \<notin> H \<and> bread 1 b s = Ok (i, hold i b s) \<and> (caches s i b \<or> (\<forall>j < NBUF. \<not> caches s j b) \<and> \<not> bdirty (bufs s i))"
proof (cases "\<exists>i < NBUF. caches s i b")
  case True
  then obtain i where "i < NBUF" "caches s i b" by blast
  moreover have "i \<notin> H" using b(2) \<open>caches s i b\<close> by (auto simp: caches_def)
  ultimately show ?thesis using bread_hit [OF ok] by blast
next
  case False
  then obtain j where j: "j < NBUF" "j \<notin> H" "\<not> bdirty (bufs s j)" using room by blast
  then have "brefcnt (bufs s j) = 0" using bio_okD(10) [OF ok j(1)] by simp
  then have "find (\<lambda>i. brefcnt (bufs s i) = 0 \<and> \<not> bdirty (bufs s i)) (rev xs) \<noteq> None"
    using j bio_okD(1) [OF ok] unfolding find_None_iff by (auto simp: dll_def)
  then obtain i where "find (\<lambda>i. brefcnt (bufs s i) = 0 \<and> \<not> bdirty (bufs s i)) (rev xs) = Some i" by auto
  then show ?thesis using bread_miss [OF ok b(1) _] False by blast
qed

lemma hold_simps [simp]:
  "lapicid (hold i b s) = lapicid s" "apicids (hold i b s) = apicids s" "ncli (hold i b s) = ncli s"
  "intena (hold i b s) = intena s" "ifl (hold i b s) = ifl s" "locks (hold i b s) = locks s"
  "cproc (hold i b s) = cproc s" "procs (hold i b s) = procs s" "cur (hold i b s) = cur s"
  "cpu_ok (hold i b s) = cpu_ok s" "lock_free k (hold i b s) = lock_free k s" "me (hold i b s) = me s"
  "disk (hold i b s) = disk s" "disksize (hold i b s) = disksize s" "dwrites (hold i b s) = dwrites s"
  "bufs (hold i b s) = (bufs s)(i := (bufs s i)\<lparr>bvalid := True, bdev := 1, blockno := b, brefcnt := 1, bdata := view s b\<rparr>)"
  "sleeplocks (hold i b s) = (sleeplocks s)(SL_buf i := (sleeplocks s (SL_buf i))\<lparr>slocked := True, slpid := me s\<rparr>)"
  by (simp_all add: hold_def)

lemma caches_hold: "caches (hold i b s) j c = (if j = i then c = b else caches s j c)"
  by (auto simp: caches_def)

text \<open>What a buffer that \<open>bread\<close> may take has in common with the block: it caches it or is clean.\<close>

definition takes :: "nat set \<Rightarrow> 'z bio_st_scheme \<Rightarrow> nat \<Rightarrow> u32 \<Rightarrow> bool" where
  "takes H s i b \<longleftrightarrow> i < NBUF \<and> i \<notin> H \<and> (caches s i b \<or> (\<forall>j < NBUF. \<not> caches s j b) \<and> \<not> bdirty (bufs s i))"

lemma hold_ok:
  assumes ok: "bio_ok xs H s" and i: "takes H s i b"
  shows "bio_ok xs (insert i H) (hold i b s)"
proof -
  have iN: "i < NBUF" "i \<notin> H" using i by (simp_all add: takes_def)
  have only: "j = i" if "j < NBUF" "caches s j b" for j
    using i that(1,2) bio_okD(6) [OF ok that(1) iN(1) that(2)] unfolding takes_def by blast
  show ?thesis unfolding bio_ok_def
  proof (intro conjI allI impI)
    show "dll (bufs (hold i b s)) xs" by (rule dll_cong [OF bio_okD(1) [OF ok]]) (simp_all only: hold_simps fun_upd_apply, simp_all)
    show "cpu_ok (hold i b s)" unfolding hold_simps by (rule bio_okD(2) [OF ok])
    show "lock_free l (hold i b s)" for l unfolding hold_simps by (rule bio_okD(3) [OF ok])
    show "\<exists>p < length (procs (hold i b s)). cproc (hold i b s) (cur (hold i b s)) = Some p"
      unfolding hold_simps using bio_okD(4) [OF ok] by blast
    show "insert i H \<subseteq> {..<NBUF}" using bio_okD(5) [OF ok] iN by auto
    fix j k c assume a: "j < NBUF" "k < NBUF" "caches (hold i b s) j c" "caches (hold i b s) k c"
    show "j = k"
    proof (cases "c = b")
      case True
      then show ?thesis using a only [of j] only [of k] unfolding caches_hold by metis
    next
      case False
      then show ?thesis using a bio_okD(6) [OF ok, of j k c] unfolding caches_hold by metis
    qed
  next
    fix j assume j: "j < NBUF"
    show "slocked (sleeplocks (hold i b s) (SL_buf j)) = (j \<in> insert i H)" using bio_okD(7) [OF ok j] by simp
    show "brefcnt (bufs (hold i b s) j) = (if j \<in> insert i H then 1 else 0)" using bio_okD(10) [OF ok j] by simp
    show "bvalid (bufs (hold i b s) j)" if "bdev (bufs (hold i b s) j) = 1" using that bio_okD(12) [OF ok j] by (auto split: if_splits)
    show "bdev (bufs (hold i b s) j) = 1" if "bdirty (bufs (hold i b s) j)" using that bio_okD(11) [OF ok j] by (auto split: if_splits)
    show "slpid (sleeplocks (hold i b s) (SL_buf j)) = me (hold i b s)" if "j \<in> insert i H" using that bio_okD(8) [OF ok, of j] by auto
    show "bdev (bufs (hold i b s) j) = 1" if "j \<in> insert i H" using that bio_okD(9) [OF ok, of j] by auto
    show "bdata (bufs (hold i b s) j) = disk (hold i b s) (blockno (bufs (hold i b s) j))"
      if "bdev (bufs (hold i b s) j) = 1" "\<not> bdirty (bufs (hold i b s) j)" "j \<notin> insert i H"
      using that bio_okD(13) [OF ok j] by simp
  qed
qed

lemma hold_view:
  assumes ok: "bio_ok xs H s" and i: "takes H s i b"
  shows "view (hold i b s) = view s"
proof
  fix c
  have iN: "i < NBUF" "i \<notin> H" using i by (simp_all add: takes_def)
  note ok' = hold_ok [OF assms]
  show "view (hold i b s) c = view s c"
  proof (cases "c = b")
    case True
    then have "caches (hold i b s) i c" by (simp add: caches_hold)
    then show ?thesis using view_caches [OF ok' iN(1)] True by simp
  next
    case False
    show ?thesis
    proof (cases "\<exists>j < NBUF. j \<noteq> i \<and> caches s j c")
      case True
      then obtain j where j: "j < NBUF" "j \<noteq> i" "caches s j c" by blast
      then have "caches (hold i b s) j c" by (simp add: caches_hold)
      then show ?thesis using view_caches [OF ok' j(1)] view_caches [OF ok j(1) j(3)] j(2) by simp
    next
      case no: False
      then have "view (hold i b s) c = disk s c"
        using False by (subst view_uncached) (auto simp: caches_hold)
      moreover have "view s c = disk s c"
      proof (cases "caches s i c")
        case True
        then have "\<not> bdirty (bufs s i)" "bdev (bufs s i) = 1" "blockno (bufs s i) = c" using i False by (auto simp: takes_def caches_def)
        then show ?thesis using view_caches [OF ok iN(1) True] bio_okD(13) [OF ok iN(1)] iN(2) by simp
      next
        case False
        then show ?thesis using no by (intro view_uncached) auto
      qed
      ultimately show ?thesis by simp
    qed
  qed
qed

section \<open>Writing and releasing a buffer\<close>

lemma holding_held:
  assumes ok: "bio_ok xs H s" and i: "i \<in> H"
  shows "holdingsleep (SL_buf i) s = Ok (True, s)" and "i < NBUF"
proof -
  show iN: "i < NBUF" using bio_okD(5) [OF ok] i by auto
  obtain p where p: "cproc s (cur s) = Some p" "me s = pid (procs s ! p)" using bio_okD(4) [OF ok] by blast
  show "holdingsleep (SL_buf i) s = Ok (True, s)"
    using holdingsleep_ok [of s "SL_buf i" p] bio_okD(2,3) [OF ok] p bio_okD(7) [OF ok iN] bio_okD(8) [OF ok i] i by simp
qed

definition written :: "nat \<Rightarrow> 'z bio_st_scheme \<Rightarrow> 'z bio_st_scheme" where
  "written i s = s\<lparr>disk := (disk s)(blockno (bufs s i) := bdata (bufs s i)),
     dwrites := dwrites s @ [(blockno (bufs s i), bdata (bufs s i))],
     bufs := (bufs s)(i := (bufs s i)\<lparr>bdirty := False\<rparr>)\<rparr>"

lemma written_simps [simp]:
  "lapicid (written i s) = lapicid s" "apicids (written i s) = apicids s" "ncli (written i s) = ncli s"
  "intena (written i s) = intena s" "ifl (written i s) = ifl s" "locks (written i s) = locks s"
  "cproc (written i s) = cproc s" "procs (written i s) = procs s" "cur (written i s) = cur s"
  "cpu_ok (written i s) = cpu_ok s" "lock_free k (written i s) = lock_free k s" "me (written i s) = me s"
  "disk (written i s) = (disk s)(blockno (bufs s i) := bdata (bufs s i))" "disksize (written i s) = disksize s"
  "dwrites (written i s) = dwrites s @ [(blockno (bufs s i), bdata (bufs s i))]"
  "bufs (written i s) = (bufs s)(i := (bufs s i)\<lparr>bdirty := False\<rparr>)" "sleeplocks (written i s) = sleeplocks s"
  by (simp_all add: written_def cpu_ok_def cur_def lock_free_def me_def)

lemma bwrite_ok:
  assumes ok: "bio_ok xs H s" and i: "i \<in> H" and b: "blockno (bufs s i) < disksize s"
  shows "bwrite i s = Ok (written i s)"
proof -
  note h = holding_held [OF ok i]
  let ?t = "upd_buf i (\<lambda>b. b\<lparr>bdirty := True\<rparr>) s"
  obtain p where p: "cproc s (cur s) = Some p" "me s = pid (procs s ! p)" using bio_okD(4) [OF ok] by blast
  have "holdingsleep (SL_buf i) ?t = Ok (True, ?t)"
    using holdingsleep_ok [of ?t "SL_buf i" p] bio_okD(2,3) [OF ok] p bio_okD(7) [OF ok h(2)] bio_okD(8) [OF ok i] i by simp
  moreover have "bdev (bufs s i) = 1" "bvalid (bufs s i)" using bio_okD(9) [OF ok i] bio_okD(12) [OF ok h(2)] by simp_all
  ultimately have "iderw i ?t = Ok (upd_buf i (\<lambda>b. b\<lparr>bvalid := True\<rparr>)
      ((upd_buf i (\<lambda>b. b\<lparr>bdirty := False\<rparr>) ?t)\<lparr>disk := (disk s)(blockno (bufs s i) := bdata (bufs s i)),
         dwrites := dwrites s @ [(blockno (bufs s i), bdata (bufs s i))]\<rparr>))"
    using b by (simp add: iderw_def Let_def not_le)
  also have "\<dots> = Ok (written i s)"
  proof -
    have "(bufs s i)\<lparr>bdirty := False, bvalid := True\<rparr> = (bufs s i)\<lparr>bdirty := False\<rparr>"
      using \<open>bvalid (bufs s i)\<close> by (cases "bufs s i") simp
    then show ?thesis by (simp add: upd_buf_def written_def)
  qed
  finally show ?thesis by (simp add: bwrite_def h(1))
qed

lemma written_fields:
  "bvalid (bufs (written i s) j) = bvalid (bufs s j)" "bdev (bufs (written i s) j) = bdev (bufs s j)"
  "blockno (bufs (written i s) j) = blockno (bufs s j)" "brefcnt (bufs (written i s) j) = brefcnt (bufs s j)"
  "bdata (bufs (written i s) j) = bdata (bufs s j)" "bdirty (bufs (written i s) j) = (j \<noteq> i \<and> bdirty (bufs s j))"
  by simp_all

lemma caches_written [simp]: "caches (written i s) j c = caches s j c"
  by (simp add: caches_def)

lemma written_ok:
  assumes ok: "bio_ok xs H s" and i: "i \<in> H"
  shows "bio_ok xs H (written i s)"
proof -
  note iN = holding_held(2) [OF ok i]
  have dv: "bdev (bufs s i) = 1" using bio_okD(9) [OF ok i] .
  show ?thesis unfolding bio_ok_def
  proof (intro conjI allI impI)
    show "dll (bufs (written i s)) xs" by (rule dll_cong [OF bio_okD(1) [OF ok]]) simp_all
    show "cpu_ok (written i s)" unfolding written_simps by (rule bio_okD(2) [OF ok])
    show "lock_free l (written i s)" for l unfolding written_simps by (rule bio_okD(3) [OF ok])
    show "\<exists>p < length (procs (written i s)). cproc (written i s) (cur (written i s)) = Some p"
      unfolding written_simps using bio_okD(4) [OF ok] by blast
    show "H \<subseteq> {..<NBUF}" using bio_okD(5) [OF ok] .
    fix j k c assume "j < NBUF" "k < NBUF" "caches (written i s) j c" "caches (written i s) k c"
    then show "j = k" unfolding caches_written by (rule bio_okD(6) [OF ok])
  next
    fix j assume j: "j < NBUF"
    show "slocked (sleeplocks (written i s) (SL_buf j)) = (j \<in> H)" using bio_okD(7) [OF ok j] by simp
    show "brefcnt (bufs (written i s) j) = (if j \<in> H then 1 else 0)" unfolding written_fields by (rule bio_okD(10) [OF ok j])
    show "bvalid (bufs (written i s) j)" if "bdev (bufs (written i s) j) = 1"
      using that unfolding written_fields by (rule bio_okD(12) [OF ok j])
    show "bdev (bufs (written i s) j) = 1" if "bdirty (bufs (written i s) j)"
      using that unfolding written_fields by (blast intro: bio_okD(11) [OF ok j])
    show "slpid (sleeplocks (written i s) (SL_buf j)) = me (written i s)" if "j \<in> H"
      using that unfolding written_simps by (rule bio_okD(8) [OF ok])
    show "bdev (bufs (written i s) j) = 1" if "j \<in> H" using that unfolding written_fields by (rule bio_okD(9) [OF ok])
    show "bdata (bufs (written i s) j) = disk (written i s) (blockno (bufs (written i s) j))"
      if a: "bdev (bufs (written i s) j) = 1" "\<not> bdirty (bufs (written i s) j)" "j \<notin> H"
    proof -
      have ne: "j \<noteq> i" using a(3) i by blast
      have a': "bdev (bufs s j) = 1" "\<not> bdirty (bufs s j)" using a ne unfolding written_fields by blast+
      have "blockno (bufs s j) \<noteq> blockno (bufs s i)"
        using ne a'(1) dv bio_okD(6) [OF ok j iN, of "blockno (bufs s i)"] unfolding caches_def by blast
      then show ?thesis unfolding written_fields written_simps(13) using bio_okD(13) [OF ok j a' a(3)] by simp
    qed
  qed
qed

lemma written_view:
  assumes ok: "bio_ok xs H s" and i: "i \<in> H"
  shows "view (written i s) = view s"
proof
  fix c
  show "view (written i s) c = view s c"
  proof (cases "\<exists>j < NBUF. caches s j c")
    case True
    then obtain j where j: "j < NBUF" "caches s j c" by blast
    then show ?thesis using view_caches [OF ok j] view_caches [OF written_ok [OF assms] j(1), of c] by simp
  next
    case False
    have "caches s i (blockno (bufs s i))" using bio_okD(9) [OF ok i] by (simp add: caches_def)
    then have "c \<noteq> blockno (bufs s i)" using False holding_held(2) [OF ok i] by blast
    then show ?thesis using False view_uncached [of s c] view_uncached [of "written i s" c] by simp
  qed
qed

text \<open>Changing the content of a held buffer.\<close>

lemma set_data_ok:
  assumes ok: "bio_ok xs H s" and i: "i \<in> H"
  shows "bio_ok xs H (upd_buf i (\<lambda>q. q\<lparr>bdata := d\<rparr>) s)"
    and "view (upd_buf i (\<lambda>q. q\<lparr>bdata := d\<rparr>) s) = (view s)(blockno (bufs s i) := d)"
proof -
  let ?t = "upd_buf i (\<lambda>q. q\<lparr>bdata := d\<rparr>) s"
  note iN = holding_held(2) [OF ok i]
  have c: "caches ?t j c = caches s j c" for j c by (simp add: caches_def)
  show ok': "bio_ok xs H ?t"
  proof -
    have "dll (bufs ?t) xs" by (rule dll_cong [OF bio_okD(1) [OF ok]]) simp_all
    moreover have "bdata (bufs ?t j) = disk ?t (blockno (bufs ?t j))"
      if "j < NBUF" "bdev (bufs ?t j) = 1" "\<not> bdirty (bufs ?t j)" "j \<notin> H" for j
      using that i bio_okD(13) [OF ok that(1)] by (cases "j = i") simp_all
    moreover have "bdev (bufs ?t j) = bdev (bufs s j)" "brefcnt (bufs ?t j) = brefcnt (bufs s j)"
      "bdirty (bufs ?t j) = bdirty (bufs s j)" "bvalid (bufs ?t j) = bvalid (bufs s j)" for j by simp_all
    ultimately show ?thesis using ok unfolding bio_ok_def c by (simp only: upd_buf_simps) blast
  qed
  show "view ?t = (view s)(blockno (bufs s i) := d)"
  proof
    fix b
    show "view ?t b = ((view s)(blockno (bufs s i) := d)) b"
    proof (cases "\<exists>j < NBUF. caches s j b")
      case True
      then obtain j where j: "j < NBUF" "caches s j b" by blast
      have "b = blockno (bufs s i) \<longleftrightarrow> j = i"
        using j bio_okD(6) [OF ok j(1) iN j(2)] bio_okD(9) [OF ok i] by (auto simp: caches_def)
      then show ?thesis using view_caches [OF ok j] view_caches [OF ok' j(1), of b] j(2) c by auto
    next
      case False
      have "caches s i (blockno (bufs s i))" using bio_okD(9) [OF ok i] by (simp add: caches_def)
      then have "b \<noteq> blockno (bufs s i)" using False iN by blast
      then show ?thesis using False view_uncached [of s b] view_uncached [of ?t b] c by simp
    qed
  qed
qed

text \<open>The state after \<open>brelse\<close>: the buffer is free, at the front of the list, and its waiters are awake.\<close>

definition released :: "nat \<Rightarrow> 'z bio_st_scheme \<Rightarrow> 'z bio_st_scheme" where
  "released i s = (wakeup1 (Buf_chan i) (sl_upd (SL_buf i) False 0 s))\<lparr>bufs :=
     pushb i (unlinkb i ((bufs s)(i := (bufs s i)\<lparr>brefcnt := 0\<rparr>)))\<rparr>"

lemma wakeup1_pid: "i < length (procs s) \<Longrightarrow> pid (procs (wakeup1 c s) ! i) = pid (procs s ! i)"
  by (simp add: wakeup1_def)

lemma wakeup1_simps [simp]:
  "lapicid (wakeup1 c s) = lapicid s" "apicids (wakeup1 c s) = apicids s" "ncli (wakeup1 c s) = ncli s"
  "intena (wakeup1 c s) = intena s" "ifl (wakeup1 c s) = ifl s" "locks (wakeup1 c s) = locks s" "cproc (wakeup1 c s) = cproc s"
  "length (procs (wakeup1 c s)) = length (procs s)" "cur (wakeup1 c s) = cur s"
  by (simp_all add: wakeup1_def cur_def)

lemma wakeup1_bio [simp]:
  "sleeplocks (wakeup1 c s) = sleeplocks s" "bufs (wakeup1 c t) = bufs t" "disk (wakeup1 c t) = disk t"
  "disksize (wakeup1 c t) = disksize t" "dwrites (wakeup1 c t) = dwrites t"
  by (simp_all add: wakeup1_def)

lemma released_simps [simp]:
  "cproc (released i s) = cproc s" "cur (released i s) = cur s" "length (procs (released i s)) = length (procs s)"
  "cpu_ok (released i s) = cpu_ok s" "lock_free k (released i s) = lock_free k s"
  "disk (released i s) = disk s" "disksize (released i s) = disksize s" "dwrites (released i s) = dwrites s"
  "bufs (released i s) = pushb i (unlinkb i ((bufs s)(i := (bufs s i)\<lparr>brefcnt := 0\<rparr>)))"
  "sleeplocks (released i s) = (sleeplocks s)(SL_buf i := (sleeplocks s (SL_buf i))\<lparr>slocked := False, slpid := 0\<rparr>)"
  by (simp_all add: released_def cpu_ok_def cur_def lock_free_def wakeup1_def sl_upd_def)

lemma released_fields:
  "bvalid (bufs (released i s) j) = bvalid (bufs s j)" "bdev (bufs (released i s) j) = bdev (bufs s j)"
  "blockno (bufs (released i s) j) = blockno (bufs s j)" "bdirty (bufs (released i s) j) = bdirty (bufs s j)"
  "bdata (bufs (released i s) j) = bdata (bufs s j)" "brefcnt (bufs (released i s) j) = (if j = i then 0 else brefcnt (bufs s j))"
  by simp_all

lemma relock_bufs: "relock k s (t\<lparr>bufs := x\<rparr>) = (relock k s t)\<lparr>bufs := x\<rparr>"
  by (simp add: relock_def)

lemma brelse_ok:
  assumes ok: "bio_ok xs H s" and i: "i \<in> H"
  shows "brelse i s = Ok (released i s)"
proof -
  note h = holding_held [OF ok i]
  let ?w = "wakeup1 (Buf_chan i) (sl_upd (SL_buf i) False 0 s)"
  let ?e = "enter Bcache_lock ?w"
  let ?bf = "pushb i (unlinkb i ((bufs s)(i := (bufs s i)\<lparr>brefcnt := 0\<rparr>)))"
  have cpu: "cpu_ok ?w" "lock_free Bcache_lock ?w"
    using bio_okD(2,3) [OF ok] by (simp_all add: cpu_ok_def lock_free_def)
  have r1: "releasesleep (SL_buf i) s = Ok ?w" using bio_okD(2,3) [OF ok] releasesleep_ok [of s "SL_buf i"] by simp
  have r2: "release Bcache_lock (?e\<lparr>bufs := ?bf\<rparr>) = Ok (relock Bcache_lock ?w (?e\<lparr>bufs := ?bf\<rparr>))"
    by (rule release_relock [OF cpu]) (simp_all add: enter_def)
  have c: "brefcnt (bufs s i) = 1" using bio_okD(10) [OF ok h(2)] i by simp
  have "brelse i s = release Bcache_lock (?e\<lparr>bufs := ?bf\<rparr>)"
    using c acquire_free [OF cpu] r1 h(1)
    by (simp add: brelse_def push_front_bufs upd_buf_def unlinkb_def Let_def)
  then show ?thesis unfolding r2 relock_bufs relock_enter released_def .
qed

lemma me_released: "bio_ok xs H s \<Longrightarrow> me (released i s) = me s"
proof -
  assume "bio_ok xs H s"
  then obtain p where "p < length (procs s)" "cproc s (cur s) = Some p" using bio_okD(4) by blast
  moreover from this have "pid (procs (released i s) ! p) = pid (procs s ! p)" by (simp add: released_def wakeup1_def)
  ultimately show ?thesis by (simp add: me_def)
qed

lemma released_ok:
  assumes ok: "bio_ok xs H s" and i: "i \<in> H" and d: "bdirty (bufs s i) \<or> bdata (bufs s i) = disk s (blockno (bufs s i))"
  shows "bio_ok (i # remove1 i xs) (H - {i}) (released i s)" and "view (released i s) = view s"
proof -
  note iN = holding_held(2) [OF ok i]
  have c: "caches (released i s) j b = caches s j b" for j b unfolding caches_def released_fields ..
  show "bio_ok (i # remove1 i xs) (H - {i}) (released i s)" unfolding bio_ok_def c
  proof (intro conjI allI impI)
    show "dll (bufs (released i s)) (i # remove1 i xs)" unfolding released_simps
      by (rule dll_move_front [OF dll_cong [OF bio_okD(1) [OF ok]] iN]) simp_all
    show "cpu_ok (released i s)" unfolding released_simps by (rule bio_okD(2) [OF ok])
    show "lock_free l (released i s)" for l unfolding released_simps by (rule bio_okD(3) [OF ok])
    show "\<exists>p < length (procs (released i s)). cproc (released i s) (cur (released i s)) = Some p"
      unfolding released_simps using bio_okD(4) [OF ok] by blast
    show "H - {i} \<subseteq> {..<NBUF}" using bio_okD(5) [OF ok] by blast
    fix j k c assume "j < NBUF" "k < NBUF" "caches s j c" "caches s k c"
    then show "j = k" by (rule bio_okD(6) [OF ok])
  next
    fix j assume j: "j < NBUF"
    show "slocked (sleeplocks (released i s) (SL_buf j)) = (j \<in> H - {i})" using bio_okD(7) [OF ok j] by simp
    show "brefcnt (bufs (released i s) j) = (if j \<in> H - {i} then 1 else 0)"
      unfolding released_fields bio_okD(10) [OF ok j] by simp
    show "bvalid (bufs (released i s) j)" if "bdev (bufs (released i s) j) = 1"
      using that unfolding released_fields by (rule bio_okD(12) [OF ok j])
    show "bdev (bufs (released i s) j) = 1" if "bdirty (bufs (released i s) j)"
      using that unfolding released_fields by (rule bio_okD(11) [OF ok j])
    show "slpid (sleeplocks (released i s) (SL_buf j)) = me (released i s)" if "j \<in> H - {i}"
      using that bio_okD(8) [OF ok, of j] by (simp add: me_released [OF ok])
    show "bdev (bufs (released i s) j) = 1" if "j \<in> H - {i}" using that bio_okD(9) [OF ok] unfolding released_fields by blast
    show "bdata (bufs (released i s) j) = disk (released i s) (blockno (bufs (released i s) j))"
      if "bdev (bufs (released i s) j) = 1" "\<not> bdirty (bufs (released i s) j)" "j \<notin> H - {i}"
      using that d bio_okD(13) [OF ok j] unfolding released_fields released_simps(6) by blast
  qed
  show "view (released i s) = view s" unfolding view_def c released_fields released_simps(6) ..
qed

section \<open>The interface of the cache\<close>

text \<open>
  What the layers above rely on. \<open>inv h s\<close>: the caller holds the buffers in the domain of \<open>h\<close>,
  each with the block \<open>h\<close> gives; \<open>vw\<close> is the content of every block as seen through the cache,
  \<open>dsk\<close> the disk, \<open>pin\<close> the blocks that must not leave the cache, \<open>wrs\<close> the history of disk
  writes, \<open>lim\<close> the size of the disk, \<open>cap\<close> the number of buffers, and \<open>fr s t\<close> says that nothing
  else of the state differs.
\<close>

locale block_cache =
  fixes rd :: "u32 \<Rightarrow> 's \<Rightarrow> (nat \<times> 's) res" and wr :: "nat \<Rightarrow> 's \<Rightarrow> 's res" and rl :: "nat \<Rightarrow> 's \<Rightarrow> 's res"
    and md :: "nat \<Rightarrow> block \<Rightarrow> 's \<Rightarrow> 's" and dt :: "'s \<Rightarrow> nat \<Rightarrow> block"
    and inv :: "(nat \<rightharpoonup> u32) \<Rightarrow> 's \<Rightarrow> bool" and vw :: "'s \<Rightarrow> u32 \<Rightarrow> block" and dsk :: "'s \<Rightarrow> u32 \<Rightarrow> block"
    and pin :: "'s \<Rightarrow> u32 set" and wrs :: "'s \<Rightarrow> (u32 \<times> block) list" and lim :: "'s \<Rightarrow> u32" and cap :: nat
    and fr :: "'s \<Rightarrow> 's \<Rightarrow> bool"
  assumes rd: "inv h s \<Longrightarrow> b < lim s \<Longrightarrow> b \<notin> ran h \<Longrightarrow> b \<in> pin s \<or> card (pin s) + card (dom h) < cap \<Longrightarrow>
      \<exists>i t. rd b s = Ok (i, t) \<and> i \<notin> dom h \<and> inv (h(i \<mapsto> b)) t \<and> vw t = vw s \<and> dsk t = dsk s \<and> wrs t = wrs s \<and> pin t = pin s \<and> fr s t"
    and dt: "inv h s \<Longrightarrow> h i = Some b \<Longrightarrow> dt s i = vw s b"
    and md: "inv h s \<Longrightarrow> h i = Some b \<Longrightarrow>
      inv h (md i d s) \<and> vw (md i d s) = (vw s)(b := d) \<and> dsk (md i d s) = dsk s \<and> wrs (md i d s) = wrs s \<and> pin (md i d s) = pin s
      \<and> fr s (md i d s)"
    and wr: "inv h s \<Longrightarrow> h i = Some b \<Longrightarrow> b < lim s \<Longrightarrow>
      \<exists>t. wr i s = Ok t \<and> inv h t \<and> vw t = vw s \<and> dsk t = (dsk s)(b := vw s b) \<and> wrs t = wrs s @ [(b, vw s b)] \<and> pin t = pin s - {b} \<and> fr s t"
    and rl: "inv h s \<Longrightarrow> h i = Some b \<Longrightarrow> b \<in> pin s \<or> vw s b = dsk s b \<Longrightarrow>
      \<exists>t. rl i s = Ok t \<and> inv (h(i := None)) t \<and> vw t = vw s \<and> dsk t = dsk s \<and> wrs t = wrs s \<and> pin t = pin s \<and> fr s t"
    and fr_trans: "fr s t \<Longrightarrow> fr t u \<Longrightarrow> fr s u"
    and fr_lim: "fr s t \<Longrightarrow> lim t = lim s"
begin

text \<open>Reading two blocks, copying one to the other, writing that one and letting both go.\<close>

lemma two_held:
  assumes "inv Map.empty s" "a < lim s" "b < lim s" "a \<noteq> b" "card (pin s) < cap" "b \<in> pin s \<or> Suc (card (pin s)) < cap"
  shows "\<exists>x t y u. rd a s = Ok (x, t) \<and> rd b t = Ok (y, u) \<and> x \<noteq> y \<and> inv [x \<mapsto> a, y \<mapsto> b] u
    \<and> vw u = vw s \<and> dsk u = dsk s \<and> wrs u = wrs s \<and> pin u = pin s \<and> fr s u \<and> fr s t"
proof -
  obtain x t where t: "rd a s = Ok (x, t)" "inv [x \<mapsto> a] t" "vw t = vw s" "dsk t = dsk s" "wrs t = wrs s" "pin t = pin s" "fr s t"
    using rd [OF assms(1,2)] assms(5) by auto
  obtain y u where u: "rd b t = Ok (y, u)" "y \<notin> dom [x \<mapsto> a]" "inv [x \<mapsto> a, y \<mapsto> b] u" "vw u = vw t" "dsk u = dsk t" "wrs u = wrs t"
    "pin u = pin t" "fr t u"
    using rd [OF t(2), of b] fr_lim [OF t(7)] assms(3,4,6) t(6) by auto
  show ?thesis using t u fr_trans [OF t(7) u(8)] by auto
qed

lemma copy_second:
  assumes s: "inv Map.empty s" "a < lim s" "b < lim s" "a \<noteq> b" "card (pin s) < cap" "b \<in> pin s \<or> Suc (card (pin s)) < cap"
    and a: "a \<in> pin s \<or> vw s a = dsk s a"
  shows "\<exists>x t1 y t2 t3 t4 t. rd a s = Ok (x, t1) \<and> rd b t1 = Ok (y, t2) \<and> wr y (md y (dt t2 x) t2) = Ok t3 \<and> rl x t3 = Ok t4 \<and> rl y t4 = Ok t
    \<and> fr s t1 \<and> inv Map.empty t \<and> vw t = (vw s)(b := vw s a) \<and> dsk t = (dsk s)(b := vw s a) \<and> wrs t = wrs s @ [(b, vw s a)]
    \<and> pin t = pin s - {b} \<and> fr s t"
proof -
  obtain x t1 y t2 where r: "rd a s = Ok (x, t1)" "rd b t1 = Ok (y, t2)" and xy: "x \<noteq> y" and t2: "inv [x \<mapsto> a, y \<mapsto> b] t2"
    "vw t2 = vw s" "dsk t2 = dsk s" "wrs t2 = wrs s" "pin t2 = pin s" "fr s t2" and t1: "fr s t1"
    using two_held [OF s] by blast
  have d: "dt t2 x = vw s a" using dt [OF t2(1), of x a] t2(2) xy by simp
  let ?m = "md y (dt t2 x) t2"
  have m: "inv [x \<mapsto> a, y \<mapsto> b] ?m" "vw ?m = (vw s)(b := vw s a)" "dsk ?m = dsk s" "wrs ?m = wrs s" "pin ?m = pin s" "fr t2 ?m"
    using md [OF t2(1), of y b "dt t2 x"] t2 d by simp_all
  have f: "fr s ?m" using fr_trans [OF t2(6) m(6)] .
  obtain t3 where t3: "wr y ?m = Ok t3" "inv [x \<mapsto> a, y \<mapsto> b] t3" "vw t3 = vw ?m" "dsk t3 = (dsk s)(b := vw s a)"
    "wrs t3 = wrs s @ [(b, vw s a)]" "pin t3 = pin s - {b}" "fr ?m t3"
    using wr [OF m(1), of y b] m fr_lim [OF f] s(3) by auto
  have "a \<in> pin t3 \<or> vw t3 a = dsk t3 a" using a s(4) t3 m by auto
  then obtain t4 where t4: "rl x t3 = Ok t4" "inv ([x \<mapsto> a, y \<mapsto> b](x := None)) t4" "vw t4 = vw t3" "dsk t4 = dsk t3" "wrs t4 = wrs t3"
    "pin t4 = pin t3" "fr t3 t4" using rl [OF t3(2), of x a] xy by auto
  have "vw t4 b = dsk t4 b" using t3 t4 m by simp
  then obtain t where t: "rl y t4 = Ok t" "inv ([x \<mapsto> a, y \<mapsto> b](x := None, y := None)) t" "vw t = vw t4" "dsk t = dsk t4" "wrs t = wrs t4"
    "pin t = pin t4" "fr t4 t" using rl [OF t4(2), of y b] xy by auto
  have "[x \<mapsto> a, y \<mapsto> b](x := None, y := None) = Map.empty" by auto
  then have "inv Map.empty t" using t(2) by simp
  moreover have "fr s t" using fr_trans [OF fr_trans [OF fr_trans [OF f t3(7)] t4(7)] t(7)] .
  ultimately show ?thesis using r t1 t3 t4 t m by (intro exI conjI) (assumption | simp)+
qed

lemma copy_first:
  assumes s: "inv Map.empty s" "a < lim s" "b < lim s" "a \<noteq> b" "card (pin s) < cap" "b \<in> pin s \<or> Suc (card (pin s)) < cap"
    and b: "b \<in> pin s \<or> vw s b = dsk s b"
  shows "\<exists>x t1 y t2 t3 t4 t. rd a s = Ok (x, t1) \<and> rd b t1 = Ok (y, t2) \<and> wr x (md x (dt t2 y) t2) = Ok t3 \<and> rl y t3 = Ok t4 \<and> rl x t4 = Ok t
    \<and> fr s t1 \<and> inv Map.empty t \<and> vw t = (vw s)(a := vw s b) \<and> dsk t = (dsk s)(a := vw s b) \<and> wrs t = wrs s @ [(a, vw s b)]
    \<and> pin t = pin s - {a} \<and> fr s t"
proof -
  obtain x t1 y t2 where r: "rd a s = Ok (x, t1)" "rd b t1 = Ok (y, t2)" and xy: "x \<noteq> y" and t2: "inv [x \<mapsto> a, y \<mapsto> b] t2"
    "vw t2 = vw s" "dsk t2 = dsk s" "wrs t2 = wrs s" "pin t2 = pin s" "fr s t2" and t1: "fr s t1"
    using two_held [OF s] by blast
  have d: "dt t2 y = vw s b" using dt [OF t2(1), of y b] t2(2) by simp
  let ?m = "md x (dt t2 y) t2"
  have m: "inv [x \<mapsto> a, y \<mapsto> b] ?m" "vw ?m = (vw s)(a := vw s b)" "dsk ?m = dsk s" "wrs ?m = wrs s" "pin ?m = pin s" "fr t2 ?m"
    using md [OF t2(1), of x a "dt t2 y"] t2 d xy by simp_all
  have f: "fr s ?m" using fr_trans [OF t2(6) m(6)] .
  obtain t3 where t3: "wr x ?m = Ok t3" "inv [x \<mapsto> a, y \<mapsto> b] t3" "vw t3 = vw ?m" "dsk t3 = (dsk s)(a := vw s b)"
    "wrs t3 = wrs s @ [(a, vw s b)]" "pin t3 = pin s - {a}" "fr ?m t3"
    using wr [OF m(1), of x a] m fr_lim [OF f] s(2) xy by auto
  have "b \<in> pin t3 \<or> vw t3 b = dsk t3 b" using b s(4) t3 m by auto
  then obtain t4 where t4: "rl y t3 = Ok t4" "inv ([x \<mapsto> a, y \<mapsto> b](y := None)) t4" "vw t4 = vw t3" "dsk t4 = dsk t3" "wrs t4 = wrs t3"
    "pin t4 = pin t3" "fr t3 t4" using rl [OF t3(2), of y b] by auto
  have "vw t4 a = dsk t4 a" using t3 t4 m by simp
  then obtain t where t: "rl x t4 = Ok t" "inv ([x \<mapsto> a, y \<mapsto> b](y := None, x := None)) t" "vw t = vw t4" "dsk t = dsk t4" "wrs t = wrs t4"
    "pin t = pin t4" "fr t4 t" using rl [OF t4(2), of x a] xy by auto
  have "[x \<mapsto> a, y \<mapsto> b](y := None, x := None) = Map.empty" by auto
  then have "inv Map.empty t" using t(2) by simp
  moreover have "fr s t" using fr_trans [OF fr_trans [OF fr_trans [OF f t3(7)] t4(7)] t(7)] .
  ultimately show ?thesis using r t1 t3 t4 t m by (intro exI conjI) (assumption | simp)+
qed

text \<open>Reading one block, changing it, writing it through and letting it go; and only reading it.\<close>

lemma rewrite_one:
  assumes s: "inv Map.empty s" "a < lim s" "a \<in> pin s \<or> card (pin s) < cap"
  shows "\<exists>x t1. rd a s = Ok (x, t1) \<and> fr s t1 \<and> dt t1 x = vw s a \<and> (\<forall>d. \<exists>t3 t. wr x (md x d t1) = Ok t3 \<and> rl x t3 = Ok t
    \<and> inv Map.empty t \<and> vw t = (vw s)(a := d) \<and> dsk t = (dsk s)(a := d) \<and> wrs t = wrs s @ [(a, d)] \<and> pin t = pin s - {a} \<and> fr s t)"
proof -
  obtain x t1 where t1: "rd a s = Ok (x, t1)" "inv [x \<mapsto> a] t1" "vw t1 = vw s" "dsk t1 = dsk s" "wrs t1 = wrs s" "pin t1 = pin s" "fr s t1"
    using rd [OF s(1,2)] s(3) by auto
  have "\<exists>t3 t. wr x (md x d t1) = Ok t3 \<and> rl x t3 = Ok t
    \<and> inv Map.empty t \<and> vw t = (vw s)(a := d) \<and> dsk t = (dsk s)(a := d) \<and> wrs t = wrs s @ [(a, d)] \<and> pin t = pin s - {a} \<and> fr s t" for d
  proof -
    let ?m = "md x d t1"
    have m: "inv [x \<mapsto> a] ?m" "vw ?m = (vw s)(a := d)" "dsk ?m = dsk s" "wrs ?m = wrs s" "pin ?m = pin s" "fr t1 ?m"
      using md [OF t1(2), of x a d] t1 by simp_all
    have f: "fr s ?m" using fr_trans [OF t1(7) m(6)] .
    obtain t3 where t3: "wr x ?m = Ok t3" "inv [x \<mapsto> a] t3" "vw t3 = vw ?m" "dsk t3 = (dsk s)(a := d)"
      "wrs t3 = wrs s @ [(a, d)]" "pin t3 = pin s - {a}" "fr ?m t3"
      using wr [OF m(1), of x a] m fr_lim [OF f] s(2) by auto
    have "vw t3 a = dsk t3 a" using t3 m by simp
    then obtain t where t: "rl x t3 = Ok t" "inv ([x \<mapsto> a](x := None)) t" "vw t = vw t3" "dsk t = dsk t3" "wrs t = wrs t3"
      "pin t = pin t3" "fr t3 t" using rl [OF t3(2), of x a] by auto
    have "[x \<mapsto> a](x := None) = Map.empty" by auto
    then show ?thesis using t t3 m fr_trans [OF fr_trans [OF f t3(7)] t(7)] by auto
  qed
  then show ?thesis using t1 dt [OF t1(2), of x a] by auto
qed

lemma read_one:
  assumes s: "inv Map.empty s" "a < lim s" "a \<in> pin s \<or> card (pin s) < cap" "a \<in> pin s \<or> vw s a = dsk s a"
  shows "\<exists>x t1 t. rd a s = Ok (x, t1) \<and> fr s t1 \<and> dt t1 x = vw s a \<and> rl x t1 = Ok t \<and> inv Map.empty t \<and> vw t = vw s \<and> dsk t = dsk s
    \<and> wrs t = wrs s \<and> pin t = pin s \<and> fr s t"
proof -
  obtain x t1 where t1: "rd a s = Ok (x, t1)" "inv [x \<mapsto> a] t1" "vw t1 = vw s" "dsk t1 = dsk s" "wrs t1 = wrs s" "pin t1 = pin s" "fr s t1"
    using rd [OF s(1,2)] s(3) by auto
  obtain t where t: "rl x t1 = Ok t" "inv ([x \<mapsto> a](x := None)) t" "vw t = vw t1" "dsk t = dsk t1" "wrs t = wrs t1"
    "pin t = pin t1" "fr t1 t" using rl [OF t1(2), of x a] s(4) t1 by auto
  have "[x \<mapsto> a](x := None) = Map.empty" by auto
  then show ?thesis using t t1 fr_trans [OF t1(7) t(7)] dt [OF t1(2), of x a] by auto
qed

end

definition pinned :: "'z bio_st_scheme \<Rightarrow> u32 set" where
  "pinned s = (\<lambda>i. blockno (bufs s i)) ` {i. i < NBUF \<and> bdirty (bufs s i)}"

definition cache_inv :: "(nat \<rightharpoonup> u32) \<Rightarrow> 'z bio_st_scheme \<Rightarrow> bool" where
  "cache_inv h s \<longleftrightarrow> (\<exists>xs. bio_ok xs (dom h) s) \<and> (\<forall>i b. h i = Some b \<longrightarrow> blockno (bufs s i) = b)"

definition buf_data :: "'z bio_st_scheme \<Rightarrow> nat \<Rightarrow> block" where
  "buf_data s i = bdata (bufs s i)"

definition set_data :: "nat \<Rightarrow> block \<Rightarrow> 'z bio_st_scheme \<Rightarrow> 'z bio_st_scheme" where
  "set_data i d s = upd_buf i (\<lambda>q. q\<lparr>bdata := d\<rparr>) s"

definition bio_frame :: "'z bio_st_scheme \<Rightarrow> 'z bio_st_scheme \<Rightarrow> bool" where
  "bio_frame s t \<longleftrightarrow> (\<exists>p sl bf d w. t = s\<lparr>procs := p, sleeplocks := sl, bufs := bf, disk := d, dwrites := w\<rparr>)"

lemma bio_frame_trans: "bio_frame s t \<Longrightarrow> bio_frame t u \<Longrightarrow> bio_frame s u"
  unfolding bio_frame_def by (elim exE, simp only:, simp) blast

lemma bio_frameI:
  "t = s\<lparr>procs := procs t, sleeplocks := sleeplocks t, bufs := bufs t, disk := disk t, dwrites := dwrites t\<rparr> \<Longrightarrow> bio_frame s t"
  unfolding bio_frame_def by blast

lemma frames:
  "bio_frame s (hold i b s)" "bio_frame s (written i s)" "bio_frame s (released i s)" "bio_frame s (set_data i d s)"
  by (rule bio_frameI, simp add: hold_def written_def released_def set_data_def sl_upd_def upd_buf_def wakeup1_def)+

lemma caches_dirty: "bio_ok xs H s \<Longrightarrow> i < NBUF \<Longrightarrow> bdirty (bufs s i) \<Longrightarrow> caches s i (blockno (bufs s i))"
  using bio_okD(11) by (auto simp: caches_def)

lemma card_pinned:
  assumes ok: "bio_ok xs H s"
  shows "card (pinned s) = card {i. i < NBUF \<and> bdirty (bufs s i)}"
  unfolding pinned_def
proof (intro card_image inj_onI)
  fix i j assume "i \<in> {i. i < NBUF \<and> bdirty (bufs s i)}" "j \<in> {i. i < NBUF \<and> bdirty (bufs s i)}" and e: "blockno (bufs s i) = blockno (bufs s j)"
  then have "i < NBUF" "j < NBUF" "caches s i (blockno (bufs s i))" "caches s j (blockno (bufs s i))"
    using caches_dirty [OF ok, of i] caches_dirty [OF ok, of j] by auto
  then show "i = j" by (rule bio_okD(6) [OF ok])
qed

lemma clean_buffer:
  assumes ok: "bio_ok xs H s" and c: "card (pinned s) + card H < NBUF"
  shows "\<exists>i < NBUF. i \<notin> H \<and> \<not> bdirty (bufs s i)"
proof (rule ccontr)
  assume "\<not> ?thesis"
  then have "{..<NBUF} \<subseteq> {i. i < NBUF \<and> bdirty (bufs s i)} \<union> H" by auto
  moreover have "finite H" using bio_okD(5) [OF ok] finite_subset by blast
  ultimately have "card {..<NBUF} \<le> card ({i. i < NBUF \<and> bdirty (bufs s i)} \<union> H)" by (intro card_mono) auto
  also have "\<dots> \<le> card (pinned s) + card H" unfolding card_pinned [OF ok] by (rule card_Un_le)
  finally show False using c by simp
qed

lemma pinned_cong:
  "(\<And>i. blockno (bufs t i) = blockno (bufs s i)) \<Longrightarrow> (\<And>i. bdirty (bufs t i) = bdirty (bufs s i)) \<Longrightarrow> pinned t = pinned s"
  by (simp add: pinned_def)

lemma pinned_hold: "takes H s i b \<Longrightarrow> pinned (hold i b s) = pinned s"
proof -
  assume a: "takes H s i b"
  have "bdirty (bufs (hold i b s) j) = bdirty (bufs s j)" for j by simp
  moreover have "bdirty (bufs s j) \<Longrightarrow> blockno (bufs (hold i b s) j) = blockno (bufs s j)" for j
    using a by (cases "j = i") (auto simp: takes_def caches_def)
  ultimately show ?thesis unfolding pinned_def by (metis (mono_tags, lifting) Collect_cong image_cong mem_Collect_eq)
qed

lemma pinned_written:
  assumes ok: "bio_ok xs H s" and i: "i \<in> H"
  shows "pinned (written i s) = pinned s - {blockno (bufs s i)}"
proof -
  note iN = holding_held(2) [OF ok i]
  have ci: "caches s i (blockno (bufs s i))" using bio_okD(9) [OF ok i] by (simp add: caches_def)
  have only: "j = i" if "j < NBUF" "bdirty (bufs s j)" "blockno (bufs s j) = blockno (bufs s i)" for j
  proof -
    have "caches s j (blockno (bufs s i))" using caches_dirty [OF ok that(1,2)] unfolding that(3) .
    then show ?thesis using bio_okD(6) [OF ok that(1) iN _ ci] by blast
  qed
  show ?thesis
  proof (rule set_eqI)
    fix x
    have A: "x \<in> pinned (written i s) \<longleftrightarrow> (\<exists>j < NBUF. j \<noteq> i \<and> bdirty (bufs s j) \<and> x = blockno (bufs s j))"
      by (simp only: pinned_def image_iff mem_Collect_eq written_fields) blast
    have B: "x \<in> pinned s \<longleftrightarrow> (\<exists>j < NBUF. bdirty (bufs s j) \<and> x = blockno (bufs s j))"
      by (simp only: pinned_def image_iff mem_Collect_eq) blast
    show "x \<in> pinned (written i s) \<longleftrightarrow> x \<in> pinned s - {blockno (bufs s i)}"
    proof
      assume "x \<in> pinned (written i s)"
      then obtain j where j: "j < NBUF" "j \<noteq> i" "bdirty (bufs s j)" "x = blockno (bufs s j)" unfolding A by blast
      then have "x \<noteq> blockno (bufs s i)" using only [OF j(1,3)] by metis
      then show "x \<in> pinned s - {blockno (bufs s i)}" using j B by blast
    next
      assume "x \<in> pinned s - {blockno (bufs s i)}"
      then obtain j where j: "j < NBUF" "bdirty (bufs s j)" "x = blockno (bufs s j)" and ne: "x \<noteq> blockno (bufs s i)" using B by blast
      then have "j \<noteq> i" by metis
      then show "x \<in> pinned (written i s)" unfolding A using j by blast
    qed
  qed
qed

lemma read_law:
  assumes c: "cache_inv h s" "b < disksize s" "b \<notin> ran h" "b \<in> pinned s \<or> card (pinned s) + card (dom h) < NBUF"
  shows "\<exists>i t. bread 1 b s = Ok (i, t) \<and> i \<notin> dom h \<and> cache_inv (h(i \<mapsto> b)) t \<and> view t = view s \<and> disk t = disk s \<and> dwrites t = dwrites s
    \<and> pinned t = pinned s \<and> bio_frame s t"
proof -
  obtain xs where ok: "bio_ok xs (dom h) s" and hb: "\<And>i b. h i = Some b \<Longrightarrow> blockno (bufs s i) = b" using c(1) by (auto simp: cache_inv_def)
  have nb: "\<forall>i \<in> dom h. blockno (bufs s i) \<noteq> b" using c(3) hb by (auto simp: ran_def)
  have "(\<exists>i < NBUF. caches s i b) \<or> (\<exists>i < NBUF. i \<notin> dom h \<and> \<not> bdirty (bufs s i))"
  proof (cases "b \<in> pinned s")
    case True
    then show ?thesis using caches_dirty [OF ok] unfolding pinned_def by blast
  next
    case False
    then show ?thesis using clean_buffer [OF ok] c(4) by blast
  qed
  then obtain i where i: "bread 1 b s = Ok (i, hold i b s)" "takes (dom h) s i b"
    using bread_spec [OF ok c(2) nb] unfolding takes_def by blast
  have "bio_ok xs (dom (h(i \<mapsto> b))) (hold i b s)" using hold_ok [OF ok i(2)] by simp
  moreover have "\<forall>j c. (h(i \<mapsto> b)) j = Some c \<longrightarrow> blockno (bufs (hold i b s) j) = c" using hb by (auto split: if_splits)
  ultimately have "cache_inv (h(i \<mapsto> b)) (hold i b s)" unfolding cache_inv_def by blast
  moreover have "i \<notin> dom h" using i(2) by (simp add: takes_def)
  ultimately show ?thesis using i(1) hold_view [OF ok i(2)] pinned_hold [OF i(2)] frames(1)
    by (intro exI [of _ i] exI [of _ "hold i b s"]) simp
qed

lemma data_law: "cache_inv h s \<Longrightarrow> h i = Some b \<Longrightarrow> buf_data s i = view s b"
proof -
  assume c: "cache_inv h s" "h i = Some b"
  then obtain xs where ok: "bio_ok xs (dom h) s" and hb: "blockno (bufs s i) = b" by (auto simp: cache_inv_def)
  have "i \<in> dom h" using c(2) by auto
  then have "caches s i b" "i < NBUF" using bio_okD(9) [OF ok] holding_held(2) [OF ok] hb by (auto simp: caches_def)
  then show ?thesis using view_caches [OF ok] by (simp add: buf_data_def)
qed

lemma modify_law:
  assumes c: "cache_inv h s" "h i = Some b"
  shows "cache_inv h (set_data i d s) \<and> view (set_data i d s) = (view s)(b := d) \<and> disk (set_data i d s) = disk s
    \<and> dwrites (set_data i d s) = dwrites s \<and> pinned (set_data i d s) = pinned s \<and> bio_frame s (set_data i d s)"
proof -
  obtain xs where ok: "bio_ok xs (dom h) s" and hb: "\<And>i b. h i = Some b \<Longrightarrow> blockno (bufs s i) = b" using c(1) by (auto simp: cache_inv_def)
  have i: "i \<in> dom h" using c(2) by auto
  have "\<forall>j c. h j = Some c \<longrightarrow> blockno (bufs (set_data i d s) j) = c" using hb by (auto simp: set_data_def)
  then have "cache_inv h (set_data i d s)" using set_data_ok(1) [OF ok i, of d] unfolding cache_inv_def set_data_def by blast
  moreover have "pinned (set_data i d s) = pinned s" by (rule pinned_cong) (simp_all add: set_data_def)
  ultimately show ?thesis using set_data_ok(2) [OF ok i, of d] hb [OF c(2)] frames(4) by (simp add: set_data_def)
qed

lemma write_law:
  assumes c: "cache_inv h s" "h i = Some b" "b < disksize s"
  shows "\<exists>t. bwrite i s = Ok t \<and> cache_inv h t \<and> view t = view s \<and> disk t = (disk s)(b := view s b) \<and> dwrites t = dwrites s @ [(b, view s b)]
    \<and> pinned t = pinned s - {b} \<and> bio_frame s t"
proof -
  obtain xs where ok: "bio_ok xs (dom h) s" and hb: "\<And>i b. h i = Some b \<Longrightarrow> blockno (bufs s i) = b" using c(1) by (auto simp: cache_inv_def)
  have i: "i \<in> dom h" using c(2) by auto
  have "\<forall>j c. h j = Some c \<longrightarrow> blockno (bufs (written i s) j) = c" unfolding written_fields using hb by blast
  then have "cache_inv h (written i s)" using written_ok [OF ok i] unfolding cache_inv_def by blast
  moreover have "bdata (bufs s i) = view s b" using data_law [OF c(1,2)] by (simp add: buf_data_def)
  ultimately show ?thesis
    using bwrite_ok [OF ok i] hb [OF c(2)] c(3) written_view [OF ok i] pinned_written [OF ok i] frames(2)
    by (intro exI [of _ "written i s"]) simp
qed

lemma release_law:
  assumes c: "cache_inv h s" "h i = Some b" "b \<in> pinned s \<or> view s b = disk s b"
  shows "\<exists>t. brelse i s = Ok t \<and> cache_inv (h(i := None)) t \<and> view t = view s \<and> disk t = disk s \<and> dwrites t = dwrites s
    \<and> pinned t = pinned s \<and> bio_frame s t"
proof -
  obtain xs where ok: "bio_ok xs (dom h) s" and hb: "\<And>i b. h i = Some b \<Longrightarrow> blockno (bufs s i) = b" using c(1) by (auto simp: cache_inv_def)
  have i: "i \<in> dom h" using c(2) by auto
  have ib: "caches s i b" "i < NBUF" using bio_okD(9) [OF ok i] holding_held(2) [OF ok i] hb [OF c(2)] by (auto simp: caches_def)
  have d: "bdirty (bufs s i) \<or> bdata (bufs s i) = disk s (blockno (bufs s i))"
  proof (cases "b \<in> pinned s")
    case True
    then obtain j where j: "j < NBUF" "bdirty (bufs s j)" "b = blockno (bufs s j)" unfolding pinned_def by blast
    then have "j = i" using bio_okD(6) [OF ok j(1) ib(2)] caches_dirty [OF ok j(1,2)] ib(1) by blast
    then show ?thesis using j(2) by simp
  next
    case False
    then show ?thesis using c(3) view_caches [OF ok ib(2,1)] hb [OF c(2)] by simp
  qed
  have "bio_ok (i # remove1 i xs) (dom (h(i := None))) (released i s)" using released_ok(1) [OF ok i d] by simp
  moreover have "\<forall>j c. (h(i := None)) j = Some c \<longrightarrow> blockno (bufs (released i s) j) = c"
    unfolding released_fields using hb by (auto split: if_splits)
  ultimately have "cache_inv (h(i := None)) (released i s)" unfolding cache_inv_def by blast
  moreover have "pinned (released i s) = pinned s" by (rule pinned_cong) (simp_all only: released_fields)
  ultimately show ?thesis using brelse_ok [OF ok i] released_ok(2) [OF ok i d] frames(3)
    by (intro exI [of _ "released i s"]) (simp only: released_simps simp_thms)
qed

lemma bio_frame_disksize: "bio_frame s t \<Longrightarrow> disksize t = disksize s"
  by (auto simp: bio_frame_def)

interpretation bc: block_cache "bread 1" bwrite brelse set_data buf_data cache_inv view disk pinned dwrites disksize NBUF bio_frame
proof unfold_locales
  fix h :: "nat \<rightharpoonup> u32" and s :: "'a bio_st_scheme" and b
  assume a: "cache_inv h s" "b < disksize s" "b \<notin> ran h" "b \<in> pinned s \<or> card (pinned s) + card (dom h) < NBUF"
  show "\<exists>i t. bread 1 b s = Ok (i, t) \<and> i \<notin> dom h \<and> cache_inv (h(i \<mapsto> b)) t \<and> view t = view s \<and> disk t = disk s \<and> dwrites t = dwrites s
    \<and> pinned t = pinned s \<and> bio_frame s t" by (rule read_law [OF a])
qed (rule data_law modify_law write_law release_law bio_frame_trans bio_frame_disksize; assumption)+

section \<open>Boot\<close>

lemma initsleeplock_simps [simp]:
  "bufs (initsleeplock l nm s) = bufs s" "disk (initsleeplock l nm s) = disk s" "lapicid (initsleeplock l nm s) = lapicid s"
  "apicids (initsleeplock l nm s) = apicids s" "ncli (initsleeplock l nm s) = ncli s" "intena (initsleeplock l nm s) = intena s"
  "ifl (initsleeplock l nm s) = ifl s" "cproc (initsleeplock l nm s) = cproc s" "procs (initsleeplock l nm s) = procs s"
  "lock_free k (initsleeplock l nm s) = (k = inner l \<or> lock_free k s)"
  "sleeplocks (initsleeplock l nm s) = (sleeplocks s)(l := \<lparr>slocked = False, slname = nm, slpid = 0\<rparr>)"
  by (auto simp: initsleeplock_def initlock_def Let_def lock_free_def)

lemma binit_loop_dll: "n \<le> NBUF \<Longrightarrow> lseg (bufs s) HEAD [] HEAD \<Longrightarrow> lseg (bufs (binit_loop n s)) HEAD (rev [0..<n]) HEAD"
proof (induction n)
  case (Suc n)
  then have "lseg (bufs (initsleeplock (SL_buf n) ''buffer'' (binit_loop n s))) HEAD (rev [0..<n]) HEAD" by simp
  then have "lseg (pushb n (bufs (initsleeplock (SL_buf n) ''buffer'' (binit_loop n s)))) HEAD (n # rev [0..<n]) HEAD"
    using Suc.prems by (intro pushb_lseg) auto
  then show ?case by (simp add: push_front_bufs)
qed simp

lemma push_front_simps [simp]:
  "disk (push_front i s) = disk s" "lapicid (push_front i s) = lapicid s" "apicids (push_front i s) = apicids s"
  "ncli (push_front i s) = ncli s" "intena (push_front i s) = intena s" "ifl (push_front i s) = ifl s" "cproc (push_front i s) = cproc s"
  "procs (push_front i s) = procs s" "locks (push_front i s) = locks s" "sleeplocks (push_front i s) = sleeplocks s"
  "lock_free k (push_front i s) = lock_free k s"
  by (simp_all add: push_front_bufs lock_free_def)

lemma binit_loop_keeps:
  "lapicid (binit_loop n s) = lapicid s \<and> apicids (binit_loop n s) = apicids s \<and> ncli (binit_loop n s) = ncli s
   \<and> intena (binit_loop n s) = intena s \<and> ifl (binit_loop n s) = ifl s \<and> cproc (binit_loop n s) = cproc s \<and> procs (binit_loop n s) = procs s
   \<and> disk (binit_loop n s) = disk s"
  by (induction n) simp_all

lemma binit_loop_bufs:
  "brefcnt (bufs (binit_loop n s) i) = brefcnt (bufs s i) \<and> bdirty (bufs (binit_loop n s) i) = bdirty (bufs s i)
   \<and> bdev (bufs (binit_loop n s) i) = bdev (bufs s i)"
  by (induction n) (simp_all add: push_front_bufs)

lemma binit_loop_locks:
  "(\<forall>k. lock_free k s) \<Longrightarrow> lock_free k (binit_loop n s)"
  "i < n \<Longrightarrow> \<not> slocked (sleeplocks (binit_loop n s) (SL_buf i))"
  by (induction n) (auto simp: less_Suc_eq)

text \<open>After \<open>binit\<close> on zeroed buffers the cache is in order, with every buffer on the list.\<close>

lemma binit_ok:
  assumes "cpu_ok s" "\<forall>l. lock_free l s" "\<exists>p < length (procs s). cproc s (cur s) = Some p"
    and "\<forall>i < NBUF. brefcnt (bufs s i) = 0 \<and> \<not> bdirty (bufs s i) \<and> bdev (bufs s i) = 0"
  shows "bio_ok (rev [0..<NBUF]) {} (binit s)"
proof -
  let ?s = "upd_buf HEAD (\<lambda>b. b\<lparr>bnext := HEAD\<rparr>) (upd_buf HEAD (\<lambda>b. b\<lparr>bprev := HEAD\<rparr>) (initlock Bcache_lock ''bcache'' s))"
  have b: "binit s = binit_loop NBUF ?s" by (simp add: binit_def Let_def)
  have z: "brefcnt (bufs (binit s) i) = 0" "\<not> bdirty (bufs (binit s) i)" "bdev (bufs (binit s) i) = 0" if "i < NBUF" for i
    unfolding b using binit_loop_bufs [of NBUF ?s i] that assms(4) by (simp_all add: initlock_def)
  note k = binit_loop_keeps [of NBUF ?s, folded b]
  have "cpu_ok (binit s) = cpu_ok s" "cur (binit s) = cur s" using k by (simp_all add: cpu_ok_def cur_def initlock_def)
  moreover have "dll (bufs (binit s)) (rev [0..<NBUF])"
    unfolding dll_def b using binit_loop_dll [of NBUF ?s] by (simp add: lessThan_atLeast0)
  moreover have "lock_free l (binit s)" for l
    unfolding b by (rule binit_loop_locks(1)) (use assms(2) in \<open>auto simp: initlock_def lock_free_def\<close>)
  moreover have "\<not> slocked (sleeplocks (binit s) (SL_buf i))" if "i < NBUF" for i unfolding b using that by (rule binit_loop_locks(2))
  moreover have "\<exists>p < length (procs (binit s)). cproc (binit s) (cur (binit s)) = Some p"
    using assms(3) k \<open>cur (binit s) = cur s\<close> by (simp add: initlock_def)
  ultimately show ?thesis using assms(1) z by (simp add: bio_ok_def caches_def)
qed

lemma unheld: "\<forall>i \<in> H. blockno (bufs s i) \<noteq> b \<Longrightarrow> caches s i b \<Longrightarrow> i \<notin> H"
  by (auto simp: caches_def)

section \<open>Properties\<close>

text \<open>
  C9. The buffer cache refines a least-recently-used list. With the buffers in the order \<open>xs\<close>
  (most recently used first), \<open>bread\<close> of a cached block returns its buffer, of another block
  the last buffer of \<open>xs\<close> that is unreferenced and clean, and it panics exactly when there is
  none; either way the caller holds the buffer with the current content of the block and no
  block changes. \<open>brelse\<close> of a held buffer that is clean on disk or pinned moves it to the front.
\<close>

theorem buffer_cache_is_lru:
  assumes ok: "bio_ok xs H s" and b: "b < disksize s" "\<forall>i \<in> H. blockno (bufs s i) \<noteq> b"
  shows "(case find (\<lambda>i. caches s i b) xs of
       Some i \<Rightarrow> \<exists>t. bread 1 b s = Ok (i, t) \<and> bio_ok xs (insert i H) t \<and> view t = view s \<and> bdata (bufs t i) = view s b
     | None \<Rightarrow>
         (case find (\<lambda>i. brefcnt (bufs s i) = 0 \<and> \<not> bdirty (bufs s i)) (rev xs) of
            Some i \<Rightarrow> \<exists>t. bread 1 b s = Ok (i, t) \<and> bio_ok xs (insert i H) t \<and> view t = view s \<and> bdata (bufs t i) = disk s b
          | None \<Rightarrow> bread 1 b s = Panic ''bget: no buffers''))
     \<and> (\<forall>i \<in> H. bdirty (bufs s i) \<or> bdata (bufs s i) = disk s (blockno (bufs s i)) \<longrightarrow>
          (\<exists>t. brelse i s = Ok t \<and> bio_ok (i # remove1 i xs) (H - {i}) t \<and> view t = view s))"
proof (rule conjI, goal_cases)
  case 1
  have d: "dll (bufs s) xs" using bio_okD(1) [OF ok] .
  have hb: "bdata (bufs (hold i b s) i) = view s b" for i by simp
  show ?case
  proof (cases "find (\<lambda>i. caches s i b) xs")
    case (Some i)
    then have i: "i < NBUF" "caches s i b" using find_unique [OF Some] d by (auto simp: dll_def)
    then have nH: "i \<notin> H" using unheld [OF b(2)] by blast
    have "takes H s i b" using i nH by (simp add: takes_def)
    then show ?thesis using Some bread_hit [OF ok i(1) nH i(2)] hold_ok [OF ok] hold_view [OF ok] hb by (auto intro!: exI [of _ "hold i b s"])
  next
    case None
    then have un: "\<forall>i < NBUF. \<not> caches s i b" using d unfolding find_None_iff dll_def by auto
    show ?thesis
    proof (cases "find (\<lambda>i. brefcnt (bufs s i) = 0 \<and> \<not> bdirty (bufs s i)) (rev xs)")
      case (Some i)
      have r: "i < NBUF" "i \<notin> H" "\<not> bdirty (bufs s i)" "bread 1 b s = Ok (i, hold i b s)" using bread_miss [OF ok b(1) un Some] by simp_all
      then have "takes H s i b" using un by (simp add: takes_def)
      then show ?thesis using None Some r(4) hold_ok [OF ok] hold_view [OF ok] view_uncached [OF un] by (auto intro!: exI [of _ "hold i b s"])
    next
      case no: None
      have "find (\<lambda>i. bdev (bufs s i) = 1 \<and> blockno (bufs s i) = b) xs = None" using None unfolding caches_def .
      moreover have "acquire Bcache_lock s = Ok (enter Bcache_lock s)" using bio_okD(2,3) [OF ok] by (simp add: acquire_free)
      ultimately show ?thesis using None no by (simp add: bread_def bget_def dll_scan [OF d, simplified])
    qed
  qed
next
  case 2
  then show ?case using brelse_ok [OF ok] released_ok [OF ok] by blast
qed

definition bio0 :: bio_st where
  "bio0 = binit (cons_st.extend (cons0\<lparr>cproc := (\<lambda>_. Some 0)\<rparr>)
     \<lparr>bufs = (\<lambda>_. \<lparr>bvalid = False, bdirty = False, bdev = 0, blockno = 0, brefcnt = 0, bprev = 0, bnext = 0, bdata = (\<lambda>_. 0)\<rparr>),
      disk = (\<lambda>_ _. 0), disksize = 1000, dwrites = []\<rparr>)"

lemma binit_loop_disk: "disksize (binit_loop n t) = disksize t \<and> disk (binit_loop n t) = disk t"
  by (induction n) (simp_all add: push_front_bufs initsleeplock_def initlock_def Let_def)

lemma binit_disk [simp]: "disksize (binit s) = disksize s" "disk (binit s) = disk s"
  by (simp_all add: binit_def Let_def initlock_def binit_loop_disk)

lemma bio0_bufs: "brefcnt (bufs bio0 i) = 0 \<and> \<not> bdirty (bufs bio0 i) \<and> bdev (bufs bio0 i) = 0"
  by (simp add: bio0_def binit_def Let_def initlock_def binit_loop_bufs cons_st.defs)

lemma bio0_ok: "bio_ok (rev [0..<NBUF]) {} bio0" "disksize bio0 = 1000" "disk bio0 = (\<lambda>_ _. 0)"
proof -
  show "bio_ok (rev [0..<NBUF]) {} bio0" unfolding bio0_def
    by (rule binit_ok) (auto simp: cons0_def ptable0_def vm0_def kmem0_def kst0_def cpu_ok_def cur_def lock_free_def
      kst.defs kmem_st.defs ptable_st.defs slock_st.defs cons_st.defs bio_st.defs)
  show "disksize bio0 = 1000" "disk bio0 = (\<lambda>_ _. 0)" unfolding bio0_def by (simp_all add: cons_st.defs)
qed

theorem buffer_cache_is_lru_witness:
  "bio_ok (rev [0..<NBUF]) {} bio0 \<and> (\<exists>t. bread 1 100 bio0 = Ok (0, t) \<and> view t = view bio0 \<and> bdata (bufs t 0) = (\<lambda>_. 0))"
proof -
  have "find (\<lambda>i. caches bio0 i 100) (rev [0..<NBUF]) = None" by (simp add: find_None_iff caches_def bio0_bufs)
  moreover have "find (\<lambda>i. brefcnt (bufs bio0 i) = 0 \<and> \<not> bdirty (bufs bio0 i)) (rev (rev [0..<NBUF])) = Some 0"
    by (simp add: bio0_bufs upt_conv_Cons)
  ultimately show ?thesis using buffer_cache_is_lru [OF bio0_ok(1), of 100] bio0_ok by auto
qed

end
