(* ===== verification/Log.thy ===== *)
theory Log
  imports Bio
begin

text \<open>
  The write-ahead log: \<open>xv6-public-master/log.c\<close>, and \<open>readsb\<close> of \<open>fs.c\<close>, which it calls.
  The in-memory header is \<open>lh_n\<close> and the array \<open>lh_block\<close> of \<open>LOGSIZE\<close> block numbers. A block
  that another thread's transaction keeps busy, or a log without room, puts the caller to
  sleep (\<open>Block\<close>).
\<close>

section \<open>Words in a block\<close>

definition get16 :: "block \<Rightarrow> nat \<Rightarrow> 16 word" where
  "get16 d k = ucast (d k) OR push_bit 8 (ucast (d (k + 1)))"

definition get32 :: "block \<Rightarrow> nat \<Rightarrow> u32" where
  "get32 d k = ucast (d k) OR push_bit 8 (ucast (d (k + 1))) OR push_bit 16 (ucast (d (k + 2))) OR push_bit 24 (ucast (d (k + 3)))"

definition put16 :: "nat \<Rightarrow> 16 word \<Rightarrow> block \<Rightarrow> block" where
  "put16 k v d = d(k := ucast v, k + 1 := ucast (drop_bit 8 v))"

definition put32 :: "nat \<Rightarrow> u32 \<Rightarrow> block \<Rightarrow> block" where
  "put32 k v d = d(k := ucast v, k + 1 := ucast (drop_bit 8 v), k + 2 := ucast (drop_bit 16 v), k + 3 := ucast (drop_bit 24 v))"

section \<open>State\<close>

record superblock =
  sb_size :: u32
  sb_nblocks :: u32
  sb_ninodes :: u32
  sb_nlog :: u32
  sb_logstart :: u32
  sb_inodestart :: u32
  sb_bmapstart :: u32

record log_st = bio_st +
  log_start :: u32
  log_size :: int
  outstanding :: int
  committing :: bool
  log_dev :: u32
  lh_n :: int
  lh_block :: "u32 list"

abbreviation LOGSIZE :: int where "LOGSIZE \<equiv> 30"
abbreviation MAXOPBLOCKS :: int where "MAXOPBLOCKS \<equiv> 10"

definition readsb :: "u32 \<Rightarrow> 'z bio_st_scheme \<Rightarrow> (superblock \<times> 'z bio_st_scheme) res" where
  "readsb dev s =
     bnd (bread dev 1 s) (\<lambda>(i, s).
       let d = bdata (bufs s i);
           sb = \<lparr>sb_size = get32 d 0, sb_nblocks = get32 d 4, sb_ninodes = get32 d 8, sb_nlog = get32 d 12,
                 sb_logstart = get32 d 16, sb_inodestart = get32 d 20, sb_bmapstart = get32 d 24\<rparr>
       in bnd (brelse i s) (\<lambda>s. Ok (sb, s)))"

section \<open>Committing and recovering\<close>

text \<open>\<open>copy_block i j\<close> is \<open>memmove(j->data, i->data, BSIZE)\<close> on two buffers.\<close>

definition copy_block :: "nat \<Rightarrow> nat \<Rightarrow> 'z bio_st_scheme \<Rightarrow> 'z bio_st_scheme" where
  "copy_block i j s = upd_buf j (\<lambda>b. b\<lparr>bdata := bdata (bufs s i)\<rparr>) s"

primrec install_trans_loop :: "nat \<Rightarrow> nat \<Rightarrow> 'z log_st_scheme \<Rightarrow> 'z log_st_scheme res" where
  "install_trans_loop 0 tail s = Ok s"
| "install_trans_loop (Suc k) tail s =
     bnd (bread (log_dev s) (log_start s + of_nat tail + 1) s) (\<lambda>(lbuf, s).
     bnd (bread (log_dev s) (lh_block s ! tail) s) (\<lambda>(dbuf, s).
     bnd (bwrite dbuf (copy_block lbuf dbuf s)) (\<lambda>s.
     bnd (brelse lbuf s) (\<lambda>s.
     bnd (brelse dbuf s) (install_trans_loop k (Suc tail))))))"

definition install_trans :: "'z log_st_scheme \<Rightarrow> 'z log_st_scheme res" where
  "install_trans s = install_trans_loop (nat (lh_n s)) 0 s"

text \<open>A header whose count is above \<open>LOGSIZE\<close> makes the copy run past \<open>log.lh.block\<close>.\<close>

definition read_head :: "'z log_st_scheme \<Rightarrow> 'z log_st_scheme res" where
  "read_head s =
     bnd (bread (log_dev s) (log_start s) s) (\<lambda>(i, s).
       let d = bdata (bufs s i); s = s\<lparr>lh_n := sint (get32 d 0)\<rparr> in
       if LOGSIZE < lh_n s then Panic ''out of bounds''
       else
         let n = nat (lh_n s);
             s = s\<lparr>lh_block := map (\<lambda>k. get32 d (4 + 4 * k)) [0..<n] @ drop n (lh_block s)\<rparr>
         in brelse i s)"

primrec put_blocks :: "nat \<Rightarrow> u32 list \<Rightarrow> block \<Rightarrow> block" where
  "put_blocks i [] d = d"
| "put_blocks i (b # bs) d = put_blocks (Suc i) bs (put32 (4 + 4 * i) b d)"

definition write_head :: "'z log_st_scheme \<Rightarrow> 'z log_st_scheme res" where
  "write_head s =
     bnd (bread (log_dev s) (log_start s) s) (\<lambda>(i, s).
       let s = upd_buf i (\<lambda>b. b\<lparr>bdata := put32 0 (word_of_int (lh_n s)) (bdata b)\<rparr>) s;
           s = upd_buf i (\<lambda>b. b\<lparr>bdata := put_blocks 0 (take (nat (lh_n s)) (lh_block s)) (bdata b)\<rparr>) s
       in bnd (bwrite i s) (brelse i))"

definition recover_from_log :: "'z log_st_scheme \<Rightarrow> 'z log_st_scheme res" where
  "recover_from_log s =
     bnd (read_head s) (\<lambda>s.
     bnd (install_trans s) (\<lambda>s.
     write_head (s\<lparr>lh_n := 0\<rparr>)))"

text \<open>\<open>sizeof(struct logheader)\<close> is 124, so the size check of \<open>initlog\<close> never panics.\<close>

definition initlog :: "u32 \<Rightarrow> 'z log_st_scheme \<Rightarrow> 'z log_st_scheme res" where
  "initlog dev s =
     (let s = initlock Log_lock ''log'' s in
      bnd (readsb dev s) (\<lambda>(sb, s).
        let s = s\<lparr>log_start := sb_logstart sb\<rparr>;
            s = s\<lparr>log_size := sint (sb_nlog sb)\<rparr>;
            s = s\<lparr>log_dev := dev\<rparr>
        in recover_from_log s))"

primrec write_log_loop :: "nat \<Rightarrow> nat \<Rightarrow> 'z log_st_scheme \<Rightarrow> 'z log_st_scheme res" where
  "write_log_loop 0 tail s = Ok s"
| "write_log_loop (Suc k) tail s =
     bnd (bread (log_dev s) (log_start s + of_nat tail + 1) s) (\<lambda>(tb, s).
     bnd (bread (log_dev s) (lh_block s ! tail) s) (\<lambda>(fb, s).
     bnd (bwrite tb (copy_block fb tb s)) (\<lambda>s.
     bnd (brelse fb s) (\<lambda>s.
     bnd (brelse tb s) (write_log_loop k (Suc tail))))))"

definition write_log :: "'z log_st_scheme \<Rightarrow> 'z log_st_scheme res" where
  "write_log s = write_log_loop (nat (lh_n s)) 0 s"

definition commit :: "'z log_st_scheme \<Rightarrow> 'z log_st_scheme res" where
  "commit s =
     (if 0 < lh_n s then
        bnd (write_log s) (\<lambda>s.
        bnd (write_head s) (\<lambda>s.
        bnd (install_trans s) (\<lambda>s.
        write_head (s\<lparr>lh_n := 0\<rparr>))))
      else Ok s)"

section \<open>Transactions\<close>

definition begin_op :: "'z log_st_scheme \<Rightarrow> 'z log_st_scheme res" where
  "begin_op s =
     bnd (acquire Log_lock s) (\<lambda>s.
       if committing s then sleep Log_chan Log_lock s
       else if lh_n s + (outstanding s + 1) * MAXOPBLOCKS > LOGSIZE then sleep Log_chan Log_lock s
       else release Log_lock (s\<lparr>outstanding := outstanding s + 1\<rparr>))"

definition end_op :: "'z log_st_scheme \<Rightarrow> 'z log_st_scheme res" where
  "end_op s =
     bnd (acquire Log_lock s) (\<lambda>s.
       let s = s\<lparr>outstanding := outstanding s - 1\<rparr> in
       if committing s then Panic ''log.committing''
       else if outstanding s = 0 then
         bnd (release Log_lock (s\<lparr>committing := True\<rparr>)) (\<lambda>s.
         bnd (commit s) (\<lambda>s.
         bnd (acquire Log_lock s) (\<lambda>s.
         bnd (wakeup Log_chan (s\<lparr>committing := False\<rparr>)) (release Log_lock))))
       else bnd (wakeup Log_chan s) (release Log_lock))"

definition log_write :: "nat \<Rightarrow> 'z log_st_scheme \<Rightarrow> 'z log_st_scheme res" where
  "log_write b s =
     (if lh_n s \<ge> LOGSIZE \<or> lh_n s \<ge> log_size s - 1 then Panic ''too big a transaction''
      else if outstanding s < 1 then Panic ''log_write outside of trans''
      else
        bnd (acquire Log_lock s) (\<lambda>s.
          let bno = blockno (bufs s b);
              i = (case find_idx (\<lambda>x. x = bno) (take (nat (lh_n s)) (lh_block s)) of Some i \<Rightarrow> i | None \<Rightarrow> nat (lh_n s));
              s = s\<lparr>lh_block := (lh_block s)[i := bno]\<rparr>;
              s = (if int i = lh_n s then s\<lparr>lh_n := lh_n s + 1\<rparr> else s)
          in release Log_lock (upd_buf b (\<lambda>b. b\<lparr>bdirty := True\<rparr>) s)))"

section \<open>Words in a block\<close>

lemma get32_put32_same: "get32 (put32 k v d) k = v"
proof (rule bit_word_eqI)
  fix n :: nat assume "n < LENGTH(32)"
  then have "n < 32" by simp
  then consider "n < 8" | "8 \<le> n" "n < 16" | "16 \<le> n" "n < 24" | "24 \<le> n" "n < 32" by linarith
  then show "bit (get32 (put32 k v d) k) n = bit v n"
    by cases (auto simp: get32_def put32_def bit_or_iff bit_push_bit_iff bit_ucast_iff bit_drop_bit_eq)
qed

lemma get32_put32_far: "k + 4 \<le> j \<or> j + 4 \<le> k \<Longrightarrow> get32 (put32 k v d) j = get32 d j"
  by (auto simp: get32_def put32_def)

lemma put_blocks_far: "j + 4 \<le> 4 + 4 * i \<Longrightarrow> get32 (put_blocks i bs d) j = get32 d j"
  by (induction bs arbitrary: i d) (simp_all add: get32_put32_far)

lemma put_blocks_get: "k < length bs \<Longrightarrow> get32 (put_blocks i bs d) (4 + 4 * (i + k)) = bs ! k"
proof (induction bs arbitrary: i k d)
  case (Cons b bs)
  show ?case
  proof (cases k)
    case 0
    have "get32 (put_blocks (Suc i) bs (put32 (4 + 4 * i) b d)) (4 + 4 * i) = get32 (put32 (4 + 4 * i) b d) (4 + 4 * i)"
      by (rule put_blocks_far) simp
    then show ?thesis using 0 by (simp add: get32_put32_same)
  next
    case (Suc m)
    then show ?thesis using Cons.IH [of m "Suc i"] Cons.prems by simp
  qed
qed simp

text \<open>The header block for \<open>n\<close> blocks \<open>bs\<close>, and what \<open>read_head\<close> makes of a header block.\<close>

definition header :: "int \<Rightarrow> u32 list \<Rightarrow> block \<Rightarrow> block" where
  "header n bs d = put_blocks 0 bs (put32 0 (word_of_int n) d)"

definition head_n :: "block \<Rightarrow> int" where "head_n d = sint (get32 d 0)"

definition head_blocks :: "block \<Rightarrow> u32 list" where
  "head_blocks d = map (\<lambda>k. get32 d (4 + 4 * k)) [0..<nat (head_n d)]"

lemma head_n_header: "0 \<le> n \<Longrightarrow> n \<le> 30 \<Longrightarrow> head_n (header n bs d) = n"
proof -
  assume n: "0 \<le> n" "n \<le> 30"
  have "get32 (header n bs d) 0 = word_of_int n"
    unfolding header_def by (subst put_blocks_far) (simp_all add: get32_put32_same)
  moreover have "sint (word_of_int n :: u32) = n" using n by (simp add: signed_of_int signed_take_bit_int_eq_self_iff)
  ultimately show ?thesis by (simp add: head_n_def)
qed

lemma head_blocks_header:
  assumes "0 \<le> n" "n \<le> 30" "length bs = nat n"
  shows "head_blocks (header n bs d) = bs"
proof (rule nth_equalityI)
  show "length (head_blocks (header n bs d)) = length bs" using assms by (simp add: head_blocks_def head_n_header)
  fix k assume "k < length (head_blocks (header n bs d))"
  then have "k < nat n" using assms by (simp add: head_blocks_def head_n_header)
  then show "head_blocks (header n bs d) ! k = bs ! k"
    using assms put_blocks_get [of k bs 0 "put32 0 (word_of_int n) d"] by (simp add: head_blocks_def head_n_header, simp add: header_def)
qed

section \<open>The loops of the log\<close>

definition apply_writes :: "(u32 \<times> block) list \<Rightarrow> (u32 \<Rightarrow> block) \<Rightarrow> u32 \<Rightarrow> block" where
  "apply_writes ws d = foldl (\<lambda>d (b, v). d(b := v)) d ws"

lemma apply_writes_simps [simp]:
  "apply_writes [] d = d" "apply_writes ((b, v) # ws) d = apply_writes ws (d(b := v))"
  "apply_writes (ws @ vs) d = apply_writes vs (apply_writes ws d)"
  by (simp_all add: apply_writes_def)

lemma apply_writes_other: "b \<notin> fst ` set ws \<Longrightarrow> apply_writes ws d b = d b"
  by (induction ws arbitrary: d) (auto simp: apply_writes_def)

lemma apply_writes_same: "\<forall>(c, v) \<in> set ws. v = f c \<Longrightarrow> b \<in> fst ` set ws \<Longrightarrow> apply_writes ws d b = f b"
proof (induction ws arbitrary: d)
  case (Cons w ws)
  obtain c v where w: "w = (c, v)" by (cases w)
  show ?case
  proof (cases "b \<in> fst ` set ws")
    case True
    then show ?thesis using Cons w by simp
  next
    case False
    then show ?thesis using Cons.prems w by (simp add: apply_writes_other)
  qed
qed simp

definition log_block :: "'z log_st_scheme \<Rightarrow> nat \<Rightarrow> u32" where
  "log_block s k = log_start s + of_nat k + 1"

lemma frame_log:
  "bio_frame s t \<Longrightarrow> lh_n t = lh_n s" "bio_frame s t \<Longrightarrow> lh_block t = lh_block s" "bio_frame s t \<Longrightarrow> log_start t = log_start s"
  "bio_frame s t \<Longrightarrow> log_dev t = log_dev s" "bio_frame s t \<Longrightarrow> log_size t = log_size s" "bio_frame s t \<Longrightarrow> log_block t k = log_block s k"
  "bio_frame s t \<Longrightarrow> outstanding t = outstanding s" "bio_frame s t \<Longrightarrow> committing t = committing s"
  by (auto simp: bio_frame_def log_block_def)

lemma copy_block_set_data: "copy_block i j s = set_data j (buf_data s i) s"
  by (simp add: copy_block_def set_data_def buf_data_def)

lemma quiet_view_held:
  assumes "cache_inv h s" "b \<notin> pinned s" "b \<notin> ran h"
  shows "view s b = disk s b"
proof (cases "\<exists>i < NBUF. caches s i b")
  case True
  then obtain i where i: "i < NBUF" "caches s i b" by blast
  obtain xs where ok: "bio_ok xs (dom h) s" using assms(1) by (auto simp: cache_inv_def)
  have "\<not> bdirty (bufs s i)" using assms(2) i unfolding pinned_def caches_def by blast
  moreover have "i \<notin> dom h" using assms(1,3) i(2) by (force simp: cache_inv_def caches_def ran_def)
  ultimately show ?thesis using view_caches [OF ok i] bio_okD(13) [OF ok i(1)] i(2) by (simp add: caches_def)
next
  case False
  then show ?thesis by (intro view_uncached) blast
qed

lemma quiet_view: "cache_inv Map.empty s \<Longrightarrow> b \<notin> pinned s \<Longrightarrow> view s b = disk s b"
  using quiet_view_held [of Map.empty s b] by simp

definition room :: "u32 set \<Rightarrow> 'z bio_st_scheme \<Rightarrow> bool" where
  "room B s \<longleftrightarrow> card (pinned s) < NBUF \<and> (B \<subseteq> pinned s \<or> Suc (card (pinned s)) < NBUF)"

lemma pinned_finite: "finite (pinned s)"
  by (simp add: pinned_def)

lemma room_shrink: "room B s \<Longrightarrow> b \<in> B \<Longrightarrow> pinned t = pinned s - {b} \<Longrightarrow> room B t"
proof -
  assume r: "room B s" "b \<in> B" and p: "pinned t = pinned s - {b}"
  show ?thesis
  proof (cases "b \<in> pinned s")
    case True
    then have "Suc (card (pinned t)) = card (pinned s)" using p pinned_finite [of s] by (metis card_Suc_Diff1)
    then show ?thesis using r by (simp add: room_def)
  next
    case False
    then show ?thesis using r p by (auto simp: room_def)
  qed
qed

lemma install_loop_ok:
  assumes "cache_inv Map.empty s" "log_dev s = 1" "room B s"
    and "\<forall>j. tail \<le> j \<and> j < tail + k \<longrightarrow> log_block s j < disksize s \<and> lh_block s ! j < disksize s \<and> lh_block s ! j \<in> B \<and> log_block s j \<notin> B"
  shows "\<exists>t. install_trans_loop k tail s = Ok t \<and> cache_inv Map.empty t \<and> bio_frame s t
    \<and> (let W = map (\<lambda>j. (lh_block s ! j, view s (log_block s j))) [tail..<tail + k] in
       view t = apply_writes W (view s) \<and> disk t = apply_writes W (disk s) \<and> dwrites t = dwrites s @ W \<and> pinned t = pinned s - fst ` set W)"
  using assms
proof (induction k arbitrary: tail s)
  case 0
  have "bio_frame s s" by (rule bio_frameI) simp
  then show ?case using 0 by simp
next
  case (Suc k)
  let ?a = "log_block s tail" and ?b = "lh_block s ! tail"
  have ab: "?a < disksize s" "?b < disksize s" "?b \<in> B" "?a \<noteq> ?b" using spec [OF Suc.prems(4), of tail] by auto
  have rm: "card (pinned s) < NBUF" "?b \<in> pinned s \<or> Suc (card (pinned s)) < NBUF"
    using Suc.prems(3) ab(3) by (auto simp: room_def)
  have src: "?a \<in> pinned s \<or> view s ?a = disk s ?a" using quiet_view [OF Suc.prems(1)] by blast
  obtain x t1 y t2 t3 t4 t where st: "bread 1 ?a s = Ok (x, t1)" "bread 1 ?b t1 = Ok (y, t2)" "bwrite y (set_data y (buf_data t2 x) t2) = Ok t3"
    "brelse x t3 = Ok t4" "brelse y t4 = Ok t" "bio_frame s t1" and t: "cache_inv Map.empty t" "view t = (view s)(?b := view s ?a)"
    "disk t = (disk s)(?b := view s ?a)" "dwrites t = dwrites s @ [(?b, view s ?a)]" "pinned t = pinned s - {?b}" "bio_frame s t"
    using bc.copy_second [OF Suc.prems(1) ab(1,2,4) rm src] by - (elim exE conjE, rule that, assumption+)
  note f = frame_log [OF t(6)]
  have step: "install_trans_loop (Suc k) tail s = install_trans_loop k (Suc tail) t"
    using st Suc.prems(2) frame_log [OF st(6)] by (simp add: log_block_def copy_block_set_data)
  have "\<exists>u. install_trans_loop k (Suc tail) t = Ok u \<and> cache_inv Map.empty u \<and> bio_frame t u
    \<and> (let W = map (\<lambda>j. (lh_block t ! j, view t (log_block t j))) [Suc tail..<Suc tail + k] in
       view u = apply_writes W (view t) \<and> disk u = apply_writes W (disk t) \<and> dwrites u = dwrites t @ W \<and> pinned u = pinned t - fst ` set W)"
  proof (rule Suc.IH [OF t(1)])
    show "log_dev t = 1" using Suc.prems(2) f(4) by simp
    show "room B t" by (rule room_shrink [OF Suc.prems(3) ab(3) t(5)])
    show "\<forall>j. Suc tail \<le> j \<and> j < Suc tail + k \<longrightarrow>
        log_block t j < disksize t \<and> lh_block t ! j < disksize t \<and> lh_block t ! j \<in> B \<and> log_block t j \<notin> B"
      unfolding f bio_frame_disksize [OF t(6)] using Suc.prems(4) by simp
  qed
  then obtain u where u: "install_trans_loop k (Suc tail) t = Ok u" "cache_inv Map.empty u" "bio_frame t u"
    and U: "let W = map (\<lambda>j. (lh_block t ! j, view t (log_block t j))) [Suc tail..<Suc tail + k] in
       view u = apply_writes W (view t) \<and> disk u = apply_writes W (disk t) \<and> dwrites u = dwrites t @ W \<and> pinned u = pinned t - fst ` set W"
    by blast
  define W where "W = map (\<lambda>j. (lh_block s ! j, view s (log_block s j))) [Suc tail..<Suc tail + k]"
  have "map (\<lambda>j. (lh_block t ! j, view t (log_block t j))) [Suc tail..<Suc tail + k] = W"
    unfolding W_def
  proof (rule map_cong [OF refl])
    fix j assume "j \<in> set [Suc tail..<Suc tail + k]"
    then have "log_block s j \<notin> B" using spec [OF Suc.prems(4), of j] by auto
    then have "log_block s j \<noteq> ?b" using ab(3) by metis
    then show "(lh_block t ! j, view t (log_block t j)) = (lh_block s ! j, view s (log_block s j))" using t(2) f by simp
  qed
  then have U': "view u = apply_writes W (view t)" "disk u = apply_writes W (disk t)" "dwrites u = dwrites t @ W" "pinned u = pinned t - fst ` set W"
    using U by (simp_all add: Let_def)
  have "map (\<lambda>j. (lh_block s ! j, view s (log_block s j))) [tail..<tail + Suc k] = (?b, view s ?a) # W"
    unfolding W_def by (subst upt_conv_Cons) simp_all
  moreover have "pinned s - {?b} - fst ` set W = pinned s - fst ` set ((?b, view s ?a) # W)" by auto
  ultimately show ?case unfolding step u(1) using u(2) bio_frame_trans [OF t(6) u(3)] U' t(2-5)
    by (intro exI [of _ u]) (simp only: Let_def apply_writes_simps append.simps append_assoc simp_thms)
qed
lemma write_log_loop_ok:
  assumes "cache_inv Map.empty s" "log_dev s = 1" "room B s" "pinned s \<subseteq> B"
    and "\<forall>j. tail \<le> j \<and> j < tail + k \<longrightarrow> log_block s j < disksize s \<and> lh_block s ! j < disksize s \<and> lh_block s ! j \<in> B \<and> log_block s j \<notin> B"
  shows "\<exists>t. write_log_loop k tail s = Ok t \<and> cache_inv Map.empty t \<and> bio_frame s t
    \<and> (let W = map (\<lambda>j. (log_block s j, view s (lh_block s ! j))) [tail..<tail + k] in
       view t = apply_writes W (view s) \<and> disk t = apply_writes W (disk s) \<and> dwrites t = dwrites s @ W \<and> pinned t = pinned s - fst ` set W)"
  using assms
proof (induction k arbitrary: tail s)
  case 0
  have "bio_frame s s" by (rule bio_frameI) simp
  then show ?case using 0 by simp
next
  case (Suc k)
  let ?a = "log_block s tail" and ?b = "lh_block s ! tail"
  have ab: "?a < disksize s" "?b < disksize s" "?b \<in> B" "?a \<noteq> ?b" using spec [OF Suc.prems(5), of tail] by auto
  have rm: "card (pinned s) < NBUF" "?b \<in> pinned s \<or> Suc (card (pinned s)) < NBUF"
    using Suc.prems(3) ab(3) by (auto simp: room_def)
  have src: "?b \<in> pinned s \<or> view s ?b = disk s ?b" using quiet_view [OF Suc.prems(1)] by blast
  obtain x t1 y t2 t3 t4 t where st: "bread 1 ?a s = Ok (x, t1)" "bread 1 ?b t1 = Ok (y, t2)" "bwrite x (set_data x (buf_data t2 y) t2) = Ok t3"
    "brelse y t3 = Ok t4" "brelse x t4 = Ok t" "bio_frame s t1" and t: "cache_inv Map.empty t" "view t = (view s)(?a := view s ?b)"
    "disk t = (disk s)(?a := view s ?b)" "dwrites t = dwrites s @ [(?a, view s ?b)]" "pinned t = pinned s - {?a}" "bio_frame s t"
    using bc.copy_first [OF Suc.prems(1) ab(1,2,4) rm src] by - (elim exE conjE, rule that, assumption+)
  note f = frame_log [OF t(6)]
  have step: "write_log_loop (Suc k) tail s = write_log_loop k (Suc tail) t"
    using st Suc.prems(2) frame_log [OF st(6)] by (simp add: log_block_def copy_block_set_data)
  have "\<exists>u. write_log_loop k (Suc tail) t = Ok u \<and> cache_inv Map.empty u \<and> bio_frame t u
    \<and> (let W = map (\<lambda>j. (log_block t j, view t (lh_block t ! j))) [Suc tail..<Suc tail + k] in
       view u = apply_writes W (view t) \<and> disk u = apply_writes W (disk t) \<and> dwrites u = dwrites t @ W \<and> pinned u = pinned t - fst ` set W)"
  proof (rule Suc.IH [OF t(1)])
    show "log_dev t = 1" using Suc.prems(2) f(4) by simp
    have "?a \<notin> pinned s" using Suc.prems(4) spec [OF Suc.prems(5), of tail] by auto
    then have p: "pinned t = pinned s" using t(5) by blast
    show "room B t" using Suc.prems(3) unfolding room_def p .
    show "pinned t \<subseteq> B" unfolding p by (rule Suc.prems(4))
    show "\<forall>j. Suc tail \<le> j \<and> j < Suc tail + k \<longrightarrow>
        log_block t j < disksize t \<and> lh_block t ! j < disksize t \<and> lh_block t ! j \<in> B \<and> log_block t j \<notin> B"
      unfolding f bio_frame_disksize [OF t(6)] using Suc.prems(5) by simp
  qed
  then obtain u where u: "write_log_loop k (Suc tail) t = Ok u" "cache_inv Map.empty u" "bio_frame t u"
    and U: "let W = map (\<lambda>j. (log_block t j, view t (lh_block t ! j))) [Suc tail..<Suc tail + k] in
       view u = apply_writes W (view t) \<and> disk u = apply_writes W (disk t) \<and> dwrites u = dwrites t @ W \<and> pinned u = pinned t - fst ` set W"
    by blast
  define W where "W = map (\<lambda>j. (log_block s j, view s (lh_block s ! j))) [Suc tail..<Suc tail + k]"
  have "map (\<lambda>j. (log_block t j, view t (lh_block t ! j))) [Suc tail..<Suc tail + k] = W"
    unfolding W_def
  proof (rule map_cong [OF refl])
    fix j assume "j \<in> set [Suc tail..<Suc tail + k]"
    then have "lh_block s ! j \<in> B" using spec [OF Suc.prems(5), of j] by auto
    moreover have "?a \<notin> B" using spec [OF Suc.prems(5), of tail] by auto
    ultimately have "lh_block s ! j \<noteq> ?a" by metis
    then show "(log_block t j, view t (lh_block t ! j)) = (log_block s j, view s (lh_block s ! j))" using t(2) f by simp
  qed
  then have U': "view u = apply_writes W (view t)" "disk u = apply_writes W (disk t)" "dwrites u = dwrites t @ W" "pinned u = pinned t - fst ` set W"
    using U by (simp_all add: Let_def)
  have "map (\<lambda>j. (log_block s j, view s (lh_block s ! j))) [tail..<tail + Suc k] = (?a, view s ?b) # W"
    unfolding W_def by (subst upt_conv_Cons) simp_all
  moreover have "pinned s - {?a} - fst ` set W = pinned s - fst ` set ((?a, view s ?b) # W)" by auto
  ultimately show ?case unfolding step u(1) using u(2) bio_frame_trans [OF t(6) u(3)] U' t(2-5)
    by (intro exI [of _ u]) (simp only: Let_def apply_writes_simps append.simps append_assoc simp_thms)
qed

lemma write_head_ok:
  assumes s: "cache_inv Map.empty s" "log_dev s = 1" "log_start s < disksize s" "card (pinned s) < NBUF"
  defines "H \<equiv> header (lh_n s) (take (nat (lh_n s)) (lh_block s)) (view s (log_start s))"
  shows "\<exists>t. write_head s = Ok t \<and> cache_inv Map.empty t \<and> bio_frame s t \<and> view t = (view s)(log_start s := H)
    \<and> disk t = (disk s)(log_start s := H) \<and> dwrites t = dwrites s @ [(log_start s, H)] \<and> pinned t = pinned s - {log_start s}"
proof -
  obtain x t1 where x: "bread 1 (log_start s) s = Ok (x, t1)" "bio_frame s t1" "buf_data t1 x = view s (log_start s)"
    and w: "\<forall>d. \<exists>t3 t. bwrite x (set_data x d t1) = Ok t3 \<and> brelse x t3 = Ok t
    \<and> cache_inv Map.empty t \<and> view t = (view s)(log_start s := d) \<and> disk t = (disk s)(log_start s := d) \<and> dwrites t = dwrites s @ [(log_start s, d)]
    \<and> pinned t = pinned s - {log_start s} \<and> bio_frame s t"
    using bc.rewrite_one [OF s(1,3)] s(4) by auto
  have n: "lh_n (upd_buf x f t1) = lh_n s" "lh_block (upd_buf x f t1) = lh_block s" for f
    using frame_log [OF x(2)] by (simp_all add: upd_buf_def)
  have "upd_buf x (\<lambda>b. b\<lparr>bdata := put_blocks 0 (take (nat (lh_n s)) (lh_block s)) (bdata b)\<rparr>)
      (upd_buf x (\<lambda>b. b\<lparr>bdata := put32 0 (word_of_int (lh_n s)) (bdata b)\<rparr>) t1) = set_data x H t1"
    using x(3) by (simp add: upd_buf_twice set_data_def H_def header_def buf_data_def upd_buf_def)
  then have "write_head s = bnd (bwrite x (set_data x H t1)) (brelse x)"
    using x(1) s(2) frame_log [OF x(2)] n by (simp add: write_head_def Let_def)
  then show ?thesis using spec [OF w, of H] by auto
qed

lemma bio_ok_log [simp]:
  "bio_ok xs H (s\<lparr>lh_n := n\<rparr>) = bio_ok xs H s" "bio_ok xs H (s\<lparr>lh_block := l\<rparr>) = bio_ok xs H s"
  by (simp_all add: bio_ok_def caches_def cpu_ok_def cur_def lock_free_def me_def)

lemma cache_log [simp]:
  "cache_inv h (s\<lparr>lh_n := n\<rparr>) = cache_inv h s" "cache_inv h (s\<lparr>lh_block := l\<rparr>) = cache_inv h s"
  "view (s\<lparr>lh_n := n\<rparr>) = view s" "view (s\<lparr>lh_block := l\<rparr>) = view s"
  "pinned (s\<lparr>lh_n := n\<rparr>) = pinned s" "pinned (s\<lparr>lh_block := l\<rparr>) = pinned s"
  by (simp_all add: cache_inv_def view_def fun_eq_iff caches_def pinned_def split: option.split)

text \<open>Which of the log's own fields stay as they are.\<close>

definition same_log :: "'z log_st_scheme \<Rightarrow> 'z log_st_scheme \<Rightarrow> bool" where
  "same_log s t \<longleftrightarrow> log_start t = log_start s \<and> log_dev t = log_dev s \<and> disksize t = disksize s \<and> log_size t = log_size s"

lemma same_log_frame: "bio_frame s t \<Longrightarrow> same_log s t"
  by (simp add: same_log_def frame_log bio_frame_disksize)

lemma same_log_trans: "same_log s t \<Longrightarrow> same_log t u \<Longrightarrow> same_log s u"
  by (simp add: same_log_def)

lemma same_log_block: "same_log s t \<Longrightarrow> log_block t k = log_block s k"
  by (simp add: same_log_def log_block_def)

lemma read_head_ok:
  assumes s: "cache_inv Map.empty s" "log_dev s = 1" "log_start s < disksize s" "pinned s = {}"
    and n: "head_n (disk s (log_start s)) \<le> 30"
  shows "\<exists>t. read_head s = Ok t \<and> cache_inv Map.empty t \<and> same_log s t \<and> disk t = disk s \<and> dwrites t = dwrites s
    \<and> pinned t = {} \<and> lh_n t = head_n (disk s (log_start s))
    \<and> lh_block t = head_blocks (disk s (log_start s)) @ drop (nat (head_n (disk s (log_start s)))) (lh_block s)"
proof -
  let ?a = "log_start s" and ?d = "disk s (log_start s)"
  have v: "view s ?a = ?d" using quiet_view [OF s(1)] s(4) by simp
  obtain x t1 where t1: "bread 1 ?a s = Ok (x, t1)" "cache_inv [x \<mapsto> ?a] t1" "view t1 = view s" "disk t1 = disk s" "dwrites t1 = dwrites s"
    "pinned t1 = pinned s" "bio_frame s t1"
    using bc.rd [OF s(1,3)] s(4) by auto
  have d: "bdata (bufs t1 x) = ?d" using bc.dt [OF t1(2), of x ?a] t1(3) v by (simp add: buf_data_def)
  let ?u = "t1\<lparr>lh_n := head_n ?d, lh_block := head_blocks ?d @ drop (nat (head_n ?d)) (lh_block t1)\<rparr>"
  have "cache_inv [x \<mapsto> ?a] ?u" "view ?u ?a = disk ?u ?a" using t1 v by simp_all
  then obtain t where t: "brelse x ?u = Ok t" "cache_inv ([x \<mapsto> ?a](x := None)) t" "view t = view ?u" "disk t = disk ?u" "dwrites t = dwrites ?u"
    "pinned t = pinned ?u" "bio_frame ?u t" using bc.rl [of "[x \<mapsto> ?a]" ?u x ?a] by auto
  have "[x \<mapsto> ?a](x := None) = Map.empty" by auto
  then have i: "cache_inv Map.empty t" using t(2) by simp
  have "read_head s = brelse x ?u"
    using t1(1) s(2) d n frame_log [OF t1(7)] by (simp add: read_head_def Let_def head_n_def head_blocks_def)
  moreover have "same_log s t"
    using same_log_frame [OF t1(7)] same_log_frame [OF t(7)] by (simp add: same_log_def)
  ultimately show ?thesis using t i t1 s(4) frame_log [OF t(7)] frame_log [OF t1(7)] by (intro exI [of _ t]) simp
qed

text \<open>
  The blocks of the log: the header block and the \<open>log_size - 1\<close> blocks behind it, which are
  blocks 2 to 31 of the disk \<open>mkfs\<close> builds.
\<close>

definition log_area :: "'z log_st_scheme \<Rightarrow> u32 set" where
  "log_area s = {b. log_start s \<le> b \<and> unat b < unat (log_start s) + nat (log_size s)}"

text \<open>The log has its header block and fits on the disk.\<close>

definition log_fits :: "'z log_st_scheme \<Rightarrow> bool" where
  "log_fits s \<longleftrightarrow> log_dev s = 1 \<and> 0 < log_size s \<and> unat (log_start s) + nat (log_size s) \<le> unat (disksize s)"

lemma log_block_facts:
  assumes "log_fits s" "int k + 1 < log_size s"
  shows "unat (log_block s k) = unat (log_start s) + k + 1" "log_block s k < disksize s" "log_block s k \<in> log_area s"
    "log_block s k \<noteq> log_start s"
proof -
  have k: "k + 1 < nat (log_size s)" using assms(2) by linarith
  have l: "unat (log_start s) + nat (log_size s) < 4294967296"
    using assms(1) unat_lt32 [of "disksize s"] by (simp add: log_fits_def)
  show u: "unat (log_block s k) = unat (log_start s) + k + 1"
    using unat_plus_of_nat [of "log_start s" "k + 1"] l k by (simp add: log_block_def ac_simps)
  then show "log_block s k < disksize s" "log_block s k \<in> log_area s"
    using assms k by (simp_all add: log_fits_def log_area_def word_less_nat_alt word_le_nat_alt)
  show "log_block s k \<noteq> log_start s" using u by auto
qed

lemma log_start_facts: "log_fits s \<Longrightarrow> log_start s < disksize s" "log_fits s \<Longrightarrow> log_start s \<in> log_area s"
  by (auto simp: log_fits_def log_area_def word_less_nat_alt)

lemma off_log_start: "log_fits s \<Longrightarrow> b \<notin> log_area s \<Longrightarrow> b \<noteq> log_start s"
  using log_start_facts(2) by blast

text \<open>What recovery makes of a disk.\<close>

definition recovered :: "'z log_st_scheme \<Rightarrow> (u32 \<Rightarrow> block) \<Rightarrow> u32 \<Rightarrow> block" where
  "recovered s d = apply_writes (map (\<lambda>j. (head_blocks (d (log_start s)) ! j, d (log_block s j))) [0..<nat (head_n (d (log_start s)))]) d"

lemma recover_ok:
  assumes s: "cache_inv Map.empty s" "log_fits s" "pinned s = {}"
    and n: "0 \<le> head_n (disk s (log_start s))" "head_n (disk s (log_start s)) \<le> 30"
      "head_n (disk s (log_start s)) < log_size s"
    and b: "\<forall>b \<in> set (head_blocks (disk s (log_start s))). b < disksize s \<and> b \<notin> log_area s"
  shows "\<exists>t. recover_from_log s = Ok t \<and> cache_inv Map.empty t \<and> same_log s t \<and> lh_n t = 0 \<and> pinned t = {}
    \<and> head_n (disk t (log_start s)) = 0 \<and> (\<forall>c. c \<noteq> log_start s \<longrightarrow> disk t c = recovered s (disk s) c)"
proof -
  let ?d = "disk s (log_start s)"
  let ?n = "nat (head_n ?d)"
  have dev: "log_dev s = 1" using s(2) by (simp add: log_fits_def)
  obtain t1 where t1: "read_head s = Ok t1" "cache_inv Map.empty t1" "same_log s t1" "disk t1 = disk s" "pinned t1 = {}"
    "lh_n t1 = head_n ?d" "lh_block t1 = head_blocks ?d @ drop ?n (lh_block s)"
    using read_head_ok [OF s(1) dev log_start_facts(1) [OF s(2)] s(3) n(2)]
    by - (elim exE conjE, rule that, assumption+)
  have len: "length (head_blocks ?d) = ?n" by (simp add: head_blocks_def)
  have nth: "lh_block t1 ! j = head_blocks ?d ! j" if "j < ?n" for j using that t1(7) len by (simp add: nth_append)
  have v1: "view t1 = disk s" using quiet_view [OF t1(2)] t1(4,5) by auto
  define B where "B = set (head_blocks ?d)"
  have q: "\<forall>j. 0 \<le> j \<and> j < 0 + ?n \<longrightarrow> log_block t1 j < disksize t1 \<and> lh_block t1 ! j < disksize t1 \<and> lh_block t1 ! j \<in> B \<and> log_block t1 j \<notin> B"
  proof (intro allI impI)
    fix j assume "0 \<le> j \<and> j < 0 + ?n"
    then have j: "j < ?n" by simp
    then have j': "int j + 1 < log_size s" using n by linarith
    from j have "head_blocks ?d ! j \<in> B" using len by (simp add: B_def)
    moreover have "log_block s j \<notin> B" using b log_block_facts(3) [OF s(2) j'] unfolding B_def by blast
    moreover have "head_blocks ?d ! j < disksize s" using b \<open>head_blocks ?d ! j \<in> B\<close> unfolding B_def by blast
    moreover have "disksize t1 = disksize s" using t1(3) by (simp add: same_log_def)
    ultimately show "log_block t1 j < disksize t1 \<and> lh_block t1 ! j < disksize t1 \<and> lh_block t1 ! j \<in> B \<and> log_block t1 j \<notin> B"
      using log_block_facts(2) [OF s(2) j'] unfolding nth [OF j] same_log_block [OF t1(3)] by (simp only: simp_thms)
  qed
  have "log_dev t1 = 1" "room B t1" using t1(3,5) dev by (simp_all add: same_log_def room_def)
  note inst = install_loop_ok [OF t1(2) this q]
  obtain t2 where t2: "install_trans_loop ?n 0 t1 = Ok t2" "cache_inv Map.empty t2" "bio_frame t1 t2"
    and T2: "let W = map (\<lambda>j. (lh_block t1 ! j, view t1 (log_block t1 j))) [0..<0 + ?n] in
       view t2 = apply_writes W (view t1) \<and> disk t2 = apply_writes W (disk t1) \<and> dwrites t2 = dwrites t1 @ W \<and> pinned t2 = pinned t1 - fst ` set W"
    using inst by - (elim exE conjE, rule that, assumption+)
  have W: "map (\<lambda>j. (lh_block t1 ! j, view t1 (log_block t1 j))) [0..<0 + ?n]
      = map (\<lambda>j. (head_blocks ?d ! j, disk s (log_block s j))) [0..<?n]"
    using nth v1 same_log_block [OF t1(3)] by (intro map_cong) auto
  have d2: "disk t2 = recovered s (disk s)" "pinned t2 = {}"
    using T2 unfolding W Let_def t1(4,5) recovered_def by blast+
  let ?u = "t2\<lparr>lh_n := 0\<rparr>"
  have su: "same_log s ?u" using same_log_trans [OF t1(3) same_log_frame [OF t2(3)]] by (simp add: same_log_def)
  have u: "cache_inv Map.empty ?u" "log_dev ?u = 1" "log_start ?u < disksize ?u" "card (pinned ?u) < NBUF"
    using t2(2) su dev log_start_facts(1) [OF s(2)] d2(2) by (simp_all add: same_log_def)
  obtain t where t: "write_head ?u = Ok t" "cache_inv Map.empty t" "bio_frame ?u t" "pinned t = pinned ?u - {log_start ?u}"
    "disk t = (disk ?u)(log_start ?u := header (lh_n ?u) (take (nat (lh_n ?u)) (lh_block ?u)) (view ?u (log_start ?u)))"
    using write_head_ok [OF u] by - (elim exE conjE, rule that, assumption+)
  have "recover_from_log s = Ok t" using t1(1,6) t2(1) t(1) by (simp add: recover_from_log_def install_trans_def)
  moreover have "same_log s t" using same_log_trans [OF su same_log_frame [OF t(3)]] .
  moreover have "log_start t2 = log_start s" using su by (simp add: same_log_def)
  moreover have "lh_n t = 0" "pinned t = {}" using frame_log(1) [OF t(3)] t(4) d2(2) by simp_all
  moreover have "disk t (log_start s) = header 0 [] (view ?u (log_start s))" using t(5) \<open>log_start t2 = log_start s\<close> by simp
  then have "head_n (disk t (log_start s)) = 0" using head_n_header [of 0 "[]"] by simp
  moreover have "disk t c = recovered s (disk s) c" if "c \<noteq> log_start s" for c
    using that t(5) d2(1) \<open>log_start t2 = log_start s\<close> by simp
  ultimately show ?thesis using t(2) by (intro exI [of _ t] conjI allI impI) assumption+
qed

section \<open>Committing\<close>

text \<open>
  A log with a transaction in it: the blocks it lists are the ones pinned in the cache, none
  of them is in the log area, and the header on disk says that the log is empty.
\<close>

definition log_ready :: "'z log_st_scheme \<Rightarrow> bool" where
  "log_ready s \<longleftrightarrow> cache_inv Map.empty s \<and> log_fits s \<and> 0 \<le> lh_n s \<and> lh_n s \<le> 29 \<and> lh_n s < log_size s \<and> nat (lh_n s) \<le> length (lh_block s)
     \<and> set (take (nat (lh_n s)) (lh_block s)) = pinned s \<and> (\<forall>b \<in> pinned s. b < disksize s \<and> b \<notin> log_area s)
     \<and> head_n (disk s (log_start s)) = 0"

definition log_writes :: "'z log_st_scheme \<Rightarrow> (u32 \<times> block) list" where
  "log_writes s = map (\<lambda>j. (log_block s j, view s (lh_block s ! j))) [0..<nat (lh_n s)]"

definition home_writes :: "'z log_st_scheme \<Rightarrow> (u32 \<times> block) list" where
  "home_writes s = map (\<lambda>j. (lh_block s ! j, view s (lh_block s ! j))) [0..<nat (lh_n s)]"

definition commit_header :: "'z log_st_scheme \<Rightarrow> block" where
  "commit_header s = header (lh_n s) (take (nat (lh_n s)) (lh_block s)) (view s (log_start s))"

text \<open>The disk writes of a commit, in order.\<close>

definition commit_writes :: "'z log_st_scheme \<Rightarrow> (u32 \<times> block) list" where
  "commit_writes s = log_writes s @ [(log_start s, commit_header s)] @ home_writes s @ [(log_start s, header 0 [] (commit_header s))]"

lemma ready_block:
  assumes "log_ready s" "j < nat (lh_n s)"
  shows "int j + 1 < log_size s" "lh_block s ! j \<in> pinned s" "lh_block s ! j < disksize s" "lh_block s ! j \<notin> log_area s" "log_block s j \<notin> pinned s"
proof -
  have "lh_n s < log_size s" using assms(1) by (simp add: log_ready_def)
  then show j: "int j + 1 < log_size s" using assms(2) by linarith
  have "lh_block s ! j \<in> set (take (nat (lh_n s)) (lh_block s))"
    using nth_mem [of j "take (nat (lh_n s)) (lh_block s)"] assms by (auto simp: log_ready_def)
  then show p: "lh_block s ! j \<in> pinned s" using assms(1) by (simp add: log_ready_def)
  then show "lh_block s ! j < disksize s" "lh_block s ! j \<notin> log_area s" using assms(1) unfolding log_ready_def by blast+
  have "log_block s j \<in> log_area s" using assms(1) j by (intro log_block_facts) (simp_all add: log_ready_def)
  then show "log_block s j \<notin> pinned s" using assms(1) unfolding log_ready_def by blast
qed

lemma ready_start: "log_ready s \<Longrightarrow> log_start s \<notin> pinned s"
  using log_start_facts(2) [of s] unfolding log_ready_def by blast

lemma log_writes_at:
  assumes "log_ready s" "j < nat (lh_n s)"
  shows "apply_writes (log_writes s) d (log_block s j) = view s (lh_block s ! j)"
proof -
  let ?f = "\<lambda>c. view s (lh_block s ! (unat c - unat (log_start s) - 1))"
  have fits: "log_fits s" using assms(1) by (simp add: log_ready_def)
  have u: "unat (log_block s k) - unat (log_start s) - 1 = k" if "k < nat (lh_n s)" for k
    using log_block_facts(1) [OF fits] ready_block(1) [OF assms(1) that] by simp
  have "apply_writes (log_writes s) d (log_block s j) = ?f (log_block s j)"
    by (rule apply_writes_same) (use u assms(2) in \<open>auto simp: log_writes_def image_image\<close>)
  then show ?thesis using u [OF assms(2)] by simp
qed

lemma log_writes_area: "log_ready s \<Longrightarrow> b \<in> fst ` set (log_writes s) \<Longrightarrow> b \<in> log_area s \<and> b \<noteq> log_start s"
  using ready_block(1) [of s] log_block_facts(3,4) [of s] by (auto simp: log_writes_def log_ready_def)

lemma home_writes_fst: "log_ready s \<Longrightarrow> fst ` set (home_writes s) = pinned s"
proof -
  assume r: "log_ready s"
  then have n: "nat (lh_n s) \<le> length (lh_block s)" "set (take (nat (lh_n s)) (lh_block s)) = pinned s" by (simp_all add: log_ready_def)
  have "fst ` set (home_writes s) = (\<lambda>j. lh_block s ! j) ` {0..<nat (lh_n s)}" by (auto simp: home_writes_def image_image)
  also have "\<dots> = set (take (nat (lh_n s)) (lh_block s))" using nth_image [OF n(1)] by simp
  finally show ?thesis using n(2) by simp
qed

lemma ready_card: "log_ready s \<Longrightarrow> card (pinned s) \<le> 29"
  using card_length [of "take (nat (lh_n s)) (lh_block s)"] by (auto simp: log_ready_def)

lemma write_log_ok:
  assumes r: "log_ready s"
  shows "\<exists>t. write_log s = Ok t \<and> cache_inv Map.empty t \<and> bio_frame s t \<and> view t = apply_writes (log_writes s) (view s)
    \<and> disk t = apply_writes (log_writes s) (disk s) \<and> dwrites t = dwrites s @ log_writes s \<and> pinned t = pinned s"
proof -
  have c: "cache_inv Map.empty s" "log_dev s = 1" "log_fits s" using r by (simp_all add: log_ready_def log_fits_def)
  have rm: "room (pinned s) s" using ready_card [OF r] by (simp add: room_def)
  have q: "\<forall>j. 0 \<le> j \<and> j < 0 + nat (lh_n s) \<longrightarrow>
      log_block s j < disksize s \<and> lh_block s ! j < disksize s \<and> lh_block s ! j \<in> pinned s \<and> log_block s j \<notin> pinned s"
    using ready_block [OF r] log_block_facts(2) [OF c(3)] by simp
  obtain t where t: "write_log_loop (nat (lh_n s)) 0 s = Ok t" "cache_inv Map.empty t" "bio_frame s t"
    and T: "let W = map (\<lambda>j. (log_block s j, view s (lh_block s ! j))) [0..<0 + nat (lh_n s)] in
       view t = apply_writes W (view s) \<and> disk t = apply_writes W (disk s) \<and> dwrites t = dwrites s @ W \<and> pinned t = pinned s - fst ` set W"
    using write_log_loop_ok [OF c(1,2) rm subset_refl q] by - (elim exE conjE, rule that, assumption+)
  have W: "map (\<lambda>j. (log_block s j, view s (lh_block s ! j))) [0..<0 + nat (lh_n s)] = log_writes s" by (simp add: log_writes_def)
  have "fst ` set (log_writes s) \<inter> pinned s = {}" using ready_block(5) [OF r] by (auto simp: log_writes_def)
  then have "pinned s - fst ` set (log_writes s) = pinned s" by blast
  then show ?thesis using t T unfolding W Let_def write_log_def by (intro exI [of _ t]) simp
qed

lemma commit_ok:
  assumes r: "log_ready s" and pos: "0 < lh_n s"
  shows "\<exists>t. commit s = Ok t \<and> cache_inv Map.empty t \<and> same_log s t \<and> outstanding t = outstanding s \<and> lh_n t = 0 \<and> pinned t = {}
    \<and> dwrites t = dwrites s @ commit_writes s \<and> disk t = apply_writes (commit_writes s) (disk s)"
proof -
  have fits: "log_fits s" and dev: "log_dev s = 1" using r by (simp_all add: log_ready_def log_fits_def)
  note st = log_start_facts(1) [OF fits]
  obtain t1 where t1: "write_log s = Ok t1" "cache_inv Map.empty t1" "bio_frame s t1" "view t1 = apply_writes (log_writes s) (view s)"
    "disk t1 = apply_writes (log_writes s) (disk s)" "dwrites t1 = dwrites s @ log_writes s" "pinned t1 = pinned s"
    using write_log_ok [OF r] by - (elim exE conjE, rule that, assumption+)
  note f1 = frame_log [OF t1(3)] bio_frame_disksize [OF t1(3)]
  have v1: "view t1 (log_start s) = view s (log_start s)"
    unfolding t1(4) using log_writes_area [OF r] by (intro apply_writes_other) blast
  have "log_dev t1 = 1" "log_start t1 < disksize t1" "card (pinned t1) < NBUF"
    using f1 dev st t1(7) ready_card [OF r] by simp_all
  note wh = write_head_ok [OF t1(2) this, unfolded f1 v1, folded commit_header_def]
  obtain t2 where t2: "write_head t1 = Ok t2" "cache_inv Map.empty t2" "bio_frame t1 t2" "view t2 = (view t1)(log_start s := commit_header s)"
    "disk t2 = (disk t1)(log_start s := commit_header s)" "dwrites t2 = dwrites t1 @ [(log_start s, commit_header s)]"
    "pinned t2 = pinned t1 - {log_start s}"
    using wh by - (elim exE conjE, rule that, assumption+)
  note f2 = frame_log [OF t2(3)] bio_frame_disksize [OF t2(3)]
  have p2: "pinned t2 = pinned s" using t2(7) t1(7) ready_start [OF r] by blast
  have rm: "room (pinned s) t2" using ready_card [OF r] p2 by (simp add: room_def)
  have q: "\<forall>j. 0 \<le> j \<and> j < 0 + nat (lh_n s) \<longrightarrow>
      log_block t2 j < disksize t2 \<and> lh_block t2 ! j < disksize t2 \<and> lh_block t2 ! j \<in> pinned s \<and> log_block t2 j \<notin> pinned s"
    unfolding f1 f2 using ready_block [OF r] log_block_facts(2) [OF fits] by simp
  have "log_dev t2 = 1" using f1 f2 dev by simp
  note inst = install_loop_ok [OF t2(2) this rm q]
  obtain t3 where t3: "install_trans_loop (nat (lh_n s)) 0 t2 = Ok t3" "cache_inv Map.empty t3" "bio_frame t2 t3"
    and T3: "let W = map (\<lambda>j. (lh_block t2 ! j, view t2 (log_block t2 j))) [0..<0 + nat (lh_n s)] in
       view t3 = apply_writes W (view t2) \<and> disk t3 = apply_writes W (disk t2) \<and> dwrites t3 = dwrites t2 @ W \<and> pinned t3 = pinned t2 - fst ` set W"
    using inst by - (elim exE conjE, rule that, assumption+)
  note f3 = frame_log [OF t3(3)] bio_frame_disksize [OF t3(3)]
  have W: "map (\<lambda>j. (lh_block t2 ! j, view t2 (log_block t2 j))) [0..<0 + nat (lh_n s)] = home_writes s"
    unfolding home_writes_def f1 f2
  proof (intro map_cong)
    fix j assume "j \<in> set [0..<nat (lh_n s)]"
    then have j: "j < nat (lh_n s)" by simp
    have "log_block s j \<noteq> log_start s" by (rule log_block_facts(4) [OF fits ready_block(1) [OF r j]])
    then have "view t2 (log_block s j) = view s (lh_block s ! j)" unfolding t2(4) t1(4) using log_writes_at [OF r j] by simp
    then show "(lh_block s ! j, view t2 (log_block s j)) = (lh_block s ! j, view s (lh_block s ! j))" by simp
  qed simp
  have T: "view t3 = apply_writes (home_writes s) (view t2)" "disk t3 = apply_writes (home_writes s) (disk t2)"
    "dwrites t3 = dwrites t2 @ home_writes s" "pinned t3 = {}"
    using T3 home_writes_fst [OF r] unfolding W Let_def p2 by blast+
  have v3: "view t3 (log_start s) = commit_header s"
    unfolding T(1) using ready_start [OF r] home_writes_fst [OF r] by (subst apply_writes_other) (auto simp: t2(4))
  let ?u = "t3\<lparr>lh_n := 0\<rparr>"
  have u: "cache_inv Map.empty ?u" "log_dev ?u = 1" "log_start ?u < disksize ?u" "card (pinned ?u) < NBUF"
    using t3(2) f1 f2 f3 dev st T(4) by simp_all
  have h: "header (lh_n ?u) (take (nat (lh_n ?u)) (lh_block ?u)) (view ?u (log_start ?u)) = header 0 [] (commit_header s)" "log_start ?u = log_start s"
    using v3 f1 f2 f3 by simp_all
  obtain t where t: "write_head ?u = Ok t" "cache_inv Map.empty t" "bio_frame ?u t"
    "disk t = (disk ?u)(log_start s := header 0 [] (commit_header s))"
    "dwrites t = dwrites ?u @ [(log_start s, header 0 [] (commit_header s))]" "pinned t = pinned ?u - {log_start s}"
    using write_head_ok [OF u, unfolded h(1), unfolded h(2)] by - (elim exE conjE, rule that, assumption+)
  have "commit s = Ok t" using pos t1(1) t2(1) t3(1) t(1) f1 f2 by (simp add: commit_def install_trans_def)
  moreover have "same_log s t" using same_log_frame [OF t(3)] f1 f2 f3 by (simp add: same_log_def)
  moreover have "outstanding t = outstanding s" using frame_log(7) [OF t(3)] f1 f2 f3 by simp
  moreover have "lh_n t = 0" "pinned t = {}" using frame_log(1) [OF t(3)] t(6) T(4) by simp_all
  moreover have "dwrites t = dwrites s @ commit_writes s" using t(5) T(3) t2(6) t1(6) by (simp add: commit_writes_def)
  moreover have "disk t = apply_writes (commit_writes s) (disk s)" using t(4) T(2) t2(5) t1(5) by (simp add: commit_writes_def)
  ultimately show ?thesis using t(2) by (intro exI [of _ t] conjI) assumption+
qed

lemma recovered_cong: "same_log s r \<Longrightarrow> recovered r d = recovered s d"
  by (simp add: recovered_def same_log_block) (simp add: same_log_def)

lemma recovered_clean: "head_n (d (log_start s)) = 0 \<Longrightarrow> recovered s d = d"
  by (simp add: recovered_def)

lemma home_view:
  assumes r: "log_ready s" and b: "b \<notin> log_area s"
  shows "apply_writes (log_writes s) (disk s) b = disk s b"
    and "b \<notin> pinned s \<Longrightarrow> view s b = disk s b"
    and "b \<in> pinned s \<Longrightarrow> apply_writes (home_writes s) d b = view s b"
proof -
  show "apply_writes (log_writes s) (disk s) b = disk s b" using log_writes_area [OF r] b by (intro apply_writes_other) blast
  show "view s b = disk s b" if "b \<notin> pinned s" using r that by (intro quiet_view) (simp_all add: log_ready_def)
  show "apply_writes (home_writes s) d b = view s b" if "b \<in> pinned s"
    using that home_writes_fst [OF r] by (intro apply_writes_same) (auto simp: home_writes_def)
qed

lemma take_subset: "fst ` set (take k ws) \<subseteq> fst ` set ws"
  by (intro image_mono set_take_subset)

text \<open>The disk after the header of the transaction and \<open>m\<close> of its home blocks are on it.\<close>

definition committed :: "nat \<Rightarrow> 'z log_st_scheme \<Rightarrow> u32 \<Rightarrow> block" where
  "committed m s = apply_writes (take m (home_writes s)) ((apply_writes (log_writes s) (disk s))(log_start s := commit_header s))"

lemma committed_disk:
  assumes r: "log_ready s"
  shows "committed m s (log_start s) = commit_header s" and "j < nat (lh_n s) \<Longrightarrow> committed m s (log_block s j) = view s (lh_block s ! j)"
    and "b \<notin> log_area s \<Longrightarrow> b \<notin> pinned s \<Longrightarrow> committed m s b = disk s b"
proof -
  have sub: "fst ` set (take m (home_writes s)) \<subseteq> pinned s" using take_subset [of m "home_writes s"] home_writes_fst [OF r] by blast
  show "committed m s (log_start s) = commit_header s" unfolding committed_def using sub ready_start [OF r] by (subst apply_writes_other) auto
  show "committed m s (log_block s j) = view s (lh_block s ! j)" if j: "j < nat (lh_n s)"
  proof -
    have "log_block s j \<noteq> log_start s" using r by (intro log_block_facts(4) ready_block(1) [OF r j]) (simp add: log_ready_def)
    then show ?thesis unfolding committed_def using sub ready_block(5) [OF r j] log_writes_at [OF r j] by (subst apply_writes_other) auto
  qed
  assume b: "b \<notin> log_area s" "b \<notin> pinned s"
  then have "b \<noteq> log_start s" using r off_log_start unfolding log_ready_def by blast
  then show "committed m s b = disk s b" unfolding committed_def using sub b home_view(1) [OF r b(1)] by (subst apply_writes_other) auto
qed

lemma header_facts:
  assumes "log_ready s"
  shows "head_n (commit_header s) = lh_n s" "head_blocks (commit_header s) = take (nat (lh_n s)) (lh_block s)"
  using assms unfolding commit_header_def log_ready_def by (auto intro!: head_n_header head_blocks_header)

lemma recovered_committed:
  assumes r: "log_ready s" and b: "b \<notin> log_area s"
  shows "recovered s (committed m s) b = view s b"
proof -
  have "map (\<lambda>j. (head_blocks (committed m s (log_start s)) ! j, committed m s (log_block s j))) [0..<nat (head_n (committed m s (log_start s)))] = home_writes s"
    unfolding committed_disk(1) [OF r] header_facts [OF r] home_writes_def
    using committed_disk(2) [OF r] by (intro map_cong) simp_all
  then have rec: "recovered s (committed m s) b = apply_writes (home_writes s) (committed m s) b" by (simp add: recovered_def)
  show ?thesis
  proof (cases "b \<in> pinned s")
    case True
    then show ?thesis using rec home_view(3) [OF r b] by simp
  next
    case False
    then have "apply_writes (home_writes s) (committed m s) b = committed m s b" using home_writes_fst [OF r] by (intro apply_writes_other) blast
    then show ?thesis using rec committed_disk(3) [OF r b False] home_view(2) [OF r b False] by simp
  qed
qed

lemma recovered_prefix:
  assumes r: "log_ready s" and b: "b \<notin> log_area s"
  defines "d \<equiv> \<lambda>k. apply_writes (take k (commit_writes s)) (disk s)"
  shows "recovered s (d k) b = (if k \<le> nat (lh_n s) then disk s b else view s b)"
proof -
  let ?n = "nat (lh_n s)"
  have len: "length (log_writes s) = ?n" "length (home_writes s) = ?n" by (simp_all add: log_writes_def home_writes_def)
  have bs: "b \<noteq> log_start s" using r b off_log_start unfolding log_ready_def by blast
  consider "k \<le> ?n" | "?n < k" "k \<le> Suc (2 * ?n)" | "Suc (2 * ?n) < k" by linarith
  then show ?thesis
  proof cases
    case 1
    then have t: "take k (commit_writes s) = take k (log_writes s)" using len by (simp add: commit_writes_def)
    have sub: "fst ` set (take k (log_writes s)) \<subseteq> log_area s - {log_start s}"
      using take_subset [of k "log_writes s"] log_writes_area [OF r] by blast
    have "d k (log_start s) = disk s (log_start s)" unfolding d_def t using sub by (intro apply_writes_other) blast
    then have "recovered s (d k) = d k" using r by (intro recovered_clean) (simp add: log_ready_def)
    moreover have "d k b = disk s b" unfolding d_def t using sub b by (intro apply_writes_other) blast
    ultimately show ?thesis using 1 by simp
  next
    case 2
    then have "take k (commit_writes s) = log_writes s @ [(log_start s, commit_header s)] @ take (k - ?n - 1) (home_writes s)"
      using len by (simp add: commit_writes_def take_Cons')
    then have "d k = committed (k - ?n - 1) s" by (simp add: d_def committed_def)
    then show ?thesis using recovered_committed [OF r b] 2 by simp
  next
    case 3
    then have t: "take k (commit_writes s) = commit_writes s" using len by (simp add: commit_writes_def)
    have "d k (log_start s) = header 0 [] (commit_header s)" unfolding d_def t by (simp add: commit_writes_def)
    then have "recovered s (d k) = d k" using head_n_header [of 0] by (intro recovered_clean) simp
    moreover have "d k b = apply_writes (home_writes s) ((apply_writes (log_writes s) (disk s))(log_start s := commit_header s)) b"
      unfolding d_def t using bs by (simp add: commit_writes_def)
    moreover have "apply_writes (home_writes s) ((apply_writes (log_writes s) (disk s))(log_start s := commit_header s)) b = view s b"
      using home_view [OF r b] home_writes_fst [OF r] bs by (cases "b \<in> pinned s") (auto simp: apply_writes_other)
    ultimately show ?thesis using 3 by simp
  qed
qed

lemma header_on_disk:
  assumes r: "log_ready s"
  defines "d \<equiv> \<lambda>k. apply_writes (take k (commit_writes s)) (disk s)"
  shows "0 \<le> head_n (d k (log_start s)) \<and> head_n (d k (log_start s)) \<le> 30 \<and> head_n (d k (log_start s)) < log_size s
    \<and> (\<forall>b \<in> set (head_blocks (d k (log_start s))). b < disksize s \<and> b \<notin> log_area s)"
proof -
  let ?n = "nat (lh_n s)"
  have len: "length (log_writes s) = ?n" "length (home_writes s) = ?n" by (simp_all add: log_writes_def home_writes_def)
  consider "k \<le> ?n" | "?n < k" "k \<le> Suc (2 * ?n)" | "Suc (2 * ?n) < k" by linarith
  then have "head_n (d k (log_start s)) = 0 \<or> d k (log_start s) = commit_header s"
  proof cases
    case 1
    then have t: "take k (commit_writes s) = take k (log_writes s)" using len by (simp add: commit_writes_def)
    have "d k (log_start s) = disk s (log_start s)" unfolding d_def t
      using take_subset [of k "log_writes s"] log_writes_area [OF r] by (intro apply_writes_other) blast
    then show ?thesis using r by (simp add: log_ready_def)
  next
    case 2
    then have "take k (commit_writes s) = log_writes s @ [(log_start s, commit_header s)] @ take (k - ?n - 1) (home_writes s)"
      using len by (simp add: commit_writes_def take_Cons')
    then show ?thesis using committed_disk(1) [OF r, of "k - ?n - 1"] by (simp add: d_def committed_def)
  next
    case 3
    then have t: "take k (commit_writes s) = commit_writes s" using len by (simp add: commit_writes_def)
    have "d k (log_start s) = header 0 [] (commit_header s)" unfolding d_def t by (simp add: commit_writes_def)
    then show ?thesis using head_n_header [of 0] by simp
  qed
  then show ?thesis
  proof
    assume "head_n (d k (log_start s)) = 0"
    then show ?thesis using r by (simp add: head_blocks_def log_ready_def log_fits_def)
  next
    assume "d k (log_start s) = commit_header s"
    then show ?thesis using header_facts [OF r] r by (auto simp: log_ready_def)
  qed
qed

text \<open>
  C1. A commit is atomic under crashes. It terminates without a panic; and if the machine
  stops after any number \<open>k\<close> of the disk writes it does (in the order it does them) and boots
  again with an empty cache, \<open>recover_from_log\<close> terminates and leaves every block outside the
  log with its content from before the transaction when the header had not been written, and
  with the content the transaction gave it in the cache otherwise: never a mixture.
\<close>

theorem commit_is_crash_atomic:
  assumes "log_ready s" and "0 < lh_n s"
  shows "\<exists>t ws. commit s = Ok t \<and> dwrites t = dwrites s @ ws \<and> disk t = apply_writes ws (disk s) \<and> lh_n t = 0 \<and> pinned t = {}
    \<and> (\<forall>k r. cache_inv Map.empty r \<and> pinned r = {} \<and> same_log s r \<and> disk r = apply_writes (take k ws) (disk s) \<longrightarrow>
         (\<exists>u. recover_from_log r = Ok u
            \<and> (\<forall>b. b \<notin> log_area s \<longrightarrow> disk u b = (if k \<le> nat (lh_n s) then disk s b else view s b))))"
proof -
  obtain t where t: "commit s = Ok t" "lh_n t = 0" "pinned t = {}"
    "dwrites t = dwrites s @ commit_writes s" "disk t = apply_writes (commit_writes s) (disk s)"
    using commit_ok [OF assms] by - (elim exE conjE, rule that, assumption+)
  have "\<exists>u. recover_from_log r = Ok u \<and> (\<forall>b. b \<notin> log_area s \<longrightarrow> disk u b = (if k \<le> nat (lh_n s) then disk s b else view s b))"
    if r: "cache_inv Map.empty r" "pinned r = {}" "same_log s r" "disk r = apply_writes (take k (commit_writes s)) (disk s)" for k r
  proof -
    have e: "log_start r = log_start s" "disksize r = disksize s" "log_area r = log_area s" "log_size r = log_size s" using r(3) by (auto simp: same_log_def log_area_def)
    have f: "log_fits r" using assms(1) r(3) by (simp add: log_ready_def log_fits_def same_log_def)
    note h = header_on_disk [OF assms(1), of k, folded r(4)]
    have "\<exists>u. recover_from_log r = Ok u \<and> cache_inv Map.empty u \<and> same_log r u \<and> lh_n u = 0 \<and> pinned u = {}
      \<and> head_n (disk u (log_start r)) = 0 \<and> (\<forall>c. c \<noteq> log_start r \<longrightarrow> disk u c = recovered r (disk r) c)"
      using h unfolding e [symmetric] by (intro recover_ok [OF r(1) f r(2)]) blast+
    then obtain u where u: "recover_from_log r = Ok u" "\<forall>c. c \<noteq> log_start r \<longrightarrow> disk u c = recovered r (disk r) c" by blast
    have "disk u b = (if k \<le> nat (lh_n s) then disk s b else view s b)" if b: "b \<notin> log_area s" for b
    proof -
      have "b \<noteq> log_start r" using b off_log_start [OF f] e(3) by blast
      then show ?thesis using u(2) recovered_cong [OF r(3)] recovered_prefix [OF assms(1) b, of k] r(4) by simp
    qed
    then show ?thesis using u(1) by blast
  qed
  then show ?thesis using t by (intro exI [of _ t] exI [of _ "commit_writes s"]) blast
qed

definition log0 :: log_st where
  "log0 = bio_st.extend (upd_buf 7 (\<lambda>q. q\<lparr>bvalid := True, bdirty := True, bdev := 1, blockno := 500, bdata := (\<lambda>_. 9)\<rparr>) bio0)
     \<lparr>log_start = 2, log_size = 30, outstanding = 1, committing = False, log_dev = 1, lh_n = 1, lh_block = 500 # replicate 29 0\<rparr>"

lemma log0_fields:
  "bufs log0 = (bufs bio0)(7 := (bufs bio0 7)\<lparr>bvalid := True, bdirty := True, bdev := 1, blockno := 500, bdata := (\<lambda>_. 9)\<rparr>)"
  "disk log0 = (\<lambda>_ _. 0)" "disksize log0 = 1000" "lh_n log0 = 1" "lh_block log0 = 500 # replicate 29 0" "log_start log0 = 2" "log_dev log0 = 1"
  "cpu_ok log0" "lock_free l log0" "\<exists>p < length (procs log0). cproc log0 (cur log0) = Some p" "sleeplocks log0 = sleeplocks bio0" "log_size log0 = 30"
  using bio_okD(2,3,4) [OF bio0_ok(1)]
  by (auto simp: log0_def bio_st.defs bio0_ok cpu_ok_def cur_def lock_free_def)

lemma log0_bio_ok: "bio_ok (rev [0..<NBUF]) {} log0"
proof -
  have d: "dll (bufs log0) (rev [0..<NBUF])" by (rule dll_cong [OF bio_okD(1) [OF bio0_ok(1)]]) (simp_all add: log0_fields(1))
  have dev: "bdev (bufs log0 i) = (if i = 7 then 1 else 0)" "bdirty (bufs log0 i) = (i = 7)" "brefcnt (bufs log0 i) = 0"
    "bvalid (bufs log0 7)" "blockno (bufs log0 7) = 500" for i using bio0_bufs [of i] bio0_bufs [of 7] by (simp_all add: log0_fields(1))
  show ?thesis unfolding bio_ok_def caches_def
    using d log0_fields(8-10) bio_okD(7) [OF bio0_ok(1)] by (simp add: dev log0_fields(11))
qed

lemma log0_ready: "log_ready log0" "0 < lh_n log0"
proof -
  have p: "pinned log0 = {500}"
  proof -
    have "{i. i < NBUF \<and> bdirty (bufs log0 i)} = {7}" using bio0_bufs by (auto simp: log0_fields(1))
    then show ?thesis unfolding pinned_def by (simp add: log0_fields(1))
  qed
  have "head_n (\<lambda>_. 0) = 0" by (simp add: head_n_def get32_def)
  moreover have "cache_inv Map.empty log0" using log0_bio_ok by (auto simp: cache_inv_def)
  ultimately show "log_ready log0" using p
    by (simp add: log_ready_def log_fits_def log0_fields log_area_def)
  show "0 < lh_n log0" by (simp add: log0_fields)
qed

lemma log0_area: "(31 :: u32) \<in> log_area log0" "(32 :: u32) \<notin> log_area log0"
  by (simp_all add: log_area_def log0_fields)

theorem commit_is_crash_atomic_witness:
  "log_ready log0 \<and> lh_n log0 = 1 \<and> (31 :: u32) \<in> log_area log0 \<and> (32 :: u32) \<notin> log_area log0 \<and> (\<exists>t. commit log0 = Ok t \<and> lh_n t = 0 \<and> pinned t = {})"
  using commit_is_crash_atomic [OF log0_ready] log0_ready(1) log0_fields(4) log0_area by blast

section \<open>Adding a block to a transaction\<close>

definition log_index :: "u32 \<Rightarrow> 'z log_st_scheme \<Rightarrow> nat" where
  "log_index b s = (case find_idx (\<lambda>x. x = b) (take (nat (lh_n s)) (lh_block s)) of Some i \<Rightarrow> i | None \<Rightarrow> nat (lh_n s))"

definition logged :: "nat \<Rightarrow> 'z log_st_scheme \<Rightarrow> 'z log_st_scheme" where
  "logged i s = upd_buf i (\<lambda>b. b\<lparr>bdirty := True\<rparr>)
     (s\<lparr>lh_block := (lh_block s)[log_index (blockno (bufs s i)) s := blockno (bufs s i)],
        lh_n := (if int (log_index (blockno (bufs s i)) s) = lh_n s then lh_n s + 1 else lh_n s)\<rparr>)"

lemma log_write_eq:
  assumes "cpu_ok s" "lock_free Log_lock s" "lh_n s < 30" "lh_n s < log_size s - 1" "1 \<le> outstanding s"
  shows "log_write i s = Ok (logged i s)"
proof -
  let ?e = "enter Log_lock s"
  have e: "lh_n ?e = lh_n s" "lh_block ?e = lh_block s" by (simp_all add: enter_def)
  have li: "log_index b ?e = log_index b s" for b by (simp only: log_index_def e)
  have r: "release Log_lock (logged i ?e) = Ok (relock Log_lock s (logged i ?e))"
    using assms(1,2) by (intro release_relock) (simp_all add: logged_def)
  have l: "relock Log_lock s (logged i ?e) = logged i s"
    unfolding logged_def relock_upd_buf by (rule arg_cong [of _ _ "upd_buf i _"]) (simp only: li e, simp add: relock_def enter_def)
  have u: "(if c then v\<lparr>lh_n := lh_n v + 1\<rparr> else v) = v\<lparr>lh_n := (if c then lh_n v + 1 else lh_n v)\<rparr>" for c and v :: "'a log_st_scheme"
    by (cases v) simp
  have "log_write i s = release Log_lock (logged i ?e)"
    using assms acquire_free [OF assms(1,2)] unfolding log_write_def logged_def log_index_def [symmetric] Let_def u
    by (simp add: e li)
  then show ?thesis using r l by simp
qed

lemma set_dirty_ok:
  assumes ok: "bio_ok xs H s" and i: "i \<in> H"
  shows "bio_ok xs H (upd_buf i (\<lambda>b. b\<lparr>bdirty := True\<rparr>) s)" and "view (upd_buf i (\<lambda>b. b\<lparr>bdirty := True\<rparr>) s) = view s"
    and "pinned (upd_buf i (\<lambda>b. b\<lparr>bdirty := True\<rparr>) s) = insert (blockno (bufs s i)) (pinned s)"
proof -
  let ?t = "upd_buf i (\<lambda>b. b\<lparr>bdirty := True\<rparr>) s"
  have iN: "i < NBUF" using holding_held(2) [OF ok i] .
  have f: "bdev (bufs ?t j) = bdev (bufs s j)" "brefcnt (bufs ?t j) = brefcnt (bufs s j)" "blockno (bufs ?t j) = blockno (bufs s j)"
    "bdata (bufs ?t j) = bdata (bufs s j)" "bvalid (bufs ?t j) = bvalid (bufs s j)"
    "bdirty (bufs ?t j) = (j = i \<or> bdirty (bufs s j))" for j by simp_all
  have c: "caches ?t j b = caches s j b" for j b unfolding caches_def f ..
  show "view ?t = view s" unfolding view_def c f by (auto simp: fun_eq_iff upd_buf_def split: option.split)
  show "bio_ok xs H ?t"
  proof -
    have "dll (bufs ?t) xs" by (rule dll_cong [OF bio_okD(1) [OF ok]]) simp_all
    then show ?thesis using ok bio_okD(9) [OF ok i] i unfolding bio_ok_def c f
      by (simp only: upd_buf_simps) blast
  qed
  have "x \<in> pinned ?t \<longleftrightarrow> x \<in> insert (blockno (bufs s i)) (pinned s)" for x
    unfolding pinned_def image_iff mem_Collect_eq insert_iff f using iN by blast
  then show "pinned ?t = insert (blockno (bufs s i)) (pinned s)" by blast
qed

lemma log_index_cases:
  assumes "0 \<le> lh_n s" "nat (lh_n s) \<le> length (lh_block s)"
  shows "b \<in> set (take (nat (lh_n s)) (lh_block s)) \<Longrightarrow> log_index b s < nat (lh_n s) \<and> lh_block s ! log_index b s = b"
    and "b \<notin> set (take (nat (lh_n s)) (lh_block s)) \<Longrightarrow> log_index b s = nat (lh_n s)"
proof -
  let ?l = "take (nat (lh_n s)) (lh_block s)"
  show "log_index b s = nat (lh_n s)" if "b \<notin> set ?l"
  proof -
    have "find_idx (\<lambda>x. x = b) ?l = None" using that by (auto simp: find_idx_None)
    then show ?thesis by (simp add: log_index_def)
  qed
  assume b: "b \<in> set ?l"
  then have "find_idx (\<lambda>x. x = b) ?l \<noteq> None" by (auto simp: find_idx_None)
  then obtain k where k: "find_idx (\<lambda>x. x = b) ?l = Some k" by auto
  then show "log_index b s < nat (lh_n s) \<and> lh_block s ! log_index b s = b"
    using find_idx_SomeD [OF k] assms by (auto simp: log_index_def)
qed

text \<open>Everything but the buffer cache and the list of logged blocks stays as it is.\<close>

definition log_frame :: "'z log_st_scheme \<Rightarrow> 'z log_st_scheme \<Rightarrow> bool" where
  "log_frame s t \<longleftrightarrow> (\<exists>p sl d w bf l n. t = s\<lparr>procs := p, sleeplocks := sl, bufs := bf, disk := d, dwrites := w, lh_n := n, lh_block := l\<rparr>)"

lemma log_frameI:
  "t = s\<lparr>procs := procs t, sleeplocks := sleeplocks t, bufs := bufs t, disk := disk t, dwrites := dwrites t, lh_n := lh_n t, lh_block := lh_block t\<rparr>
   \<Longrightarrow> log_frame s t"
  unfolding log_frame_def by blast

lemma log_write_ok:
  assumes c: "cache_inv h s" "h i = Some b" and n: "0 \<le> lh_n s" "length (lh_block s) = 30"
    and l: "distinct (take (nat (lh_n s)) (lh_block s))" "set (take (nat (lh_n s)) (lh_block s)) = pinned s"
    and False: "\<not> (lh_n s \<ge> 30 \<or> lh_n s \<ge> log_size s - 1 \<or> outstanding s < 1)"
  shows "\<exists>t. log_write i s = Ok t \<and> cache_inv h t \<and> pinned t = insert b (pinned s)
       \<and> lh_n t = lh_n s + (if b \<in> pinned s then 0 else 1)
       \<and> distinct (take (nat (lh_n t)) (lh_block t)) \<and> set (take (nat (lh_n t)) (lh_block t)) = pinned t
       \<and> view t = view s \<and> disk t = disk s \<and> length (lh_block t) = 30 \<and> log_frame s t"
proof -
  obtain xs where ok: "bio_ok xs (dom h) s" and hb: "\<And>i b. h i = Some b \<Longrightarrow> blockno (bufs s i) = b" using c(1) by (auto simp: cache_inv_def)
  have i: "i \<in> dom h" and b: "blockno (bufs s i) = b" using c(2) hb by auto
  let ?k = "log_index b s"
  let ?u = "s\<lparr>lh_block := (lh_block s)[?k := b], lh_n := (if int ?k = lh_n s then lh_n s + 1 else lh_n s)\<rparr>"
  have t: "logged i s = upd_buf i (\<lambda>b. b\<lparr>bdirty := True\<rparr>) ?u" unfolding logged_def b ..
  have w: "log_write i s = Ok (logged i s)" using False bio_okD(2,3) [OF ok] by (intro log_write_eq) simp_all
  have ok': "bio_ok xs (dom h) ?u" using ok by simp
  note d = set_dirty_ok [OF ok' i, folded t]
  have p: "pinned (logged i s) = insert b (pinned s)" "view (logged i s) = view s" "disk (logged i s) = disk s"
    using d b by (simp_all add: t)
  have "cache_inv h (logged i s)" using d(1) hb unfolding cache_inv_def by (auto simp: t)
  have f: "lh_n (logged i s) = lh_n ?u" "lh_block (logged i s) = (lh_block s)[?k := b]" by (simp_all add: t upd_buf_def)
  have len: "length (lh_block (logged i s)) = 30" using f(2) n(2) by simp
  have fr: "log_frame s (logged i s)" by (rule log_frameI, cases s) (simp add: logged_def upd_buf_def)
  note x = log_index_cases [of s b]
  have "lh_n (logged i s) = lh_n s + (if b \<in> pinned s then 0 else 1) \<and> distinct (take (nat (lh_n (logged i s))) (lh_block (logged i s)))
    \<and> set (take (nat (lh_n (logged i s))) (lh_block (logged i s))) = insert b (pinned s)"
  proof (cases "b \<in> pinned s")
    case True
    then have k: "?k < nat (lh_n s)" "lh_block s ! ?k = b" using x(1) False n l(2) by auto
    then have "(lh_block s)[?k := b] = lh_block s" "int ?k \<noteq> lh_n s" using False n by (metis list_update_id) (use k in simp)
    then show ?thesis using True l f by (simp add: insert_absorb)
  next
    case no: False
    then have k: "?k = nat (lh_n s)" using x(2) False n l(2) by auto
    have lt: "nat (lh_n s) < length (lh_block s)" using False n by linarith
    have "take (Suc (nat (lh_n s))) ((lh_block s)[?k := b]) = take (nat (lh_n s)) (lh_block s) @ [b]"
      using lt k by (simp add: take_Suc_conv_app_nth)
    moreover have "nat (lh_n s + 1) = Suc (nat (lh_n s))" using n by simp
    ultimately show ?thesis using no l f k n by simp
  qed
  then show "\<exists>t. log_write i s = Ok t \<and> cache_inv h t \<and> pinned t = insert b (pinned s)
       \<and> lh_n t = lh_n s + (if b \<in> pinned s then 0 else 1)
       \<and> distinct (take (nat (lh_n t)) (lh_block t)) \<and> set (take (nat (lh_n t)) (lh_block t)) = pinned t
       \<and> view t = view s \<and> disk t = disk s \<and> length (lh_block t) = 30 \<and> log_frame s t"
    using w p fr len \<open>cache_inv h (logged i s)\<close> by (intro exI [of _ "logged i s"] conjI; elim conjE) (assumption | simp only:)+
qed

text \<open>
  C37. \<open>log_write\<close> of a held buffer: it panics when the log is full or no transaction is open, and
  otherwise pins the block in the cache and lists it in the header once, however often it is
  written; the header keeps listing exactly the pinned blocks, without repetition, and
  neither the content of any block nor the disk changes.
\<close>

theorem log_write_absorbs:
  assumes c: "cache_inv h s" "h i = Some b" and n: "0 \<le> lh_n s" "length (lh_block s) = 30"
    and l: "distinct (take (nat (lh_n s)) (lh_block s))" "set (take (nat (lh_n s)) (lh_block s)) = pinned s"
  shows "(if lh_n s \<ge> 30 \<or> lh_n s \<ge> log_size s - 1 then log_write i s = Panic ''too big a transaction''
     else if outstanding s < 1 then log_write i s = Panic ''log_write outside of trans''
     else \<exists>t. log_write i s = Ok t \<and> cache_inv h t \<and> pinned t = insert b (pinned s)
       \<and> lh_n t = lh_n s + (if b \<in> pinned s then 0 else 1)
       \<and> distinct (take (nat (lh_n t)) (lh_block t)) \<and> set (take (nat (lh_n t)) (lh_block t)) = pinned t
       \<and> view t = view s \<and> disk t = disk s)"
proof (cases "lh_n s \<ge> 30 \<or> lh_n s \<ge> log_size s - 1 \<or> outstanding s < 1")
  case True
  then show ?thesis by (auto simp: log_write_def)
next
  case False
  have "\<exists>t. log_write i s = Ok t \<and> cache_inv h t \<and> pinned t = insert b (pinned s)
       \<and> lh_n t = lh_n s + (if b \<in> pinned s then 0 else 1)
       \<and> distinct (take (nat (lh_n t)) (lh_block t)) \<and> set (take (nat (lh_n t)) (lh_block t)) = pinned t
       \<and> view t = view s \<and> disk t = disk s"
    using log_write_ok [OF c n l False] by (elim exE conjE) (intro exI conjI, assumption+)
  then show ?thesis using False by (simp only: de_Morgan_disj if_False simp_thms)
qed

text \<open>A logged block of \<open>log0\<close> and one read since.\<close>

theorem log_write_absorbs_witness:
  "\<exists>i s t. bread 1 600 log0 = Ok (i, s) \<and> log_write i s = Ok t \<and> pinned t = {500, 600} \<and> lh_n t = 2 \<and> view t = view log0"
proof -
  have p: "pinned log0 = {500}" using log0_ready(1) by (simp add: log_ready_def log0_fields)
  have c: "cache_inv Map.empty log0" using log0_ready(1) by (simp add: log_ready_def)
  obtain i s where s: "bread 1 600 log0 = Ok (i, s)" "cache_inv [i \<mapsto> 600] s" "view s = view log0" "pinned s = pinned log0" "bio_frame log0 s"
    using bc.rd [OF c, of 600] p by (auto simp: log0_fields)
  note f = frame_log [OF s(5)]
  have "\<exists>t. log_write i s = Ok t \<and> pinned t = insert 600 (pinned s) \<and> lh_n t = 2 \<and> view t = view s"
  proof -
    have x: "log_size log0 = 30" "outstanding log0 = 1" by (simp_all add: log0_def bio_st.defs)
    show ?thesis using log_write_absorbs [OF s(2), of i 600] unfolding f s(4) p log0_fields x by auto
  qed
  then obtain t where "log_write i s = Ok t" "pinned t = insert 600 (pinned s)" "lh_n t = 2" "view t = view s" by blast
  then show ?thesis using s p by (intro exI [of _ i] exI [of _ s] exI [of _ t]) (simp add: insert_commute)
qed

section \<open>Opening and closing a transaction\<close>

lemma begin_op_eq:
  assumes "cpu_ok s" "lock_free Log_lock s" "\<not> committing s" "lh_n s + (outstanding s + 1) * 10 \<le> 30"
  shows "begin_op s = Ok (s\<lparr>outstanding := outstanding s + 1\<rparr>)"
proof -
  let ?e = "enter Log_lock s"
  have e: "lh_n ?e = lh_n s" "committing ?e = committing s" "outstanding ?e = outstanding s" by (simp_all add: enter_def)
  have "release Log_lock (?e\<lparr>outstanding := outstanding s + 1\<rparr>) = Ok (relock Log_lock s (?e\<lparr>outstanding := outstanding s + 1\<rparr>))"
    using assms(1,2) by (intro release_relock) simp_all
  moreover have "relock Log_lock s (?e\<lparr>outstanding := outstanding s + 1\<rparr>) = s\<lparr>outstanding := outstanding s + 1\<rparr>"
    by (simp add: relock_def enter_def)
  ultimately show ?thesis using assms by (simp add: begin_op_def acquire_free e)
qed

text \<open>
  C40. Admission to the log. \<open>begin_op\<close> puts its caller to sleep while a commit is going on, or
  when the blocks already logged and \<open>MAXOPBLOCKS\<close> for every operation, the new one included,
  are more than \<open>LOGSIZE\<close>; otherwise it counts the operation. The space so reserved is one
  block more than \<open>log_write\<close> accepts: on the disk \<open>mkfs\<close> makes, whose log is \<open>LOGSIZE\<close> blocks
  with the header, three admitted operations that log ten blocks each panic on the last one.
\<close>

theorem log_reservation:
  assumes s: "cpu_ok s" "ncli s (cur s) = 0" "lock_free Log_lock s" "lock_free Ptable_lock s"
    and p: "cproc s (cur s) = Some p" "p < length (procs s)"
  shows "begin_op s =
       (if committing s \<or> lh_n s + (outstanding s + 1) * MAXOPBLOCKS > LOGSIZE then Block
        else Ok (s\<lparr>outstanding := outstanding s + 1\<rparr>))
     \<and> (\<not> committing s \<and> lh_n s = 0 \<and> outstanding s = 0 \<and> log_size s = LOGSIZE \<longrightarrow>
       bnd (begin_op s) (\<lambda>s. bnd (begin_op s) begin_op) = Ok (s\<lparr>outstanding := 3\<rparr>)
       \<and> log_write i (s\<lparr>outstanding := 3, lh_n := 3 * MAXOPBLOCKS - 1\<rparr>) = Panic ''too big a transaction'')"
proof (intro conjI impI)
  have slp: "sleep Log_chan Log_lock (enter Log_lock s) = (Block :: 'b log_st_scheme res)"
    using s p by (intro sleep_blocks) (auto simp: enter_def lock_free_def cpu_ok_def)
  have e: "lh_n (enter Log_lock s) = lh_n s" "committing (enter Log_lock s) = committing s" "outstanding (enter Log_lock s) = outstanding s"
    by (simp_all add: enter_def)
  show "begin_op s =
       (if committing s \<or> lh_n s + (outstanding s + 1) * MAXOPBLOCKS > LOGSIZE then Block
        else Ok (s\<lparr>outstanding := outstanding s + 1\<rparr>))"
  proof (cases "committing s \<or> lh_n s + (outstanding s + 1) * MAXOPBLOCKS > LOGSIZE")
    case True
    then show ?thesis using slp acquire_free [OF s(1,3)] by (auto simp: begin_op_def e)
  next
    case False
    then show ?thesis using begin_op_eq [OF s(1,3)] by auto
  qed
next
  assume "\<not> committing s \<and> lh_n s = 0 \<and> outstanding s = 0 \<and> log_size s = LOGSIZE"
  then have c: "\<not> committing s" "lh_n s = 0" "outstanding s = 0" "log_size s = 30" by simp_all
  have t: "cpu_ok (s\<lparr>outstanding := k\<rparr>)" "lock_free Log_lock (s\<lparr>outstanding := k\<rparr>)" for k
    using s(1,3) by (simp_all add: cpu_ok_def lock_free_def cur_def)
  have "begin_op s = Ok (s\<lparr>outstanding := 1\<rparr>)" using begin_op_eq [OF s(1,3)] c by simp
  moreover have "begin_op (s\<lparr>outstanding := 1\<rparr>) = Ok (s\<lparr>outstanding := 2\<rparr>)" using begin_op_eq [OF t] c by simp
  moreover have "begin_op (s\<lparr>outstanding := 2\<rparr>) = Ok (s\<lparr>outstanding := 3\<rparr>)" using begin_op_eq [OF t] c by simp
  ultimately show "bnd (begin_op s) (\<lambda>s. bnd (begin_op s) begin_op) = Ok (s\<lparr>outstanding := 3\<rparr>)" by simp
  show "log_write i (s\<lparr>outstanding := 3, lh_n := 3 * MAXOPBLOCKS - 1\<rparr>) = Panic ''too big a transaction''"
    using c by (simp add: log_write_def)
qed

lemma ops_simps [simp]:
  "cache_inv h (s\<lparr>outstanding := n\<rparr>) = cache_inv h s" "cache_inv h (s\<lparr>committing := c\<rparr>) = cache_inv h s"
  "view (s\<lparr>outstanding := n\<rparr>) = view s" "view (s\<lparr>committing := c\<rparr>) = view s"
  "pinned (s\<lparr>outstanding := n\<rparr>) = pinned s" "pinned (s\<lparr>committing := c\<rparr>) = pinned s"
  by (simp_all add: cache_inv_def bio_ok_def caches_def cpu_ok_def cur_def lock_free_def me_def pinned_def view_def fun_eq_iff
    cong: option.case_cong)

lemma end_op_open:
  assumes "cpu_ok s" "\<And>l. lock_free l s" "\<not> committing s" "outstanding s \<noteq> 1"
  shows "end_op s = Ok (wakeup1 Log_chan (s\<lparr>outstanding := outstanding s - 1\<rparr>))"
proof -
  let ?e = "enter Log_lock s" let ?f = "?e\<lparr>outstanding := outstanding s - 1\<rparr>"
  have e: "committing ?e = committing s" "outstanding ?e = outstanding s" by (simp_all add: enter_def)
  have cf: "cpu_ok ?f" "lock_free Ptable_lock ?f" using assms(1,2) by (auto simp: enter_def cpu_ok_def lock_free_def cur_def)
  have "release Log_lock (wakeup1 Log_chan ?f) = Ok (relock Log_lock s (wakeup1 Log_chan ?f))"
    using assms(1,2) by (intro release_relock) (simp_all add: wakeup1_def)
  moreover have "relock Log_lock s (wakeup1 Log_chan ?f) = wakeup1 Log_chan (s\<lparr>outstanding := outstanding s - 1\<rparr>)"
    unfolding relock_wakeup1 by (simp add: relock_def enter_def)
  ultimately show ?thesis using assms wakeup_eq [OF cf] by (simp add: end_op_def acquire_free e)
qed

lemma end_op_last:
  assumes s: "cpu_ok s" "\<And>l. lock_free l s" "\<not> committing s" "outstanding s = 1"
    and c: "commit (s\<lparr>outstanding := 0, committing := True\<rparr>) = Ok t" and t: "cpu_ok t" "\<And>l. lock_free l t"
  shows "end_op s = Ok (wakeup1 Log_chan (t\<lparr>committing := False\<rparr>))"
proof -
  let ?e = "enter Log_lock s" let ?f = "?e\<lparr>outstanding := 0, committing := True\<rparr>"
  have e: "committing ?e = committing s" "outstanding ?e = outstanding s" by (simp_all add: enter_def)
  have "release Log_lock ?f = Ok (relock Log_lock s ?f)" using s by (intro release_relock) simp_all
  then have r: "release Log_lock ?f = Ok (s\<lparr>outstanding := 0, committing := True\<rparr>)" by (simp add: relock_def enter_def)
  let ?g = "(enter Log_lock t)\<lparr>committing := False\<rparr>"
  have cg: "cpu_ok ?g" "lock_free Ptable_lock ?g" using t by (auto simp: enter_def cpu_ok_def lock_free_def cur_def)
  have "release Log_lock (wakeup1 Log_chan ?g) = Ok (relock Log_lock t (wakeup1 Log_chan ?g))"
    using t by (intro release_relock) (simp_all add: wakeup1_def)
  then have "release Log_lock (wakeup1 Log_chan ?g) = Ok (wakeup1 Log_chan (t\<lparr>committing := False\<rparr>))"
    unfolding relock_wakeup1 by (simp add: relock_def enter_def)
  then show ?thesis using s t c r wakeup_eq [OF cg] by (simp add: end_op_def acquire_free e)
qed

lemma cache_inv_wakeup1:
  assumes "cache_inv Map.empty s"
  shows "cache_inv Map.empty (wakeup1 c s)" "view (wakeup1 c s) = view s" "pinned (wakeup1 c s) = pinned s"
proof -
  show "view (wakeup1 c s) = view s" by (rule ext) (simp add: view_def caches_def cong: option.case_cong)
  show "pinned (wakeup1 c s) = pinned s" by (simp add: pinned_def)
  have "bio_ok xs {} (wakeup1 c s) = bio_ok xs {} s" for xs
    by (simp add: bio_ok_def caches_def cpu_ok_def lock_free_def)
  then show "cache_inv Map.empty (wakeup1 c s)" using assms by (simp add: cache_inv_def)
qed

lemma commit_home:
  assumes r: "log_ready s" and b: "b \<notin> log_area s"
  shows "apply_writes (commit_writes s) (disk s) b = view s b"
proof -
  have "b \<noteq> log_start s" using r b off_log_start unfolding log_ready_def by blast
  then have "apply_writes (commit_writes s) (disk s) b
      = apply_writes (home_writes s) ((apply_writes (log_writes s) (disk s))(log_start s := commit_header s)) b"
    by (simp add: commit_writes_def)
  also have "\<dots> = view s b"
    using home_view [OF r b] home_writes_fst [OF r] \<open>b \<noteq> log_start s\<close> by (cases "b \<in> pinned s") (auto simp: apply_writes_other)
  finally show ?thesis .
qed

lemma commit_all:
  assumes r: "log_ready s"
  shows "\<exists>t. commit s = Ok t \<and> cache_inv Map.empty t \<and> outstanding t = outstanding s \<and> lh_n t = 0 \<and> pinned t = {}
    \<and> (\<forall>b. b \<notin> log_area s \<longrightarrow> disk t b = view s b \<and> view t b = view s b)"
proof (cases "0 < lh_n s")
  case True
  obtain t where t: "commit s = Ok t" "cache_inv Map.empty t" "outstanding t = outstanding s" "lh_n t = 0" "pinned t = {}"
    "disk t = apply_writes (commit_writes s) (disk s)"
    using commit_ok [OF r True] by - (elim exE conjE, rule that, assumption+)
  have "disk t b = view s b \<and> view t b = view s b" if "b \<notin> log_area s" for b
    using commit_home [OF r that] t(6) quiet_view [OF t(2), of b] t(5) by simp
  then show ?thesis using t by blast
next
  case False
  then have z: "lh_n s = 0" "pinned s = {}" "cache_inv Map.empty s" using r by (auto simp: log_ready_def)
  then have "disk s b = view s b" for b using quiet_view [OF z(3), of b] by simp
  moreover have "commit s = Ok s" using z by (simp add: commit_def)
  ultimately show ?thesis using z by blast
qed

text \<open>
  C36. The last operation to leave commits. \<open>end_op\<close> with other operations still in the
  transaction only counts down and wakes the processes that wait for log space; the last
  one returns with an empty log, nothing pinned, and every block outside the log area on
  disk, and read back from the cache, as the transaction left it.
\<close>

theorem end_op_commits:
  assumes r: "log_ready s" and "\<not> committing s" "0 < outstanding s"
  shows "\<exists>t. end_op s = Ok t \<and> outstanding t = outstanding s - 1 \<and> \<not> committing t
    \<and> (if 1 < outstanding s then t = wakeup1 Log_chan (s\<lparr>outstanding := outstanding s - 1\<rparr>)
       else lh_n t = 0 \<and> pinned t = {} \<and> (\<forall>b. b \<notin> log_area s \<longrightarrow> disk t b = view s b \<and> view t b = view s b))"
proof -
  obtain xs where ok: "bio_ok xs {} s" using r by (auto simp: log_ready_def cache_inv_def)
  note cs = bio_okD(2,3) [OF ok]
  show ?thesis
  proof (cases "1 < outstanding s")
    case True
    then show ?thesis using end_op_open [OF cs assms(2)] assms(2) by (simp add: wakeup1_def)
  next
    case False
    then have o: "outstanding s = 1" using assms(3) by simp
    let ?u = "s\<lparr>outstanding := 0, committing := True\<rparr>"
    have v: "view ?u = view s" "disk ?u = disk s" "log_area ?u = log_area s"
      by (simp_all add: log_area_def)
    have ru: "log_ready ?u" using r by (simp add: log_ready_def log_fits_def log_area_def)
    obtain t where t: "commit ?u = Ok t" "cache_inv Map.empty t" "outstanding t = outstanding ?u" "lh_n t = 0" "pinned t = {}"
      "\<forall>b. b \<notin> log_area ?u \<longrightarrow> disk t b = view ?u b \<and> view t b = view ?u b"
      using commit_all [OF ru] by - (elim exE conjE, rule that, assumption+)
    obtain ys where ys: "bio_ok ys {} t" using t(2) by (auto simp: cache_inv_def)
    let ?t = "t\<lparr>committing := False\<rparr>"
    have e: "end_op s = Ok (wakeup1 Log_chan ?t)" using end_op_last [OF cs assms(2) o t(1)] bio_okD(2,3) [OF ys] by blast
    have ct: "cache_inv Map.empty ?t" "view ?t = view t" "pinned ?t = pinned t" "disk ?t = disk t"
      using t(2) by simp_all
    note w = cache_inv_wakeup1 [OF ct(1), of Log_chan]
    show ?thesis unfolding e using w ct t(3-6) o v False by (simp add: wakeup1_def)
  qed
qed

lemma binit_loop_ncli: "ncli (binit_loop n t) = ncli t"
  by (induction n) (simp_all add: push_front_bufs initsleeplock_def initlock_def Let_def)

lemma log0_ncli: "ncli log0 c = 0"
  by (simp add: log0_def bio0_def binit_def Let_def initlock_def binit_loop_ncli cons0_def ptable0_def vm0_def kmem0_def kst0_def
    kst.defs kmem_st.defs ptable_st.defs slock_st.defs cons_st.defs bio_st.defs)

theorem log_reservation_witness:
  "begin_op (log0\<lparr>outstanding := 2\<rparr>) = Block \<and> log_write 0 (log0\<lparr>outstanding := 3, lh_n := 29\<rparr>) = Panic ''too big a transaction''"
proof -
  obtain p where p: "p < length (procs log0)" "cproc log0 (cur log0) = Some p" using log0_fields(10) by blast
  have f: "log_size log0 = 30" "\<not> committing log0" by (simp_all add: log0_def bio_st.defs)
  have s: "cpu_ok (log0\<lparr>outstanding := a, lh_n := n\<rparr>)" "lock_free l (log0\<lparr>outstanding := a, lh_n := n\<rparr>)"
    "cur (log0\<lparr>outstanding := a, lh_n := n\<rparr>) = cur log0" for a n l
    using log0_fields(8,9) by (simp_all add: cpu_ok_def cur_def lock_free_def)
  have "begin_op (log0\<lparr>outstanding := 2, lh_n := 1\<rparr>) = Block"
    using log_reservation [OF s(1) _ s(2) s(2), of 1 2 p] p f by (simp add: s(3) log0_ncli)
  moreover have "log0\<lparr>outstanding := 2\<rparr> = log0\<lparr>outstanding := 2, lh_n := 1\<rparr>" by (simp add: log0_def bio_st.defs)
  moreover have "log_write 0 (log0\<lparr>outstanding := 3, lh_n := 29\<rparr>) = Panic ''too big a transaction''"
    using log_reservation [OF s(1) _ s(2) s(2), of 0 0 p 0] p f by (simp add: s(3) log0_ncli)
  ultimately show ?thesis by simp
qed

theorem end_op_commits_witness:
  "log_ready log0 \<and> outstanding log0 = 1 \<and> (\<exists>t. end_op log0 = Ok t \<and> lh_n t = 0 \<and> disk t 500 = (\<lambda>_. 9))"
proof -
  have f: "outstanding log0 = 1" "\<not> committing log0" by (simp_all add: log0_def bio_st.defs)
  have "(500 :: u32) \<notin> log_area log0" by (simp add: log_area_def log0_fields)
  moreover have "view log0 500 = (\<lambda>_. 9)"
    using view_caches [OF log0_bio_ok, of 7 500] by (simp add: caches_def log0_fields)
  ultimately show ?thesis using end_op_commits [OF log0_ready(1)] f log0_ready(1) by auto
qed

section \<open>Updates inside a transaction\<close>

text \<open>
  What the file system relies on in the log: \<open>lw\<close> makes a block it holds part of the transaction
  as long as there is room. \<open>tx\<close> is the invariant of the list of logged blocks, \<open>room\<close> the number
  of blocks that can still be added.
\<close>

locale transaction = block_cache +
  fixes lw :: "nat \<Rightarrow> 'a \<Rightarrow> 'a res" and tx :: "'a \<Rightarrow> bool" and spare :: "'a \<Rightarrow> int" and lfr :: "'a \<Rightarrow> 'a \<Rightarrow> bool"
  assumes lw: "inv h s \<Longrightarrow> h i = Some b \<Longrightarrow> tx s \<Longrightarrow> 0 < spare s \<Longrightarrow>
      \<exists>t. lw i s = Ok t \<and> inv h t \<and> tx t \<and> vw t = vw s \<and> dsk t = dsk s \<and> pin t = insert b (pin s) \<and> spare s - 1 \<le> spare t \<and> lfr s t"
    and tx_fr: "fr s t \<Longrightarrow> pin t = pin s \<Longrightarrow> tx s \<Longrightarrow> tx t \<and> spare t = spare s"
    and tx_cap: "tx s \<Longrightarrow> int (card (pin s)) + spare s \<le> int cap"
    and fr_lfr: "fr s t \<Longrightarrow> lfr s t"
    and lfr_trans: "lfr s t \<Longrightarrow> lfr t u \<Longrightarrow> lfr s u"
    and lfr_lim: "lfr s t \<Longrightarrow> lim t = lim s"
begin

text \<open>Taking one more buffer, changing a held one as part of the transaction, and letting it go.\<close>

lemma take_block:
  assumes s: "inv h s" "a < lim s" "a \<notin> ran h" "tx s" "int (card (dom h)) < spare s"
  shows "\<exists>x t. rd a s = Ok (x, t) \<and> x \<notin> dom h \<and> inv (h(x \<mapsto> a)) t \<and> tx t \<and> vw t = vw s \<and> dsk t = dsk s \<and> pin t = pin s
    \<and> spare t = spare s \<and> fr s t \<and> dt t x = vw s a"
proof -
  obtain x t where t: "rd a s = Ok (x, t)" "x \<notin> dom h" "inv (h(x \<mapsto> a)) t" "vw t = vw s" "dsk t = dsk s" "pin t = pin s" "fr s t"
    using rd [OF s(1-3)] tx_cap [OF s(4)] s(5) by auto
  then show ?thesis using tx_fr [OF t(7,6) s(4)] dt [OF t(3), of x a] by auto
qed

lemma dirty_block:
  assumes s: "inv h s" "h x = Some a" "tx s" "0 < spare s"
  shows "\<exists>t. lw x (md x d s) = Ok t \<and> inv h t \<and> tx t \<and> vw t = (vw s)(a := d) \<and> dsk t = dsk s \<and> pin t = insert a (pin s)
    \<and> spare s - 1 \<le> spare t \<and> lfr s t"
proof -
  let ?m = "md x d s"
  have m: "inv h ?m" "vw ?m = (vw s)(a := d)" "dsk ?m = dsk s" "pin ?m = pin s" "fr s ?m" using md [OF s(1,2), of d] by simp_all
  have tm: "tx ?m" "spare ?m = spare s" using tx_fr [OF m(5,4) s(3)] by simp_all
  obtain t where t: "lw x ?m = Ok t" "inv h t" "tx t" "vw t = vw ?m" "dsk t = dsk ?m" "pin t = insert a (pin ?m)" "spare ?m - 1 \<le> spare t" "lfr ?m t"
    using lw [OF m(1) s(2)] tm s(4) by auto
  show ?thesis using t(1-3,7) lfr_trans [OF fr_lfr [OF m(5)] t(8)]
    by (intro exI [of _ t]) (simp add: t(4-6) m(2-4) tm(2))
qed

lemma drop_block:
  assumes s: "inv (h(x \<mapsto> a)) s" "x \<notin> dom h" "tx s" "a \<in> pin s \<or> vw s a = dsk s a"
  shows "\<exists>t. rl x s = Ok t \<and> inv h t \<and> tx t \<and> vw t = vw s \<and> dsk t = dsk s \<and> pin t = pin s \<and> spare t = spare s \<and> fr s t"
proof -
  obtain t where t: "rl x s = Ok t" "inv ((h(x \<mapsto> a))(x := None)) t" "vw t = vw s" "dsk t = dsk s" "pin t = pin s" "fr s t"
    using rl [OF s(1), of x a] s(4) by auto
  have "(h(x \<mapsto> a))(x := None) = h" using s(2) by (auto simp: fun_eq_iff)
  then show ?thesis using t tx_fr [OF t(6,5) s(3)] by auto
qed

lemma update_one:
  assumes s: "inv h s" "a < lim s" "a \<notin> ran h" "tx s" "int (card (dom h)) < spare s"
  shows "\<exists>x t1. rd a s = Ok (x, t1) \<and> fr s t1 \<and> dt t1 x = vw s a \<and> (\<forall>d. \<exists>t2 t. lw x (md x d t1) = Ok t2 \<and> rl x t2 = Ok t
    \<and> inv h t \<and> tx t \<and> vw t = (vw s)(a := d) \<and> dsk t = dsk s \<and> pin t = insert a (pin s) \<and> spare s - 1 \<le> spare t \<and> lfr s t)"
proof -
  obtain x t1 where t1: "rd a s = Ok (x, t1)" "x \<notin> dom h" "inv (h(x \<mapsto> a)) t1" "tx t1" "vw t1 = vw s" "dsk t1 = dsk s" "pin t1 = pin s"
    "spare t1 = spare s" "fr s t1" "dt t1 x = vw s a"
    using take_block [OF s] by blast
  have sp: "0 < spare t1" "(h(x \<mapsto> a)) x = Some a" using s(5) t1(8) by simp_all
  have "\<exists>t2 t. lw x (md x d t1) = Ok t2 \<and> rl x t2 = Ok t
    \<and> inv h t \<and> tx t \<and> vw t = (vw s)(a := d) \<and> dsk t = dsk s \<and> pin t = insert a (pin s) \<and> spare s - 1 \<le> spare t \<and> lfr s t" for d
  proof -
    obtain t2 where t2: "lw x (md x d t1) = Ok t2" "inv (h(x \<mapsto> a)) t2" "tx t2" "vw t2 = (vw t1)(a := d)" "dsk t2 = dsk t1"
      "pin t2 = insert a (pin t1)" "spare t1 - 1 \<le> spare t2" "lfr t1 t2"
      using dirty_block [OF t1(3) sp(2) t1(4) sp(1)] by blast
    obtain t where t: "rl x t2 = Ok t" "inv h t" "tx t" "vw t = vw t2" "dsk t = dsk t2" "pin t = pin t2" "spare t = spare t2" "fr t2 t"
      using drop_block [OF t2(2) t1(2) t2(3)] t2(6) by blast
    show ?thesis using t(1-3) t2(1,7) lfr_trans [OF lfr_trans [OF fr_lfr [OF t1(9)] t2(8)] fr_lfr [OF t(8)]]
      by (intro exI [of _ t2] exI [of _ t]) (simp add: t(4-7) t2(4-6) t1(5-8))
  qed
  then show ?thesis using t1 by blast
qed

lemma look_one:
  assumes s: "inv h s" "a < lim s" "a \<notin> ran h" "tx s" "int (card (dom h)) < spare s" "a \<in> pin s \<or> vw s a = dsk s a"
  shows "\<exists>x t1 t. rd a s = Ok (x, t1) \<and> fr s t1 \<and> dt t1 x = vw s a \<and> rl x t1 = Ok t \<and> inv h t \<and> tx t \<and> vw t = vw s \<and> dsk t = dsk s
    \<and> pin t = pin s \<and> spare t = spare s \<and> fr s t"
proof -
  obtain x t1 where t1: "rd a s = Ok (x, t1)" "x \<notin> dom h" "inv (h(x \<mapsto> a)) t1" "tx t1" "vw t1 = vw s" "dsk t1 = dsk s" "pin t1 = pin s"
    "spare t1 = spare s" "fr s t1" "dt t1 x = vw s a"
    using take_block [OF s(1-5)] by blast
  obtain t where t: "rl x t1 = Ok t" "inv h t" "tx t" "vw t = vw t1" "dsk t = dsk t1" "pin t = pin t1" "spare t = spare t1" "fr t1 t"
    using drop_block [OF t1(3,2,4)] s(6) t1(5-7) by auto
  show ?thesis using t t1 fr_trans [OF t1(9) t(8)] by auto
qed

end

definition tx_ok :: "'z log_st_scheme \<Rightarrow> bool" where
  "tx_ok s \<longleftrightarrow> 0 \<le> lh_n s \<and> length (lh_block s) = 30 \<and> distinct (take (nat (lh_n s)) (lh_block s))
     \<and> set (take (nat (lh_n s)) (lh_block s)) = pinned s \<and> 1 \<le> outstanding s"

definition spare :: "'z log_st_scheme \<Rightarrow> int" where
  "spare s = min 30 (log_size s - 1) - lh_n s"

lemma log_frame_fields:
  "log_frame s t \<Longrightarrow> log_size t = log_size s" "log_frame s t \<Longrightarrow> outstanding t = outstanding s" "log_frame s t \<Longrightarrow> disksize t = disksize s"
  "log_frame s t \<Longrightarrow> committing t = committing s" "log_frame s t \<Longrightarrow> log_start t = log_start s"
  by (auto simp: log_frame_def)

lemma bio_log_frame: "bio_frame s t \<Longrightarrow> log_frame s t"
proof -
  assume "bio_frame s t"
  then obtain p sl bf d w where t: "t = s\<lparr>procs := p, sleeplocks := sl, bufs := bf, disk := d, dwrites := w\<rparr>" by (auto simp: bio_frame_def)
  show ?thesis by (rule log_frameI) (simp add: t)
qed

lemma log_frame_trans: "log_frame s t \<Longrightarrow> log_frame t u \<Longrightarrow> log_frame s u"
  unfolding log_frame_def by (elim exE, simp only:, simp) blast

lemma tx_room: "tx_ok s \<Longrightarrow> int (card (pinned s)) + spare s \<le> int NBUF"
  using card_length [of "take (nat (lh_n s)) (lh_block s)"] by (auto simp: tx_ok_def spare_def)

lemma tx_card: "tx_ok s \<Longrightarrow> 0 < spare s \<Longrightarrow> card (pinned s) < NBUF"
  using tx_room [of s] by simp

interpretation tx: transaction "bread 1" bwrite brelse set_data buf_data cache_inv view disk pinned dwrites disksize NBUF bio_frame
  log_write tx_ok spare log_frame
proof unfold_locales
  fix h :: "nat \<rightharpoonup> u32" and s :: "'a log_st_scheme" and i b
  assume a: "cache_inv h s" "h i = Some b" "tx_ok s" "0 < spare s"
  then have f: "\<not> (lh_n s \<ge> 30 \<or> lh_n s \<ge> log_size s - 1 \<or> outstanding s < 1)" by (auto simp: tx_ok_def spare_def)
  have x: "0 \<le> lh_n s" "length (lh_block s) = 30" "distinct (take (nat (lh_n s)) (lh_block s))" "set (take (nat (lh_n s)) (lh_block s)) = pinned s"
    using a(3) by (simp_all add: tx_ok_def)
  obtain t where t: "log_write i s = Ok t" "cache_inv h t" "pinned t = insert b (pinned s)" "lh_n t = lh_n s + (if b \<in> pinned s then 0 else 1)"
    "distinct (take (nat (lh_n t)) (lh_block t))" "set (take (nat (lh_n t)) (lh_block t)) = pinned t" "view t = view s" "disk t = disk s"
    "length (lh_block t) = 30" "log_frame s t"
    using log_write_ok [OF a(1,2) x f] by - (elim exE conjE, rule that, assumption+)
  have "tx_ok t" "spare s - 1 \<le> spare t" using t a(3) log_frame_fields [OF t(10)] by (auto simp: tx_ok_def spare_def)
  then show "\<exists>t. log_write i s = Ok t \<and> cache_inv h t \<and> tx_ok t \<and> view t = view s \<and> disk t = disk s \<and> pinned t = insert b (pinned s)
    \<and> spare s - 1 \<le> spare t \<and> log_frame s t" using t by blast
next
  fix s t :: "'a log_st_scheme"
  assume "bio_frame s t" "pinned t = pinned s" "tx_ok s"
  then show "tx_ok t \<and> spare t = spare s" by (simp add: tx_ok_def spare_def frame_log)
qed (rule tx_room bio_log_frame log_frame_trans log_frame_fields; assumption)+

end
