(* ===== verification/Fs.thy ===== *)
theory Fs
  imports Log
begin

text \<open>
  The file system: \<open>xv6-public-master/fs.c\<close> (blocks, inodes, file content, directories, paths)
  and the device functions \<open>consoleread\<close> and \<open>consolewrite\<close> of \<open>console.c\<close>, which lock inodes.

  An inode pointer is an index of \<open>icache.inode\<close>; where the code tests or returns a null
  pointer it is an option. Data moved by \<open>readi\<close> and \<open>writei\<close> is a list of bytes: \<open>readi\<close> returns
  the bytes it copies to \<open>dst\<close>, which its caller stores. A name or a path is the list of the
  bytes before its null byte.
\<close>

section \<open>State\<close>

record inode =
  idev :: u32
  inum :: u32
  iref :: int
  ivalid :: bool
  itype :: "16 word"
  imajor :: "16 word"
  iminor :: "16 word"
  inlink :: "16 word"
  isize :: u32
  addrs :: "u32 list"

record fs_st = log_st +
  sb :: superblock
  inodes :: "inode list"

abbreviation BSIZE :: nat where "BSIZE \<equiv> 512"
abbreviation BPB :: nat where "BPB \<equiv> 4096"
abbreviation IPB :: u32 where "IPB \<equiv> 8"
abbreviation NDIRECT :: nat where "NDIRECT \<equiv> 12"
abbreviation NINDIRECT :: nat where "NINDIRECT \<equiv> 128"
abbreviation MAXFILE :: nat where "MAXFILE \<equiv> NDIRECT + NINDIRECT"
abbreviation NINODE :: nat where "NINODE \<equiv> 50"
abbreviation DIRSIZ :: nat where "DIRSIZ \<equiv> 14"
abbreviation ROOTDEV :: u32 where "ROOTDEV \<equiv> 1"
abbreviation ROOTINO :: u32 where "ROOTINO \<equiv> 1"
abbreviation T_DIR :: "16 word" where "T_DIR \<equiv> 1"
abbreviation T_FILE :: "16 word" where "T_FILE \<equiv> 2"
abbreviation T_DEV :: "16 word" where "T_DEV \<equiv> 3"

definition BBLOCK :: "u32 \<Rightarrow> superblock \<Rightarrow> u32" where
  "BBLOCK b q = b div 4096 + sb_bmapstart q"

definition IBLOCK :: "u32 \<Rightarrow> superblock \<Rightarrow> u32" where
  "IBLOCK i q = i div IPB + sb_inodestart q"

definition upd_inode :: "nat \<Rightarrow> (inode \<Rightarrow> inode) \<Rightarrow> 'z fs_st_scheme \<Rightarrow> 'z fs_st_scheme" where
  "upd_inode i f s = s\<lparr>inodes := (inodes s)[i := f (inodes s ! i)]\<rparr>"

definition upd_data :: "nat \<Rightarrow> (block \<Rightarrow> block) \<Rightarrow> 'z bio_st_scheme \<Rightarrow> 'z bio_st_scheme" where
  "upd_data i f s = upd_buf i (\<lambda>b. b\<lparr>bdata := f (bdata b)\<rparr>) s"

section \<open>Blocks\<close>

definition bzero :: "u32 \<Rightarrow> u32 \<Rightarrow> 'z log_st_scheme \<Rightarrow> 'z log_st_scheme res" where
  "bzero dev bno s =
     bnd (bread dev bno s) (\<lambda>(bp, s).
       let s = upd_data bp (fill 0 BSIZE 0) s in
       bnd (log_write bp s) (brelse bp))"

definition bit_set :: "block \<Rightarrow> nat \<Rightarrow> bool" where
  "bit_set d bi \<longleftrightarrow> d (bi div 8) AND push_bit (bi mod 8) 1 \<noteq> 0"

text \<open>The outer loop of \<open>balloc\<close> from bit \<open>b\<close> on, with \<open>k\<close> bitmap blocks to go.\<close>

primrec balloc_loop :: "nat \<Rightarrow> nat \<Rightarrow> u32 \<Rightarrow> 'z fs_st_scheme \<Rightarrow> (u32 \<times> 'z fs_st_scheme) res" where
  "balloc_loop 0 b dev s = Panic ''balloc: out of blocks''"
| "balloc_loop (Suc k) b dev s =
     bnd (bread dev (BBLOCK (of_nat b) (sb s)) s) (\<lambda>(bp, s).
       case find_idx (\<lambda>bi. \<not> bit_set (bdata (bufs s bp)) bi) [0..<min BPB (unat (sb_size (sb s)) - b)] of
         Some bi \<Rightarrow>
           let s = upd_data bp (\<lambda>d. d(bi div 8 := d (bi div 8) OR push_bit (bi mod 8) 1)) s in
           bnd (log_write bp s) (\<lambda>s.
           bnd (brelse bp s) (\<lambda>s.
           bnd (bzero dev (of_nat (b + bi)) s) (\<lambda>s. Ok (of_nat (b + bi), s))))
       | None \<Rightarrow> bnd (brelse bp s) (balloc_loop k (b + BPB) dev))"

definition balloc :: "u32 \<Rightarrow> 'z fs_st_scheme \<Rightarrow> (u32 \<times> 'z fs_st_scheme) res" where
  "balloc dev s = balloc_loop ((unat (sb_size (sb s)) + (BPB - 1)) div BPB) 0 dev s"

definition bfree :: "u32 \<Rightarrow> u32 \<Rightarrow> 'z fs_st_scheme \<Rightarrow> 'z fs_st_scheme res" where
  "bfree dev b s =
     bnd (bread dev (BBLOCK b (sb s)) s) (\<lambda>(bp, s).
       let bi = unat b mod BPB in
       if \<not> bit_set (bdata (bufs s bp)) bi then Panic ''freeing free block''
       else
         let s = upd_data bp (\<lambda>d. d(bi div 8 := d (bi div 8) AND NOT (push_bit (bi mod 8) 1))) s in
         bnd (log_write bp s) (brelse bp))"

section \<open>Inodes\<close>

definition sb_format :: "int list" where
  "sb_format = map of_char (''superblock: '' @ [CHR 0x0A] @ ''size = %d blocks '' @ [CHR 0x0A] @ ''#datablocks = %d '' @ [CHR 0x0A]
     @ ''#inodes = %d '' @ [CHR 0x0A] @ ''#log-blocks = %d '' @ [CHR 0x0A] @ ''start block index of log = %d '' @ [CHR 0x0A]
     @ ''start block index of inodes = %d '' @ [CHR 0x0A] @ ''start block of bitmap = %d'' @ [CHR 0x0A])"

primrec iinit_loop :: "nat \<Rightarrow> 'z fs_st_scheme \<Rightarrow> 'z fs_st_scheme" where
  "iinit_loop 0 s = s"
| "iinit_loop (Suc n) s = initsleeplock (SL_inode n) ''inode'' (iinit_loop n s)"

definition iinit :: "u32 \<Rightarrow> 'z fs_st_scheme \<Rightarrow> 'z fs_st_scheme res" where
  "iinit dev s =
     (let s = iinit_loop NINODE (initlock Icache_lock ''icache'' s) in
      bnd (readsb dev s) (\<lambda>(q, s).
        let s = s\<lparr>sb := q\<rparr> in
        cprintf sb_format (map (\<lambda>v. Int_arg (sint v))
          [sb_size q, sb_nblocks q, sb_ninodes q, sb_nlog q, sb_logstart q, sb_inodestart q, sb_bmapstart q]) s))"

definition iget :: "u32 \<Rightarrow> u32 \<Rightarrow> 'z fs_st_scheme \<Rightarrow> (nat \<times> 'z fs_st_scheme) res" where
  "iget dev ino s =
     with_lock Icache_lock (\<lambda>s.
       case find_idx (\<lambda>ip. iref ip > 0 \<and> idev ip = dev \<and> inum ip = ino) (inodes s) of
         Some i \<Rightarrow> Ok (i, upd_inode i (\<lambda>ip. ip\<lparr>iref := iref ip + 1\<rparr>) s)
       | None \<Rightarrow>
           (case find_idx (\<lambda>ip. iref ip = 0) (inodes s) of
              None \<Rightarrow> Panic ''iget: no inodes''
            | Some i \<Rightarrow> Ok (i, upd_inode i (\<lambda>ip. ip\<lparr>idev := dev, inum := ino, iref := 1, ivalid := False\<rparr>) s))) s"

text \<open>The on-disk inode at byte offset \<open>k\<close> of its block.\<close>

definition get_dinode :: "block \<Rightarrow> nat \<Rightarrow> inode \<Rightarrow> inode" where
  "get_dinode d k ip = ip\<lparr>itype := get16 d k, imajor := get16 d (k + 2), iminor := get16 d (k + 4), inlink := get16 d (k + 6),
     isize := get32 d (k + 8), addrs := map (\<lambda>j. get32 d (k + 12 + 4 * j)) [0..<NDIRECT + 1]\<rparr>"

primrec put_words :: "nat \<Rightarrow> u32 list \<Rightarrow> block \<Rightarrow> block" where
  "put_words k [] d = d"
| "put_words k (w # ws) d = put_words (k + 4) ws (put32 k w d)"

definition put_dinode :: "inode \<Rightarrow> nat \<Rightarrow> block \<Rightarrow> block" where
  "put_dinode ip k d =
     put_words (k + 12) (addrs ip) (put32 (k + 8) (isize ip) (put16 (k + 6) (inlink ip)
       (put16 (k + 4) (iminor ip) (put16 (k + 2) (imajor ip) (put16 k (itype ip) d)))))"

definition dinode_off :: "u32 \<Rightarrow> nat" where
  "dinode_off i = 64 * unat (i mod IPB)"

primrec ialloc_loop :: "nat \<Rightarrow> u32 \<Rightarrow> u32 \<Rightarrow> 16 word \<Rightarrow> 'z fs_st_scheme \<Rightarrow> (nat \<times> 'z fs_st_scheme) res" where
  "ialloc_loop 0 ino dev ty s = Panic ''ialloc: no inodes''"
| "ialloc_loop (Suc k) ino dev ty s =
     bnd (bread dev (IBLOCK ino (sb s)) s) (\<lambda>(bp, s).
       if get16 (bdata (bufs s bp)) (dinode_off ino) = 0 then
         let s = upd_data bp (fill (dinode_off ino) 64 0) s;
             s = upd_data bp (put16 (dinode_off ino) ty) s
         in bnd (log_write bp s) (\<lambda>s. bnd (brelse bp s) (iget dev ino))
       else bnd (brelse bp s) (ialloc_loop k (ino + 1) dev ty))"

definition ialloc :: "u32 \<Rightarrow> 16 word \<Rightarrow> 'z fs_st_scheme \<Rightarrow> (nat \<times> 'z fs_st_scheme) res" where
  "ialloc dev ty s = ialloc_loop (unat (sb_ninodes (sb s)) - 1) 1 dev ty s"

definition iupdate :: "nat \<Rightarrow> 'z fs_st_scheme \<Rightarrow> 'z fs_st_scheme res" where
  "iupdate ip s =
     (let n = inodes s ! ip in
      bnd (bread (idev n) (IBLOCK (inum n) (sb s)) s) (\<lambda>(bp, s).
        let s = upd_data bp (put_dinode (inodes s ! ip) (dinode_off (inum n))) s in
        bnd (log_write bp s) (brelse bp)))"

definition idup :: "nat \<Rightarrow> 'z fs_st_scheme \<Rightarrow> (nat \<times> 'z fs_st_scheme) res" where
  "idup ip s = with_lock Icache_lock (\<lambda>s. Ok (ip, upd_inode ip (\<lambda>n. n\<lparr>iref := iref n + 1\<rparr>) s)) s"

definition ilock :: "nat option \<Rightarrow> 'z fs_st_scheme \<Rightarrow> 'z fs_st_scheme res" where
  "ilock p s =
     (case p of None \<Rightarrow> Panic ''ilock''
      | Some ip \<Rightarrow>
          if iref (inodes s ! ip) < 1 then Panic ''ilock''
          else
            bnd (acquiresleep (SL_inode ip) s) (\<lambda>s.
              if \<not> ivalid (inodes s ! ip) then
                let n = inodes s ! ip in
                bnd (bread (idev n) (IBLOCK (inum n) (sb s)) s) (\<lambda>(bp, s).
                  let s = upd_inode ip (get_dinode (bdata (bufs s bp)) (dinode_off (inum n))) s in
                  bnd (brelse bp s) (\<lambda>s.
                    let s = upd_inode ip (\<lambda>n. n\<lparr>ivalid := True\<rparr>) s in
                    if itype (inodes s ! ip) = 0 then Panic ''ilock: no type'' else Ok s))
              else Ok s))"

definition iunlock :: "nat option \<Rightarrow> 'z fs_st_scheme \<Rightarrow> 'z fs_st_scheme res" where
  "iunlock p s =
     (case p of None \<Rightarrow> Panic ''iunlock''
      | Some ip \<Rightarrow>
          bnd (holdingsleep (SL_inode ip) s) (\<lambda>(h, s).
            if \<not> h \<or> iref (inodes s ! ip) < 1 then Panic ''iunlock''
            else releasesleep (SL_inode ip) s))"

section \<open>File content\<close>

definition bmap :: "nat \<Rightarrow> nat \<Rightarrow> 'z fs_st_scheme \<Rightarrow> (u32 \<times> 'z fs_st_scheme) res" where
  "bmap ip bn s =
     (if bn < NDIRECT then
        let addr = addrs (inodes s ! ip) ! bn in
        if addr = 0 then
          bnd (balloc (idev (inodes s ! ip)) s) (\<lambda>(addr, s).
            Ok (addr, upd_inode ip (\<lambda>n. n\<lparr>addrs := (addrs n)[bn := addr]\<rparr>) s))
        else Ok (addr, s)
      else
        let bn = bn - NDIRECT in
        if bn < NINDIRECT then
          let addr = addrs (inodes s ! ip) ! NDIRECT in
          bnd (if addr = 0 then
                 bnd (balloc (idev (inodes s ! ip)) s) (\<lambda>(addr, s).
                   Ok (addr, upd_inode ip (\<lambda>n. n\<lparr>addrs := (addrs n)[NDIRECT := addr]\<rparr>) s))
               else Ok (addr, s)) (\<lambda>(addr, s).
          bnd (bread (idev (inodes s ! ip)) addr s) (\<lambda>(bp, s).
          bnd (let addr = get32 (bdata (bufs s bp)) (4 * bn) in
               if addr = 0 then
                 bnd (balloc (idev (inodes s ! ip)) s) (\<lambda>(addr, s).
                   let s = upd_data bp (put32 (4 * bn) addr) s in
                   bnd (log_write bp s) (\<lambda>s. Ok (addr, s)))
               else Ok (addr, s)) (\<lambda>(addr, s).
          bnd (brelse bp s) (\<lambda>s. Ok (addr, s)))))
        else Panic ''bmap: out of range'')"

primrec itrunc_direct :: "nat list \<Rightarrow> nat \<Rightarrow> 'z fs_st_scheme \<Rightarrow> 'z fs_st_scheme res" where
  "itrunc_direct [] ip s = Ok s"
| "itrunc_direct (i # is) ip s =
     bnd (let a = addrs (inodes s ! ip) ! i in
          if a \<noteq> 0 then
            bnd (bfree (idev (inodes s ! ip)) a s) (\<lambda>s. Ok (upd_inode ip (\<lambda>n. n\<lparr>addrs := (addrs n)[i := 0]\<rparr>) s))
          else Ok s) (itrunc_direct is ip)"

primrec itrunc_indirect :: "nat list \<Rightarrow> nat \<Rightarrow> nat \<Rightarrow> 'z fs_st_scheme \<Rightarrow> 'z fs_st_scheme res" where
  "itrunc_indirect [] bp ip s = Ok s"
| "itrunc_indirect (j # js) bp ip s =
     bnd (let a = get32 (bdata (bufs s bp)) (4 * j) in
          if a \<noteq> 0 then bfree (idev (inodes s ! ip)) a s else Ok s) (itrunc_indirect js bp ip)"

definition itrunc :: "nat \<Rightarrow> 'z fs_st_scheme \<Rightarrow> 'z fs_st_scheme res" where
  "itrunc ip s =
     bnd (itrunc_direct [0..<NDIRECT] ip s) (\<lambda>s.
     bnd (let a = addrs (inodes s ! ip) ! NDIRECT in
          if a \<noteq> 0 then
            bnd (bread (idev (inodes s ! ip)) a s) (\<lambda>(bp, s).
            bnd (itrunc_indirect [0..<NINDIRECT] bp ip s) (\<lambda>s.
            bnd (brelse bp s) (\<lambda>s.
            bnd (bfree (idev (inodes s ! ip)) (addrs (inodes s ! ip) ! NDIRECT) s) (\<lambda>s.
              Ok (upd_inode ip (\<lambda>n. n\<lparr>addrs := (addrs n)[NDIRECT := 0]\<rparr>) s)))))
          else Ok s) (\<lambda>s.
       iupdate ip (upd_inode ip (\<lambda>n. n\<lparr>isize := 0\<rparr>) s)))"

definition iput :: "nat \<Rightarrow> 'z fs_st_scheme \<Rightarrow> 'z fs_st_scheme res" where
  "iput ip s =
     bnd (acquiresleep (SL_inode ip) s) (\<lambda>s.
     bnd (if ivalid (inodes s ! ip) \<and> inlink (inodes s ! ip) = 0 then
            bnd (with_lock Icache_lock (\<lambda>s. Ok (iref (inodes s ! ip), s)) s) (\<lambda>(r, s).
              if r = 1 then
                bnd (itrunc ip s) (\<lambda>s.
                bnd (iupdate ip (upd_inode ip (\<lambda>n. n\<lparr>itype := 0\<rparr>) s)) (\<lambda>s.
                Ok (upd_inode ip (\<lambda>n. n\<lparr>ivalid := False\<rparr>) s)))
              else Ok s)
          else Ok s) (\<lambda>s.
     bnd (releasesleep (SL_inode ip) s) (\<lambda>s.
     bnd (with_lock Icache_lock (\<lambda>s. Ok ((), upd_inode ip (\<lambda>n. n\<lparr>iref := iref n - 1\<rparr>) s)) s) (\<lambda>(_, s). Ok s))))"

definition iunlockput :: "nat \<Rightarrow> 'z fs_st_scheme \<Rightarrow> 'z fs_st_scheme res" where
  "iunlockput ip s = bnd (iunlock (Some ip) s) (iput ip)"

record stat =
  st_dev :: u32
  st_ino :: u32
  st_type :: "16 word"
  st_nlink :: "16 word"
  st_size :: u32

definition stati :: "nat \<Rightarrow> 'z fs_st_scheme \<Rightarrow> stat" where
  "stati ip s = (let n = inodes s ! ip in
     \<lparr>st_dev = idev n, st_ino = inum n, st_type = itype n, st_nlink = inlink n, st_size = isize n\<rparr>)"

definition consoleread :: "nat \<Rightarrow> u32 \<Rightarrow> 'z fs_st_scheme \<Rightarrow> (int \<times> u8 list \<times> 'z fs_st_scheme) res" where
  "consoleread ip n s =
     bnd (iunlock (Some ip) s) (\<lambda>s.
     bnd (consoleread_body (nat (sint n)) s) (\<lambda>(r, s).
     bnd (ilock (Some ip) s) (\<lambda>s.
       case r of None \<Rightarrow> Ok (-1, [], s) | Some (cs, k) \<Rightarrow> Ok (int (nat (sint n) - k), cs, s))))"

definition consolewrite :: "nat \<Rightarrow> u8 list \<Rightarrow> 'z fs_st_scheme \<Rightarrow> (int \<times> 'z fs_st_scheme) res" where
  "consolewrite ip bs s =
     bnd (iunlock (Some ip) s) (\<lambda>s.
     bnd (consolewrite_body bs s) (\<lambda>s.
     bnd (ilock (Some ip) s) (\<lambda>s. Ok (int (length bs), s))))"

text \<open>\<open>devsw\<close> has ten entries, of which \<open>consoleinit\<close> fills in number 1.\<close>

definition has_dev :: "16 word \<Rightarrow> 'z fs_st_scheme \<Rightarrow> bool" where
  "has_dev major s \<longleftrightarrow> \<not> (sint major < 0 \<or> sint major \<ge> 10) \<and> major = 1 \<and> dev_on s"

text \<open>The copy loops of \<open>readi\<close> and \<open>writei\<close> move at least one byte per round.\<close>

definition blk_chunk :: "nat \<Rightarrow> nat \<Rightarrow> nat" where
  "blk_chunk off left = min left (BSIZE - off mod BSIZE)"

lemma blk_chunk_pos: "0 < left \<Longrightarrow> 0 < blk_chunk off left" "blk_chunk off left \<le> left"
  by (simp_all add: blk_chunk_def)

function readi_loop :: "nat \<Rightarrow> nat \<Rightarrow> nat \<Rightarrow> 'z fs_st_scheme \<Rightarrow> (u8 list \<times> 'z fs_st_scheme) res" where
  "readi_loop ip off left s =
     (if left = 0 then Ok ([], s)
      else
        bnd (bmap ip (off div BSIZE) s) (\<lambda>(a, s).
        bnd (bread (idev (inodes s ! ip)) a s) (\<lambda>(bp, s).
          let m = blk_chunk off left; bytes = map (\<lambda>k. bdata (bufs s bp) (off mod BSIZE + k)) [0..<m] in
          bnd (brelse bp s) (\<lambda>s.
          bnd (readi_loop ip (off + m) (left - m) s) (\<lambda>(rest, s). Ok (bytes @ rest, s))))))"
  by pat_completeness auto

termination
  by (relation "measure (\<lambda>(ip, off, left, s). left)") (simp_all add: blk_chunk_def)

declare readi_loop.simps [simp del]

definition readi :: "nat \<Rightarrow> u32 \<Rightarrow> u32 \<Rightarrow> 'z fs_st_scheme \<Rightarrow> (int \<times> u8 list \<times> 'z fs_st_scheme) res" where
  "readi ip off n s =
     (if itype (inodes s ! ip) = T_DEV then
        if \<not> has_dev (imajor (inodes s ! ip)) s then Ok (-1, [], s) else consoleread ip n s
      else if off > isize (inodes s ! ip) \<or> off + n < off then Ok (-1, [], s)
      else
        let n = (if off + n > isize (inodes s ! ip) then isize (inodes s ! ip) - off else n) in
        bnd (readi_loop ip (unat off) (unat n) s) (\<lambda>(bs, s). Ok (sint n, bs, s)))"

function writei_loop :: "nat \<Rightarrow> nat \<Rightarrow> u8 list \<Rightarrow> 'z fs_st_scheme \<Rightarrow> 'z fs_st_scheme res" where
  "writei_loop ip off src s =
     (if src = [] then Ok s
      else
        bnd (bmap ip (off div BSIZE) s) (\<lambda>(a, s).
        bnd (bread (idev (inodes s ! ip)) a s) (\<lambda>(bp, s).
          let m = blk_chunk off (length src);
              s = upd_data bp (\<lambda>d k. if off mod BSIZE \<le> k \<and> k < off mod BSIZE + m then src ! (k - off mod BSIZE) else d k) s
          in bnd (log_write bp s) (\<lambda>s.
             bnd (brelse bp s) (writei_loop ip (off + m) (drop m src))))))"
  by pat_completeness auto

termination
  by (relation "measure (\<lambda>(ip, off, src, s). length src)") (simp_all add: blk_chunk_def)

declare writei_loop.simps [simp del]

definition writei :: "nat \<Rightarrow> u8 list \<Rightarrow> u32 \<Rightarrow> 'z fs_st_scheme \<Rightarrow> (int \<times> 'z fs_st_scheme) res" where
  "writei ip src off s =
     (let n = of_nat (length src) in
      if itype (inodes s ! ip) = T_DEV then
        if \<not> has_dev (imajor (inodes s ! ip)) s then Ok (-1, s) else consolewrite ip src s
      else if off > isize (inodes s ! ip) \<or> off + n < off then Ok (-1, s)
      else if off + n > of_nat (MAXFILE * BSIZE) then Ok (-1, s)
      else
        bnd (writei_loop ip (unat off) src s) (\<lambda>s.
        bnd (if n > 0 \<and> off + n > isize (inodes s ! ip) then
               iupdate ip (upd_inode ip (\<lambda>i. i\<lparr>isize := off + n\<rparr>) s)
             else Ok s) (\<lambda>s. Ok (sint n, s))))"

section \<open>Directories\<close>

definition hd0 :: "u8 list \<Rightarrow> u8" where
  "hd0 xs = (case xs of [] \<Rightarrow> 0 | x # _ \<Rightarrow> x)"

primrec namecmp_loop :: "nat \<Rightarrow> u8 list \<Rightarrow> u8 list \<Rightarrow> int" where
  "namecmp_loop 0 p q = 0"
| "namecmp_loop (Suc n) p q =
     (if hd0 p \<noteq> 0 \<and> hd0 p = hd0 q then namecmp_loop n (tl p) (tl q) else uint (hd0 p) - uint (hd0 q))"

definition namecmp :: "u8 list \<Rightarrow> u8 list \<Rightarrow> int" where
  "namecmp p q = namecmp_loop DIRSIZ p q"

definition de_inum :: "u8 list \<Rightarrow> 16 word" where
  "de_inum de = ucast (de ! 0) OR push_bit 8 (ucast (de ! 1))"

text \<open>
  The loop of \<open>dirlookup\<close> over the entries from offset \<open>off\<close>, with \<open>k\<close> entries to go. The size of
  a directory is below \<open>MAXFILE*BSIZE\<close> and does not change while it is read.
\<close>

definition dir_entries :: "nat \<Rightarrow> 'z fs_st_scheme \<Rightarrow> nat" where
  "dir_entries dp s = (unat (isize (inodes s ! dp)) + 15) div 16"

primrec dirlookup_loop :: "nat \<Rightarrow> u32 \<Rightarrow> nat \<Rightarrow> u8 list \<Rightarrow> 'z fs_st_scheme \<Rightarrow> ((nat \<times> u32) option \<times> 'z fs_st_scheme) res" where
  "dirlookup_loop 0 off dp name s = Ok (None, s)"
| "dirlookup_loop (Suc k) off dp name s =
     bnd (readi dp off 16 s) (\<lambda>(r, de, s).
       if r \<noteq> 16 then Panic ''dirlookup read''
       else if de_inum de = 0 then dirlookup_loop k (off + 16) dp name s
       else if namecmp name (drop 2 de) = 0 then
         bnd (iget (idev (inodes s ! dp)) (ucast (de_inum de)) s) (\<lambda>(ip, s). Ok (Some (ip, off), s))
       else dirlookup_loop k (off + 16) dp name s)"

definition dirlookup :: "nat \<Rightarrow> u8 list \<Rightarrow> 'z fs_st_scheme \<Rightarrow> ((nat \<times> u32) option \<times> 'z fs_st_scheme) res" where
  "dirlookup dp name s =
     (if itype (inodes s ! dp) \<noteq> T_DIR then Panic ''dirlookup not DIR''
      else dirlookup_loop (dir_entries dp s) 0 dp name s)"

primrec free_dirent :: "nat \<Rightarrow> u32 \<Rightarrow> nat \<Rightarrow> 'z fs_st_scheme \<Rightarrow> (u32 \<times> 'z fs_st_scheme) res" where
  "free_dirent 0 off dp s = Ok (off, s)"
| "free_dirent (Suc k) off dp s =
     bnd (readi dp off 16 s) (\<lambda>(r, de, s).
       if r \<noteq> 16 then Panic ''dirlink read''
       else if de_inum de = 0 then Ok (off, s)
       else free_dirent k (off + 16) dp s)"

definition dirent_bytes :: "u8 list \<Rightarrow> u32 \<Rightarrow> u8 list" where
  "dirent_bytes name ino = [ucast ino, ucast (drop_bit 8 ino)] @ take DIRSIZ (name @ replicate DIRSIZ 0)"

definition dirlink :: "nat \<Rightarrow> u8 list \<Rightarrow> u32 \<Rightarrow> 'z fs_st_scheme \<Rightarrow> (int \<times> 'z fs_st_scheme) res" where
  "dirlink dp name ino s =
     bnd (dirlookup dp name s) (\<lambda>(r, s).
       case r of
         Some (ip, _) \<Rightarrow> bnd (iput ip s) (\<lambda>s. Ok (-1, s))
       | None \<Rightarrow>
           bnd (free_dirent (dir_entries dp s) 0 dp s) (\<lambda>(off, s).
           bnd (writei dp (dirent_bytes name ino) off s) (\<lambda>(r, s).
             if r \<noteq> 16 then Panic ''dirlink'' else Ok (0, s))))"

section \<open>Paths\<close>

definition skipelem :: "u8 list \<Rightarrow> (u8 list \<times> u8 list) option" where
  "skipelem path =
     (let path = dropWhile (\<lambda>c. c = 47) path in
      if path = [] then None
      else
        let elem = takeWhile (\<lambda>c. c \<noteq> 47) path; path = dropWhile (\<lambda>c. c \<noteq> 47) path
        in Some (dropWhile (\<lambda>c. c = 47) path, take DIRSIZ elem))"

lemma skipelem_shorter: "skipelem path = Some (rest, name) \<Longrightarrow> length rest < length path"
proof -
  assume a: "skipelem path = Some (rest, name)"
  let ?p = "dropWhile (\<lambda>c. c = 47) path"
  have p: "?p \<noteq> []" and r: "rest = dropWhile (\<lambda>c. c = 47) (dropWhile (\<lambda>c. c \<noteq> 47) ?p)"
    using a by (auto simp: skipelem_def Let_def split: if_splits)
  have "hd ?p \<noteq> 47" using hd_dropWhile [OF p] by simp
  then have "length (dropWhile (\<lambda>c. c \<noteq> 47) ?p) < length ?p"
    using p by (cases ?p) (auto simp: le_imp_less_Suc length_dropWhile_le)
  then show ?thesis using length_dropWhile_le [of _ path] length_dropWhile_le r by (meson le_less_trans less_le_trans)
qed

function namex_loop :: "nat \<Rightarrow> u8 list \<Rightarrow> bool \<Rightarrow> u8 list \<Rightarrow> 'z fs_st_scheme \<Rightarrow> ((nat \<times> u8 list) option \<times> 'z fs_st_scheme) res" where
  "namex_loop ip path par nm s =
     (case skipelem path of
        None \<Rightarrow> if par then bnd (iput ip s) (\<lambda>s. Ok (None, s)) else Ok (Some (ip, nm), s)
      | Some (rest, nm) \<Rightarrow>
          bnd (ilock (Some ip) s) (\<lambda>s.
            if itype (inodes s ! ip) \<noteq> T_DIR then bnd (iunlockput ip s) (\<lambda>s. Ok (None, s))
            else if par \<and> rest = [] then bnd (iunlock (Some ip) s) (\<lambda>s. Ok (Some (ip, nm), s))
            else
              bnd (dirlookup ip nm s) (\<lambda>(r, s).
                case r of
                  None \<Rightarrow> bnd (iunlockput ip s) (\<lambda>s. Ok (None, s))
                | Some (nx, _) \<Rightarrow> bnd (iunlockput ip s) (namex_loop nx rest par nm))))"
  by pat_completeness auto

termination
  by (relation "measure (\<lambda>(ip, path, _). length path)") (auto dest: skipelem_shorter)

declare namex_loop.simps [simp del]

definition namex :: "u8 list \<Rightarrow> bool \<Rightarrow> 'z fs_st_scheme \<Rightarrow> ((nat \<times> u8 list) option \<times> 'z fs_st_scheme) res" where
  "namex path par s =
     bnd (if hd0 path = 47 then iget ROOTDEV ROOTINO s
          else bnd (curproc s) (\<lambda>p. case cwd (procs s ! p) of None \<Rightarrow> Panic ''null pointer'' | Some i \<Rightarrow> idup i s)) (\<lambda>(ip, s).
       namex_loop ip path par [] s)"

definition namei :: "u8 list \<Rightarrow> 'z fs_st_scheme \<Rightarrow> (nat option \<times> 'z fs_st_scheme) res" where
  "namei path s = bnd (namex path False s) (\<lambda>(r, s). Ok (map_option fst r, s))"

definition nameiparent :: "u8 list \<Rightarrow> 'z fs_st_scheme \<Rightarrow> ((nat \<times> u8 list) option \<times> 'z fs_st_scheme) res" where
  "nameiparent path s = namex path True s"

end
