(* ===== verification/Pipe.thy ===== *)
theory Pipe
  imports Fs
begin

text \<open>
  Pipes: \<open>xv6-public-master/pipe.c\<close>, all but \<open>pipealloc\<close>, which is in \<open>File\<close>. A pipe lives in the
  page \<open>kalloc\<close> returned for it and is named by its address; its fields are kept as a record
  in the store \<open>pipes\<close>. Bytes written and read are lists: \<open>pipewrite\<close> takes the \<open>n\<close> bytes at
  \<open>addr\<close>, \<open>piperead\<close> returns the bytes it copies there.
\<close>

section \<open>State\<close>

record pipe =
  pdata :: "nat \<Rightarrow> u8"
  nread :: u32
  nwrite :: u32
  readopen :: bool
  writeopen :: bool

record pipe_st = fs_st +
  pipes :: "u32 \<Rightarrow> pipe"

abbreviation PIPESIZE :: u32 where "PIPESIZE \<equiv> 512"
abbreviation pipe_lk :: "u32 \<Rightarrow> lockid" where "pipe_lk p \<equiv> Pipe_lock (unat p)"
abbreviation nread_chan :: "u32 \<Rightarrow> chan" where "nread_chan p \<equiv> Pipe_read (unat p)"
abbreviation nwrite_chan :: "u32 \<Rightarrow> chan" where "nwrite_chan p \<equiv> Pipe_write (unat p)"

definition upd_pipe :: "u32 \<Rightarrow> (pipe \<Rightarrow> pipe) \<Rightarrow> 'z pipe_st_scheme \<Rightarrow> 'z pipe_st_scheme" where
  "upd_pipe p f s = s\<lparr>pipes := (pipes s)(p := f (pipes s p))\<rparr>"

section \<open>Operations\<close>

definition pipeclose :: "u32 \<Rightarrow> bool \<Rightarrow> 'z pipe_st_scheme \<Rightarrow> 'z pipe_st_scheme res" where
  "pipeclose p writable s =
     bnd (acquire (pipe_lk p) s) (\<lambda>s.
     bnd (if writable then wakeup (nread_chan p) (upd_pipe p (\<lambda>q. q\<lparr>writeopen := False\<rparr>) s)
          else wakeup (nwrite_chan p) (upd_pipe p (\<lambda>q. q\<lparr>readopen := False\<rparr>) s)) (\<lambda>s.
       if \<not> readopen (pipes s p) \<and> \<not> writeopen (pipes s p) then bnd (release (pipe_lk p) s) (kfree p)
       else release (pipe_lk p) s))"

definition put_byte :: "u8 \<Rightarrow> pipe \<Rightarrow> pipe" where
  "put_byte c q = q\<lparr>pdata := (pdata q)(unat (nwrite q mod PIPESIZE) := c), nwrite := nwrite q + 1\<rparr>"

text \<open>The loop of \<open>pipewrite\<close>; the flag is false when it leaves with -1.\<close>

primrec pipewrite_loop :: "u8 list \<Rightarrow> u32 \<Rightarrow> 'z pipe_st_scheme \<Rightarrow> (bool \<times> 'z pipe_st_scheme) res" where
  "pipewrite_loop [] p s = Ok (True, s)"
| "pipewrite_loop (c # cs) p s =
     (if nwrite (pipes s p) = nread (pipes s p) + PIPESIZE then
        if \<not> readopen (pipes s p) then Ok (False, s)
        else bnd (curproc s) (\<lambda>i.
          if killed (procs s ! i) then Ok (False, s)
          else bnd (wakeup (nread_chan p) s) (sleep (nwrite_chan p) (pipe_lk p)))
      else pipewrite_loop cs p (upd_pipe p (put_byte c) s))"

definition pipewrite :: "u32 \<Rightarrow> u8 list \<Rightarrow> 'z pipe_st_scheme \<Rightarrow> (int \<times> 'z pipe_st_scheme) res" where
  "pipewrite p bs s =
     bnd (acquire (pipe_lk p) s) (\<lambda>s.
     bnd (pipewrite_loop bs p s) (\<lambda>(done, s).
       if done then bnd (wakeup (nread_chan p) s) (\<lambda>s. bnd (release (pipe_lk p) s) (\<lambda>s. Ok (int (length bs), s)))
       else bnd (release (pipe_lk p) s) (\<lambda>s. Ok (-1, s))))"

definition get_byte :: "pipe \<Rightarrow> u8" where
  "get_byte q = pdata q (unat (nread q mod PIPESIZE))"

primrec piperead_loop :: "nat \<Rightarrow> u32 \<Rightarrow> 'z pipe_st_scheme \<Rightarrow> u8 list \<times> 'z pipe_st_scheme" where
  "piperead_loop 0 p s = ([], s)"
| "piperead_loop (Suc n) p s =
     (if nread (pipes s p) = nwrite (pipes s p) then ([], s)
      else case piperead_loop n p (upd_pipe p (\<lambda>q. q\<lparr>nread := nread q + 1\<rparr>) s) of
        (cs, s') \<Rightarrow> (get_byte (pipes s p) # cs, s'))"

definition piperead :: "u32 \<Rightarrow> nat \<Rightarrow> 'z pipe_st_scheme \<Rightarrow> (int \<times> u8 list \<times> 'z pipe_st_scheme) res" where
  "piperead p n s =
     bnd (acquire (pipe_lk p) s) (\<lambda>s.
       if nread (pipes s p) = nwrite (pipes s p) \<and> writeopen (pipes s p) then
         bnd (curproc s) (\<lambda>i.
           if killed (procs s ! i) then bnd (release (pipe_lk p) s) (\<lambda>s. Ok (-1, [], s))
           else sleep (nread_chan p) (pipe_lk p) s)
       else case piperead_loop n p s of (bs, s) \<Rightarrow>
         bnd (wakeup (nwrite_chan p) s) (\<lambda>s.
         bnd (release (pipe_lk p) s) (\<lambda>s. Ok (int (length bs), bs, s))))"

section \<open>A bounded queue\<close>

text \<open>
  What \<open>pipewrite\<close> and \<open>piperead\<close> rely on in the ring buffer: the contents of a queue that is
  not full grow at the end, those of one that is not empty shrink at the front.
\<close>

locale bounded_queue =
  fixes cont :: "'q \<Rightarrow> 'b list" and inv :: "'q \<Rightarrow> bool" and put :: "'b \<Rightarrow> 'q \<Rightarrow> 'q" and front :: "'q \<Rightarrow> 'b" and adv :: "'q \<Rightarrow> 'q" and cap :: nat
  assumes put: "inv q \<Longrightarrow> length (cont q) < cap \<Longrightarrow> inv (put c q) \<and> cont (put c q) = cont q @ [c]"
    and front: "inv q \<Longrightarrow> cont q \<noteq> [] \<Longrightarrow> front q = hd (cont q)"
    and adv: "inv q \<Longrightarrow> cont q \<noteq> [] \<Longrightarrow> inv (adv q) \<and> cont (adv q) = tl (cont q)"
begin

lemma put_many: "inv q \<Longrightarrow> length (cont q) + length bs \<le> cap \<Longrightarrow> inv (fold put bs q) \<and> cont (fold put bs q) = cont q @ bs"
  by (induction bs arbitrary: q) (simp_all add: put)

lemma adv_many: "inv q \<Longrightarrow> n \<le> length (cont q) \<Longrightarrow> inv ((adv ^^ n) q) \<and> cont ((adv ^^ n) q) = drop n (cont q)"
proof (induction n)
  case (Suc n)
  then have "inv ((adv ^^ n) q)" "cont ((adv ^^ n) q) = drop n (cont q)" "drop n (cont q) \<noteq> []" by auto
  then show ?case using adv [of "(adv ^^ n) q"] by (simp add: drop_Suc tl_drop)
qed simp

lemma put_then_take: "inv q \<Longrightarrow> cont q = [] \<Longrightarrow> length bs \<le> cap \<Longrightarrow> cont ((adv ^^ length bs) (fold put bs q)) = []"
  using put_many [of q bs] adv_many [of "fold put bs q" "length bs"] by simp

end

section \<open>The ring buffer\<close>

definition contents :: "pipe \<Rightarrow> u8 list" where
  "contents q = map (\<lambda>k. pdata q (unat ((nread q + of_nat k) mod PIPESIZE))) [0..<unat (nwrite q - nread q)]"

definition pipe_ok :: "pipe \<Rightarrow> bool" where
  "pipe_ok q \<longleftrightarrow> unat (nwrite q - nread q) \<le> 512"

definition drop_byte :: "pipe \<Rightarrow> pipe" where
  "drop_byte q = q\<lparr>nread := nread q + 1\<rparr>"

lemma contents_length [simp]: "length (contents q) = unat (nwrite q - nread q)"
  by (simp add: contents_def)

lemma full_iff: "nwrite q = nread q + PIPESIZE \<longleftrightarrow> unat (nwrite q - nread q) = 512"
proof -
  have "nwrite q = nread q + PIPESIZE \<longleftrightarrow> nwrite q - nread q = 512" by (simp add: diff_eq_eq add.commute)
  also have "\<dots> \<longleftrightarrow> unat (nwrite q - nread q) = 512" by (simp add: word_unat_eq_iff)
  finally show ?thesis .
qed

lemma empty_iff: "contents q = [] \<longleftrightarrow> nread q = nwrite q"
  by (auto simp: contents_def unat_eq_zero)

text \<open>Slots that are less than \<open>PIPESIZE\<close> apart are different, also across the wrap of the counters.\<close>

lemma mod_offset_inj:
  fixes n x y :: nat
  assumes "(n + x) mod 512 = (n + y) mod 512" "x < 512" "y < 512"
  shows "x = y"
proof -
  have *: "v = u" if "(n + u) mod 512 = (n + v) mod 512" "u \<le> v" "v < 512" for u v :: nat
  proof -
    have "512 dvd (n + v) - (n + u)" using that(1,2) mod_eq_dvd_iff_nat [of "n + u" "n + v" 512] by simp
    then have "512 dvd v - u" by simp
    moreover have "v - u < 512" using that(3) by linarith
    ultimately have "v - u = 0" by (meson dvd_imp_le not_le neq0_conv)
    then show ?thesis using that(2) by simp
  qed
  show ?thesis
  proof (cases "x \<le> y")
    case True
    show ?thesis by (rule * [OF assms(1) True assms(3), symmetric])
  next
    case False
    then have "y \<le> x" by simp
    then show ?thesis by (rule * [OF assms(1) [symmetric] _ assms(2)])
  qed
qed

definition slot :: "u32 \<Rightarrow> nat \<Rightarrow> nat" where
  "slot r k = unat ((r + of_nat k) mod PIPESIZE)"

lemma slot_nat: "slot r k = (unat r + k) mod 512"
proof -
  have "unat (r + of_nat k) mod 512 = (unat r + k) mod 512"
    by (simp add: unat_word_ariths unat_of_nat mod_mod_cancel mod_add_right_eq)
  then show ?thesis by (simp add: slot_def unat_mod)
qed

lemma slot_inj: "slot r j = slot r k \<Longrightarrow> j < 512 \<Longrightarrow> k < 512 \<Longrightarrow> j = k"
  unfolding slot_nat by (rule mod_offset_inj)

lemma slot_end: "slot (nread q) (unat (nwrite q - nread q)) = unat (nwrite q mod PIPESIZE)"
  by (simp add: slot_def)

lemma contents_slot: "contents q = map (\<lambda>k. pdata q (slot (nread q) k)) [0..<unat (nwrite q - nread q)]"
  by (simp add: contents_def slot_def)

lemma unat_succ: "unat (x :: u32) < 512 \<Longrightarrow> unat (x + 1) = Suc (unat x)"
  by (simp add: unat_word_ariths)

lemma put_byte_contents:
  assumes "pipe_ok q" "length (contents q) < 512"
  shows "pipe_ok (put_byte c q) \<and> contents (put_byte c q) = contents q @ [c]"
proof -
  let ?n = "unat (nwrite q - nread q)"
  have n: "?n < 512" using assms(2) by simp
  have "nwrite q + 1 - nread q = (nwrite q - nread q) + 1" by simp
  then have l: "unat (nwrite q + 1 - nread q) = Suc ?n" using unat_succ [OF n] by (simp only:)
  have "pdata (put_byte c q) (slot (nread q) k) = (if k = ?n then c else pdata q (slot (nread q) k))" if "k < Suc ?n" for k
    using slot_inj [of "nread q" k ?n] that n by (auto simp: put_byte_def slot_end [symmetric])
  then have "contents (put_byte c q) = contents q @ [c]"
    unfolding contents_slot by (simp add: put_byte_def l)
  then show ?thesis using n l by (simp add: pipe_ok_def put_byte_def)
qed

lemma drop_byte_contents:
  assumes "contents q \<noteq> []"
  shows "get_byte q = hd (contents q)" "contents (drop_byte q) = tl (contents q)" "pipe_ok q \<Longrightarrow> pipe_ok (drop_byte q)"
proof -
  let ?n = "unat (nwrite q - nread q)"
  have "nwrite q - nread q \<noteq> 0" using assms by (auto simp: empty_iff)
  then have "unat (nwrite q - nread q - 1) = ?n - 1" and pos: "0 < ?n" by (simp_all add: unat_minus_one unat_gt_0)
  moreover have "nwrite q - (nread q + 1) = nwrite q - nread q - 1" by simp
  ultimately have l: "unat (nwrite q - (nread q + 1)) = ?n - 1" by (simp only:)
  have u: "[0..<?n] = 0 # map Suc [0..<?n - 1]" using pos by (simp add: upt_conv_Cons map_Suc_upt)
  have sl: "slot (nread q + 1) k = slot (nread q) (Suc k)" for k by (simp add: slot_def ac_simps)
  have c: "contents q = pdata q (slot (nread q) 0) # map (\<lambda>k. pdata q (slot (nread q) (Suc k))) [0..<?n - 1]"
    unfolding contents_slot u by simp
  show "get_byte q = hd (contents q)" unfolding c by (simp add: get_byte_def slot_def)
  show "contents (drop_byte q) = tl (contents q)" unfolding c by (simp add: contents_slot drop_byte_def l sl)
  show "pipe_ok (drop_byte q)" if "pipe_ok q" using that l by (simp add: pipe_ok_def drop_byte_def)
qed

interpretation pq: bounded_queue contents pipe_ok put_byte get_byte drop_byte 512
  by unfold_locales (simp_all add: put_byte_contents drop_byte_contents)

section \<open>Reading and writing\<close>

lemma upd_pipe_simps [simp]:
  "pipes (upd_pipe p f s) = (pipes s)(p := f (pipes s p))" "procs (upd_pipe p f s) = procs s" "locks (upd_pipe p f s) = locks s"
  "cpu_ok (upd_pipe p f s) = cpu_ok s" "lock_free l (upd_pipe p f s) = lock_free l s" "cur (upd_pipe p f s) = cur s"
  "lapicid (upd_pipe p f s) = lapicid s" "apicids (upd_pipe p f s) = apicids s" "ncli (upd_pipe p f s) = ncli s"
  "intena (upd_pipe p f s) = intena s" "ifl (upd_pipe p f s) = ifl s" "cproc (upd_pipe p f s) = cproc s"
  "upd_pipe p g (upd_pipe p f s) = upd_pipe p (g \<circ> f) s"
  by (simp_all add: upd_pipe_def cpu_ok_def lock_free_def cur_def)

lemma pipewrite_loop_eq:
  assumes "pipe_ok (pipes s p)" "length (contents (pipes s p)) + length bs \<le> 512"
  shows "pipewrite_loop bs p s = Ok (True, upd_pipe p (fold put_byte bs) s)"
  using assms
proof (induction bs arbitrary: s)
  case Nil
  then show ?case by (simp add: upd_pipe_def)
next
  case (Cons b bs)
  let ?q = "pipes s p"
  have "pipe_ok (put_byte b ?q)" "contents (put_byte b ?q) = contents ?q @ [b]" using put_byte_contents [of ?q b] Cons.prems by auto
  moreover have "nwrite ?q \<noteq> nread ?q + PIPESIZE" using Cons.prems by (simp add: full_iff)
  ultimately show ?case using Cons.IH [of "upd_pipe p (put_byte b) s"] Cons.prems by (simp add: comp_def)
qed

lemma piperead_loop_eq:
  "piperead_loop n p s = (take n (contents (pipes s p)), upd_pipe p (drop_byte ^^ min n (length (contents (pipes s p)))) s)"
proof (induction n arbitrary: s)
  case 0
  then show ?case by (simp add: upd_pipe_def)
next
  case (Suc n)
  let ?q = "pipes s p"
  show ?case
  proof (cases "contents ?q = []")
    case True
    then show ?thesis using empty_iff [of ?q] by (simp add: upd_pipe_def)
  next
    case False
    note d = drop_byte_contents [OF False]
    have l: "length (contents (drop_byte ?q)) = length (contents ?q) - 1" using d(2) by simp
    have m: "min (Suc n) (length (contents ?q)) = Suc (min n (length (contents ?q) - 1))" using False by (cases "contents ?q") auto
    have tk: "take (Suc n) (contents ?q) = get_byte ?q # take n (contents (drop_byte ?q))" using False d by (cases "contents ?q") auto
    show ?thesis using False Suc.IH [of "upd_pipe p drop_byte s"]
      by (simp add: empty_iff tk m l funpow_Suc_right comp_def flip: drop_byte_def del: contents_length funpow.simps)
  qed
qed

lemma enter_pipe [simp]: "pipes (enter l s) = pipes s"
  by (simp add: enter_def)

lemma wakeup1_pipe [simp]: "pipes (wakeup1 c s) = pipes s"
  by (simp add: wakeup1_def)

lemma relock_upd_pipe: "relock l s (upd_pipe p f t) = upd_pipe p f (relock l s t)"
  by (simp add: relock_def upd_pipe_def)

text \<open>A critical section that only changes the pipe and wakes the other side.\<close>

lemma pipe_section:
  fixes p f
  assumes "cpu_ok s" "\<And>l. lock_free l s"
  defines "e \<equiv> upd_pipe p f (enter (pipe_lk p) s)"
  shows "bnd (wakeup ch e) (\<lambda>s. bnd (release (pipe_lk p) s) g) = g (wakeup1 ch (upd_pipe p f s))"
proof -
  have "cpu_ok e" "lock_free Ptable_lock e" using assms(1,2) by (simp_all add: e_def)
  then have w: "wakeup ch e = Ok (wakeup1 ch e)" by (rule wakeup_eq)
  have "release (pipe_lk p) (wakeup1 ch e) = Ok (relock (pipe_lk p) s (wakeup1 ch e))"
    unfolding e_def using assms(1,2) by (intro release_relock) simp_all
  then show ?thesis using w unfolding e_def by (simp add: relock_wakeup1 relock_upd_pipe relock_enter)
qed

lemma pipe_sleeps:
  assumes "cpu_ok s" "lock_free (pipe_lk p) s" "lock_free Ptable_lock s" "ncli s (cur s) = 0" "cproc s (cur s) = Some i" "i < length (procs s)"
  shows "sleep ch (pipe_lk p) (enter (pipe_lk p) s) = Block"
    and "sleep ch (pipe_lk p) (wakeup1 d (upd_pipe p f (enter (pipe_lk p) s))) = Block"
  using assms by (intro sleep_blocks [of _ _ i]; auto simp: enter_def lock_free_def cpu_ok_def cur_def)+

lemma release_again: "cpu_ok s \<Longrightarrow> lock_free l s \<Longrightarrow> release l (enter l s) = Ok s"
  using release_relock [of s l "enter l s"] by (simp add: relock_enter)

text \<open>
  C2. A pipe is a first-in first-out queue of 512 bytes. A write that fits appends its bytes and
  returns their number; a read of a pipe that has bytes, or whose write end is closed,
  returns the first of them, as many as there are up to \<open>n\<close>, and leaves the rest, also when
  the counters \<open>nread\<close> and \<open>nwrite\<close> wrap around; no other pipe changes, and the processes that
  wait for the other end are woken.
\<close>

theorem pipe_is_fifo:
  assumes s: "cpu_ok s" "\<And>l. lock_free l s" and q: "pipe_ok (pipes s p)"
  shows "(length (contents (pipes s p)) + length bs \<le> 512 \<longrightarrow>
      (\<exists>t. pipewrite p bs s = Ok (int (length bs), t) \<and> pipe_ok (pipes t p) \<and> contents (pipes t p) = contents (pipes s p) @ bs
         \<and> (\<forall>r. r \<noteq> p \<longrightarrow> pipes t r = pipes s r) \<and> procs t = procs (wakeup1 (nread_chan p) s)))
    \<and> (contents (pipes s p) \<noteq> [] \<or> \<not> writeopen (pipes s p) \<longrightarrow>
      (\<exists>t. piperead p n s = Ok (int (min n (length (contents (pipes s p)))), take n (contents (pipes s p)), t)
         \<and> pipe_ok (pipes t p) \<and> contents (pipes t p) = drop n (contents (pipes s p))
         \<and> (\<forall>r. r \<noteq> p \<longrightarrow> pipes t r = pipes s r) \<and> procs t = procs (wakeup1 (nwrite_chan p) s)))"
proof (intro conjI impI)
  assume fits: "length (contents (pipes s p)) + length bs \<le> 512"
  let ?t = "wakeup1 (nread_chan p) (upd_pipe p (fold put_byte bs) s)"
  have "pipewrite p bs s = Ok (int (length bs), ?t)"
    using pipewrite_loop_eq [of "enter (pipe_lk p) s" p bs] q fits acquire_free [OF s] pipe_section [OF s]
    by (simp add: pipewrite_def)
  moreover have "pipe_ok (pipes ?t p) \<and> contents (pipes ?t p) = contents (pipes s p) @ bs" using pq.put_many [OF q fits] by simp
  ultimately show "\<exists>t. pipewrite p bs s = Ok (int (length bs), t) \<and> pipe_ok (pipes t p) \<and> contents (pipes t p) = contents (pipes s p) @ bs
       \<and> (\<forall>r. r \<noteq> p \<longrightarrow> pipes t r = pipes s r) \<and> procs t = procs (wakeup1 (nread_chan p) s)"
    by (intro exI [of _ ?t]) (simp add: wakeup1_def)
next
  let ?c = "contents (pipes s p)"
  assume "?c \<noteq> [] \<or> \<not> writeopen (pipes s p)"
  then have go: "\<not> (nread (pipes s p) = nwrite (pipes s p) \<and> writeopen (pipes s p))" by (simp add: empty_iff)
  let ?m = "min n (length ?c)"
  let ?t = "wakeup1 (nwrite_chan p) (upd_pipe p (drop_byte ^^ ?m) s)"
  let ?e = "upd_pipe p (drop_byte ^^ ?m) (enter (pipe_lk p) s)"
  have "piperead p n s = bnd (wakeup (nwrite_chan p) ?e) (\<lambda>s. bnd (release (pipe_lk p) s) (\<lambda>s. Ok (int (length (take n ?c)), take n ?c, s)))"
    using piperead_loop_eq [of n p "enter (pipe_lk p) s"] go acquire_free [OF s] by (auto simp: piperead_def)
  then have "piperead p n s = Ok (int ?m, take n ?c, ?t)" unfolding pipe_section [OF s] by (simp add: min.commute)
  moreover have "drop ?m ?c = drop n ?c" by (simp add: min_def)
  then have "pipe_ok (pipes ?t p) \<and> contents (pipes ?t p) = drop n ?c" using pq.adv_many [OF q, of ?m] by simp
  ultimately show "\<exists>t. piperead p n s = Ok (int ?m, take n ?c, t)
       \<and> pipe_ok (pipes t p) \<and> contents (pipes t p) = drop n ?c
       \<and> (\<forall>r. r \<noteq> p \<longrightarrow> pipes t r = pipes s r) \<and> procs t = procs (wakeup1 (nwrite_chan p) s)"
    by (intro exI [of _ ?t]) (simp add: wakeup1_def)
qed

text \<open>What \<open>pipewrite\<close> does with a full pipe.\<close>

definition at_full :: "u32 \<Rightarrow> 'z pipe_st_scheme \<Rightarrow> (bool \<times> 'z pipe_st_scheme) res" where
  "at_full p s =
     (if \<not> readopen (pipes s p) then Ok (False, s)
      else bnd (curproc s) (\<lambda>i.
        if killed (procs s ! i) then Ok (False, s)
        else bnd (wakeup (nread_chan p) s) (sleep (nwrite_chan p) (pipe_lk p))))"

lemma put_byte_readopen [simp]: "readopen (put_byte b q) = readopen q"
  by (simp add: put_byte_def)

lemma pipewrite_loop_stuck:
  assumes "pipe_ok (pipes s p)" "512 < length (contents (pipes s p)) + length bs"
  shows "\<exists>f. pipewrite_loop bs p s = at_full p (upd_pipe p f s) \<and> readopen (f (pipes s p)) = readopen (pipes s p)
    \<and> contents (f (pipes s p)) = contents (pipes s p) @ take (512 - length (contents (pipes s p))) bs"
  using assms
proof (induction bs arbitrary: s)
  case Nil
  then show ?case by (simp add: pipe_ok_def)
next
  case (Cons b bs)
  let ?q = "pipes s p"
  show ?case
  proof (cases "nwrite ?q = nread ?q + PIPESIZE")
    case True
    have "upd_pipe p (\<lambda>a. a) s = s" by (simp add: upd_pipe_def)
    then show ?thesis using True full_iff [of ?q] by (intro exI [of _ "\<lambda>a. a"]) (simp add: at_full_def)
  next
    case False
    then have lt: "length (contents ?q) < 512" using Cons.prems(1) by (simp add: full_iff pipe_ok_def)
    note d = put_byte_contents [OF Cons.prems(1) lt, of b]
    have "pipe_ok (pipes (upd_pipe p (put_byte b) s) p)" "512 < length (contents (pipes (upd_pipe p (put_byte b) s) p)) + length bs"
      using d Cons.prems(2) by (simp_all del: contents_length)
    from Cons.IH [OF this]
    obtain f where f: "pipewrite_loop bs p (upd_pipe p (put_byte b) s) = at_full p (upd_pipe p (f \<circ> put_byte b) s)"
      "readopen (f (put_byte b ?q)) = readopen ?q" "contents (f (put_byte b ?q)) = contents (put_byte b ?q) @ take (512 - length (contents (put_byte b ?q))) bs"
      by (auto simp del: contents_length)
    have "contents (f (put_byte b ?q)) = contents ?q @ take (512 - length (contents ?q)) (b # bs)"
    proof -
      have "512 - length (contents ?q) = Suc (511 - length (contents ?q))" using lt by linarith
      then show ?thesis using f(3) d by (simp del: contents_length)
    qed
    then show ?thesis using False f by (intro exI [of _ "f \<circ> put_byte b"]) (simp add: comp_def)
  qed
qed

text \<open>
  The ends of a pipe that has to wait. A read of an empty pipe whose write end is open, and a
  write of more bytes than fit while the read end is open, put the caller to sleep, without
  a panic; when the caller has been killed both return -1; and a write to a full pipe whose
  read end is closed returns -1 after it has filled the pipe.
\<close>

theorem pipe_waits:
  assumes s: "cpu_ok s" "\<And>l. lock_free l s" "ncli s (cur s) = 0" and q: "pipe_ok (pipes s p)"
    and i: "cproc s (cur s) = Some i" "i < length (procs s)"
  shows "(contents (pipes s p) = [] \<and> writeopen (pipes s p) \<longrightarrow>
      piperead p n s = (if killed (procs s ! i) then Ok (-1, [], s) else Block))
    \<and> (512 < length (contents (pipes s p)) + length bs \<longrightarrow>
      (if readopen (pipes s p) \<and> \<not> killed (procs s ! i) then pipewrite p bs s = Block
       else \<exists>t. pipewrite p bs s = Ok (-1, t) \<and> contents (pipes t p) = contents (pipes s p) @ take (512 - length (contents (pipes s p))) bs))"
proof (intro conjI impI)
  let ?e = "enter (pipe_lk p) s"
  have c: "curproc (upd_pipe p f ?e) = Ok i" for f using s(1) i by (intro curproc_ok) simp_all
  note slp = pipe_sleeps [OF s(1) s(2) s(2) s(3) i]
  show "piperead p n s = (if killed (procs s ! i) then Ok (-1, [], s) else Block)"
    if "contents (pipes s p) = [] \<and> writeopen (pipes s p)"
  proof -
    have "nread (pipes s p) = nwrite (pipes s p)" "writeopen (pipes s p)" using that empty_iff by auto
    moreover have "curproc ?e = Ok i" using s(1) i by (intro curproc_ok) simp_all
    ultimately show ?thesis using acquire_free [OF s(1,2)] release_again [OF s(1,2)]
      by (simp add: piperead_def slp(1))
  qed
  assume big: "512 < length (contents (pipes s p)) + length bs"
  obtain f where f: "pipewrite_loop bs p ?e = at_full p (upd_pipe p f ?e)" "readopen (f (pipes s p)) = readopen (pipes s p)" "contents (f (pipes s p)) = contents (pipes s p) @ take (512 - length (contents (pipes s p))) bs"
    using pipewrite_loop_stuck [of ?e p bs] q big by (auto simp del: contents_length)
  have w: "wakeup (nread_chan p) (upd_pipe p f ?e) = Ok (wakeup1 (nread_chan p) (upd_pipe p f ?e))"
    using s(1,2) by (intro wakeup_eq) simp_all
  have "release (pipe_lk p) (upd_pipe p f ?e) = Ok (relock (pipe_lk p) s (upd_pipe p f ?e))"
    using s(1,2) by (intro release_relock) simp_all
  then have rel: "release (pipe_lk p) (upd_pipe p f ?e) = Ok (upd_pipe p f s)" by (simp add: relock_upd_pipe relock_enter)
  show "if readopen (pipes s p) \<and> \<not> killed (procs s ! i) then pipewrite p bs s = Block
       else \<exists>t. pipewrite p bs s = Ok (-1, t) \<and> contents (pipes t p) = contents (pipes s p) @ take (512 - length (contents (pipes s p))) bs"
    using f c w rel acquire_free [OF s(1,2)] by (simp add: pipewrite_def at_full_def slp(2) del: contents_length)
qed


text \<open>A pipe whose counters are about to wrap around, with two bytes in it.\<close>

definition pipe0 :: pipe_st where
  "pipe0 = fs_st.extend (log_st.extend (log0\<lparr>outstanding := 0\<rparr>) \<lparr>sb = \<lparr>sb_size = 0, sb_nblocks = 0, sb_ninodes = 0, sb_nlog = 0, sb_logstart = 0, sb_inodestart = 0, sb_bmapstart = 0\<rparr>, inodes = []\<rparr>)
     \<lparr>pipes = (\<lambda>_. \<lparr>pdata = (\<lambda>_. 7), nread = - 2, nwrite = 0, readopen = True, writeopen = True\<rparr>)\<rparr>"

lemma pipe0_contents: "pipe_ok (pipes pipe0 p)" "contents (pipes pipe0 p) = [7, 7]"
  by (simp_all add: pipe0_def fs_st.defs pipe_ok_def contents_def upt_rec)

lemma pipe0_cpu: "cpu_ok pipe0" "lock_free l pipe0" "ncli pipe0 (cur pipe0) = 0" "\<exists>i < length (procs pipe0). cproc pipe0 (cur pipe0) = Some i"
  using log0_fields(8-10) log0_ncli
  by (auto simp: pipe0_def fs_st.defs log_st.defs cpu_ok_def lock_free_def cur_def)

theorem pipe_is_fifo_witness:
  "\<exists>t. piperead 1 1 pipe0 = Ok (1, [7], t) \<and> contents (pipes t 1) = [7]"
  using pipe_is_fifo [OF pipe0_cpu(1,2) pipe0_contents(1), of 1 "[]" 1] by (auto simp: pipe0_contents(2) simp del: contents_length)

lemma binit_loop_procs: "procs (binit_loop n t) = procs t \<and> cproc (binit_loop n t) = cproc t"
  by (induction n) (simp_all add: push_front_bufs initsleeplock_def initlock_def Let_def)

lemma pipe0_procs: "procs pipe0 = procs ptable0" "cproc pipe0 c = Some 0"
  by (simp_all add: pipe0_def log0_def bio0_def binit_def Let_def initlock_def binit_loop_procs cons0_def
    slock_st.defs ptable_st.defs cons_st.defs bio_st.defs log_st.defs fs_st.defs)

theorem pipe_waits_witness:
  "pipewrite 1 (replicate 600 3) pipe0 = Block"
proof -
  have i: "0 < length (procs pipe0)" using pipe0_cpu(4) by (auto simp: pipe0_procs)
  have "readopen (pipes pipe0 1)" by (simp add: pipe0_def fs_st.defs)
  moreover have "\<not> killed (procs pipe0 ! 0)" by (simp add: pipe0_procs proc0_def)
  ultimately show ?thesis using pipe_waits [OF pipe0_cpu(1,2,3) pipe0_contents(1) pipe0_procs(2) i, of 1 0 "replicate 600 3"]
    by (auto simp: pipe0_contents(2) simp del: contents_length)
qed

end
