(* ===== verification/File.thy ===== *)
theory File
  imports Pipe
begin

text \<open>
  The open file table: \<open>xv6-public-master/file.c\<close>, and \<open>pipealloc\<close> of \<open>pipe.c\<close>. A file pointer is
  an index of \<open>ftable.file\<close>, an option where it may be null.
\<close>

section \<open>State\<close>

datatype fdtype = FD_NONE | FD_PIPE | FD_INODE

record file_entry =
  ftype :: fdtype
  fref :: int
  freadable :: bool
  fwritable :: bool
  fpipe :: u32
  fip :: "nat option"
  foff :: u32

record file_st = pipe_st +
  files :: "file_entry list"

abbreviation NFILE :: nat where "NFILE \<equiv> 100"

definition upd_file :: "nat \<Rightarrow> (file_entry \<Rightarrow> file_entry) \<Rightarrow> 'z file_st_scheme \<Rightarrow> 'z file_st_scheme" where
  "upd_file f g s = s\<lparr>files := (files s)[f := g (files s ! f)]\<rparr>"

section \<open>Operations\<close>

definition fileinit :: "'z file_st_scheme \<Rightarrow> 'z file_st_scheme" where
  "fileinit s = initlock Ftable_lock ''ftable'' s"

definition filealloc :: "'z file_st_scheme \<Rightarrow> (nat option \<times> 'z file_st_scheme) res" where
  "filealloc s =
     with_lock Ftable_lock (\<lambda>s.
       case find_idx (\<lambda>f. fref f = 0) (files s) of
         Some f \<Rightarrow> Ok (Some f, upd_file f (\<lambda>q. q\<lparr>fref := 1\<rparr>) s)
       | None \<Rightarrow> Ok (None, s)) s"

definition filedup :: "nat \<Rightarrow> 'z file_st_scheme \<Rightarrow> (nat \<times> 'z file_st_scheme) res" where
  "filedup f s =
     with_lock Ftable_lock (\<lambda>s.
       if fref (files s ! f) < 1 then Panic ''filedup''
       else Ok (f, upd_file f (\<lambda>q. q\<lparr>fref := fref q + 1\<rparr>) s)) s"

definition deref_ip :: "nat option \<Rightarrow> nat res" where
  "deref_ip p = (case p of None \<Rightarrow> Panic ''null pointer'' | Some i \<Rightarrow> Ok i)"

definition fileclose :: "nat \<Rightarrow> 'z file_st_scheme \<Rightarrow> 'z file_st_scheme res" where
  "fileclose f s =
     bnd (acquire Ftable_lock s) (\<lambda>s.
       if fref (files s ! f) < 1 then Panic ''fileclose''
       else
         let s = upd_file f (\<lambda>q. q\<lparr>fref := fref q - 1\<rparr>) s in
         if fref (files s ! f) > 0 then release Ftable_lock s
         else
           let ff = files s ! f;
               s = upd_file f (\<lambda>q. q\<lparr>fref := 0, ftype := FD_NONE\<rparr>) s
           in bnd (release Ftable_lock s) (\<lambda>s.
                case ftype ff of
                  FD_PIPE \<Rightarrow> pipeclose (fpipe ff) (fwritable ff) s
                | FD_INODE \<Rightarrow>
                    bnd (begin_op s) (\<lambda>s. bnd (deref_ip (fip ff)) (\<lambda>ip. bnd (iput ip s) end_op))
                | FD_NONE \<Rightarrow> Ok s))"

definition filestat :: "nat \<Rightarrow> 'z file_st_scheme \<Rightarrow> (stat option \<times> 'z file_st_scheme) res" where
  "filestat f s =
     (if ftype (files s ! f) = FD_INODE then
        bnd (ilock (fip (files s ! f)) s) (\<lambda>s.
        bnd (deref_ip (fip (files s ! f))) (\<lambda>ip.
          let st = stati ip s in
          bnd (iunlock (fip (files s ! f)) s) (\<lambda>s. Ok (Some st, s))))
      else Ok (None, s))"

definition fileread :: "nat \<Rightarrow> int \<Rightarrow> 'z file_st_scheme \<Rightarrow> (int \<times> u8 list \<times> 'z file_st_scheme) res" where
  "fileread f n s =
     (if \<not> freadable (files s ! f) then Ok (-1, [], s)
      else case ftype (files s ! f) of
        FD_PIPE \<Rightarrow> piperead (fpipe (files s ! f)) (nat n) s
      | FD_INODE \<Rightarrow>
          bnd (ilock (fip (files s ! f)) s) (\<lambda>s.
          bnd (deref_ip (fip (files s ! f))) (\<lambda>ip.
          bnd (readi ip (foff (files s ! f)) (word_of_int n) s) (\<lambda>(r, bs, s).
            let s = (if r > 0 then upd_file f (\<lambda>q. q\<lparr>foff := foff q + word_of_int r\<rparr>) s else s) in
            bnd (iunlock (fip (files s ! f)) s) (\<lambda>s. Ok (r, bs, s)))))
      | FD_NONE \<Rightarrow> Panic ''fileread'')"

abbreviation max_write :: nat where "max_write \<equiv> ((10 - 1 - 1 - 2) div 2) * 512"

text \<open>The loop of \<open>filewrite\<close> on the bytes still to write; the flag is false after \<open>break\<close>.\<close>

function filewrite_loop :: "nat \<Rightarrow> u8 list \<Rightarrow> 'z file_st_scheme \<Rightarrow> (bool \<times> 'z file_st_scheme) res" where
  "filewrite_loop f bs s =
     (if bs = [] then Ok (True, s)
      else
        bnd (begin_op s) (\<lambda>s.
        bnd (ilock (fip (files s ! f)) s) (\<lambda>s.
        bnd (deref_ip (fip (files s ! f))) (\<lambda>ip.
        bnd (writei ip (take max_write bs) (foff (files s ! f)) s) (\<lambda>(r, s).
          let s = (if r > 0 then upd_file f (\<lambda>q. q\<lparr>foff := foff q + word_of_int r\<rparr>) s else s) in
          bnd (iunlock (fip (files s ! f)) s) (\<lambda>s.
          bnd (end_op s) (\<lambda>s.
            if r < 0 then Ok (False, s)
            else if r \<noteq> int (length (take max_write bs)) then Panic ''short filewrite''
            else filewrite_loop f (drop max_write bs) s)))))))"
  by pat_completeness auto

termination
  by (relation "measure (\<lambda>(f, bs, s). length bs)") simp_all

declare filewrite_loop.simps [simp del]

definition filewrite :: "nat \<Rightarrow> u8 list \<Rightarrow> 'z file_st_scheme \<Rightarrow> (int \<times> 'z file_st_scheme) res" where
  "filewrite f bs s =
     (if \<not> fwritable (files s ! f) then Ok (-1, s)
      else case ftype (files s ! f) of
        FD_PIPE \<Rightarrow> pipewrite (fpipe (files s ! f)) bs s
      | FD_INODE \<Rightarrow>
          bnd (filewrite_loop f bs s) (\<lambda>(done, s). Ok (if done then int (length bs) else -1, s))
      | FD_NONE \<Rightarrow> Panic ''filewrite'')"

text \<open>The page \<open>kalloc\<close> returned is the last thing \<open>pipealloc\<close> acquires, so \<open>bad\<close> never frees it.\<close>

definition pipealloc_bad :: "nat option \<Rightarrow> nat option \<Rightarrow> 'z file_st_scheme \<Rightarrow> ((nat \<times> nat) option \<times> 'z file_st_scheme) res" where
  "pipealloc_bad f0 f1 s =
     bnd (case f0 of Some f \<Rightarrow> fileclose f s | None \<Rightarrow> Ok s) (\<lambda>s.
     bnd (case f1 of Some f \<Rightarrow> fileclose f s | None \<Rightarrow> Ok s) (\<lambda>s. Ok (None, s)))"

definition pipealloc :: "'z file_st_scheme \<Rightarrow> ((nat \<times> nat) option \<times> 'z file_st_scheme) res" where
  "pipealloc s =
     bnd (filealloc s) (\<lambda>(f0, s).
       case f0 of None \<Rightarrow> pipealloc_bad None None s
       | Some a \<Rightarrow>
     bnd (filealloc s) (\<lambda>(f1, s).
       case f1 of None \<Rightarrow> pipealloc_bad (Some a) None s
       | Some b \<Rightarrow>
     bnd (kalloc s) (\<lambda>(p, s).
       if p = 0 then pipealloc_bad (Some a) (Some b) s
       else
         let s = upd_pipe p (\<lambda>q. q\<lparr>readopen := True, writeopen := True, nwrite := 0, nread := 0\<rparr>) s;
             s = initlock (pipe_lk p) ''pipe'' s;
             s = upd_file a (\<lambda>q. q\<lparr>ftype := FD_PIPE, freadable := True, fwritable := False, fpipe := p\<rparr>) s;
             s = upd_file b (\<lambda>q. q\<lparr>ftype := FD_PIPE, freadable := False, fwritable := True, fpipe := p\<rparr>) s
         in Ok (Some (a, b), s))))"

section \<open>Reference counts of open files\<close>

lemma relock_upd_file: "relock l s (upd_file f g t) = upd_file f g (relock l s t)"
  by (simp add: relock_def upd_file_def)

lemma enter_files [simp]: "files (enter l s) = files s"
  by (simp add: enter_def)

lemma upd_file_simps [simp]:
  "files (upd_file f g s) = (files s)[f := g (files s ! f)]" "locks (upd_file f g s) = locks s" "ncli (upd_file f g s) = ncli s"
  "lapicid (upd_file f g s) = lapicid s" "apicids (upd_file f g s) = apicids s" "intena (upd_file f g s) = intena s" "ifl (upd_file f g s) = ifl s"
  by (simp_all add: upd_file_def)

lemma ftable_section:
  assumes "cpu_ok s" "lock_free Ftable_lock s"
  shows "release Ftable_lock (upd_file f g (enter Ftable_lock s)) = Ok (upd_file f g s)"
proof -
  have "release Ftable_lock (upd_file f g (enter Ftable_lock s)) = Ok (relock Ftable_lock s (upd_file f g (enter Ftable_lock s)))"
    using assms by (intro release_relock) simp_all
  then show ?thesis by (simp add: relock_upd_file relock_enter)
qed

lemma cpu_upd_file [simp]: "cpu_ok (upd_file f g s) = cpu_ok s" "lock_free l (upd_file f g s) = lock_free l s"
  by (simp_all add: cpu_ok_def lock_free_def upd_file_def cur_def)

lemma filealloc_eq:
  assumes "cpu_ok s" "lock_free Ftable_lock s"
  shows "filealloc s = Ok (case find_idx (\<lambda>f. fref f = 0) (files s) of Some f \<Rightarrow> (Some f, upd_file f (\<lambda>q. q\<lparr>fref := 1\<rparr>) s) | None \<Rightarrow> (None, s))"
  using ftable_section [OF assms] release_again [OF assms] acquire_free [OF assms]
  by (simp add: filealloc_def with_lock_def split: option.split)

lemma filedup_eq:
  assumes "cpu_ok s" "lock_free Ftable_lock s" "1 \<le> fref (files s ! f)"
  shows "filedup f s = Ok (f, upd_file f (\<lambda>q. q\<lparr>fref := fref q + 1\<rparr>) s)"
  using ftable_section [OF assms(1,2)] acquire_free [OF assms(1,2)] assms(3) by (simp add: filedup_def with_lock_def)

lemma upd_file_twice: "upd_file f g (upd_file f h s) = upd_file f (g \<circ> h) s"
  by (cases "f < length (files s)") (simp_all add: upd_file_def list_update_beyond)

lemma upd_file_id: "g (files s ! f) = files s ! f \<Longrightarrow> upd_file f g s = s"
  by (simp add: upd_file_def)

text \<open>
  The open file table. \<open>filealloc\<close> takes the lowest entry without references, or reports that
  there is none; \<open>filedup\<close> and \<open>fileclose\<close> of a file in use cancel, and both panic on a file
  that is not in use; closing the last reference of a pipe end frees the entry and closes
  that end of the pipe, and closing one of several references does nothing else.
\<close>

theorem open_file_references:
  assumes s: "cpu_ok s" "\<And>l. lock_free l s" and f: "f < length (files s)"
  shows "(case find_idx (\<lambda>f. fref f = 0) (files s) of
        None \<Rightarrow> filealloc s = Ok (None, s)
      | Some k \<Rightarrow> k < length (files s) \<and> (\<forall>j < k. fref (files s ! j) \<noteq> 0) \<and> filealloc s = Ok (Some k, upd_file k (\<lambda>q. q\<lparr>fref := 1\<rparr>) s))
    \<and> (if fref (files s ! f) < 1 then filedup f s = Panic ''filedup'' \<and> fileclose f s = Panic ''fileclose''
       else bnd (filedup f s) (\<lambda>(f, s). fileclose f s) = Ok s
         \<and> (1 < fref (files s ! f) \<longrightarrow> fileclose f s = Ok (upd_file f (\<lambda>q. q\<lparr>fref := fref q - 1\<rparr>) s))
         \<and> (fref (files s ! f) = 1 \<and> ftype (files s ! f) = FD_PIPE \<longrightarrow>
             fileclose f s = pipeclose (fpipe (files s ! f)) (fwritable (files s ! f)) (upd_file f (\<lambda>q. q\<lparr>fref := 0, ftype := FD_NONE\<rparr>) s)))"
proof (intro conjI)
  note a = acquire_free [OF s] and sec = ftable_section [OF s]
  show "case find_idx (\<lambda>f. fref f = 0) (files s) of
        None \<Rightarrow> filealloc s = Ok (None, s)
      | Some k \<Rightarrow> k < length (files s) \<and> (\<forall>j < k. fref (files s ! j) \<noteq> 0) \<and> filealloc s = Ok (Some k, upd_file k (\<lambda>q. q\<lparr>fref := 1\<rparr>) s)"
    using filealloc_eq [OF s] by (auto split: option.split dest: find_idx_SomeD)
  have many: "fileclose f t = Ok (upd_file f (\<lambda>q. q\<lparr>fref := fref q - 1\<rparr>) t)"
    if "cpu_ok t" "lock_free Ftable_lock t" "f < length (files t)" "1 < fref (files t ! f)" for t :: "'a file_st_scheme"
    using ftable_section [OF that(1,2)] acquire_free [OF that(1,2)] that(3,4) by (simp add: fileclose_def Let_def)
  show "if fref (files s ! f) < 1 then filedup f s = Panic ''filedup'' \<and> fileclose f s = Panic ''fileclose''
       else bnd (filedup f s) (\<lambda>(f, s). fileclose f s) = Ok s
         \<and> (1 < fref (files s ! f) \<longrightarrow> fileclose f s = Ok (upd_file f (\<lambda>q. q\<lparr>fref := fref q - 1\<rparr>) s))
         \<and> (fref (files s ! f) = 1 \<and> ftype (files s ! f) = FD_PIPE \<longrightarrow>
             fileclose f s = pipeclose (fpipe (files s ! f)) (fwritable (files s ! f)) (upd_file f (\<lambda>q. q\<lparr>fref := 0, ftype := FD_NONE\<rparr>) s))"
  proof (cases "fref (files s ! f) < 1")
    case True
    then show ?thesis using a by (simp add: filedup_def fileclose_def with_lock_def)
  next
    case False
    let ?t = "upd_file f (\<lambda>q. q\<lparr>fref := fref q + 1\<rparr>) s"
    have "fileclose f ?t = Ok (upd_file f (\<lambda>q. q\<lparr>fref := fref q - 1\<rparr>) ?t)" using s f False by (intro many) simp_all
    moreover have "upd_file f (\<lambda>q. q\<lparr>fref := fref q - 1\<rparr>) ?t = s" unfolding upd_file_twice by (rule upd_file_id) simp
    ultimately have "bnd (filedup f s) (\<lambda>(f, s). fileclose f s) = Ok s" using filedup_eq [OF s] False by simp
    moreover have "fileclose f s = pipeclose (fpipe (files s ! f)) (fwritable (files s ! f)) (upd_file f (\<lambda>q. q\<lparr>fref := 0, ftype := FD_NONE\<rparr>) s)"
      if "fref (files s ! f) = 1" "ftype (files s ! f) = FD_PIPE"
      using that a sec f by (simp add: fileclose_def Let_def upd_file_twice comp_def)
    ultimately show ?thesis using False many [OF s f] by simp
  qed
qed

definition file0 :: file_st where
  "file0 = pipe_st.extend pipe0 \<lparr>files = [\<lparr>ftype = FD_PIPE, fref = 2, freadable = True, fwritable = False, fpipe = 1, fip = None, foff = 0\<rparr>,
     \<lparr>ftype = FD_NONE, fref = 0, freadable = False, fwritable = False, fpipe = 0, fip = None, foff = 0\<rparr>]\<rparr>"

lemma file0_cpu: "cpu_ok file0" "lock_free l file0"
  using pipe0_cpu by (simp_all add: file0_def pipe_st.defs cpu_ok_def lock_free_def cur_def)

theorem open_file_references_witness:
  "bnd (filedup 0 file0) (\<lambda>(f, s). fileclose f s) = Ok file0 \<and> filealloc file0 = Ok (Some 1, upd_file 1 (\<lambda>q. q\<lparr>fref := 1\<rparr>) file0)"
  using open_file_references [OF file0_cpu, of 0] by (simp add: file0_def pipe_st.defs)

end
