(* ===== verification/Syscall.thy ===== *)
theory Syscall
  imports File
begin

text \<open>
  User memory and system call arguments: \<open>fetchint\<close>, \<open>fetchstr\<close>, \<open>argint\<close>, \<open>argptr\<close>, \<open>argstr\<close> of
  \<open>xv6-public-master/syscall.c\<close>.

  The kernel reads and writes user memory through the page table in \<open>cr3\<close>: \<open>uload\<close> and
  \<open>ustore\<close> are one byte of such an access. An access to an address below \<open>KERNBASE\<close> that is not
  mapped (or, for a store, not writable) is a page fault in kernel mode, on which \<open>trap\<close>
  panics. A fetched argument is \<open>None\<close> when the C function returns -1. \<open>first_ret\<close> is the static
  variable of \<open>forkret\<close>.
\<close>

section \<open>User memory\<close>

record sys_st = file_st +
  ticks :: u32
  first_ret :: bool

definition uaddr :: "u32 \<Rightarrow> 'z ptable_st_scheme \<Rightarrow> u32" where
  "uaddr va s = P2V (PTE_ADDR (pte_view (mem s) (P2V (cr3 s)) va)) + (va AND 0xFFF)"

definition uload :: "u32 \<Rightarrow> 'z ptable_st_scheme \<Rightarrow> u8 res" where
  "uload va s =
     (if KERNBASE \<le> va then Ok (mem s va)
      else if pte_view (mem s) (P2V (cr3 s)) va AND PTE_P = 0 then Panic ''trap''
      else Ok (mem s (uaddr va s)))"

definition ustore :: "u32 \<Rightarrow> u8 \<Rightarrow> 'z ptable_st_scheme \<Rightarrow> 'z ptable_st_scheme res" where
  "ustore va c s =
     (if KERNBASE \<le> va then Ok (s\<lparr>mem := (mem s)(va := c)\<rparr>)
      else if pte_view (mem s) (P2V (cr3 s)) va AND PTE_P = 0 \<or> pte_view (mem s) (P2V (cr3 s)) va AND PTE_W = 0
      then Panic ''trap''
      else Ok (s\<lparr>mem := (mem s)(uaddr va s := c)\<rparr>))"

primrec uloads :: "nat \<Rightarrow> u32 \<Rightarrow> 'z ptable_st_scheme \<Rightarrow> u8 list res" where
  "uloads 0 va s = Ok []"
| "uloads (Suc n) va s = bnd (uload va s) (\<lambda>c. bnd (uloads n (va + 1) s) (\<lambda>cs. Ok (c # cs)))"

primrec ustores :: "u8 list \<Rightarrow> u32 \<Rightarrow> 'z ptable_st_scheme \<Rightarrow> 'z ptable_st_scheme res" where
  "ustores [] va s = Ok s"
| "ustores (c # cs) va s = bnd (ustore va c s) (ustores cs (va + 1))"

definition word_of_bytes :: "u8 list \<Rightarrow> u32" where
  "word_of_bytes bs = get32 ((!) bs) 0"

definition bytes_of_word :: "u32 \<Rightarrow> u8 list" where
  "bytes_of_word w = [ucast w, ucast (drop_bit 8 w), ucast (drop_bit 16 w), ucast (drop_bit 24 w)]"

definition bytes_of_short :: "16 word \<Rightarrow> u8 list" where
  "bytes_of_short w = [ucast w, ucast (drop_bit 8 w)]"

section \<open>Arguments\<close>

definition fetchint :: "u32 \<Rightarrow> 'z ptable_st_scheme \<Rightarrow> u32 option res" where
  "fetchint addr s =
     bnd (curproc s) (\<lambda>i.
       if addr \<ge> psz (procs s ! i) \<or> addr + 4 > psz (procs s ! i) then Ok None
       else bnd (uloads 4 addr s) (\<lambda>bs. Ok (Some (word_of_bytes bs))))"

primrec fetchstr_loop :: "nat \<Rightarrow> u32 \<Rightarrow> 'z ptable_st_scheme \<Rightarrow> u8 list option res" where
  "fetchstr_loop 0 a s = Ok None"
| "fetchstr_loop (Suc n) a s =
     bnd (uload a s) (\<lambda>c. if c = 0 then Ok (Some []) else bnd (fetchstr_loop n (a + 1) s) (\<lambda>r. Ok (map_option ((#) c) r)))"

definition fetchstr :: "u32 \<Rightarrow> 'z ptable_st_scheme \<Rightarrow> u8 list option res" where
  "fetchstr addr s =
     bnd (curproc s) (\<lambda>i.
       if addr \<ge> psz (procs s ! i) then Ok None
       else fetchstr_loop (unat (psz (procs s ! i) - addr)) addr s)"

definition argint :: "u32 \<Rightarrow> 'z ptable_st_scheme \<Rightarrow> u32 option res" where
  "argint n s = bnd (curproc s) (\<lambda>i. fetchint (ld (tf (procs s ! i) + tf_esp) s + 4 + 4 * n) s)"

text \<open>Going on with a fetched argument, or with \<open>fl\<close> when it could not be fetched.\<close>

definition arg_bnd :: "'a option res \<Rightarrow> 'b res \<Rightarrow> ('a \<Rightarrow> 'b res) \<Rightarrow> 'b res" where
  "arg_bnd x fl f = bnd x (\<lambda>r. case r of None \<Rightarrow> fl | Some v \<Rightarrow> f v)"

lemma arg_bnd_simps [simp]: "arg_bnd (Ok None) fl f = fl" "arg_bnd (Ok (Some v)) fl f = f v"
  by (simp_all add: arg_bnd_def)

definition argptr :: "u32 \<Rightarrow> int \<Rightarrow> 'z ptable_st_scheme \<Rightarrow> u32 option res" where
  "argptr n sz s =
     bnd (curproc s) (\<lambda>p.
     arg_bnd (argint n s) (Ok None) (\<lambda>i.
       if sz < 0 \<or> i \<ge> psz (procs s ! p) \<or> i + word_of_int sz > psz (procs s ! p) then Ok None
       else Ok (Some i)))"

definition argstr :: "u32 \<Rightarrow> 'z ptable_st_scheme \<Rightarrow> u8 list option res" where
  "argstr n s = arg_bnd (argint n s) (Ok None) (\<lambda>addr. fetchstr addr s)"

section \<open>Reading user memory\<close>

text \<open>
  The memory of a process is mapped: every address below its size has a present and writable
  page (the guard page under the stack, too, which only takes away the user's access).
\<close>

definition user_mapped :: "u32 \<Rightarrow> 'z ptable_st_scheme \<Rightarrow> bool" where
  "user_mapped sz s \<longleftrightarrow> sz \<le> KERNBASE \<and>
     (\<forall>va < sz. pte_view (mem s) (P2V (cr3 s)) va AND PTE_P \<noteq> 0 \<and> pte_view (mem s) (P2V (cr3 s)) va AND PTE_W \<noteq> 0)"

definition user_byte :: "'z ptable_st_scheme \<Rightarrow> u32 \<Rightarrow> u8" where
  "user_byte s va = mem s (uaddr va s)"

lemma uload_mapped: "user_mapped sz s \<Longrightarrow> va < sz \<Longrightarrow> uload va s = Ok (user_byte s va)"
  by (auto simp: user_mapped_def uload_def user_byte_def)

lemma uload_off:
  assumes "user_mapped sz s" "unat a + k < unat sz"
  shows "uload (a + of_nat k) s = Ok (user_byte s (a + of_nat k))"
proof -
  have "unat (a + of_nat k) = unat a + k" using assms(2) unsigned_less [of sz, where ?'a = nat]
    by (simp add: unat_word_ariths unat_of_nat)
  then have "a + of_nat k < sz" using assms(2) by (simp add: word_less_nat_alt)
  then show ?thesis by (rule uload_mapped [OF assms(1)])
qed

lemma uloads_mapped:
  assumes "user_mapped sz s" "unat a + n \<le> unat sz"
  shows "uloads n a s = Ok (map (\<lambda>k. user_byte s (a + of_nat k)) [0..<n])"
  using assms(2)
proof (induction n arbitrary: a)
  case (Suc n)
  have u: "unat (a + 1) = unat a + 1" using Suc.prems unsigned_less [of sz, where ?'a = nat] by (simp add: unat_word_ariths)
  have "uload a s = Ok (user_byte s a)" using uload_off [OF assms(1), of a 0] Suc.prems by simp
  moreover have "uloads n (a + 1) s = Ok (map (\<lambda>k. user_byte s (a + 1 + of_nat k)) [0..<n])" using Suc.IH [of "a + 1"] Suc.prems u by simp
  moreover have "[0..<Suc n] = 0 # map Suc [0..<n]" by (simp add: upt_conv_Cons map_Suc_upt del: upt_Suc)
  ultimately show ?case by (simp add: comp_def ac_simps del: upt_Suc)
qed simp

lemma fetchstr_loop_mapped:
  assumes "user_mapped sz s" "unat a + n \<le> unat sz"
  shows "fetchstr_loop n a s =
    Ok (let bs = map (\<lambda>k. user_byte s (a + of_nat k)) [0..<n] in if 0 \<in> set bs then Some (takeWhile (\<lambda>c. c \<noteq> 0) bs) else None)"
  using assms(2)
proof (induction n arbitrary: a)
  case (Suc n)
  have u: "unat (a + 1) = unat a + 1" using Suc.prems unsigned_less [of sz, where ?'a = nat] by (simp add: unat_word_ariths)
  have a: "uload a s = Ok (user_byte s a)" using uload_off [OF assms(1), of a 0] Suc.prems by simp
  let ?r = "map (\<lambda>k. user_byte s (a + 1 + of_nat k)) [0..<n]"
  have ih: "fetchstr_loop n (a + 1) s = Ok (if 0 \<in> set ?r then Some (takeWhile (\<lambda>c. c \<noteq> 0) ?r) else None)"
    using Suc.IH [of "a + 1"] Suc.prems u by (simp add: Let_def)
  have "[0..<Suc n] = 0 # map Suc [0..<n]" by (simp add: upt_conv_Cons map_Suc_upt del: upt_Suc)
  then have m: "map (\<lambda>k. user_byte s (a + of_nat k)) [0..<Suc n] = user_byte s a # ?r" by (simp add: comp_def ac_simps del: upt_Suc)
  show ?case unfolding m Let_def using a ih by (auto simp del: upt_Suc)
qed simp

text \<open>
  C38. System call arguments are checked. For a process whose memory is mapped, fetching an
  argument never faults: \<open>fetchint\<close> succeeds exactly when all four bytes are inside the
  process, \<open>argptr\<close> returns a pointer exactly when the whole block of \<open>sz\<close> bytes from it is
  (and never for a negative size), and \<open>fetchstr\<close> returns the bytes up to the first null byte
  exactly when there is one inside the process; none of the sums overflows.
\<close>

theorem syscall_args_checked:
  assumes p: "curproc s = Ok p" and m: "user_mapped (psz (procs s ! p)) s"
  defines "z \<equiv> unat (psz (procs s ! p))"
  shows "fetchint a s = Ok (if unat a + 4 \<le> z then Some (word_of_bytes (map (\<lambda>k. user_byte s (a + of_nat k)) [0..<4])) else None)
    \<and> (argint n s = Ok (Some i) \<and> sz < 2 ^ 31 \<longrightarrow>
        argptr n sz s = Ok (if 0 \<le> sz \<and> unat i < z \<and> int (unat i) + sz \<le> int z then Some i else None))
    \<and> fetchstr a s = Ok (let bs = map (\<lambda>k. user_byte s (a + of_nat k)) [0..<z - unat a]
        in if 0 \<in> set bs then Some (takeWhile (\<lambda>c. c \<noteq> 0) bs) else None)"
proof (intro conjI impI)
  let ?z = "psz (procs s ! p)"
  have k: "unat ?z \<le> 2 ^ 31" using m by (simp add: user_mapped_def word_le_nat_alt)
  have add: "unat (x + w) = unat x + unat w" if "unat x < 2 ^ 31" "unat w < 2 ^ 31" for x w :: u32
    using that by (simp add: unat_word_ariths)
  show "fetchint a s = Ok (if unat a + 4 \<le> z then Some (word_of_bytes (map (\<lambda>k. user_byte s (a + of_nat k)) [0..<4])) else None)"
  proof (cases "unat a < unat ?z")
    case True
    then have u: "unat (a + 4) = unat a + 4" using add [of a 4] k by simp
    show ?thesis
    proof (cases "unat a + 4 \<le> unat ?z")
      case le: True
      then show ?thesis using True u p uloads_mapped [OF m le]
        by (simp add: fetchint_def z_def word_le_nat_alt word_less_nat_alt not_le del: upt_Suc)
    next
      case False
      then show ?thesis using True u p by (simp add: fetchint_def z_def word_le_nat_alt word_less_nat_alt)
    qed
  next
    case False
    then show ?thesis using p by (simp add: fetchint_def z_def word_le_nat_alt)
  qed
  show "argptr n sz s = Ok (if 0 \<le> sz \<and> unat i < z \<and> int (unat i) + sz \<le> int z then Some i else None)"
    if a: "argint n s = Ok (Some i) \<and> sz < 2 ^ 31"
  proof (cases "0 \<le> sz \<and> unat i < unat ?z")
    case True
    have "uint (word_of_int sz :: u32) = sz" using True a by (simp add: unsigned_of_int take_bit_int_eq_self)
    then have w: "unat (word_of_int sz :: u32) = nat sz" by (simp only: unat_eq_nat_uint)
    have "nat sz < 2 ^ 31" "unat i < 2 ^ 31" using True a k by (simp_all add: nat_less_iff)
    then have u: "unat (i + word_of_int sz) = unat i + nat sz" using add [of i "word_of_int sz"] w by simp
    have le: "psz (procs s ! p) < i + word_of_int sz \<longleftrightarrow> \<not> int (unat i) + sz \<le> int z"
      using True u unfolding word_less_nat_alt z_def by linarith
    have "\<not> (sz < 0 \<or> psz (procs s ! p) \<le> i)" using True by (simp add: word_le_nat_alt)
    then show ?thesis using True a p le by (simp add: argptr_def z_def)
  next
    case False
    then show ?thesis using a p by (auto simp: argptr_def z_def word_le_nat_alt)
  qed
  show "fetchstr a s = Ok (let bs = map (\<lambda>k. user_byte s (a + of_nat k)) [0..<z - unat a]
        in if 0 \<in> set bs then Some (takeWhile (\<lambda>c. c \<noteq> 0) bs) else None)"
  proof (cases "unat a < unat ?z")
    case True
    then have u: "unat (?z - a) = unat ?z - unat a" by (simp add: unat_sub word_le_nat_alt)
    have "unat a + (unat ?z - unat a) \<le> unat ?z" using True by simp
    from fetchstr_loop_mapped [OF m this] show ?thesis using True p u by (simp add: fetchstr_def z_def word_le_nat_alt)
  next
    case False
    then show ?thesis using p by (simp add: fetchstr_def z_def word_le_nat_alt)
  qed
qed


text \<open>A memory of sevens: every entry of every page table says present, writable and user.\<close>

definition user0 :: ptable_st where
  "user0 = ptable0\<lparr>mem := (\<lambda>_. 7), procs := [proc0\<lparr>psz := 4096\<rparr>], cproc := (\<lambda>_. Some 0)\<rparr>"

lemma sevens: "rd32 (\<lambda>_. 7) a = 0x07070707"
  by (simp add: rd32_def push_bit_eq_mult)

theorem syscall_args_checked_witness:
  "fetchint 4092 user0 = Ok (Some 0x07070707) \<and> fetchint 4093 user0 = Ok None \<and> fetchstr 0 user0 = Ok None"
proof -
  have p: "curproc user0 = Ok 0" using ptable0_simps by (intro curproc_ok) (simp_all add: user0_def cpu_ok_def cur_def)
  have m: "user_mapped (psz (procs user0 ! 0)) user0"
    by (simp add: user_mapped_def user0_def pte_view_def present_def sevens)
  have b: "user_byte user0 va = 7" for va by (simp add: user_byte_def user0_def)
  have z: "unat (psz (procs user0 ! 0)) = 4096" by (simp add: user0_def)
  have nz: "(0 :: u8) \<notin> (\<lambda>_. 7) ` A" for A :: "nat set" by auto
  have w: "word_of_bytes (map (\<lambda>k. 7) [0..<4]) = 0x07070707" by (simp add: word_of_bytes_def get32_def upt_rec push_bit_eq_mult)
  show ?thesis using syscall_args_checked [OF p m, of 4092] syscall_args_checked [OF p m, of 4093] syscall_args_checked [OF p m, of 0]
    by (simp add: b z w nz del: upt_Suc)
qed

end
