(* ===== verification/Sysfile.thy ===== *)
theory Sysfile
  imports Syscall
begin

text \<open>
  The file system calls: \<open>xv6-public-master/sysfile.c\<close> but \<open>sys_exec\<close>. Every handler returns
  the value \<open>syscall\<close> puts in \<open>eax\<close>; the jumps to \<open>bad\<close> are calls of a function with the code
  after the label.
\<close>

section \<open>Descriptors\<close>

definition argfd :: "u32 \<Rightarrow> 'z file_st_scheme \<Rightarrow> (nat \<times> nat) option res" where
  "argfd n s =
     arg_bnd (argint n s) (Ok None) (\<lambda>w.
       let fd = sint w in
       if fd < 0 \<or> fd \<ge> 16 then Ok None
       else bnd (curproc s) (\<lambda>p.
         case ofile (procs s ! p) ! nat fd of None \<Rightarrow> Ok None | Some f \<Rightarrow> Ok (Some (nat fd, f))))"

definition fdalloc :: "nat \<Rightarrow> 'z file_st_scheme \<Rightarrow> (int \<times> 'z file_st_scheme) res" where
  "fdalloc f s =
     bnd (curproc s) (\<lambda>p.
       case find_idx (\<lambda>q. q = None) (ofile (procs s ! p)) of
         Some fd \<Rightarrow> Ok (int fd, upd_proc p (\<lambda>q. q\<lparr>ofile := (ofile q)[fd := Some f]\<rparr>) s)
       | None \<Rightarrow> Ok (-1, s))"

definition sys_dup :: "'z file_st_scheme \<Rightarrow> (int \<times> 'z file_st_scheme) res" where
  "sys_dup s =
     arg_bnd (argfd 0 s) (Ok (-1, s)) (\<lambda>(_, f).
     bnd (fdalloc f s) (\<lambda>(fd, s).
       if fd < 0 then Ok (-1, s) else bnd (filedup f s) (\<lambda>(_, s). Ok (fd, s))))"

definition sys_read :: "'z file_st_scheme \<Rightarrow> (int \<times> 'z file_st_scheme) res" where
  "sys_read s =
     arg_bnd (argfd 0 s) (Ok (-1, s)) (\<lambda>(_, f).
     arg_bnd (argint 2 s) (Ok (-1, s)) (\<lambda>n.
     arg_bnd (argptr 1 (sint n) s) (Ok (-1, s)) (\<lambda>p.
     bnd (fileread f (sint n) s) (\<lambda>(r, bs, s).
     bnd (ustores bs p s) (\<lambda>s. Ok (r, s))))))"

definition sys_write :: "'z file_st_scheme \<Rightarrow> (int \<times> 'z file_st_scheme) res" where
  "sys_write s =
     arg_bnd (argfd 0 s) (Ok (-1, s)) (\<lambda>(_, f).
     arg_bnd (argint 2 s) (Ok (-1, s)) (\<lambda>n.
     arg_bnd (argptr 1 (sint n) s) (Ok (-1, s)) (\<lambda>p.
     bnd (uloads (nat (sint n)) p s) (\<lambda>bs. filewrite f bs s))))"

definition sys_close :: "'z file_st_scheme \<Rightarrow> (int \<times> 'z file_st_scheme) res" where
  "sys_close s =
     arg_bnd (argfd 0 s) (Ok (-1, s)) (\<lambda>(fd, f).
     bnd (curproc s) (\<lambda>p.
       let s = upd_proc p (\<lambda>q. q\<lparr>ofile := (ofile q)[fd := None]\<rparr>) s in
       bnd (fileclose f s) (\<lambda>s. Ok (0, s))))"

definition store_stat :: "stat \<Rightarrow> u32 \<Rightarrow> 'z ptable_st_scheme \<Rightarrow> 'z ptable_st_scheme res" where
  "store_stat sta p s =
     bnd (ustores (bytes_of_word (st_dev sta)) (p + 4) s) (\<lambda>s.
     bnd (ustores (bytes_of_word (st_ino sta)) (p + 8) s) (\<lambda>s.
     bnd (ustores (bytes_of_short (st_type sta)) p s) (\<lambda>s.
     bnd (ustores (bytes_of_short (st_nlink sta)) (p + 12) s) (\<lambda>s.
     ustores (bytes_of_word (st_size sta)) (p + 16) s))))"

definition sys_fstat :: "'z file_st_scheme \<Rightarrow> (int \<times> 'z file_st_scheme) res" where
  "sys_fstat s =
     arg_bnd (argfd 0 s) (Ok (-1, s)) (\<lambda>(_, f).
     arg_bnd (argptr 1 20 s) (Ok (-1, s)) (\<lambda>p.
     bnd (filestat f s) (\<lambda>(r, s).
       case r of None \<Rightarrow> Ok (-1, s) | Some sta \<Rightarrow> bnd (store_stat sta p s) (\<lambda>s. Ok (0, s)))))"

section \<open>Links\<close>

definition end_with :: "int \<Rightarrow> 'z file_st_scheme \<Rightarrow> (int \<times> 'z file_st_scheme) res" where
  "end_with r s = bnd (end_op s) (\<lambda>s. Ok (r, s))"

definition put_end :: "nat \<Rightarrow> int \<Rightarrow> 'z file_st_scheme \<Rightarrow> (int \<times> 'z file_st_scheme) res" where
  "put_end ip r s = bnd (iunlockput ip s) (end_with r)"

definition link_bad :: "nat \<Rightarrow> 'z file_st_scheme \<Rightarrow> (int \<times> 'z file_st_scheme) res" where
  "link_bad ip s =
     bnd (ilock (Some ip) s) (\<lambda>s.
     bnd (iupdate ip (upd_inode ip (\<lambda>n. n\<lparr>inlink := inlink n - 1\<rparr>) s)) (put_end ip (-1)))"

definition sys_link :: "'z file_st_scheme \<Rightarrow> (int \<times> 'z file_st_scheme) res" where
  "sys_link s =
     arg_bnd (argstr 0 s) (Ok (-1, s)) (\<lambda>old.
     arg_bnd (argstr 1 s) (Ok (-1, s)) (\<lambda>new.
     bnd (begin_op s) (\<lambda>s.
     bnd (namei old s) (\<lambda>(r, s).
       case r of None \<Rightarrow> end_with (-1) s
       | Some ip \<Rightarrow>
     bnd (ilock (Some ip) s) (\<lambda>s.
       if itype (inodes s ! ip) = T_DIR then put_end ip (-1) s
       else
     bnd (iupdate ip (upd_inode ip (\<lambda>n. n\<lparr>inlink := inlink n + 1\<rparr>) s)) (\<lambda>s.
     bnd (iunlock (Some ip) s) (\<lambda>s.
     bnd (nameiparent new s) (\<lambda>(r, s).
       case r of None \<Rightarrow> link_bad ip s
       | Some (dp, name) \<Rightarrow>
     bnd (ilock (Some dp) s) (\<lambda>s.
     bnd (if idev (inodes s ! dp) \<noteq> idev (inodes s ! ip) then Ok (-1, s)
          else dirlink dp name (inum (inodes s ! ip)) s) (\<lambda>(r, s).
       if r < 0 then bnd (iunlockput dp s) (link_bad ip)
       else bnd (iunlockput dp s) (\<lambda>s. bnd (iput ip s) (end_with 0))))))))))))"

text \<open>The loop of \<open>isdirempty\<close> from offset \<open>off\<close>, with \<open>k\<close> entries to go.\<close>

primrec isdirempty_loop :: "nat \<Rightarrow> u32 \<Rightarrow> nat \<Rightarrow> 'z fs_st_scheme \<Rightarrow> (bool \<times> 'z fs_st_scheme) res" where
  "isdirempty_loop 0 off dp s = Ok (True, s)"
| "isdirempty_loop (Suc k) off dp s =
     bnd (readi dp off 16 s) (\<lambda>(r, de, s).
       if r \<noteq> 16 then Panic ''isdirempty: readi''
       else if de_inum de \<noteq> 0 then Ok (False, s)
       else isdirempty_loop k (off + 16) dp s)"

definition isdirempty :: "nat \<Rightarrow> 'z fs_st_scheme \<Rightarrow> (bool \<times> 'z fs_st_scheme) res" where
  "isdirempty dp s = isdirempty_loop (dir_entries dp s - 2) 32 dp s"

definition sys_unlink :: "'z file_st_scheme \<Rightarrow> (int \<times> 'z file_st_scheme) res" where
  "sys_unlink s =
     arg_bnd (argstr 0 s) (Ok (-1, s)) (\<lambda>path.
     bnd (begin_op s) (\<lambda>s.
     bnd (nameiparent path s) (\<lambda>(r, s).
       case r of None \<Rightarrow> end_with (-1) s
       | Some (dp, name) \<Rightarrow>
     bnd (ilock (Some dp) s) (\<lambda>s.
       if namecmp name [46] = 0 \<or> namecmp name [46, 46] = 0 then put_end dp (-1) s
       else
     bnd (dirlookup dp name s) (\<lambda>(r, s).
       case r of None \<Rightarrow> put_end dp (-1) s
       | Some (ip, off) \<Rightarrow>
     bnd (ilock (Some ip) s) (\<lambda>s.
       if sint (inlink (inodes s ! ip)) < 1 then Panic ''unlink: nlink < 1''
       else
     bnd (if itype (inodes s ! ip) = T_DIR then isdirempty ip s else Ok (True, s)) (\<lambda>(e, s).
       if \<not> e then bnd (iunlockput ip s) (put_end dp (-1))
       else
     bnd (writei dp (replicate 16 0) off s) (\<lambda>(r, s).
       if r \<noteq> 16 then Panic ''unlink: writei''
       else
     bnd (if itype (inodes s ! ip) = T_DIR then iupdate dp (upd_inode dp (\<lambda>n. n\<lparr>inlink := inlink n - 1\<rparr>) s) else Ok s) (\<lambda>s.
     bnd (iunlockput dp s) (\<lambda>s.
     bnd (iupdate ip (upd_inode ip (\<lambda>n. n\<lparr>inlink := inlink n - 1\<rparr>) s)) (put_end ip 0))))))))))) "

section \<open>Creating and opening\<close>

definition create_dots :: "nat \<Rightarrow> nat \<Rightarrow> 'z fs_st_scheme \<Rightarrow> 'z fs_st_scheme res" where
  "create_dots ip dp s =
     bnd (iupdate dp (upd_inode dp (\<lambda>n. n\<lparr>inlink := inlink n + 1\<rparr>) s)) (\<lambda>s.
     bnd (dirlink ip [46] (inum (inodes s ! ip)) s) (\<lambda>(r, s).
       if r < 0 then Panic ''create dots''
       else bnd (dirlink ip [46, 46] (inum (inodes s ! dp)) s) (\<lambda>(r, s).
         if r < 0 then Panic ''create dots'' else Ok s)))"

definition create :: "u8 list \<Rightarrow> 16 word \<Rightarrow> 16 word \<Rightarrow> 16 word \<Rightarrow> 'z fs_st_scheme \<Rightarrow> (nat option \<times> 'z fs_st_scheme) res" where
  "create path ty major minor s =
     bnd (nameiparent path s) (\<lambda>(r, s).
       case r of None \<Rightarrow> Ok (None, s)
       | Some (dp, name) \<Rightarrow>
     bnd (ilock (Some dp) s) (\<lambda>s.
     bnd (dirlookup dp name s) (\<lambda>(r, s).
       case r of
         Some (ip, _) \<Rightarrow>
           bnd (iunlockput dp s) (\<lambda>s.
           bnd (ilock (Some ip) s) (\<lambda>s.
             if ty = T_FILE \<and> itype (inodes s ! ip) = T_FILE then Ok (Some ip, s)
             else bnd (iunlockput ip s) (\<lambda>s. Ok (None, s))))
       | None \<Rightarrow>
           bnd (ialloc (idev (inodes s ! dp)) ty s) (\<lambda>(ip, s).
           bnd (ilock (Some ip) s) (\<lambda>s.
           bnd (iupdate ip (upd_inode ip (\<lambda>n. n\<lparr>imajor := major, iminor := minor, inlink := 1\<rparr>) s)) (\<lambda>s.
           bnd (if ty = T_DIR then create_dots ip dp s else Ok s) (\<lambda>s.
           bnd (dirlink dp name (inum (inodes s ! ip)) s) (\<lambda>(r, s).
             if r < 0 then Panic ''create: dirlink''
             else bnd (iunlockput dp s) (\<lambda>s. Ok (Some ip, s))))))))))"

abbreviation O_WRONLY :: u32 where "O_WRONLY \<equiv> 1"
abbreviation O_RDWR :: u32 where "O_RDWR \<equiv> 2"
abbreviation O_CREATE :: u32 where "O_CREATE \<equiv> 0x200"

text \<open>The inode \<open>sys_open\<close> goes on with, locked; \<open>None\<close> after the error exits (with \<open>end_op\<close> done).\<close>

definition open_inode :: "u8 list \<Rightarrow> u32 \<Rightarrow> 'z file_st_scheme \<Rightarrow> (nat option \<times> 'z file_st_scheme) res" where
  "open_inode path omode s =
     (if omode AND O_CREATE \<noteq> 0 then
        bnd (create path T_FILE 0 0 s) (\<lambda>(r, s).
          case r of None \<Rightarrow> bnd (end_op s) (\<lambda>s. Ok (None, s)) | Some ip \<Rightarrow> Ok (Some ip, s))
      else
        bnd (namei path s) (\<lambda>(r, s).
          case r of None \<Rightarrow> bnd (end_op s) (\<lambda>s. Ok (None, s))
          | Some ip \<Rightarrow>
              bnd (ilock (Some ip) s) (\<lambda>s.
                if itype (inodes s ! ip) = T_DIR \<and> omode \<noteq> 0
                then bnd (iunlockput ip s) (\<lambda>s. bnd (end_op s) (\<lambda>s. Ok (None, s)))
                else Ok (Some ip, s))))"

definition sys_open :: "'z file_st_scheme \<Rightarrow> (int \<times> 'z file_st_scheme) res" where
  "sys_open s =
     arg_bnd (argstr 0 s) (Ok (-1, s)) (\<lambda>path.
     arg_bnd (argint 1 s) (Ok (-1, s)) (\<lambda>omode.
     bnd (begin_op s) (\<lambda>s.
     bnd (open_inode path omode s) (\<lambda>(r, s).
       case r of None \<Rightarrow> Ok (-1, s)
       | Some ip \<Rightarrow>
     bnd (filealloc s) (\<lambda>(fo, s).
       case fo of None \<Rightarrow> put_end ip (-1) s
       | Some f \<Rightarrow>
     bnd (fdalloc f s) (\<lambda>(fd, s).
       if fd < 0 then bnd (fileclose f s) (put_end ip (-1))
       else
     bnd (iunlock (Some ip) s) (\<lambda>s.
     bnd (end_op s) (\<lambda>s.
       Ok (fd, upd_file f (\<lambda>q. q\<lparr>ftype := FD_INODE, fip := Some ip, foff := 0, freadable := (omode AND O_WRONLY = 0),
                fwritable := (omode AND O_WRONLY \<noteq> 0 \<or> omode AND O_RDWR \<noteq> 0)\<rparr>) s)))))))))"

definition made :: "nat option \<Rightarrow> 'z file_st_scheme \<Rightarrow> (int \<times> 'z file_st_scheme) res" where
  "made r s = (case r of None \<Rightarrow> end_with (-1) s | Some ip \<Rightarrow> put_end ip 0 s)"

definition sys_mkdir :: "'z file_st_scheme \<Rightarrow> (int \<times> 'z file_st_scheme) res" where
  "sys_mkdir s =
     bnd (begin_op s) (\<lambda>s.
     arg_bnd (argstr 0 s) (end_with (-1) s) (\<lambda>path.
     bnd (create path T_DIR 0 0 s) (\<lambda>(r, s). made r s)))"

definition sys_mknod :: "'z file_st_scheme \<Rightarrow> (int \<times> 'z file_st_scheme) res" where
  "sys_mknod s =
     bnd (begin_op s) (\<lambda>s.
     arg_bnd (argstr 0 s) (end_with (-1) s) (\<lambda>path.
     arg_bnd (argint 1 s) (end_with (-1) s) (\<lambda>major.
     arg_bnd (argint 2 s) (end_with (-1) s) (\<lambda>minor.
     bnd (create path T_DEV (ucast major) (ucast minor) s) (\<lambda>(r, s). made r s)))))"

definition sys_chdir :: "'z file_st_scheme \<Rightarrow> (int \<times> 'z file_st_scheme) res" where
  "sys_chdir s =
     bnd (curproc s) (\<lambda>p.
     bnd (begin_op s) (\<lambda>s.
     arg_bnd (argstr 0 s) (end_with (-1) s) (\<lambda>path.
     bnd (namei path s) (\<lambda>(r, s).
       case r of None \<Rightarrow> end_with (-1) s
       | Some ip \<Rightarrow>
     bnd (ilock (Some ip) s) (\<lambda>s.
       if itype (inodes s ! ip) \<noteq> T_DIR then put_end ip (-1) s
       else
     bnd (iunlock (Some ip) s) (\<lambda>s.
     bnd (deref_ip (cwd (procs s ! p))) (\<lambda>old.
     bnd (iput old s) (\<lambda>s.
     bnd (end_op s) (\<lambda>s. Ok (0, upd_proc p (\<lambda>q. q\<lparr>cwd := Some ip\<rparr>) s))))))))))"

definition sys_pipe :: "'z file_st_scheme \<Rightarrow> (int \<times> 'z file_st_scheme) res" where
  "sys_pipe s =
     arg_bnd (argptr 0 8 s) (Ok (-1, s)) (\<lambda>fd.
     bnd (pipealloc s) (\<lambda>(r, s).
       case r of None \<Rightarrow> Ok (-1, s)
       | Some (rdf, wrf) \<Rightarrow>
     bnd (fdalloc rdf s) (\<lambda>(fd0, s).
     bnd (if fd0 < 0 then Ok (-1, s) else fdalloc wrf s) (\<lambda>(fd1, s).
       if fd0 < 0 \<or> fd1 < 0 then
         bnd (if fd0 \<ge> 0 then bnd (curproc s) (\<lambda>p. Ok (upd_proc p (\<lambda>q. q\<lparr>ofile := (ofile q)[nat fd0 := None]\<rparr>) s)) else Ok s) (\<lambda>s.
         bnd (fileclose rdf s) (\<lambda>s. bnd (fileclose wrf s) (\<lambda>s. Ok (-1, s))))
       else
         bnd (ustores (bytes_of_word (word_of_int fd0)) fd s) (\<lambda>s.
         bnd (ustores (bytes_of_word (word_of_int fd1)) (fd + 4) s) (\<lambda>s. Ok (0, s)))))))"

end
