(* ===== verification/Exec.thy ===== *)
theory Exec
  imports Sysfile
begin

text \<open>
  Program loading: \<open>exec\<close> of \<open>xv6-public-master/exec.c\<close>, \<open>loaduvm\<close> of \<open>vm.c\<close> and \<open>sys_exec\<close> of
  \<open>sysfile.c\<close>. Strings and headers are byte lists; \<open>copyout_bytes\<close> is \<open>copyout\<close> with the source
  buffer given by its bytes (the arguments of \<open>exec\<close> lie in user memory and on the kernel
  stack). \<open>None\<close> from a part of \<open>exec\<close> is its jump to \<open>bad\<close>.
\<close>

section \<open>Storing bytes\<close>

primrec store_bytes :: "u32 \<Rightarrow> u8 list \<Rightarrow> memory \<Rightarrow> memory" where
  "store_bytes a [] m = m"
| "store_bytes a (c # cs) m = store_bytes (a + 1) cs (m(a := c))"

function copyout_bytes :: "u32 \<Rightarrow> u32 \<Rightarrow> u8 list \<Rightarrow> 'z kmem_st_scheme \<Rightarrow> (int \<times> 'z kmem_st_scheme) res" where
  "copyout_bytes pd va bs s =
     (if bs = [] then Ok (0, s)
      else
        let va0 = PGROUNDDOWN va in
        bnd (uva2ka kalloc pd va0 s) (\<lambda>(pa0, s).
          if pa0 = 0 then Ok (-1, s)
          else
            let n = max 1 (unat (PGSIZE - (va - va0)));
                s = s\<lparr>mem := store_bytes (pa0 + (va - va0)) (take n bs) (mem s)\<rparr>
            in copyout_bytes pd (va0 + PGSIZE) (drop n bs) s))"
  by pat_completeness auto

termination
  by (relation "measure (\<lambda>(pd, va, bs, s). length bs)") (simp_all add: Let_def)

declare copyout_bytes.simps [simp del]

section \<open>Loading\<close>

text \<open>The loop of \<open>loaduvm\<close> from offset \<open>i\<close>; \<open>k\<close> rounds of one page each cover \<open>sz\<close> bytes.\<close>

primrec loaduvm_loop :: "nat \<Rightarrow> u32 \<Rightarrow> u32 \<Rightarrow> u32 \<Rightarrow> nat \<Rightarrow> u32 \<Rightarrow> u32 \<Rightarrow> 'z fs_st_scheme \<Rightarrow> (int \<times> 'z fs_st_scheme) res" where
  "loaduvm_loop 0 i pd addr ip offset sz s = Ok (0, s)"
| "loaduvm_loop (Suc k) i pd addr ip offset sz s =
     (if \<not> i < sz then Ok (0, s)
      else
        bnd (walkpgdir kalloc pd (addr + i) False s) (\<lambda>(pte, s).
          if pte = 0 then Panic ''loaduvm: address should exist''
          else
            let pa = PTE_ADDR (ld pte s);
                n = (if sz - i < PGSIZE then sz - i else PGSIZE)
            in bnd (readi ip (offset + i) n s) (\<lambda>(r, bs, s).
                 let s = s\<lparr>mem := store_bytes (P2V pa) bs (mem s)\<rparr> in
                 if word_of_int r \<noteq> n then Ok (-1, s)
                 else loaduvm_loop k (i + PGSIZE) pd addr ip offset sz s)))"

definition loaduvm :: "u32 \<Rightarrow> u32 \<Rightarrow> nat \<Rightarrow> u32 \<Rightarrow> u32 \<Rightarrow> 'z fs_st_scheme \<Rightarrow> (int \<times> 'z fs_st_scheme) res" where
  "loaduvm pd addr ip offset sz s =
     (if addr mod PGSIZE \<noteq> 0 then Panic ''loaduvm: addr must be page aligned''
      else loaduvm_loop ((unat sz + 4095) div 4096) 0 pd addr ip offset sz s)"

definition le32 :: "u8 list \<Rightarrow> nat \<Rightarrow> u32" where
  "le32 bs k = get32 ((!) bs) k"

text \<open>The program header loop of \<open>exec\<close>, with \<open>k\<close> headers to go; \<open>sz\<close> is the memory size so far.\<close>

primrec exec_load :: "nat \<Rightarrow> u32 \<Rightarrow> nat \<Rightarrow> u32 \<Rightarrow> u32 \<Rightarrow> 'z fs_st_scheme \<Rightarrow> (u32 option \<times> 'z fs_st_scheme) res" where
  "exec_load 0 off ip pd sz s = Ok (Some sz, s)"
| "exec_load (Suc k) off ip pd sz s =
     bnd (readi ip off 32 s) (\<lambda>(r, ph, s).
       if r \<noteq> 32 then Ok (None, s)
       else if le32 ph 0 \<noteq> 1 then exec_load k (off + 32) ip pd sz s
       else
         let fileoff = le32 ph 4; vaddr = le32 ph 8; filesz = le32 ph 16; memsz = le32 ph 20 in
         if memsz < filesz then Ok (None, s)
         else if vaddr + memsz < vaddr then Ok (None, s)
         else
           bnd (allocuvm kalloc kfree pd sz (vaddr + memsz) s) (\<lambda>(sz, s).
             if sz = 0 then Ok (None, s)
             else if vaddr mod PGSIZE \<noteq> 0 then Ok (None, s)
             else
               bnd (loaduvm pd vaddr ip fileoff filesz s) (\<lambda>(r, s).
                 if r < 0 then Ok (None, s) else exec_load k (off + 32) ip pd sz s)))"

text \<open>Pushing the argument strings from argument \<open>argc\<close> on; it returns \<open>sp\<close> and the entries of \<open>ustack\<close>.\<close>

primrec exec_args :: "u8 list list \<Rightarrow> nat \<Rightarrow> u32 \<Rightarrow> u32 \<Rightarrow> 'z kmem_st_scheme \<Rightarrow> ((u32 \<times> u32 list) option \<times> 'z kmem_st_scheme) res" where
  "exec_args [] argc pd sp s = Ok (Some (sp, []), s)"
| "exec_args (arg # args) argc pd sp s =
     (if argc \<ge> 32 then Ok (None, s)
      else
        let sp = (sp - of_nat (length arg + 1)) AND NOT 3 in
        bnd (copyout_bytes pd sp (arg @ [0]) s) (\<lambda>(r, s).
          if r < 0 then Ok (None, s)
          else
            bnd (exec_args args (Suc argc) pd sp s) (\<lambda>(r, s).
              Ok (map_option (\<lambda>(sp', us). (sp', sp # us)) r, s))))"

definition exec_bad :: "u32 \<Rightarrow> nat option \<Rightarrow> 'z file_st_scheme \<Rightarrow> (int \<times> 'z file_st_scheme) res" where
  "exec_bad pd ip s =
     bnd (if pd \<noteq> 0 then freevm kalloc kfree pd s else Ok s) (\<lambda>s.
       case ip of Some i \<Rightarrow> put_end i (-1) s | None \<Rightarrow> Ok (-1, s))"

definition last_elem :: "u8 list \<Rightarrow> u8 list" where
  "last_elem path = rev (takeWhile (\<lambda>c. c \<noteq> 47) (rev path))"

text \<open>The part of \<open>exec\<close> after the image is loaded: the stack, the arguments and the commit.\<close>

definition exec_stack :: "u8 list \<Rightarrow> u8 list list \<Rightarrow> u32 \<Rightarrow> u32 \<Rightarrow> u32 \<Rightarrow> 'z file_st_scheme \<Rightarrow> (int \<times> 'z file_st_scheme) res" where
  "exec_stack path argv entry pd sz s =
     bnd (curproc s) (\<lambda>p.
       let sz = PGROUNDUP sz in
     bnd (allocuvm kalloc kfree pd sz (sz + 2 * PGSIZE) s) (\<lambda>(sz, s).
       if sz = 0 then exec_bad pd None s
       else
     bnd (clearpteu kalloc pd (sz - 2 * PGSIZE) s) (\<lambda>s.
     bnd (exec_args argv 0 pd sz s) (\<lambda>(r, s).
       case r of None \<Rightarrow> exec_bad pd None s
       | Some (sp, us) \<Rightarrow>
         let argc = of_nat (length us);
             ustack = [0xffffffff, argc, sp - (argc + 1) * 4] @ us @ [0];
             sp = sp - (3 + argc + 1) * 4
         in
     bnd (copyout_bytes pd sp (concat (map bytes_of_word ustack)) s) (\<lambda>(r, s).
       if r < 0 then exec_bad pd None s
       else
         let s = upd_proc p (\<lambda>q. q\<lparr>pname := take 15 (map (\<lambda>c. char_of (unat c)) (last_elem path))\<rparr>) s;
             oldpgdir = pgdir (procs s ! p);
             s = upd_proc p (\<lambda>q. q\<lparr>pgdir := pd\<rparr>) s;
             s = upd_proc p (\<lambda>q. q\<lparr>psz := sz\<rparr>) s;
             s = st (tf (procs s ! p) + tf_eip) entry s;
             s = st (tf (procs s ! p) + tf_esp) sp s
         in
     bnd (switchuvm (Some p) s) (\<lambda>s.
     bnd (freevm kalloc kfree oldpgdir s) (\<lambda>s. Ok (0, s))))))))"

definition exec :: "u8 list \<Rightarrow> u8 list list \<Rightarrow> 'z file_st_scheme \<Rightarrow> (int \<times> 'z file_st_scheme) res" where
  "exec path argv s =
     bnd (begin_op s) (\<lambda>s.
     bnd (namei path s) (\<lambda>(r, s).
       case r of
         None \<Rightarrow> bnd (end_op s) (\<lambda>s. bnd (cprintf (map of_char (''exec: fail'' @ [CHR 0x0A])) [] s) (\<lambda>s. Ok (-1, s)))
       | Some ip \<Rightarrow>
     bnd (ilock (Some ip) s) (\<lambda>s.
     bnd (readi ip 0 52 s) (\<lambda>(r, elf, s).
       if r \<noteq> 52 then exec_bad 0 (Some ip) s
       else if le32 elf 0 \<noteq> 0x464C457F then exec_bad 0 (Some ip) s
       else
     bnd (setupkvm kalloc kfree s) (\<lambda>(pd, s).
       if pd = 0 then exec_bad 0 (Some ip) s
       else
     bnd (exec_load (unat (get16 ((!) elf) 44)) (le32 elf 28) ip pd 0 s) (\<lambda>(r, s).
       case r of None \<Rightarrow> exec_bad pd (Some ip) s
       | Some sz \<Rightarrow>
     bnd (iunlockput ip s) (\<lambda>s.
     bnd (end_op s) (exec_stack path argv (le32 elf 24) pd sz))))))))"

primrec sys_exec_args :: "nat \<Rightarrow> u32 \<Rightarrow> 'z ptable_st_scheme \<Rightarrow> u8 list list option res" where
  "sys_exec_args 0 uargv s = Ok None"
| "sys_exec_args (Suc k) uargv s =
     arg_bnd (fetchint uargv s) (Ok None) (\<lambda>uarg.
       if uarg = 0 then Ok (Some [])
       else arg_bnd (fetchstr uarg s) (Ok None) (\<lambda>str.
         bnd (sys_exec_args k (uargv + 4) s) (\<lambda>r. Ok (map_option ((#) str) r))))"

definition sys_exec :: "'z file_st_scheme \<Rightarrow> (int \<times> 'z file_st_scheme) res" where
  "sys_exec s =
     arg_bnd (argstr 0 s) (Ok (-1, s)) (\<lambda>path.
     arg_bnd (argint 1 s) (Ok (-1, s)) (\<lambda>uargv.
     arg_bnd (sys_exec_args 32 uargv s) (Ok (-1, s)) (\<lambda>argv. exec path argv s)))"

end
