(* ===== verification/Process.thy ===== *)
theory Process
  imports Exec
begin

text \<open>
  The life of a process: \<open>userinit\<close>, \<open>fork\<close>, \<open>exit\<close>, \<open>forkret\<close> and the added \<open>spawn\<close> of
  \<open>xv6-public-master/proc.c\<close>, and the system calls of \<open>sysproc.c\<close>. \<open>exit_off\<close> is \<open>exit\<close> up to its
  \<open>swtch\<close>, after which the process never runs again; the path of \<open>exit\<close> ends there (\<open>Block\<close>).
\<close>

section \<open>Creating processes\<close>

definition make_runnable :: "nat \<Rightarrow> 'z ptable_st_scheme \<Rightarrow> 'z ptable_st_scheme res" where
  "make_runnable i s =
     bnd (with_lock Ptable_lock (\<lambda>s. Ok ((), upd_proc i (\<lambda>p. p\<lparr>pstate := RUNNABLE\<rparr>) s)) s) (\<lambda>(_, s). Ok s)"

definition wr16 :: "u32 \<Rightarrow> 16 word \<Rightarrow> 'z kmem_st_scheme \<Rightarrow> 'z kmem_st_scheme" where
  "wr16 a v s = s\<lparr>mem := (mem s)(a := ucast v, a + 1 := ucast (drop_bit 8 v))\<rparr>"

text \<open>\<open>initcode\<close> and \<open>initsize\<close> are the symbols of the linked-in first program.\<close>

definition userinit :: "u32 \<Rightarrow> u32 \<Rightarrow> 'z file_st_scheme \<Rightarrow> 'z file_st_scheme res" where
  "userinit initcode initsize s =
     bnd (allocproc s) (\<lambda>(r, s).
       let s = s\<lparr>initproc := r\<rparr> in
       case r of None \<Rightarrow> Panic ''null pointer''
       | Some p \<Rightarrow>
     bnd (setupkvm kalloc kfree s) (\<lambda>(d, s).
       let s = upd_proc p (\<lambda>q. q\<lparr>pgdir := d\<rparr>) s in
       if d = 0 then Panic ''userinit: out of memory?''
       else
     bnd (inituvm kalloc (pgdir (procs s ! p)) initcode initsize s) (\<lambda>s.
       let s = upd_proc p (\<lambda>q. q\<lparr>psz := PGSIZE\<rparr>) s;
           t = tf (procs s ! p);
           s = s\<lparr>mem := memset t 0 tf_size (mem s)\<rparr>;
           s = wr16 (t + 60) 0x1B s;
           s = wr16 (t + 44) 0x23 s;
           s = wr16 (t + 40) 0x23 s;
           s = wr16 (t + 72) 0x23 s;
           s = st (t + 64) 0x200 s;
           s = st (t + tf_esp) PGSIZE s;
           s = st (t + tf_eip) 0 s;
           s = upd_proc p (\<lambda>q. q\<lparr>pname := ''initcode''\<rparr>) s
       in
     bnd (namei [47] s) (\<lambda>(r, s).
       make_runnable p (upd_proc p (\<lambda>q. q\<lparr>cwd := r\<rparr>) s)))))"

text \<open>The descriptor loop of \<open>fork\<close> and \<open>spawn\<close>: \<open>c\<close> is the parent, \<open>np\<close> the child.\<close>

primrec dup_files :: "nat list \<Rightarrow> nat \<Rightarrow> nat \<Rightarrow> 'z file_st_scheme \<Rightarrow> 'z file_st_scheme res" where
  "dup_files [] c np s = Ok s"
| "dup_files (i # is) c np s =
     (case ofile (procs s ! c) ! i of
        None \<Rightarrow> dup_files is c np s
      | Some f \<Rightarrow>
          bnd (filedup f s) (\<lambda>(f, s). dup_files is c np (upd_proc np (\<lambda>q. q\<lparr>ofile := (ofile q)[i := Some f]\<rparr>) s)))"

text \<open>
  \<open>np\<close> becomes a copy of the process \<open>c\<close>; false when \<open>copyuvm\<close> fails and the slot is given back.
  The function that copies the address space is an argument, because the kernels of the
  repository share \<open>fork\<close> and differ in \<open>copyuvm\<close>.
\<close>

type_synonym 'z copy_fn = "u32 \<Rightarrow> u32 \<Rightarrow> 'z file_st_scheme \<Rightarrow> (u32 \<times> 'z file_st_scheme) res"

definition copy_space :: "'z copy_fn \<Rightarrow> nat \<Rightarrow> nat \<Rightarrow> 'z file_st_scheme \<Rightarrow> (bool \<times> 'z file_st_scheme) res" where
  "copy_space cp c np s =
     bnd (cp (pgdir (procs s ! c)) (psz (procs s ! c)) s) (\<lambda>(d, s).
       let s = upd_proc np (\<lambda>q. q\<lparr>pgdir := d\<rparr>) s in
       if d = 0 then
         bnd (kfree (kstack (procs s ! np)) s) (\<lambda>s.
           Ok (False, upd_proc np (\<lambda>q. q\<lparr>kstack := 0, pstate := UNUSED\<rparr>) s))
       else
         let s = upd_proc np (\<lambda>q. q\<lparr>psz := psz (procs s ! c), parent := Some c\<rparr>) s
         in Ok (True, s\<lparr>mem := memmove (tf (procs s ! np)) (tf (procs s ! c)) tf_size (mem s)\<rparr>))"

definition copy_rest :: "nat \<Rightarrow> nat \<Rightarrow> 'z file_st_scheme \<Rightarrow> 'z file_st_scheme res" where
  "copy_rest c np s =
     bnd (dup_files [0..<16] c np s) (\<lambda>s.
     bnd (deref_ip (cwd (procs s ! c))) (\<lambda>i.
     bnd (idup i s) (\<lambda>(i, s).
       Ok (upd_proc np (\<lambda>q. q\<lparr>cwd := Some i, pname := take 15 (pname (procs s ! c))\<rparr>) s))))"

definition fork :: "'z copy_fn \<Rightarrow> 'z file_st_scheme \<Rightarrow> (int \<times> 'z file_st_scheme) res" where
  "fork cp s =
     bnd (curproc s) (\<lambda>c.
     bnd (allocproc s) (\<lambda>(r, s).
       case r of None \<Rightarrow> Ok (-1, s)
       | Some np \<Rightarrow>
     bnd (copy_space cp c np s) (\<lambda>(copied, s).
       if \<not> copied then Ok (-1, s)
       else
         let s = st (tf (procs s ! np) + tf_eax) 0 s in
     bnd (copy_rest c np s) (\<lambda>s.
       let q = pid (procs s ! np) in
     bnd (make_runnable np s) (\<lambda>s. Ok (q, s))))))"

text \<open>The loop of \<open>spawn\<close> over the children \<open>j\<close>, counting those that were made.\<close>

primrec spawn_loop :: "nat \<Rightarrow> u32 \<Rightarrow> nat \<Rightarrow> int \<Rightarrow> 'z file_st_scheme \<Rightarrow> (int \<times> 'z file_st_scheme) res" where
  "spawn_loop 0 pids c allocated s = Ok (allocated, s)"
| "spawn_loop (Suc k) pids c allocated s =
     bnd (ustores (bytes_of_word (- 1)) pids s) (\<lambda>s.
     bnd (allocproc s) (\<lambda>(r, s).
       case r of None \<Rightarrow> spawn_loop k (pids + 4) c allocated s
       | Some np \<Rightarrow>
     bnd (copy_space (copyuvm kalloc kfree) c np s) (\<lambda>(copied, s).
       if \<not> copied then spawn_loop k (pids + 4) c allocated s
       else
     bnd (copy_rest c np s) (\<lambda>s.
       let s = st (tf (procs s ! np) + tf_eax) 0 s in
     bnd (ustores (bytes_of_word (word_of_int (pid (procs s ! np)))) pids s) (\<lambda>s.
     bnd (make_runnable np s) (spawn_loop k (pids + 4) c (allocated + 1)))))))"

definition spawn :: "int \<Rightarrow> u32 \<Rightarrow> 'z file_st_scheme \<Rightarrow> (int \<times> 'z file_st_scheme) res" where
  "spawn n pids s =
     bnd (curproc s) (\<lambda>c.
     bnd (spawn_loop (nat n) pids c 0 s) (\<lambda>(allocated, s).
       Ok (if allocated = 0 then -1 else allocated, s)))"

definition forkret :: "'z sys_st_scheme \<Rightarrow> 'z sys_st_scheme res" where
  "forkret s =
     bnd (release Ptable_lock s) (\<lambda>s.
       if first_ret s then
         let s = s\<lparr>first_ret := False\<rparr> in
         bnd (iinit ROOTDEV s) (initlog ROOTDEV)
       else Ok s)"

section \<open>Exit\<close>

primrec close_files :: "nat list \<Rightarrow> nat \<Rightarrow> 'z file_st_scheme \<Rightarrow> 'z file_st_scheme res" where
  "close_files [] c s = Ok s"
| "close_files (fd # fds) c s =
     (case ofile (procs s ! c) ! fd of
        None \<Rightarrow> close_files fds c s
      | Some f \<Rightarrow>
          bnd (fileclose f s) (\<lambda>s. close_files fds c (upd_proc c (\<lambda>q. q\<lparr>ofile := (ofile q)[fd := None]\<rparr>) s)))"

text \<open>\<open>wakeup1\<close> on a process pointer; nobody sleeps on the null channel.\<close>

definition wakeup_proc :: "nat option \<Rightarrow> 'z ptable_st_scheme \<Rightarrow> 'z ptable_st_scheme" where
  "wakeup_proc p s = (case p of None \<Rightarrow> s | Some i \<Rightarrow> wakeup1 (Proc_chan i) s)"

primrec reparent :: "nat list \<Rightarrow> nat \<Rightarrow> 'z ptable_st_scheme \<Rightarrow> 'z ptable_st_scheme" where
  "reparent [] c s = s"
| "reparent (i # is) c s =
     (if parent (procs s ! i) = Some c then
        let s = upd_proc i (\<lambda>p. p\<lparr>parent := initproc s\<rparr>) s
        in reparent is c (if pstate (procs s ! i) = ZOMBIE then wakeup_proc (initproc s) s else s)
      else reparent is c s)"

definition exit_off :: "'z file_st_scheme \<Rightarrow> (bool \<times> 'z file_st_scheme) res" where
  "exit_off s =
     bnd (curproc s) (\<lambda>c.
       if Some c = initproc s then Panic ''init exiting''
       else
     bnd (close_files [0..<16] c s) (\<lambda>s.
     bnd (begin_op s) (\<lambda>s.
     bnd (deref_ip (cwd (procs s ! c))) (\<lambda>i.
     bnd (iput i s) (\<lambda>s.
     bnd (end_op s) (\<lambda>s.
       let s = upd_proc c (\<lambda>q. q\<lparr>cwd := None\<rparr>) s in
     bnd (acquire Ptable_lock s) (\<lambda>s.
       let s = wakeup_proc (parent (procs s ! c)) s;
           s = reparent [0..<length (procs s)] c s
       in sched (upd_proc c (\<lambda>q. q\<lparr>pstate := ZOMBIE\<rparr>) s))))))))"

definition exit :: "'z file_st_scheme \<Rightarrow> 'r res" where
  "exit s = bnd (exit_off s) (\<lambda>_. Block)"

section \<open>System calls\<close>

definition sys_fork :: "'z file_st_scheme \<Rightarrow> (int \<times> 'z file_st_scheme) res" where
  "sys_fork s = fork (copyuvm kalloc kfree) s"

definition sys_exit :: "'z file_st_scheme \<Rightarrow> (int \<times> 'z file_st_scheme) res" where
  "sys_exit s = exit s"

definition sys_wait :: "'z file_st_scheme \<Rightarrow> (int \<times> 'z file_st_scheme) res" where
  "sys_wait s = wait s"

definition sys_kill :: "'z file_st_scheme \<Rightarrow> (int \<times> 'z file_st_scheme) res" where
  "sys_kill s = arg_bnd (argint 0 s) (Ok (-1, s)) (\<lambda>q. kill (sint q) s)"

definition sys_getpid :: "'z file_st_scheme \<Rightarrow> (int \<times> 'z file_st_scheme) res" where
  "sys_getpid s = bnd (curproc s) (\<lambda>p. Ok (pid (procs s ! p), s))"

definition sys_sbrk :: "'z file_st_scheme \<Rightarrow> (int \<times> 'z file_st_scheme) res" where
  "sys_sbrk s =
     arg_bnd (argint 0 s) (Ok (-1, s)) (\<lambda>n.
     bnd (curproc s) (\<lambda>p.
       let addr = sint (psz (procs s ! p)) in
       bnd (growproc (sint n) s) (\<lambda>(r, s). if r < 0 then Ok (-1, s) else Ok (addr, s))))"

text \<open>
  \<open>sys_sleep\<close> for a caller that arrives at \<open>ticks0\<close>: \<open>sleep_check\<close> is one test of its loop, run on
  entry with \<open>ticks0\<close> the current tick count and again after every wakeup. The comparison of
  the unsigned difference with the signed argument is unsigned.
\<close>

definition sleep_check :: "u32 \<Rightarrow> u32 \<Rightarrow> 'z sys_st_scheme \<Rightarrow> (int \<times> 'z sys_st_scheme) res" where
  "sleep_check ticks0 n s =
     (if ticks s - ticks0 < n then
        bnd (curproc s) (\<lambda>p.
          if killed (procs s ! p) then bnd (release Ticks_lock s) (\<lambda>s. Ok (-1, s))
          else sleep Ticks_chan Ticks_lock s)
      else bnd (release Ticks_lock s) (\<lambda>s. Ok (0, s)))"

definition sys_sleep :: "'z sys_st_scheme \<Rightarrow> (int \<times> 'z sys_st_scheme) res" where
  "sys_sleep s =
     arg_bnd (argint 0 s) (Ok (-1, s)) (\<lambda>n.
     bnd (acquire Ticks_lock s) (\<lambda>s. sleep_check (ticks s) n s))"

definition sys_uptime :: "'z sys_st_scheme \<Rightarrow> (int \<times> 'z sys_st_scheme) res" where
  "sys_uptime s = with_lock Ticks_lock (\<lambda>s. Ok (sint (ticks s), s)) s"

definition sys_getpasize :: "'z file_st_scheme \<Rightarrow> (int \<times> 'z file_st_scheme) res" where
  "sys_getpasize s = arg_bnd (argint 0 s) (Ok (-1, s)) (\<lambda>q. Ok (getpasize (sint q) s, s))"

end
