(* ===== verification/Cow_Vm.thy ===== *)
theory Cow_Vm
  imports Vm
begin

text \<open>
  Copy-on-write fork
  (\<open>Lab-Memory Management in xv6/CoW Implement/xv6-public-master\<close>: \<open>vm.c\<close> and the page-fault
  case of \<open>trap.c\<close>). \<open>copyuvm\<close> shares the parent's pages read-only instead of copying them,
  and the page-fault handler makes the private copy on the first write. The process's
  \<open>pgdir\<close> is an argument of the handler.
\<close>

abbreviation PTE_CoW :: u32 where "PTE_CoW \<equiv> 0x100"

section \<open>Operations\<close>

primrec cow_copyuvm_loop ::
  "nat \<Rightarrow> u32 \<Rightarrow> u32 \<Rightarrow> u32 \<Rightarrow> u32 \<Rightarrow> 'z cow_st_scheme \<Rightarrow> (u32 \<times> 'z cow_st_scheme) res" where
  "cow_copyuvm_loop 0 pgdir d i sz s = Block"
| "cow_copyuvm_loop (Suc k) pgdir d i sz s =
     (if \<not> i < sz then Ok (d, s)
      else bnd (walkpgdir cow_kalloc pgdir i False s) (\<lambda>(pte, s).
        if pte = 0 then Panic ''copyuvm: pte should exist''
        else if ld pte s AND PTE_P = 0 then Panic ''copyuvm: page not present''
        else
          let s = (if ld pte s AND PTE_W \<noteq> 0 then
                     let s = st pte (ld pte s OR PTE_CoW) s in st pte (ld pte s AND NOT PTE_W) s
                   else s);
              pa = PTE_ADDR (ld pte s);
              flags = PTE_FLAGS (ld pte s)
          in bnd (mappages cow_kalloc d i PGSIZE pa flags s) (\<lambda>(r, s).
               if r < 0 then bnd (freevm cow_kalloc cow_kfree d s) (\<lambda>s. Ok (0, s))
               else bnd (increase_refcount pa s) (\<lambda>s. cow_copyuvm_loop k pgdir d (i + PGSIZE) sz s))))"

definition cow_copyuvm :: "u32 \<Rightarrow> u32 \<Rightarrow> 'z cow_st_scheme \<Rightarrow> (u32 \<times> 'z cow_st_scheme) res" where
  "cow_copyuvm pgdir sz s =
     bnd (setupkvm cow_kalloc cow_kfree s) (\<lambda>(d, s).
       if d = 0 then Ok (0, s) else cow_copyuvm_loop (2 ^ 20) pgdir d 0 sz s)"




section \<open>Reference counts and address spaces\<close>


lemma pte_view_frame:
  assumes "\<And>p a. p \<in> pt_pages m pgdir \<Longrightarrow> a \<in> page p \<Longrightarrow> m' a = m a"
  shows "pte_view m' pgdir va = pte_view m pgdir va"
proof -
  have dir: "m' a = m a" if "a \<in> page pgdir" for a using assms [OF pt_pages_simps(1) that] .
  have "rd32 m' (tab m pgdir (PDX va) + 4 * PTX va) = rd32 m (tab m pgdir (PDX va) + 4 * PTX va)"
    if "present m pgdir (PDX va)"
    using assms pt_pages_simps(2) [OF PDX_lt that] by (intro rd32_slot_frame) auto
  then show ?thesis using pt_frame [OF dir PDX_lt] by (simp add: pte_view_def)
qed

context page_alloc
begin

lemma vm_ok_alloc:
  assumes ok: "vm_ok free sole s (x # ys) pgdir"
  shows "\<exists>s'. ka s = Ok (x, s') \<and> vm_ok free sole s' ys pgdir \<and> mem s' = mem s \<and> sole s' x
    \<and> (\<forall>v. v \<noteq> x \<longrightarrow> sole s' v = sole s v)"
proof -
  obtain s' where s': "ka s = Ok (x, s')" "free s' ys" "mem s' = mem s" "sole s' x"
    "\<forall>v. v \<noteq> x \<longrightarrow> sole s' v = sole s v" using alloc_some [OF vm_okD(1) [OF ok]] by blast
  have "sole s' p \<and> p \<notin> set ys" if "p \<in> pt_pages (mem s) pgdir" for p
    using vm_okD(2,3) [OF ok that] s'(5) by auto
  then have "vm_ok free sole s' ys pgdir" using ok s'(2,3) by (simp add: vm_ok_def)
  then show ?thesis using s' by blast
qed

text \<open>Filling a page that is neither free nor a page-table page changes no mapping.\<close>

lemma vm_ok_fill:
  assumes ok: "vm_ok free sole s xs pgdir" and x: "aligned x" "x \<notin> set xs" "x \<notin> pt_pages (mem s) pgdir"
    and m: "\<And>a. a \<notin> page x \<Longrightarrow> m a = mem s a"
  shows "vm_ok free sole (s\<lparr>mem := m\<rparr>) xs pgdir" and "pte_view m pgdir va = pte_view (mem s) pgdir va"
    and "pt_pages m pgdir = pt_pages (mem s) pgdir"
proof -
  have pt: "m a = mem s a" if "p \<in> pt_pages (mem s) pgdir" "a \<in> page p" for p a
    using m [of a] that x page_disjoint [OF conjunct1 [OF vm_ok_aligned [OF ok that(1)]] x(1) _ that(2)] by auto
  have fr: "m a = mem s a" if "y \<in> set xs" "a \<in> page y" for y a
    using m [of a] that x page_disjoint [OF free_aligned [OF vm_okD(1) [OF ok] that(1)] x(1) _ that(2)] by auto
  note dir = pt [OF pt_pages_simps(1)]
  show "vm_ok free sole (s\<lparr>mem := m\<rparr>) xs pgdir" by (rule vm_ok_frame [OF ok dir fr])
  show "pte_view m pgdir va = pte_view (mem s) pgdir va" by (rule pte_view_frame) (rule pt)
  show "pt_pages m pgdir = pt_pages (mem s) pgdir" by (rule pt_pages_frame) (rule dir)
qed

end

section \<open>The write fault\<close>











section \<open>Properties\<close>








end
