(* ===== verification/Lazy.thy ===== *)
theory Lazy
  imports Process Cow_Vm
begin

text \<open>
  Lazy allocation (\<open>Lab-Memory Management in xv6/Activity B/xv6-public-master\<close>): what that kernel
  adds to the base kernel. \<open>mmap\<close> grows a process without allocating pages: the entries of the new
  pages are marked with a bit the hardware ignores, and the page-fault case of \<open>trap\<close> allocates a
  page on the first access. \<open>copyuvm\<close> hands the mark on to the child. \<open>numvp\<close> and \<open>numpp\<close> count the
  pages of the process and those of them that are present. A \<open>struct proc*\<close> is an index of the
  process table; the allocator is the base kernel's. System call arguments are fetched as in
  \<open>Syscall\<close>, so that they have to lie in pages that are present. Below, the memory that the kernel
  itself works in is read and written by address and not through the page table, which is right
  as long as the mappings from \<open>KERNBASE\<close> on are left alone; \<open>mmap\<close> is followed that far and no
  further.
\<close>

abbreviation PTE_LAZY :: u32 where "PTE_LAZY \<equiv> 0x800"

section \<open>Page-table entries of lazy pages\<close>

definition present_or_not :: "nat \<Rightarrow> u32 \<Rightarrow> 'z ptable_st_scheme \<Rightarrow> bool res" where
  "present_or_not p va s =
     bnd (walkpgdir kalloc (pgdir (procs s ! p)) va False s) (\<lambda>(pte, s).
     bnd (deref pte s) (\<lambda>e. Ok (e AND PTE_P \<noteq> 0)))"

text \<open>
  From \<open>KERNBASE\<close> on the entry is one of the kernel's own mappings: without its present bit and with
  the table loaded again, the kernel has lost a page it runs in or works with. The model ends
  there, with \<open>Block\<close>.
\<close>

definition make_mmap_pte :: "nat \<Rightarrow> u32 \<Rightarrow> 'z ptable_st_scheme \<Rightarrow> 'z ptable_st_scheme res" where
  "make_mmap_pte p va s =
     bnd (walkpgdir kalloc (pgdir (procs s ! p)) va True s) (\<lambda>(pte, s).
     bnd (deref pte s) (\<lambda>e.
       let s = st pte (e AND NOT PTE_P) s;
           s = st pte (ld pte s OR PTE_LAZY) s
       in if KERNBASE \<le> va then Block else switchuvm (Some p) s))"

definition check_if_lazy_or_not :: "nat \<Rightarrow> u32 \<Rightarrow> 'z ptable_st_scheme \<Rightarrow> (bool \<times> 'z ptable_st_scheme) res" where
  "check_if_lazy_or_not p addr s =
     bnd (walkpgdir kalloc (pgdir (procs s ! p)) addr False s) (\<lambda>(pte, s).
       if pte = 0 then Ok (False, s) else Ok (ld pte s AND PTE_LAZY \<noteq> 0, s))"

definition remove_lazy_bit :: "nat \<Rightarrow> u32 \<Rightarrow> 'z ptable_st_scheme \<Rightarrow> 'z ptable_st_scheme res" where
  "remove_lazy_bit p addr s =
     bnd (walkpgdir kalloc (pgdir (procs s ! p)) addr False s) (\<lambda>(pte, s).
     bnd (deref pte s) (\<lambda>e. Ok (st pte (e AND NOT PTE_LAZY) s)))"

primrec lazy_copyuvm_loop ::
  "nat \<Rightarrow> u32 \<Rightarrow> u32 \<Rightarrow> u32 \<Rightarrow> u32 \<Rightarrow> 'z kmem_st_scheme \<Rightarrow> (u32 \<times> 'z kmem_st_scheme) res" where
  "lazy_copyuvm_loop 0 pd d i sz s = Block"
| "lazy_copyuvm_loop (Suc k) pd d i sz s =
     (if \<not> i < sz then Ok (d, s)
      else bnd (walkpgdir kalloc pd i False s) (\<lambda>(pte, s).
        if pte = 0 then Panic ''copyuvm: pte should exist''
        else if ld pte s AND PTE_LAZY = 0 then
          if ld pte s AND PTE_P = 0 then Panic ''copyuvm: page not present''
          else
            let pa = PTE_ADDR (ld pte s); flags = PTE_FLAGS (ld pte s) in
            bnd (kalloc s) (\<lambda>(p, s).
              if p = 0 then bnd (freevm kalloc kfree d s) (\<lambda>s. Ok (0, s))
              else
                let s = s\<lparr>mem := memmove p (P2V pa) PGSIZE (mem s)\<rparr> in
                bnd (mappages kalloc d i PGSIZE (V2P p) flags s) (\<lambda>(r, s).
                  if r < 0 then bnd (kfree p s) (\<lambda>s. bnd (freevm kalloc kfree d s) (\<lambda>s. Ok (0, s)))
                  else lazy_copyuvm_loop k pd d (i + PGSIZE) sz s))
        else
          bnd (walkpgdir kalloc d i True s) (\<lambda>(child_pte, s).
          bnd (deref child_pte s) (\<lambda>e.
            let s = st child_pte (e AND NOT PTE_P) s;
                s = st child_pte (ld child_pte s OR PTE_LAZY) s
            in lazy_copyuvm_loop k pd d (i + PGSIZE) sz s))))"

definition lazy_copyuvm :: "u32 \<Rightarrow> u32 \<Rightarrow> 'z kmem_st_scheme \<Rightarrow> (u32 \<times> 'z kmem_st_scheme) res" where
  "lazy_copyuvm pd sz s =
     bnd (setupkvm kalloc kfree s) (\<lambda>(d, s).
       if d = 0 then Ok (0, s) else lazy_copyuvm_loop (2 ^ 20) pd d 0 sz s)"

section \<open>System calls\<close>

definition get_count_of_virtual_pages_of_current_process :: "'z ptable_st_scheme \<Rightarrow> int res" where
  "get_count_of_virtual_pages_of_current_process s = bnd (curproc s) (\<lambda>p. Ok (sint (psz (procs s ! p) div PGSIZE)))"

text \<open>
  The address of the counting loop takes at most \<open>2^20\<close> values before it wraps around; for a
  size above \<open>2^32 - 4096\<close> it would run forever.
\<close>

primrec count_present :: "nat \<Rightarrow> nat \<Rightarrow> u32 \<Rightarrow> 'z ptable_st_scheme \<Rightarrow> int res" where
  "count_present 0 p addr s = Block"
| "count_present (Suc k) p addr s =
     (if \<not> addr < psz (procs s ! p) then Ok 0
      else bnd (present_or_not p addr s) (\<lambda>b.
           bnd (count_present k p (addr + PGSIZE) s) (\<lambda>n. Ok (if b then n + 1 else n))))"

definition get_count_of_physical_pages_of_current_process :: "'z ptable_st_scheme \<Rightarrow> int res" where
  "get_count_of_physical_pages_of_current_process s = bnd (curproc s) (\<lambda>p. count_present (2 ^ 20 + 1) p 0 s)"

definition sys_numvp :: "'z ptable_st_scheme \<Rightarrow> (int \<times> 'z ptable_st_scheme) res" where
  "sys_numvp s = bnd (get_count_of_virtual_pages_of_current_process s) (\<lambda>n. Ok (n, s))"

definition sys_numpp :: "'z ptable_st_scheme \<Rightarrow> (int \<times> 'z ptable_st_scheme) res" where
  "sys_numpp s = bnd (get_count_of_physical_pages_of_current_process s) (\<lambda>n. Ok (n, s))"

primrec mmap_loop :: "nat \<Rightarrow> nat \<Rightarrow> u32 \<Rightarrow> 'z ptable_st_scheme \<Rightarrow> 'z ptable_st_scheme res" where
  "mmap_loop 0 p va s = Block"
| "mmap_loop (Suc k) p va s =
     (if \<not> va < psz (procs s ! p) then Ok s
      else bnd (make_mmap_pte p va s) (mmap_loop k p (va + PGSIZE)))"

definition sys_mmap :: "'z ptable_st_scheme \<Rightarrow> (int \<times> 'z ptable_st_scheme) res" where
  "sys_mmap s =
     arg_bnd (argint 0 s) (Ok (0, s)) (\<lambda>n.
       if sint n < 0 \<or> sint n mod 4096 \<noteq> 0 then Ok (0, s)
       else bnd (curproc s) (\<lambda>p.
         let addr = psz (procs s ! p);
             s = upd_proc p (\<lambda>q. q\<lparr>psz := psz q + n\<rparr>) s
         in bnd (mmap_loop (2 ^ 20 + 1) p addr s) (\<lambda>s. Ok (sint addr, s))))"

section \<open>Page faults\<close>

text \<open>
  The page-fault case at the head of \<open>trap\<close>, for the running process \<open>p\<close> and the faulting
  address \<open>addr\<close>: true when \<open>trap\<close> returns at once, false when it goes on with the process
  marked killed. The result of \<open>allocuvm\<close> is not looked at.
\<close>

definition lazy_pgflt :: "nat \<Rightarrow> u32 \<Rightarrow> 'z ptable_st_scheme \<Rightarrow> (bool \<times> 'z ptable_st_scheme) res" where
  "lazy_pgflt p addr s =
     bnd (check_if_lazy_or_not p addr s) (\<lambda>(lz, s).
       if lz then
         bnd (allocuvm kalloc kfree (pgdir (procs s ! p)) (PGROUNDDOWN addr) (PGROUNDDOWN addr + PGSIZE) s) (\<lambda>(_, s).
         bnd (remove_lazy_bit p addr s) (\<lambda>s.
         bnd (switchuvm (Some p) s) (\<lambda>s. Ok (True, s))))
       else Ok (False, upd_proc p (\<lambda>q. q\<lparr>killed := True\<rparr>) s))"

section \<open>Entries of a page table that is there\<close>

text \<open>Rewriting the entry of an address whose page table exists.\<close>

definition pte_at :: "memory \<Rightarrow> u32 \<Rightarrow> u32 \<Rightarrow> u32" where
  "pte_at m pd va = tab m pd (PDX va) + 4 * PTX va"

definition set_pte :: "u32 \<Rightarrow> u32 \<Rightarrow> u32 \<Rightarrow> 'z kmem_st_scheme \<Rightarrow> 'z kmem_st_scheme" where
  "set_pte pd va v s = st (pte_at (mem s) pd va) v s"

lemma set_pte:
  assumes ok: "vm_ok kmem_inv good_page s xs pd" and pr: "present (mem s) pd (PDX va)"
  shows "vm_ok kmem_inv good_page (set_pte pd va v s) xs pd"
    and "pte_view (mem (set_pte pd va v s)) pd va' = (if PGROUNDDOWN va' = PGROUNDDOWN va then v else pte_view (mem s) pd va')"
    and "pt_pages (mem (set_pte pd va v s)) pd = pt_pages (mem s) pd"
    and "i < 1024 \<Longrightarrow> present (mem (set_pte pd va v s)) pd i = present (mem s) pd i"
    and "pte_at (mem (set_pte pd va v s)) pd va' = pte_at (mem s) pd va'"
    and "pte_at (mem s) pd va \<noteq> 0" and "ld (pte_at (mem s) pd va) s = pte_view (mem s) pd va"
    and "\<And>p. aligned p \<Longrightarrow> p \<notin> pt_pages (mem s) pd \<Longrightarrow> a \<in> page p \<Longrightarrow> mem (set_pte pd va v s) a = mem s a"
proof -
  let ?t = "tab (mem s) pd (PDX va)"
  note S = base.store_entry [OF ok pr, where v = v, folded pte_at_def, folded set_pte_def]
  have t: "?t \<in> pt_pages (mem s) pd" using pt_pages_simps(2) [OF PDX_lt pr] .
  have al: "aligned ?t" "aligned pd" "KERNBASE \<le> ?t" using base.vm_ok_aligned [OF ok] t pt_pages_simps(1) by blast+
  show "vm_ok kmem_inv good_page (set_pte pd va v s) xs pd" by (rule S(1))
  show "pte_view (mem (set_pte pd va v s)) pd va' = (if PGROUNDDOWN va' = PGROUNDDOWN va then v else pte_view (mem s) pd va')" by (rule S(2))
  show "pt_pages (mem (set_pte pd va v s)) pd = pt_pages (mem s) pd" by (rule S(3))
  have dir: "mem (set_pte pd va v s) a = mem s a" if "a \<in> page pd" for a
    using S(4) page_disjoint [OF al(2,1) vm_okD(4) [OF ok PDX_lt pr, symmetric] that] by blast
  show "i < 1024 \<Longrightarrow> present (mem (set_pte pd va v s)) pd i = present (mem s) pd i" by (rule pt_frame(1) [OF dir])
  show "pte_at (mem (set_pte pd va v s)) pd va' = pte_at (mem s) pd va'" using pt_frame(2) [OF dir PDX_lt] by (simp add: pte_at_def)
  show "pte_at (mem s) pd va \<noteq> 0" unfolding pte_at_def by (rule base.pt_page_no_null [OF al(1,3) PTX_lt])
  show "ld (pte_at (mem s) pd va) s = pte_view (mem s) pd va" using pr by (simp add: ld_def pte_view_def pte_at_def)
  show "mem (set_pte pd va v s) a = mem s a" if "aligned p" "p \<notin> pt_pages (mem s) pd" "a \<in> page p" for p
    using S(4) page_disjoint [OF that(1) al(1) _ that(3)] that(2) t by metis
qed

lemma walk_at: "present (mem s) pd (PDX va) \<Longrightarrow> walkpgdir ka pd va al s = Ok (pte_at (mem s) pd va, s)"
  using walk_present [of s pd va ka al] by (simp add: pte_at_def)

lemma set_pte_again:
  assumes "vm_ok kmem_inv good_page s xs pd" "present (mem s) pd (PDX va)"
  shows "st (pte_at (mem s) pd va) w (set_pte pd va v s) = set_pte pd va w (set_pte pd va v s)"
  using set_pte(5) [OF assms] by (simp add: set_pte_def)

lemma map_one:
  assumes ok: "vm_ok kmem_inv good_page s xs pd" and pr: "present (mem s) pd (PDX a)" and a: "aligned a" and e: "pte_view (mem s) pd a AND PTE_P = 0"
  shows "mappages kalloc pd a PGSIZE pa pm s = Ok (0, set_pte pd a (pa OR pm OR PTE_P) s)"
proof -
  have l: "PGROUNDDOWN (a + PGSIZE - 1) = a" using page_round [OF a, of "a + PGSIZE - 1"] by (simp add: page_def)
  obtain k where k: "(2 ^ 20 :: nat) = Suc k" by (metis not0_implies_Suc power_not_zero zero_neq_numeral)
  note S = set_pte [OF ok pr]
  show ?thesis unfolding mappages_def l k using a walk_at [OF pr] S(6,7) e by (simp add: set_pte_def Let_def)
qed

lemma set_pte_simps [simp]:
  "freelist (set_pte pd va v s) = freelist s" "kmem_ready (set_pte pd va v s) = kmem_ready s"
  "procs (set_pte pd va v t) = procs t" "cpu_ok (set_pte pd va v s) = cpu_ok s" "good_page (set_pte pd va v s) = good_page s"
  by (auto simp: set_pte_def st_def cpu_ok_def cur_def fun_eq_iff)

lemma pow20: "\<exists>k. (2 ^ 20 :: nat) = Suc (Suc k)"
  by (rule exI [of _ "2 ^ 20 - 2"]) simp

lemma page_below:
  assumes "PGROUNDDOWN va < KERNBASE - PGSIZE"
  shows "\<not> KERNBASE \<le> PGROUNDDOWN va + PGSIZE" "\<not> PGROUNDDOWN va + PGSIZE < PGROUNDDOWN va" "PGROUNDDOWN va < PGROUNDDOWN va + PGSIZE"
    "PGROUNDUP (PGROUNDDOWN va) = PGROUNDDOWN va"
proof -
  let ?a = "PGROUNDDOWN va"
  have u: "unat ?a < 0x7FFFF000" using assms by (simp add: word_less_nat_alt)
  then have s: "unat (?a + PGSIZE) = unat ?a + 4096" by (simp add: unat_word_ariths)
  show "\<not> KERNBASE \<le> ?a + PGSIZE" "\<not> ?a + PGSIZE < ?a" "?a < ?a + PGSIZE" using u s by (simp_all add: word_less_nat_alt word_le_nat_alt)
  show "PGROUNDUP ?a = ?a" using u by (intro PGROUNDUP_aligned) simp_all
qed

lemma round_below: "PGROUNDDOWN va < KERNBASE - PGSIZE \<longleftrightarrow> va < KERNBASE - PGSIZE" "va < KERNBASE \<Longrightarrow> PGROUNDDOWN va < KERNBASE"
proof -
  have u: "unat (PGROUNDDOWN va) = 4096 * (unat va div 4096)" by (simp add: unat_PGROUNDDOWN minus_mod_eq_mult_div)
  show "PGROUNDDOWN va < KERNBASE - PGSIZE \<longleftrightarrow> va < KERNBASE - PGSIZE" unfolding word_less_nat_alt u by (simp, linarith)
  have "unat (PGROUNDDOWN va) \<le> unat va" unfolding u by simp
  then show "va < KERNBASE \<Longrightarrow> PGROUNDDOWN va < KERNBASE" unfolding word_less_nat_alt by (rule le_less_trans)
qed

lemma pte_at_round: "pte_at m pd (PGROUNDDOWN va) = pte_at m pd va" "PDX (PGROUNDDOWN va) = PDX va"
  using same_slot [of "PGROUNDDOWN va" va] by (simp_all add: pte_at_def)

text \<open>The page that the fault handler adds at \<open>a\<close>.\<close>

definition add_page :: "u32 \<Rightarrow> u32 \<Rightarrow> u32 \<Rightarrow> 'z kmem_st_scheme \<Rightarrow> 'z kmem_st_scheme" where
  "add_page pd a x s = set_pte pd a (V2P x OR (PTE_W OR PTE_U) OR PTE_P)
     (s\<lparr>freelist := rd32 (mem s) x, mem := memset x 0 PGSIZE (mem s)\<rparr>)"

lemma add_page:
  assumes ok: "vm_ok kmem_inv good_page s (x # ys) pd" and pr: "present (mem s) pd (PDX a)" and a: "aligned a"
    and e: "pte_view (mem s) pd a AND PTE_P = 0" and b: "\<not> KERNBASE \<le> a + PGSIZE" "a < a + PGSIZE" "PGROUNDUP a = a"
  shows "allocuvm kalloc kfree pd a (a + PGSIZE) s = Ok (a + PGSIZE, add_page pd a x s)"
    and "vm_ok kmem_inv good_page (add_page pd a x s) ys pd"
    and "pte_view (mem (add_page pd a x s)) pd va = (if PGROUNDDOWN va = a then V2P x OR (PTE_W OR PTE_U) OR PTE_P else pte_view (mem s) pd va)"
    and "present (mem (add_page pd a x s)) pd (PDX a)"
    and "c \<in> page x \<Longrightarrow> mem (add_page pd a x s) c = 0"
    and "pt_pages (mem (add_page pd a x s)) pd = pt_pages (mem s) pd"
proof -
  let ?s1 = "s\<lparr>freelist := rd32 (mem s) x\<rparr>"
  let ?s2 = "?s1\<lparr>mem := memset x 0 PGSIZE (mem s)\<rparr>"
  let ?v = "V2P x OR (PTE_W OR PTE_U) OR PTE_P"
  have k: "kalloc s = Ok (x, ?s1)" using kmem_inv_kalloc(2) [OF vm_okD(1) [OF ok]] by blast
  have ok1: "vm_ok kmem_inv good_page ?s1 ys pd" using base.vm_ok_alloc [OF ok] k by auto
  have x: "aligned x" "KERNBASE \<le> x" "x \<notin> set ys" "x \<notin> pt_pages (mem s) pd"
    using base.free_page [OF vm_okD(1) [OF ok], of x] base.free_distinct [OF vm_okD(1) [OF ok]] vm_okD(3) [OF ok, of x] by auto
  note F = base.vm_ok_fill [OF ok1 x(1,3), of "memset x 0 PGSIZE (mem s)"]
  have m: "memset x 0 PGSIZE (mem s) c = mem (s\<lparr>freelist := rd32 (mem s) x\<rparr>) c" if "c \<notin> page x" for c
    using that by (simp add: memset_apply page_def)
  have ok2: "vm_ok kmem_inv good_page ?s2 ys pd" using F(1) x(4) m by simp
  have view2: "pte_view (mem ?s2) pd va = pte_view (mem s) pd va" for va using F(2) x(4) m by simp
  have pages2: "pt_pages (mem ?s2) pd = pt_pages (mem s) pd" using F(3) x(4) m by simp
  have pr2: "present (mem ?s2) pd (PDX a)"
    using pt_frame(1) [of pd "mem ?s2" "mem s", OF _ PDX_lt] pr m page_disjoint [OF _ x(1)] base.vm_ok_aligned [OF ok pt_pages_simps(1)]
      x(4) pt_pages_simps(1) by (simp add: memset_apply page_def) (metis (no_types, lifting) page_def mem_Collect_eq)
  have mp: "mappages kalloc pd a PGSIZE (V2P x) (PTE_W OR PTE_U) ?s2 = Ok (0, add_page pd a x s)"
    using map_one [OF ok2 pr2 a] view2 e by (simp add: add_page_def)
  obtain n where n: "(2 ^ 20 :: nat) = Suc (Suc n)" using pow20 by blast
  show "allocuvm kalloc kfree pd a (a + PGSIZE) s = Ok (a + PGSIZE, add_page pd a x s)"
    using b mp k base.page_nonzero [OF x(2)] unfolding allocuvm_def n by (simp add: Let_def)
  show "vm_ok kmem_inv good_page (add_page pd a x s) ys pd" unfolding add_page_def using set_pte(1) [OF ok2 pr2] by simp
  show "pte_view (mem (add_page pd a x s)) pd va = (if PGROUNDDOWN va = a then ?v else pte_view (mem s) pd va)"
    unfolding add_page_def using set_pte(2) [OF ok2 pr2] view2 a by simp
  show "present (mem (add_page pd a x s)) pd (PDX a)"
    unfolding add_page_def using set_pte(4) [OF ok2 pr2 PDX_lt] pr2 by simp
  show "c \<in> page x \<Longrightarrow> mem (add_page pd a x s) c = 0"
    unfolding add_page_def using set_pte(8) [OF ok2 pr2 x(1)] x(4) pages2 by (simp add: memset_apply page_def)
  show "pt_pages (mem (add_page pd a x s)) pd = pt_pages (mem s) pd"
    unfolding add_page_def using set_pte(3) [OF ok2 pr2] pages2 by simp
qed

lemma clear_bit: "(\<And>n. n < LENGTH(32) \<Longrightarrow> bit l n \<longleftrightarrow> n = k) \<Longrightarrow> \<not> bit e k \<Longrightarrow> e AND NOT l = e" for e l :: u32
  by (rule bit_word_eqI) (auto simp: bit_simps)

lemma new_page_entry:
  assumes "aligned x" "KERNBASE \<le> x"
  shows "(V2P x OR (PTE_W OR PTE_U) OR PTE_P) AND NOT PTE_LAZY = V2P x OR (PTE_W OR PTE_U) OR PTE_P"
proof (rule clear_bit)
  fix n :: nat assume n: "n < LENGTH(32)"
  have e: "PTE_LAZY = push_bit 11 1" by simp
  show "bit PTE_LAZY n \<longleftrightarrow> n = 11" using n unfolding e by (simp only: bit_push_bit_iff bit_1_iff) auto
next
  have "V2P x AND mask 12 = 0" using aligned_V2P [OF assms] by (simp add: aligned_unat word_unat_eq_iff unat_mask12)
  then have "\<not> bit (V2P x AND mask 12) 11" by simp
  then show "\<not> bit (V2P x OR (PTE_W OR PTE_U) OR PTE_P) 11" by (simp add: bit_simps)
qed

lemma no_lazy: "(e AND NOT PTE_LAZY) AND PTE_LAZY = 0" for e :: u32
  by (simp add: and.assoc)

lemma check_lazy:
  "vm_ok kmem_inv good_page s xs (pgdir (procs s ! p)) \<Longrightarrow>
   check_if_lazy_or_not p va s = Ok (pte_view (mem s) (pgdir (procs s ! p)) va AND PTE_LAZY \<noteq> 0, s)"
proof (cases "present (mem s) (pgdir (procs s ! p)) (PDX va)")
  case True
  then show "vm_ok kmem_inv good_page s xs (pgdir (procs s ! p)) \<Longrightarrow> ?thesis"
    using set_pte(6,7) [of s xs "pgdir (procs s ! p)" va] by (simp add: check_if_lazy_or_not_def walk_at)
next
  case False
  then show ?thesis by (simp add: check_if_lazy_or_not_def walk_lookup pte_view_def)
qed

lemma remove_lazy:
  "present (mem s) (pgdir (procs s ! p)) (PDX va) \<Longrightarrow> vm_ok kmem_inv good_page s xs (pgdir (procs s ! p)) \<Longrightarrow>
   remove_lazy_bit p va s = Ok (set_pte (pgdir (procs s ! p)) va (pte_view (mem s) (pgdir (procs s ! p)) va AND NOT PTE_LAZY) s)"
  using set_pte(6,7) [of s xs "pgdir (procs s ! p)" va] by (simp add: remove_lazy_bit_def walk_at deref_def set_pte_def)

lemma add_page_simps [simp]:
  "procs (add_page pd a x t) = procs t" "cpu_ok (add_page pd a x s) = cpu_ok s"
proof -
  have "cpu_ok (s\<lparr>freelist := f, mem := m\<rparr>) = cpu_ok s" for f m by (simp add: cpu_ok_def cur_def)
  then show "procs (add_page pd a x t) = procs t" "cpu_ok (add_page pd a x s) = cpu_ok s" by (simp_all add: add_page_def)
qed

lemma vm_ok_switch:
  assumes "vm_ok kmem_inv good_page t xs pd"
  shows "vm_ok kmem_inv good_page (t\<lparr>ts_esp0 := k, cr3 := c\<rparr>) xs pd"
proof -
  let ?t = "t\<lparr>ts_esp0 := k, cr3 := c\<rparr>"
  have "cpu_ok ?t = cpu_ok t" "lock_free Kmem_lock ?t = lock_free Kmem_lock t" "good_page ?t = good_page t"
    by (simp_all add: cpu_ok_def cur_def lock_free_def good_page_def bad_page_def fun_eq_iff)
  then show ?thesis using assms by (simp add: vm_ok_def kmem_inv_def kmem_ready_def)
qed

text \<open>The end of the handler: the lazy bit goes and the page table is loaded again.\<close>

lemma lazy_finish:
  assumes "vm_ok kmem_inv good_page s xs (pgdir (procs s ! p))" "present (mem s) (pgdir (procs s ! p)) (PDX va)"
    "cpu_ok s" "kstack (procs s ! p) \<noteq> 0" "pgdir (procs s ! p) \<noteq> 0"
  shows "\<exists>t. bnd (remove_lazy_bit p va s) (\<lambda>s. bnd (switchuvm (Some p) s) (\<lambda>s. Ok (True, s))) = Ok (True, t)
    \<and> vm_ok kmem_inv good_page t xs (pgdir (procs s ! p)) \<and> procs t = procs s \<and> cr3 t = V2P (pgdir (procs s ! p))
    \<and> (\<forall>va'. pte_view (mem t) (pgdir (procs s ! p)) va' =
         (if PGROUNDDOWN va' = PGROUNDDOWN va then pte_view (mem s) (pgdir (procs s ! p)) va AND NOT PTE_LAZY
          else pte_view (mem s) (pgdir (procs s ! p)) va'))
    \<and> (\<forall>q a. aligned q \<longrightarrow> q \<notin> pt_pages (mem s) (pgdir (procs s ! p)) \<longrightarrow> a \<in> page q \<longrightarrow> mem t a = mem s a)
    \<and> present (mem t) (pgdir (procs s ! p)) (PDX va)"
proof -
  let ?pd = "pgdir (procs s ! p)"
  let ?u = "set_pte ?pd va (pte_view (mem s) ?pd va AND NOT PTE_LAZY) s"
  note S = set_pte [OF assms(1,2)]
  have sw: "switchuvm (Some p) ?u = Ok (?u\<lparr>ts_esp0 := kstack (procs s ! p) + KSTACKSIZE, cr3 := V2P ?pd\<rparr>)"
    using switchuvm_ok [of ?u p] assms(3-5) by simp
  show ?thesis
    using remove_lazy [OF assms(2,1)] sw vm_ok_switch [OF S(1)] S(2,8) S(4) [OF PDX_lt] assms(2)
    by (intro exI [of _ "?u\<lparr>ts_esp0 := kstack (procs s ! p) + KSTACKSIZE, cr3 := V2P ?pd\<rparr>"]) simp
qed

lemma no_page_left:
  assumes ok: "vm_ok kmem_inv good_page s [] pd" and pr: "present (mem s) pd (PDX a)" and e: "pte_view (mem s) pd a AND PTE_P = 0"
    and b: "\<not> KERNBASE \<le> a + PGSIZE" "a < a + PGSIZE" "PGROUNDUP a = a"
  shows "allocuvm kalloc kfree pd a (a + PGSIZE) s = Ok (0, s)"
proof -
  obtain n where n: "(2 ^ 20 :: nat) = Suc (Suc n)" using pow20 by blast
  have k: "kalloc s = Ok (0, s)" using kmem_inv_kalloc(1) [OF vm_okD(1) [OF ok]] .
  have "deallocuvm kalloc kfree pd (a + PGSIZE) a s = Ok (a, s)"
    using b walk_at [OF pr] set_pte(6,7) [OF ok pr] e unfolding deallocuvm_def n by (simp add: not_le)
  moreover have "\<not> a + PGSIZE < a" using b(2) by simp
  ultimately show ?thesis using b k unfolding allocuvm_def n by simp
qed

text \<open>In the last page below \<open>KERNBASE\<close> and above, \<open>allocuvm\<close> refuses.\<close>

lemma no_room:
  assumes "\<not> a < KERNBASE - PGSIZE" "a < KERNBASE" "aligned a"
  shows "allocuvm ka kf pd a (a + PGSIZE) s = Ok (0, s)"
proof -
  have "unat a < 2 ^ 31" "0x7FFFF000 \<le> unat a" using assms(1,2) by (simp_all add: word_less_nat_alt not_less)
  then have "unat (a + PGSIZE) = unat a + 4096" by (simp add: unat_word_ariths)
  then have "KERNBASE \<le> a + PGSIZE" using \<open>0x7FFFF000 \<le> unat a\<close> by (simp add: word_le_nat_alt)
  then show ?thesis by (simp add: allocuvm_def)
qed

lemma lazy_fault_empty:
  fixes s :: "'z ptable_st_scheme"
  assumes ok: "vm_ok kmem_inv good_page s xs pd" and pd: "pd = pgdir (procs s ! p)" "pd \<noteq> 0"
    and pr: "present (mem s) pd (PDX va)"
    and e: "pte_view (mem s) pd va AND PTE_LAZY \<noteq> 0" and cpu: "cpu_ok s" "kstack (procs s ! p) \<noteq> 0"
    and A: "allocuvm kalloc kfree pd (PGROUNDDOWN va) (PGROUNDDOWN va + PGSIZE) s = Ok (0, s)"
  shows "\<exists>t. lazy_pgflt p va s = Ok (True, t) \<and> procs t = procs s \<and> cr3 t = V2P pd \<and> vm_ok kmem_inv good_page t xs pd
    \<and> (\<forall>va'. PGROUNDDOWN va' \<noteq> PGROUNDDOWN va \<longrightarrow> pte_view (mem t) pd va' = pte_view (mem s) pd va')
    \<and> pte_view (mem t) pd va = pte_view (mem s) pd va AND NOT PTE_LAZY
    \<and> lazy_pgflt p va t = Ok (False, upd_proc p (\<lambda>q. q\<lparr>killed := True\<rparr>) t)"
proof -
  let ?a = "PGROUNDDOWN va"
  have C: "check_if_lazy_or_not p va s = Ok (True, s)" using check_lazy [of s xs p va] ok pd e by simp
  obtain t where t: "bnd (remove_lazy_bit p va s) (\<lambda>s. bnd (switchuvm (Some p) s) (\<lambda>s. Ok (True, s))) = Ok (True, t)"
      "vm_ok kmem_inv good_page t xs pd" "procs t = procs s" "cr3 t = V2P pd"
      "\<forall>va'. pte_view (mem t) pd va' = (if PGROUNDDOWN va' = ?a then pte_view (mem s) pd va AND NOT PTE_LAZY else pte_view (mem s) pd va')"
    using lazy_finish [of s xs p va, folded pd(1), OF ok pr cpu pd(2)] by - (elim exE conjE, rule that, assumption+)
  have "lazy_pgflt p va t = Ok (False, upd_proc p (\<lambda>q. q\<lparr>killed := True\<rparr>) t)"
    using check_lazy [of t xs p va] t(2,3,5) pd no_lazy by (simp add: lazy_pgflt_def)
  moreover have "lazy_pgflt p va s = Ok (True, t)" using C A t(1) pd(1) by (simp add: lazy_pgflt_def)
  ultimately show ?thesis using t(2-5) by auto
qed

lemma lazy_fault_page:
  fixes s :: "'z ptable_st_scheme"
  assumes ok: "vm_ok kmem_inv good_page s (x # ys) pd" and pd: "pd = pgdir (procs s ! p)" "pd \<noteq> 0"
    and pr: "present (mem s) pd (PDX va)"
    and e: "pte_view (mem s) pd va AND PTE_P = 0" "pte_view (mem s) pd va AND PTE_LAZY \<noteq> 0"
    and cpu: "cpu_ok s" "kstack (procs s ! p) \<noteq> 0" and b: "PGROUNDDOWN va < KERNBASE - PGSIZE"
  shows "\<exists>t. lazy_pgflt p va s = Ok (True, t) \<and> procs t = procs s \<and> cr3 t = V2P pd \<and> vm_ok kmem_inv good_page t ys pd
    \<and> (\<forall>va'. PGROUNDDOWN va' \<noteq> PGROUNDDOWN va \<longrightarrow> pte_view (mem t) pd va' = pte_view (mem s) pd va')
    \<and> pte_view (mem t) pd va = V2P x OR PTE_W OR PTE_U OR PTE_P \<and> (\<forall>a \<in> page x. mem t a = 0)"
proof -
  let ?a = "PGROUNDDOWN va"
  let ?u = "add_page pd ?a x s"
  note B = page_below [OF b] and P = add_page [of s x ys pd ?a, OF _ _ aligned_PGROUNDDOWN(1)]
  have r: "PDX ?a = PDX va" "pte_view m pd ?a = pte_view m pd va" for m using same_slot [of ?a va] by (simp_all add: pte_view_def)
  have C: "check_if_lazy_or_not p va s = Ok (True, s)" using check_lazy [of s "x # ys" p va] ok pd e(2) by simp
  have x: "aligned x" "KERNBASE \<le> x" "x \<notin> pt_pages (mem s) pd"
    using base.free_page [OF vm_okD(1) [OF ok], of x] vm_okD(3) [OF ok, of x] by auto
  have A: "allocuvm kalloc kfree pd ?a (?a + PGSIZE) s = Ok (?a + PGSIZE, ?u)" "vm_ok kmem_inv good_page ?u ys pd"
    "present (mem ?u) pd (PDX va)" "pt_pages (mem ?u) pd = pt_pages (mem s) pd"
    using P(1,2,4,6) ok pr e(1) r B by simp_all
  have V: "pte_view (mem ?u) pd va' = (if PGROUNDDOWN va' = ?a then V2P x OR (PTE_W OR PTE_U) OR PTE_P else pte_view (mem s) pd va')" for va'
    using P(3) ok pr e(1) r B by simp
  have Z: "mem ?u c = 0" if "c \<in> page x" for c using P(5) ok pr e(1) r B that by simp
  have pu: "pd = pgdir (procs ?u ! p)" "cpu_ok ?u" "kstack (procs ?u ! p) \<noteq> 0" using pd(1) cpu by simp_all
  obtain t where t: "bnd (remove_lazy_bit p va ?u) (\<lambda>s. bnd (switchuvm (Some p) s) (\<lambda>s. Ok (True, s))) = Ok (True, t)"
      "vm_ok kmem_inv good_page t ys pd" "procs t = procs ?u" "cr3 t = V2P pd"
      "\<forall>va'. pte_view (mem t) pd va' = (if PGROUNDDOWN va' = ?a then pte_view (mem ?u) pd va AND NOT PTE_LAZY else pte_view (mem ?u) pd va')"
      "\<forall>q a. aligned q \<longrightarrow> q \<notin> pt_pages (mem ?u) pd \<longrightarrow> a \<in> page q \<longrightarrow> mem t a = mem ?u a"
    using lazy_finish [of ?u ys p va, folded pu(1), OF A(2,3) pu(2,3) pd(2)] by - (elim exE conjE, rule that, assumption+)
  have "lazy_pgflt p va s = Ok (True, t)" using C A(1) t(1) pd(1) by (simp add: lazy_pgflt_def)
  moreover have "pte_view (mem t) pd va = V2P x OR PTE_W OR PTE_U OR PTE_P"
    using t(5) V [of va] new_page_entry [OF x(1,2)] by (simp add: or.assoc)
  moreover have "mem t c = 0" if "c \<in> page x" for c using t(6) x(1) that x(3) A(4) Z [OF that] by simp
  ultimately show ?thesis using t(2-5) V by auto
qed

text \<open>
  C14. The page-fault handler of the lazily allocating kernel, for a fault of the process \<open>p\<close> at
  any address. If the page is not marked lazy, because it was never reserved, has no page
  table, or is present and was accessed in a way its entry forbids, the process is marked
  killed and nothing else changes. If it is marked lazy and a free page is left, the handler
  returns to the process with the faulting page mapped to that free page, filled with zeros,
  writable for the user and no longer lazy, every other page of the process mapped as
  before, and the page table loaded. If there is no free page, and in the last page below
  \<open>KERNBASE\<close>, for which \<open>allocuvm\<close> refuses, the handler only clears the lazy bit and returns, and
  the fault that follows kills the process.
\<close>

theorem lazy_fault_maps_page:
  fixes s :: "'z ptable_st_scheme"
  assumes ok: "vm_ok kmem_inv good_page s xs pd" and pd: "pd = pgdir (procs s ! p)" "pd \<noteq> 0"
    and cpu: "cpu_ok s" "kstack (procs s ! p) \<noteq> 0"
  shows "if pte_view (mem s) pd va AND PTE_LAZY = 0 then lazy_pgflt p va s = Ok (False, upd_proc p (\<lambda>q. q\<lparr>killed := True\<rparr>) s)
    else pte_view (mem s) pd va AND PTE_P = 0 \<and> va < KERNBASE \<longrightarrow>
     (\<exists>t. lazy_pgflt p va s = Ok (True, t) \<and> procs t = procs s \<and> cr3 t = V2P pd
      \<and> (\<forall>va'. PGROUNDDOWN va' \<noteq> PGROUNDDOWN va \<longrightarrow> pte_view (mem t) pd va' = pte_view (mem s) pd va')
      \<and> (if xs \<noteq> [] \<and> va < KERNBASE - PGSIZE
         then vm_ok kmem_inv good_page t (tl xs) pd \<and> pte_view (mem t) pd va = V2P (hd xs) OR PTE_W OR PTE_U OR PTE_P
           \<and> (\<forall>a \<in> page (hd xs). mem t a = 0)
         else vm_ok kmem_inv good_page t xs pd \<and> pte_view (mem t) pd va = pte_view (mem s) pd va AND NOT PTE_LAZY
           \<and> lazy_pgflt p va t = Ok (False, upd_proc p (\<lambda>q. q\<lparr>killed := True\<rparr>) t)))"
proof (cases "pte_view (mem s) pd va AND PTE_LAZY = 0")
  case True
  then show ?thesis using check_lazy [of s xs p va] ok pd by (simp add: lazy_pgflt_def)
next
  case False
  let ?a = "PGROUNDDOWN va"
  have pr: "present (mem s) pd (PDX va)" using False by (auto simp: pte_view_def split: if_splits)
  have a: "aligned ?a" "?a < KERNBASE - PGSIZE \<longleftrightarrow> va < KERNBASE - PGSIZE" "va < KERNBASE \<Longrightarrow> ?a < KERNBASE"
    using round_below [of va] by (simp_all add: aligned_PGROUNDDOWN)
  show ?thesis
  proof (cases "xs \<noteq> [] \<and> va < KERNBASE - PGSIZE")
    case True
    then obtain x ys where x: "xs = x # ys" by (cases xs) auto
    show ?thesis using lazy_fault_page [OF ok [unfolded x] pd pr _ False cpu] True False a(2) x by (simp add: conj_ac)
  next
    case no: False
    have "allocuvm kalloc kfree pd ?a (?a + PGSIZE) s = Ok (0, s)" if e: "pte_view (mem s) pd va AND PTE_P = 0" "va < KERNBASE"
    proof (cases "va < KERNBASE - PGSIZE")
      case True
      then have "xs = []" using no by simp
      moreover have "PDX ?a = PDX va" "pte_view (mem s) pd ?a = pte_view (mem s) pd va"
        using same_slot [of ?a va] a(1) by (simp_all add: pte_view_def)
      ultimately show ?thesis using no_page_left [of s pd ?a] ok pr e(1) page_below [of va] True a(2) by simp
    next
      case False
      then show ?thesis using no_room a e(2) by blast
    qed
    then show ?thesis using lazy_fault_empty [OF ok pd pr False cpu] no False by auto
  qed
qed

text \<open>Allocation on the way to an entry touches the free list and memory only.\<close>

lemma walk_state:
  assumes "kmem_ready s" "walkpgdir kalloc pd va al s = Ok (q, t)"
  shows "\<exists>f m. t = s\<lparr>freelist := f, mem := m\<rparr>"
proof -
  have "s = s\<lparr>freelist := freelist s, mem := mem s\<rparr>" "s\<lparr>freelist := g\<rparr> = s\<lparr>freelist := g, mem := mem s\<rparr>" for g by simp_all
  then have "\<exists>f m. s = s\<lparr>freelist := f, mem := m\<rparr>" "\<exists>f m. s\<lparr>freelist := g\<rparr> = s\<lparr>freelist := f, mem := m\<rparr>" for g by metis+
  then show ?thesis using assms by (auto simp: walkpgdir_def kalloc_eq st_def Let_def split: if_splits)
qed

lemma upd_fm [simp]:
  "procs (s'\<lparr>freelist := f, mem := m\<rparr>) = procs s'" "cpu_ok (s\<lparr>freelist := f, mem := m\<rparr>) = cpu_ok s"
  by (simp_all add: cpu_ok_def cur_def)

definition lazy_entry :: "u32 \<Rightarrow> u32" where
  "lazy_entry e = (e AND NOT PTE_P) OR PTE_LAZY"

lemma lazy_entry_twice: "lazy_entry (lazy_entry e) = lazy_entry e"
  unfolding lazy_entry_def by (rule bit_word_eqI) (auto simp: bit_simps)

lemma lazy_entry_bits: "lazy_entry e AND PTE_P = 0" "lazy_entry e AND PTE_LAZY \<noteq> 0"
proof -
  show "lazy_entry e AND PTE_P = 0" unfolding lazy_entry_def by (rule bit_word_eqI) (auto simp: bit_simps)
  have b: "bit PTE_LAZY 11"
  proof -
    have e: "PTE_LAZY = push_bit 11 1" by simp
    show ?thesis unfolding e by (simp only: bit_push_bit_iff bit_1_iff) auto
  qed
  then have "bit (lazy_entry e AND PTE_LAZY) 11" unfolding lazy_entry_def by (simp only: bit_and_iff bit_or_iff) simp
  then show "lazy_entry e AND PTE_LAZY \<noteq> 0" by (metis bit_0_eq bot_apply bot_bool_def)
qed

lemma walk_for_mmap:
  assumes ok: "vm_ok kmem_inv good_page s xs pd" and ne: "present (mem s) pd (PDX va) \<or> xs \<noteq> []"
  shows "\<exists>u ys. walkpgdir kalloc pd va True s = Ok (pte_at (mem u) pd va, u) \<and> vm_ok kmem_inv good_page u ys pd
    \<and> length xs = length ys + (if present (mem s) pd (PDX va) then 0 else 1)
    \<and> (\<forall>va'. pte_view (mem u) pd va' = pte_view (mem s) pd va')
    \<and> (\<forall>i < 1024. present (mem u) pd i \<longleftrightarrow> i = PDX va \<or> present (mem s) pd i)"
proof (cases "present (mem s) pd (PDX va)")
  case True
  then show ?thesis using walk_at [OF True, of kalloc True] ok by (intro exI [of _ s] exI [of _ xs]) auto
next
  case False
  then obtain x zs where x: "xs = x # zs" using ne by (cases xs) auto
  obtain w where w: "walkpgdir kalloc pd va True s = Ok (x + 4 * PTX va, w)" "vm_ok kmem_inv good_page w zs pd" "tab (mem w) pd (PDX va) = x"
    "\<forall>va'. pte_view (mem w) pd va' = pte_view (mem s) pd va'"
    "\<forall>i < 1024. present (mem w) pd i = (i = PDX va \<or> present (mem s) pd i)"
    using base.walk_new_table [OF ok [unfolded x] False] by - (elim exE conjE, rule that, assumption+)
  have "x + 4 * PTX va = pte_at (mem w) pd va" using w(3) by (simp add: pte_at_def)
  then show ?thesis using w False x by (intro exI [of _ w] exI [of _ zs]) simp
qed

lemma make_mmap:
  fixes s :: "'z ptable_st_scheme"
  assumes ok: "vm_ok kmem_inv good_page s xs pd" and pd: "pd = pgdir (procs s ! p)" "pd \<noteq> 0"
    and ne: "present (mem s) pd (PDX va) \<or> xs \<noteq> []" and cpu: "cpu_ok s" "kstack (procs s ! p) \<noteq> 0" and va: "va < KERNBASE"
  shows "\<exists>t ys. make_mmap_pte p va s = Ok t \<and> vm_ok kmem_inv good_page t ys pd
    \<and> length xs = length ys + (if present (mem s) pd (PDX va) then 0 else 1)
    \<and> (\<forall>va'. pte_view (mem t) pd va' = (if PGROUNDDOWN va' = PGROUNDDOWN va then lazy_entry (pte_view (mem s) pd va) else pte_view (mem s) pd va'))
    \<and> (\<forall>i < 1024. present (mem t) pd i \<longleftrightarrow> i = PDX va \<or> present (mem s) pd i)
    \<and> procs t = procs s \<and> cpu_ok t \<and> cproc t = cproc s \<and> cur t = cur s"
proof -
  obtain u ys where u: "walkpgdir kalloc pd va True s = Ok (pte_at (mem u) pd va, u)" "vm_ok kmem_inv good_page u ys pd"
    "length xs = length ys + (if present (mem s) pd (PDX va) then 0 else 1)" "\<forall>va'. pte_view (mem u) pd va' = pte_view (mem s) pd va'"
    "\<forall>i < 1024. present (mem u) pd i \<longleftrightarrow> i = PDX va \<or> present (mem s) pd i"
    using walk_for_mmap [OF ok ne] by - (elim exE conjE, rule that, assumption+)
  have pru: "present (mem u) pd (PDX va)" using u(5) PDX_lt by blast
  obtain f m where um: "u = s\<lparr>freelist := f, mem := m\<rparr>"
    using walk_state [OF _ u(1)] vm_okD(1) [OF ok] by (auto simp: kmem_inv_def)
  have pu: "pd = pgdir (procs u ! p)" "cpu_ok u" "kstack (procs u ! p) \<noteq> 0" "procs u = procs s" "cproc u = cproc s" "cur u = cur s"
    using pd(1) cpu unfolding um by (simp_all add: cur_def)
  let ?e = "pte_view (mem u) pd va"
  let ?w = "set_pte pd va (?e AND NOT PTE_P) u"
  let ?v = "set_pte pd va (lazy_entry ?e) ?w"
  note S = set_pte [OF u(2) pru]
  have pw: "present (mem ?w) pd (PDX va)" using S(4) [OF PDX_lt] pru by simp
  note T = set_pte [OF S(1) pw]
  have l: "ld (pte_at (mem u) pd va) ?w = ?e AND NOT PTE_P" using T(7) S(2,5) by simp
  have sw: "switchuvm (Some p) ?v = Ok (?v\<lparr>ts_esp0 := kstack (procs s ! p) + KSTACKSIZE, cr3 := V2P pd\<rparr>)"
    using switchuvm_ok [of ?v p] pu pd(2) by simp
  have "make_mmap_pte p va s = Ok (?v\<lparr>ts_esp0 := kstack (procs s ! p) + KSTACKSIZE, cr3 := V2P pd\<rparr>)"
    using u(1) S(6,7) l sw pd(1) set_pte_again [OF u(2) pru] va
    by (simp add: make_mmap_pte_def deref_def Let_def lazy_entry_def not_le flip: set_pte_def)
  moreover have "vm_ok kmem_inv good_page (?v\<lparr>ts_esp0 := kstack (procs s ! p) + KSTACKSIZE, cr3 := V2P pd\<rparr>) ys pd"
    by (rule vm_ok_switch [OF T(1)])
  ultimately show ?thesis using u(3-5) T(2,4) S(2,4) pu(2,4-6)
    by (intro exI [of _ "?v\<lparr>ts_esp0 := kstack (procs s ! p) + KSTACKSIZE, cr3 := V2P pd\<rparr>"] exI [of _ ys])
       (simp add: set_pte_def st_def cpu_ok_def cur_def)
qed

text \<open>The page tables that \<open>k\<close> pages from \<open>va\<close> on lack.\<close>

definition new_tables :: "memory \<Rightarrow> u32 \<Rightarrow> u32 \<Rightarrow> nat \<Rightarrow> nat" where
  "new_tables m pd va k = card {i. i < 1024 \<and> \<not> present m pd i \<and> (\<exists>j < k. i = PDX (va + of_nat j * PGSIZE))}"

lemma new_tables_0 [simp]: "new_tables m pd va 0 = 0"
  by (simp add: new_tables_def)

lemma new_tables_pos:
  assumes "\<not> present m pd (PDX va)"
  shows "0 < new_tables m pd va (Suc k)"
proof -
  let ?A = "{i. i < 1024 \<and> \<not> present m pd i \<and> (\<exists>j < Suc k. i = PDX (va + of_nat j * PGSIZE))}"
  have "PDX va \<in> ?A" using assms PDX_lt [of va] by (simp add: Ex_less_Suc2)
  then have "?A \<noteq> {}" by blast
  then show ?thesis by (simp add: new_tables_def card_gt_0_iff)
qed

lemma new_tables_Suc:
  assumes "\<forall>i < 1024. present m' pd i \<longleftrightarrow> i = PDX va \<or> present m pd i"
  shows "new_tables m pd va (Suc k) = new_tables m' pd (va + PGSIZE) k + (if present m pd (PDX va) then 0 else 1)"
proof -
  let ?A = "{i. i < 1024 \<and> \<not> present m' pd i \<and> (\<exists>j < k. i = PDX (va + PGSIZE + of_nat j * PGSIZE))}"
  have "{i. i < 1024 \<and> \<not> present m pd i \<and> (\<exists>j < Suc k. i = PDX (va + of_nat j * PGSIZE))}
      = (if present m pd (PDX va) then ?A else insert (PDX va) ?A)"
    using assms PDX_lt [of va] by (auto simp: Ex_less_Suc2 algebra_simps)
  moreover have "PDX va \<notin> ?A" using assms PDX_lt [of va] by auto
  ultimately show ?thesis by (simp add: new_tables_def)
qed

text \<open>The state that \<open>mmap_loop\<close> keeps, and the pages it reaches.\<close>

definition same_cpu :: "'z ptable_st_scheme \<Rightarrow> 'z ptable_st_scheme \<Rightarrow> bool" where
  "same_cpu s t \<longleftrightarrow> procs t = procs s \<and> cpu_ok t \<and> cproc t = cproc s \<and> cur t = cur s"

definition on_pages :: "u32 \<Rightarrow> nat \<Rightarrow> u32 \<Rightarrow> bool" where
  "on_pages a k va \<longleftrightarrow> (\<exists>j < k. PGROUNDDOWN va = PGROUNDDOWN (a + of_nat j * PGSIZE))"

lemma on_pages_Suc: "on_pages a (Suc k) va \<longleftrightarrow> PGROUNDDOWN va = PGROUNDDOWN a \<or> on_pages (a + PGSIZE) k va"
  by (simp add: on_pages_def Ex_less_Suc2 algebra_simps)

lemma pte_view_slot: "PGROUNDDOWN va = PGROUNDDOWN va' \<Longrightarrow> pte_view m pd va = pte_view m pd va'"
  using same_slot [of va va'] by (simp add: pte_view_def)

lemma mmap_loop_ok:
  fixes s :: "'z ptable_st_scheme"
  assumes "vm_ok kmem_inv good_page s xs pd" "pd = pgdir (procs s ! p)" "pd \<noteq> 0" "new_tables (mem s) pd va k \<le> length xs"
    and "cpu_ok s" "kstack (procs s ! p) \<noteq> 0" "unat va + k * 4096 = unat (psz (procs s ! p))" "k < n" "unat (psz (procs s ! p)) \<le> 2 ^ 31"
  shows "\<exists>t ys. mmap_loop n p va s = Ok t \<and> vm_ok kmem_inv good_page t ys pd \<and> length xs = length ys + new_tables (mem s) pd va k
    \<and> (\<forall>va'. pte_view (mem t) pd va' = (if on_pages va k va' then lazy_entry (pte_view (mem s) pd va') else pte_view (mem s) pd va'))
    \<and> (\<forall>i < 1024. present (mem s) pd i \<longrightarrow> present (mem t) pd i)
    \<and> (\<forall>j < k. present (mem t) pd (PDX (va + of_nat j * PGSIZE))) \<and> same_cpu s t"
  using assms
proof (induction k arbitrary: n va s xs)
  case 0
  obtain n' where n': "n = Suc n'" using 0(8) by (cases n) auto
  then have "mmap_loop n p va s = Ok s" using 0 by (simp add: word_less_nat_alt)
  then show ?case using 0 by (intro exI [of _ s] exI [of _ xs]) (simp add: same_cpu_def on_pages_def)
next
  case (Suc k)
  obtain n' where n': "n = Suc n'" using Suc.prems(8) by (cases n) auto
  have lt: "va < psz (procs s ! p)" using Suc.prems(7) by (simp add: word_less_nat_alt)
  have v: "unat (va + PGSIZE) = unat va + 4096"
    using Suc.prems(7) unsigned_less [of "psz (procs s ! p)", where ?'a = nat] by (simp add: unat_word_ariths)
  have low: "va < KERNBASE" using Suc.prems(7,9) by (simp add: word_less_nat_alt)
  have ne: "present (mem s) pd (PDX va) \<or> xs \<noteq> []"
  proof (rule ccontr)
    assume n: "\<not> ?thesis"
    then have "0 < new_tables (mem s) pd va (Suc k)" by (intro new_tables_pos) simp
    then show False using n Suc.prems(4) by simp
  qed
  obtain u zs where u: "make_mmap_pte p va s = Ok u" "vm_ok kmem_inv good_page u zs pd"
    "length xs = length zs + (if present (mem s) pd (PDX va) then 0 else 1)"
    "\<forall>va'. pte_view (mem u) pd va' = (if PGROUNDDOWN va' = PGROUNDDOWN va then lazy_entry (pte_view (mem s) pd va) else pte_view (mem s) pd va')"
    "\<forall>i < 1024. present (mem u) pd i \<longleftrightarrow> i = PDX va \<or> present (mem s) pd i"
    "procs u = procs s" "cpu_ok u" "cproc u = cproc s" "cur u = cur s"
    using make_mmap [OF Suc.prems(1-3) ne Suc.prems(5,6) low] by - (elim exE conjE, rule that, assumption+)
  note N = new_tables_Suc [OF u(5), of k]
  have "\<exists>t ys. mmap_loop n' p (va + PGSIZE) u = Ok t \<and> vm_ok kmem_inv good_page t ys pd
    \<and> length zs = length ys + new_tables (mem u) pd (va + PGSIZE) k
    \<and> (\<forall>va'. pte_view (mem t) pd va' = (if on_pages (va + PGSIZE) k va' then lazy_entry (pte_view (mem u) pd va') else pte_view (mem u) pd va'))
    \<and> (\<forall>i < 1024. present (mem u) pd i \<longrightarrow> present (mem t) pd i)
    \<and> (\<forall>j < k. present (mem t) pd (PDX (va + PGSIZE + of_nat j * PGSIZE))) \<and> same_cpu u t"
    by (rule Suc.IH [OF u(2)]) (use Suc.prems u(3,6,7) v n' N in simp_all)
  then obtain t ys where t: "mmap_loop n' p (va + PGSIZE) u = Ok t" "vm_ok kmem_inv good_page t ys pd"
    "\<forall>va'. pte_view (mem t) pd va' = (if on_pages (va + PGSIZE) k va' then lazy_entry (pte_view (mem u) pd va') else pte_view (mem u) pd va')"
    "\<forall>i < 1024. present (mem u) pd i \<longrightarrow> present (mem t) pd i"
    "\<forall>j < k. present (mem t) pd (PDX (va + PGSIZE + of_nat j * PGSIZE))" "same_cpu u t"
    "length zs = length ys + new_tables (mem u) pd (va + PGSIZE) k"
    by - (elim exE conjE, rule that, assumption+)
  have pv: "present (mem u) pd (PDX va)" using u(5) PDX_lt by blast
  have V: "pte_view (mem t) pd va' = (if on_pages va (Suc k) va' then lazy_entry (pte_view (mem s) pd va') else pte_view (mem s) pd va')" for va'
    using t(3) u(4) pte_view_slot [of va' va "mem s" pd] lazy_entry_twice by (auto simp: on_pages_Suc)
  have P: "present (mem t) pd (PDX (va + of_nat j * PGSIZE))" if "j < Suc k" for j
    using that pv t(4,5) PDX_lt by (cases j) (auto simp: algebra_simps)
  have "mmap_loop n p va s = Ok t" using u(1) t(1) lt n' by simp
  moreover have "same_cpu s t" using t(6) u(6,8,9) by (simp add: same_cpu_def)
  ultimately show ?case using t(2,4,7) V P u(3,5) N by (intro exI [of _ t] exI [of _ ys]) simp
qed

text \<open>Counting the pages that are present.\<close>

definition resident :: "memory \<Rightarrow> u32 \<Rightarrow> nat \<Rightarrow> nat" where
  "resident m pd n = length (filter (\<lambda>i. pte_view m pd (of_nat i * PGSIZE) AND PTE_P \<noteq> 0) [0..<n])"

lemma present_or_not_eq:
  assumes "vm_ok kmem_inv good_page s xs pd" "pd = pgdir (procs s ! p)" "present (mem s) pd (PDX va)"
  shows "present_or_not p va s = Ok (pte_view (mem s) pd va AND PTE_P \<noteq> 0)"
  using walk_at [OF assms(3), of kalloc False] set_pte(6,7) [OF assms(1,3)] assms(2) by (simp add: present_or_not_def deref_def)

lemma count_present_eq:
  assumes ok: "vm_ok kmem_inv good_page s xs pd" and pd: "pd = pgdir (procs s ! p)"
    and sz: "unat (psz (procs s ! p)) = n * 4096" and pr: "\<And>j. j < n \<Longrightarrow> present (mem s) pd (PDX (of_nat j * PGSIZE))"
  shows "i \<le> n \<Longrightarrow> n - i < f \<Longrightarrow>
    count_present f p (of_nat i * PGSIZE) s = Ok (int (length (filter (\<lambda>i. pte_view (mem s) pd (of_nat i * PGSIZE) AND PTE_P \<noteq> 0) [i..<n])))"
proof (induction f arbitrary: i)
  case (Suc f)
  have b: "n * 4096 < 2 ^ 32" using sz unsigned_less [of "psz (procs s ! p)", where ?'a = nat] by simp
  have u: "unat (of_nat i * PGSIZE :: u32) = i * 4096"
  proof -
    have "(of_nat i * PGSIZE :: u32) = of_nat (i * 4096)" by simp
    also have "unat \<dots> = i * 4096" using b Suc.prems(1) by (subst unat_of_nat) (simp add: take_bit_eq_mod)
    finally show ?thesis .
  qed
  show ?case
  proof (cases "i < n")
    case True
    have "n - Suc i < f" using True Suc.prems(2) by simp
    then have "count_present f p (of_nat i * PGSIZE + PGSIZE) s =
        Ok (int (length (filter (\<lambda>i. pte_view (mem s) pd (of_nat i * PGSIZE) AND PTE_P \<noteq> 0) [Suc i..<n])))"
      using True Suc.IH [of "Suc i"] by (simp add: add.commute)
    then show ?thesis using True Suc.prems u sz present_or_not_eq [OF ok pd pr [OF True]]
      by (simp add: word_less_nat_alt upt_rec [of i n])
  next
    case False
    then show ?thesis using Suc.prems u sz by (simp add: word_less_nat_alt)
  qed
qed simp

lemma sint_nonneg: "0 \<le> sint w \<Longrightarrow> sint w = int (unat w)" for w :: u32
proof -
  assume "0 \<le> sint w"
  then have "take_bit 32 (sint w) = sint w" using sint_lt [of w] by (simp add: take_bit_int_eq_self)
  moreover have "take_bit 32 (sint w) = uint w" by (simp add: uint_sint)
  ultimately show ?thesis by simp
qed

lemma int_mod_4096: "int k mod 4096 = 0 \<Longrightarrow> k div 4096 * 4096 = k"
proof -
  assume "int k mod 4096 = 0"
  then have "int (k mod 4096) = 0" by (simp add: zmod_int)
  then show ?thesis using div_mult_mod_eq [of k 4096] by simp
qed

lemma vm_ok_upd_proc: "vm_ok kmem_inv good_page (upd_proc p f s) xs pd = vm_ok kmem_inv good_page s xs pd"
  by (simp add: vm_ok_def kmem_inv_def kmem_ready_def good_page_def bad_page_def upd_proc_def cpu_ok_def cur_def lock_free_def)

lemma resident_pages:
  assumes "vm_ok kmem_inv good_page s xs pd" "pd = pgdir (procs s ! p)" "unat (psz (procs s ! p)) = n * 4096"
    "\<And>j. j < n \<Longrightarrow> present (mem s) pd (PDX (of_nat j * PGSIZE))" "cpu_ok s" "cproc s (cur s) = Some p"
  shows "get_count_of_physical_pages_of_current_process s = Ok (int (resident (mem s) pd n))"
proof -
  have "n < 2 ^ 20 + 1" using assms(3) unsigned_less [of "psz (procs s ! p)", where ?'a = nat] by simp
  then show ?thesis using count_present_eq [OF assms(1-4), of 0 "2 ^ 20 + 1"] curproc_ok [OF assms(5,6)]
    unfolding get_count_of_physical_pages_of_current_process_def resident_def by (simp del: count_present.simps)
qed

lemma virtual_pages:
  assumes "cpu_ok s" "cproc s (cur s) = Some p"
  shows "get_count_of_virtual_pages_of_current_process s = Ok (int (unat (psz (procs s ! p)) div 4096))"
proof -
  have u: "unat (psz (procs s ! p) div PGSIZE) = unat (psz (procs s ! p)) div 4096" by (simp add: unat_div_distrib)
  have "unat (psz (procs s ! p)) < 2 ^ 32" using unsigned_less [of "psz (procs s ! p)", where ?'a = nat] by simp
  then have "sint (psz (procs s ! p) div PGSIZE) = int (unat (psz (procs s ! p) div PGSIZE))" using u by (intro sint_small) simp
  then show ?thesis using curproc_ok [OF assms] u unfolding get_count_of_virtual_pages_of_current_process_def by simp
qed


lemma mmap_counts:
  fixes s t :: "'z ptable_st_scheme"
  assumes ok: "vm_ok kmem_inv good_page s xs pd" and pd: "pd = pgdir (procs s ! p)" and cpu: "cpu_ok s" "cproc s (cur s) = Some p"
    and al: "unat z mod 4096 = 0 \<and> (\<forall>va < z. present (mem s) pd (PDX va))"
    and z: "z = psz (procs s ! p)" and zt: "unat (psz (procs t ! p)) = unat z + k * 4096"
    and t: "vm_ok kmem_inv good_page t ys pd"
      "\<forall>va. pte_view (mem t) pd va = (if on_pages z k va then lazy_entry (pte_view (mem s) pd va) else pte_view (mem s) pd va)"
      "\<forall>i < 1024. present (mem s) pd i \<longrightarrow> present (mem t) pd i" "\<forall>j < k. present (mem t) pd (PDX (z + of_nat j * PGSIZE))"
    and pt: "pgdir (procs t ! p) = pd" "cpu_ok t" "cproc t (cur t) = Some p"
  shows "get_count_of_virtual_pages_of_current_process t = Ok (int (unat z div 4096 + k))
      \<and> get_count_of_physical_pages_of_current_process t = get_count_of_physical_pages_of_current_process s"
proof
  define m where "m = unat z div 4096"
  have m: "unat z = m * 4096" using al by (auto simp: m_def)
  have b: "m * 4096 + k * 4096 < 2 ^ 32" using zt m unsigned_less [of "psz (procs t ! p)", where ?'a = nat] by simp
  have u: "unat (of_nat j * PGSIZE :: u32) = j * 4096" if "j < m + k" for j
  proof -
    have "(of_nat j * PGSIZE :: u32) = of_nat (j * 4096)" by simp
    also have "unat \<dots> = j * 4096" using b that by (subst unat_of_nat) (simp add: take_bit_eq_mod)
    finally show ?thesis .
  qed
  have zw: "z = of_nat m * PGSIZE" 
  proof -
    have "z = of_nat (unat z)" by simp
    then show ?thesis unfolding m by simp
  qed
  have pj: "present (mem s) pd (PDX (of_nat j * PGSIZE))" if "j < m" for j
    using al u [of j] that m by (simp add: word_less_nat_alt)
  have qj: "present (mem t) pd (PDX (of_nat j * PGSIZE))" if "j < m + k" for j
  proof (cases "j < m")
    case True
    then show ?thesis using pj t(3) by simp
  next
    case False
    then have "j - m < k" using that by simp
    then have "present (mem t) pd (PDX (z + of_nat (j - m) * PGSIZE))" using t(4) by blast
    moreover have "z + of_nat (j - m) * PGSIZE = of_nat j * PGSIZE" using False by (simp add: zw of_nat_diff algebra_simps)
    ultimately show ?thesis by simp
  qed
  have op: "on_pages z k (of_nat j * PGSIZE) \<longleftrightarrow> \<not> j < m" if "j < m + k" for j
  proof -
    have rd: "PGROUNDDOWN (of_nat i * PGSIZE) = of_nat i * PGSIZE" if "i < m + k" for i
      using u [OF that] by (intro PGROUNDDOWN_aligned) (simp add: aligned_unat)
    have e: "z + of_nat i * PGSIZE = of_nat (m + i) * PGSIZE" for i by (simp add: zw algebra_simps)
    have "on_pages z k (of_nat j * PGSIZE) \<longleftrightarrow> (\<exists>i < k. (of_nat j * PGSIZE :: u32) = of_nat (m + i) * PGSIZE)"
      using rd that by (auto simp: on_pages_def e simp del: of_nat_add)
    also have "\<dots> \<longleftrightarrow> (\<exists>i < k. j = m + i)"
      using u that by (intro ex_cong1 conj_cong refl) (metis mult_cancel2 nat_add_left_cancel_less zero_neq_numeral)
    also have "\<dots> \<longleftrightarrow> \<not> j < m" using that by (auto intro: exI [of _ "j - m"])
    finally show ?thesis .
  qed
  have same: "resident (mem t) pd (m + k) = resident (mem s) pd m"
  proof -
    have "filter (\<lambda>i. pte_view (mem t) pd (of_nat i * PGSIZE) AND PTE_P \<noteq> 0) [m..<m + k] = []"
      using op t(2) lazy_entry_bits(1) by (auto simp: filter_empty_conv)
    moreover have "filter (\<lambda>i. pte_view (mem t) pd (of_nat i * PGSIZE) AND PTE_P \<noteq> 0) [0..<m]
        = filter (\<lambda>i. pte_view (mem s) pd (of_nat i * PGSIZE) AND PTE_P \<noteq> 0) [0..<m]"
      using op t(2) by (intro filter_cong) auto
    ultimately show ?thesis unfolding resident_def upt_add_eq_append [OF le0] by simp
  qed
  show "get_count_of_virtual_pages_of_current_process t = Ok (int (unat z div 4096 + k))"
    using virtual_pages [OF pt(2,3)] zt m by simp
  have "get_count_of_physical_pages_of_current_process t = Ok (int (resident (mem t) pd (m + k)))"
    by (rule resident_pages [OF t(1) _ _ qj pt(2,3)]) (use pt(1) zt m in simp_all)
  moreover have "get_count_of_physical_pages_of_current_process s = Ok (int (resident (mem s) pd m))"
    by (rule resident_pages [OF ok pd _ pj cpu]) (use z m in simp_all)
  ultimately show "get_count_of_physical_pages_of_current_process t = get_count_of_physical_pages_of_current_process s"
    using same by simp
qed

text \<open>
  C15. \<open>mmap\<close> of the lazily allocating kernel. A size that is negative or not a multiple of the page
  size gives 0 and changes nothing. Otherwise, when the new end of the process stays within
  the addresses below \<open>KERNBASE\<close> and there is a free page for every page table that the new pages
  lack, the call takes only these pages from the allocator and returns the old size, the
  process is larger by the size asked for, and the entries of the new pages are marked lazy and
  not present, with all other entries as before. For a process whose size is
  a multiple of the page size, the number of virtual pages grows by the pages asked for and
  the number of physical pages stays what it was.
\<close>

theorem mmap_reserves_pages:
  fixes s :: "'z ptable_st_scheme"
  assumes ok: "vm_ok kmem_inv good_page s xs pd" and pd: "pd = pgdir (procs s ! p)" "pd \<noteq> 0"
    and cpu: "cpu_ok s" "cproc s (cur s) = Some p" "kstack (procs s ! p) \<noteq> 0" "p < length (procs s)"
    and arg: "argint 0 s = Ok (Some n)" and z: "z = psz (procs s ! p)"
  shows "(sint n < 0 \<or> sint n mod 4096 \<noteq> 0 \<longrightarrow> sys_mmap s = Ok (0, s))
    \<and> (0 \<le> sint n \<and> sint n mod 4096 = 0 \<and> unat z + unat n \<le> 2 ^ 31 \<and> new_tables (mem s) pd z (unat n div 4096) \<le> length xs \<longrightarrow>
        (\<exists>t ys. sys_mmap s = Ok (sint z, t) \<and> procs t = (procs s)[p := (procs s ! p)\<lparr>psz := z + n\<rparr>]
          \<and> vm_ok kmem_inv good_page t ys pd \<and> length xs = length ys + new_tables (mem s) pd z (unat n div 4096)
          \<and> (\<forall>va. pte_view (mem t) pd va =
               (if \<exists>k < unat n div 4096. PGROUNDDOWN va = PGROUNDDOWN (z + of_nat k * PGSIZE)
                then (pte_view (mem s) pd va AND NOT PTE_P) OR PTE_LAZY else pte_view (mem s) pd va))
          \<and> (unat z mod 4096 = 0 \<and> (\<forall>va < z. present (mem s) pd (PDX va)) \<longrightarrow>
               get_count_of_virtual_pages_of_current_process t = Ok (int (unat z div 4096 + unat n div 4096))
             \<and> get_count_of_physical_pages_of_current_process t = get_count_of_physical_pages_of_current_process s)))"
proof (intro conjI impI)
  have c: "curproc s = Ok p" by (rule curproc_ok [OF cpu(1,2)])
  show "sint n < 0 \<or> sint n mod 4096 \<noteq> 0 \<Longrightarrow> sys_mmap s = Ok (0, s)" using arg by (simp add: sys_mmap_def)
  assume a: "0 \<le> sint n \<and> sint n mod 4096 = 0 \<and> unat z + unat n \<le> 2 ^ 31 \<and> new_tables (mem s) pd z (unat n div 4096) \<le> length xs"
  let ?k = "unat n div 4096"
  let ?s = "upd_proc p (\<lambda>q. q\<lparr>psz := psz q + n\<rparr>) s"
  have k: "?k * 4096 = unat n" using a sint_nonneg [of n] int_mod_4096 [of "unat n"] by metis
  have zn: "unat (z + n) = unat z + unat n" using a by (simp add: unat_word_ariths)
  have ps: "procs ?s = (procs s)[p := (procs s ! p)\<lparr>psz := z + n\<rparr>]" "procs ?s ! p = (procs s ! p)\<lparr>psz := z + n\<rparr>"
    using cpu(4) z by (simp_all add: upd_proc_def)
  have "\<exists>t ys. mmap_loop (2 ^ 20 + 1) p z ?s = Ok t \<and> vm_ok kmem_inv good_page t ys pd \<and> length xs = length ys + new_tables (mem ?s) pd z ?k
    \<and> (\<forall>va'. pte_view (mem t) pd va' = (if on_pages z ?k va' then lazy_entry (pte_view (mem ?s) pd va') else pte_view (mem ?s) pd va'))
    \<and> (\<forall>i < 1024. present (mem ?s) pd i \<longrightarrow> present (mem t) pd i)
    \<and> (\<forall>j < ?k. present (mem t) pd (PDX (z + of_nat j * PGSIZE))) \<and> same_cpu ?s t"
    by (rule mmap_loop_ok [of ?s xs]) (use ok pd cpu a ps zn k in \<open>simp_all add: vm_ok_upd_proc\<close>)
  then obtain t ys where t: "mmap_loop (2 ^ 20 + 1) p z ?s = Ok t" "vm_ok kmem_inv good_page t ys pd"
    "\<forall>va'. pte_view (mem t) pd va' = (if on_pages z ?k va' then lazy_entry (pte_view (mem ?s) pd va') else pte_view (mem ?s) pd va')"
    "\<forall>i < 1024. present (mem ?s) pd i \<longrightarrow> present (mem t) pd i"
    "\<forall>j < ?k. present (mem t) pd (PDX (z + of_nat j * PGSIZE))" "same_cpu ?s t"
    "length xs = length ys + new_tables (mem ?s) pd z ?k"
    by - (elim exE conjE, rule that, assumption+)
  have r: "sys_mmap s = Ok (sint z, t)"
    using arg a c t(1) z unfolding sys_mmap_def by (simp del: mmap_loop.simps add: Let_def)
  have v: "\<forall>va. pte_view (mem t) pd va = (if \<exists>k < ?k. PGROUNDDOWN va = PGROUNDDOWN (z + of_nat k * PGSIZE)
                then (pte_view (mem s) pd va AND NOT PTE_P) OR PTE_LAZY else pte_view (mem s) pd va)"
    using t(3) unfolding on_pages_def lazy_entry_def upd_proc_simps .
  have counts: "get_count_of_virtual_pages_of_current_process t = Ok (int (unat z div 4096 + ?k))
      \<and> get_count_of_physical_pages_of_current_process t = get_count_of_physical_pages_of_current_process s"
    if "unat z mod 4096 = 0 \<and> (\<forall>va < z. present (mem s) pd (PDX va))"
    by (rule mmap_counts [OF ok pd(1) cpu(1,2) that _ _ t(2) t(3-5) [unfolded upd_proc_simps]]) (use t(6) ps k zn z pd(1) cpu(2) in \<open>simp_all add: same_cpu_def\<close>)
  show "\<exists>t ys. sys_mmap s = Ok (sint z, t) \<and> procs t = (procs s)[p := (procs s ! p)\<lparr>psz := z + n\<rparr>]
          \<and> vm_ok kmem_inv good_page t ys pd \<and> length xs = length ys + new_tables (mem s) pd z (unat n div 4096)
          \<and> (\<forall>va. pte_view (mem t) pd va =
               (if \<exists>k < ?k. PGROUNDDOWN va = PGROUNDDOWN (z + of_nat k * PGSIZE)
                then (pte_view (mem s) pd va AND NOT PTE_P) OR PTE_LAZY else pte_view (mem s) pd va))
          \<and> (unat z mod 4096 = 0 \<and> (\<forall>va < z. present (mem s) pd (PDX va)) \<longrightarrow>
               get_count_of_virtual_pages_of_current_process t = Ok (int (unat z div 4096 + ?k))
             \<and> get_count_of_physical_pages_of_current_process t = get_count_of_physical_pages_of_current_process s)"
    using r v counts t(2,6,7) ps(1) by (intro exI [of _ t] exI [of _ ys]) (simp add: same_cpu_def)
qed

text \<open>A process of two pages, the second of them lazy, with the size of 256 pages as the first word on its
  stack.\<close>

definition lazy_mem :: memory where
  "lazy_mem = wr32 (0x80200000 + 4 * 0) 0x201007 (wr32 (0x80201000 + 4 * 0) 0x202007
     (wr32 (0x80201000 + 4 * 1) PTE_LAZY (wr32 (0x80202000 + 4 * 1) 0x100000 (\<lambda>_. 0))))"

definition lazy0 :: ptable_st where
  "lazy0 = ptable0\<lparr>mem := lazy_mem, procs := [proc0\<lparr>psz := 8192, pgdir := 0x80200000, kstack := 0x80400000\<rparr>],
     cproc := (\<lambda>_. Some 0), cr3 := 0x200000\<rparr>"

lemma lazy_mem_rd:
  assumes "aligned q" "i < 1024"
  shows "rd32 lazy_mem (q + 4 * i) =
    (if q = 0x80200000 \<and> i = 0 then 0x201007 else if q = 0x80201000 \<and> i = 0 then 0x202007
     else if q = 0x80201000 \<and> i = 1 then PTE_LAZY else if q = 0x80202000 \<and> i = 1 then 0x100000 else 0)"
proof -
  have al: "aligned 0x80200000" "aligned 0x80201000" "aligned 0x80202000" by (simp_all add: aligned_def)
  have z: "rd32 (\<lambda>_. 0) a = 0" for a by (simp add: rd32_def)
  have lt: "(0 :: u32) < 1024" "(1 :: u32) < 1024" by simp_all
  show ?thesis
    by (simp only: lazy_mem_def z rd32_slot [OF assms(1) al(1) assms(2) lt(1)] rd32_slot [OF assms(1) al(2) assms(2) lt(1)]
        rd32_slot [OF assms(1) al(2) assms(2) lt(2)] rd32_slot [OF assms(1) al(3) assms(2) lt(2)])
qed

lemma lazy_mem_pt:
  "i < 1024 \<Longrightarrow> present lazy_mem 0x80200000 i = (i = 0)" "tab lazy_mem 0x80200000 0 = 0x80201000"
  "pt_pages lazy_mem 0x80200000 = {0x80200000, 0x80201000}" "PDX 4096 = 0" "PDX 4 = 0" "PTX 4096 = 1" "PTX 4 = 0"
  "pte_view lazy_mem 0x80200000 4096 = PTE_LAZY"
proof -
  have al: "aligned 0x80200000" "aligned 0x80201000" by (simp_all add: aligned_def)
  show p: "i < 1024 \<Longrightarrow> present lazy_mem 0x80200000 i = (i = 0)" for i by (simp add: present_def lazy_mem_rd [OF al(1)])
  show t: "tab lazy_mem 0x80200000 0 = 0x80201000"
    using lazy_mem_rd [OF al(1), of 0] by (simp add: tab_def PTE_ADDR_def P2V_def)
  have "{tab lazy_mem 0x80200000 i |i. i < 1024 \<and> present lazy_mem 0x80200000 i} = {0x80201000}"
    using p t by (auto intro: exI [of _ 0])
  then show "pt_pages lazy_mem 0x80200000 = {0x80200000, 0x80201000}" by (simp add: pt_pages_def)
  show d: "PDX 4096 = 0" "PDX 4 = 0" "PTX 4096 = 1" "PTX 4 = 0" by (simp_all add: PDX_def PTX_def)
  show "pte_view lazy_mem 0x80200000 4096 = PTE_LAZY"
    using p [of 0] t d lazy_mem_rd [OF al(2), of 1] by (simp add: pte_view_def)
qed

lemma lazy0_ok:
  "vm_ok kmem_inv good_page lazy0 [0x80300000] 0x80200000" "cpu_ok lazy0" "cproc lazy0 (cur lazy0) = Some 0"
  "mem lazy0 = lazy_mem" "procs lazy0 = [proc0\<lparr>psz := 8192, pgdir := 0x80200000, kstack := 0x80400000\<rparr>]"
proof -
  have al: "aligned 0x80300000" by (simp add: aligned_def)
  have m: "mem lazy0 = lazy_mem" by (simp add: lazy0_def)
  have rd: "rd32 lazy_mem 0x80300000 = 0" using lazy_mem_rd [OF al, of 0] by simp
  have "kmem_inv lazy0 [0x80300000]"
    using rd by (simp add: lazy0_def ptable0_def vm0_def kmem0_def kst0_def cpu_ok_def cur_def lock_free_def kmem_inv_def kmem_ready_def
      good_page_def bad_page_def V2P_def kst.defs kmem_st.defs ptable_st.defs)
  moreover have "good_page lazy0 0x80200000" "good_page lazy0 0x80201000"
    by (simp_all add: lazy0_def ptable0_def vm0_def kmem0_def kst0_def good_page_def bad_page_def V2P_def
        kst.defs kmem_st.defs ptable_st.defs)
  ultimately show "vm_ok kmem_inv good_page lazy0 [0x80300000] 0x80200000" using lazy_mem_pt m by (simp add: vm_ok_def)
  show "cpu_ok lazy0" using ptable0_simps(3) by (simp add: lazy0_def cpu_ok_def cur_def)
  show "cproc lazy0 (cur lazy0) = Some 0" "mem lazy0 = lazy_mem"
    "procs lazy0 = [proc0\<lparr>psz := 8192, pgdir := 0x80200000, kstack := 0x80400000\<rparr>]" by (simp_all add: lazy0_def)
qed

lemma PDX_low: "unat va < 2 ^ 22 \<Longrightarrow> PDX va = 0"
proof -
  assume "unat va < 2 ^ 22"
  then have "unat (drop_bit 22 va) = 0" by (simp add: drop_bit_eq_div unat_div_distrib)
  then have "drop_bit 22 va = 0" by (simp only: unat_eq_0)
  then show ?thesis by (simp add: PDX_def)
qed

theorem lazy_fault_maps_page_witness:
  "(\<exists>t. lazy_pgflt 0 4096 lazy0 = Ok (True, t) \<and> pte_view (mem t) 0x80200000 4096 = 0x300007 \<and> cr3 t = 0x200000)
    \<and> lazy_pgflt 0 0x400000 lazy0 = Ok (False, upd_proc 0 (\<lambda>q. q\<lparr>killed := True\<rparr>) lazy0)"
proof
  note T = lazy_fault_maps_page [OF lazy0_ok(1), of 0]
  show "\<exists>t. lazy_pgflt 0 4096 lazy0 = Ok (True, t) \<and> pte_view (mem t) 0x80200000 4096 = 0x300007 \<and> cr3 t = 0x200000"
    using T [of 4096] lazy0_ok(2,4,5) lazy_mem_pt(8) by (auto simp: V2P_def)
  have "PDX 0x400000 = 1" by (simp add: PDX_def)
  then have "pte_view lazy_mem 0x80200000 0x400000 = 0" using lazy_mem_pt(1) [of 1] by (simp add: pte_view_def)
  then show "lazy_pgflt 0 0x400000 lazy0 = Ok (False, upd_proc 0 (\<lambda>q. q\<lparr>killed := True\<rparr>) lazy0)"
    using T [of "0x400000"] lazy0_ok(2,4,5) by simp
qed

lemma lazy0_arg: "argint 0 lazy0 = Ok (Some 0x100000)"
proof -
  have c: "curproc lazy0 = Ok 0" using lazy0_ok(2,3) by simp
  have z: "rd32 lazy_mem 68 = 0"
    using lazy_mem_rd [of 0 17] by (simp add: aligned_def)
  have al: "aligned 0x80201000" "aligned 0x80202000" by (simp_all add: aligned_def)
  have v: "pte_view lazy_mem 0x80200000 va = 0x202007" if "PDX va = 0" "PTX va = 0" for va
    using that lazy_mem_pt(1) [of 0] lazy_mem_pt(2) lazy_mem_rd [OF al(1), of 0] by (simp add: pte_view_def)
  have cr: "P2V (cr3 lazy0) = 0x80200000" by (simp add: lazy0_def P2V_def)
  have x: "PDX 4 = 0" "PTX 4 = 0" "PDX 5 = 0" "PTX 5 = 0" "PDX 6 = 0" "PTX 6 = 0" "PDX 7 = 0" "PTX 7 = 0" by (simp_all add: PDX_def PTX_def)
  have l: "uload 4 lazy0 = Ok (lazy_mem 0x80202004)" "uload 5 lazy0 = Ok (lazy_mem 0x80202005)"
    "uload 6 lazy0 = Ok (lazy_mem 0x80202006)" "uload 7 lazy0 = Ok (lazy_mem 0x80202007)"
    using v x cr lazy0_ok(4) by (simp_all add: uload_def uaddr_def PTE_ADDR_def P2V_def)
  have "rd32 lazy_mem 0x80202004 = 0x100000" using lazy_mem_rd [OF al(2), of 1] by simp
  then have w: "word_of_bytes [lazy_mem 0x80202004, lazy_mem 0x80202005, lazy_mem 0x80202006, lazy_mem 0x80202007] = 0x100000"
    by (simp add: word_of_bytes_def get32_def rd32_def)
  have four: "(4 :: nat) = Suc (Suc (Suc (Suc 0)))" by simp
  have "uloads 4 4 lazy0 = Ok [lazy_mem 0x80202004, lazy_mem 0x80202005, lazy_mem 0x80202006, lazy_mem 0x80202007]"
    unfolding four using l by simp
  then show ?thesis using c z w lazy0_ok(4,5) by (simp add: argint_def fetchint_def ld_def proc0_def)
qed

text \<open>256 pages are reserved with one free page in the whole machine.\<close>

theorem mmap_reserves_pages_witness:
  "\<exists>t. sys_mmap lazy0 = Ok (8192, t) \<and> psz (procs t ! 0) = 0x102000 \<and> pte_view (mem t) 0x80200000 8192 AND PTE_LAZY \<noteq> 0
     \<and> (\<exists>x. vm_ok kmem_inv good_page t [x] 0x80200000) \<and> get_count_of_virtual_pages_of_current_process t = Ok 258"
proof -
  have pr: "present (mem lazy0) 0x80200000 (PDX va)" if "unat va < 2 ^ 22" for va
    using PDX_low [OF that] lazy_mem_pt(1) [of 0] lazy0_ok(4) by simp
  have n: "sint (0x100000 :: u32) = 0x100000" "sint (8192 :: u32) = 8192" using sint_small [of "0x100000"] sint_small [of 8192] by simp_all
  have h: "0x80200000 = pgdir (procs lazy0 ! 0)" "(0x80200000 :: u32) \<noteq> 0" "kstack (procs lazy0 ! 0) \<noteq> 0" "0 < length (procs lazy0)"
    "8192 = psz (procs lazy0 ! 0)" using lazy0_ok(5) by simp_all
  have "present (mem lazy0) 0x80200000 (PDX (8192 + of_nat j * PGSIZE))" if "j < 256" for j
  proof (rule pr)
    have "(8192 + of_nat j * PGSIZE :: u32) = of_nat (8192 + j * 4096)" by simp
    also have "unat \<dots> = 8192 + j * 4096" using that by (subst unat_of_nat) (simp add: take_bit_eq_mod)
    finally show "unat (8192 + of_nat j * PGSIZE :: u32) < 2 ^ 22" using that by simp
  qed
  then have N: "new_tables (mem lazy0) 0x80200000 8192 256 = 0" unfolding new_tables_def by (auto simp: card_eq_0_iff)
  have k: "unat (0x100000 :: u32) div 4096 = 256" "unat (8192 :: u32) div 4096 = 2" by simp_all
  have u: "0 \<le> sint (0x100000 :: u32) \<and> sint (0x100000 :: u32) mod 4096 = 0 \<and> unat (8192 :: u32) + unat (0x100000 :: u32) \<le> 2 ^ 31
      \<and> new_tables (mem lazy0) 0x80200000 8192 (unat (0x100000 :: u32) div 4096) \<le> length [0x80300000 :: u32]" unfolding k N using n by simp
  have a: "unat (8192 :: u32) mod 4096 = 0 \<and> (\<forall>va < 8192. present (mem lazy0) 0x80200000 (PDX va))"
    using pr by (auto simp: word_less_nat_alt)
  note T = mp [OF conjunct2 [OF mmap_reserves_pages [OF lazy0_ok(1) h(1,2) lazy0_ok(2,3) h(3,4) lazy0_arg h(5)]] u, unfolded k N]
  obtain t ys where t: "sys_mmap lazy0 = Ok (sint (8192 :: u32), t)" "procs t = (procs lazy0)[0 := (procs lazy0 ! 0)\<lparr>psz := 8192 + 0x100000\<rparr>]"
    "vm_ok kmem_inv good_page t ys 0x80200000" "length [0x80300000 :: u32] = length ys + 0"
    "\<forall>va. pte_view (mem t) 0x80200000 va =
               (if \<exists>k < 256. PGROUNDDOWN va = PGROUNDDOWN (8192 + of_nat k * PGSIZE)
                then (pte_view (mem lazy0) 0x80200000 va AND NOT PTE_P) OR PTE_LAZY else pte_view (mem lazy0) 0x80200000 va)"
    "unat (8192 :: u32) mod 4096 = 0 \<and> (\<forall>va < 8192. present (mem lazy0) 0x80200000 (PDX va)) \<longrightarrow>
       get_count_of_virtual_pages_of_current_process t = Ok (int (2 + 256))
     \<and> get_count_of_physical_pages_of_current_process t = get_count_of_physical_pages_of_current_process lazy0"
    using T by - (elim exE conjE, rule that, assumption+)
  have v: "get_count_of_virtual_pages_of_current_process t = Ok 258" using mp [OF t(6) a] by simp
  have "pte_view (mem t) 0x80200000 8192 = lazy_entry (pte_view (mem lazy0) 0x80200000 8192)"
    using t(5) by (simp add: lazy_entry_def) (metis (no_types, opaque_lifting) add.right_neutral mult_zero_left of_nat_0 zero_less_numeral)
  moreover obtain x where "ys = [x]" using t(4) by (cases ys) auto
  ultimately show ?thesis using t(1-3) v n lazy_entry_bits(2) lazy0_ok(5) by (intro exI [of _ t]) auto
qed

end
