(* ===== verification/Trap.thy ===== *)
theory Trap
  imports Process
begin

text \<open>
  System call dispatch (\<open>syscall\<close> of \<open>xv6-public-master/syscall.c\<close>) and trap handling
  (\<open>trap.c\<close>). The trap frame is in memory at address \<open>f\<close>. What the keyboard and serial
  drivers would read from their devices is the argument \<open>dev\<close>, \<open>cr2\<close> the faulting address.
  \<open>yield\<close> ends the path (\<open>Block\<close>); \<open>trap_back\<close> is what is left of \<open>trap\<close> when the thread runs again.
\<close>

section \<open>Dispatch\<close>

definition syscalls :: "int \<Rightarrow> ('z sys_st_scheme \<Rightarrow> (int \<times> 'z sys_st_scheme) res) option" where
  "syscalls num =
     (if num = 1 then Some sys_fork else if num = 2 then Some sys_exit else if num = 3 then Some sys_wait
      else if num = 4 then Some sys_pipe else if num = 5 then Some sys_read else if num = 6 then Some sys_kill
      else if num = 7 then Some sys_exec else if num = 8 then Some sys_fstat else if num = 9 then Some sys_chdir
      else if num = 10 then Some sys_dup else if num = 11 then Some sys_getpid else if num = 12 then Some sys_sbrk
      else if num = 13 then Some sys_sleep else if num = 14 then Some sys_uptime else if num = 15 then Some sys_open
      else if num = 16 then Some sys_write else if num = 17 then Some sys_mknod else if num = 18 then Some sys_unlink
      else if num = 19 then Some sys_link else if num = 20 then Some sys_mkdir else if num = 21 then Some sys_close
      else if num = 26 then Some sys_getpasize else None)"

definition nl :: string where "nl = [CHR 0x0A]"

definition str_arg :: "string \<Rightarrow> carg" where
  "str_arg x = Str_arg (Some (map of_char x))"

definition syscall :: "'z sys_st_scheme \<Rightarrow> 'z sys_st_scheme res" where
  "syscall s =
     bnd (curproc s) (\<lambda>p.
       let num = sint (ld (tf (procs s ! p) + tf_eax) s) in
       case (if num > 0 \<and> num < 27 then syscalls num else None) of
         Some h \<Rightarrow> bnd (h s) (\<lambda>(r, s). Ok (st (tf (procs s ! p) + tf_eax) (word_of_int r) s))
       | None \<Rightarrow>
           bnd (cprintf (map of_char (''%d %s: unknown sys call %d'' @ nl))
                  [Int_arg (pid (procs s ! p)), str_arg (pname (procs s ! p)), Int_arg num] s) (\<lambda>s.
             Ok (st (tf (procs s ! p) + tf_eax) (- 1) s)))"

section \<open>Traps\<close>

abbreviation tf_trapno :: u32 where "tf_trapno \<equiv> 48"
abbreviation tf_err :: u32 where "tf_err \<equiv> 52"
abbreviation tf_cs :: u32 where "tf_cs \<equiv> 60"

definition user_mode :: "u32 \<Rightarrow> 'z kmem_st_scheme \<Rightarrow> bool" where
  "user_mode f s \<longleftrightarrow> mem s (f + tf_cs) AND 3 = 3"

definition kernel_mode :: "u32 \<Rightarrow> 'z kmem_st_scheme \<Rightarrow> bool" where
  "kernel_mode f s \<longleftrightarrow> mem s (f + tf_cs) AND 3 = 0"

definition is_killed :: "'z ptable_st_scheme \<Rightarrow> bool res" where
  "is_killed s = bnd (curproc s) (\<lambda>p. Ok (killed (procs s ! p)))"

text \<open>\<open>if(myproc() && myproc()->killed && (tf->cs&3) == DPL_USER) exit();\<close>\<close>

definition exit_if_killed :: "u32 \<Rightarrow> 'z sys_st_scheme \<Rightarrow> 'z sys_st_scheme res" where
  "exit_if_killed f s =
     bnd (myproc s) (\<lambda>(po, s).
       case po of None \<Rightarrow> Ok s
       | Some p \<Rightarrow> if killed (procs s ! p) \<and> user_mode f s then exit s else Ok s)"

definition timer_tick :: "'z sys_st_scheme \<Rightarrow> 'z sys_st_scheme res" where
  "timer_tick s =
     bnd (cpuid s) (\<lambda>c.
       if c = 0 then
         bnd (acquire Ticks_lock s) (\<lambda>s.
         bnd (wakeup Ticks_chan (s\<lparr>ticks := ticks s + 1\<rparr>)) (release Ticks_lock))
       else Ok s)"

definition bad_trap :: "u32 \<Rightarrow> u32 \<Rightarrow> 'z sys_st_scheme \<Rightarrow> 'z sys_st_scheme res" where
  "bad_trap f cr2 s =
     bnd (myproc s) (\<lambda>(po, s).
     bnd (cpuid s) (\<lambda>c.
       case (if kernel_mode f s then None else po) of
         None \<Rightarrow>
           bnd (cprintf (map of_char (''unexpected trap %d from cpu %d eip %x (cr2=0x%x)'' @ nl))
                  [Int_arg (sint (ld (f + tf_trapno) s)), Int_arg (int c), Int_arg (sint (ld (f + tf_eip) s)), Int_arg (sint cr2)] s)
             (\<lambda>_. Panic ''trap'')
       | Some p \<Rightarrow>
           bnd (cprintf (map of_char (''pid %d %s: trap %d err %d on cpu %d eip 0x%x addr 0x%x--kill proc'' @ nl))
                  [Int_arg (pid (procs s ! p)), str_arg (pname (procs s ! p)), Int_arg (sint (ld (f + tf_trapno) s)),
                   Int_arg (sint (ld (f + tf_err) s)), Int_arg (int c), Int_arg (sint (ld (f + tf_eip) s)), Int_arg (sint cr2)] s)
             (\<lambda>s. Ok (upd_proc p (\<lambda>q. q\<lparr>killed := True\<rparr>) s))))"

definition trap_device :: "u32 \<Rightarrow> u32 \<Rightarrow> u32 \<Rightarrow> int list \<Rightarrow> 'z sys_st_scheme \<Rightarrow> 'z sys_st_scheme res" where
  "trap_device trapno f cr2 dev s =
     (if trapno = 32 then timer_tick s
      else if trapno = 46 \<or> trapno = 47 then Ok s
      else if trapno = 33 \<or> trapno = 36 then bnd (consoleintr dev s) (\<lambda>(_, s). Ok s)
      else if trapno = 39 \<or> trapno = 63 then
        bnd (cpuid s) (\<lambda>c.
          cprintf (map of_char (''cpu%d: spurious interrupt at %x:%x'' @ nl))
            [Int_arg (int c), Int_arg (sint (ld (f + tf_cs) s AND 0xFFFF)), Int_arg (sint (ld (f + tf_eip) s))] s)
      else bad_trap f cr2 s)"

definition trap :: "u32 \<Rightarrow> u32 \<Rightarrow> int list \<Rightarrow> 'z sys_st_scheme \<Rightarrow> 'z sys_st_scheme res" where
  "trap f cr2 dev s =
     (let trapno = ld (f + tf_trapno) s in
      if trapno = 64 then
        bnd (is_killed s) (\<lambda>k.
          if k then exit s
          else bnd (curproc s) (\<lambda>p.
            bnd (syscall (upd_proc p (\<lambda>q. q\<lparr>tf := f\<rparr>) s)) (\<lambda>s.
            bnd (is_killed s) (\<lambda>k. if k then exit s else Ok s))))
      else
        bnd (trap_device trapno f cr2 dev s) (\<lambda>s.
        bnd (exit_if_killed f s) (\<lambda>s.
        bnd (myproc s) (\<lambda>(po, s).
          case po of
            Some p \<Rightarrow>
              if pstate (procs s ! p) = RUNNING \<and> trapno = 32 then bnd (yield_off s) (\<lambda>_. Block)
              else exit_if_killed f s
          | None \<Rightarrow> exit_if_killed f s))))"

definition trap_back :: "u32 \<Rightarrow> bool \<Rightarrow> 'z sys_st_scheme \<Rightarrow> 'z sys_st_scheme res" where
  "trap_back f en s = bnd (yield_back en s) (exit_if_killed f)"

section \<open>Ticks and sleeping\<close>

lemma relock_ticks: "relock l s (t\<lparr>ticks := n\<rparr>) = (relock l s t)\<lparr>ticks := n\<rparr>"
  by (simp add: relock_def)

lemma ticks_simps [simp]:
  "cpu_ok (s\<lparr>ticks := n\<rparr>) = cpu_ok s" "lock_free l (s\<lparr>ticks := n\<rparr>) = lock_free l s" "cur (s\<lparr>ticks := n\<rparr>) = cur s"
  "ticks (wakeup1 c s) = ticks s" "ticks (enter l s) = ticks s" "cpu_ok (wakeup1 c t) = cpu_ok t" "lock_free l (wakeup1 c t) = lock_free l t"
  by (simp_all add: cpu_ok_def lock_free_def cur_def wakeup1_def enter_def)

lemma timer_tick_eq:
  assumes s: "cpu_ok s" "\<And>l. lock_free l s" and c: "cpuid s = Ok 0"
  shows "timer_tick s = Ok (wakeup1 Ticks_chan (s\<lparr>ticks := ticks s + 1\<rparr>))"
proof -
  let ?e = "(enter Ticks_lock s)\<lparr>ticks := ticks s + 1\<rparr>"
  have w: "wakeup Ticks_chan ?e = Ok (wakeup1 Ticks_chan ?e)" using s by (intro wakeup_eq) simp_all
  have "release Ticks_lock (wakeup1 Ticks_chan ?e) = Ok (relock Ticks_lock s (wakeup1 Ticks_chan ?e))"
    using s by (intro release_relock) simp_all
  then have "release Ticks_lock (wakeup1 Ticks_chan ?e) = Ok (wakeup1 Ticks_chan (s\<lparr>ticks := ticks s + 1\<rparr>))"
    by (simp add: relock_wakeup1 relock_ticks relock_enter)
  then show ?thesis using w c acquire_free [OF s] by (simp add: timer_tick_def)
qed

text \<open>\<open>k\<close> timer interrupts on the first CPU.\<close>

primrec timer_ticks :: "nat \<Rightarrow> 'z sys_st_scheme \<Rightarrow> 'z sys_st_scheme res" where
  "timer_ticks 0 s = Ok s"
| "timer_ticks (Suc k) s = bnd (timer_ticks k s) timer_tick"

definition ticked :: "nat \<Rightarrow> 'z sys_st_scheme \<Rightarrow> 'z sys_st_scheme" where
  "ticked k s = (if k = 0 then s else wakeup1 Ticks_chan (s\<lparr>ticks := ticks s + of_nat k\<rparr>))"

lemma wakeup1_idem: "wakeup1 c (wakeup1 c s) = wakeup1 c s"
  by (simp add: wakeup1_def)

lemma cpuid_ticked [simp]: "cpuid (wakeup1 c (s\<lparr>ticks := n\<rparr>)) = cpuid s"
  by (simp add: cpuid_def wakeup1_def mycpu_def)

lemma timer_ticks_eq:
  assumes s: "cpu_ok s" "\<And>l. lock_free l s" and c: "cpuid s = Ok 0"
  shows "timer_ticks k s = Ok (ticked k s)"
proof (induction k)
  case 0
  show ?case by (simp add: ticked_def)
next
  case (Suc k)
  have "timer_tick (ticked k s) = Ok (wakeup1 Ticks_chan ((ticked k s)\<lparr>ticks := ticks (ticked k s) + 1\<rparr>))"
    using s c by (intro timer_tick_eq) (simp_all add: ticked_def)
  moreover have "wakeup1 Ticks_chan ((ticked k s)\<lparr>ticks := ticks (ticked k s) + 1\<rparr>) = ticked (Suc k) s"
    by (simp add: ticked_def) (simp add: wakeup1_def add.commute)
  ultimately show ?case using Suc.IH by simp
qed

text \<open>
  C39. A sleeper wakes up in time. \<open>sys_sleep\<close> with argument \<open>n\<close> goes on sleeping at every check
  before the \<open>n\<close>-th timer interrupt after it started and returns 0 at that one, also when the
  tick counter wraps around in between; every interrupt makes it runnable so that it does
  check. The argument is taken as unsigned: a negative \<open>n\<close> sleeps \<open>2^32 + n\<close> ticks.
\<close>

theorem sleeper_wakes_in_time:
  assumes s: "cpu_ok s" "\<And>l. lock_free l s" "ncli s (cur s) = 0" "cpuid s = Ok 0"
    and p: "cproc s (cur s) = Some p" "p < length (procs s)" "\<not> killed (procs s ! p)"
    and k: "k \<le> unat n"
  shows "\<exists>t. timer_ticks k s = Ok t
    \<and> (\<forall>i < length (procs s). 0 < k \<and> pstate (procs s ! i) = SLEEPING \<and> chan (procs s ! i) = Some Ticks_chan \<longrightarrow> pstate (procs t ! i) = RUNNABLE)
    \<and> bnd (acquire Ticks_lock t) (sleep_check (ticks s) n) = (if k = unat n then Ok (0, t) else Block)"
proof -
  let ?t = "ticked k s"
  have t: "cpu_ok ?t" "\<And>l. lock_free l ?t" "ncli ?t (cur ?t) = 0" "cproc ?t (cur ?t) = Some p" "p < length (procs ?t)" "\<not> killed (procs ?t ! p)"
    "ticks ?t = ticks s + of_nat k"
    using s p by (simp_all add: ticked_def) (simp_all add: wakeup1_def)
  have u: "unat (of_nat k :: u32) = k" using k unsigned_less [of n, where ?'a = nat] by (simp add: unat_of_nat)
  have lt: "ticks ?t - ticks s < n \<longleftrightarrow> k \<noteq> unat n" using t(7) u k by (auto simp: word_less_nat_alt)
  have slp: "sleep Ticks_chan Ticks_lock (enter Ticks_lock ?t) = (Block :: (int \<times> 'a sys_st_scheme) res)"
    using t by (intro sleep_blocks [of _ _ p]) (auto simp: enter_def lock_free_def cpu_ok_def cur_def)
  have c: "curproc (enter Ticks_lock ?t) = Ok p" using t by (intro curproc_ok) simp_all
  have "bnd (acquire Ticks_lock ?t) (sleep_check (ticks s) n) = (if k = unat n then Ok (0, ?t) else Block)"
    using acquire_free [OF t(1,2)] release_again [OF t(1,2)] lt c slp t(6) by (cases "k = unat n") (simp_all add: sleep_check_def)
  moreover have "pstate (procs ?t ! i) = RUNNABLE"
    if "i < length (procs s)" "0 < k" "pstate (procs s ! i) = SLEEPING" "chan (procs s ! i) = Some Ticks_chan" for i
    using that by (simp add: ticked_def) (simp add: wakeup1_def)
  ultimately show ?thesis using timer_ticks_eq [OF s(1,2,4)] by blast
qed


text \<open>The first CPU in an interrupt, and a tick counter about to wrap around.\<close>

definition sys0 :: sys_st where
  "sys0 = file_st.extend (file0\<lparr>ifl := False, intena := (\<lambda>_. False)\<rparr>) \<lparr>ticks = - 1, first_ret = True\<rparr>"

lemma binit_loop_cpus: "lapicid (binit_loop n t) = lapicid t \<and> apicids (binit_loop n t) = apicids t"
  by (induction n) (simp_all add: push_front_bufs initsleeplock_def initlock_def Let_def)

lemma sys0_cpu: "cpu_ok sys0" "lock_free l sys0" "ncli sys0 (cur sys0) = 0" "cpuid sys0 = Ok 0" "cproc sys0 (cur sys0) = Some 0"
  "0 < length (procs sys0)" "\<not> killed (procs sys0 ! 0)"
proof -
  have f: "lapicid sys0 = lapicid pipe0" "apicids sys0 = apicids pipe0" "ncli sys0 = ncli pipe0" "cproc sys0 = cproc pipe0" "procs sys0 = procs pipe0"
    "locks sys0 = locks pipe0" "\<not> ifl sys0" "\<not> intena sys0 c" for c
    by (simp_all add: sys0_def file0_def file_st.defs pipe_st.defs)
  have c: "cur sys0 = cur pipe0" by (simp add: cur_def f)
  have id: "lapicid pipe0 = 0" "apicids pipe0 = [0]"
    by (simp_all add: pipe0_def log0_def bio0_def binit_def Let_def initlock_def binit_loop_cpus cons0_def ptable0_def vm0_def kmem0_def kst0_def
      kst.defs kmem_st.defs ptable_st.defs slock_st.defs cons_st.defs bio_st.defs log_st.defs fs_st.defs)
  show "cpu_ok sys0" "lock_free l sys0" "ncli sys0 (cur sys0) = 0" "cpuid sys0 = Ok 0" "cproc sys0 (cur sys0) = Some 0"
    "0 < length (procs sys0)" "\<not> killed (procs sys0 ! 0)"
    using pipe0_cpu by (simp_all add: cpu_ok_def lock_free_def cpuid_def mycpu_def c f pipe0_procs proc0_def id)
qed

theorem sleeper_wakes_in_time_witness:
  "\<exists>t. timer_ticks 3 sys0 = Ok t \<and> bnd (acquire Ticks_lock t) (sleep_check (- 1) 3) = Ok (0, t)"
proof -
  have "ticks sys0 = - 1" by (simp add: sys0_def file_st.defs)
  then show ?thesis using sleeper_wakes_in_time [OF sys0_cpu(1-7), of 3 3] by auto
qed

end
