(* ===== verification/Fs_Laws.thy ===== *)
theory Fs_Laws
  imports Fs
begin

text \<open>
  The laws of the file system on top of the log and the buffer cache: updates of one block
  inside a transaction (through the interpretation \<open>tx\<close> of the locale \<open>transaction\<close>), the free
  bitmap with \<open>balloc\<close> and \<open>bfree\<close>, and inodes on disk with \<open>iupdate\<close> and \<open>ilock\<close>.
\<close>

section \<open>Updating one block in a transaction\<close>

definition fs_ok :: "'z log_st_scheme \<Rightarrow> bool" where
  "fs_ok s \<longleftrightarrow> cache_inv Map.empty s \<and> tx_ok s"

lemma upd_data_set: "upd_data x f s = set_data x (f (buf_data s x)) s"
  by (simp add: upd_data_def set_data_def buf_data_def upd_buf_def)

text \<open>The same with buffers held: \<open>h\<close> gives the block of each.\<close>

definition fs_held :: "(nat \<rightharpoonup> u32) \<Rightarrow> 'z log_st_scheme \<Rightarrow> bool" where
  "fs_held h s \<longleftrightarrow> cache_inv h s \<and> tx_ok s"

lemma fs_ok_held: "fs_ok s \<longleftrightarrow> fs_held Map.empty s"
  by (simp add: fs_ok_def fs_held_def)

lemma upd_block_held:
  assumes "fs_held h s" "a < disksize s" "a \<notin> ran h" "int (card (dom h)) < spare s"
  shows "\<exists>x t1 t. bread 1 a s = Ok (x, t1) \<and> bio_frame s t1 \<and> buf_data t1 x = view s a
    \<and> bnd (log_write x (upd_data x f t1)) (brelse x) = Ok t
    \<and> fs_held h t \<and> view t = (view s)(a := f (view s a)) \<and> spare s - 1 \<le> spare t \<and> log_frame s t"
proof -
  have s: "cache_inv h s" "tx_ok s" using assms(1) by (simp_all add: fs_held_def)
  obtain x t1 where t1: "bread 1 a s = Ok (x, t1)" "bio_frame s t1" "buf_data t1 x = view s a"
    and u: "\<forall>d. \<exists>t2 t. log_write x (set_data x d t1) = Ok t2 \<and> brelse x t2 = Ok t \<and> cache_inv h t \<and> tx_ok t
      \<and> view t = (view s)(a := d) \<and> disk t = disk s \<and> pinned t = insert a (pinned s) \<and> spare s - 1 \<le> spare t \<and> log_frame s t"
    using tx.update_one [OF s(1) assms(2,3) s(2) assms(4)] by blast
  obtain t2 t where t: "log_write x (set_data x (f (view s a)) t1) = Ok t2" "brelse x t2 = Ok t" "cache_inv h t" "tx_ok t"
    "view t = (view s)(a := f (view s a))" "spare s - 1 \<le> spare t" "log_frame s t"
    using spec [OF u, of "f (view s a)"] by blast
  have "bnd (log_write x (upd_data x f t1)) (brelse x) = Ok t" using t(1,2) t1(3) by (simp add: upd_data_set)
  then show ?thesis using t1 t(3-7) unfolding fs_held_def by (intro exI [of _ x] exI [of _ t1] exI [of _ t] conjI) assumption+
qed

lemma look_block_held:
  assumes "fs_held h s" "a < disksize s" "a \<notin> ran h" "int (card (dom h)) < spare s"
  shows "\<exists>x t1 t. bread 1 a s = Ok (x, t1) \<and> bio_frame s t1 \<and> buf_data t1 x = view s a \<and> brelse x t1 = Ok t
    \<and> fs_held h t \<and> view t = view s \<and> spare t = spare s \<and> bio_frame s t"
proof -
  have s: "cache_inv h s" "tx_ok s" using assms(1) by (simp_all add: fs_held_def)
  have "a \<in> pinned s \<or> view s a = disk s a" using s(1) quiet_view_held [of h s a] assms(3) by blast
  then show ?thesis using tx.look_one [OF s(1) assms(2,3) s(2) assms(4)] unfolding fs_held_def by blast
qed

lemma upd_block:
  assumes "fs_ok s" "a < disksize s" "0 < spare s"
  shows "\<exists>x t1 t. bread 1 a s = Ok (x, t1) \<and> bio_frame s t1 \<and> buf_data t1 x = view s a
    \<and> bnd (log_write x (upd_data x f t1)) (brelse x) = Ok t
    \<and> fs_ok t \<and> view t = (view s)(a := f (view s a)) \<and> spare s - 1 \<le> spare t \<and> log_frame s t"
  using upd_block_held [of Map.empty s a f] assms by (simp add: fs_ok_held)

lemma look_block:
  assumes "fs_ok s" "a < disksize s" "0 < spare s"
  shows "\<exists>x t1 t. bread 1 a s = Ok (x, t1) \<and> bio_frame s t1 \<and> buf_data t1 x = view s a \<and> brelse x t1 = Ok t
    \<and> fs_ok t \<and> view t = view s \<and> spare t = spare s \<and> bio_frame s t"
  using look_block_held [of Map.empty s a] assms by (simp add: fs_ok_held)

lemma frame_fs: "bio_frame s t \<Longrightarrow> sb t = sb s" "bio_frame s t \<Longrightarrow> inodes t = inodes s"
  "log_frame s t \<Longrightarrow> sb t = sb s" "log_frame s t \<Longrightarrow> inodes t = inodes s"
  by (auto simp: bio_frame_def log_frame_def)

lemma bzero_ok:
  assumes "fs_held h s" "b < disksize s" "b \<notin> ran h" "int (card (dom h)) < spare s"
  shows "\<exists>t. bzero 1 b s = Ok t \<and> fs_held h t \<and> view t = (view s)(b := fill 0 BSIZE 0 (view s b)) \<and> spare s - 1 \<le> spare t \<and> log_frame s t"
  using upd_block_held [OF assms, of "fill 0 BSIZE 0"] by (auto simp: bzero_def)

section \<open>The free bitmap\<close>

definition bitmap_block :: "superblock \<Rightarrow> nat \<Rightarrow> u32" where
  "bitmap_block q c = of_nat (c div BPB) + sb_bmapstart q"

definition used :: "'z fs_st_scheme \<Rightarrow> nat \<Rightarrow> bool" where
  "used s c \<longleftrightarrow> bit_set (view s (bitmap_block (sb s) c)) (c mod BPB)"

definition set_bit_at :: "nat \<Rightarrow> block \<Rightarrow> block" where
  "set_bit_at i d = d(i div 8 := d (i div 8) OR push_bit (i mod 8) 1)"

definition clear_bit_at :: "nat \<Rightarrow> block \<Rightarrow> block" where
  "clear_bit_at i d = d(i div 8 := d (i div 8) AND NOT (push_bit (i mod 8) 1))"

lemma bit_set_iff: "bit_set d i \<longleftrightarrow> bit (d (i div 8)) (i mod 8)"
proof -
  let ?x = "d (i div 8)" and ?k = "i mod 8"
  have "?x AND push_bit ?k 1 \<noteq> 0 \<longleftrightarrow> bit ?x ?k"
    by (metis and_exp_eq_0_iff_not_bit push_bit_of_1)
  then show ?thesis by (simp add: bit_set_def)
qed

lemma split_bit: "i = j \<longleftrightarrow> i div 8 = j div 8 \<and> i mod 8 = (j mod 8 :: nat)"
  by (metis div_mult_mod_eq)

lemma bit_set_upd:
  "bit_set (set_bit_at i d) j \<longleftrightarrow> j = i \<or> bit_set d j"
  "bit_set (clear_bit_at i d) j \<longleftrightarrow> j \<noteq> i \<and> bit_set d j"
  using split_bit [of j i]
  by (auto simp: bit_set_iff set_bit_at_def clear_bit_at_def bit_or_iff bit_and_iff bit_not_iff bit_exp_iff)

lemma clear_set_bit: "\<not> bit_set d i \<Longrightarrow> clear_bit_at i (set_bit_at i d) = d"
proof -
  assume "\<not> bit_set d i"
  then have n: "\<not> bit (d (i div 8)) (i mod 8)" by (simp add: bit_set_iff)
  have "(d (i div 8) OR push_bit (i mod 8) 1) AND NOT (push_bit (i mod 8) 1) = d (i div 8)"
    by (rule bit_word_eqI) (use n in \<open>auto simp: bit_or_iff bit_and_iff bit_not_iff bit_exp_iff\<close>)
  then show ?thesis by (simp add: set_bit_at_def clear_bit_at_def fun_eq_iff)
qed

lemma bblock_of_nat: "c < 2 ^ 32 \<Longrightarrow> BBLOCK (of_nat c) q = bitmap_block q c"
proof -
  assume "c < 2 ^ 32"
  then have "unat (of_nat c div 4096 :: u32) = unat (of_nat (c div 4096) :: u32)"
    by (simp add: unat_div unat_of_nat div_le_dividend [THEN le_less_trans])
  then have "(of_nat c div 4096 :: u32) = of_nat (c div 4096)" by (simp add: word_unat_eq_iff)
  then show ?thesis by (simp add: BBLOCK_def bitmap_block_def)
qed

lemma bitmap_block_off: "i < BPB \<Longrightarrow> bitmap_block q (BPB * j + i) = bitmap_block q (BPB * j)"
  by (simp add: bitmap_block_def)

text \<open>The geometry \<open>balloc\<close> relies on: the bitmap and the blocks it describes are on the disk.\<close>

definition bitmap_fits :: "'z fs_st_scheme \<Rightarrow> bool" where
  "bitmap_fits s \<longleftrightarrow> (\<forall>c < unat (sb_size (sb s)). bitmap_block (sb s) c < disksize s \<and> of_nat c < disksize s)"

lemma find_idx_upt: "find_idx P [0..<n] = Some i \<Longrightarrow> i < n \<and> P i \<and> (\<forall>j < i. \<not> P j)"
  by (drule find_idx_SomeD) (auto simp: less_trans)

lemma find_idx_upt_None: "find_idx P [0..<n] = None \<longleftrightarrow> (\<forall>j < n. \<not> P j)"
  by (auto simp: find_idx_None)

text \<open>The held blocks are in use and are not blocks of the bitmap.\<close>

definition aside :: "(nat \<rightharpoonup> u32) \<Rightarrow> 'z fs_st_scheme \<Rightarrow> bool" where
  "aside h s \<longleftrightarrow> (\<forall>b \<in> ran h. used s (unat b) \<and> (\<forall>e < unat (sb_size (sb s)). b \<noteq> bitmap_block (sb s) e))"

lemma aside_free: "aside h s \<Longrightarrow> \<not> used s c \<Longrightarrow> c < 2 ^ 32 \<Longrightarrow> of_nat c \<notin> ran h"
  by (auto simp: aside_def unat_of_nat)

lemma balloc_loop_ok:
  assumes "fs_held h s" "int (card (dom h)) + 2 \<le> spare s" "bitmap_fits s" "aside h s" "unat (sb_size (sb s)) \<le> BPB * (j + k)" "BPB * (j + k) \<le> unat (sb_size (sb s)) + 4095"
  defines "n \<equiv> unat (sb_size (sb s))"
  shows "if \<forall>c. BPB * j \<le> c \<and> c < n \<longrightarrow> used s c then balloc_loop k (BPB * j) 1 s = Panic ''balloc: out of blocks''
    else \<exists>c t. balloc_loop k (BPB * j) 1 s = Ok (of_nat c, t) \<and> BPB * j \<le> c \<and> c < n \<and> \<not> used s c
      \<and> (\<forall>c'. BPB * j \<le> c' \<and> c' < c \<longrightarrow> used s c') \<and> fs_held h t \<and> spare s - 2 \<le> spare t \<and> log_frame s t
      \<and> (let v = (view s)(bitmap_block (sb s) c := set_bit_at (c mod BPB) (view s (bitmap_block (sb s) c)))
         in view t = v(of_nat c := fill 0 BSIZE 0 (v (of_nat c))))"
  using assms(1-6) unfolding n_def
proof (induction k arbitrary: j s)
  case 0
  then show ?case by auto
next
  case (Suc k)
  let ?n = "unat (sb_size (sb s))" and ?b = "BPB * j" and ?a = "bitmap_block (sb s) (BPB * j)"
  have bn: "?b < ?n" using Suc.prems(6) by simp
  have n32: "?n < 2 ^ 32" using unsigned_less [of "sb_size (sb s)", where ?'a = nat] by simp
  have a: "BBLOCK (of_nat ?b) (sb s) = ?a" "?a < disksize s" using bblock_of_nat [of ?b "sb s"] bn n32 Suc.prems(3) by (auto simp: bitmap_fits_def)
  have ah: "?a \<notin> ran h" using Suc.prems(4) bn by (auto simp: aside_def)
  let ?m = "min BPB (?n - ?b)"
  have used: "used s (?b + i) = bit_set (view s ?a) i" if "i < ?m" for i using that by (simp add: used_def bitmap_block_off)
  have sp: "int (card (dom h)) < spare s" using Suc.prems(2) by simp
  let ?P = "\<lambda>bi. \<not> bit_set (view s ?a) bi"
  show ?case
  proof (cases "find_idx ?P [0..<?m]")
    case (Some i)
    then have i: "i < ?m" "\<not> bit_set (view s ?a) i" "\<forall>l < i. bit_set (view s ?a) l" using find_idx_upt [OF Some] by auto
    let ?c = "?b + i"
    have c: "?c < ?n" "\<not> used s ?c" "bitmap_block (sb s) ?c = ?a" "?c mod BPB = i" using i used bitmap_block_off [of i "sb s" j] by auto
    have lt: "used s c'" if "?b \<le> c'" "c' < ?c" for c'
    proof -
      have "c' - ?b < i" "?b + (c' - ?b) = c'" using that by simp_all
      moreover have "c' - ?b < ?m" using \<open>c' - ?b < i\<close> i(1) by (rule less_trans)
      ultimately show ?thesis using used [of "c' - ?b"] i(3) by simp
    qed
    obtain x t1 t2 where t1: "bread 1 ?a s = Ok (x, t1)" "bio_frame s t1" "buf_data t1 x = view s ?a"
      and t2: "bnd (log_write x (upd_data x (set_bit_at i) t1)) (brelse x) = Ok t2" "fs_held h t2"
        "view t2 = (view s)(?a := set_bit_at i (view s ?a))" "spare s - 1 \<le> spare t2" "log_frame s t2"
      using upd_block_held [OF Suc.prems(1) a(2) ah sp, of "set_bit_at i"] by - (elim exE conjE, rule that, assumption+)
    have "of_nat ?c < disksize t2" using c(1) Suc.prems(3) log_frame_fields(3) [OF t2(5)] by (auto simp: bitmap_fits_def)
    moreover have "of_nat ?c \<notin> ran h" by (rule aside_free [OF Suc.prems(4) c(2) less_trans [OF c(1) n32]])
    moreover have "int (card (dom h)) < spare t2" using Suc.prems(2) t2(4) by simp
    ultimately have "of_nat ?c < disksize t2" "of_nat ?c \<notin> ran h" "int (card (dom h)) < spare t2" .
    note bz = this
    obtain t where t: "bzero 1 (of_nat ?c) t2 = Ok t" "fs_held h t" "view t = (view t2)(of_nat ?c := fill 0 BSIZE 0 (view t2 (of_nat ?c)))"
      "spare t2 - 1 \<le> spare t" "log_frame t2 t"
      using bzero_ok [OF t2(2) bz] by - (elim exE conjE, rule that, assumption+)
    have "balloc_loop (Suc k) ?b 1 s = bnd (bnd (log_write x (upd_data x (set_bit_at i) t1)) (brelse x)) (\<lambda>s. bnd (bzero 1 (of_nat ?c) s) (\<lambda>s. Ok (of_nat ?c, s)))"
      using t1 Some a(1) frame_fs(1) [OF t1(2)] by (simp add: buf_data_def bnd_assoc set_bit_at_def [abs_def])
    then have "balloc_loop (Suc k) ?b 1 s = Ok (of_nat ?c, t)" using t2(1) t(1) by simp
    moreover have "?b \<le> ?c" "\<forall>c'. ?b \<le> c' \<and> c' < ?c \<longrightarrow> used s c'" "spare s - 2 \<le> spare t" using lt t(4) t2(4) by auto
    moreover have "let v = (view s)(bitmap_block (sb s) ?c := set_bit_at (?c mod BPB) (view s (bitmap_block (sb s) ?c)))
         in view t = v(of_nat ?c := fill 0 BSIZE 0 (v (of_nat ?c)))" unfolding c(3,4) Let_def t(3) t2(3) ..
    moreover have nall: "\<not> (\<forall>c. ?b \<le> c \<and> c < ?n \<longrightarrow> used s c)" using c by (metis le_add1)
    ultimately show ?thesis unfolding if_not_P [OF nall] using c(1,2) t(2) log_frame_trans [OF t2(5) t(5)]
      by (intro exI [of _ ?c] exI [of _ t] conjI) assumption+
  next
    case None
    then have all: "\<forall>i < ?m. bit_set (view s ?a) i" by (simp add: find_idx_upt_None)
    obtain x t1 t where t1: "bread 1 ?a s = Ok (x, t1)" "bio_frame s t1" "buf_data t1 x = view s ?a"
      and t: "brelse x t1 = Ok t" "fs_held h t" "view t = view s" "spare t = spare s" "bio_frame s t"
      using look_block_held [OF Suc.prems(1) a(2) ah sp] by - (elim exE conjE, rule that, assumption+)
    have step: "balloc_loop (Suc k) ?b 1 s = balloc_loop k (BPB * Suc j) 1 t"
      using t1 t(1) None a(1) frame_fs(1) [OF t1(2)] by (simp add: buf_data_def add.commute)
    have f: "sb t = sb s" "disksize t = disksize s" using frame_fs(1) [OF t(5)] bio_frame_disksize [OF t(5)] by simp_all
    have u: "used t c = used s c" for c by (simp add: used_def t(3) f)
    have low: "used s c" if "?b \<le> c" "c < BPB * Suc j" "c < ?n" for c
    proof -
      have "c - ?b < ?m" "?b + (c - ?b) = c" using that by auto
      then show ?thesis using used [of "c - ?b"] all by simp
    qed
    have le: "BPB * Suc j \<le> c \<longleftrightarrow> ?b \<le> c \<and> \<not> c < BPB * Suc j" for c by auto
    have fits: "bitmap_fits t" using Suc.prems(3) by (simp add: bitmap_fits_def f)
    have sz: "unat (sb_size (sb t)) \<le> BPB * (Suc j + k)" "BPB * (Suc j + k) \<le> unat (sb_size (sb t)) + 4095" using Suc.prems(5,6) f by simp_all
    have at: "aside h t" using Suc.prems(4) by (simp add: aside_def u f)
    note ih = Suc.IH [OF t(2) _ fits at sz, unfolded t(3,4) u f]
    show ?thesis
    proof (cases "\<forall>c. BPB * Suc j \<le> c \<and> c < ?n \<longrightarrow> used s c")
      case True
      then have "\<forall>c. ?b \<le> c \<and> c < ?n \<longrightarrow> used s c" using low le by blast
      then show ?thesis using ih Suc.prems(2) True step by simp
    next
      case False
      then have nall: "\<not> (\<forall>c. ?b \<le> c \<and> c < ?n \<longrightarrow> used s c)" using le by blast
      obtain c u where cu: "balloc_loop k (BPB * Suc j) 1 t = Ok (of_nat c, u)" "BPB * Suc j \<le> c" "c < ?n" "\<not> used s c"
        "\<forall>c'. BPB * Suc j \<le> c' \<and> c' < c \<longrightarrow> used s c'" "fs_held h u" "spare s - 2 \<le> spare u" "log_frame t u"
        "let v = (view s)(bitmap_block (sb s) c := set_bit_at (c mod BPB) (view s (bitmap_block (sb s) c)))
         in view u = v(of_nat c := fill 0 BSIZE 0 (v (of_nat c)))"
        using ih Suc.prems(2) False unfolding if_not_P [OF False] by - (drule meta_mp, assumption, elim exE conjE, rule that, assumption+)
      have "?b \<le> c" using cu(2) by simp
      moreover have "\<forall>c'. ?b \<le> c' \<and> c' < c \<longrightarrow> used s c'" using cu(3,5) low le by (meson less_trans)
      moreover have "log_frame s u" using log_frame_trans [OF bio_log_frame [OF t(5)] cu(8)] .
      ultimately show ?thesis unfolding if_not_P [OF nall] step using cu by (intro exI [of _ c] exI [of _ u] conjI) assumption+
    qed
  qed
qed

lemma balloc_held:
  assumes "fs_held h s" "int (card (dom h)) + 2 \<le> spare s" "bitmap_fits s" "aside h s"
  defines "n \<equiv> unat (sb_size (sb s))"
  shows "(\<forall>c < n. used s c) \<Longrightarrow> balloc 1 s = Panic ''balloc: out of blocks''"
    and "\<not> (\<forall>c < n. used s c) \<Longrightarrow> \<exists>c t. balloc 1 s = Ok (of_nat c, t) \<and> c < n \<and> \<not> used s c
      \<and> (\<forall>c' < c. used s c') \<and> fs_held h t \<and> spare s - 2 \<le> spare t \<and> log_frame s t
      \<and> (let v = (view s)(bitmap_block (sb s) c := set_bit_at (c mod BPB) (view s (bitmap_block (sb s) c)))
         in view t = v(of_nat c := fill 0 BSIZE 0 (v (of_nat c))))"
proof -
  have "n \<le> BPB * (0 + (n + 4095) div BPB)" "BPB * (0 + (n + 4095) div BPB) \<le> n + 4095" by simp_all
  note l = balloc_loop_ok [OF assms(1-4) this [unfolded n_def], folded n_def, simplified]
  show "balloc 1 s = Panic ''balloc: out of blocks''" if "\<forall>c < n. used s c"
    using l that by (simp add: balloc_def n_def)
  show "\<exists>c t. balloc 1 s = Ok (of_nat c, t) \<and> c < n \<and> \<not> used s c
      \<and> (\<forall>c' < c. used s c') \<and> fs_held h t \<and> spare s - 2 \<le> spare t \<and> log_frame s t
      \<and> (let v = (view s)(bitmap_block (sb s) c := set_bit_at (c mod BPB) (view s (bitmap_block (sb s) c)))
         in view t = v(of_nat c := fill 0 BSIZE 0 (v (of_nat c))))" if "\<not> (\<forall>c < n. used s c)"
    using l that unfolding balloc_def n_def by (simp only: if_False mult_0_right add_0 simp_thms) auto
qed

lemma balloc_ok:
  assumes "fs_ok s" "2 \<le> spare s" "bitmap_fits s"
  defines "n \<equiv> unat (sb_size (sb s))"
  shows "(\<forall>c < n. used s c) \<Longrightarrow> balloc 1 s = Panic ''balloc: out of blocks''"
    and "\<not> (\<forall>c < n. used s c) \<Longrightarrow> \<exists>c t. balloc 1 s = Ok (of_nat c, t) \<and> c < n \<and> \<not> used s c
      \<and> (\<forall>c' < c. used s c') \<and> fs_ok t \<and> spare s - 2 \<le> spare t \<and> log_frame s t
      \<and> (let v = (view s)(bitmap_block (sb s) c := set_bit_at (c mod BPB) (view s (bitmap_block (sb s) c)))
         in view t = v(of_nat c := fill 0 BSIZE 0 (v (of_nat c))))"
proof -
  have a: "aside Map.empty s" "int (card (dom Map.empty)) + 2 \<le> spare s" using assms(2) by (simp_all add: aside_def)
  note h = balloc_held [OF assms(1) [unfolded fs_ok_held] a(2) assms(3) a(1), folded n_def fs_ok_held]
  show "\<forall>c < n. used s c \<Longrightarrow> balloc 1 s = Panic ''balloc: out of blocks''" by (rule h(1))
  show "\<not> (\<forall>c < n. used s c) \<Longrightarrow> \<exists>c t. balloc 1 s = Ok (of_nat c, t) \<and> c < n \<and> \<not> used s c
      \<and> (\<forall>c' < c. used s c') \<and> fs_ok t \<and> spare s - 2 \<le> spare t \<and> log_frame s t
      \<and> (let v = (view s)(bitmap_block (sb s) c := set_bit_at (c mod BPB) (view s (bitmap_block (sb s) c)))
         in view t = v(of_nat c := fill 0 BSIZE 0 (v (of_nat c))))" by (rule h(2))
qed

lemma size_lt: "unat (sb_size q) < 2 ^ 32"
  using unsigned_less [of "sb_size q", where ?'a = nat] by simp

lemma bfree_ok:
  assumes s: "fs_ok s" "0 < spare s" "bitmap_fits s" and c: "c < unat (sb_size (sb s))"
  shows "\<not> used s c \<Longrightarrow> bfree 1 (of_nat c) s = Panic ''freeing free block''"
    and "used s c \<Longrightarrow> \<exists>t. bfree 1 (of_nat c) s = Ok t \<and> fs_ok t \<and> spare s - 1 \<le> spare t \<and> log_frame s t
      \<and> view t = (view s)(bitmap_block (sb s) c := clear_bit_at (c mod BPB) (view s (bitmap_block (sb s) c)))"
proof -
  let ?a = "bitmap_block (sb s) c"
  have c32: "c < 2 ^ 32" using c size_lt [of "sb s"] by linarith
  have a: "BBLOCK (of_nat c) (sb s) = ?a" "?a < disksize s" "unat (of_nat c :: u32) mod BPB = c mod BPB"
    using bblock_of_nat [OF c32] s(3) c c32 by (auto simp: bitmap_fits_def unat_of_nat)
  obtain x t1 t where t1: "bread 1 ?a s = Ok (x, t1)" "bio_frame s t1" "buf_data t1 x = view s ?a"
    and t: "bnd (log_write x (upd_data x (clear_bit_at (c mod BPB)) t1)) (brelse x) = Ok t" "fs_ok t"
      "view t = (view s)(?a := clear_bit_at (c mod BPB) (view s ?a))" "spare s - 1 \<le> spare t" "log_frame s t"
    using upd_block [OF s(1) a(2) s(2), of "clear_bit_at (c mod BPB)"] by - (elim exE conjE, rule that, assumption+)
  have b: "bfree 1 (of_nat c) s = (if \<not> used s c then Panic ''freeing free block''
      else bnd (log_write x (upd_data x (clear_bit_at (c mod BPB)) t1)) (brelse x))"
    using t1 a by (simp add: bfree_def buf_data_def used_def clear_bit_at_def [abs_def] Let_def)
  show "bfree 1 (of_nat c) s = Panic ''freeing free block''" if "\<not> used s c" using b that by simp
  show "\<exists>t. bfree 1 (of_nat c) s = Ok t \<and> fs_ok t \<and> spare s - 1 \<le> spare t \<and> log_frame s t
      \<and> view t = (view s)(?a := clear_bit_at (c mod BPB) (view s ?a))" if "used s c"
    unfolding b using that t by auto
qed

lemma bitmap_block_inj:
  assumes "bitmap_block q c = bitmap_block q e" "c mod BPB = e mod BPB" "c < unat (sb_size q)" "e < unat (sb_size q)"
  shows "c = e"
proof -
  have lt: "c div BPB < 2 ^ 32" "e div BPB < 2 ^ 32" using assms(3,4) size_lt [of q] by (meson div_le_dividend le_less_trans less_trans)+
  have "(of_nat (c div BPB) :: u32) = of_nat (e div BPB)" using assms(1) by (simp add: bitmap_block_def)
  then have "unat (of_nat (c div BPB) :: u32) = unat (of_nat (e div BPB) :: u32)" by simp
  then have "c div BPB = e div BPB" using lt by (simp add: unat_of_nat)
  then show ?thesis using assms(2) by (metis div_mult_mod_eq)
qed

text \<open>The blocks of the bitmap itself are marked in it, as \<open>mkfs\<close> does.\<close>

definition bitmap_marked :: "'z fs_st_scheme \<Rightarrow> bool" where
  "bitmap_marked s \<longleftrightarrow> (\<forall>c < unat (sb_size (sb s)). \<forall>e < unat (sb_size (sb s)). of_nat c = bitmap_block (sb s) e \<longrightarrow> used s c)"

text \<open>
  C8. Block allocation. \<open>balloc\<close> panics exactly when every block of the file system is in use;
  otherwise it returns the lowest free block, now marked in the bitmap and filled with
  zeros, and marks no other. \<open>bfree\<close> of that block succeeds and gives back the bitmap as it
  was, so that no block other than the allocated one has changed; freeing it a second time
  panics.
\<close>

theorem balloc_bfree:
  assumes s: "fs_ok s" "4 \<le> spare s" "bitmap_fits s" "bitmap_marked s"
  defines "n \<equiv> unat (sb_size (sb s))"
  shows "if \<forall>c < n. used s c then balloc 1 s = Panic ''balloc: out of blocks''
    else \<exists>c t u. balloc 1 s = Ok (of_nat c, t) \<and> c < n \<and> \<not> used s c \<and> (\<forall>c' < c. used s c')
      \<and> (\<forall>e < n. used t e \<longleftrightarrow> e = c \<or> used s e) \<and> (\<forall>k < BSIZE. view t (of_nat c) k = 0)
      \<and> bfree 1 (of_nat c) t = Ok u \<and> (\<forall>b. b \<noteq> of_nat c \<longrightarrow> view u b = view s b) \<and> (\<forall>e < n. used u e = used s e)
      \<and> bfree 1 (of_nat c) u = Panic ''freeing free block''"
proof (cases "\<forall>c < n. used s c")
  case True
  then show ?thesis using balloc_ok(1) [OF s(1) _ s(3)] s(2) by (simp add: n_def)
next
  case False
  let ?a = "bitmap_block (sb s)"
  have two: "2 \<le> spare s" using s(2) by simp
  obtain c t where c: "balloc 1 s = Ok (of_nat c, t)" "c < n" "\<not> used s c" "\<forall>c' < c. used s c'"
    and t: "fs_ok t" "spare s - 2 \<le> spare t" "log_frame s t"
      "let v = (view s)(?a c := set_bit_at (c mod BPB) (view s (?a c))) in view t = v(of_nat c := fill 0 BSIZE 0 (v (of_nat c)))"
    using balloc_ok(2) [OF s(1) two s(3) False [unfolded n_def], folded n_def] by - (elim exE conjE, rule that, assumption+)
  have ne: "of_nat c \<noteq> ?a e" if "e < n" for e using s(4) c(2,3) that unfolding bitmap_marked_def n_def by blast
  have v: "view t = (view s)(?a c := set_bit_at (c mod BPB) (view s (?a c)), of_nat c := fill 0 BSIZE 0 (view s (of_nat c)))"
    using t(4) ne [OF c(2)] by (simp add: Let_def)
  have ft: "sb t = sb s" "disksize t = disksize s" using frame_fs(3) [OF t(3)] log_frame_fields(3) [OF t(3)] by simp_all
  have ut: "used t e \<longleftrightarrow> e = c \<or> used s e" if e: "e < n" for e
  proof -
    have "view t (?a e) = (if ?a e = ?a c then set_bit_at (c mod BPB) (view s (?a c)) else view s (?a e))" using ne [OF e] v by simp
    then show ?thesis using bitmap_block_inj [of "sb s" e c] e c(2) by (auto simp: used_def ft bit_set_upd n_def)
  qed
  have "bitmap_fits t" using s(3) by (simp add: bitmap_fits_def ft)
  moreover have "0 < spare t" "used t c" "c < unat (sb_size (sb t))" using t(2) s(2) ut c(2) by (auto simp: ft n_def)
  ultimately obtain u where u: "bfree 1 (of_nat c) t = Ok u" "fs_ok u" "spare t - 1 \<le> spare u" "log_frame t u"
    "view u = (view t)(?a c := clear_bit_at (c mod BPB) (view t (?a c)))"
    using bfree_ok(2) [OF t(1)] ft by auto
  have vu: "view u = (view s)(of_nat c := fill 0 BSIZE 0 (view s (of_nat c)))"
  proof -
    have "view t (?a c) = set_bit_at (c mod BPB) (view s (?a c))" using v ne [OF c(2)] by simp
    then have "clear_bit_at (c mod BPB) (view t (?a c)) = view s (?a c)" using c(3) by (simp add: clear_set_bit used_def)
    then show ?thesis using u(5) v ne [OF c(2)] by (auto simp: fun_eq_iff)
  qed
  have fu: "sb u = sb s" "disksize u = disksize s" using frame_fs(3) [OF u(4)] log_frame_fields(3) [OF u(4)] ft by simp_all
  have uu: "used u e = used s e" if "e < n" for e using ne [OF that] vu by (simp add: used_def fu)
  have "bitmap_fits u" using s(3) by (simp add: bitmap_fits_def fu)
  then have "bfree 1 (of_nat c) u = Panic ''freeing free block''"
    using bfree_ok(1) [OF u(2)] u(3) t(2) s(2) c(2,3) uu by (auto simp: fu n_def)
  moreover have "\<forall>k < BSIZE. view t (of_nat c) k = 0" using v ne [OF c(2)] by simp
  ultimately show ?thesis using False c u(1) ut uu vu by auto
qed


text \<open>A disk of 900 blocks whose bitmap, in block 32, has the blocks 0 to 63 marked.\<close>

definition fs0 :: fs_st where
  "fs0 = log_st.extend (log0\<lparr>outstanding := 1, disk := (\<lambda>b k. if b = 32 \<and> k < 8 then - 1 else 0)\<rparr>)
     \<lparr>sb = \<lparr>sb_size = 900, sb_nblocks = 800, sb_ninodes = 200, sb_nlog = 30, sb_logstart = 2, sb_inodestart = 40, sb_bmapstart = 32\<rparr>,
      inodes = replicate NINODE \<lparr>idev = 0, inum = 0, iref = 0, ivalid = False, itype = 0, imajor = 0, iminor = 0, inlink = 0, isize = 0, addrs = replicate 13 0\<rparr>\<rparr>"

lemma fs0_fields: "bufs fs0 = bufs log0" "disk fs0 = (\<lambda>b k. if b = 32 \<and> k < 8 then - 1 else 0)" "disksize fs0 = 1000"
  "sb_size (sb fs0) = 900" "sb_bmapstart (sb fs0) = 32" "sb_inodestart (sb fs0) = 40" "lh_n fs0 = 1" "lh_block fs0 = lh_block log0"
  "log_size fs0 = 30" "outstanding fs0 = 1" "pinned fs0 = pinned log0"
  by (simp_all add: fs0_def log_st.defs log0_fields pinned_def)

lemma fs0_ok: "fs_ok fs0" "spare fs0 = 28" "bitmap_fits fs0"
proof -
  have e: "bdev (bufs log0 i) = 1 \<Longrightarrow> bdirty (bufs log0 i)" for i using bio0_bufs [of i] by (simp add: log0_fields split: if_splits)
  have "bio_ok xs {} log0 \<Longrightarrow> bio_ok xs {} fs0" for xs
    using e unfolding bio_ok_def caches_def
    by (simp add: fs0_def log_st.defs cpu_ok_def cur_def lock_free_def)
  then have "cache_inv Map.empty fs0" using log0_ready(1) unfolding log_ready_def cache_inv_def by auto
  moreover have "tx_ok fs0" using log0_ready(1) by (simp add: tx_ok_def fs0_fields log_ready_def log0_fields)
  ultimately show "fs_ok fs0" by (simp add: fs_ok_def)
  show "spare fs0 = 28" by (simp add: spare_def fs0_fields)
  show "bitmap_fits fs0" by (auto simp: bitmap_fits_def fs0_fields bitmap_block_def word_less_nat_alt unat_of_nat)
qed

lemma fs0_bitmap: "c < 900 \<Longrightarrow> used fs0 c \<longleftrightarrow> c < 64"
proof -
  assume c: "c < 900"
  have "view fs0 32 = disk fs0 32"
  proof (rule view_uncached, intro allI impI)
    fix i show "\<not> caches fs0 i 32" using bio0_bufs [of i] by (auto simp: caches_def fs0_fields log0_fields)
  qed
  then show ?thesis using c by (simp add: used_def bitmap_block_def fs0_fields bit_set_iff) linarith
qed

theorem balloc_bfree_witness:
  "\<exists>t u. balloc 1 fs0 = Ok (64, t) \<and> used t 64 \<and> bfree 1 64 t = Ok u \<and> \<not> used u 64"
proof -
  have w: "c = 32" if "(of_nat c :: u32) = 32" "c < 900" for c
  proof -
    have "unat (of_nat c :: u32) = unat (32 :: u32)" using that(1) by (simp only:)
    then show ?thesis using that(2) by (simp add: unat_of_nat)
  qed
  have m: "bitmap_marked fs0" using fs0_bitmap by (auto simp: bitmap_marked_def fs0_fields bitmap_block_def dest: w)
  have free: "\<not> (\<forall>c < unat (sb_size (sb fs0)). used fs0 c)" using fs0_bitmap [of 64] by (auto simp: fs0_fields intro!: exI [of _ 64])
  have "4 \<le> spare fs0" by (simp add: fs0_ok(2))
  then obtain c t u where c: "balloc 1 fs0 = Ok (of_nat c, t)" "c < unat (sb_size (sb fs0))" "\<not> used fs0 c" "\<forall>c' < c. used fs0 c'"
    "\<forall>e < unat (sb_size (sb fs0)). used t e \<longleftrightarrow> e = c \<or> used fs0 e" "bfree 1 (of_nat c) t = Ok u"
    "\<forall>e < unat (sb_size (sb fs0)). used u e = used fs0 e"
    using balloc_bfree [OF fs0_ok(1) _ fs0_ok(3) m] unfolding if_not_P [OF free] by - (drule meta_mp, assumption, elim exE conjE, rule that, assumption+)
  have lt: "c < 900" using c(2) by (simp add: fs0_fields)
  have "64 \<le> c" using c(3) fs0_bitmap [OF lt] by simp
  moreover have "\<not> 64 < c" using c(4) fs0_bitmap [of 64] by auto
  ultimately have "c = 64" by simp
  then show ?thesis using c fs0_bitmap [of 64] by (auto simp: fs0_fields)
qed

section \<open>Inodes on disk\<close>

lemma get16_put16_same: "get16 (put16 k v d) k = v"
proof (rule bit_word_eqI)
  fix n :: nat assume "n < LENGTH(16)"
  then have "n < 8 \<or> 8 \<le> n \<and> n < 16" by auto
  then show "bit (get16 (put16 k v d) k) n = bit v n"
    by (elim disjE conjE) (auto simp: get16_def put16_def bit_or_iff bit_push_bit_iff bit_ucast_iff bit_drop_bit_eq)
qed

lemma get16_far: "k + 2 \<le> j \<or> j + 2 \<le> k \<Longrightarrow> get16 (put16 k v d) j = get16 d j" "k + 4 \<le> j \<or> j + 2 \<le> k \<Longrightarrow> get16 (put32 k w d) j = get16 d j"
  by (auto simp: get16_def put16_def put32_def)

lemma get32_put16_far: "k + 2 \<le> j \<or> j + 4 \<le> k \<Longrightarrow> get32 (put16 k v d) j = get32 d j"
  by (auto simp: get32_def put16_def)

lemma put_words_far:
  "j + 4 \<le> k \<or> k + 4 * length ws \<le> j \<Longrightarrow> get32 (put_words k ws d) j = get32 d j"
  "j + 2 \<le> k \<or> k + 4 * length ws \<le> j \<Longrightarrow> get16 (put_words k ws d) j = get16 d j"
  by (induction ws arbitrary: k d) (auto simp: get32_put32_far get16_far)

lemma put_words_get: "i < length ws \<Longrightarrow> get32 (put_words k ws d) (k + 4 * i) = ws ! i"
proof (induction ws arbitrary: i k d)
  case (Cons w ws)
  show ?case
  proof (cases i)
    case 0
    then show ?thesis by (simp add: put_words_far get32_put32_same)
  next
    case (Suc l)
    then show ?thesis using Cons.IH [of l "k + 4"] Cons.prems by (simp add: ac_simps)
  qed
qed simp

definition copy_inode :: "inode \<Rightarrow> inode \<Rightarrow> inode" where
  "copy_inode n m = m\<lparr>itype := itype n, imajor := imajor n, iminor := iminor n, inlink := inlink n, isize := isize n, addrs := addrs n\<rparr>"

lemma get_put_dinode:
  assumes l: "length (addrs n) = 13"
  shows "get_dinode (put_dinode n k d) k m = copy_inode n m"
    and "j + 64 \<le> k \<or> k + 64 \<le> j \<Longrightarrow> get_dinode (put_dinode n k d) j m = get_dinode d j m"
proof -
  have "map (\<lambda>i. get32 (put_dinode n k d) (k + 12 + 4 * i)) [0..<NDIRECT + 1] = addrs n"
    by (rule nth_equalityI) (use l put_words_get [of _ "addrs n" "k + 12"] in \<open>simp_all add: put_dinode_def ac_simps del: upt_Suc\<close>)
  moreover have "get16 (put_dinode n k d) k = itype n" "get16 (put_dinode n k d) (k + 2) = imajor n" "get16 (put_dinode n k d) (k + 4) = iminor n"
    "get16 (put_dinode n k d) (k + 6) = inlink n" "get32 (put_dinode n k d) (k + 8) = isize n"
    by (simp_all add: put_dinode_def put_words_far get16_far get16_put16_same get32_put32_same)
  ultimately show "get_dinode (put_dinode n k d) k m = copy_inode n m" by (simp add: get_dinode_def copy_inode_def)
  assume far: "j + 64 \<le> k \<or> k + 64 \<le> j"
  have h: "get16 (put_dinode n k d) (j + i) = get16 d (j + i)" if "i \<le> 6" for i
    using far l that by (auto simp: put_dinode_def put_words_far get16_far)
  have w: "get32 (put_dinode n k d) (j + i) = get32 d (j + i)" if "i \<le> 60" for i
    using far l that by (auto simp: put_dinode_def put_words_far get32_put32_far get32_put16_far)
  have "map (\<lambda>i. get32 (put_dinode n k d) (j + 12 + 4 * i)) [0..<NDIRECT + 1] = map (\<lambda>i. get32 d (j + 12 + 4 * i)) [0..<NDIRECT + 1]"
  proof (rule map_cong [OF refl])
    fix i assume "i \<in> set [0..<NDIRECT + 1]"
    then show "get32 (put_dinode n k d) (j + 12 + 4 * i) = get32 d (j + 12 + 4 * i)" using w [of "12 + 4 * i"] by (simp add: add.assoc)
  qed
  then show "get_dinode (put_dinode n k d) j m = get_dinode d j m"
    using h [of 0] h [of 2] h [of 4] h [of 6] w [of 8] by (simp add: get_dinode_def)
qed

lemma dinode_off_far:
  assumes "IBLOCK m q = IBLOCK n q" "m \<noteq> n"
  shows "dinode_off m + 64 \<le> dinode_off n \<or> dinode_off n + 64 \<le> dinode_off m"
proof -
  have "m div 8 = n div 8" using assms(1) by (simp add: IBLOCK_def)
  then have "m mod 8 \<noteq> n mod 8" using assms(2) by (metis word_mod_div_equality)
  then have "unat (m mod 8) \<noteq> unat (n mod 8)" by (simp add: word_unat_eq_iff)
  then show ?thesis by (auto simp: dinode_off_def)
qed

text \<open>The inode number \<open>m\<close> as it will be read from the cache or the disk into the entry \<open>e\<close>.\<close>

definition disk_inode :: "'z fs_st_scheme \<Rightarrow> u32 \<Rightarrow> inode \<Rightarrow> inode" where
  "disk_inode s m e = get_dinode (view s (IBLOCK m (sb s))) (dinode_off m) e"

lemma iupdate_ok:
  assumes s: "fs_ok s" "0 < spare s" and n: "idev (inodes s ! ip) = 1" "length (addrs (inodes s ! ip)) = 13"
    "IBLOCK (inum (inodes s ! ip)) (sb s) < disksize s"
  shows "\<exists>t. iupdate ip s = Ok t \<and> fs_ok t \<and> spare s - 1 \<le> spare t \<and> log_frame s t
    \<and> (\<forall>e. disk_inode t (inum (inodes s ! ip)) e = copy_inode (inodes s ! ip) e)
    \<and> (\<forall>m e. m \<noteq> inum (inodes s ! ip) \<longrightarrow> disk_inode t m e = disk_inode s m e)
    \<and> (\<forall>b. b \<noteq> IBLOCK (inum (inodes s ! ip)) (sb s) \<longrightarrow> view t b = view s b)"
proof -
  let ?n = "inodes s ! ip" let ?a = "IBLOCK (inum ?n) (sb s)" and ?f = "put_dinode ?n (dinode_off (inum ?n))"
  obtain x t1 t where t1: "bread 1 ?a s = Ok (x, t1)" "bio_frame s t1" "buf_data t1 x = view s ?a"
    and t: "bnd (log_write x (upd_data x ?f t1)) (brelse x) = Ok t" "fs_ok t" "view t = (view s)(?a := ?f (view s ?a))"
      "spare s - 1 \<le> spare t" "log_frame s t"
    using upd_block [OF s(1) n(3) s(2), of ?f] by - (elim exE conjE, rule that, assumption+)
  have "iupdate ip s = Ok t" using t1 t(1) n(1) frame_fs(2) [OF t1(2)] by (simp add: iupdate_def Let_def)
  moreover have "disk_inode t (inum ?n) e = copy_inode ?n e" for e
    using get_put_dinode(1) [OF n(2)] by (simp add: disk_inode_def t(3) frame_fs(3) [OF t(5)])
  moreover have "disk_inode t m e = disk_inode s m e" if "m \<noteq> inum ?n" for m e
    using get_put_dinode(2) [OF n(2)] dinode_off_far [OF _ that] by (simp add: disk_inode_def t(3) frame_fs(3) [OF t(5)])
  ultimately show ?thesis using t by (intro exI [of _ t]) simp
qed

section \<open>Locking an inode\<close>

lemma upd_inode_simps [simp]:
  "cache_inv h (upd_inode i f s) = cache_inv h s" "view (upd_inode i f s) = view s" "pinned (upd_inode i f s) = pinned s"
  "disk (upd_inode i f s) = disk s" "disksize (upd_inode i f s) = disksize s" "tx_ok (upd_inode i f s) = tx_ok s" "spare (upd_inode i f s) = spare s"
  "sb (upd_inode i f s) = sb s" "inodes (upd_inode i f s) = (inodes s)[i := f (inodes s ! i)]" "sleeplocks (upd_inode i f s) = sleeplocks s"
  "fs_ok (upd_inode i f s) = fs_ok s"
  by (simp_all add: upd_inode_def cache_inv_def bio_ok_def caches_def cpu_ok_def cur_def lock_free_def me_def pinned_def view_def tx_ok_def
    spare_def fs_ok_def fun_eq_iff cong: option.case_cong)

lemma sl_inode_simps [simp]:
  "cache_inv h (sl_upd (SL_inode i) b q s) = cache_inv h s" "view (sl_upd l b q s) = view s" "pinned (sl_upd l b q s) = pinned s"
  "disksize (sl_upd l b q s) = disksize s" "disk (sl_upd l b q s) = disk s"
  "tx_ok (sl_upd l b q t) = tx_ok t" "spare (sl_upd l b q t) = spare t" "sb (sl_upd l b q u) = sb u" "inodes (sl_upd l b q u) = inodes u"
  "fs_ok (sl_upd (SL_inode i) b q u) = fs_ok u"
  by (simp_all add: sl_upd_def cache_inv_def bio_ok_def caches_def cpu_ok_def cur_def lock_free_def me_def pinned_def view_def tx_ok_def
    spare_def fs_ok_def fun_eq_iff cong: option.case_cong)

lemma frame_slocks: "bio_frame s t \<Longrightarrow> sb t = sb s \<and> inodes t = inodes s"
  by (auto simp: bio_frame_def)

text \<open>
  Locking an inode that is not in memory reads it from its block; locking one that is only
  takes the lock.
\<close>

lemma ilock_ok:
  assumes s: "fs_ok s" "0 < spare s" and n: "1 \<le> iref (inodes s ! ip)" "ip < length (inodes s)" "\<not> slocked (sleeplocks s (SL_inode ip))"
    and d: "\<not> ivalid (inodes s ! ip)" "idev (inodes s ! ip) = 1" "IBLOCK (inum (inodes s ! ip)) (sb s) < disksize s"
  defines "e \<equiv> disk_inode s (inum (inodes s ! ip)) (inodes s ! ip)"
  shows "if itype e = 0 then ilock (Some ip) s = Panic ''ilock: no type''
    else \<exists>t. ilock (Some ip) s = Ok t \<and> inodes t = (inodes s)[ip := e\<lparr>ivalid := True\<rparr>] \<and> fs_ok t \<and> view t = view s
      \<and> spare t = spare s \<and> sb t = sb s \<and> disksize t = disksize s"
proof -
  have "cache_inv Map.empty s" using s(1) by (simp add: fs_ok_def)
  then obtain xs where ok: "bio_ok xs {} s" by (auto simp: cache_inv_def)
  obtain p where p: "cproc s (cur s) = Some p" using bio_okD(4) [OF ok] by blast
  let ?u = "sl_upd (SL_inode ip) True (pid (procs s ! p)) s"
  have a: "acquiresleep (SL_inode ip) s = Ok ?u" using bio_okD(2,3) [OF ok] n(3) p by (intro acquiresleep_ok) simp_all
  let ?n = "inodes s ! ip" let ?a = "IBLOCK (inum ?n) (sb s)"
  have iu: "cache_inv Map.empty ?u" "tx_ok ?u" "0 < spare ?u" "?a < disksize ?u" using s d(3) by (simp_all add: fs_ok_def)
  obtain x t1 where t1: "bread 1 ?a ?u = Ok (x, t1)" "cache_inv [x \<mapsto> ?a] t1" "view t1 = view s" "disk t1 = disk s" "pinned t1 = pinned s"
    "bio_frame ?u t1"
    using bc.rd [OF iu(1,4)] tx_card [OF iu(2,3)] by auto
  have b: "buf_data t1 x = view s ?a" using bc.dt [OF t1(2), of x ?a] t1(3) by simp
  note f1 = frame_slocks [OF t1(6)]
  let ?w = "upd_inode ip (get_dinode (buf_data t1 x) (dinode_off (inum ?n))) t1"
  have "?a \<in> pinned s \<or> view s ?a = disk s ?a" using quiet_view [OF \<open>cache_inv Map.empty s\<close>] by blast
  then obtain t where t: "brelse x ?w = Ok t" "cache_inv ([x \<mapsto> ?a](x := None)) t" "view t = view s" "pinned t = pinned s" "bio_frame ?w t"
    using bc.rl [of "[x \<mapsto> ?a]" ?w x ?a] t1 by auto
  have "[x \<mapsto> ?a](x := None) = Map.empty" by auto
  have it: "inodes t = (inodes s)[ip := e]" using frame_slocks [OF t(5)] f1 by (simp add: b e_def disk_inode_def)
  have x1: "tx_ok t1" "spare t1 = spare s" using tx.tx_fr [OF t1(6)] iu(2) t1(5) by simp_all
  then have tt: "tx_ok t" "spare t = spare s" using tx.tx_fr [OF t(5)] t(4) t1(5) by simp_all
  have fr: "sb t = sb s" "disksize t = disksize s" using frame_slocks [OF t(5)] f1 t1(6) t(5) by (auto simp: bio_frame_def)
  let ?r = "upd_inode ip (\<lambda>n. n\<lparr>ivalid := True\<rparr>) t"
  have ir: "inodes ?r = (inodes s)[ip := e\<lparr>ivalid := True\<rparr>]" using it n(2) by simp
  have "ilock (Some ip) s = (if itype (inodes ?r ! ip) = 0 then Panic ''ilock: no type'' else Ok ?r)"
    using a n(1) d(1,2) t1(1) f1 t(1) by (simp add: ilock_def Let_def buf_data_def)
  then show ?thesis using ir n(2) t(2,3) tt fr \<open>[x \<mapsto> ?a](x := None) = Map.empty\<close> by (auto simp: fs_ok_def)
qed

text \<open>
  An inode written back is found again. \<open>iupdate\<close> puts the in-memory inode into its block of
  the inode table as part of the transaction and disturbs no other inode; when an entry of
  the inode cache is later taken for the same inode number, \<open>ilock\<close> fills it with exactly the
  type, device numbers, link count, size and block addresses that were written, and panics
  exactly when that type is 0.
\<close>

theorem iupdate_ilock:
  assumes s: "fs_ok s" "1 < spare s" and n: "idev (inodes s ! ip) = 1" "length (addrs (inodes s ! ip)) = 13"
    "IBLOCK (inum (inodes s ! ip)) (sb s) < disksize s"
    and j: "jp < length (inodes s)" "1 \<le> iref e" "\<not> ivalid e" "idev e = 1" "inum e = inum (inodes s ! ip)"
  shows "\<exists>t. iupdate ip s = Ok t \<and> inodes t = inodes s \<and> (\<forall>m e. m \<noteq> inum (inodes s ! ip) \<longrightarrow> disk_inode t m e = disk_inode s m e)
    \<and> (\<not> slocked (sleeplocks t (SL_inode jp)) \<longrightarrow>
        (if itype (inodes s ! ip) = 0 then ilock (Some jp) (upd_inode jp (\<lambda>_. e) t) = Panic ''ilock: no type''
         else \<exists>u. ilock (Some jp) (upd_inode jp (\<lambda>_. e) t) = Ok u
           \<and> inodes u ! jp = (copy_inode (inodes s ! ip) e)\<lparr>ivalid := True\<rparr>))"
proof -
  let ?n = "inodes s ! ip"
  have "0 < spare s" using s(2) by simp
  then obtain t where t: "iupdate ip s = Ok t" "fs_ok t" "spare s - 1 \<le> spare t" "log_frame s t"
    "\<forall>e. disk_inode t (inum ?n) e = copy_inode ?n e" "\<forall>m e. m \<noteq> inum ?n \<longrightarrow> disk_inode t m e = disk_inode s m e"
    using iupdate_ok [OF s(1) _ n] by auto
  note f = frame_fs(3,4) [OF t(4)] log_frame_fields(3) [OF t(4)]
  let ?t = "upd_inode jp (\<lambda>_. e) t"
  have ej: "inodes ?t ! jp = e" "jp < length (inodes ?t)" using j(1) f by simp_all
  have di: "disk_inode ?t (inum ?n) e = copy_inode ?n e" using t(5) by (simp add: disk_inode_def)
  have "if itype ?n = 0 then ilock (Some jp) ?t = Panic ''ilock: no type''
         else \<exists>u. ilock (Some jp) ?t = Ok u \<and> inodes u ! jp = (copy_inode ?n e)\<lparr>ivalid := True\<rparr>"
    if "\<not> slocked (sleeplocks t (SL_inode jp))"
  proof -
    have "fs_ok ?t" "0 < spare ?t" "IBLOCK (inum (inodes ?t ! jp)) (sb ?t) < disksize ?t" using t(2,3) s(2) n(3) j(5) ej f by simp_all
    moreover have "\<not> slocked (sleeplocks ?t (SL_inode jp))" using that by simp
    ultimately show ?thesis using ilock_ok [of ?t jp] j ej di by (auto simp: copy_inode_def split: if_splits)
  qed
  then show ?thesis using t f by (intro exI [of _ t]) auto
qed


definition inode0 :: inode where
  "inode0 = \<lparr>idev = 1, inum = 5, iref = 1, ivalid = True, itype = 2, imajor = 0, iminor = 0, inlink = 1, isize = 700, addrs = [70, 71] @ replicate 11 0\<rparr>"

theorem iupdate_ilock_witness:
  "\<exists>t. iupdate 0 (upd_inode 0 (\<lambda>_. inode0) fs0) = Ok t \<and> inodes t ! 0 = inode0"
proof -
  let ?s = "upd_inode 0 (\<lambda>_. inode0) fs0" and ?e = "inode0\<lparr>ivalid := False\<rparr>"
  have l: "length (inodes fs0) = 50" by (simp add: fs0_def log_st.defs)
  then have i: "inodes ?s ! 0 = inode0" by simp
  have "fs_ok ?s" "1 < spare ?s" "0 < length (inodes ?s)" using fs0_ok l by simp_all
  moreover have "idev (inodes ?s ! 0) = 1" "length (addrs (inodes ?s ! 0)) = 13" "IBLOCK (inum (inodes ?s ! 0)) (sb ?s) < disksize ?s"
    "1 \<le> iref ?e" "\<not> ivalid ?e" "idev ?e = 1" "inum ?e = inum (inodes ?s ! 0)"
    by (simp_all only: i) (simp_all add: inode0_def IBLOCK_def fs0_fields)
  ultimately show ?thesis using iupdate_ilock [of ?s 0 0 ?e] i by auto
qed

end
