(* ===== verification/Fs_Data.thy ===== *)
theory Fs_Data
  imports Fs_Laws
begin

text \<open>
  File content: what \<open>readi\<close> and \<open>writei\<close> of \<open>fs.c\<close> do to the bytes of a file. \<open>faddr\<close> is the map from
  the blocks of a file to the blocks of the disk, through the direct addresses and the
  indirect block, \<open>fbyte\<close> the file as a sequence of bytes, \<open>data_ok\<close> the invariant of the map.
\<close>

section \<open>The blocks of a file\<close>

text \<open>The block that holds block \<open>bn\<close> of a file, and a byte of its content.\<close>

definition faddr :: "'z fs_st_scheme \<Rightarrow> nat \<Rightarrow> nat \<Rightarrow> u32" where
  "faddr s ip bn =
     (if bn < NDIRECT then addrs (inodes s ! ip) ! bn
      else get32 (view s (addrs (inodes s ! ip) ! NDIRECT)) (4 * (bn - NDIRECT)))"

definition fbyte :: "'z fs_st_scheme \<Rightarrow> nat \<Rightarrow> nat \<Rightarrow> u8" where
  "fbyte s ip k = view s (faddr s ip (k div BSIZE)) (k mod BSIZE)"

text \<open>A block that belongs to a file: on the disk, marked in the bitmap and not part of it.\<close>

definition owned :: "'z fs_st_scheme \<Rightarrow> u32 \<Rightarrow> bool" where
  "owned s b \<longleftrightarrow> b \<noteq> 0 \<and> b < disksize s \<and> unat b < unat (sb_size (sb s)) \<and> used s (unat b)
     \<and> (\<forall>e < unat (sb_size (sb s)). b \<noteq> bitmap_block (sb s) e)"

text \<open>The first \<open>n\<close> blocks of a file are there, are different blocks, and the direct ones after them are not.\<close>

definition data_ok :: "'z fs_st_scheme \<Rightarrow> nat \<Rightarrow> nat \<Rightarrow> bool" where
  "data_ok s ip n \<longleftrightarrow> ip < length (inodes s) \<and> idev (inodes s ! ip) = 1 \<and> length (addrs (inodes s ! ip)) = 13 \<and> n \<le> MAXFILE
     \<and> (\<forall>bn < n. owned s (faddr s ip bn)) \<and> inj_on (faddr s ip) {..<n}
     \<and> (NDIRECT < n \<longrightarrow> owned s (addrs (inodes s ! ip) ! NDIRECT) \<and> addrs (inodes s ! ip) ! NDIRECT \<notin> faddr s ip ` {..<n})
     \<and> (\<forall>bn. n \<le> bn \<longrightarrow> bn < NDIRECT \<longrightarrow> addrs (inodes s ! ip) ! bn = 0)"

definition bitmap_ok :: "'z fs_st_scheme \<Rightarrow> bool" where
  "bitmap_ok s \<longleftrightarrow> bitmap_fits s \<and> bitmap_marked s \<and> used s 0"

lemma bio_frame_refl: "bio_frame s s"
  by (rule bio_frameI) simp

lemma bmap_mapped:
  assumes "fs_ok s" "0 < spare s" "data_ok s ip n" "bn < n"
  shows "\<exists>t. bmap ip bn s = Ok (faddr s ip bn, t) \<and> fs_ok t \<and> view t = view s \<and> spare t = spare s \<and> bio_frame s t"
proof (cases "bn < NDIRECT")
  case True
  have "faddr s ip bn \<noteq> 0" using assms(3,4) by (auto simp: data_ok_def owned_def)
  then have "bmap ip bn s = Ok (faddr s ip bn, s)" using True by (simp add: bmap_def faddr_def)
  then show ?thesis using assms(1) bio_frame_refl by blast
next
  case False
  let ?i = "addrs (inodes s ! ip) ! NDIRECT"
  have i: "?i \<noteq> 0" "?i < disksize s" "faddr s ip bn \<noteq> 0" "bn - NDIRECT < NINDIRECT" "idev (inodes s ! ip) = 1"
    using assms(3,4) False by (auto simp: data_ok_def owned_def)
  obtain x t1 t where t: "bread 1 ?i s = Ok (x, t1)" "bio_frame s t1" "buf_data t1 x = view s ?i" "brelse x t1 = Ok t"
    "fs_ok t" "view t = view s" "spare t = spare s" "bio_frame s t"
    using look_block [OF assms(1) i(2) assms(2)] by - (elim exE conjE, rule that, assumption+)
  have "bmap ip bn s = Ok (faddr s ip bn, t)"
    using False i t(1,3,4) unfolding bmap_def faddr_def by (simp add: Let_def buf_data_def)
  then show ?thesis using t(5-8) by blast
qed

lemma faddr_cong:
  "inodes t = inodes s \<Longrightarrow> view t (addrs (inodes s ! ip) ! NDIRECT) = view s (addrs (inodes s ! ip) ! NDIRECT) \<or> bn < NDIRECT \<Longrightarrow>
   faddr t ip bn = faddr s ip bn"
  by (auto simp: faddr_def)

text \<open>Looking at the file changes nothing in it.\<close>

lemma data_ok_look:
  assumes "bio_frame s t" "view t = view s"
  shows "faddr t ip bn = faddr s ip bn" "fbyte t ip k = fbyte s ip k" "data_ok t ip n = data_ok s ip n" "bitmap_ok t = bitmap_ok s"
    "used t c = used s c" "owned t b = owned s b"
proof -
  have f: "inodes t = inodes s" "sb t = sb s" "disksize t = disksize s" using assms(1) by (auto simp: bio_frame_def)
  show a: "faddr t ip bn = faddr s ip bn" for bn by (simp add: faddr_def assms(2) f)
  show u: "used t c = used s c" for c by (simp add: used_def assms(2) f)
  show o: "owned t b = owned s b" for b by (simp add: owned_def u f)
  show "fbyte t ip k = fbyte s ip k" by (simp add: fbyte_def a assms(2))
  show "data_ok t ip n = data_ok s ip n" by (simp add: data_ok_def a o f cong: inj_on_cong image_cong)
  show "bitmap_ok t = bitmap_ok s" by (simp add: bitmap_ok_def bitmap_fits_def bitmap_marked_def u f)
qed

section \<open>Reading\<close>

lemma same_block:
  assumes "off mod BSIZE + i < BSIZE"
  shows "(off + i) div BSIZE = off div BSIZE" "(off + i) mod BSIZE = off mod BSIZE + i"
proof -
  have e: "off + i = off mod BSIZE + i + BSIZE * (off div BSIZE)" by simp
  show "(off + i) div BSIZE = off div BSIZE" using assms unfolding e by (subst div_mult_self2) simp_all
  show "(off + i) mod BSIZE = off mod BSIZE + i" using assms unfolding e by (subst mod_mult_self2) simp
qed

lemma chunk_bytes:
  assumes "m = blk_chunk off l"
  shows "map (\<lambda>k. view s (faddr s ip (off div BSIZE)) (off mod BSIZE + k)) [0..<m] = map (fbyte s ip) [off..<off + m]"
proof (rule nth_equalityI)
  fix i assume "i < length (map (\<lambda>k. view s (faddr s ip (off div BSIZE)) (off mod BSIZE + k)) [0..<m])"
  then have i: "i < m" by simp
  then have "off mod BSIZE + i < BSIZE" using assms unfolding blk_chunk_def by linarith
  then show "map (\<lambda>k. view s (faddr s ip (off div BSIZE)) (off mod BSIZE + k)) [0..<m] ! i = map (fbyte s ip) [off..<off + m] ! i"
    using i same_block [of off i] by (simp add: fbyte_def)
qed simp

lemma readi_loop_ok:
  assumes "fs_ok s" "0 < spare s" "data_ok s ip n" "off + l \<le> n * BSIZE"
  shows "\<exists>t. readi_loop ip off l s = Ok (map (fbyte s ip) [off..<off + l], t) \<and> fs_ok t \<and> view t = view s \<and> spare t = spare s \<and> bio_frame s t"
  using assms
proof (induction l arbitrary: off s rule: less_induct)
  case (less l)
  show ?case
  proof (cases "l = 0")
    case True
    then show ?thesis using less.prems bio_frame_refl by (simp add: readi_loop.simps) blast
  next
    case False
    let ?bn = "off div BSIZE" and ?m = "blk_chunk off l"
    have m: "0 < ?m" "?m \<le> l" using False blk_chunk_pos(1) [of l off] blk_chunk_pos(2) [of off l] by simp_all
    have bn: "?bn < n" using less.prems(4) False by (simp add: div_less_iff_less_mult)
    obtain t0 where t0: "bmap ip ?bn s = Ok (faddr s ip ?bn, t0)" "fs_ok t0" "view t0 = view s" "spare t0 = spare s" "bio_frame s t0"
      using bmap_mapped [OF less.prems(1-3) bn] by blast
    have f0: "inodes t0 = inodes s" "disksize t0 = disksize s" using t0(5) by (auto simp: bio_frame_def)
    have own: "faddr s ip ?bn < disksize t0" "idev (inodes t0 ! ip) = 1"
      using less.prems(3) bn f0 by (auto simp: data_ok_def owned_def)
    have sp: "0 < spare t0" using t0(4) less.prems(2) by simp
    obtain x t1 t2 where t: "bread 1 (faddr s ip ?bn) t0 = Ok (x, t1)" "bio_frame t0 t1" "buf_data t1 x = view t0 (faddr s ip ?bn)"
      "brelse x t1 = Ok t2" "fs_ok t2" "view t2 = view t0" "spare t2 = spare t0" "bio_frame t0 t2"
      using look_block [OF t0(2) own(1) sp] by - (elim exE conjE, rule that, assumption+)
    have f: "bio_frame s t2" "view t2 = view s" "spare t2 = spare s" using bio_frame_trans [OF t0(5) t(8)] t t0 by simp_all
    note D = data_ok_look [OF f(1,2)]
    obtain t3 where t3: "readi_loop ip (off + ?m) (l - ?m) t2 = Ok (map (fbyte t2 ip) [off + ?m..<off + ?m + (l - ?m)], t3)"
      "fs_ok t3" "view t3 = view t2" "spare t3 = spare t2" "bio_frame t2 t3"
      using less.IH [of "l - ?m" t2 "off + ?m"] m t(5) f less.prems D(3) by auto
    have b: "map (\<lambda>k. bdata (bufs t1 x) (off mod BSIZE + k)) [0..<?m] = map (fbyte s ip) [off..<off + ?m]"
      using chunk_bytes [of "?m" off l s ip] t(3) t0(3) by (simp add: buf_data_def)
    have "readi_loop ip off l s = Ok (map (fbyte s ip) [off..<off + ?m] @ map (fbyte t2 ip) [off + ?m..<off + l], t3)"
      using False t0(1) t(1,4) own(2) t3(1) b m(2) frame_fs(2) [OF t(2)] by (subst readi_loop.simps) (simp add: Let_def)
    moreover have "fbyte t2 ip = fbyte s ip" using D(2) by blast
    moreover have "[off..<off + l] = [off..<off + ?m] @ [off + ?m..<off + l]" using upt_add_eq_append [of off "off + ?m" "l - ?m"] m by simp
    ultimately show ?thesis using t3(2-5) f bio_frame_trans [OF f(1) t3(5)] by auto
  qed
qed

section \<open>Finding or adding a block\<close>

definition free_blocks :: "'z fs_st_scheme \<Rightarrow> nat" where
  "free_blocks s = card {c. c < unat (sb_size (sb s)) \<and> \<not> used s c}"

text \<open>A block in use that is neither part of the bitmap nor one of the first \<open>n\<close> blocks of the file.\<close>

definition kept :: "'z fs_st_scheme \<Rightarrow> nat \<Rightarrow> nat \<Rightarrow> u32 \<Rightarrow> bool" where
  "kept s ip n b \<longleftrightarrow> unat b < unat (sb_size (sb s)) \<and> used s (unat b) \<and> (\<forall>e < unat (sb_size (sb s)). b \<noteq> bitmap_block (sb s) e)
     \<and> b \<notin> faddr s ip ` {..<n}"

text \<open>The number of the block that holds the indirect addresses.\<close>

definition indb :: "'z fs_st_scheme \<Rightarrow> nat \<Rightarrow> u32" where
  "indb s ip = addrs (inodes s ! ip) ! NDIRECT"

text \<open>
  Nothing is mapped behind the first \<open>n\<close> blocks: the entries of the indirect block from there on are 0,
  and when the file has no more than its direct blocks, there is no indirect block.
\<close>

definition tail_ok :: "'z fs_st_scheme \<Rightarrow> nat \<Rightarrow> nat \<Rightarrow> bool" where
  "tail_ok s ip n \<longleftrightarrow> (if NDIRECT < n then \<forall>bn. n \<le> bn \<longrightarrow> bn < MAXFILE \<longrightarrow> faddr s ip bn = 0 else indb s ip = 0)"

text \<open>
  What writing to a file may do to the rest: the file grows from \<open>n\<close> to \<open>m\<close> blocks, by blocks that
  were free. Its indirect block may be one of them, and is written to when addresses are added to it.
\<close>

definition grow :: "nat \<Rightarrow> 'z fs_st_scheme \<Rightarrow> nat \<Rightarrow> 'z fs_st_scheme \<Rightarrow> nat \<Rightarrow> bool" where
  "grow ip s n t m \<longleftrightarrow> n \<le> m \<and> sb t = sb s \<and> disksize t = disksize s
     \<and> (\<exists>a. inodes t = (inodes s)[ip := (inodes s ! ip)\<lparr>addrs := a\<rparr>])
     \<and> (indb t ip = indb s ip \<or> n \<le> NDIRECT \<and> unat (indb t ip) < unat (sb_size (sb s)) \<and> \<not> used s (unat (indb t ip)))
     \<and> (\<forall>bn < n. faddr t ip bn = faddr s ip bn) \<and> (\<forall>c < unat (sb_size (sb s)). used s c \<longrightarrow> used t c)
     \<and> (\<forall>bn. n \<le> bn \<longrightarrow> bn < m \<longrightarrow> unat (faddr t ip bn) < unat (sb_size (sb s)) \<and> \<not> used s (unat (faddr t ip bn)))
     \<and> (\<forall>b. kept s ip n b \<longrightarrow> (b = indb s ip \<longrightarrow> b = 0 \<or> n = m \<or> m \<le> NDIRECT) \<longrightarrow> view t b = view s b)"

lemma grow_kept:
  assumes "grow ip s n t m" "kept s ip n b"
  shows "kept t ip m b"
proof -
  have "b \<noteq> faddr t ip bn" if "bn < m" for bn using that assms by (cases "bn < n") (auto simp: grow_def kept_def)
  then show ?thesis using assms by (auto simp: grow_def kept_def)
qed

lemma grow_trans:
  assumes "grow ip s n t m" "grow ip t m u l"
  shows "grow ip s n u l"
proof -
  have sb: "sb t = sb s" "n \<le> m" "m \<le> l" using assms by (simp_all add: grow_def)
  obtain a where a: "inodes t = (inodes s)[ip := (inodes s ! ip)\<lparr>addrs := a\<rparr>]" using assms(1) by (auto simp: grow_def)
  obtain b where b: "inodes u = (inodes t)[ip := (inodes t ! ip)\<lparr>addrs := b\<rparr>]" using assms(2) by (auto simp: grow_def)
  have i: "\<exists>b. inodes u = (inodes s)[ip := (inodes s ! ip)\<lparr>addrs := b\<rparr>]"
    using a b by (cases "ip < length (inodes s)") (auto simp: list_update_beyond)
  have new: "unat (faddr u ip bn) < unat (sb_size (sb s)) \<and> \<not> used s (unat (faddr u ip bn))" if "n \<le> bn" "bn < l" for bn
  proof (cases "bn < m")
    case True
    then show ?thesis using that(1) assms by (simp add: grow_def)
  next
    case False
    then have "unat (faddr u ip bn) < unat (sb_size (sb s))" "\<not> used t (unat (faddr u ip bn))"
      using that(2) assms(2) sb by (simp_all add: grow_def)
    then show ?thesis using assms(1) unfolding grow_def by blast
  qed
  have it: "indb t ip = indb s ip \<or> n \<le> NDIRECT \<and> unat (indb t ip) < unat (sb_size (sb s)) \<and> \<not> used s (unat (indb t ip))"
    using assms(1) by (simp add: grow_def)
  have "indb u ip = indb t ip \<or> m \<le> NDIRECT \<and> unat (indb u ip) < unat (sb_size (sb s)) \<and> \<not> used t (unat (indb u ip))"
    using assms(2) sb(1) by (simp add: grow_def)
  moreover have us: "\<And>c. c < unat (sb_size (sb s)) \<Longrightarrow> used s c \<Longrightarrow> used t c" using assms(1) by (simp add: grow_def)
  ultimately have ind: "indb u ip = indb s ip \<or> n \<le> NDIRECT \<and> unat (indb u ip) < unat (sb_size (sb s)) \<and> \<not> used s (unat (indb u ip))"
    using it sb(2) by (metis le_trans)
  have k: "view u x = view s x" if x: "kept s ip n x" "x = indb s ip \<longrightarrow> x = 0 \<or> n = l \<or> l \<le> NDIRECT" for x
  proof -
    have "x = indb s ip \<longrightarrow> x = 0 \<or> n = m \<or> m \<le> NDIRECT" "x = indb t ip \<longrightarrow> x = 0 \<or> m = l \<or> l \<le> NDIRECT"
      using x sb(2,3) it by (auto simp: kept_def)
    then show ?thesis using assms x(1) grow_kept [OF assms(1) x(1)] unfolding grow_def by metis
  qed
  have "n \<le> l" "sb u = sb s" "disksize u = disksize s" "\<forall>bn < n. faddr u ip bn = faddr s ip bn"
    "\<forall>c < unat (sb_size (sb s)). used s c \<longrightarrow> used u c" using assms by (auto simp: grow_def)
  then show ?thesis using i ind new k unfolding grow_def by blast
qed

lemma grow_refl: "ip < length (inodes s) \<Longrightarrow> grow ip s n s n"
  by (auto simp: grow_def intro!: exI [of _ "addrs (inodes s ! ip)"])

lemma free_blocks_le:
  assumes "sb t = sb s" "\<And>e. e < unat (sb_size (sb s)) \<Longrightarrow> used t e \<Longrightarrow> e = c \<or> used s e"
  shows "free_blocks s \<le> Suc (free_blocks t)"
proof -
  let ?N = "unat (sb_size (sb s))"
  have "{e. e < ?N \<and> \<not> used s e} \<subseteq> insert c {e. e < ?N \<and> \<not> used t e}" using assms(2) by auto
  then have "free_blocks s \<le> card (insert c {e. e < ?N \<and> \<not> used t e})" unfolding free_blocks_def by (intro card_mono) auto
  also have "\<dots> \<le> Suc (free_blocks t)" unfolding free_blocks_def assms(1) by (intro card_insert_le_m1) auto
  finally show ?thesis .
qed

lemma unat_blk: "c < unat (sb_size q) \<Longrightarrow> unat (of_nat c :: u32) = c"
  using size_lt [of q] by (simp add: unat_of_nat)

text \<open>One free block, \<open>c\<close>, comes into use.\<close>

definition takes :: "'z fs_st_scheme \<Rightarrow> nat \<Rightarrow> 'z fs_st_scheme \<Rightarrow> bool" where
  "takes s c t \<longleftrightarrow> c < unat (sb_size (sb s)) \<and> \<not> used s c \<and> sb t = sb s \<and> disksize t = disksize s
     \<and> (\<forall>e < unat (sb_size (sb s)). used t e \<longleftrightarrow> e = c \<or> used s e)"

lemma takes_facts:
  assumes b: "bitmap_ok s" and t: "takes s c t"
  shows "bitmap_ok t" "owned t (of_nat c)" "owned s b \<Longrightarrow> owned t b" "owned s b \<Longrightarrow> b \<noteq> of_nat c" "kept s ip n b \<Longrightarrow> b \<noteq> of_nat c"
    "(of_nat c :: u32) \<noteq> 0" "unat (of_nat c :: u32) = c" "free_blocks s \<le> Suc (free_blocks t)"
proof -
  let ?N = "unat (sb_size (sb s))"
  have c: "c < ?N" "\<not> used s c" and f: "sb t = sb s" "disksize t = disksize s" and u: "\<And>e. e < ?N \<Longrightarrow> used t e \<longleftrightarrow> e = c \<or> used s e"
    using t by (simp_all add: takes_def)
  have bo: "bitmap_fits s" "bitmap_marked s" "used s 0" using b by (simp_all add: bitmap_ok_def)
  show uc: "unat (of_nat c :: u32) = c" by (rule unat_blk [OF c(1)])
  have "c \<noteq> 0" using bo(3) c(2) by (cases c) auto
  then show c0: "(of_nat c :: u32) \<noteq> 0" using uc by (metis unat_0)
  have ne: "of_nat c \<noteq> bitmap_block (sb s) e" if "e < ?N" for e using bo(2) c that unfolding bitmap_marked_def by blast
  show "owned t (of_nat c)" using c0 c uc u ne bo(1) f by (auto simp: owned_def bitmap_fits_def)
  show "owned t b" if "owned s b" using that u f by (auto simp: owned_def)
  show "b \<noteq> of_nat c" if "owned s b" using that c uc by (auto simp: owned_def)
  show "b \<noteq> of_nat c" if "kept s ip n b" using that c(2) uc unfolding kept_def by metis
  show "bitmap_ok t" using bo u c f unfolding bitmap_ok_def bitmap_fits_def bitmap_marked_def
    by (metis (no_types, lifting) not_gr_zero not_less_zero)
  show "free_blocks s \<le> Suc (free_blocks t)" by (rule free_blocks_le [OF f(1), of c]) (use u in auto)
qed

text \<open>The block comes into use as block \<open>n\<close> of the file.\<close>

lemma takes_data:
  assumes b: "bitmap_ok s" and t: "takes s c t" and d: "data_ok s ip n" "n < MAXFILE"
    and i: "inodes t = (inodes s)[ip := (inodes s ! ip)\<lparr>addrs := a\<rparr>]" "length a = 13"
    and fa: "\<And>i. i \<le> n \<Longrightarrow> faddr t ip i = (if i = n then of_nat c else faddr s ip i)"
    and z: "\<And>i. n < i \<Longrightarrow> i < NDIRECT \<Longrightarrow> a ! i = 0"
    and ind: "NDIRECT \<le> n \<Longrightarrow> a ! NDIRECT = indb s ip \<and> owned s (indb s ip) \<and> indb s ip \<notin> faddr s ip ` {..<n}"
  shows "data_ok t ip (Suc n)"
proof -
  note F = takes_facts [OF b t]
  have ds: "ip < length (inodes s)" "idev (inodes s ! ip) = 1" "inj_on (faddr s ip) {..<n}" "\<And>i. i < n \<Longrightarrow> owned s (faddr s ip i)"
    using d(1) by (auto simp: data_ok_def)
  have old: "faddr s ip i \<noteq> of_nat c" if "i < n" for i using F(4) ds(4) [OF that] by blast
  have ow: "owned t (faddr t ip i)" if "i < Suc n" for i
  proof (cases "i = n")
    case True
    then show ?thesis using fa [of n] F(2) by simp
  next
    case False
    then have "i < n" using that by simp
    then show ?thesis using fa [of i] F(3) [OF ds(4)] by simp
  qed
  have inj: "inj_on (faddr t ip) {..<Suc n}"
    using ds(3) fa old by (auto simp: inj_on_def less_Suc_eq) (metis less_imp_le)+
  have "a ! NDIRECT \<notin> faddr t ip ` {..<Suc n} \<and> owned t (a ! NDIRECT)" if n: "NDIRECT \<le> n"
  proof -
    note x = ind [OF n]
    have "a ! NDIRECT \<noteq> faddr t ip j" if "j < Suc n" for j
      using x fa [of j] that F(4) by (cases "j = n") auto
    then show ?thesis using x F(3) by auto
  qed
  then show ?thesis using d(2) ds(1,2) i ow inj z unfolding data_ok_def by auto
qed

text \<open>\<open>balloc\<close> when a block is free, with buffers held that are neither free nor part of the bitmap.\<close>

lemma balloc_new:
  assumes s: "fs_held h s" "int (card (dom h)) + 2 \<le> spare s" "aside h s" "bitmap_ok s" "0 < free_blocks s"
  shows "\<exists>c t. balloc 1 s = Ok (of_nat c, t) \<and> takes s c t \<and> fs_held h t \<and> spare s - 2 \<le> spare t \<and> log_frame s t
    \<and> view t (of_nat c) = fill 0 BSIZE 0 (view s (of_nat c))
    \<and> (\<forall>b. b \<noteq> of_nat c \<longrightarrow> (\<forall>e < unat (sb_size (sb s)). b \<noteq> bitmap_block (sb s) e) \<longrightarrow> view t b = view s b)"
proof -
  let ?N = "unat (sb_size (sb s))" and ?a = "bitmap_block (sb s)"
  have free: "\<not> (\<forall>c < ?N. used s c)" using s(5) by (auto simp: free_blocks_def card_gt_0_iff)
  have fits: "bitmap_fits s" "bitmap_marked s" using s(4) by (simp_all add: bitmap_ok_def)
  obtain c u where c: "balloc 1 s = Ok (of_nat c, u)" "c < ?N" "\<not> used s c"
    and u: "fs_held h u" "spare s - 2 \<le> spare u" "log_frame s u"
      "let v = (view s)(?a c := set_bit_at (c mod BPB) (view s (?a c))) in view u = v(of_nat c := fill 0 BSIZE 0 (v (of_nat c)))"
    using balloc_held(2) [OF s(1,2) fits(1) s(3) free] by - (elim exE conjE, rule that, assumption+)
  have ne: "of_nat c \<noteq> ?a e" if "e < ?N" for e using fits(2) c(2,3) that unfolding bitmap_marked_def by blast
  have v: "view u = (view s)(?a c := set_bit_at (c mod BPB) (view s (?a c)), of_nat c := fill 0 BSIZE 0 (view s (of_nat c)))"
    using u(4) ne [OF c(2)] by (simp add: Let_def)
  have f: "sb u = sb s" "disksize u = disksize s" using frame_fs(3) [OF u(3)] log_frame_fields(3) [OF u(3)] by simp_all
  have "used u e \<longleftrightarrow> e = c \<or> used s e" if e: "e < ?N" for e
  proof -
    have "view u (?a e) = (if ?a e = ?a c then set_bit_at (c mod BPB) (view s (?a c)) else view s (?a e))" using ne [OF e] v by simp
    then show ?thesis using bitmap_block_inj [of "sb s" e c] e c(2) by (auto simp: used_def f bit_set_upd)
  qed
  then have "takes s c u" using c f by (simp add: takes_def)
  moreover have "\<forall>b. b \<noteq> of_nat c \<longrightarrow> (\<forall>e < ?N. b \<noteq> ?a e) \<longrightarrow> view u b = view s b" "view u (of_nat c) = fill 0 BSIZE 0 (view s (of_nat c))"
    using v c(2) by auto
  ultimately show ?thesis using c(1) u(1-3) by blast
qed

text \<open>The file has grown from \<open>n\<close> to \<open>m\<close> blocks and its old blocks have kept their content.\<close>

definition extends :: "nat \<Rightarrow> 'z fs_st_scheme \<Rightarrow> nat \<Rightarrow> 'z fs_st_scheme \<Rightarrow> nat \<Rightarrow> bool" where
  "extends ip s n t m \<longleftrightarrow> fs_ok t \<and> bitmap_ok t \<and> data_ok t ip m \<and> grow ip s n t m \<and> (tail_ok s ip n \<longrightarrow> tail_ok t ip m)
     \<and> (\<forall>i < n. view t (faddr s ip i) = view s (faddr s ip i))"

lemma indb_kept:
  "data_ok s ip n \<Longrightarrow> NDIRECT < n \<Longrightarrow> owned s (indb s ip) \<and> indb s ip \<notin> faddr s ip ` {..<n}"
  by (simp add: data_ok_def indb_def)

text \<open>\<open>bmap\<close> for the first direct block that is not there yet.\<close>

lemma bmap_new:
  assumes s: "fs_ok s" "2 \<le> spare s" "bitmap_ok s" "data_ok s ip n" "n < NDIRECT" "0 < free_blocks s"
  shows "\<exists>c u. takes s c u \<and> fs_held Map.empty u \<and> spare s - 2 \<le> spare u \<and> log_frame s u
    \<and> (\<forall>b. b \<noteq> of_nat c \<longrightarrow> (\<forall>e < unat (sb_size (sb s)). b \<noteq> bitmap_block (sb s) e) \<longrightarrow> view u b = view s b)
    \<and> bmap ip n s = Ok (of_nat c, upd_inode ip (\<lambda>i. i\<lparr>addrs := (addrs i)[n := of_nat c]\<rparr>) u)
    \<and> takes s c (upd_inode ip (\<lambda>i. i\<lparr>addrs := (addrs i)[n := of_nat c]\<rparr>) u)"
proof -
  let ?N = "unat (sb_size (sb s))"
  have h: "fs_held Map.empty s" "int (card (dom (Map.empty :: nat \<rightharpoonup> u32))) + 2 \<le> spare s" "aside Map.empty s"
    using s(1,2) by (simp_all add: fs_ok_held aside_def)
  obtain c u where c: "balloc 1 s = Ok (of_nat c, u)" and u: "takes s c u" "fs_held Map.empty u" "spare s - 2 \<le> spare u" "log_frame s u"
    and v: "\<forall>b. b \<noteq> of_nat c \<longrightarrow> (\<forall>e < ?N. b \<noteq> bitmap_block (sb s) e) \<longrightarrow> view u b = view s b"
    using balloc_new [OF h s(3,6)] by - (elim exE conjE, rule that, assumption+)
  let ?t = "upd_inode ip (\<lambda>i. i\<lparr>addrs := (addrs i)[n := of_nat c]\<rparr>) u"
  have "idev (inodes s ! ip) = 1" "addrs (inodes s ! ip) ! n = 0" using s(4,5) by (auto simp: data_ok_def)
  then have b: "bmap ip n s = Ok (of_nat c, ?t)" using s(5) c by (simp add: bmap_def)
  have "used ?t e = used u e" for e by (simp add: used_def)
  then have "takes s c ?t" using u(1) by (simp add: takes_def)
  then show ?thesis using u v b by blast
qed

lemma bmap_direct:
  assumes s: "fs_ok s" "2 \<le> spare s" "bitmap_ok s" "data_ok s ip n" "n < NDIRECT" "0 < free_blocks s"
  shows "\<exists>t. bmap ip n s = Ok (faddr t ip n, t) \<and> extends ip s n t (Suc n) \<and> spare s - 2 \<le> spare t \<and> free_blocks s \<le> Suc (free_blocks t)"
proof -
  let ?N = "unat (sb_size (sb s))"
  obtain c u where u: "takes s c u" "fs_held Map.empty u" "spare s - 2 \<le> spare u" "log_frame s u"
    and v: "\<forall>b. b \<noteq> of_nat c \<longrightarrow> (\<forall>e < ?N. b \<noteq> bitmap_block (sb s) e) \<longrightarrow> view u b = view s b"
    and c: "bmap ip n s = Ok (of_nat c, upd_inode ip (\<lambda>i. i\<lparr>addrs := (addrs i)[n := of_nat c]\<rparr>) u)"
    and tk': "takes s c (upd_inode ip (\<lambda>i. i\<lparr>addrs := (addrs i)[n := of_nat c]\<rparr>) u)"
    using bmap_new [OF s] by - (elim exE conjE, rule that, assumption+)
  have f: "sb u = sb s" "inodes u = inodes s" "disksize u = disksize s" using frame_fs(3,4) [OF u(4)] log_frame_fields(3) [OF u(4)] by simp_all
  have ds: "ip < length (inodes s)" "idev (inodes s ! ip) = 1" "length (addrs (inodes s ! ip)) = 13"
    "\<And>i. i < n \<Longrightarrow> owned s (faddr s ip i)" "\<And>i. n \<le> i \<Longrightarrow> i < NDIRECT \<Longrightarrow> addrs (inodes s ! ip) ! i = 0"
    using s(4) by (auto simp: data_ok_def)
  let ?a = "(addrs (inodes s ! ip))[n := of_nat c]"
  define t where "t = upd_inode ip (\<lambda>i. i\<lparr>addrs := (addrs i)[n := of_nat c]\<rparr>) u"
  have b: "bmap ip n s = Ok (of_nat c, t)" using c by (simp add: t_def)
  have t: "sb t = sb s" "disksize t = disksize s" "inodes t = (inodes s)[ip := (inodes s ! ip)\<lparr>addrs := ?a\<rparr>]" "view t = view u"
    "spare t = spare u" "fs_ok t" using u(2) f by (simp_all add: t_def fs_ok_held [symmetric])
  have tk: "takes s c t" using tk' by (simp add: t_def)
  note F = takes_facts [OF s(3) tk]
  have fa: "faddr t ip i = (if i = n then of_nat c else faddr s ip i)" if "i \<le> n" for i
    using that s(5) ds(1,3) t(3) by (auto simp: faddr_def)
  have "n < MAXFILE" using s(5) by simp
  then have dt: "data_ok t ip (Suc n)" by (rule takes_data [OF s(3) tk s(4) _ t(3)]) (use fa s(5) ds(3,5) in auto)
  have ib: "indb t ip = indb s ip" using t(3) ds(1,3) s(5) by (simp add: indb_def)
  have kv: "view t b = view s b" if "kept s ip n b" for b using that v t(4) F(5) [OF that] unfolding kept_def by simp
  have "grow ip s n t (Suc n)" unfolding grow_def
    using t fa ib kv tk F(7) by (auto simp: takes_def less_Suc_eq)
  moreover have "tail_ok s ip n \<longrightarrow> tail_ok t ip (Suc n)" using ib s(5) by (auto simp: tail_ok_def)
  moreover have "view t (faddr s ip i) = view s (faddr s ip i)" if "i < n" for i
    using v t(4) F(4) ds(4) [OF that] by (simp add: owned_def)
  ultimately show ?thesis using b fa [of n] dt F(1,8) t(5,6) u(3) unfolding extends_def by (intro exI [of _ t]) simp
qed

lemma get32_fill: "k + 4 \<le> n \<Longrightarrow> get32 (fill 0 n 0 d) k = 0"
  by (simp add: get32_def)

text \<open>The indirect block of a file that has all its direct blocks and no other.\<close>

lemma bmap_first:
  assumes s: "fs_ok s" "2 \<le> spare s" "bitmap_ok s" "data_ok s ip NDIRECT" "indb s ip = 0" "0 < free_blocks s"
  shows "\<exists>t. bmap ip NDIRECT s = bmap ip NDIRECT t \<and> fs_ok t \<and> bitmap_ok t \<and> data_ok t ip NDIRECT \<and> grow ip s NDIRECT t NDIRECT
    \<and> owned t (indb t ip) \<and> indb t ip \<notin> faddr t ip ` {..<NDIRECT} \<and> (\<forall>bn. NDIRECT \<le> bn \<longrightarrow> bn < MAXFILE \<longrightarrow> faddr t ip bn = 0)
    \<and> (\<forall>i < NDIRECT. view t (faddr s ip i) = view s (faddr s ip i)) \<and> spare s - 2 \<le> spare t \<and> free_blocks s \<le> Suc (free_blocks t)"
proof -
  let ?N = "unat (sb_size (sb s))"
  have h: "fs_held Map.empty s" "int (card (dom (Map.empty :: nat \<rightharpoonup> u32))) + 2 \<le> spare s" "aside Map.empty s"
    using s(1,2) by (simp_all add: fs_ok_held aside_def)
  obtain c u where c: "balloc 1 s = Ok (of_nat c, u)" and u: "takes s c u" "fs_held Map.empty u" "spare s - 2 \<le> spare u" "log_frame s u"
    "view u (of_nat c) = fill 0 BSIZE 0 (view s (of_nat c))"
    and v: "\<forall>b. b \<noteq> of_nat c \<longrightarrow> (\<forall>e < ?N. b \<noteq> bitmap_block (sb s) e) \<longrightarrow> view u b = view s b"
    using balloc_new [OF h s(3,6)] by - (elim exE conjE, rule that, assumption+)
  have f: "sb u = sb s" "inodes u = inodes s" "disksize u = disksize s" using frame_fs(3,4) [OF u(4)] log_frame_fields(3) [OF u(4)] by simp_all
  have ds: "ip < length (inodes s)" "idev (inodes s ! ip) = 1" "length (addrs (inodes s ! ip)) = 13" "inj_on (faddr s ip) {..<NDIRECT}"
    "\<And>i. i < NDIRECT \<Longrightarrow> owned s (faddr s ip i)" using s(4) by (auto simp: data_ok_def)
  let ?a = "(addrs (inodes s ! ip))[NDIRECT := of_nat c]"
  define t where "t = upd_inode ip (\<lambda>i. i\<lparr>addrs := (addrs i)[NDIRECT := of_nat c]\<rparr>) u"
  have t: "sb t = sb s" "disksize t = disksize s" "inodes t = (inodes s)[ip := (inodes s ! ip)\<lparr>addrs := ?a\<rparr>]" "view t = view u"
    "spare t = spare u" "fs_ok t" using u(2) f by (simp_all add: t_def fs_ok_held [symmetric])
  have tk: "takes s c t" using u(1) t by (simp add: takes_def used_def f)
  note F = takes_facts [OF s(3) tk]
  have it: "indb t ip = of_nat c" using t(3) ds(1,3) by (simp add: indb_def)
  have b: "bmap ip NDIRECT s = bmap ip NDIRECT t"
    using s(5) it F(6) c ds(2) unfolding bmap_def indb_def t_def by (simp add: Let_def)
  have fa: "faddr t ip i = faddr s ip i" if "i < NDIRECT" for i using that t(3) ds(1,3) by (simp add: faddr_def)
  have dt: "data_ok t ip NDIRECT"
  proof -
    have "inj_on (faddr t ip) {..<NDIRECT}" using ds(4) fa by (simp add: inj_on_def)
    moreover have "owned t (faddr t ip i)" if "i < NDIRECT" for i using fa [OF that] F(3) [OF ds(5) [OF that]] by simp
    ultimately show ?thesis using ds(1-3) t(3) by (simp add: data_ok_def)
  qed
  have "of_nat c \<noteq> faddr t ip j" if "j < NDIRECT" for j using F(4) [OF ds(5) [OF that]] fa [OF that] by simp
  then have nin: "indb t ip \<notin> faddr t ip ` {..<NDIRECT}" using it by auto
  have z: "faddr t ip bn = 0" if "NDIRECT \<le> bn" "bn < MAXFILE" for bn
    using that it u(5) t(4) by (simp add: faddr_def indb_def [symmetric] get32_fill)
  have kv: "view t b = view s b" if "kept s ip NDIRECT b" for b using that v t(4) F(5) [OF that] unfolding kept_def by simp
  have "grow ip s NDIRECT t NDIRECT" unfolding grow_def
    using t fa it kv tk F(7) by (auto simp: takes_def)
  moreover have "view t (faddr s ip i) = view s (faddr s ip i)" if "i < NDIRECT" for i
    using v t(4) F(4) ds(5) [OF that] by (simp add: owned_def)
  moreover have "owned t (indb t ip)" using it F(2) by simp
  ultimately show ?thesis using b dt nin z F(1,8) t(5,6) u(3) by (intro exI [of _ t]) simp
qed

text \<open>A new entry of the indirect block: \<open>bmap\<close> calls \<open>balloc\<close> while it holds the buffer of that block.\<close>

lemma bmap_entry:
  assumes s: "fs_ok s" "3 \<le> spare s" "bitmap_ok s" "data_ok s ip n" "NDIRECT \<le> n" "n < MAXFILE" "0 < free_blocks s"
    and i: "owned s (indb s ip)" "indb s ip \<notin> faddr s ip ` {..<n}" "\<forall>bn. n \<le> bn \<longrightarrow> bn < MAXFILE \<longrightarrow> faddr s ip bn = 0"
  shows "\<exists>t. bmap ip n s = Ok (faddr t ip n, t) \<and> extends ip s n t (Suc n) \<and> tail_ok t ip (Suc n)
    \<and> spare s - 3 \<le> spare t \<and> free_blocks s \<le> Suc (free_blocks t)"
proof -
  let ?N = "unat (sb_size (sb s))" and ?k = "4 * (n - NDIRECT)"
  define b where "b = indb s ip"
  have ci: "cache_inv Map.empty s" "tx_ok s" using s(1) by (simp_all add: fs_ok_def)
  have bs: "b < disksize s" "b \<noteq> 0" "used s (unat b)" "\<And>e. e < ?N \<Longrightarrow> b \<noteq> bitmap_block (sb s) e"
    using i(1) by (auto simp: owned_def b_def)
  obtain x t1 where t1: "bread 1 b s = Ok (x, t1)" "cache_inv [x \<mapsto> b] t1" "tx_ok t1" "view t1 = view s" "spare t1 = spare s" "bio_frame s t1"
    "buf_data t1 x = view s b"
    using tx.take_block [OF ci(1) bs(1) _ ci(2)] s(2) by auto
  note D = data_ok_look [OF t1(6,4)]
  have f1: "sb t1 = sb s" "inodes t1 = inodes s" "disksize t1 = disksize s" using t1(6) by (auto simp: bio_frame_def)
  have h: "fs_held [x \<mapsto> b] t1" "int (card (dom [x \<mapsto> b])) + 2 \<le> spare t1" "aside [x \<mapsto> b] t1" "bitmap_ok t1" "0 < free_blocks t1"
    using t1(2,3,5) s(2,3,7) D bs(3,4) f1 by (simp_all add: fs_held_def aside_def free_blocks_def)
  obtain c t2 where c: "balloc 1 t1 = Ok (of_nat c, t2)" and t2: "takes t1 c t2" "fs_held [x \<mapsto> b] t2" "spare t1 - 2 \<le> spare t2" "log_frame t1 t2"
    and v2: "\<forall>b. b \<noteq> of_nat c \<longrightarrow> (\<forall>e < ?N. b \<noteq> bitmap_block (sb s) e) \<longrightarrow> view t2 b = view s b"
    using balloc_new [OF h] unfolding f1 t1(4) by - (elim exE conjE, rule that, assumption+)
  have f2: "sb t2 = sb s" "inodes t2 = inodes s" "disksize t2 = disksize s"
    using frame_fs(3,4) [OF t2(4)] log_frame_fields(3) [OF t2(4)] f1 by simp_all
  have tk2: "takes s c t2" using t2(1) f1 f2 D(5) by (simp add: takes_def)
  have bc: "b \<noteq> of_nat c" using takes_facts(4) [OF s(3) tk2 i(1)] by (simp add: b_def)
  have c2: "cache_inv [x \<mapsto> b] t2" "tx_ok t2" "0 < spare t2" using t2(2,3) t1(5) s(2) by (simp_all add: fs_held_def)
  have d2: "buf_data t2 x = view s b" using bc.dt [OF c2(1), of x b] v2 bc bs(4) by simp
  let ?d = "put32 ?k (of_nat c) (view s b)"
  obtain t3 where t3: "log_write x (set_data x ?d t2) = Ok t3" "cache_inv [x \<mapsto> b] t3" "tx_ok t3" "view t3 = (view t2)(b := ?d)"
    "pinned t3 = insert b (pinned t2)" "spare t2 - 1 \<le> spare t3" "log_frame t2 t3"
    using tx.dirty_block [OF c2(1) _ c2(2,3), of x b ?d] by auto
  obtain t where t: "brelse x t3 = Ok t" "cache_inv Map.empty t" "tx_ok t" "view t = view t3" "spare t = spare t3" "bio_frame t3 t"
    using tx.drop_block [of Map.empty x b t3] t3(2,3,5) by auto
  note lf = log_frame_trans [OF log_frame_trans [OF t2(4) t3(7)] bio_log_frame [OF t(6)]]
  have f: "sb t = sb s" "inodes t = inodes s" "disksize t = disksize s" using frame_fs(3,4) [OF lf] log_frame_fields(3) [OF lf] f1 by simp_all
  have ds: "ip < length (inodes s)" "idev (inodes s ! ip) = 1" "length (addrs (inodes s ! ip)) = 13"
    "\<And>i. i < n \<Longrightarrow> owned s (faddr s ip i)" using s(4) by (auto simp: data_ok_def)
  have z: "get32 (view s b) ?k = 0" using i(3) s(5,6) by (simp add: faddr_def b_def indb_def)
  have bm: "bmap ip n s = Ok (of_nat c, t)"
    using s(5,6) bs(2) t1(1,7) z ds(2) c f1 f2 t3(1) t(1) d2
    by (simp add: bmap_def Let_def indb_def [symmetric] b_def [symmetric] buf_data_def [symmetric] upd_data_set)
  have vt: "view t = (view t2)(b := ?d)" using t(4) t3(4) by simp
  have u: "used t e = used t2 e" if "e < ?N" for e using bs(4) [OF that] vt by (simp add: used_def f f2)
  have tk: "takes s c t" using tk2 u f f2 by (simp add: takes_def)
  note F = takes_facts [OF s(3) tk]
  have ib: "indb t ip = b" by (simp add: indb_def f b_def)
  have far: "faddr t ip j = (if j = n then of_nat c else faddr s ip j)" if j: "j < MAXFILE" for j
  proof (cases "j < NDIRECT")
    case True
    then show ?thesis using s(5) by (simp add: faddr_def f)
  next
    case False
    have e: "faddr t ip j = get32 ?d (4 * (j - NDIRECT))" "faddr s ip j = get32 (view s b) (4 * (j - NDIRECT))"
      using False vt by (simp_all add: faddr_def f b_def indb_def)
    have "j - NDIRECT < n - NDIRECT \<or> n - NDIRECT < j - NDIRECT" if "j \<noteq> n" using that False s(5) by linarith
    then show ?thesis unfolding e by (auto simp: get32_put32_same intro!: get32_put32_far)
  qed
  have fa: "faddr t ip j = (if j = n then of_nat c else faddr s ip j)" if "j \<le> n" for j using far [of j] that s(6) by simp
  have inod: "inodes t = (inodes s)[ip := (inodes s ! ip)\<lparr>addrs := addrs (inodes s ! ip)\<rparr>]" by (simp add: f)
  have dt: "data_ok t ip (Suc n)" by (rule takes_data [OF s(3) tk s(4,6) inod]) (use fa s(5) ds(3) i in \<open>auto simp: indb_def\<close>)
  have kv: "view t y = view s y" if "kept s ip n y" "y = indb s ip \<longrightarrow> y = 0 \<or> n = Suc n \<or> Suc n \<le> NDIRECT" for y
  proof -
    have "y \<noteq> b" using that(2) bs(2) s(5) by (auto simp: b_def)
    then show ?thesis using that(1) v2 vt F(5) [OF that(1)] unfolding kept_def by simp
  qed
  have "\<exists>a. inodes t = (inodes s)[ip := (inodes s ! ip)\<lparr>addrs := a\<rparr>]" using inod by blast
  then have "grow ip s n t (Suc n)" unfolding grow_def
    using f(1,3) fa ib kv tk F(7) by (auto simp: takes_def less_Suc_eq b_def)
  moreover have tl: "tail_ok t ip (Suc n)" using far i(3) s(5) by (simp add: tail_ok_def)
  moreover have "view t (faddr s ip j) = view s (faddr s ip j)" if "j < n" for j
  proof -
    have "faddr s ip j \<noteq> b" using i(2) that unfolding b_def by (metis imageI lessThan_iff)
    then show ?thesis using v2 vt F(4) ds(4) [OF that] by (simp add: owned_def)
  qed
  moreover have "fs_ok t" "spare s - 3 \<le> spare t" using t(2,3,5) t3(6) t2(3) t1(5) by (simp_all add: fs_ok_def)
  ultimately show ?thesis using bm fa [of n] dt F(1,8) unfolding extends_def by (intro exI [of _ t]) simp
qed

text \<open>
  What a new block \<open>n\<close> of a file takes: free blocks of the disk, and blocks of the log (the bitmap
  block and the new block for each \<open>balloc\<close>, and the indirect block).
\<close>

definition blk_need :: "nat \<Rightarrow> nat" where
  "blk_need n = (if n = NDIRECT then 2 else 1)"

definition log_need :: "nat \<Rightarrow> int" where
  "log_need n = (if n < NDIRECT then 2 else if n = NDIRECT then 5 else 3)"

lemma bmap_any:
  assumes s: "fs_ok s" "0 < spare s" "bitmap_ok s" "data_ok s ip n" and bn: "bn \<le> n"
    "bn = n \<longrightarrow> (n < NDIRECT \<or> tail_ok s ip n \<and> n < MAXFILE) \<and> blk_need n \<le> free_blocks s \<and> log_need n \<le> spare s"
  shows "\<exists>t. bmap ip bn s = Ok (faddr t ip bn, t) \<and> extends ip s n t (max n (Suc bn))
    \<and> spare s - (if bn = n then log_need n else 0) \<le> spare t \<and> free_blocks s \<le> (if bn = n then blk_need n else 0) + free_blocks t"
proof (cases "bn < n")
  case True
  obtain t where t: "bmap ip bn s = Ok (faddr s ip bn, t)" "fs_ok t" "view t = view s" "spare t = spare s" "bio_frame s t"
    using bmap_mapped [OF s(1,2,4) True] by auto
  note D = data_ok_look [OF t(5,3)]
  have f: "inodes t = inodes s" "sb t = sb s" "disksize t = disksize s" using t(5) by (auto simp: bio_frame_def)
  have ip: "ip < length (inodes s)" using s(4) by (simp add: data_ok_def)
  have ib: "indb t ip = indb s ip" by (simp add: indb_def f)
  have "\<exists>a. inodes t = (inodes s)[ip := (inodes s ! ip)\<lparr>addrs := a\<rparr>]" using grow_refl [OF ip, of n] f(1) by (simp add: grow_def)
  then have "grow ip s n t n" using D f(2,3) t(3) ib by (simp add: grow_def)
  moreover have "tail_ok t ip n = tail_ok s ip n" by (simp add: tail_ok_def D ib)
  moreover have "free_blocks t = free_blocks s" using D(5) f by (simp add: free_blocks_def)
  ultimately show ?thesis using t D s True by (intro exI [of _ t]) (simp add: max_absorb1 extends_def)
next
  case False
  then have n: "bn = n" "n < NDIRECT \<or> tail_ok s ip n \<and> n < MAXFILE" "blk_need n \<le> free_blocks s" "log_need n \<le> spare s" using bn by auto
  have m: "max n (Suc bn) = Suc n" using n(1) by simp
  have fr: "0 < free_blocks s" using n(3) by (simp add: blk_need_def split: if_splits)
  consider "n < NDIRECT" | "n = NDIRECT" "tail_ok s ip n" | "NDIRECT < n" "tail_ok s ip n" "n < MAXFILE" using n(2) by linarith
  then show ?thesis
  proof cases
    case 1
    then have "2 \<le> spare s" using n(4) by (simp add: log_need_def)
    then show ?thesis unfolding m unfolding n(1) using bmap_direct [OF s(1) _ s(3,4) 1 fr] 1 by (auto simp: log_need_def blk_need_def)
  next
    case 2
    have sp: "2 \<le> spare s" using 2 n(4) by (simp add: log_need_def)
    have z: "indb s ip = 0" using 2 by (simp add: tail_ok_def)
    obtain t where t: "bmap ip NDIRECT s = bmap ip NDIRECT t" "fs_ok t" "bitmap_ok t" "data_ok t ip NDIRECT" "grow ip s NDIRECT t NDIRECT"
      "owned t (indb t ip)" "indb t ip \<notin> faddr t ip ` {..<NDIRECT}" "\<forall>bn. NDIRECT \<le> bn \<longrightarrow> bn < MAXFILE \<longrightarrow> faddr t ip bn = 0"
      "\<forall>i < NDIRECT. view t (faddr s ip i) = view s (faddr s ip i)" "spare s - 2 \<le> spare t" "free_blocks s \<le> Suc (free_blocks t)"
      using bmap_first [OF s(1) sp s(3) s(4) [unfolded 2(1)] z fr] by - (elim exE conjE, rule that, assumption+)
    have ft: "0 < free_blocks t" "3 \<le> spare t" "NDIRECT < MAXFILE" using t(10,11) n(3,4) 2(1) by (simp_all add: blk_need_def log_need_def)
    obtain u where u: "bmap ip NDIRECT t = Ok (faddr u ip NDIRECT, u)" "extends ip t NDIRECT u (Suc NDIRECT)" "tail_ok u ip (Suc NDIRECT)"
      "spare t - 3 \<le> spare u" "free_blocks t \<le> Suc (free_blocks u)"
      using bmap_entry [OF t(2) ft(2) t(3,4) order_refl ft(3,1) t(6-8)] by - (elim exE conjE, rule that, assumption+)
    have g: "grow ip t NDIRECT u (Suc NDIRECT)" "\<forall>i < NDIRECT. view u (faddr t ip i) = view t (faddr t ip i)" using u(2) by (simp_all add: extends_def)
    have "\<forall>i < NDIRECT. faddr t ip i = faddr s ip i" using t(5) by (simp add: grow_def)
    then have "extends ip s NDIRECT u (Suc NDIRECT)"
      using u(2,3) grow_trans [OF t(5) g(1)] g(2) t(9) by (simp add: extends_def)
    moreover have "spare s - 5 \<le> spare u" "free_blocks s \<le> 2 + free_blocks u" using t(10,11) u(4,5) by linarith+
    ultimately show ?thesis unfolding m unfolding n(1) 2(1) using t(1) u(1) by (intro exI [of _ u]) (simp add: log_need_def blk_need_def)
  next
    case 3
    have x: "3 \<le> spare s" "NDIRECT \<le> n" "\<forall>bn. n \<le> bn \<longrightarrow> bn < MAXFILE \<longrightarrow> faddr s ip bn = 0"
      using 3 n(4) by (simp_all add: log_need_def tail_ok_def)
    note i = indb_kept [OF s(4) 3(1)]
    show ?thesis unfolding m unfolding n(1)
      using bmap_entry [OF s(1) x(1) s(3,4) x(2) 3(3) fr conjunct1 [OF i] conjunct2 [OF i] x(3)] 3(1)
      by (auto simp: log_need_def blk_need_def)
  qed
qed

section \<open>Writing\<close>

text \<open>A write to a block of the file changes neither the map of the file nor the bitmap.\<close>

lemma data_write:
  assumes d: "data_ok s ip n" "bn < n" and f: "log_frame s t" and v: "view t = (view s)(faddr s ip bn := x)"
  shows "i < n \<Longrightarrow> faddr t ip i = faddr s ip i" "c < unat (sb_size (sb s)) \<Longrightarrow> used t c = used s c" "data_ok t ip n"
    "bitmap_ok t = bitmap_ok s" "grow ip s n t n" "free_blocks t = free_blocks s" "tail_ok t ip n = tail_ok s ip n"
proof -
  let ?N = "unat (sb_size (sb s))"
  have g: "sb t = sb s" "inodes t = inodes s" "disksize t = disksize s" using frame_fs(3,4) [OF f] log_frame_fields(3) [OF f] by simp_all
  have ds: "ip < length (inodes s)" "owned s (faddr s ip bn)" using d by (simp_all add: data_ok_def)
  have ind: "NDIRECT < n \<Longrightarrow> addrs (inodes s ! ip) ! NDIRECT \<noteq> faddr s ip bn" using d by (auto simp: data_ok_def)
  show fa: "faddr t ip i = faddr s ip i" if "i < n" for i using that ind g v by (auto simp: faddr_def)
  show u: "used t c = used s c" if "c < ?N" for c using that ds(2) v g by (auto simp: used_def owned_def)
  have o: "owned t b = owned s b" for b using u g by (auto simp: owned_def)
  have fb: "inj_on (faddr t ip) {..<n} = inj_on (faddr s ip) {..<n}" "faddr t ip ` {..<n} = faddr s ip ` {..<n}"
    using fa by (auto simp: inj_on_def)
  show "data_ok t ip n" using d(1) fa fb o g by (simp add: data_ok_def)
  show "bitmap_ok t = bitmap_ok s"
  proof (cases "0 < ?N")
    case True
    then show ?thesis using u g by (auto simp: bitmap_ok_def bitmap_fits_def bitmap_marked_def)
  next
    case False
    then show ?thesis using ds(2) by (simp add: owned_def)
  qed
  have "\<exists>a. inodes t = (inodes s)[ip := (inodes s ! ip)\<lparr>addrs := a\<rparr>]" by (rule exI [of _ "addrs (inodes s ! ip)"]) (simp add: g)
  then show "grow ip s n t n" using fa u g v d(2) by (auto simp: grow_def kept_def indb_def)
  have "faddr t ip i = faddr s ip i" if "NDIRECT < n" for i using ind [OF that] g v by (simp add: faddr_def)
  then show "tail_ok t ip n = tail_ok s ip n" by (simp add: tail_ok_def indb_def g)
  show "free_blocks t = free_blocks s" using u g unfolding free_blocks_def by (metis (no_types, lifting))
qed

definition overlay :: "nat \<Rightarrow> u8 list \<Rightarrow> nat \<Rightarrow> block \<Rightarrow> block" where
  "overlay o' src m d = (\<lambda>k. if o' \<le> k \<and> k < o' + m then src ! (k - o') else d k)"

text \<open>One round of the loop of \<open>writei\<close>.\<close>

lemma write_round:
  assumes s: "fs_ok s" "bitmap_ok s" "data_ok s ip n" and bn: "off div BSIZE \<le> n"
    "off div BSIZE = n \<longrightarrow> (n < NDIRECT \<or> tail_ok s ip n \<and> n < MAXFILE) \<and> blk_need n \<le> free_blocks s"
    "(if off div BSIZE = n then log_need n else 0) + 1 \<le> spare s" and m: "m = blk_chunk off (length src)" "src \<noteq> []"
  shows "\<exists>t l. writei_loop ip off src s = writei_loop ip (off + m) (drop m src) t
    \<and> l = max n (Suc (off div BSIZE)) \<and> fs_ok t \<and> spare s - ((if off div BSIZE = n then log_need n else 0) + 1) \<le> spare t
    \<and> bitmap_ok t \<and> data_ok t ip l \<and> grow ip s n t l \<and> (tail_ok s ip n \<longrightarrow> tail_ok t ip l)
    \<and> free_blocks s \<le> (if off div BSIZE = n then blk_need n else 0) + free_blocks t
    \<and> (\<forall>k. off \<le> k \<and> k < off + m \<longrightarrow> fbyte t ip k = src ! (k - off))
    \<and> (\<forall>k < n * BSIZE. \<not> (off \<le> k \<and> k < off + m) \<longrightarrow> fbyte t ip k = fbyte s ip k)"
proof -
  let ?bn = "off div BSIZE" let ?l = "max n (Suc ?bn)"
  let ?f = "overlay (off mod BSIZE) src m"
  let ?w = "if ?bn = n then log_need n else 0" and ?y = "if ?bn = n then blk_need n else 0"
  have sp: "0 < spare s" "?bn = n \<longrightarrow> (n < NDIRECT \<or> tail_ok s ip n \<and> n < MAXFILE) \<and> blk_need n \<le> free_blocks s \<and> log_need n \<le> spare s"
    using bn by (auto simp: log_need_def split: if_splits)
  obtain t where t: "bmap ip ?bn s = Ok (faddr t ip ?bn, t)" "spare s - ?w \<le> spare t" "free_blocks s \<le> ?y + free_blocks t"
    "fs_ok t" "bitmap_ok t" "data_ok t ip ?l" "grow ip s n t ?l" "tail_ok s ip n \<longrightarrow> tail_ok t ip ?l"
    "\<forall>i < n. view t (faddr s ip i) = view s (faddr s ip i)"
    using bmap_any [OF s(1) sp(1) s(2,3) bn(1) sp(2)] unfolding extends_def by - (elim exE conjE, rule that, assumption+)
  let ?a = "faddr t ip ?bn"
  have a: "?a < disksize t" "0 < spare t" "idev (inodes t ! ip) = 1" using t(2,6) bn(3) by (auto simp: data_ok_def owned_def)
  obtain x t1 u where u: "bread 1 ?a t = Ok (x, t1)" "bio_frame t t1" "buf_data t1 x = view t ?a"
    "bnd (log_write x (upd_data x ?f t1)) (brelse x) = Ok u" "fs_ok u" "view u = (view t)(?a := ?f (view t ?a))"
    "spare t - 1 \<le> spare u" "log_frame t u"
    using upd_block [OF t(4) a(1,2), of ?f] by - (elim exE conjE, rule that, assumption+)
  have lt: "?bn < ?l" by simp
  note W = data_write [OF t(6) lt u(8,6)]
  have "writei_loop ip off src s = bnd (log_write x (upd_data x ?f t1)) (\<lambda>s. bnd (brelse x s) (writei_loop ip (off + m) (drop m src)))"
    using m t(1) u(1) a(3) by (subst writei_loop.simps) (simp add: Let_def overlay_def [abs_def])
  also have "\<dots> = bnd (bnd (log_write x (upd_data x ?f t1)) (brelse x)) (writei_loop ip (off + m) (drop m src))" by (rule bnd_assoc [symmetric])
  finally have loop: "writei_loop ip off src s = writei_loop ip (off + m) (drop m src) u" using u(4) by simp
  have inj: "faddr t ip i = ?a \<longleftrightarrow> i = ?bn" if "i < ?l" for i using t(6) that lt by (auto simp: data_ok_def inj_on_def)
  have fb: "fbyte u ip k = (if k div BSIZE = ?bn then ?f (view t ?a) (k mod BSIZE) else fbyte t ip k)" if "k div BSIZE < ?l" for k
    using that W(1) inj u(6) by (simp add: fbyte_def)
  have old: "fbyte t ip k = fbyte s ip k" if "k div BSIZE < n" for k
    using that t(7,9) by (simp add: fbyte_def grow_def)
  have mm: "off mod BSIZE + m \<le> BSIZE" using m(1) by (simp add: blk_chunk_def)
  have new: "fbyte u ip k = src ! (k - off)" if k: "off \<le> k" "k < off + m" for k
  proof -
    obtain j where j: "k = off + j" "j < m" using k by (metis le_Suc_ex nat_add_left_cancel_less)
    have "k div BSIZE = ?bn" "k mod BSIZE = off mod BSIZE + j" using same_block [of off j] j mm by simp_all
    then show ?thesis using fb [of k] j lt by (simp add: overlay_def)
  qed
  have rest: "fbyte u ip k = fbyte s ip k" if k: "k < n * BSIZE" "\<not> (off \<le> k \<and> k < off + m)" for k
  proof -
    have kn: "k div BSIZE < n" using k(1) by (simp add: div_less_iff_less_mult)
    have "?f (view t ?a) (k mod BSIZE) = fbyte t ip k" if e: "k div BSIZE = ?bn"
    proof -
      have "\<not> (off mod BSIZE \<le> k mod BSIZE \<and> k mod BSIZE < off mod BSIZE + m)"
      proof -
        have "k = ?bn * BSIZE + k mod BSIZE" "off = ?bn * BSIZE + off mod BSIZE" using e by (metis div_mult_mod_eq)+
        then show ?thesis using k(2) by linarith
      qed
      then show ?thesis by (auto simp: overlay_def fbyte_def e)
    qed
    then show ?thesis using fb [of k] old [OF kn] kn by (cases "k div BSIZE = ?bn") auto
  qed
  have "spare s - (?w + 1) \<le> spare u" "free_blocks s \<le> ?y + free_blocks u" using u(7) t(2,3) W(6) by simp_all
  then show ?thesis using loop u(5) t(5,8) W(3,4,7) grow_trans [OF t(7) W(5)] new rest
    by (intro exI [of _ u] exI [of _ ?l]) simp
qed

text \<open>The number of blocks that \<open>l\<close> bytes from \<open>off\<close> on touch.\<close>

definition touched :: "nat \<Rightarrow> nat \<Rightarrow> nat" where
  "touched off l = (if l = 0 then 0 else (off mod BSIZE + l + (BSIZE - 1)) div BSIZE)"

lemma touched_round:
  assumes "0 < l" "m = blk_chunk off l"
  shows "touched off l = Suc (touched (off + m) (l - m))"
proof (cases "l \<le> BSIZE - off mod BSIZE")
  case True
  then have "m = l" "off mod BSIZE + l \<le> BSIZE" using assms(2) by (simp_all add: blk_chunk_def)
  then have "(off mod BSIZE + l + (BSIZE - 1)) div BSIZE = 1" using assms(1) by (intro div_nat_eqI) simp_all
  then show ?thesis using \<open>m = l\<close> assms(1) by (simp add: touched_def)
next
  case False
  have m: "m = BSIZE - off mod BSIZE" using False assms(2) by (simp add: blk_chunk_def)
  have "off = off div BSIZE * BSIZE + off mod BSIZE" "off mod BSIZE < BSIZE" "BSIZE * Suc (off div BSIZE) = off div BSIZE * BSIZE + BSIZE"
    by simp_all
  then have "off + m = BSIZE * Suc (off div BSIZE)" using m by linarith
  then have z: "(off + m) mod BSIZE = 0" by simp
  have "off mod BSIZE + l + (BSIZE - 1) = (l - m + (BSIZE - 1)) + BSIZE" using m False by simp
  then have "(off mod BSIZE + l + (BSIZE - 1)) div BSIZE = Suc ((l - m + (BSIZE - 1)) div BSIZE)" by simp
  moreover have "l - m \<noteq> 0" using m False by simp
  ultimately show ?thesis using z assms(1) by (simp add: touched_def)
qed

lemma chunk_end:
  assumes "0 < l" "off + l \<le> N * BSIZE"
  shows "off div BSIZE < N" "off + blk_chunk off l \<le> Suc (off div BSIZE) * BSIZE"
proof -
  show "off div BSIZE < N" using assms by (simp add: div_less_iff_less_mult)
  have "off = off div BSIZE * BSIZE + off mod BSIZE" "off mod BSIZE < BSIZE" "Suc (off div BSIZE) * BSIZE = off div BSIZE * BSIZE + BSIZE"
    "blk_chunk off l \<le> BSIZE - off mod BSIZE" by (simp_all add: blk_chunk_def)
  then show "off + blk_chunk off l \<le> Suc (off div BSIZE) * BSIZE" by linarith
qed

text \<open>
  The resources of a write of \<open>l\<close> bytes at \<open>off\<close> to a file of \<open>n\<close> blocks: it may have to add the indirect
  block, and takes up to three blocks of the log for every block it touches, four when it adds
  entries to the indirect block, and two more for that block itself.
\<close>

definition ind_new :: "nat \<Rightarrow> nat \<Rightarrow> nat" where
  "ind_new n e = (if n \<le> NDIRECT \<and> NDIRECT * BSIZE < e then 1 else 0)"

definition log_cost :: "nat \<Rightarrow> nat \<Rightarrow> nat \<Rightarrow> int" where
  "log_cost n off l =
     (if off + l \<le> n * BSIZE \<or> off + l \<le> NDIRECT * BSIZE then 3 else 4) * int (touched off l) + 2 * int (ind_new n (off + l))"

text \<open>
  The blocks a write needs are there: all in the file already, or free on the disk. In the second
  case nothing may be mapped behind the end of the file if the write reaches past the direct blocks.
\<close>

definition blocks_for :: "'z fs_st_scheme \<Rightarrow> nat \<Rightarrow> nat \<Rightarrow> nat \<Rightarrow> nat \<Rightarrow> bool" where
  "blocks_for s ip n off l \<longleftrightarrow> off + l \<le> n * BSIZE
     \<or> touched off l + ind_new n (off + l) \<le> free_blocks s \<and> (off + l \<le> NDIRECT * BSIZE \<or> tail_ok s ip n)"

text \<open>How the resources go down by one round.\<close>

lemma round_need:
  assumes l: "0 < l" "m = blk_chunk off l" and n: "off div BSIZE \<le> n" "n' = max n (Suc (off div BSIZE))"
  shows "(if off div BSIZE = n then log_need n else 0) + 1 + log_cost n' (off + m) (l - m) \<le> log_cost n off l"
    and "(if off div BSIZE = n then blk_need n else 0) + (touched (off + m) (l - m) + ind_new n' (off + l)) \<le> touched off l + ind_new n (off + l)"
proof -
  let ?bn = "off div BSIZE" and ?T = "touched (off + m) (l - m)" and ?e = "off + l"
  have e: "off + m + (l - m) = ?e" using l(2) blk_chunk_pos(2) [of off l] by simp
  have T: "touched off l = Suc ?T" by (rule touched_round [OF l])
  have past: "n * BSIZE < ?e" if "?bn = n"
  proof -
    have "n * BSIZE \<le> off" using that div_times_less_eq_dividend [of off BSIZE] by simp
    then show ?thesis using l(1) by linarith
  qed
  define p where "p = (if ?e \<le> n * BSIZE \<or> ?e \<le> NDIRECT * BSIZE then 3 else 4 :: int)"
  define q where "q = (if ?e \<le> n' * BSIZE \<or> ?e \<le> NDIRECT * BSIZE then 3 else 4 :: int)"
  have nn: "n \<le> n'" "n * BSIZE \<le> n' * BSIZE" using n(2) by simp_all
  have qp: "q \<le> p" using le_trans [OF _ nn(2), of ?e] by (auto simp: p_def q_def)
  have i: "ind_new n' ?e \<le> ind_new n ?e" using nn(1) by (simp add: ind_new_def)
  have need: "(if ?bn = n then log_need n else 0) + 1 + 2 * int (ind_new n' ?e) \<le> p + 2 * int (ind_new n ?e)"
  proof (cases "?bn = n")
    case False
    then show ?thesis using i by (simp add: p_def)
  next
    case True
    have n': "n' = Suc n" using True n(2) by simp
    consider "n < NDIRECT" | "n = NDIRECT" | "NDIRECT < n" by linarith
    then show ?thesis
    proof cases
      case 1
      then show ?thesis using True i by (simp add: log_need_def p_def)
    next
      case 2
      then show ?thesis using True past [OF True] n' by (simp add: log_need_def p_def ind_new_def)
    next
      case 3
      then have "NDIRECT * BSIZE \<le> n * BSIZE" by simp
      then have "\<not> ?e \<le> NDIRECT * BSIZE" "\<not> ?e \<le> n * BSIZE" using past [OF True] by linarith+
      then have "p = 4" by (simp add: p_def)
      then show ?thesis using 3 True n' by (simp add: log_need_def ind_new_def)
    qed
  qed
  have "q * int ?T \<le> p * int ?T" using qp by (intro mult_right_mono) simp_all
  moreover have "p * int (Suc ?T) = p * int ?T + p" by (simp add: algebra_simps)
  ultimately show "(if ?bn = n then log_need n else 0) + 1 + log_cost n' (off + m) (l - m) \<le> log_cost n off l"
    using need unfolding log_cost_def e T p_def [symmetric] q_def [symmetric] by linarith
  show "(if ?bn = n then blk_need n else 0) + (?T + ind_new n' ?e) \<le> touched off l + ind_new n ?e"
  proof (cases "?bn = n \<and> n = NDIRECT")
    case True
    then show ?thesis using past n(2) T by (simp add: blk_need_def ind_new_def)
  next
    case False
    then show ?thesis using i T by (auto simp: blk_need_def)
  qed
qed

lemma writei_loop_ok:
  assumes "fs_ok s" "log_cost n off (length src) \<le> spare s" "bitmap_ok s" "data_ok s ip n" "off \<le> n * BSIZE"
    "off + length src \<le> MAXFILE * BSIZE" "blocks_for s ip n off (length src)"
  shows "\<exists>t l. writei_loop ip off src s = Ok t \<and> fs_ok t \<and> spare s - log_cost n off (length src) \<le> spare t \<and> bitmap_ok t
    \<and> data_ok t ip l \<and> grow ip s n t l \<and> (tail_ok s ip n \<longrightarrow> tail_ok t ip l) \<and> off + length src \<le> l * BSIZE
    \<and> (n < l \<longrightarrow> (l - 1) * BSIZE < off + length src)
    \<and> (\<forall>k. off \<le> k \<and> k < off + length src \<longrightarrow> fbyte t ip k = src ! (k - off))
    \<and> (\<forall>k < n * BSIZE. \<not> (off \<le> k \<and> k < off + length src) \<longrightarrow> fbyte t ip k = fbyte s ip k)"
  using assms
proof (induction "length src" arbitrary: off src s n rule: less_induct)
  case less
  show ?case
  proof (cases "src = []")
    case True
    have "ip < length (inodes s)" using less.prems(4) by (simp add: data_ok_def)
    then have "grow ip s n s n" by (rule grow_refl)
    then show ?thesis using True less.prems by (intro exI [of _ s] exI [of _ n]) (auto simp: writei_loop.simps log_cost_def touched_def)
  next
    case False
    define m where "m = blk_chunk off (length src)"
    let ?bn = "off div BSIZE" and ?l = "max n (Suc (off div BSIZE))" and ?e = "off + length src"
    let ?w = "if off div BSIZE = n then log_need n else 0" and ?y = "if off div BSIZE = n then blk_need n else 0"
    have l0: "0 < length src" using False by simp
    have m: "0 < m" "m \<le> length src" using blk_chunk_pos(1) [OF l0, of off] blk_chunk_pos(2) [of off "length src"] by (simp_all add: m_def)
    have bn: "?bn \<le> n" using less.prems(5) by (simp add: div_le_mono [of off "n * BSIZE" BSIZE, simplified])
    note R = round_need [OF l0 m_def bn refl]
    have lc: "0 \<le> log_cost i j k" for i j k by (simp add: log_cost_def)
    have sp: "?w + 1 \<le> spare s" using R(1) less.prems(2) lc [of ?l "off + m" "length src - m"] by linarith
    have past: "?bn = n \<longrightarrow> \<not> ?e \<le> n * BSIZE" using chunk_end(1) [OF l0, of off n] by auto
    have nw: "?bn = n \<longrightarrow> (n < NDIRECT \<or> tail_ok s ip n \<and> n < MAXFILE) \<and> blk_need n \<le> free_blocks s"
    proof (intro impI conjI)
      assume b: "?bn = n"
      then have x: "touched off (length src) + ind_new n ?e \<le> free_blocks s" "?e \<le> NDIRECT * BSIZE \<or> tail_ok s ip n"
        using past less.prems(7) by (auto simp: blocks_for_def)
      show "n < NDIRECT \<or> tail_ok s ip n \<and> n < MAXFILE"
        using x(2) b chunk_end(1) [OF l0, of off NDIRECT] chunk_end(1) [OF l0 less.prems(6)] by auto
      show "blk_need n \<le> free_blocks s" using x(1) R(2) b by simp
    qed
    obtain t where t: "writei_loop ip off src s = writei_loop ip (off + m) (drop m src) t" "fs_ok t" "spare s - (?w + 1) \<le> spare t" "bitmap_ok t"
      "data_ok t ip ?l" "grow ip s n t ?l" "tail_ok s ip n \<longrightarrow> tail_ok t ip ?l" "free_blocks s \<le> ?y + free_blocks t"
      "\<forall>k. off \<le> k \<and> k < off + m \<longrightarrow> fbyte t ip k = src ! (k - off)"
      "\<forall>k < n * BSIZE. \<not> (off \<le> k \<and> k < off + m) \<longrightarrow> fbyte t ip k = fbyte s ip k"
      using write_round [OF less.prems(1,3,4) bn nw sp m_def False] by - (elim exE conjE, hypsubst, rule that, assumption+)
    have e: "off + m \<le> ?l * BSIZE" "n * BSIZE \<le> ?l * BSIZE"
      using chunk_end(2) [OF l0, of off "off + length src"] unfolding m_def by (auto simp: max_def)
    have em: "off + m + length (drop m src) = ?e" using m by simp
    have "\<exists>u l. writei_loop ip (off + m) (drop m src) t = Ok u \<and> fs_ok u
      \<and> spare t - log_cost ?l (off + m) (length (drop m src)) \<le> spare u \<and> bitmap_ok u
      \<and> data_ok u ip l \<and> grow ip t ?l u l \<and> (tail_ok t ip ?l \<longrightarrow> tail_ok u ip l) \<and> off + m + length (drop m src) \<le> l * BSIZE
      \<and> (?l < l \<longrightarrow> (l - 1) * BSIZE < off + m + length (drop m src))
      \<and> (\<forall>k. off + m \<le> k \<and> k < off + m + length (drop m src) \<longrightarrow> fbyte u ip k = drop m src ! (k - (off + m)))
      \<and> (\<forall>k < ?l * BSIZE. \<not> (off + m \<le> k \<and> k < off + m + length (drop m src)) \<longrightarrow> fbyte u ip k = fbyte t ip k)"
    proof (rule less.hyps)
      show "blocks_for t ip ?l (off + m) (length (drop m src))"
      proof (cases "?e \<le> n * BSIZE")
        case True
        then show ?thesis using le_trans [OF True e(2)] em by (simp add: blocks_for_def)
      next
        case no: False
        then have x: "touched off (length src) + ind_new n ?e \<le> free_blocks s" "?e \<le> NDIRECT * BSIZE \<or> tail_ok s ip n"
          using less.prems(7) by (auto simp: blocks_for_def)
        have "touched (off + m) (length src - m) + ind_new ?l ?e \<le> free_blocks t" using x(1) R(2) t(8) by linarith
        then show ?thesis using x(2) t(7) em unfolding blocks_for_def em by auto
      qed
      show "log_cost ?l (off + m) (length (drop m src)) \<le> spare t" using R(1) less.prems(2) t(3) by simp
      show "off + m + length (drop m src) \<le> MAXFILE * BSIZE" unfolding em by (rule less.prems(6))
    qed (use m t(2,4,5) e(1) in auto)
    then obtain u l where u: "writei_loop ip (off + m) (drop m src) t = Ok u" "fs_ok u"
      "spare t - log_cost ?l (off + m) (length (drop m src)) \<le> spare u" "bitmap_ok u"
      "data_ok u ip l" "grow ip t ?l u l" "tail_ok t ip ?l \<longrightarrow> tail_ok u ip l" "?e \<le> l * BSIZE" "?l < l \<longrightarrow> (l - 1) * BSIZE < ?e"
      "\<forall>k. off + m \<le> k \<and> k < ?e \<longrightarrow> fbyte u ip k = drop m src ! (k - (off + m))"
      "\<forall>k < ?l * BSIZE. \<not> (off + m \<le> k \<and> k < ?e) \<longrightarrow> fbyte u ip k = fbyte t ip k"
      unfolding em by - (elim exE conjE, rule that, assumption+)
    have new: "fbyte u ip k = src ! (k - off)" if "off \<le> k" "k < ?e" for k
    proof (cases "k < off + m")
      case True
      then show ?thesis using u(11) t(9) that e(1) m by auto
    next
      case False
      then show ?thesis using u(10) that m by auto
    qed
    have rest: "fbyte u ip k = fbyte s ip k" if "k < n * BSIZE" "\<not> (off \<le> k \<and> k < ?e)" for k
    proof -
      have "k < ?l * BSIZE" using less_le_trans [OF that(1) e(2)] .
      moreover have "\<not> (off + m \<le> k \<and> k < ?e)" "\<not> (off \<le> k \<and> k < off + m)" using that(2) m by auto
      ultimately have "fbyte u ip k = fbyte t ip k" "fbyte t ip k = fbyte s ip k" using u(11) t(10) that(1) by blast+
      then show ?thesis by simp
    qed
    have tight: "(l - 1) * BSIZE < ?e" if "n < l"
    proof (cases "?l < l")
      case True
      then show ?thesis using u(9) by simp
    next
      case False
      moreover have "?l \<le> l" using u(6) unfolding grow_def by (elim conjE)
      ultimately have "l = ?l" by (rule le_antisym [OF leI])
      then have "l = Suc ?bn" using that by auto
      then have "(l - 1) * BSIZE \<le> off" using div_times_less_eq_dividend [of off BSIZE] by simp
      then show ?thesis using l0 by linarith
    qed
    have "spare s - log_cost n off (length src) \<le> spare u" using R(1) t(3) u(3) by simp
    then show ?thesis using t(1,7) u(1,2,4-8) tight new rest grow_trans [OF t(6) u(6)]
      by (intro exI [of _ u] exI [of _ l]) simp
  qed
qed

section \<open>Writing and reading back\<close>

lemma unat_len: "x < 2 ^ 31 \<Longrightarrow> unat (of_nat x :: u32) = x" "x < 2 ^ 31 \<Longrightarrow> sint (of_nat x :: u32) = int x"
proof -
  assume "x < 2 ^ 31"
  then show u: "unat (of_nat x :: u32) = x" by (simp add: unat_of_nat)
  show "sint (of_nat x :: u32) = int x" using sint_small [of "of_nat x"] \<open>x < 2 ^ 31\<close> by (simp add: u)
qed

text \<open>Reading a range of a file that is there returns its bytes.\<close>

lemma readi_ok:
  assumes s: "fs_ok s" "0 < spare s" "data_ok s ip n" "itype (inodes s ! ip) \<noteq> T_DEV"
    and z: "unat off + l \<le> unat (isize (inodes s ! ip))" "unat off + l \<le> n * BSIZE" "l < 2 ^ 31"
  shows "\<exists>t. readi ip off (of_nat l) s = Ok (int l, map (fbyte s ip) [unat off..<unat off + l], t) \<and> fs_ok t \<and> view t = view s
    \<and> spare t = spare s \<and> bio_frame s t"
proof -
  have u: "unat (off + of_nat l) = unat off + l"
    using z(1) unat_len(1) [OF z(3)] unsigned_less [of "isize (inodes s ! ip)", where ?'a = nat] by (simp add: unat_word_ariths)
  have c: "\<not> (off > isize (inodes s ! ip) \<or> off + of_nat l < off)" "\<not> off + of_nat l > isize (inodes s ! ip)"
    using z(1) u by (simp_all add: word_less_nat_alt)
  obtain t where "readi_loop ip (unat off) l s = Ok (map (fbyte s ip) [unat off..<unat off + l], t)" "fs_ok t" "view t = view s"
    "spare t = spare s" "bio_frame s t"
    using readi_loop_ok [OF s(1-3) z(2)] by blast
  then show ?thesis using s(4) c unat_len [OF z(3)] unfolding readi_def by (simp add: Let_def)
qed

text \<open>Writing an inode back changes no block of the file.\<close>

lemma iupdate_data:
  assumes s: "fs_ok s" "0 < spare s" "bitmap_ok s" "data_ok s ip n"
    and b: "IBLOCK (inum (inodes s ! ip)) (sb s) < disksize s" "kept s ip n (IBLOCK (inum (inodes s ! ip)) (sb s))"
      "indb s ip \<noteq> IBLOCK (inum (inodes s ! ip)) (sb s)"
  shows "\<exists>t. iupdate ip s = Ok t \<and> fs_ok t \<and> spare s - 1 \<le> spare t \<and> data_ok t ip n \<and> inodes t = inodes s
    \<and> (\<forall>k < n * BSIZE. fbyte t ip k = fbyte s ip k)
    \<and> (\<forall>c. c \<noteq> IBLOCK (inum (inodes s ! ip)) (sb s) \<longrightarrow> view t c = view s c)
    \<and> bitmap_ok t \<and> tail_ok t ip n = tail_ok s ip n"
proof -
  let ?b = "IBLOCK (inum (inodes s ! ip)) (sb s)"
  have d: "idev (inodes s ! ip) = 1" "length (addrs (inodes s ! ip)) = 13" using s(4) by (simp_all add: data_ok_def)
  obtain t where t: "iupdate ip s = Ok t" "fs_ok t" "spare s - 1 \<le> spare t" "log_frame s t" "\<forall>c. c \<noteq> ?b \<longrightarrow> view t c = view s c"
    using iupdate_ok [OF s(1,2) d b(1)] by - (elim exE conjE, rule that, assumption+)
  have g: "sb t = sb s" "inodes t = inodes s" "disksize t = disksize s" using frame_fs(3,4) [OF t(4)] log_frame_fields(3) [OF t(4)] by simp_all
  have fa: "faddr t ip i = faddr s ip i" for i using b(3) t(5) g by (simp add: faddr_def indb_def)
  have fb: "fbyte t ip k = fbyte s ip k" if "k < n * BSIZE" for k
  proof -
    have "k div BSIZE < n" using that by (simp add: div_less_iff_less_mult)
    then have "faddr s ip (k div BSIZE) \<in> faddr s ip ` {..<n}" by simp
    then have "faddr s ip (k div BSIZE) \<noteq> ?b" using b(2) unfolding kept_def by metis
    then show ?thesis using fa t(5) by (simp add: fbyte_def)
  qed
  have u: "used t c = used s c" if "c < unat (sb_size (sb s))" for c
    using that b(2) t(5) g by (auto simp: used_def kept_def)
  have o: "owned t c = owned s c" for c using u g by (auto simp: owned_def)
  have "data_ok t ip n" using s(4) fa o g by (simp add: data_ok_def cong: inj_on_cong image_cong)
  moreover have "tail_ok t ip n = tail_ok s ip n" using fa g by (simp add: tail_ok_def indb_def)
  moreover have "bitmap_ok t" using s(3) u g b(2) unfolding bitmap_ok_def bitmap_fits_def bitmap_marked_def kept_def
    by (metis (no_types, lifting) not_gr_zero not_less_zero)
  ultimately show ?thesis using t g fb by blast
qed

text \<open>The part of \<open>writei\<close> after its loop: a file that has grown gets its new size.\<close>

lemma writei_size:
  assumes s: "fs_ok s" "0 < spare s" "bitmap_ok s" "data_ok s ip n"
    and b: "IBLOCK (inum (inodes s ! ip)) (sb s) < disksize s" "kept s ip n (IBLOCK (inum (inodes s ! ip)) (sb s))"
      "indb s ip \<noteq> IBLOCK (inum (inodes s ! ip)) (sb s)"
  shows "\<exists>t. (if g then iupdate ip (upd_inode ip (\<lambda>i. i\<lparr>isize := z\<rparr>) s) else Ok s) = Ok t \<and> fs_ok t \<and> spare s - 1 \<le> spare t \<and> data_ok t ip n
    \<and> inodes t = (inodes s)[ip := (inodes s ! ip)\<lparr>isize := if g then z else isize (inodes s ! ip)\<rparr>]
    \<and> (\<forall>k < n * BSIZE. fbyte t ip k = fbyte s ip k) \<and> (\<forall>c. c \<noteq> IBLOCK (inum (inodes s ! ip)) (sb s) \<longrightarrow> view t c = view s c)
    \<and> bitmap_ok t \<and> tail_ok t ip n = tail_ok s ip n"
proof (cases g)
  case False
  then show ?thesis using s by auto
next
  case True
  let ?s = "upd_inode ip (\<lambda>i. i\<lparr>isize := z\<rparr>) s"
  have ip: "ip < length (inodes s)" using s(4) by (simp add: data_ok_def)
  have i: "inodes ?s ! ip = (inodes s ! ip)\<lparr>isize := z\<rparr>" using ip by simp
  have fa: "faddr ?s ip i = faddr s ip i" for i by (simp add: faddr_def ip)
  have o: "owned ?s c = owned s c" "used ?s e = used s e" for c e by (simp_all add: owned_def used_def)
  have d: "data_ok ?s ip n" using s(4) fa o ip by (simp add: data_ok_def cong: inj_on_cong image_cong)
  have bo: "bitmap_ok ?s" using s(3) by (simp add: bitmap_ok_def bitmap_fits_def bitmap_marked_def used_def)
  have k: "kept ?s ip n (IBLOCK (inum (inodes s ! ip)) (sb s))" using b(2) fa o by (simp add: kept_def cong: image_cong)
  obtain t where t: "iupdate ip ?s = Ok t" "fs_ok t" "spare ?s - 1 \<le> spare t" "data_ok t ip n" "inodes t = inodes ?s"
    "\<forall>k < n * BSIZE. fbyte t ip k = fbyte ?s ip k" "\<forall>c. c \<noteq> IBLOCK (inum (inodes ?s ! ip)) (sb ?s) \<longrightarrow> view t c = view ?s c"
    "bitmap_ok t" "tail_ok t ip n = tail_ok ?s ip n"
    using iupdate_data [of ?s ip n] s(1,2) d bo k b(1,3) i by (auto simp: indb_def)
  have "fbyte ?s ip k = fbyte s ip k" for k by (simp add: fbyte_def fa)
  moreover have "inodes ?s = (inodes s)[ip := (inodes s ! ip)\<lparr>isize := z\<rparr>]" using ip by (simp add: upd_inode_def)
  moreover have "tail_ok ?s ip n = tail_ok s ip n" using fa ip by (simp add: tail_ok_def indb_def)
  ultimately show ?thesis using True t i by (intro exI [of _ t]) simp
qed

text \<open>A write that has room: its result, the new inode and the new content.\<close>

lemma writei_ok:
  assumes s: "fs_ok s" "bitmap_ok s" "data_ok s ip n" "itype (inodes s ! ip) \<noteq> T_DEV"
    and z: "unat (isize (inodes s ! ip)) \<le> n * BSIZE" "off \<le> isize (inodes s ! ip)"
    and len: "unat off + length src \<le> MAXFILE * BSIZE"
    and room: "blocks_for s ip n (unat off) (length src)" "log_cost n (unat off) (length src) + 2 \<le> spare s"
    and b: "b = IBLOCK (inum (inodes s ! ip)) (sb s)" "b < disksize s" "kept s ip n b" "indb s ip \<noteq> b"
  shows "\<exists>t m a. writei ip src off s = Ok (int (length src), t) \<and> fs_ok t \<and> 0 < spare t \<and> bitmap_ok t \<and> data_ok t ip m
    \<and> (tail_ok s ip n \<longrightarrow> tail_ok t ip m) \<and> unat off + length src \<le> m * BSIZE \<and> n \<le> m
    \<and> inodes t = (inodes s)[ip := (inodes s ! ip)\<lparr>addrs := a, isize := max (isize (inodes s ! ip)) (off + of_nat (length src))\<rparr>]
    \<and> (\<forall>k. unat off \<le> k \<and> k < unat off + length src \<longrightarrow> fbyte t ip k = src ! (k - unat off))
    \<and> (\<forall>k < n * BSIZE. \<not> (unat off \<le> k \<and> k < unat off + length src) \<longrightarrow> fbyte t ip k = fbyte s ip k)
    \<and> (\<forall>c. kept s ip n c \<and> c \<noteq> b \<and> (c = indb s ip \<longrightarrow> c = 0 \<or> unat off + length src \<le> max n NDIRECT * BSIZE)
        \<longrightarrow> view t c = view s c)"
proof -
  let ?l = "length src" and ?o = "unat off" and ?z = "isize (inodes s ! ip)"
  have l31: "?l < 2 ^ 31" using len by simp
  have u: "unat (of_nat ?l :: u32) = ?l" "unat (off + of_nat ?l) = ?o + ?l"
    using len unat_len(1) [OF l31] by (simp_all add: unat_word_ariths)
  have c: "\<not> (off > ?z \<or> off + of_nat ?l < off)" "\<not> off + of_nat ?l > of_nat (MAXFILE * BSIZE)"
    using z(2) u len by (simp_all add: word_less_nat_alt word_le_nat_alt)
  have o: "?o \<le> n * BSIZE" using z by (simp add: word_le_nat_alt)
  have sp: "log_cost n ?o ?l \<le> spare s" using room(2) by simp
  obtain t m where t: "writei_loop ip ?o src s = Ok t" "fs_ok t" "spare s - log_cost n ?o ?l \<le> spare t" "bitmap_ok t" "data_ok t ip m"
    "grow ip s n t m" "tail_ok s ip n \<longrightarrow> tail_ok t ip m" "?o + ?l \<le> m * BSIZE" "n < m \<longrightarrow> (m - 1) * BSIZE < ?o + ?l" "\<forall>k. ?o \<le> k \<and> k < ?o + ?l \<longrightarrow> fbyte t ip k = src ! (k - ?o)"
    "\<forall>k < n * BSIZE. \<not> (?o \<le> k \<and> k < ?o + ?l) \<longrightarrow> fbyte t ip k = fbyte s ip k"
    using writei_loop_ok [OF s(1) sp s(2,3) o len room(1)] by - (elim exE conjE, rule that, assumption+)
  have ip: "ip < length (inodes s)" using s(3) by (simp add: data_ok_def)
  obtain a where ia: "inodes t = (inodes s)[ip := (inodes s ! ip)\<lparr>addrs := a\<rparr>]" using t(6) by (auto simp: grow_def)
  have it: "inodes t ! ip = (inodes s ! ip)\<lparr>addrs := a\<rparr>" using ia ip by simp
  have gs: "sb t = sb s" "disksize t = disksize s" "n \<le> m"
    using t(6) by (simp_all add: grow_def)
  have ib: "indb t ip \<noteq> b"
    using t(6) b(3,4) by (auto simp: grow_def kept_def)
  have kt: "kept t ip m b" by (rule grow_kept [OF t(6) b(3)])
  let ?g = "(of_nat ?l :: u32) > 0 \<and> off + of_nat ?l > ?z"
  have st: "0 < spare t" using t(3) room(2) by simp
  obtain w where w: "(if ?g then iupdate ip (upd_inode ip (\<lambda>i. i\<lparr>isize := off + of_nat ?l\<rparr>) t) else Ok t) = Ok w" "fs_ok w" "spare t - 1 \<le> spare w"
    "data_ok w ip m" "inodes w = (inodes t)[ip := (inodes t ! ip)\<lparr>isize := if ?g then off + of_nat ?l else isize (inodes t ! ip)\<rparr>]"
    "\<forall>k < m * BSIZE. fbyte w ip k = fbyte t ip k" "\<forall>c. c \<noteq> b \<longrightarrow> view w c = view t c" "bitmap_ok w" "tail_ok w ip m = tail_ok t ip m"
    using writei_size [OF t(2) st t(4,5), of ?g "off + of_nat ?l"] b kt gs it ib by (auto simp: indb_def)
  have wr: "writei ip src off s = Ok (int ?l, w)"
    using s(4) c t(1) it w(1) unat_len(2) [OF l31] unfolding writei_def by (simp add: Let_def)
  have mx: "(if ?g then off + of_nat ?l else ?z) = max ?z (off + of_nat ?l)"
  proof (cases ?g)
    case False
    then have "off + of_nat ?l \<le> ?z" using z(2) by (cases "(of_nat ?l :: u32) = 0") (auto simp: word_gt_0)
    then show ?thesis using False by (simp only: if_False max_absorb1)
  qed (simp add: max_absorb2 less_imp_le)
  have zt: "isize ((inodes s ! ip)\<lparr>addrs := a\<rparr>) = ?z" by simp
  have iw: "inodes w = (inodes s)[ip := (inodes s ! ip)\<lparr>addrs := a, isize := max ?z (off + of_nat ?l)\<rparr>]"
    using w(5) [unfolded it zt mx] ia by simp
  have le: "?o + ?l \<le> m * BSIZE" "n * BSIZE \<le> m * BSIZE" using t(8) gs(3) by simp_all
  have new: "fbyte w ip k = src ! (k - ?o)" if "?o \<le> k" "k < ?o + ?l" for k using w(6) t(10) that le(1) by simp
  have rest: "fbyte w ip k = fbyte s ip k" if "k < n * BSIZE" "\<not> (?o \<le> k \<and> k < ?o + ?l)" for k
    using w(6) t(11) that le(2) by auto
  have few: "n = m \<or> m \<le> NDIRECT" if "?o + ?l \<le> max n NDIRECT * BSIZE"
  proof (rule disjCI)
    assume "\<not> m \<le> NDIRECT"
    moreover have "m - 1 < max n NDIRECT" if "n < m"
      using t(9) that \<open>?o + ?l \<le> max n NDIRECT * BSIZE\<close> by (meson less_le_trans mult_less_cancel2)
    ultimately show "n = m" using gs(3) by linarith
  qed
  have "view w c = view s c" if c: "kept s ip n c" "c \<noteq> b" "c = indb s ip \<longrightarrow> c = 0 \<or> ?o + ?l \<le> max n NDIRECT * BSIZE" for c
  proof -
    have "c = indb s ip \<longrightarrow> c = 0 \<or> n = m \<or> m \<le> NDIRECT" using c(3) few by blast
    then have "view t c = view s c" using t(6) c(1) by (simp add: grow_def)
    then show ?thesis using w(7) c(2) by simp
  qed
  moreover have "0 < spare w" using w(3) t(3) room(2) by simp
  moreover have "tail_ok s ip n \<longrightarrow> tail_ok w ip m" using w(9) t(7) by blast
  ultimately show ?thesis using wr w(2,4,8) iw new rest t(8) gs(3) by (intro exI [of _ w] exI [of _ m] exI [of _ a]) simp
qed

text \<open>
  C3. What is written to a file is read back. For a file whose blocks are allocated up to its
  size, a write that starts inside the file or at its end, and for which the log and the disk have
  room, succeeds at any length up to the largest file: the size grows as needed, blocks are
  allocated as needed, through the direct addresses and then through the indirect block,
  which is itself allocated when the file grows past its direct blocks; \<open>readi\<close> of the same
  range returns exactly the bytes written, every other byte of the file keeps its value, and
  so does every block in use that belongs neither to the file nor to the bitmap, other than
  the block of its inode and the indirect block the file had. The file is again one to which
  the statement applies.
\<close>

theorem writei_readi:
  assumes s: "fs_ok s" "bitmap_ok s" "data_ok s ip n" "itype (inodes s ! ip) \<noteq> T_DEV"
    and z: "unat (isize (inodes s ! ip)) \<le> n * BSIZE" "off \<le> isize (inodes s ! ip)"
    and len: "unat off + length src \<le> MAXFILE * BSIZE"
    and room: "blocks_for s ip n (unat off) (length src)" "log_cost n (unat off) (length src) + 2 \<le> spare s"
    and b: "b = IBLOCK (inum (inodes s ! ip)) (sb s)" "b < disksize s" "kept s ip n b" "indb s ip \<noteq> b"
  shows "\<exists>t u m. writei ip src off s = Ok (int (length src), t) \<and> fs_ok t \<and> bitmap_ok t
    \<and> data_ok t ip m \<and> (tail_ok s ip n \<longrightarrow> tail_ok t ip m) \<and> unat (isize (inodes t ! ip)) \<le> m * BSIZE
    \<and> isize (inodes t ! ip) = max (isize (inodes s ! ip)) (off + of_nat (length src))
    \<and> readi ip off (of_nat (length src)) t = Ok (int (length src), src, u)
    \<and> (\<forall>k < unat (isize (inodes s ! ip)). \<not> (unat off \<le> k \<and> k < unat off + length src) \<longrightarrow> fbyte t ip k = fbyte s ip k)
    \<and> (\<forall>c. kept s ip n c \<and> c \<noteq> b \<and> (c = indb s ip \<longrightarrow> c = 0 \<or> unat off + length src \<le> max n NDIRECT * BSIZE)
        \<longrightarrow> view t c = view s c)"
proof -
  let ?l = "length src" and ?o = "unat off" and ?z = "isize (inodes s ! ip)"
  have l31: "?l < 2 ^ 31" using len by simp
  have u: "unat (off + of_nat ?l) = ?o + ?l" using len unat_len(1) [OF l31] by (simp add: unat_word_ariths)
  have ip: "ip < length (inodes s)" using s(3) by (simp add: data_ok_def)
  obtain t m a where t: "writei ip src off s = Ok (int ?l, t)" "fs_ok t" "0 < spare t" "bitmap_ok t" "data_ok t ip m"
    "tail_ok s ip n \<longrightarrow> tail_ok t ip m" "?o + ?l \<le> m * BSIZE" "n \<le> m"
    and i: "inodes t = (inodes s)[ip := (inodes s ! ip)\<lparr>addrs := a, isize := max ?z (off + of_nat ?l)\<rparr>]"
    and f: "\<forall>k. ?o \<le> k \<and> k < ?o + ?l \<longrightarrow> fbyte t ip k = src ! (k - ?o)"
      "\<forall>k < n * BSIZE. \<not> (?o \<le> k \<and> k < ?o + ?l) \<longrightarrow> fbyte t ip k = fbyte s ip k"
      "\<forall>c. kept s ip n c \<and> c \<noteq> b \<and> (c = indb s ip \<longrightarrow> c = 0 \<or> ?o + ?l \<le> max n NDIRECT * BSIZE) \<longrightarrow> view t c = view s c"
    using writei_ok [OF s z len room b] by - (elim exE conjE, rule that, assumption+)
  have it: "inodes t ! ip = (inodes s ! ip)\<lparr>addrs := a, isize := max ?z (off + of_nat ?l)\<rparr>" using i ip by simp
  have "?o + ?l \<le> unat (isize (inodes t ! ip))" using it u by (simp add: max_def word_le_nat_alt)
  then obtain v where v: "readi ip off (of_nat ?l) t = Ok (int ?l, map (fbyte t ip) [?o..<?o + ?l], v)"
    using readi_ok [OF t(2,3,5) _ _ t(7) l31] it s(4) by auto
  have same: "map (fbyte t ip) [?o..<?o + ?l] = src" using f(1) by (intro nth_equalityI) auto
  have rest: "fbyte t ip k = fbyte s ip k" if "k < unat ?z" "\<not> (?o \<le> k \<and> k < ?o + ?l)" for k
    using f(2) that z(1) by auto
  have "n * BSIZE \<le> m * BSIZE" using t(8) by simp
  then have "unat (isize (inodes t ! ip)) \<le> m * BSIZE" using it u z(1) t(7) by (simp add: max_def)
  then show ?thesis using t(1,2,4-6) it v same rest f(3) by (intro exI [of _ t] exI [of _ v] exI [of _ m]) simp
qed

section \<open>Two files\<close>

text \<open>A file of two blocks.\<close>

definition data_file0 :: "inode \<Rightarrow> fs_st" where
  "data_file0 ip = upd_inode 0 (\<lambda>_. ip\<lparr>idev := 1, inum := 5, addrs := [60, 61] @ replicate 11 0\<rparr>) fs0"

lemma data_file0_ok:
  shows "fs_ok (data_file0 ip)" "spare (data_file0 ip) = 28" "bitmap_ok (data_file0 ip)" "data_ok (data_file0 ip) 0 2" "kept (data_file0 ip) 0 2 40"
    "IBLOCK (inum (inodes (data_file0 ip) ! 0)) (sb (data_file0 ip)) = 40" "disksize (data_file0 ip) = 1000" "addrs (inodes (data_file0 ip) ! 0) ! 12 \<noteq> 40"
    "inodes (data_file0 ip) ! 0 = ip\<lparr>idev := 1, inum := 5, addrs := [60, 61] @ replicate 11 0\<rparr>"
proof -
  let ?s = "data_file0 ip"
  have l: "length (inodes fs0) = 50" by (simp add: fs0_def log_st.defs)
  show i: "inodes ?s ! 0 = ip\<lparr>idev := 1, inum := 5, addrs := [60, 61] @ replicate 11 0\<rparr>" using l by (simp add: data_file0_def)
  show f: "fs_ok ?s" "spare ?s = 28" "disksize ?s = 1000" using fs0_ok fs0_fields by (simp_all add: data_file0_def)
  have g: "bitmap_fits ?s" "sb ?s = sb fs0" "length (inodes ?s) = 50" using fs0_ok l by (simp_all add: data_file0_def bitmap_fits_def)
  have bb: "bitmap_block (sb ?s) e = 32" if "e < 900" for e using that g(2) fs0_fields(5) by (simp add: bitmap_block_def)
  have N: "unat (sb_size (sb ?s)) = 900" using g(2) fs0_fields(4) by simp
  have us: "used ?s c \<longleftrightarrow> c < 64" if "c < 900" for c using fs0_bitmap [OF that] by (simp add: used_def data_file0_def)
  show "bitmap_ok ?s" using g(1) us bb N by (auto simp: bitmap_ok_def bitmap_marked_def word_unat_eq_iff unat_of_nat)
  have fa: "faddr ?s 0 0 = 60" "faddr ?s 0 1 = 61" by (simp_all add: faddr_def i)
  have ow: "owned ?s 60" "owned ?s 61" using us bb N f(3) by (simp_all add: owned_def)
  have two: "{..<2 :: nat} = {0, 1}" by auto
  have ad: "addrs (inodes ?s ! 0) ! bn = (if bn = 0 then 60 else if bn = 1 then 61 else 0)" if "bn < 13" for bn
    using that by (auto simp: i nth_Cons')
  show "data_ok ?s 0 2" using fa ow g(3) ad by (auto simp: data_ok_def i two less_2_cases_iff)
  show "kept ?s 0 2 40" using us bb N fa by (auto simp: kept_def two)
  show "IBLOCK (inum (inodes ?s ! 0)) (sb ?s) = 40" using g(2) fs0_fields(6) by (simp add: IBLOCK_def i)
  show "addrs (inodes ?s ! 0) ! 12 \<noteq> 40" using ad [of 12] by simp
qed

text \<open>A file that fills its direct blocks, 48 to 59: the next byte needs the indirect block.\<close>

definition full_file0 :: fs_st where
  "full_file0 = upd_inode 0 (\<lambda>_. inode0\<lparr>isize := 6144, addrs := map of_nat [48..<60] @ [0]\<rparr>) fs0"

lemma full_file0_ok:
  shows "fs_ok full_file0" "spare full_file0 = 28" "bitmap_ok full_file0" "data_ok full_file0 0 12" "kept full_file0 0 12 40"
    "IBLOCK (inum (inodes full_file0 ! 0)) (sb full_file0) = 40" "disksize full_file0 = 1000" "indb full_file0 0 = 0" "tail_ok full_file0 0 12"
    "3 \<le> free_blocks full_file0" "inodes full_file0 ! 0 = inode0\<lparr>isize := 6144, addrs := map of_nat [48..<60] @ [0]\<rparr>"
proof -
  let ?s = full_file0
  have l: "length (inodes fs0) = 50" by (simp add: fs0_def log_st.defs)
  show i: "inodes ?s ! 0 = inode0\<lparr>isize := 6144, addrs := map of_nat [48..<60] @ [0]\<rparr>" using l by (simp add: full_file0_def)
  have ino: "idev (inodes ?s ! 0) = 1" "inum (inodes ?s ! 0) = 5" by (simp_all only: i) (simp_all add: inode0_def)
  have ad: "length (addrs (inodes ?s ! 0)) = 13" "\<And>j. j < 12 \<Longrightarrow> addrs (inodes ?s ! 0) ! j = of_nat (48 + j)" "addrs (inodes ?s ! 0) ! 12 = 0"
    by (simp_all only: i) (simp_all add: nth_append del: upt_rec_numeral)
  show f: "fs_ok ?s" "spare ?s = 28" "disksize ?s = 1000" using fs0_ok fs0_fields by (simp_all add: full_file0_def)
  have g: "bitmap_fits ?s" "sb ?s = sb fs0" "length (inodes ?s) = 50" using fs0_ok l by (simp_all add: full_file0_def bitmap_fits_def)
  have bb: "bitmap_block (sb ?s) e = 32" if "e < 900" for e using that g(2) fs0_fields(5) by (simp add: bitmap_block_def)
  have N: "unat (sb_size (sb ?s)) = 900" using g(2) fs0_fields(4) by simp
  have us: "used ?s c \<longleftrightarrow> c < 64" if "c < 900" for c using fs0_bitmap [OF that] by (simp add: used_def full_file0_def)
  show "bitmap_ok ?s" using g(1) us bb N by (auto simp: bitmap_ok_def bitmap_marked_def word_unat_eq_iff unat_of_nat)
  show ib: "indb ?s 0 = 0" using ad(3) by (simp add: indb_def)
  then show "tail_ok ?s 0 12" by (simp add: tail_ok_def)
  have fa: "faddr ?s 0 j = of_nat (48 + j)" if "j < 12" for j unfolding faddr_def using that ad(2) [OF that] by simp
  have u: "unat (of_nat (48 + j) :: u32) = 48 + j" if "j < 12" for j by (rule unat_len(1)) (use that in simp)
  have ow: "owned ?s (faddr ?s 0 j)" if j: "j < 12" for j
  proof -
    have "(of_nat (48 + j) :: u32) \<noteq> 0" "of_nat (48 + j) < (1000 :: u32)" "of_nat (48 + j) \<noteq> (32 :: u32)"
      using u [OF j] j by (auto simp: word_less_nat_alt word_unat_eq_iff)
    then show ?thesis unfolding owned_def N f(3) fa [OF j] u [OF j] using us [of "48 + j"] bb j by simp
  qed
  have "inj_on (faddr ?s 0) {..<12}"
  proof (rule inj_onI)
    fix i j :: nat assume a: "i \<in> {..<12}" "j \<in> {..<12}" "faddr ?s 0 i = faddr ?s 0 j"
    then have ij: "i < 12" "j < 12" by simp_all
    have "(of_nat (48 + i) :: u32) = of_nat (48 + j)" using a(3) unfolding fa [OF ij(1)] fa [OF ij(2)] .
    then have "unat (of_nat (48 + i) :: u32) = unat (of_nat (48 + j) :: u32)" by (rule arg_cong)
    then have "48 + i = 48 + j" unfolding u [OF ij(1)] u [OF ij(2)] .
    then show "i = j" by simp
  qed
  then show "data_ok ?s 0 12" unfolding data_ok_def using ow g(3) ad(1) ino(1) by simp
  have "faddr ?s 0 j \<noteq> 40" if "j < 12" for j using fa [OF that] u [OF that] by (auto simp: word_unat_eq_iff)
  then show "kept ?s 0 12 40" unfolding kept_def N using us bb by (auto simp: image_iff)
  show "IBLOCK (inum (inodes ?s ! 0)) (sb ?s) = 40" using g(2) fs0_fields(6) ino(2) by (simp add: IBLOCK_def)
  have "{64, 65, 66} \<subseteq> {c. c < 900 \<and> \<not> used ?s c}" using us by simp
  then have "card {64, 65, 66 :: nat} \<le> free_blocks ?s" unfolding free_blocks_def N by (intro card_mono) auto
  then show "3 \<le> free_blocks ?s" by simp
qed

theorem writei_readi_witness:
  "\<exists>t u m. writei 0 [1, 2, 3] 6143 full_file0 = Ok (3, t) \<and> isize (inodes t ! 0) = 6146 \<and> readi 0 6143 3 t = Ok (3, [1, 2, 3], u)
     \<and> data_ok t 0 m \<and> 12 < m \<and> tail_ok t 0 m"
proof -
  let ?s = full_file0 and ?w = "[1, 2, 3 :: u8]"
  note F = full_file0_ok
  have z: "isize (inodes ?s ! 0) = 6144" "itype (inodes ?s ! 0) \<noteq> T_DEV" by (simp_all only: F(11)) (simp_all add: inode0_def)
  have r: "blocks_for ?s 0 12 (unat (6143 :: u32)) (length ?w)" "log_cost 12 (unat (6143 :: u32)) (length ?w) + 2 \<le> spare ?s"
    "unat (6143 :: u32) + length ?w \<le> MAXFILE * BSIZE"
    using F(2,9,10) by (simp_all add: blocks_for_def log_cost_def touched_def ind_new_def)
  have h: "unat (isize (inodes ?s ! 0)) \<le> 12 * BSIZE" "6143 \<le> isize (inodes ?s ! 0)" "(40 :: u32) < disksize ?s" "indb ?s 0 \<noteq> 40" using z F(7,8) by simp_all
  obtain t u m where t: "writei 0 ?w 6143 ?s = Ok (int (length ?w), t)" "data_ok t 0 m" "tail_ok ?s 0 12 \<longrightarrow> tail_ok t 0 m"
    "unat (isize (inodes t ! 0)) \<le> m * BSIZE" "isize (inodes t ! 0) = max (isize (inodes ?s ! 0)) (6143 + of_nat (length ?w))"
    "readi 0 6143 (of_nat (length ?w)) t = Ok (int (length ?w), ?w, u)"
    using writei_readi [OF F(1,3,4) z(2) h(1,2) r(3,1,2) F(6) [symmetric] h(3) F(5) h(4)] by - (elim exE conjE, rule that, assumption+)
  have i: "isize (inodes t ! 0) = 6146" using t(5) z(1) by (simp add: max_def)
  then have "12 < m" using t(4) by simp
  then show ?thesis using t i F(9) by (intro exI [of _ t] exI [of _ u] exI [of _ m]) simp
qed

end
