(* ===== verification/Fs_Dir.thy ===== *)
theory Fs_Dir
  imports Fs_Data
begin

text \<open>
  Directories: \<open>dirlookup\<close> and \<open>dirlink\<close> of \<open>fs.c\<close> over the content of the directory file. The
  entries form a list (\<open>dir_list\<close>), which stands for a map from names to inode numbers
  (\<open>dir_map\<close>); the loops of the code search that list, and \<open>dirlink\<close> updates the map.
\<close>

section \<open>Names\<close>

lemma namecmp_loop_eq:
  assumes "0 \<notin> set p" "0 \<notin> set q"
  shows "namecmp_loop n p (take n (q @ replicate n 0)) = 0 \<longleftrightarrow> take n p = take n q"
  using assms
proof (induction n arbitrary: p q)
  case (Suc n)
  show ?case
  proof (cases q)
    case Nil
    then show ?thesis using Suc.prems by (cases p) (auto simp: hd0_def uint_0_iff)
  next
    case (Cons y ys)
    have e: "take n (ys @ replicate (Suc n) 0) = take n (ys @ replicate n (0 :: u8))"
      by (simp add: replicate_append_same [symmetric] del: replicate.simps)
    show ?thesis using Suc Cons e by (cases p) (auto simp: hd0_def uint_0_iff word_uint_eq_iff [symmetric])
  qed
qed simp

lemma namecmp_eq: "0 \<notin> set p \<Longrightarrow> 0 \<notin> set q \<Longrightarrow> namecmp p (take DIRSIZ (q @ replicate DIRSIZ 0)) = 0 \<longleftrightarrow> take DIRSIZ p = take DIRSIZ q"
  unfolding namecmp_def by (rule namecmp_loop_eq)

lemma de_inum_bytes: "de_inum (dirent_bytes name ino) = ucast ino"
  by (rule bit_word_eqI) (auto simp: de_inum_def dirent_bytes_def bit_simps less_diff_conv2 not_less)

lemma dirent_bytes_length: "length (dirent_bytes name ino) = 16"
  by (simp add: dirent_bytes_def)

lemma dirent_bytes_name: "drop 2 (dirent_bytes name ino) = take DIRSIZ (name @ replicate DIRSIZ 0)"
  by (simp add: dirent_bytes_def)

section \<open>A directory as a list of entries\<close>

definition dirent :: "'z fs_st_scheme \<Rightarrow> nat \<Rightarrow> nat \<Rightarrow> u8 list" where
  "dirent s dp k = map (fbyte s dp) [16 * k..<16 * k + 16]"

definition dir_list :: "'z fs_st_scheme \<Rightarrow> nat \<Rightarrow> u8 list list" where
  "dir_list s dp = map (dirent s dp) [0..<unat (isize (inodes s ! dp)) div 16]"

definition names :: "u8 list \<Rightarrow> u8 list \<Rightarrow> bool" where
  "names name e \<longleftrightarrow> de_inum e \<noteq> 0 \<and> namecmp name (drop 2 e) = 0"

definition dir_find :: "u8 list \<Rightarrow> u8 list list \<Rightarrow> nat option" where
  "dir_find name es = find_idx (names name) es"

definition dir_slot :: "u8 list list \<Rightarrow> nat" where
  "dir_slot es = (case find_idx (\<lambda>e. de_inum e = 0) es of None \<Rightarrow> length es | Some k \<Rightarrow> k)"

definition dir_add :: "u8 list \<Rightarrow> u32 \<Rightarrow> u8 list list \<Rightarrow> u8 list list" where
  "dir_add name ino es = take (dir_slot es) es @ dirent_bytes name ino # drop (Suc (dir_slot es)) es"

text \<open>What a directory promises: a map from names to inode numbers.\<close>

definition dir_map :: "u8 list list \<Rightarrow> u8 list \<Rightarrow> u32 option" where
  "dir_map es name = map_option (\<lambda>k. ucast (de_inum (es ! k))) (dir_find name es)"

lemma dir_slot_le: "dir_slot es \<le> length es"
  by (auto simp: dir_slot_def dest: find_idx_Some_lt split: option.splits)

lemma dir_slot_free: "dir_slot es < length es \<Longrightarrow> de_inum (es ! dir_slot es) = 0"
  by (auto simp: dir_slot_def dest: find_idx_SomeD split: option.splits)

lemma dir_add_nth:
  assumes "j < length (dir_add name ino es)"
  shows "dir_add name ino es ! j = (if j = dir_slot es then dirent_bytes name ino else es ! j)"
  using assms dir_slot_le [of es] by (auto simp: dir_add_def nth_append nth_Cons' not_less)

lemma dir_add_length: "length (dir_add name ino es) = (if dir_slot es < length es then length es else Suc (length es))"
  using dir_slot_le [of es] by (auto simp: dir_add_def)


lemma namecmp_take: "namecmp_loop n (take n p) q = namecmp_loop n p q"
proof (induction n arbitrary: p q)
  case (Suc n)
  have "hd0 (take (Suc n) p) = hd0 p" "tl (take (Suc n) p) = take n (tl p)" by (cases p; simp add: hd0_def)+
  then show ?case using Suc by simp
qed simp

lemma names_cong: "take DIRSIZ p = take DIRSIZ q \<Longrightarrow> names p e = names q e"
  using namecmp_take [of DIRSIZ p] namecmp_take [of DIRSIZ q] by (simp add: names_def namecmp_def del: namecmp_loop.simps)

lemma ino_narrow: "ino < 65536 \<Longrightarrow> ucast (ucast ino :: 16 word) = (ino :: u32)"
  by (simp add: word_unat_eq_iff word_less_nat_alt unsigned_ucast_eq unsigned_take_bit_eq take_bit_nat_eq_self)

lemma names_new:
  assumes "0 < ino" "ino < 65536" "0 \<notin> set name" "0 \<notin> set nm"
  shows "names nm (dirent_bytes name ino) \<longleftrightarrow> take DIRSIZ nm = take DIRSIZ name"
proof -
  have "(ucast ino :: 16 word) \<noteq> 0" using ino_narrow [OF assms(2)] assms(1) by auto
  then show ?thesis using assms by (simp only: names_def de_inum_bytes dirent_bytes_name namecmp_eq simp_thms)
qed

text \<open>\<open>dirlink\<close> on the list of entries is an update of the map.\<close>

lemma dir_find_add:
  assumes "dir_map es name = None" "0 < ino" "ino < 65536" "0 \<notin> set name" "0 \<notin> set nm"
  shows "dir_find nm (dir_add name ino es) = (if take DIRSIZ nm = take DIRSIZ name then Some (dir_slot es) else dir_find nm es)"
proof (cases "take DIRSIZ nm = take DIRSIZ name")
  case True
  have no: "\<not> names name (es ! j)" if "j < length es" for j
    using assms(1) that by (auto simp: dir_map_def dir_find_def find_idx_None)
  have k: "dir_slot es < length (dir_add name ino es)" using dir_slot_le [of es] by (simp add: dir_add_length)
  have "find_idx (names nm) (dir_add name ino es) = Some (dir_slot es)"
  proof (rule find_idx_SomeI [OF k])
    show "names nm (dir_add name ino es ! dir_slot es)" using names_new [OF assms(2-5)] True k by (simp add: dir_add_nth)
    show "\<forall>j < dir_slot es. \<not> names nm (dir_add name ino es ! j)"
      using no names_cong [OF True] dir_slot_le [of es] k by (auto simp: dir_add_nth)
  qed
  then show ?thesis using True by (simp add: dir_find_def)
next
  case False
  have "j < length (dir_add name ino es) \<and> names nm (dir_add name ino es ! j) \<longleftrightarrow> j < length es \<and> names nm (es ! j)" for j
  proof (cases "j = dir_slot es")
    case True
    then have "j < length es \<Longrightarrow> \<not> names nm (es ! j)" using dir_slot_free [of es] by (simp add: names_def)
    then show ?thesis using True False names_new [OF assms(2-5)] by (auto simp: dir_add_nth)
  next
    case False
    then show ?thesis using dir_slot_le [of es] by (auto simp: dir_add_nth dir_add_length split: if_splits)
  qed
  then have "find_idx (names nm) (dir_add name ino es) = find_idx (names nm) es" by (rule find_idx_same)
  then show ?thesis using False by (simp only: dir_find_def if_False)
qed

lemma dir_map_add:
  assumes "dir_map es name = None" "0 < ino" "ino < 65536" "0 \<notin> set name" "0 \<notin> set nm"
  shows "dir_map (dir_add name ino es) nm = (if take DIRSIZ nm = take DIRSIZ name then Some ino else dir_map es nm)"
proof -
  have "k \<noteq> dir_slot es \<and> k < length es" if "dir_find nm es = Some k" for k
    using that dir_slot_free [of es] by (auto simp: dir_find_def names_def dest!: find_idx_SomeD)
  moreover have "dir_slot es < length (dir_add name ino es)" using dir_slot_le [of es] by (simp add: dir_add_length)
  ultimately show ?thesis using dir_find_add [OF assms] ino_narrow [OF assms(3)] dir_slot_le [of es]
    by (cases "dir_find nm es") (auto simp: dir_map_def dir_add_nth dir_add_length de_inum_bytes)
qed

section \<open>The loops over the entries\<close>

definition dir_ok :: "'z fs_st_scheme \<Rightarrow> nat \<Rightarrow> nat \<Rightarrow> bool" where
  "dir_ok s dp n \<longleftrightarrow> fs_ok s \<and> 0 < spare s \<and> data_ok s dp n \<and> itype (inodes s ! dp) = T_DIR
     \<and> 16 dvd unat (isize (inodes s ! dp)) \<and> unat (isize (inodes s ! dp)) \<le> n * BSIZE"

text \<open>Two states of which the second is the first after looking at blocks.\<close>

definition looked :: "'z fs_st_scheme \<Rightarrow> 'z fs_st_scheme \<Rightarrow> bool" where
  "looked s t \<longleftrightarrow> view t = view s \<and> spare t = spare s \<and> bio_frame s t"

lemma looked_refl: "looked s s"
  by (simp add: looked_def bio_frame_refl)

lemma looked_trans: "looked s t \<Longrightarrow> looked t u \<Longrightarrow> looked s u"
  by (auto simp: looked_def intro: bio_frame_trans)

lemma looked_same:
  assumes "looked s t"
  shows "inodes t = inodes s" "dirent t dp k = dirent s dp k" "dir_list t dp = dir_list s dp" "fs_ok t \<Longrightarrow> dir_ok s dp n \<Longrightarrow> dir_ok t dp n"
proof -
  have l: "bio_frame s t" "view t = view s" "spare t = spare s" using assms by (simp_all add: looked_def)
  show i: "inodes t = inodes s" by (rule frame_fs(2) [OF l(1)])
  show d: "dirent t dp k = dirent s dp k" for k using data_ok_look(2) [OF l(1,2)] by (simp add: dirent_def)
  show "dir_list t dp = dir_list s dp" by (simp add: dir_list_def d i cong: map_cong)
  show "fs_ok t \<Longrightarrow> dir_ok s dp n \<Longrightarrow> dir_ok t dp n" using l(3) i data_ok_look(3) [OF l(1,2)] by (simp add: dir_ok_def)
qed

lemma read_dirent:
  assumes d: "dir_ok s dp n" and i: "i < length (dir_list s dp)"
  shows "\<exists>t. readi dp (of_nat (16 * i)) 16 s = Ok (16, dir_list s dp ! i, t) \<and> fs_ok t \<and> looked s t"
proof -
  let ?z = "unat (isize (inodes s ! dp))"
  have s: "fs_ok s" "0 < spare s" "data_ok s dp n" "itype (inodes s ! dp) \<noteq> T_DEV" "?z \<le> n * BSIZE" using d by (simp_all add: dir_ok_def)
  have i': "i < ?z div 16" using i by (simp add: dir_list_def)
  then have le: "16 * i + 16 \<le> ?z" by linarith
  have z: "?z < 2 ^ 32" using unsigned_less [of "isize (inodes s ! dp)", where ?'a = nat] by simp
  have u: "unat (of_nat (16 * i) :: u32) = 16 * i" using le z by (simp add: unat_of_nat del: of_nat_mult)
  obtain t where "readi dp (of_nat (16 * i)) (of_nat 16) s = Ok (int 16, map (fbyte s dp) [16 * i..<16 * i + 16], t)" "fs_ok t" "view t = view s"
    "spare t = spare s" "bio_frame s t"
    using readi_ok [OF s(1-4), of "of_nat (16 * i)" 16] u le s(5) by auto
  then show ?thesis using i' by (intro exI [of _ t]) (simp add: looked_def dir_list_def dirent_def)
qed

lemma dirlookup_loop_ok:
  assumes "dir_ok s dp n" "i + k = length (dir_list s dp)"
  shows "\<exists>t. fs_ok t \<and> looked s t \<and> dirlookup_loop k (of_nat (16 * i)) dp name s =
    (case dir_find name (drop i (dir_list s dp)) of
       None \<Rightarrow> Ok (None, t)
     | Some j \<Rightarrow> bnd (iget 1 (ucast (de_inum (dir_list s dp ! (i + j)))) t) (\<lambda>(ip, s). Ok (Some (ip, of_nat (16 * (i + j))), s)))"
  using assms
proof (induction k arbitrary: i s)
  case 0
  then show ?case by (intro exI [of _ s]) (simp add: dir_find_def dir_ok_def looked_refl)
next
  case (Suc k)
  let ?es = "dir_list s dp"
  have i: "i < length ?es" using Suc.prems(2) by simp
  obtain t where t: "readi dp (of_nat (16 * i)) 16 s = Ok (16, ?es ! i, t)" "fs_ok t" "looked s t"
    using read_dirent [OF Suc.prems(1) i] by blast
  note L = looked_same [OF t(3)]
  have dr: "drop i ?es = ?es ! i # drop (Suc i) ?es" using i by (simp add: Cons_nth_drop_Suc)
  have dev: "idev (inodes t ! dp) = 1" using Suc.prems(1) L(1) by (simp add: dir_ok_def data_ok_def)
  show ?case
  proof (cases "names name (?es ! i)")
    case True
    then have "dirlookup_loop (Suc k) (of_nat (16 * i)) dp name s =
        bnd (iget 1 (ucast (de_inum (?es ! i))) t) (\<lambda>(ip, s). Ok (Some (ip, of_nat (16 * i)), s))"
      using t(1) dev by (simp add: names_def)
    then show ?thesis using t(2,3) True dr by (intro exI [of _ t]) (simp add: dir_find_def)
  next
    case False
    have e: "of_nat (16 * i) + 16 = (of_nat (16 * Suc i) :: u32)" by simp
    have step: "dirlookup_loop (Suc k) (of_nat (16 * i)) dp name s = dirlookup_loop k (of_nat (16 * Suc i)) dp name t"
      using t(1) False unfolding e [symmetric] by (auto simp: names_def)
    have p: "dir_ok t dp n" "Suc i + k = length (dir_list t dp)" using L(3,4) t(2) Suc.prems by simp_all
    obtain u where u: "fs_ok u" "looked t u" "dirlookup_loop k (of_nat (16 * Suc i)) dp name t =
      (case dir_find name (drop (Suc i) ?es) of
         None \<Rightarrow> Ok (None, u)
       | Some j \<Rightarrow> bnd (iget 1 (ucast (de_inum (?es ! (Suc i + j)))) u) (\<lambda>(ip, s). Ok (Some (ip, of_nat (16 * (Suc i + j))), s)))"
      using Suc.IH [OF p, unfolded L(3)] by - (elim exE conjE, rule that, assumption+)
    have "dir_find name (drop i ?es) = map_option Suc (dir_find name (drop (Suc i) ?es))" using False dr by (simp add: dir_find_def)
    then show ?thesis using u(1) looked_trans [OF t(3) u(2)] u(3) step
      by (intro exI [of _ u]) (cases "dir_find name (drop (Suc i) ?es)"; simp only: option.case option.map add_Suc add_Suc_right simp_thms)
  qed
qed

lemma free_dirent_ok:
  assumes "dir_ok s dp n" "i + k = length (dir_list s dp)"
  shows "\<exists>t. fs_ok t \<and> looked s t \<and> free_dirent k (of_nat (16 * i)) dp s = Ok (of_nat (16 * (i + dir_slot (drop i (dir_list s dp)))), t)"
  using assms
proof (induction k arbitrary: i s)
  case 0
  then show ?case by (intro exI [of _ s]) (simp add: dir_slot_def dir_ok_def looked_refl)
next
  case (Suc k)
  let ?es = "dir_list s dp"
  have i: "i < length ?es" using Suc.prems(2) by simp
  obtain t where t: "readi dp (of_nat (16 * i)) 16 s = Ok (16, ?es ! i, t)" "fs_ok t" "looked s t"
    using read_dirent [OF Suc.prems(1) i] by blast
  note L = looked_same [OF t(3)]
  have dr: "drop i ?es = ?es ! i # drop (Suc i) ?es" using i by (simp add: Cons_nth_drop_Suc)
  show ?case
  proof (cases "de_inum (?es ! i) = 0")
    case True
    then show ?thesis using t dr by (intro exI [of _ t]) (simp add: dir_slot_def)
  next
    case False
    have e: "of_nat (16 * i) + 16 = (of_nat (16 * Suc i) :: u32)" by simp
    have step: "free_dirent (Suc k) (of_nat (16 * i)) dp s = free_dirent k (of_nat (16 * Suc i)) dp t"
      using t(1) False unfolding e [symmetric] by simp
    have p: "dir_ok t dp n" "Suc i + k = length (dir_list t dp)" using L(3,4) t(2) Suc.prems by simp_all
    obtain u where u: "fs_ok u" "looked t u"
      "free_dirent k (of_nat (16 * Suc i)) dp t = Ok (of_nat (16 * (Suc i + dir_slot (drop (Suc i) ?es))), u)"
      using Suc.IH [OF p, unfolded L(3)] by - (elim exE conjE, rule that, assumption+)
    have "dir_slot (drop i ?es) = Suc (dir_slot (drop (Suc i) ?es))" using False dr by (auto simp: dir_slot_def split: option.splits)
    then show ?thesis using u looked_trans [OF t(3) u(2)] step by (intro exI [of _ u]) (simp only: add_Suc add_Suc_right simp_thms)
  qed
qed

lemma dir_entries_length: "dir_ok s dp n \<Longrightarrow> dir_entries dp s = length (dir_list s dp)"
  by (auto simp: dir_ok_def dir_entries_def dir_list_def elim!: dvdE)

section \<open>Cache entries\<close>

lemma fs_ok_cpu: "fs_ok s \<Longrightarrow> cpu_ok s" "fs_ok s \<Longrightarrow> lock_free l s"
  by (auto simp: fs_ok_def cache_inv_def dest: bio_okD(2,3))

definition cacheable :: "u32 \<Rightarrow> inode list \<Rightarrow> bool" where
  "cacheable ino is \<longleftrightarrow> (\<exists>ip \<in> set is. iref ip = 0 \<or> 0 < iref ip \<and> idev ip = 1 \<and> inum ip = ino)"

lemma iget_ok:
  assumes s: "fs_ok s" "cacheable ino (inodes s)"
  shows "\<exists>i t. iget 1 ino s = Ok (i, t) \<and> i < length (inodes t) \<and> idev (inodes t ! i) = 1 \<and> inum (inodes t ! i) = ino \<and> 0 < iref (inodes t ! i)"
proof -
  let ?P = "\<lambda>ip. iref ip > 0 \<and> idev ip = 1 \<and> inum ip = ino"
  let ?B = "\<lambda>s :: 'a fs_st_scheme. case find_idx ?P (inodes s) of
      Some i \<Rightarrow> Ok (i, upd_inode i (\<lambda>ip. ip\<lparr>iref := iref ip + 1\<rparr>) s)
    | None \<Rightarrow> (case find_idx (\<lambda>ip. iref ip = 0) (inodes s) of
        None \<Rightarrow> Panic ''iget: no inodes''
      | Some i \<Rightarrow> Ok (i, upd_inode i (\<lambda>ip. ip\<lparr>idev := 1, inum := ino, iref := 1, ivalid := False\<rparr>) s))"
  have e: "inodes (enter Icache_lock s) = inodes s" by (simp add: enter_def)
  have found: ?thesis if b: "?B (enter Icache_lock s) = Ok (i, upd_inode i f (enter Icache_lock s))" and i: "i < length (inodes s)"
    "idev (f (inodes s ! i)) = 1" "inum (f (inodes s ! i)) = ino" "0 < iref (f (inodes s ! i))" for i f
    using with_lock_ok [OF fs_ok_cpu(1) [OF s(1)] fs_ok_cpu(2) [OF s(1)], of ?B Icache_lock, OF b] i by (simp add: iget_def e upd_inode_def)
  show ?thesis
  proof (cases "find_idx ?P (inodes s)")
    case (Some i)
    then have i: "i < length (inodes s)" "?P (inodes s ! i)" by (auto dest: find_idx_SomeD)
    then show ?thesis using Some by (intro found [of i "\<lambda>ip. ip\<lparr>iref := iref ip + 1\<rparr>"]) (simp_all add: e)
  next
    case None
    then obtain i where i: "find_idx (\<lambda>ip. iref ip = 0) (inodes s) = Some i"
      using s(2) by (cases "find_idx (\<lambda>ip. iref ip = 0) (inodes s)") (auto simp: cacheable_def find_idx_None)
    then show ?thesis using None find_idx_Some_lt [OF i]
      by (intro found [of i "\<lambda>ip. ip\<lparr>idev := 1, inum := ino, iref := 1, ivalid := False\<rparr>"]) (simp_all add: e)
  qed
qed

lemma dirlookup_ok:
  assumes d: "dir_ok s dp n"
  shows "\<exists>t. fs_ok t \<and> looked s t \<and> dirlookup dp name s =
    (case dir_find name (dir_list s dp) of
       None \<Rightarrow> Ok (None, t)
     | Some j \<Rightarrow> bnd (iget 1 (ucast (de_inum (dir_list s dp ! j))) t) (\<lambda>(ip, s). Ok (Some (ip, of_nat (16 * j)), s)))"
proof -
  have "dirlookup dp name s = dirlookup_loop (length (dir_list s dp)) (of_nat (16 * 0)) dp name s"
    using d dir_entries_length [OF d] by (simp add: dirlookup_def dir_ok_def)
  then show ?thesis using dirlookup_loop_ok [OF d add_0, of name] by (simp only: drop_0 add_0)
qed

lemma looked_data:
  assumes "looked s t"
  shows "bitmap_ok t = bitmap_ok s" "free_blocks t = free_blocks s" "kept t dp n b = kept s dp n b" "sb t = sb s" "disksize t = disksize s"
    "data_ok t dp n = data_ok s dp n" "fbyte t dp k = fbyte s dp k" "spare t = spare s" "view t = view s"
proof -
  have l: "bio_frame s t" "view t = view s" using assms by (simp_all add: looked_def)
  note D = data_ok_look [OF l]
  show f: "sb t = sb s" "disksize t = disksize s" using l(1) by (auto simp: bio_frame_def)
  show "bitmap_ok t = bitmap_ok s" "data_ok t dp n = data_ok s dp n" "fbyte t dp k = fbyte s dp k" by (rule D)+
  show "free_blocks t = free_blocks s" by (simp add: free_blocks_def D f)
  show "kept t dp n b = kept s dp n b" by (simp add: kept_def D f cong: image_cong)
  show "spare t = spare s" "view t = view s" using assms by (simp_all add: looked_def)
qed

section \<open>Adding an entry\<close>

lemma touched_dirent: "touched (16 * k) 16 = 1"
proof -
  have "16 * k mod BSIZE = 16 * (k mod 32)" using mult_mod_right [of 16 k 32] by simp
  then have "16 * k mod BSIZE \<le> 496" by simp
  then have "(16 * k mod BSIZE + 16 + (BSIZE - 1)) div BSIZE = 1" by (intro div_nat_eqI) simp_all
  then show ?thesis by (simp add: touched_def)
qed

lemma dir_size: "dir_ok s dp n \<Longrightarrow> unat (isize (inodes s ! dp)) = 16 * length (dir_list s dp)"
  by (simp add: dir_ok_def dir_list_def)

text \<open>Writing the bytes of an entry into slot \<open>k\<close> of the directory.\<close>

lemma write_dirent:
  assumes s: "dir_ok s dp n" "bitmap_ok s" "5 \<le> spare s" and e: "length e = 16" and k: "k \<le> length (dir_list s dp)"
    and room: "16 * k + 16 \<le> n * BSIZE \<or> 16 * k + 16 \<le> NDIRECT * BSIZE \<and> 0 < free_blocks s"
    and b: "b = IBLOCK (inum (inodes s ! dp)) (sb s)" "b < disksize s" "kept s dp n b" "addrs (inodes s ! dp) ! NDIRECT \<noteq> b"
  shows "\<exists>t m a z. writei dp e (of_nat (16 * k)) s = Ok (16, t) \<and> dir_ok t dp m
    \<and> inodes t = (inodes s)[dp := (inodes s ! dp)\<lparr>addrs := a, isize := z\<rparr>]
    \<and> dir_list t dp = take k (dir_list s dp) @ e # drop (Suc k) (dir_list s dp)
    \<and> (\<forall>c. kept s dp n c \<and> c \<noteq> b \<longrightarrow> view t c = view s c)"
proof -
  let ?es = "dir_list s dp" and ?z = "isize (inodes s ! dp)"
  have d: "fs_ok s" "data_ok s dp n" "itype (inodes s ! dp) = T_DIR" "itype (inodes s ! dp) \<noteq> T_DEV" "unat ?z \<le> n * BSIZE"
    using s(1) by (simp_all add: dir_ok_def)
  have z: "unat ?z = 16 * length ?es" by (rule dir_size [OF s(1)])
  have z32: "unat ?z < 2 ^ 32" using unsigned_less [of ?z, where ?'a = nat] by simp
  have n: "n \<le> MAXFILE" "dp < length (inodes s)" using d(2) by (simp_all add: data_ok_def)
  have u: "unat (of_nat (16 * k) :: u32) = 16 * k" using k z z32 by (simp add: unat_of_nat del: of_nat_mult)
  have off: "of_nat (16 * k) \<le> ?z" using u z k by (simp add: word_le_nat_alt del: of_nat_mult)
  have len: "16 * k + 16 \<le> MAXFILE * BSIZE" using room n(1) by auto
  have u2: "unat (of_nat (16 * k) + (of_nat 16) :: u32) = 16 * k + 16" using u len by (simp add: unat_word_ariths del: of_nat_mult)
  have h: "unat (of_nat (16 * k) :: u32) + length e \<le> MAXFILE * BSIZE" unfolding u e by (rule len)
  have i0: "ind_new n (16 * k + 16) = 0" using room by (auto simp: ind_new_def)
  have h2: "blocks_for s dp n (unat (of_nat (16 * k) :: u32)) (length e)"
    using room i0 unfolding u e blocks_for_def touched_dirent by auto
  have h3: "log_cost n (unat (of_nat (16 * k) :: u32)) (length e) + 2 \<le> spare s"
    using room s(3) unfolding u e log_cost_def touched_dirent i0 by auto
  have h4: "16 * k + 16 \<le> max n NDIRECT * BSIZE"
    using room by (cases "n \<le> NDIRECT") auto
  let ?m = "max ?z (of_nat (16 * k) + of_nat (length e))"
  obtain t m a where t: "writei dp e (of_nat (16 * k)) s = Ok (int (length e), t)" "fs_ok t" "0 < spare t" "bitmap_ok t" "data_ok t dp m"
      "tail_ok s dp n \<longrightarrow> tail_ok t dp m" "unat (of_nat (16 * k) :: u32) + length e \<le> m * BSIZE" "n \<le> m"
    and i: "inodes t = (inodes s)[dp := (inodes s ! dp)\<lparr>addrs := a, isize := ?m\<rparr>]"
    and f: "\<forall>j. unat (of_nat (16 * k) :: u32) \<le> j \<and> j < unat (of_nat (16 * k) :: u32) + length e \<longrightarrow> fbyte t dp j = e ! (j - unat (of_nat (16 * k) :: u32))"
      "\<forall>j < n * BSIZE. \<not> (unat (of_nat (16 * k) :: u32) \<le> j \<and> j < unat (of_nat (16 * k) :: u32) + length e) \<longrightarrow> fbyte t dp j = fbyte s dp j"
      "\<forall>c. kept s dp n c \<and> c \<noteq> b \<and> (c = indb s dp \<longrightarrow> c = 0 \<or> unat (of_nat (16 * k) :: u32) + length e \<le> max n NDIRECT * BSIZE)
        \<longrightarrow> view t c = view s c"
    using writei_ok [OF d(1) s(2) d(2,4,5) off h h2 h3 b(1-3) b(4) [folded indb_def]]
    by - (elim exE conjE, rule that, assumption+)
  note F = f(1,2) [unfolded u e]
  have zt: "unat ?m = 16 * (if k < length ?es then length ?es else Suc (length ?es))"
    using z u2 e k by (auto simp: max_def word_le_nat_alt simp del: of_nat_mult)
  have it: "isize (inodes t ! dp) = ?m" "itype (inodes t ! dp) = T_DIR" using i n(2) d(3) by (simp_all del: of_nat_mult)
  have mm: "16 * k + 16 \<le> m * BSIZE" "n * BSIZE \<le> m * BSIZE" using t(7,8) u e by simp_all
  have fr: "\<forall>c. kept s dp n c \<and> c \<noteq> b \<longrightarrow> view t c = view s c" using f(3) h4 unfolding u e by blast
  have "unat ?m \<le> m * BSIZE" using zt z d(5) k mm by (auto split: if_splits)
  then have dt: "dir_ok t dp m" using t(2,3,5) it zt by (simp add: dir_ok_def del: of_nat_mult)
  have "dirent t dp j = (if j = k then e else ?es ! j)" if "j < length (dir_list t dp)" for j
  proof (cases "j = k")
    case True
    then show ?thesis using F(1) e by (auto simp: dirent_def intro!: nth_equalityI)
  next
    case False
    then have j: "j < length ?es" using that dir_size [OF dt] it zt k by (auto split: if_splits)
    have "fbyte t dp x = fbyte s dp x" if "16 * j \<le> x" "x < 16 * j + 16" for x
      using F(2) that False j z d(5) by (intro F(2) [rule_format]) auto
    then show ?thesis using False j by (auto simp: dirent_def dir_list_def)
  qed
  then have "dir_list t dp ! j = (if j = k then e else ?es ! j)" if "j < length (dir_list t dp)" for j
    using that by (simp add: dir_list_def)
  then have "dir_list t dp = take k ?es @ e # drop (Suc k) ?es"
    using dir_size [OF dt] it zt k by (intro nth_equalityI) (auto simp: nth_append nth_Cons' not_less split: if_splits)
  then show ?thesis using t(1) dt i fr e by (intro exI [of _ t] exI [of _ m] exI [of _ a] exI [of _ ?m]) simp
qed

lemma cacheable_upd:
  assumes "cacheable ino is" "d < length is"
  shows "cacheable ino (is[d := (is ! d)\<lparr>addrs := a, isize := z\<rparr>])"
proof -
  obtain j where j: "j < length is" "iref (is ! j) = 0 \<or> 0 < iref (is ! j) \<and> idev (is ! j) = 1 \<and> inum (is ! j) = ino"
    using assms(1) by (auto simp: cacheable_def in_set_conv_nth)
  let ?js = "is[d := (is ! d)\<lparr>addrs := a, isize := z\<rparr>]"
  have "?js ! j \<in> set ?js" using j(1) by (intro nth_mem) simp
  moreover have "iref (?js ! j) = iref (is ! j)" "idev (?js ! j) = idev (is ! j)" "inum (?js ! j) = inum (is ! j)"
    using j(1) by (cases "j = d"; simp)+
  ultimately show ?thesis using j(2) unfolding cacheable_def by (intro bexI [of _ "?js ! j"]) simp_all
qed

lemma dirlink_ok:
  assumes s: "dir_ok s dp n" "bitmap_ok s" "5 \<le> spare s" and new: "dir_map (dir_list s dp) name = None"
    and k: "k = dir_slot (dir_list s dp)"
    and room: "16 * k + 16 \<le> n * BSIZE \<or> 16 * k + 16 \<le> NDIRECT * BSIZE \<and> 0 < free_blocks s"
    and b: "b = IBLOCK (inum (inodes s ! dp)) (sb s)" "b < disksize s" "kept s dp n b" "addrs (inodes s ! dp) ! NDIRECT \<noteq> b"
  shows "\<exists>t m a z. dirlink dp name ino s = Ok (0, t) \<and> dir_ok t dp m
    \<and> inodes t = (inodes s)[dp := (inodes s ! dp)\<lparr>addrs := a, isize := z\<rparr>]
    \<and> dir_list t dp = dir_add name ino (dir_list s dp)
    \<and> (\<forall>c. kept s dp n c \<and> c \<noteq> b \<longrightarrow> view t c = view s c)"
proof -
  let ?es = "dir_list s dp"
  have nf: "dir_find name ?es = None" using new by (simp add: dir_map_def)
  obtain t where t: "fs_ok t" "looked s t" "dirlookup dp name s = Ok (None, t)" using dirlookup_ok [OF s(1), of name] nf by auto
  note L = looked_same [OF t(2)]
  have dt: "dir_ok t dp n" by (rule L(4) [OF t(1) s(1)])
  obtain u where u: "fs_ok u" "looked t u" "free_dirent (length (dir_list t dp)) (of_nat (16 * 0)) dp t = Ok (of_nat (16 * (0 + dir_slot (drop 0 (dir_list t dp)))), u)"
    using free_dirent_ok [OF dt add_0] by blast
  have su: "looked s u" by (rule looked_trans [OF t(2) u(2)])
  note M = looked_same [OF su] and D = looked_data [OF su]
  have fr: "free_dirent (dir_entries dp t) 0 dp t = Ok (of_nat (16 * k), u)"
    using u(3) L(3) dir_entries_length [OF dt] k by simp
  have wr: "\<exists>w m a z. writei dp (dirent_bytes name ino) (of_nat (16 * k)) u = Ok (16, w) \<and> dir_ok w dp m
    \<and> inodes w = (inodes u)[dp := (inodes u ! dp)\<lparr>addrs := a, isize := z\<rparr>]
    \<and> dir_list w dp = take k (dir_list u dp) @ dirent_bytes name ino # drop (Suc k) (dir_list u dp)
    \<and> (\<forall>c. kept u dp n c \<and> c \<noteq> b \<longrightarrow> view w c = view u c)"
    using s(2,3) room b k dir_slot_le [of ?es]
    by (intro write_dirent [OF M(4) [OF u(1) s(1)]]) (simp_all add: D M(1,3) dirent_bytes_length)
  have ad: "take k ?es @ dirent_bytes name ino # drop (Suc k) ?es = dir_add name ino ?es" by (simp add: dir_add_def k)
  obtain w m a z where w: "writei dp (dirent_bytes name ino) (of_nat (16 * k)) u = Ok (16, w)" "dir_ok w dp m"
    "inodes w = (inodes s)[dp := (inodes s ! dp)\<lparr>addrs := a, isize := z\<rparr>]" "dir_list w dp = dir_add name ino ?es"
    "\<forall>c. kept s dp n c \<and> c \<noteq> b \<longrightarrow> view w c = view s c"
    using wr [unfolded M(1,3) D(3,9) ad] by - (elim exE conjE, rule that, assumption+)
  have "dirlink dp name ino s = Ok (0, w)" using t(3) fr w(1) unfolding dirlink_def by simp
  then show ?thesis using w(2-5) by (intro exI [of _ w] exI [of _ m] exI [of _ a] exI [of _ z]) (intro conjI; assumption)
qed

lemma dirlookup_found:
  assumes d: "dir_ok s dp n" "dir_map (dir_list s dp) name = Some ino" "cacheable ino (inodes s)"
  shows "\<exists>i u k. dir_find name (dir_list s dp) = Some k \<and> dirlookup dp name s = Ok (Some (i, of_nat (16 * k)), u) \<and> i < length (inodes u)
    \<and> idev (inodes u ! i) = 1 \<and> inum (inodes u ! i) = ino \<and> 0 < iref (inodes u ! i)"
proof -
  obtain k where k: "dir_find name (dir_list s dp) = Some k" "ino = ucast (de_inum (dir_list s dp ! k))"
    using d(2) by (auto simp: dir_map_def)
  obtain t where t: "fs_ok t" "looked s t"
    "dirlookup dp name s = bnd (iget 1 ino t) (\<lambda>(ip, s). Ok (Some (ip, of_nat (16 * k)), s))"
    using dirlookup_ok [OF d(1), of name] k by auto
  obtain i u where "iget 1 ino t = Ok (i, u)" "i < length (inodes u)" "idev (inodes u ! i) = 1" "inum (inodes u ! i) = ino" "0 < iref (inodes u ! i)"
    using iget_ok [OF t(1)] looked_same(1) [OF t(2)] d(3) by metis
  then show ?thesis using k(1) t(3) by (intro exI [of _ i] exI [of _ u] exI [of _ k]) simp
qed

lemma dirlookup_absent:
  assumes "dir_ok s dp n" "dir_map (dir_list s dp) name = None"
  shows "\<exists>u. dirlookup dp name s = Ok (None, u) \<and> inodes u = inodes s"
  using dirlookup_ok [OF assms(1), of name] assms(2) looked_same(1) by (auto simp: dir_map_def)

text \<open>
  C4. A directory is a map from names to inode numbers. Adding a name that is not there, with a
  number other than 0 that fits the 16-bit field of an entry, succeeds when the slot taken (the
  first free one, or one past the end) lies in the blocks of the directory or in a direct
  block that can be allocated: the map of the directory is updated at that name and nowhere
  else, names being compared by their first \<open>DIRSIZ\<close> bytes; looking the name up then gives the
  position of that slot and a cache entry with that inode number; a name that was not there
  before and is another one is still not found; and every other block in use keeps its content.
\<close>

theorem dirlink_dirlookup:
  assumes s: "dir_ok s dp n" "bitmap_ok s" "5 \<le> spare s" "cacheable ino (inodes s)"
    and new: "dir_map (dir_list s dp) name = None" "0 \<notin> set name" "0 < ino" "ino < 65536"
    and k: "k = dir_slot (dir_list s dp)"
    and room: "16 * k + 16 \<le> n * BSIZE \<or> 16 * k + 16 \<le> NDIRECT * BSIZE \<and> 0 < free_blocks s"
    and b: "b = IBLOCK (inum (inodes s ! dp)) (sb s)" "b < disksize s" "kept s dp n b" "addrs (inodes s ! dp) ! NDIRECT \<noteq> b"
  shows "\<exists>t m. dirlink dp name ino s = Ok (0, t) \<and> dir_ok t dp m
    \<and> (\<forall>nm. 0 \<notin> set nm \<longrightarrow> dir_map (dir_list t dp) nm = (if take DIRSIZ nm = take DIRSIZ name then Some ino else dir_map (dir_list s dp) nm))
    \<and> (\<exists>i u. dirlookup dp name t = Ok (Some (i, of_nat (16 * k)), u) \<and> idev (inodes u ! i) = 1 \<and> inum (inodes u ! i) = ino \<and> 0 < iref (inodes u ! i))
    \<and> (\<forall>nm. 0 \<notin> set nm \<longrightarrow> take DIRSIZ nm \<noteq> take DIRSIZ name \<longrightarrow> dir_map (dir_list s dp) nm = None \<longrightarrow> (\<exists>u. dirlookup dp nm t = Ok (None, u)))
    \<and> (\<forall>c. kept s dp n c \<and> c \<noteq> b \<longrightarrow> view t c = view s c)"
proof -
  let ?es = "dir_list s dp"
  obtain t m a z where t: "dirlink dp name ino s = Ok (0, t)" "dir_ok t dp m"
    "inodes t = (inodes s)[dp := (inodes s ! dp)\<lparr>addrs := a, isize := z\<rparr>]" "dir_list t dp = dir_add name ino ?es"
    "\<forall>c. kept s dp n c \<and> c \<noteq> b \<longrightarrow> view t c = view s c"
    using dirlink_ok [OF s(1-3) new(1) k room b, of ino] by - (elim exE conjE, rule that, assumption+)
  have dp: "dp < length (inodes s)" using s(1) by (simp add: dir_ok_def data_ok_def)
  have mp: "dir_map (dir_list t dp) nm = (if take DIRSIZ nm = take DIRSIZ name then Some ino else dir_map ?es nm)" if "0 \<notin> set nm" for nm
    unfolding t(4) by (rule dir_map_add [OF new(1,3,4,2) that])
  have c: "cacheable ino (inodes t)" unfolding t(3) by (rule cacheable_upd [OF s(4) dp])
  have fk: "dir_find name (dir_list t dp) = Some k" unfolding t(4) k using dir_find_add [OF new(1,3,4,2,2)] by simp
  have "\<exists>i u. dirlookup dp name t = Ok (Some (i, of_nat (16 * k)), u) \<and> idev (inodes u ! i) = 1 \<and> inum (inodes u ! i) = ino \<and> 0 < iref (inodes u ! i)"
    using dirlookup_found [OF t(2) _ c, of name] mp [OF new(2)] fk by auto
  moreover have "\<exists>u. dirlookup dp nm t = Ok (None, u)" if "0 \<notin> set nm" "take DIRSIZ nm \<noteq> take DIRSIZ name" "dir_map ?es nm = None" for nm
    using dirlookup_absent [OF t(2), of nm] mp [OF that(1)] that(2,3) by auto
  ultimately show ?thesis using t(1,2,5) mp by blast
qed

definition root0 :: fs_st where
  "root0 = data_file0 (inode0\<lparr>itype := T_DIR, isize := 32\<rparr>)"

lemma root0_list: "dir_list root0 0 = [replicate 16 0, replicate 16 0]"
proof -
  have i: "inodes root0 ! 0 = inode0\<lparr>itype := T_DIR, isize := 32, idev := 1, inum := 5, addrs := [60, 61] @ replicate 11 0\<rparr>"
    unfolding root0_def by (simp only: data_file0_ok(9))
  have "view root0 60 = disk root0 60"
  proof (rule view_uncached, intro allI impI)
    fix i show "\<not> caches root0 i 60" using bio0_bufs [of i] by (auto simp: caches_def root0_def data_file0_def upd_inode_def fs0_fields log0_fields)
  qed
  then have "view root0 60 k = 0" for k by (simp add: root0_def data_file0_def upd_inode_def fs0_fields)
  then have "fbyte root0 0 k = 0" if "k < 32" for k using that by (simp add: fbyte_def faddr_def i)
  then have "dirent root0 0 j = replicate 16 0" if "j < 2" for j using that by (auto simp: dirent_def intro!: nth_equalityI)
  moreover have "unat (isize (inodes root0 ! 0)) div 16 = 2" by (simp add: i)
  ultimately show ?thesis by (simp add: dir_list_def upt_rec)
qed

theorem dirlink_dirlookup_witness:
  "\<exists>t i u. dirlink 0 [97, 98] 7 root0 = Ok (0, t) \<and> dirlookup 0 [97, 98] t = Ok (Some (i, 0), u) \<and> inum (inodes u ! i) = 7"
proof -
  note F = data_file0_ok [of "inode0\<lparr>itype := T_DIR, isize := 32\<rparr>", folded root0_def]
  have d: "dir_ok root0 0 2" using F(1,2,4) unfolding dir_ok_def by (simp only: F(9)) simp
  have z: "de_inum (replicate 16 0) = 0" by (simp add: de_inum_def)
  have sl: "0 = dir_slot (dir_list root0 0)" by (simp add: root0_list dir_slot_def z)
  have mp: "dir_map (dir_list root0 0) [97, 98] = None"
    by (simp add: root0_list dir_map_def dir_find_def names_def z)
  have "1 < length (inodes root0)" "iref (inodes root0 ! 1) = 0" by (simp_all add: root0_def data_file0_def fs0_def log_st.defs)
  then have "inodes root0 ! 1 \<in> set (inodes root0)" "iref (inodes root0 ! 1) = 0" by (simp_all add: nth_mem)
  then have c: "cacheable 7 (inodes root0)" unfolding cacheable_def by blast
  have h: "5 \<le> spare root0" "(0 :: u8) \<notin> set [97, 98]" "(0 :: u32) < 7" "(7 :: u32) < 65536" "(40 :: u32) < disksize root0"
    "16 * 0 + 16 \<le> 2 * BSIZE \<or> 16 * 0 + 16 \<le> NDIRECT * BSIZE \<and> 0 < free_blocks root0" using F(2,7) by simp_all
  show ?thesis using dirlink_dirlookup [OF d F(3) h(1) c mp h(2-4) sl h(6) F(6) [symmetric] h(5) F(5,8)] by auto
qed

end
