(* ===== verification/Mkfs.thy ===== *)
theory Mkfs
  imports Fs_Dir
begin

text \<open>
  The tool that builds the first disk image, \<open>xv6-public-master/mkfs.c\<close>. It is a program of the
  host: it writes an empty file system into a file, then the files named on the command line.
  The image file is a sequence of sectors of \<open>BSIZE\<close> bytes; what the host does (which files
  exist, what \<open>read\<close> returns, which transfers succeed) is an argument. A failed \<open>assert\<close> and
  \<open>exit(1)\<close> after \<open>perror\<close> are the outcome \<open>Panic\<close> with the condition or the call that failed.
  What the program prints is left out. Operations whose names occur in \<open>fs.c\<close> too carry
  the prefix \<open>mk_\<close>.

  The theory shows what the image holds: the superblock, the root directory and the files, every
  block before the first free one in exactly one place, and the bitmap of the blocks in use.
  \<open>Mkfs_Kernel\<close> shows that \<open>fs.c\<close> finds and reads the files.
\<close>

unbundle bit_operations_syntax

section \<open>State\<close>

record img_st =
  img :: "nat \<Rightarrow> block"
  imgsize :: nat
  io_ok :: "nat \<Rightarrow> bool"
  mk_sb :: superblock
  freeinode :: u32
  freeblock :: u32

abbreviation mk_FSSIZE :: nat where "mk_FSSIZE \<equiv> 1000"
abbreviation NINODES :: nat where "NINODES \<equiv> 200"
abbreviation nbitmap :: nat where "nbitmap \<equiv> mk_FSSIZE div (BSIZE * 8) + 1"
abbreviation ninodeblocks :: nat where "ninodeblocks \<equiv> NINODES div 8 + 1"
abbreviation nlog :: nat where "nlog \<equiv> 30"
abbreviation nmeta :: nat where "nmeta \<equiv> 2 + nlog + ninodeblocks + nbitmap"

text \<open>Conversion to the byte order of the disk; the bytes are read back in the order of the host, a little-endian machine.\<close>

definition xshort :: "16 word \<Rightarrow> 16 word" where
  "xshort x = (let a = (\<lambda>_. 0)(0 := ucast x, 1 := ucast (drop_bit 8 x)) in get16 a 0)"

definition xint :: "u32 \<Rightarrow> u32" where
  "xint x = (let a = (\<lambda>_. 0)(0 := ucast x, 1 := ucast (drop_bit 8 x), 2 := ucast (drop_bit 16 x), 3 := ucast (drop_bit 24 x)) in get32 a 0)"

section \<open>Sectors and inodes\<close>

text \<open>The sector at the offset that \<open>lseek\<close> is given.\<close>

definition sector :: "u32 \<Rightarrow> nat" where
  "sector sec = unat (sec * 512) div BSIZE"

definition wsect :: "u32 \<Rightarrow> block \<Rightarrow> img_st \<Rightarrow> img_st res" where
  "wsect sec buf s =
     (if \<not> io_ok s (sector sec) then Panic ''write''
      else Ok (s\<lparr>img := (img s)(sector sec := buf), imgsize := max (imgsize s) (Suc (sector sec))\<rparr>))"

definition rsect :: "u32 \<Rightarrow> img_st \<Rightarrow> block res" where
  "rsect sec s = (if \<not> io_ok s (sector sec) \<or> imgsize s \<le> sector sec then Panic ''read'' else Ok (img s (sector sec)))"

text \<open>An inode as it is on the disk: the fields that only the kernel's copy has are 0.\<close>

definition din0 :: inode where
  "din0 = \<lparr>idev = 0, inum = 0, iref = 0, ivalid = False, itype = 0, imajor = 0, iminor = 0, inlink = 0, isize = 0, addrs = replicate 13 0\<rparr>"

definition rinode :: "u32 \<Rightarrow> img_st \<Rightarrow> inode res" where
  "rinode ino s = bnd (rsect (IBLOCK ino (mk_sb s)) s) (\<lambda>buf. Ok (get_dinode buf (dinode_off ino) din0))"

definition winode :: "u32 \<Rightarrow> inode \<Rightarrow> img_st \<Rightarrow> img_st res" where
  "winode ino ip s =
     (let bn = IBLOCK ino (mk_sb s) in
      bnd (rsect bn s) (\<lambda>buf. wsect bn (put_dinode ip (dinode_off ino) buf) s))"

definition mk_ialloc :: "16 word \<Rightarrow> img_st \<Rightarrow> (u32 \<times> img_st) res" where
  "mk_ialloc ty s =
     (let ino = freeinode s;
          s = s\<lparr>freeinode := ino + 1\<rparr>;
          din = din0\<lparr>itype := xshort ty, inlink := xshort 1, isize := xint 0\<rparr>
      in bnd (winode ino din s) (\<lambda>s. Ok (ino, s)))"

definition mk_balloc :: "nat \<Rightarrow> img_st \<Rightarrow> img_st res" where
  "mk_balloc nused s =
     (if \<not> nused < BSIZE * 8 then Panic ''assert used < BSIZE*8''
      else
        let buf = fold (\<lambda>i d. d(i div 8 := d (i div 8) OR push_bit (i mod 8) 1)) [0..<nused] (\<lambda>_. 0)
        in wsect (sb_bmapstart (mk_sb s)) buf s)"

section \<open>Appending to a file\<close>

text \<open>The block of the file that holds block \<open>fbn\<close>, taken from the free ones if it has none yet.\<close>

definition iappend_block :: "nat \<Rightarrow> inode \<Rightarrow> img_st \<Rightarrow> (u32 \<times> inode \<times> img_st) res" where
  "iappend_block fbn din s =
     (if fbn < NDIRECT then
        let (din, s) = (if xint (addrs din ! fbn) = 0
                        then (din\<lparr>addrs := (addrs din)[fbn := xint (freeblock s)]\<rparr>, s\<lparr>freeblock := freeblock s + 1\<rparr>)
                        else (din, s))
        in Ok (xint (addrs din ! fbn), din, s)
      else
        let (din, s) = (if xint (addrs din ! NDIRECT) = 0
                        then (din\<lparr>addrs := (addrs din)[NDIRECT := xint (freeblock s)]\<rparr>, s\<lparr>freeblock := freeblock s + 1\<rparr>)
                        else (din, s));
            ind = xint (addrs din ! NDIRECT); j = 4 * (fbn - NDIRECT)
        in bnd (rsect ind s) (\<lambda>indirect.
           bnd (if get32 indirect j = 0
                then let indirect = put32 j (xint (freeblock s)) indirect; s = s\<lparr>freeblock := freeblock s + 1\<rparr>
                     in bnd (wsect ind indirect s) (\<lambda>s. Ok (indirect, s))
                else Ok (indirect, s)) (\<lambda>(indirect, s).
           Ok (xint (get32 indirect j), din, s))))"

text \<open>The loop of \<open>iappend\<close>: the inode is kept in memory and written at the end.\<close>

function iappend_loop :: "inode \<Rightarrow> nat \<Rightarrow> u8 list \<Rightarrow> img_st \<Rightarrow> (inode \<times> nat \<times> img_st) res" where
  "iappend_loop din off p s =
     (if p = [] then Ok (din, off, s)
      else if \<not> off div BSIZE < MAXFILE then Panic ''assert fbn < MAXFILE''
      else
        bnd (iappend_block (off div BSIZE) din s) (\<lambda>(x, din, s).
        let n1 = blk_chunk off (length p) in
        bnd (rsect x s) (\<lambda>buf.
        bnd (wsect x (\<lambda>k. if off mod BSIZE \<le> k \<and> k < off mod BSIZE + n1 then p ! (k - off mod BSIZE) else buf k) s)
          (iappend_loop din (off + n1) (drop n1 p)))))"
  by pat_completeness auto

termination
  by (relation "measure (\<lambda>(din, off, p, s). length p)") (simp_all add: blk_chunk_def)

declare iappend_loop.simps [simp del]

definition iappend :: "u32 \<Rightarrow> u8 list \<Rightarrow> img_st \<Rightarrow> img_st res" where
  "iappend ino p s =
     bnd (rinode ino s) (\<lambda>din.
     bnd (iappend_loop din (unat (xint (isize din))) p s) (\<lambda>(din, off, s).
       winode ino (din\<lparr>isize := xint (of_nat off)\<rparr>) s))"

section \<open>The program\<close>

primrec wsects :: "nat list \<Rightarrow> block \<Rightarrow> img_st \<Rightarrow> img_st res" where
  "wsects [] buf s = Ok s"
| "wsects (i # is) buf s = bnd (wsect (of_nat i) buf s) (wsects is buf)"

definition mkfs_sb :: superblock where
  "mkfs_sb = \<lparr>sb_size = xint (of_nat mk_FSSIZE), sb_nblocks = xint (of_nat (mk_FSSIZE - nmeta)), sb_ninodes = xint (of_nat NINODES),
     sb_nlog = xint (of_nat nlog), sb_logstart = xint 2, sb_inodestart = xint (of_nat (2 + nlog)),
     sb_bmapstart = xint (of_nat (2 + nlog + ninodeblocks))\<rparr>"

definition put_sb :: "superblock \<Rightarrow> block \<Rightarrow> block" where
  "put_sb q d = put_words 0 [sb_size q, sb_nblocks q, sb_ninodes q, sb_nlog q, sb_logstart q, sb_inodestart q, sb_bmapstart q] d"

text \<open>The loop that copies a file; \<open>read\<close> returns the lists of bytes in turn, an empty one at the end.\<close>

fun copy_in :: "u32 \<Rightarrow> u8 list list \<Rightarrow> img_st \<Rightarrow> img_st res" where
  "copy_in ino [] s = Ok s"
| "copy_in ino (c # cs) s = (if c = [] then Ok s else bnd (iappend ino c s) (copy_in ino cs))"

definition skip_underscore :: "u8 list \<Rightarrow> u8 list" where
  "skip_underscore name = (case name of [] \<Rightarrow> [] | c # cs \<Rightarrow> if c = of_char (CHR ''_'') then cs else name)"

definition add_file :: "(u8 list \<Rightarrow> u8 list list option) \<Rightarrow> u32 \<Rightarrow> u8 list \<Rightarrow> img_st \<Rightarrow> img_st res" where
  "add_file host rootino name s =
     (if of_char (CHR ''/'') \<in> set name then Panic ''assert index''
      else case host name of
        None \<Rightarrow> Panic ''open''
      | Some chunks \<Rightarrow>
          bnd (mk_ialloc T_FILE s) (\<lambda>(ino, s).
          bnd (iappend rootino (dirent_bytes (skip_underscore name) ino) s) (copy_in ino chunks)))"

primrec add_files :: "(u8 list \<Rightarrow> u8 list list option) \<Rightarrow> u32 \<Rightarrow> u8 list list \<Rightarrow> img_st \<Rightarrow> img_st res" where
  "add_files host rootino [] s = Ok s"
| "add_files host rootino (name # files) s = bnd (add_file host rootino name s) (add_files host rootino files)"

text \<open>An empty file system: zero sectors, the superblock and the root directory.\<close>

definition mkfs_empty :: "(nat \<Rightarrow> bool) \<Rightarrow> (u32 \<times> img_st) res" where
  "mkfs_empty io =
     bnd (wsects [0..<mk_FSSIZE] (\<lambda>_. 0)
            \<lparr>img = (\<lambda>_ _. 0), imgsize = 0, io_ok = io, mk_sb = mkfs_sb, freeinode = 1, freeblock = of_nat nmeta\<rparr>) (\<lambda>s.
     bnd (wsect 1 (put_sb (mk_sb s) (fill 0 BSIZE 0 (\<lambda>_. 0))) s) (\<lambda>s.
     bnd (mk_ialloc T_DIR s) (\<lambda>(rootino, s).
       if rootino \<noteq> ROOTINO then Panic ''assert rootino == ROOTINO''
       else
         bnd (iappend rootino (dirent_bytes [of_char (CHR ''.'')] rootino) s) (\<lambda>s.
         bnd (iappend rootino (dirent_bytes [of_char (CHR ''.''), of_char (CHR ''.'')] rootino) s) (\<lambda>s.
         Ok (rootino, s))))))"

text \<open>The end of \<open>main\<close>: the size of the root directory is rounded up, and the bitmap written.\<close>

definition mkfs_finish :: "u32 \<Rightarrow> img_st \<Rightarrow> img_st res" where
  "mkfs_finish rootino s =
     bnd (rinode rootino s) (\<lambda>din.
       let off = xint (isize din);
           off = (off div 512 + 1) * 512
       in bnd (winode rootino (din\<lparr>isize := xint off\<rparr>) s) (\<lambda>s.
          mk_balloc (unat (freeblock s)) s))"

definition mkfs :: "u8 list list \<Rightarrow> (u8 list \<Rightarrow> bool) \<Rightarrow> (u8 list \<Rightarrow> u8 list list option) \<Rightarrow> (nat \<Rightarrow> bool) \<Rightarrow> img_st res" where
  "mkfs argv creat host io =
     (case argv of
        _ # fname # files \<Rightarrow>
          if \<not> creat fname then Panic ''open''
          else
            bnd (mkfs_empty io) (\<lambda>(rootino, s).
            bnd (add_files host rootino files s) (mkfs_finish rootino))
      | _ \<Rightarrow> Panic ''Usage: mkfs fs.img files...'')"

section \<open>Reading and writing the image\<close>

lemma xint_id [simp]: "xint x = x"
  using get32_put32_same [of 0 x "\<lambda>_. 0"] by (simp add: xint_def put32_def Let_def numeral_2_eq_2)

lemma xshort_id [simp]: "xshort x = x"
  using get16_put16_same [of 0 x "\<lambda>_. 0"] by (simp add: xshort_def put16_def Let_def)

lemma mkfs_sb_eq: "mkfs_sb = \<lparr>sb_size = 1000, sb_nblocks = 941, sb_ninodes = 200, sb_nlog = 30, sb_logstart = 2, sb_inodestart = 32, sb_bmapstart = 58\<rparr>"
  by (simp add: mkfs_sb_def)

lemma sector_id: "unat x < 2 ^ 23 \<Longrightarrow> sector x = unat x"
  by (simp add: sector_def unat_word_ariths)

text \<open>The image has its full size and every transfer succeeds.\<close>

definition img_ok :: "img_st \<Rightarrow> bool" where
  "img_ok s \<longleftrightarrow> imgsize s = 1000 \<and> (\<forall>p < 1000. io_ok s p) \<and> mk_sb s = mkfs_sb"

definition set_sect :: "nat \<Rightarrow> block \<Rightarrow> img_st \<Rightarrow> img_st" where
  "set_sect p d s = s\<lparr>img := (img s)(p := d)\<rparr>"

lemma set_sect_simps [simp]:
  "img (set_sect p d s) = (img s)(p := d)" "img_ok (set_sect p d s) = img_ok s" "freeinode (set_sect p d s) = freeinode s"
  "freeblock (set_sect p d s) = freeblock s" "mk_sb (set_sect p d s) = mk_sb s" "img_ok (s\<lparr>freeblock := b\<rparr>) = img_ok s"
  "img_ok (s\<lparr>freeinode := b\<rparr>) = img_ok s" "set_sect p d (s\<lparr>freeblock := b\<rparr>) = (set_sect p d s)\<lparr>freeblock := b\<rparr>"
  by (simp_all add: set_sect_def img_ok_def)

lemma rsect_ok: "img_ok s \<Longrightarrow> unat x < 1000 \<Longrightarrow> rsect x s = Ok (img s (unat x))"
  by (simp add: rsect_def img_ok_def sector_id)

lemma wsect_ok: "img_ok s \<Longrightarrow> unat x < 1000 \<Longrightarrow> wsect x d s = Ok (set_sect (unat x) d s)"
  by (simp add: wsect_def img_ok_def sector_id set_sect_def)

lemma iblock_at: "i < 208 \<Longrightarrow> unat (IBLOCK (of_nat i) mkfs_sb) = 32 + i div 8" "i < 208 \<Longrightarrow> dinode_off (of_nat i) = 64 * (i mod 8)"
  by (simp_all add: IBLOCK_def mkfs_sb_eq unat_word_ariths unat_div unat_mod unat_of_nat dinode_off_def)

text \<open>Inode number \<open>i\<close> in the image.\<close>

definition dinode_at :: "(nat \<Rightarrow> block) \<Rightarrow> nat \<Rightarrow> inode" where
  "dinode_at m i = get_dinode (m (32 + i div 8)) (64 * (i mod 8)) din0"

definition set_dinode :: "nat \<Rightarrow> inode \<Rightarrow> img_st \<Rightarrow> img_st" where
  "set_dinode i n s = set_sect (32 + i div 8) (put_dinode n (64 * (i mod 8)) (img s (32 + i div 8))) s"

lemma table_block: "i < 208 \<Longrightarrow> 32 + i div 8 < (58 :: nat)"
  by linarith

lemma rinode_ok: "img_ok s \<Longrightarrow> i < 208 \<Longrightarrow> rinode (of_nat i) s = Ok (dinode_at (img s) i)"
  using table_block [of i] by (simp add: rinode_def iblock_at rsect_ok dinode_at_def img_ok_def [of s, THEN iffD1])

lemma winode_ok: "img_ok s \<Longrightarrow> i < 208 \<Longrightarrow> winode (of_nat i) n s = Ok (set_dinode i n s)"
  using table_block [of i] by (simp add: winode_def iblock_at rsect_ok wsect_ok set_dinode_def Let_def img_ok_def [of s, THEN iffD1])

lemma dinode_at_disk: "copy_inode (dinode_at m i) din0 = dinode_at m i"
  by (simp add: copy_inode_def dinode_at_def get_dinode_def)

lemma set_dinode_at:
  assumes "length (addrs n) = 13"
  shows "dinode_at (img (set_dinode i n s)) i = copy_inode n din0"
    and "j \<noteq> i \<Longrightarrow> dinode_at (img (set_dinode i n s)) j = dinode_at (img s) j"
    and "58 \<le> b \<Longrightarrow> i < 208 \<Longrightarrow> img (set_dinode i n s) b = img s b"
proof -
  show "dinode_at (img (set_dinode i n s)) i = copy_inode n din0"
    using get_put_dinode(1) [OF assms] by (simp add: dinode_at_def set_dinode_def)
  show "dinode_at (img (set_dinode i n s)) j = dinode_at (img s) j" if "j \<noteq> i"
  proof (cases "j div 8 = i div 8")
    case True
    then have "j mod 8 \<noteq> i mod 8" using that by (metis div_mult_mod_eq)
    then have "64 * (j mod 8) + 64 \<le> 64 * (i mod 8) \<or> 64 * (i mod 8) + 64 \<le> 64 * (j mod 8)" by linarith
    then show ?thesis using get_put_dinode(2) [OF assms] True by (simp add: dinode_at_def set_dinode_def)
  qed (simp add: dinode_at_def set_dinode_def)
  show "58 \<le> b \<Longrightarrow> i < 208 \<Longrightarrow> img (set_dinode i n s) b = img s b" using table_block [of i] by (auto simp: set_dinode_def)
qed

section \<open>The layout of the image\<close>

text \<open>
  The block in slot \<open>k\<close> of an inode: block \<open>k\<close> of the file below \<open>MAXFILE\<close>, and slot \<open>MAXFILE\<close> is the
  indirect block. A file of \<open>n\<close> blocks uses the first \<open>n\<close> slots, and the indirect block if it
  has more blocks than direct addresses.
\<close>

definition slot :: "(nat \<Rightarrow> block) \<Rightarrow> inode \<Rightarrow> nat \<Rightarrow> nat" where
  "slot m n k =
     (if k < NDIRECT then unat (addrs n ! k)
      else if k = MAXFILE then unat (addrs n ! NDIRECT)
      else unat (get32 (m (unat (addrs n ! NDIRECT))) (4 * (k - NDIRECT))))"

definition in_use :: "nat \<Rightarrow> nat set" where
  "in_use n = {..<n} \<union> (if NDIRECT < n then {MAXFILE} else {})"

definition slots :: "(nat \<Rightarrow> nat) \<Rightarrow> nat \<Rightarrow> (nat \<times> nat) set" where
  "slots N F = {(i, k). 1 \<le> i \<and> i < F \<and> k \<in> in_use (N i)}"

definition unmapped :: "(nat \<Rightarrow> block) \<Rightarrow> inode \<Rightarrow> nat \<Rightarrow> bool" where
  "unmapped m n k \<longleftrightarrow> (\<forall>j < NDIRECT. k \<le> j \<longrightarrow> addrs n ! j = 0) \<and> (k \<le> NDIRECT \<longrightarrow> addrs n ! NDIRECT = 0)
     \<and> (NDIRECT < k \<longrightarrow> (\<forall>j < MAXFILE. k \<le> j \<longrightarrow> get32 (m (unat (addrs n ! NDIRECT))) (4 * (j - NDIRECT)) = 0))"

text \<open>
  The blocks from 59 up to the first free block \<open>B\<close> are those of the files, each in exactly one
  slot; the blocks after them have never been written.
\<close>

definition laid_out :: "(nat \<Rightarrow> block) \<Rightarrow> (nat \<Rightarrow> inode) \<Rightarrow> (nat \<Rightarrow> nat) \<Rightarrow> nat \<Rightarrow> nat \<Rightarrow> bool" where
  "laid_out m I N F B \<longleftrightarrow>
     (\<forall>i. 1 \<le> i \<and> i < F \<longrightarrow> length (addrs (I i)) = 13 \<and> N i \<le> MAXFILE \<and> unmapped m (I i) (N i))
     \<and> bij_betw (\<lambda>(i, k). slot m (I i) k) (slots N F) {59..<B} \<and> 59 \<le> B \<and> B \<le> 1000
     \<and> (\<forall>b. B \<le> b \<and> b < 1000 \<longrightarrow> m b = (\<lambda>_. 0))"

text \<open>File \<open>i\<close> holds the bytes \<open>C i\<close>, and zeros up to the end of its last block.\<close>

definition holds_bytes :: "(nat \<Rightarrow> block) \<Rightarrow> inode \<Rightarrow> nat \<Rightarrow> u8 list \<Rightarrow> bool" where
  "holds_bytes m n k c \<longleftrightarrow> length c \<le> BSIZE * k
     \<and> (\<forall>j < BSIZE * k. m (slot m n (j div BSIZE)) (j mod BSIZE) = (if j < length c then c ! j else 0))"

lemma laid_outD:
  assumes "laid_out m I N F B" "1 \<le> i" "i < F"
  shows "length (addrs (I i)) = 13" "N i \<le> MAXFILE" "unmapped m (I i) (N i)" "59 \<le> B" "B \<le> 1000"
  using assms by (auto simp: laid_out_def)

lemma slot_range: "laid_out m I N F B \<Longrightarrow> 1 \<le> i \<Longrightarrow> i < F \<Longrightarrow> k \<in> in_use (N i) \<Longrightarrow> 59 \<le> slot m (I i) k \<and> slot m (I i) k < B"
  by (force simp: laid_out_def slots_def bij_betw_def)

lemma block_inj:
  assumes "laid_out m I N F B" "1 \<le> i" "i < F" "k \<in> in_use (N i)" "1 \<le> j" "j < F" "l \<in> in_use (N j)" "slot m (I i) k = slot m (I j) l"
  shows "i = j \<and> k = l"
proof -
  have "inj_on (\<lambda>(i, k). slot m (I i) k) (slots N F)" using assms(1) by (simp add: laid_out_def bij_betw_def)
  then show ?thesis using inj_onD [of _ _ "(i, k)" "(j, l)"] assms by (fastforce simp: slots_def)
qed

lemma in_use_data: "k < n \<Longrightarrow> k \<in> in_use n" "NDIRECT < n \<Longrightarrow> MAXFILE \<in> in_use n"
  by (auto simp: in_use_def)

section \<open>Giving a file one more block\<close>

definition files_ok :: "img_st \<Rightarrow> (nat \<Rightarrow> inode) \<Rightarrow> (nat \<Rightarrow> nat) \<Rightarrow> (nat \<Rightarrow> u8 list) \<Rightarrow> nat \<Rightarrow> bool" where
  "files_ok s I N C F \<longleftrightarrow> img_ok s \<and> laid_out (img s) I N F (unat (freeblock s))
     \<and> (\<forall>j. 1 \<le> j \<and> j < F \<longrightarrow> holds_bytes (img s) (I j) (N j) (C j))"

text \<open>The blocks that a file of \<open>n\<close> data blocks takes.\<close>

definition need :: "nat \<Rightarrow> nat" where
  "need n = n + (if NDIRECT < n then 1 else 0)"

lemma need_mono: "m \<le> n \<Longrightarrow> need m \<le> need n"
  by (simp add: need_def)

lemma bij_add:
  assumes "bij_betw f S {59..<B}" "59 \<le> B" "\<And>a. a \<in> S \<Longrightarrow> g a = f a" "a \<notin> S" "g a = B"
  shows "bij_betw g (insert a S) {59..<Suc B}"
proof -
  have "bij_betw g S {59..<B}" using assms(1,3) by (simp cong: bij_betw_cong)
  moreover have "{59..<Suc B} = {59..<B} \<union> {g a}" using assms(2,5) by auto
  ultimately show ?thesis using notIn_Un_bij_betw [of a S g "{59..<B}"] assms(4,5) by simp
qed

lemma slot_same:
  "addrs n' ! k = addrs n ! k \<or> \<not> k < NDIRECT \<Longrightarrow> addrs n' ! NDIRECT = addrs n ! NDIRECT \<or> k < NDIRECT \<Longrightarrow>
   k < NDIRECT \<or> k = MAXFILE \<or> m' (unat (addrs n ! NDIRECT)) = m (unat (addrs n ! NDIRECT)) \<Longrightarrow> slot m' n' k = slot m n k"
  by (auto simp: slot_def)

lemma slots_Suc:
  "1 \<le> i \<Longrightarrow> i < F \<Longrightarrow> N i \<noteq> NDIRECT \<Longrightarrow> slots (N(i := Suc (N i))) F = insert (i, N i) (slots N F)"
  "1 \<le> i \<Longrightarrow> i < F \<Longrightarrow> N i = NDIRECT \<Longrightarrow> slots (N(i := Suc (N i))) F = insert (i, NDIRECT) (insert (i, MAXFILE) (slots N F))"
  by (auto simp: slots_def in_use_def split: if_splits)

lemma holds_frame:
  assumes "holds_bytes m n K c" "\<And>k. k < K \<Longrightarrow> slot m' n' k = slot m n k \<and> m' (slot m n k) = m (slot m n k)"
  shows "holds_bytes m' n' K c"
  using assms unfolding holds_bytes_def by (auto simp: div_less_iff_less_mult mult.commute)

lemma holds_more:
  assumes "holds_bytes m n K c" "m (slot m n K) = (\<lambda>_. 0)"
  shows "holds_bytes m n (Suc K) c"
proof -
  have "m (slot m n (j div BSIZE)) (j mod BSIZE) = (if j < length c then c ! j else 0)" if "j < BSIZE * Suc K" for j
  proof (cases "j < BSIZE * K")
    case False
    then have "j div BSIZE = K" using that by (intro div_nat_eqI) simp_all
    then show ?thesis using assms False by (simp add: holds_bytes_def)
  qed (use assms(1) in \<open>simp add: holds_bytes_def\<close>)
  then show ?thesis using assms(1) by (simp add: holds_bytes_def)
qed

lemma unmapped_zero: "unmapped m n k \<Longrightarrow> k < NDIRECT \<Longrightarrow> addrs n ! k = 0"
  "unmapped m n k \<Longrightarrow> k \<le> NDIRECT \<Longrightarrow> addrs n ! NDIRECT = 0"
  "unmapped m n k \<Longrightarrow> NDIRECT < k \<Longrightarrow> k < MAXFILE \<Longrightarrow> get32 (m (unat (addrs n ! NDIRECT))) (4 * (k - NDIRECT)) = 0"
  by (auto simp: unmapped_def)

text \<open>What asking for block \<open>k\<close> of file \<open>i\<close> has to establish: the file has it, and nothing else changed.\<close>

definition block_added :: "nat \<Rightarrow> nat \<Rightarrow> (nat \<Rightarrow> inode) \<Rightarrow> (nat \<Rightarrow> nat) \<Rightarrow> (nat \<Rightarrow> u8 list) \<Rightarrow> nat \<Rightarrow> img_st \<Rightarrow> u32 \<Rightarrow> inode \<Rightarrow> img_st \<Rightarrow> bool" where
  "block_added i k I N C F s x n t \<longleftrightarrow> (\<exists>a. n = (I i)\<lparr>addrs := a\<rparr>) \<and> freeinode t = freeinode s
     \<and> files_ok t (I(i := n)) (N(i := max (N i) (Suc k))) C F \<and> unat x = slot (img t) n k
     \<and> unat (freeblock t) + need (N i) = unat (freeblock s) + need (max (N i) (Suc k))
     \<and> (\<forall>b < 59. img t b = img s b)"

lemma block_old:
  assumes f: "files_ok s I N C F" and i: "1 \<le> i" "i < F" and k: "k < N i"
  shows "\<exists>x n t. iappend_block k (I i) s = Ok (x, n, t) \<and> block_added i k I N C F s x n t"
proof -
  have l: "laid_out (img s) I N F (unat (freeblock s))" and io: "img_ok s" using f by (simp_all add: files_ok_def)
  note L = laid_outD [OF l i]
  have r: "59 \<le> slot (img s) (I i) k" "slot (img s) (I i) k < unat (freeblock s)" using slot_range [OF l i in_use_data(1) [OF k]] by simp_all
  have "\<exists>x. iappend_block k (I i) s = Ok (x, I i, s) \<and> unat x = slot (img s) (I i) k"
  proof (cases "k < NDIRECT")
    case True
    then have "addrs (I i) ! k \<noteq> 0" using r(1) by (auto simp: slot_def)
    then show ?thesis using True by (simp add: iappend_block_def slot_def)
  next
    case False
    let ?b = "addrs (I i) ! NDIRECT"
    have u: "59 \<le> unat ?b" "unat ?b < unat (freeblock s)"
      using slot_range [OF l i in_use_data(2)] False k by (simp_all add: slot_def)
    then have b: "?b \<noteq> 0" "rsect ?b s = Ok (img s (unat ?b))" using rsect_ok [OF io, of ?b] L(5) by auto
    have "k \<noteq> MAXFILE" using k L(2) by simp
    then have e: "slot (img s) (I i) k = unat (get32 (img s (unat ?b)) (4 * (k - NDIRECT)))" using False by (simp add: slot_def)
    then have "get32 (img s (unat ?b)) (4 * (k - NDIRECT)) \<noteq> 0" using r(1) by auto
    then show ?thesis using False b e by (simp add: iappend_block_def Let_def)
  qed
  then obtain x where x: "iappend_block k (I i) s = Ok (x, I i, s)" "unat x = slot (img s) (I i) k" by blast
  have "N(i := max (N i) (Suc k)) = N" "max (N i) (Suc k) = N i" using k by (auto simp: max_def)
  moreover have "\<exists>a. I i = (I i)\<lparr>addrs := a\<rparr>" by (rule exI [of _ "addrs (I i)"]) simp
  ultimately have "block_added i k I N C F s x (I i) s" using f x(2) unfolding block_added_def by simp
  then show ?thesis using x(1) by blast
qed

lemma free_unat: "B < 1000 \<Longrightarrow> unat (of_nat B :: u32) = B" "unat b < 1000 \<Longrightarrow> unat (b + 1 :: u32) = Suc (unat b)"
  by (simp_all add: unat_of_nat unat_word_ariths)

lemma block_direct:
  assumes f: "files_ok s I N C F" and i: "1 \<le> i" "i < F" and k: "k = N i" "k < NDIRECT" and B: "unat (freeblock s) < 1000"
  shows "\<exists>x n t. iappend_block k (I i) s = Ok (x, n, t) \<and> block_added i k I N C F s x n t"
proof -
  let ?B = "freeblock s" let ?n = "(I i)\<lparr>addrs := (addrs (I i))[k := ?B]\<rparr>" let ?t = "s\<lparr>freeblock := ?B + 1\<rparr>" and ?N = "N(i := Suc k)" and ?m = "img s"
  have l: "laid_out ?m I N F (unat ?B)" and io: "img_ok s" and h: "\<And>j. 1 \<le> j \<Longrightarrow> j < F \<Longrightarrow> holds_bytes ?m (I j) (N j) (C j)"
    using f by (simp_all add: files_ok_def)
  note L = laid_outD [OF l i]
  have ad: "addrs ?n ! j = (if j = k then ?B else addrs (I i) ! j)" if "j < 13" for j using L(1) that k(2) by simp
  have same: "slot ?m ?n j = slot ?m (I i) j" if "j \<noteq> k" for j using ad [of j] ad [of 12] that k(2) by (intro slot_same) auto
  have new: "slot ?m ?n k = unat ?B" using ad [of k] k(2) by (simp add: slot_def)
  have run: "iappend_block k (I i) s = Ok (?B, ?n, ?t)" using k unmapped_zero(1) [OF L(3)] L(1) by (simp add: iappend_block_def)
  have sl: "slots ?N F = insert (i, k) (slots N F)" using slots_Suc(1) [OF i, of N] k by simp
  have bij: "bij_betw (\<lambda>(i, k). slot ?m (I i) k) (slots N F) {59..<unat ?B}" using l by (simp add: laid_out_def)
  have out: "(i, k) \<notin> slots N F" using k by (auto simp: slots_def in_use_def split: if_splits)
  have "bij_betw (\<lambda>(j, l). slot ?m ((I(i := ?n)) j) l) (slots ?N F) {59..<Suc (unat ?B)}" unfolding sl
  proof (rule bij_add [OF bij L(4) _ out])
    fix a assume a: "a \<in> slots N F"
    then have "fst a = i \<Longrightarrow> snd a \<noteq> k" using out by (cases a) auto
    then show "(\<lambda>(j, l). slot ?m ((I(i := ?n)) j) l) a = (\<lambda>(i, k). slot ?m (I i) k) a" using same by (auto split: prod.splits)
  qed (simp add: new)
  moreover have "unmapped ?m ?n (Suc k)" using L(3) ad k unfolding unmapped_def by auto
  ultimately have "laid_out ?m (I(i := ?n)) ?N F (unat (?B + 1))"
    using l L(1) k B free_unat(2) [OF B] by (auto simp: laid_out_def)
  moreover have "holds_bytes ?m ((I(i := ?n)) j) (?N j) (C j)" if j: "1 \<le> j" "j < F" for j
  proof (cases "j = i")
    case True
    have "holds_bytes ?m ?n k (C i)" using holds_frame [OF h [OF i]] same k(1) by (metis nat_neq_iff)
    moreover have "?m (slot ?m ?n k) = (\<lambda>_. 0)" using l B unfolding new by (simp add: laid_out_def)
    ultimately show ?thesis using holds_more True by simp
  qed (use h j in simp)
  ultimately have "block_added i k I N C F s ?B ?n ?t"
    using new io k free_unat(2) [OF B] unfolding block_added_def files_ok_def by (auto simp: need_def)
  then show ?thesis using run by blast
qed

text \<open>
  Entering a block into the indirect block \<open>b\<close> of file \<open>i\<close>, which is either the one the file has,
  or a block taken for it just now.
\<close>

lemma entry_old:
  assumes l: "laid_out m I N F B" and i: "1 \<le> i" "i < F" and k: "k = N i" "NDIRECT \<le> k" "k < MAXFILE"
    and b: "unat (addrs n ! NDIRECT) = b" "b = B \<and> N i = NDIRECT \<or> b = slot m (I i) MAXFILE \<and> NDIRECT < N i"
    and n: "\<forall>j < NDIRECT. addrs n ! j = addrs (I i) ! j" and m': "m' = m(b := put32 (4 * (k - NDIRECT)) E (m b))"
    and j: "1 \<le> j" "j < F"
  shows "p \<in> in_use (N j) \<Longrightarrow> slot m' ((I(i := n)) j) p = slot m (I j) p"
    and "p < N j \<Longrightarrow> m' (slot m (I j) p) = m (slot m (I j) p)"
    and "j \<noteq> i \<Longrightarrow> NDIRECT < N j \<Longrightarrow> m' (unat (addrs (I j) ! NDIRECT)) = m (unat (addrs (I j) ! NDIRECT))"
proof -
  note L = laid_outD [OF l]
  have other: "slot m (I j) q \<noteq> b" if q: "q \<in> in_use (N j)" "j \<noteq> i \<or> q \<noteq> MAXFILE" for q
    using b(2) slot_range [OF l j q(1)] block_inj [OF l j q(1) i, of MAXFILE] in_use_data(2) [of "N i"] q(2) by auto
  show d: "m' (slot m (I j) p) = m (slot m (I j) p)" if "p < N j"
    using other [OF in_use_data(1) [OF that]] that L(2) [OF j] by (auto simp: m')
  show ind: "m' (unat (addrs (I j) ! NDIRECT)) = m (unat (addrs (I j) ! NDIRECT))" if "j \<noteq> i" "NDIRECT < N j"
    using other [OF in_use_data(2) [OF that(2)]] that(1) by (simp add: m' slot_def)
  show "slot m' ((I(i := n)) j) p = slot m (I j) p" if p: "p \<in> in_use (N j)"
  proof (cases "p < NDIRECT")
    case True
    then show ?thesis using n by (simp add: slot_def)
  next
    case False
    then have big: "NDIRECT < N j" using p by (auto simp: in_use_def split: if_splits)
    show ?thesis
    proof (cases "j = i")
      case True
      have e: "addrs n ! NDIRECT = addrs (I i) ! NDIRECT" using b big True by (auto simp: slot_def word_unat_eq_iff)
      have "get32 (put32 (4 * (k - NDIRECT)) E (m b)) (4 * (p - NDIRECT)) = get32 (m b) (4 * (p - NDIRECT))" if "p < k"
        using that False k by (intro get32_put32_far) linarith
      moreover have "p = MAXFILE \<or> p < k" using p k(1) True by (auto simp: in_use_def split: if_splits)
      ultimately show ?thesis using True False e b(1) by (auto simp: slot_def m')
    next
      case other: False
      then show ?thesis using ind [OF other big] False by (simp add: slot_def)
    qed
  qed
qed

lemma entry_laid_out:
  assumes l: "laid_out m I N F B" and h: "\<And>j. 1 \<le> j \<Longrightarrow> j < F \<Longrightarrow> holds_bytes m (I j) (N j) (C j)"
    and i: "1 \<le> i" "i < F" and k: "k = N i" "NDIRECT \<le> k" "k < MAXFILE"
    and b: "unat (addrs n ! NDIRECT) = b" "b = B \<and> N i = NDIRECT \<or> b = slot m (I i) MAXFILE \<and> NDIRECT < N i"
    and n: "length (addrs n) = 13" "\<forall>j < NDIRECT. addrs n ! j = addrs (I i) ! j" and m': "m' = m(b := put32 (4 * (k - NDIRECT)) E (m b))"
    and E: "unat E = (if N i = NDIRECT then Suc B else B)" "unat E < 1000"
    and z: "\<And>j. k < j \<Longrightarrow> j < MAXFILE \<Longrightarrow> get32 (m b) (4 * (j - NDIRECT)) = 0"
  shows "laid_out m' (I(i := n)) (N(i := Suc k)) F (Suc (unat E))" "1 \<le> j \<Longrightarrow> j < F \<Longrightarrow> holds_bytes m' ((I(i := n)) j) ((N(i := Suc k)) j) (C j)"
    "slot m' n k = unat E"
proof -
  note L = laid_outD [OF l] and O = entry_old [OF l i k b n(2) m']
  have B: "59 \<le> B" "b \<noteq> unat E" "b < Suc (unat E)" "b < 1000"
    using L(4) [OF i] b(2) E slot_range [OF l i in_use_data(2)] by (auto split: if_splits)
  show new: "slot m' n k = unat E" using k b(1) by (simp add: slot_def m' get32_put32_same)
  have zero: "m' x = (\<lambda>_. 0)" if "unat E \<le> x" "x < 1000" for x
    using l that B E(1) unfolding laid_out_def m' by (auto split: if_splits)
  let ?g = "\<lambda>(j, p). slot m' ((I(i := n)) j) p"
  have bij: "bij_betw (\<lambda>(i, k). slot m (I i) k) (slots N F) {59..<B}" using l by (simp add: laid_out_def)
  have old: "?g a = (\<lambda>(i, k). slot m (I i) k) a" if "a \<in> slots N F" for a using that O(1) by (auto simp: slots_def)
  have "bij_betw ?g (slots (N(i := Suc k)) F) {59..<Suc (unat E)}"
  proof (cases "N i = NDIRECT")
    case True
    have "?g (i, MAXFILE) = B" using b True by (auto simp: slot_def)
    then have one: "bij_betw ?g (insert (i, MAXFILE) (slots N F)) {59..<Suc B}"
      using True by (intro bij_add [OF bij B(1) old]) (auto simp: slots_def in_use_def)
    have "bij_betw ?g (insert (i, NDIRECT) (insert (i, MAXFILE) (slots N F))) {59..<Suc (Suc B)}"
      using True new E(1) k B(1) by (intro bij_add [OF one]) (auto simp: slots_def in_use_def)
    then show ?thesis using slots_Suc(2) [OF i, of N] E(1) True k(1) by simp
  next
    case False
    then have "bij_betw ?g (insert (i, k) (slots N F)) {59..<Suc B}"
      using new E(1) k by (intro bij_add [OF bij B(1) old]) (auto simp: slots_def in_use_def split: if_splits)
    then show ?thesis using slots_Suc(1) [OF i, of N] E(1) False k(1) by simp
  qed
  moreover have "get32 (put32 (4 * (k - NDIRECT)) E (m b)) (4 * (j - NDIRECT)) = 0" if "Suc k \<le> j" "j < MAXFILE" for j
    using z [of j] that k(2) by (subst get32_put32_far) auto
  then have "unmapped m' n (Suc k)" using k b(1) by (auto simp: unmapped_def m')
  moreover have "unmapped m' (I j) (N j)" if "1 \<le> j" "j < F" "j \<noteq> i" for j
    using L(3) [OF that(1,2)] O(3) [OF that] unfolding unmapped_def by auto
  ultimately show "laid_out m' (I(i := n)) (N(i := Suc k)) F (Suc (unat E))"
    using l n(1) k E B(1) zero by (auto simp: laid_out_def split: if_splits)
  show "holds_bytes m' ((I(i := n)) j) ((N(i := Suc k)) j) (C j)" if j: "1 \<le> j" "j < F"
  proof -
    have "holds_bytes m' ((I(i := n)) j) (N j) (C j)" using holds_frame [OF h [OF j]] O(1,2) [OF j] in_use_data(1) by metis
    moreover have "m' (slot m' n k) = (\<lambda>_. 0)" using zero E(2) by (simp add: new)
    ultimately show ?thesis using holds_more [of m' n k "C i"] k(1) by (cases "j = i") simp_all
  qed
qed

lemma block_indirect:
  assumes f: "files_ok s I N C F" and i: "1 \<le> i" "i < F" and k: "k = N i" "NDIRECT \<le> k" "k < MAXFILE"
    and B: "unat (freeblock s) + (if k = NDIRECT then 1 else 0) < 1000"
  shows "\<exists>x n t. iappend_block k (I i) s = Ok (x, n, t) \<and> block_added i k I N C F s x n t"
proof -
  let ?B = "freeblock s" and ?m = "img s"
  define n where "n = (if k = NDIRECT then (I i)\<lparr>addrs := (addrs (I i))[NDIRECT := ?B]\<rparr> else I i)"
  define E where "E = (if k = NDIRECT then ?B + 1 else ?B)"
  define b where "b = unat (addrs n ! NDIRECT)"
  define t where "t = (set_sect b (put32 (4 * (k - NDIRECT)) E (?m b)) s)\<lparr>freeblock := E + 1\<rparr>"
  have l: "laid_out ?m I N F (unat ?B)" and io: "img_ok s" and h: "\<And>j. 1 \<le> j \<Longrightarrow> j < F \<Longrightarrow> holds_bytes ?m (I j) (N j) (C j)"
    using f by (simp_all add: files_ok_def)
  note L = laid_outD [OF l i]
  have n: "length (addrs n) = 13" "\<forall>j < NDIRECT. addrs n ! j = addrs (I i) ! j" "\<exists>a. n = (I i)\<lparr>addrs := a\<rparr>"
    using L(1) by (auto simp: n_def) (metis inode.surjective inode.update_convs(10))
  have b: "b = unat ?B \<and> N i = NDIRECT \<or> b = slot ?m (I i) MAXFILE \<and> NDIRECT < N i" using k L(1) by (auto simp: b_def n_def slot_def)
  have E: "unat E = (if N i = NDIRECT then Suc (unat ?B) else unat ?B)" "unat E < 1000" using B k(1) free_unat(2) [of ?B] by (auto simp: E_def)
  have z: "get32 (?m b) (4 * (j - NDIRECT)) = 0" if "k \<le> j" "j < MAXFILE" for j
  proof (cases "k = NDIRECT")
    case True
    then have "?m b = (\<lambda>_. 0)" using l b B k(1) by (auto simp: laid_out_def)
    then show ?thesis by (simp add: get32_def)
  next
    case False
    then show ?thesis using L(3) k that by (simp add: unmapped_def b_def n_def)
  qed
  have nz: "addrs n ! NDIRECT \<noteq> 0" "b < 1000" using b L(4) B slot_range [OF l i in_use_data(2)] by (auto simp: b_def)
  have run: "iappend_block k (I i) s = Ok (E, n, t)"
  proof (cases "k = NDIRECT")
    case True
    then have "n = (I i)\<lparr>addrs := (addrs (I i))[NDIRECT := ?B]\<rparr>" "E = ?B + 1" "addrs n ! NDIRECT = ?B" "b = unat ?B"
      using L(1) by (simp_all add: n_def E_def b_def)
    moreover have "addrs (I i) ! NDIRECT = 0" using unmapped_zero(2) [OF L(3)] True k(1) by simp
    ultimately show ?thesis
      using True z [of k] nz io L(1) by (simp add: iappend_block_def Let_def rsect_ok wsect_ok get32_put32_same t_def)
  next
    case False
    then have e: "n = I i" "E = ?B" by (simp_all add: n_def E_def)
    then show ?thesis
      using False k(2,3) z [of k] nz io by (simp add: iappend_block_def Let_def rsect_ok wsect_ok get32_put32_same t_def b_def)
  qed
  note X = entry_laid_out [OF l h i k b_def [symmetric] b n(1,2) refl E z]
  have "files_ok t (I(i := n)) (N(i := Suc k)) C F"
    using X(1,2) io E(2) free_unat(2) [OF E(2)] by (simp add: files_ok_def t_def)
  moreover have "img t c = ?m c" if "c < 59" for c using b L(4) slot_range [OF l i in_use_data(2)] that by (auto simp: t_def)
  ultimately have "block_added i k I N C F s E n t"
    using X(3) n(3) k free_unat(2) [OF E(2)] E(1) unfolding block_added_def by (auto simp: need_def t_def max_def split: if_splits)
  then show ?thesis using run by blast
qed

lemma block_ok:
  assumes "files_ok s I N C F" "1 \<le> i" "i < F" "k \<le> N i" "k < MAXFILE" "unat (freeblock s) + need (max (N i) (Suc k)) \<le> 1000 + need (N i)"
  shows "\<exists>x n t. iappend_block k (I i) s = Ok (x, n, t) \<and> block_added i k I N C F s x n t"
proof -
  consider "k < N i" | "k = N i" "k < NDIRECT" | "k = N i" "NDIRECT \<le> k" using assms(4) by linarith
  then show ?thesis
    using block_old [OF assms(1-3)] block_direct [OF assms(1-3)] block_indirect [OF assms(1-3)] assms(5,6)
    by cases (auto simp: need_def max_def split: if_splits)
qed

section \<open>Appending\<close>

text \<open>Writing into a data block of a file moves no block and changes no other one.\<close>

lemma data_frame:
  assumes l: "laid_out m I N F B" and i: "1 \<le> i" "i < F" "k < N i" and m': "m' = m(slot m (I i) k := d)" and j: "1 \<le> j" "j < F"
  shows "p \<in> in_use (N j) \<Longrightarrow> slot m' (I j) p = slot m (I j) p"
    and "p < N j \<Longrightarrow> (j, p) \<noteq> (i, k) \<Longrightarrow> m' (slot m (I j) p) = m (slot m (I j) p)"
    and "NDIRECT < N j \<Longrightarrow> m' (unat (addrs (I j) ! NDIRECT)) = m (unat (addrs (I j) ! NDIRECT))"
proof -
  have other: "slot m (I j) q \<noteq> slot m (I i) k" if "q \<in> in_use (N j)" "(j, q) \<noteq> (i, k)" for q
    using block_inj [OF l j that(1) i(1,2) in_use_data(1) [OF i(3)]] that(2) by auto
  show "m' (slot m (I j) p) = m (slot m (I j) p)" if "p < N j" "(j, p) \<noteq> (i, k)"
    using other [OF in_use_data(1) [OF that(1)] that(2)] by (simp add: m')
  have "k \<noteq> MAXFILE" using i(3) laid_outD(2) [OF l i(1,2)] by simp
  then show ind: "m' (unat (addrs (I j) ! NDIRECT)) = m (unat (addrs (I j) ! NDIRECT))" if "NDIRECT < N j"
    using other [OF in_use_data(2) [OF that]] by (simp add: m' slot_def)
  show "slot m' (I j) p = slot m (I j) p" if "p \<in> in_use (N j)"
    using ind that by (intro slot_same) (auto simp: in_use_def split: if_splits)
qed

lemma data_laid_out:
  assumes l: "laid_out m I N F B" and i: "1 \<le> i" "i < F" "k < N i" and m': "m' = m(slot m (I i) k := d)"
  shows "laid_out m' I N F B"
proof -
  note D = data_frame [OF l i m']
  have "bij_betw (\<lambda>(i, k). slot m' (I i) k) (slots N F) {59..<B} = bij_betw (\<lambda>(i, k). slot m (I i) k) (slots N F) {59..<B}"
    using D(1) by (intro bij_betw_cong) (auto simp: slots_def)
  moreover have "unmapped m' (I j) (N j)" if "1 \<le> j" "j < F" for j
    using laid_outD(3) [OF l that] D(3) [OF that] by (auto simp: unmapped_def)
  moreover have "slot m (I i) k < B" using slot_range [OF l i(1,2) in_use_data(1) [OF i(3)]] by simp
  ultimately show ?thesis using l by (auto simp: laid_out_def m')
qed

lemma append_bytes:
  assumes h: "holds_bytes m n K c" and k: "k = length c div BSIZE" "K = Suc k" and q: "length q + length c mod BSIZE \<le> BSIZE"
    and s: "\<And>p. p < K \<Longrightarrow> slot m' n p = slot m n p" "\<And>p. p < k \<Longrightarrow> m' (slot m n p) = m (slot m n p)"
    and d: "m' (slot m n k) = (\<lambda>x. if length c mod BSIZE \<le> x \<and> x < length c mod BSIZE + length q then q ! (x - length c mod BSIZE) else m (slot m n k) x)"
  shows "holds_bytes m' n K (c @ q)"
proof -
  have c: "length c = BSIZE * k + length c mod BSIZE" using k(1) by simp
  have "m' (slot m' n (j div BSIZE)) (j mod BSIZE) = (if j < length (c @ q) then (c @ q) ! j else 0)" if j: "j < BSIZE * K" for j
  proof (cases "j < BSIZE * k")
    case True
    then have "j div BSIZE < k" by (simp add: div_less_iff_less_mult mult.commute)
    moreover have "j < length c" using True c by linarith
    ultimately show ?thesis using h j k(2) s by (simp add: holds_bytes_def nth_append)
  next
    case False
    then have e: "j div BSIZE = k" "j = BSIZE * k + j mod BSIZE" using j k(2) by (intro div_nat_eqI; simp)+ (metis False div_mult_mod_eq div_nat_eqI j k(2) mult.commute not_less)
    have m: "m (slot m n k) (j mod BSIZE) = (if j < length c then c ! j else 0)" using h j e(1) k(2) unfolding holds_bytes_def by metis
    have "j < length c \<longleftrightarrow> j mod BSIZE < length c mod BSIZE" "j - length c = j mod BSIZE - length c mod BSIZE"
      "j < length c + length q \<longleftrightarrow> j mod BSIZE < length c mod BSIZE + length q"
      using c e(2) by linarith+
    then show ?thesis using d m e(1) s(1) [of k] k(2) by (auto simp: nth_append)
  qed
  moreover have "length (c @ q) \<le> BSIZE * K" using c q k(2) by simp
  ultimately show ?thesis by (simp add: holds_bytes_def)
qed

text \<open>The number of blocks of \<open>l\<close> bytes.\<close>

definition nblk :: "nat \<Rightarrow> nat" where
  "nblk l = (l + (BSIZE - 1)) div BSIZE"

definition sizes :: "(nat \<Rightarrow> u8 list) \<Rightarrow> nat \<Rightarrow> nat" where
  "sizes C = (\<lambda>j. nblk (length (C j)))"

lemma sizes_upd: "(sizes C)(i := nblk (length c)) = sizes (C(i := c))"
  by (auto simp: sizes_def)

lemma nblk_round:
  assumes "0 < n" "off mod BSIZE + n \<le> BSIZE"
  shows "max (nblk off) (Suc (off div BSIZE)) = nblk (off + n)" "nblk (off + n) = Suc (off div BSIZE)" "off div BSIZE \<le> nblk off"
proof -
  define k r where "k = off div BSIZE" "r = off mod BSIZE"
  then have "off = BSIZE * k + r" by simp
  then have "nblk (off + n) = Suc k" using assms unfolding nblk_def k_r_def(2) [symmetric] by (intro div_nat_eqI) simp_all
  then show "nblk (off + n) = Suc (off div BSIZE)" by (simp add: k_r_def)
  show "off div BSIZE \<le> nblk off" unfolding nblk_def by linarith
  have "nblk off \<le> Suc (off div BSIZE)" unfolding nblk_def by linarith
  then show "max (nblk off) (Suc (off div BSIZE)) = nblk (off + n)" using \<open>nblk (off + n) = Suc (off div BSIZE)\<close> by simp
qed

lemma nblk_mono: "a \<le> b \<Longrightarrow> nblk a \<le> nblk b"
  by (simp add: nblk_def div_le_mono)

lemma nblk_le: "l \<le> MAXFILE * BSIZE \<Longrightarrow> nblk l \<le> MAXFILE"
  by (simp add: nblk_def)

text \<open>One round of the loop.\<close>

lemma append_round:
  assumes f: "files_ok s I N C F" and i: "1 \<le> i" "i < F" and k: "k = length (C i) div BSIZE" "N i = Suc k"
    and x: "unat x = slot (img s) (I i) k" and q: "length q + length (C i) mod BSIZE \<le> BSIZE"
  defines "o' \<equiv> length (C i) mod BSIZE"
  shows "\<exists>buf t. rsect x s = Ok buf \<and> wsect x (\<lambda>j. if o' \<le> j \<and> j < o' + length q then q ! (j - o') else buf j) s = Ok t
    \<and> files_ok t I N (C(i := C i @ q)) F \<and> freeinode t = freeinode s \<and> freeblock t = freeblock s \<and> (\<forall>b < 59. img t b = img s b)"
proof -
  let ?m = "img s" and ?b = "slot (img s) (I i) k"
  have l: "laid_out ?m I N F (unat (freeblock s))" and io: "img_ok s" and h: "\<And>j. 1 \<le> j \<Longrightarrow> j < F \<Longrightarrow> holds_bytes ?m (I j) (N j) (C j)"
    using f by (simp_all add: files_ok_def)
  have kn: "k < N i" using k(2) by simp
  have r: "59 \<le> ?b" "?b < 1000" using slot_range [OF l i in_use_data(1) [OF kn]] laid_outD(5) [OF l i] by simp_all
  let ?d = "\<lambda>j. if o' \<le> j \<and> j < o' + length q then q ! (j - o') else ?m ?b j" let ?t = "set_sect ?b ?d s"
  have run: "rsect x s = Ok (?m ?b)" "wsect x ?d s = Ok ?t" using rsect_ok [OF io] wsect_ok [OF io] x r(2) by simp_all
  define m' where "m' = ?m(?b := ?d)"
  have mt: "img ?t = m'" by (simp add: m'_def)
  note D = data_frame [OF l i kn m'_def]
  have "holds_bytes (img ?t) (I j) (N j) ((C(i := C i @ q)) j)" if j: "1 \<le> j" "j < F" for j
  proof (cases "j = i")
    case True
    have "holds_bytes (img ?t) (I i) (N i) (C i @ q)"
      unfolding mt
    proof (rule append_bytes [OF h [OF i] k q])
      show "slot m' (I i) p = slot ?m (I i) p" if "p < N i" for p using D(1) [OF i in_use_data(1) [OF that]] .
      show "m' (slot ?m (I i) p) = ?m (slot ?m (I i) p)" if "p < k" for p using D(2) [OF i, of p] that k(2) by simp
    qed (unfold m'_def o'_def, simp)
    then show ?thesis using True by simp
  next
    case False
    then show ?thesis using holds_frame [OF h [OF j]] D(1,2) [OF j] in_use_data(1) unfolding mt by (metis fun_upd_other prod.inject)
  qed
  then have "files_ok ?t I N (C(i := C i @ q)) F" using io data_laid_out [OF l i kn m'_def] mt unfolding files_ok_def by (simp del: set_sect_simps(1))
  then show ?thesis using run r(1) by (intro exI [of _ "?m ?b"] exI [of _ ?t]) auto
qed

definition appended :: "nat \<Rightarrow> u8 list \<Rightarrow> (nat \<Rightarrow> inode) \<Rightarrow> (nat \<Rightarrow> u8 list) \<Rightarrow> nat \<Rightarrow> img_st \<Rightarrow> inode \<Rightarrow> img_st \<Rightarrow> bool" where
  "appended i p I C F s n t \<longleftrightarrow> (\<exists>a. n = (I i)\<lparr>addrs := a\<rparr>) \<and> freeinode t = freeinode s
     \<and> files_ok t (I(i := n)) (sizes (C(i := C i @ p))) (C(i := C i @ p)) F
     \<and> unat (freeblock t) + need (nblk (length (C i))) = unat (freeblock s) + need (nblk (length (C i) + length p))
     \<and> (\<forall>b < 59. img t b = img s b)"

lemma iappend_loop_ok:
  assumes "files_ok s I (sizes C) C F" "1 \<le> i" "i < F" "length (C i) + length p \<le> MAXFILE * BSIZE"
    "unat (freeblock s) + need (nblk (length (C i) + length p)) \<le> 1000 + need (nblk (length (C i)))"
  shows "\<exists>n t. iappend_loop (I i) (length (C i)) p s = Ok (n, length (C i) + length p, t) \<and> appended i p I C F s n t"
  using assms
proof (induction p arbitrary: I C s rule: length_induct)
  case (1 p)
  note i = 1(3,4)
  show ?case
  proof (cases "p = []")
    case True
    have "\<exists>a. I i = (I i)\<lparr>addrs := a\<rparr>" by (rule exI [of _ "addrs (I i)"]) simp
    then show ?thesis using True 1(2) by (simp add: iappend_loop.simps appended_def)
  next
    case False
    let ?o = "length (C i)" let ?k = "?o div BSIZE" and ?n1 = "blk_chunk ?o (length p)"
    let ?q = "take ?n1 p" and ?r = "drop ?n1 p"
    have n1: "0 < ?n1" "?n1 \<le> length p" "?o mod BSIZE + ?n1 \<le> BSIZE" using False unfolding blk_chunk_def by auto
    note R = nblk_round [OF n1(1,3)]
    have lq: "length ?q = ?n1" "length ?r = length p - ?n1" using n1(2) by simp_all
    have kk: "?k < MAXFILE" using 1(5) False by (cases p) (simp_all add: div_less_iff_less_mult)
    have fits: "need (nblk (?o + ?n1)) \<le> need (nblk (?o + length p))" using n1(2) by (intro need_mono nblk_mono) simp
    obtain x n t where b: "iappend_block ?k (I i) s = Ok (x, n, t)" "block_added i ?k I (sizes C) C F s x n t"
      using block_ok [OF 1(2) i, of ?k] R(1,3) kk 1(6) fits by (auto simp: sizes_def)
    let ?I = "I(i := n)" and ?N = "(sizes C)(i := nblk (?o + ?n1))"
    have ft: "files_ok t ?I ?N C F" "unat x = slot (img t) (?I i) ?k" "freeinode t = freeinode s"
      "unat (freeblock t) + need (nblk ?o) = unat (freeblock s) + need (nblk (?o + ?n1))" "\<forall>b < 59. img t b = img s b" "\<exists>a. n = (I i)\<lparr>addrs := a\<rparr>"
      using b(2) R(1) by (simp_all add: block_added_def sizes_def)
    have Nk: "?N i = Suc ?k" and q: "length ?q + ?o mod BSIZE \<le> BSIZE" using R(2) lq(1) n1(3) by simp_all
    obtain buf u where u: "rsect x t = Ok buf"
      "wsect x (\<lambda>j. if ?o mod BSIZE \<le> j \<and> j < ?o mod BSIZE + length ?q then ?q ! (j - ?o mod BSIZE) else buf j) t = Ok u"
      "files_ok u ?I ?N (C(i := C i @ ?q)) F" "freeinode u = freeinode t" "freeblock u = freeblock t" "\<forall>b < 59. img u b = img t b"
      using append_round [OF ft(1) i refl Nk ft(2) q] by - (elim exE conjE, rule that, assumption+)
    let ?C = "C(i := C i @ ?q)"
    have N: "?N = sizes ?C" using sizes_upd [of C i "C i @ ?q"] lq(1) by simp
    have e: "length (?C i) = ?o + ?n1" "?o + ?n1 + length ?r = ?o + length p" "?C i @ ?r = C i @ p" using lq n1(2) by simp_all
    have "length ?r < length p" using lq n1 by simp
    moreover have "files_ok u ?I (sizes ?C) ?C F" using u(3) N by simp
    moreover have "length (?C i) + length ?r \<le> MAXFILE * BSIZE" using 1(5) e by simp
    moreover have "unat (freeblock u) + need (nblk (length (?C i) + length ?r)) \<le> 1000 + need (nblk (length (?C i)))"
      using 1(6) ft(4) u(5) e(1,2) by simp
    ultimately obtain n' t' where t': "iappend_loop (?I i) (length (?C i)) ?r u = Ok (n', length (?C i) + length ?r, t')" "appended i ?r ?I ?C F u n' t'"
      using 1(1) i by blast
    have w: "(\<lambda>j. if ?o mod BSIZE \<le> j \<and> j < ?o mod BSIZE + ?n1 then p ! (j - ?o mod BSIZE) else buf j)
      = (\<lambda>j. if ?o mod BSIZE \<le> j \<and> j < ?o mod BSIZE + length ?q then ?q ! (j - ?o mod BSIZE) else buf j)"
      unfolding lq(1) by (rule ext) auto
    have "iappend_loop (I i) ?o p s = Ok (n', ?o + length p, t')"
      using False kk b(1) u(1,2) t'(1) e(1,2) by (subst iappend_loop.simps) (simp add: Let_def w del: length_take)
    moreover have "appended i p I C F s n' t'"
      using t'(2) e(1-3) ft(3-6) u(4-6) unfolding appended_def by (auto simp: fun_upd_upd)
    ultimately show ?thesis by blast
  qed
qed

section \<open>The image between two operations\<close>

lemma files_frame:
  assumes f: "files_ok s I N C F" and m: "\<forall>b \<ge> 59. img t b = img s b" and t: "img_ok t" "freeblock t = freeblock s"
    and I: "\<forall>j. addrs (I' j) = addrs (I j)"
  shows "files_ok t I' N C F"
proof -
  have l: "laid_out (img s) I N F (unat (freeblock s))" using f by (simp add: files_ok_def)
  have ind: "img t (unat (addrs (I j) ! NDIRECT)) = img s (unat (addrs (I j) ! NDIRECT))" if "1 \<le> j" "j < F" "NDIRECT < N j" for j
    using slot_range [OF l that(1,2) in_use_data(2) [OF that(3)]] m by (simp add: slot_def)
  have same: "slot (img t) (I' j) p = slot (img s) (I j) p" if "1 \<le> j" "j < F" "p \<in> in_use (N j)" for j p
    using ind [OF that(1,2)] that(3) I by (intro slot_same) (auto simp: in_use_def split: if_splits)
  have "bij_betw (\<lambda>(i, k). slot (img t) (I' i) k) (slots N F) {59..<unat (freeblock s)}
      = bij_betw (\<lambda>(i, k). slot (img s) (I i) k) (slots N F) {59..<unat (freeblock s)}"
    using same by (intro bij_betw_cong) (auto simp: slots_def)
  moreover have "unmapped (img t) (I' j) (N j)" if "1 \<le> j" "j < F" for j
    using laid_outD(3) [OF l that] ind [OF that] I by (auto simp: unmapped_def)
  ultimately have "laid_out (img t) I' N F (unat (freeblock t))" using l m t(2) I by (auto simp: laid_out_def)
  moreover have "holds_bytes (img t) (I' j) (N j) (C j)" if j: "1 \<le> j" "j < F" for j
  proof -
    have h: "holds_bytes (img s) (I j) (N j) (C j)" using f j by (simp add: files_ok_def)
    show ?thesis
    proof (rule holds_frame [OF h])
      fix k assume k: "k < N j"
      show "slot (img t) (I' j) k = slot (img s) (I j) k \<and> img t (slot (img s) (I j) k) = img s (slot (img s) (I j) k)"
        using same [OF j in_use_data(1) [OF k]] slot_range [OF l j in_use_data(1) [OF k]] m by simp
    qed
  qed
  ultimately show ?thesis using t(1) by (simp add: files_ok_def)
qed

lemma files_range:
  assumes "files_ok s I N C F" "\<And>j. 1 \<le> j \<Longrightarrow> j < F \<Longrightarrow> I j = I' j"
  shows "files_ok s I' N C F"
proof -
  have "bij_betw (\<lambda>(i, k). slot (img s) (I i) k) (slots N F) B = bij_betw (\<lambda>(i, k). slot (img s) (I' i) k) (slots N F) B" for B
    using assms(2) by (intro bij_betw_cong) (auto simp: slots_def)
  then show ?thesis using assms by (simp add: files_ok_def laid_out_def)
qed

lemma files_same: "files_ok s I N C F \<Longrightarrow> (\<And>j. 1 \<le> j \<Longrightarrow> j < F \<Longrightarrow> N j = N' j \<and> C j = C' j) \<Longrightarrow> files_ok s I N' C' F"
proof -
  assume a: "files_ok s I N C F" "\<And>j. 1 \<le> j \<Longrightarrow> j < F \<Longrightarrow> N j = N' j \<and> C j = C' j"
  then have "slots N' F = slots N F" by (auto simp: slots_def)
  then show ?thesis using a by (simp add: files_ok_def laid_out_def)
qed

text \<open>A new inode has no blocks.\<close>

lemma files_new:
  assumes "files_ok s I N C F" "1 \<le> F" "N F = 0" "C F = []" "length (addrs (I F)) = 13" "unmapped (img s) (I F) 0"
  shows "files_ok s I N C (Suc F)"
proof -
  have "slots N (Suc F) = slots N F" using assms(3) by (auto simp: slots_def in_use_def less_Suc_eq)
  then show ?thesis using assms by (auto simp: files_ok_def laid_out_def less_Suc_eq holds_bytes_def)
qed

text \<open>
  Inodes 1 to \<open>F - 1\<close> are in use; inode \<open>i\<close> has type \<open>T i\<close>, one link and the content \<open>C i\<close>.
\<close>

definition mk_inv :: "img_st \<Rightarrow> (nat \<Rightarrow> 16 word) \<Rightarrow> (nat \<Rightarrow> u8 list) \<Rightarrow> nat \<Rightarrow> bool" where
  "mk_inv s T C F \<longleftrightarrow> files_ok s (dinode_at (img s)) (sizes C) C F \<and> unat (freeinode s) = F \<and> 1 \<le> F \<and> F \<le> 208
     \<and> img s 1 = put_sb mkfs_sb (\<lambda>_. 0)
     \<and> (\<forall>i. 1 \<le> i \<and> i < F \<longrightarrow> itype (dinode_at (img s) i) = T i \<and> inlink (dinode_at (img s) i) = 1
          \<and> isize (dinode_at (img s) i) = of_nat (length (C i)) \<and> length (C i) \<le> MAXFILE * BSIZE)"

lemma set_dinode_simps [simp]:
  "img_ok (set_dinode i n s) = img_ok s" "freeinode (set_dinode i n s) = freeinode s" "freeblock (set_dinode i n s) = freeblock s"
  "img (set_dinode i n s) (Suc 0) = img s (Suc 0)"
  by (simp_all add: set_dinode_def)

lemma mk_inv_cong: "mk_inv s T C F \<Longrightarrow> (\<And>i. 1 \<le> i \<Longrightarrow> i < F \<Longrightarrow> C i = C' i) \<Longrightarrow> mk_inv s T C' F"
proof -
  assume v: "mk_inv s T C F" and C: "\<And>i. 1 \<le> i \<Longrightarrow> i < F \<Longrightarrow> C i = C' i"
  have f: "files_ok s (dinode_at (img s)) (sizes C) C F" using v by (simp add: mk_inv_def)
  have "files_ok s (dinode_at (img s)) (sizes C') C' F"
    by (rule files_same [OF f]) (use C in \<open>simp add: sizes_def\<close>)
  moreover have "length (C' i) = length (C i)" if "1 \<le> i" "i < F" for i using C [OF that] by simp
  ultimately show "mk_inv s T C' F" using v by (simp add: mk_inv_def)
qed

lemma len_u32: "l \<le> MAXFILE * BSIZE \<Longrightarrow> unat (of_nat l :: u32) = l"
  by (simp add: unat_of_nat)

lemma iappend_ok:
  assumes v: "mk_inv s T C F" and i: "1 \<le> i" "i < F" and p: "length (C i) + length p \<le> MAXFILE * BSIZE"
    and room: "unat (freeblock s) + need (nblk (length (C i) + length p)) \<le> 1000 + need (nblk (length (C i)))"
  shows "\<exists>t. iappend (of_nat i) p s = Ok t \<and> mk_inv t T (C(i := C i @ p)) F
    \<and> unat (freeblock t) + need (nblk (length (C i))) = unat (freeblock s) + need (nblk (length (C i) + length p))"
proof -
  let ?I = "dinode_at (img s)" and ?l = "length (C i) + length p" and ?C = "C(i := C i @ p)"
  have f: "files_ok s ?I (sizes C) C F" and io: "img_ok s" and F: "F \<le> 208" and z: "isize (?I i) = of_nat (length (C i))" "length (C i) \<le> MAXFILE * BSIZE"
    using v i by (auto simp: mk_inv_def files_ok_def)
  have i208: "i < 208" using i F by simp
  obtain n t where n: "iappend_loop (?I i) (length (C i)) p s = Ok (n, ?l, t)" "appended i p ?I C F s n t"
    using iappend_loop_ok [OF f i p room] by blast
  obtain a where a: "n = (?I i)\<lparr>addrs := a\<rparr>" and ft: "files_ok t (?I(i := n)) (sizes ?C) ?C F" "freeinode t = freeinode s" "\<forall>b < 59. img t b = img s b"
    "unat (freeblock t) + need (nblk (length (C i))) = unat (freeblock s) + need (nblk ?l)"
    using n(2) by (auto simp: appended_def)
  let ?n = "n\<lparr>isize := of_nat ?l\<rparr>" let ?u = "set_dinode i ?n t"
  have iot: "img_ok t" and len: "length (addrs n) = 13" using ft(1) i by (auto simp: files_ok_def laid_out_def)
  have same: "dinode_at (img t) j = ?I j" if "j < 208" for j using table_block [OF that] ft(3) by (simp add: dinode_at_def)
  have run: "iappend (of_nat i) p s = Ok ?u"
    using rinode_ok [OF io i208] winode_ok [OF iot i208] n(1) z len_u32 [OF z(2)] by (simp add: iappend_def)
  note S = set_dinode_at [of ?n]
  have "copy_inode ?n din0 = ?n" using dinode_at_disk [of "img s" i] by (simp add: a copy_inode_def inode.defs din0_def dinode_at_def get_dinode_def)
  then have ui: "dinode_at (img ?u) i = ?n" using S(1) len by simp
  have uj: "dinode_at (img ?u) j = dinode_at (img t) j" if "j \<noteq> i" for j using S(2) len that by simp
  have "files_ok ?u (?I(i := ?n)) (sizes ?C) ?C F"
    by (rule files_frame [OF ft(1)]) (use S(3) len i208 iot in auto)
  then have "files_ok ?u (dinode_at (img ?u)) (sizes ?C) ?C F"
  proof (rule files_range)
    show "(?I(i := ?n)) j = dinode_at (img ?u) j" if "1 \<le> j" "j < F" for j using that F ui uj same by simp
  qed
  moreover have "itype (dinode_at (img ?u) j) = T j \<and> inlink (dinode_at (img ?u) j) = 1 \<and> isize (dinode_at (img ?u) j) = of_nat (length (?C j))
    \<and> length (?C j) \<le> MAXFILE * BSIZE" if "1 \<le> j" "j < F" for j
    using v that F p uj same ui by (cases "j = i") (simp_all add: mk_inv_def a)
  ultimately have "mk_inv ?u T ?C F" using v ft(2,3) unfolding mk_inv_def by simp
  then show ?thesis using run ft(4) by (intro exI [of _ ?u]) simp
qed

lemma ialloc_ok:
  assumes v: "mk_inv s T C F" and F: "F < 208"
  shows "\<exists>t. mk_ialloc ty s = Ok (of_nat F, t) \<and> mk_inv t (T(F := ty)) (C(F := [])) (Suc F) \<and> freeblock t = freeblock s"
proof -
  let ?s = "s\<lparr>freeinode := freeinode s + 1\<rparr>" and ?n = "din0\<lparr>itype := ty, inlink := 1, isize := 0\<rparr>"
  let ?t = "set_dinode F ?n ?s" and ?C = "C(F := [])"
  have f: "files_ok s (dinode_at (img s)) (sizes C) C F" and fi: "unat (freeinode s) = F" and F1: "1 \<le> F" using v by (simp_all add: mk_inv_def)
  have io: "img_ok ?s" using f by (simp add: files_ok_def)
  have e: "freeinode s = of_nat F" using fi by (simp flip: fi)
  have run: "mk_ialloc ty s = Ok (of_nat F, ?t)" using winode_ok [OF io F, of ?n] e by (simp add: mk_ialloc_def Let_def)
  have len: "length (addrs ?n) = 13" "\<forall>j < 13. addrs ?n ! j = 0" by (simp_all add: din0_def)
  note S = set_dinode_at [of ?n, OF len(1)]
  have "copy_inode ?n din0 = ?n" by (simp add: copy_inode_def din0_def)
  then have uF: "dinode_at (img ?t) F = ?n" using S(1) by simp
  have uj: "dinode_at (img ?t) j = dinode_at (img s) j" if "j \<noteq> F" for j using S(2) that by simp
  let ?I = "(dinode_at (img s))(F := ?n)"
  have "files_ok ?t (dinode_at (img s)) (sizes C) C F" by (rule files_frame [OF f]) (use S(3) F io in auto)
  then have "files_ok ?t ?I (sizes C) C F" by (rule files_range) simp
  then have "files_ok ?t ?I (sizes ?C) ?C F" by (rule files_same) (simp add: sizes_def)
  moreover have "sizes ?C F = 0" "?C F = []" "?I F = ?n" by (simp_all add: sizes_def nblk_def)
  moreover have "unmapped (img ?t) ?n 0" using len(2) by (simp add: unmapped_def)
  ultimately have "files_ok ?t ?I (sizes ?C) ?C (Suc F)" using F1 len(1) files_new [of ?t ?I "sizes ?C" ?C F] by argo
  moreover have "dinode_at (img ?t) = ?I" using uF uj by auto
  ultimately have "files_ok ?t (dinode_at (img ?t)) (sizes ?C) ?C (Suc F)" by simp
  moreover have "itype (dinode_at (img ?t) j) = (T(F := ty)) j \<and> inlink (dinode_at (img ?t) j) = 1
    \<and> isize (dinode_at (img ?t) j) = of_nat (length (?C j)) \<and> length (?C j) \<le> MAXFILE * BSIZE" if "1 \<le> j" "j < Suc F" for j
    using v that uj uF by (cases "j = F") (simp_all add: mk_inv_def)
  ultimately have "mk_inv ?t (T(F := ty)) ?C (Suc F)"
    using v F free_unat(2) [of "freeinode s"] fi unfolding mk_inv_def by simp
  then show ?thesis using run by (intro exI [of _ ?t]) simp
qed

section \<open>Copying the files\<close>

definition read_all :: "u8 list list \<Rightarrow> u8 list" where
  "read_all cs = concat (takeWhile (\<lambda>c. c \<noteq> []) cs)"

lemma copy_in_ok:
  assumes "mk_inv s T C F" "1 \<le> i" "i < F" "length (C i) + length (read_all cs) \<le> MAXFILE * BSIZE"
    "unat (freeblock s) + need (nblk (length (C i) + length (read_all cs))) \<le> 1000 + need (nblk (length (C i)))"
  shows "\<exists>t. copy_in (of_nat i) cs s = Ok t \<and> mk_inv t T (C(i := C i @ read_all cs)) F
    \<and> unat (freeblock t) + need (nblk (length (C i))) = unat (freeblock s) + need (nblk (length (C i) + length (read_all cs)))"
  using assms
proof (induction cs arbitrary: C s)
  case (Cons c cs)
  show ?case
  proof (cases "c = []")
    case False
    let ?C = "C(i := C i @ c)"
    have e: "read_all (c # cs) = c @ read_all cs" using False by (simp add: read_all_def)
    have "need (nblk (length (C i) + length c)) \<le> need (nblk (length (C i) + length (read_all (c # cs))))"
      by (intro need_mono nblk_mono) (simp add: e)
    then obtain t where t: "iappend (of_nat i) c s = Ok t" "mk_inv t T ?C F"
      "unat (freeblock t) + need (nblk (length (C i))) = unat (freeblock s) + need (nblk (length (C i) + length c))"
      using iappend_ok [OF Cons.prems(1-3), of c] Cons.prems(4,5) e by auto
    have l: "length (?C i) + length (read_all cs) = length (C i) + length (read_all (c # cs))" "length (?C i) = length (C i) + length c" by (simp_all add: e)
    have q: "length (?C i) + length (read_all cs) \<le> MAXFILE * BSIZE" unfolding l(1) by (rule Cons.prems(4))
    have r: "unat (freeblock t) + need (nblk (length (?C i) + length (read_all cs))) \<le> 1000 + need (nblk (length (?C i)))"
      unfolding l(1) using Cons.prems(5) t(3) l(2) by simp
    obtain u where "copy_in (of_nat i) cs t = Ok u" "mk_inv u T (?C(i := ?C i @ read_all cs)) F"
      "unat (freeblock u) + need (nblk (length (?C i))) = unat (freeblock t) + need (nblk (length (C i) + length (read_all (c # cs))))"
      using Cons.IH [OF t(2) Cons.prems(2,3) q r] unfolding l(1) by blast
    moreover have "?C(i := ?C i @ read_all cs) = C(i := C i @ read_all (c # cs))" by (simp add: e)
    ultimately show ?thesis using t(1,3) l(2) False by (intro exI [of _ u]) (simp del: fun_upd_apply)
  qed (use Cons.prems in \<open>simp add: read_all_def\<close>)
qed (simp add: read_all_def)

abbreviation contents :: "(u8 list \<Rightarrow> u8 list list option) \<Rightarrow> u8 list \<Rightarrow> u8 list" where
  "contents host name \<equiv> read_all (the (host name))"

lemma add_file_ok:
  assumes v: "mk_inv s T C F" and F: "2 \<le> F" "F < 208"
    and name: "of_char (CHR ''/'') \<notin> set name" "host name \<noteq> None" "length (contents host name) \<le> MAXFILE * BSIZE" "length (C 1) + 16 \<le> MAXFILE * BSIZE"
    and room: "unat (freeblock s) + need (nblk (length (C 1) + 16)) + need (nblk (length (contents host name))) \<le> 1000 + need (nblk (length (C 1)))"
  shows "\<exists>t. add_file host ROOTINO name s = Ok t
    \<and> mk_inv t (T(F := T_FILE)) (C(F := contents host name, 1 := C 1 @ dirent_bytes (skip_underscore name) (of_nat F))) (Suc F)
    \<and> unat (freeblock t) + need (nblk (length (C 1)))
      = unat (freeblock s) + need (nblk (length (C 1) + 16)) + need (nblk (length (contents host name)))"
proof -
  let ?de = "dirent_bytes (skip_underscore name) (of_nat F)" and ?T = "T(F := T_FILE)" and ?C = "C(F := [])"
  let ?D = "?C(1 := ?C 1 @ ?de)"
  obtain t where t: "mk_ialloc T_FILE s = Ok (of_nat F, t)" "mk_inv t ?T ?C (Suc F)" "freeblock t = freeblock s"
    using ialloc_ok [OF v F(2)] by blast
  have l: "length ?de = 16" by (rule dirent_bytes_length)
  have e: "?C 1 = C 1" "1 < Suc F" "F < Suc F" "1 \<le> F" using F by simp_all
  obtain u where u: "iappend (of_nat 1) ?de t = Ok u" "mk_inv u ?T ?D (Suc F)"
    "unat (freeblock u) + need (nblk (length (C 1))) = unat (freeblock s) + need (nblk (length (C 1) + 16))"
    using iappend_ok [OF t(2) _ e(2), of ?de] name(4) room l t(3) unfolding e(1) by auto
  have DF: "?D F = []" using F by simp
  have n0: "need (nblk 0) = 0" by (simp add: need_def nblk_def)
  obtain w where w: "copy_in (of_nat F) (the (host name)) u = Ok w" "mk_inv w ?T (?D(F := ?D F @ contents host name)) (Suc F)"
    "unat (freeblock w) = unat (freeblock u) + need (nblk (length (contents host name)))"
    using copy_in_ok [OF u(2) e(4,3), of "the (host name)"] DF name(3) room u(3) n0 by auto
  have "?D(F := ?D F @ contents host name) = C(F := contents host name, 1 := C 1 @ ?de)" using F by (auto simp: fun_eq_iff)
  moreover have "add_file host ROOTINO name s = Ok w" using name(1,2) t(1) u(1) w(1) by (auto simp: add_file_def)
  ultimately show ?thesis using w u(3) by (intro exI [of _ w]) simp
qed

text \<open>The directory entries written for the files of the command line, the first of which gets inode \<open>F\<close>.\<close>

primrec root_entries :: "nat \<Rightarrow> u8 list list \<Rightarrow> u8 list" where
  "root_entries F [] = []"
| "root_entries F (name # files) = dirent_bytes (skip_underscore name) (of_nat F) @ root_entries (Suc F) files"

lemma root_entries_length [simp]: "length (root_entries F files) = 16 * length files"
  by (induction files arbitrary: F) (simp_all add: dirent_bytes_length)

definition file_ok :: "(u8 list \<Rightarrow> u8 list list option) \<Rightarrow> u8 list \<Rightarrow> bool" where
  "file_ok host name \<longleftrightarrow> of_char (CHR ''/'') \<notin> set name \<and> host name \<noteq> None \<and> length (contents host name) \<le> MAXFILE * BSIZE"

lemma add_files_ok:
  assumes "mk_inv s T C F" "2 \<le> F" "F + length files \<le> 208" "\<forall>name \<in> set files. file_ok host name"
    "length (C 1) + 16 * length files \<le> MAXFILE * BSIZE"
    "unat (freeblock s) + need (nblk (length (C 1) + 16 * length files)) + (\<Sum>name \<leftarrow> files. need (nblk (length (contents host name))))
      \<le> 1000 + need (nblk (length (C 1)))"
  shows "\<exists>t T' C'. add_files host ROOTINO files s = Ok t \<and> mk_inv t T' C' (F + length files)
    \<and> T' 1 = T 1 \<and> C' 1 = C 1 @ root_entries F files
    \<and> (\<forall>j < length files. T' (F + j) = T_FILE \<and> C' (F + j) = contents host (files ! j))
    \<and> (\<forall>j. 1 < j \<and> j < F \<longrightarrow> T' j = T j \<and> C' j = C j)"
  using assms
proof (induction files arbitrary: s T C F)
  case (Cons name files)
  let ?c = "contents host name" let ?T = "T(F := T_FILE)" and ?C = "C(F := ?c, 1 := C 1 @ dirent_bytes (skip_underscore name) (of_nat F))"
  have ok: "of_char (CHR ''/'') \<notin> set name" "host name \<noteq> None" "length ?c \<le> MAXFILE * BSIZE" using Cons.prems(4) by (simp_all add: file_ok_def)
  have m: "need (nblk (length (C 1) + 16)) \<le> need (nblk (length (C 1) + 16 * length (name # files)))" by (intro need_mono nblk_mono) simp
  have p: "F < 208" "length (C 1) + 16 \<le> MAXFILE * BSIZE"
    "unat (freeblock s) + need (nblk (length (C 1) + 16)) + need (nblk (length ?c)) \<le> 1000 + need (nblk (length (C 1)))"
    using Cons.prems(3,5,6) m by simp_all
  obtain t where t: "add_file host ROOTINO name s = Ok t" "mk_inv t ?T ?C (Suc F)"
    "unat (freeblock t) + need (nblk (length (C 1))) = unat (freeblock s) + need (nblk (length (C 1) + 16)) + need (nblk (length ?c))"
    using add_file_ok [where host = host and name = name, OF Cons.prems(1,2) p(1) ok p(2,3)] by blast
  have l: "length (?C 1) = length (C 1) + 16" by (simp add: dirent_bytes_length)
  have e: "length (?C 1) + 16 * length files = length (C 1) + 16 * length (name # files)" unfolding l by simp
  have F: "2 \<le> Suc F" "Suc F + length files \<le> 208" "\<forall>name \<in> set files. file_ok host name" using Cons.prems(2-4) by simp_all
  have r: "length (?C 1) + 16 * length files \<le> MAXFILE * BSIZE" using Cons.prems(5) by (simp only: e)
  have q: "unat (freeblock t) + need (nblk (length (?C 1) + 16 * length files)) + (\<Sum>name \<leftarrow> files. need (nblk (length (contents host name))))
      \<le> 1000 + need (nblk (length (?C 1)))" using Cons.prems(6) t(3) unfolding e l by (simp add: add.assoc)
  obtain u T' C' where u: "add_files host ROOTINO files t = Ok u" "mk_inv u T' C' (Suc F + length files)"
    "T' 1 = ?T 1" "C' 1 = ?C 1 @ root_entries (Suc F) files"
    "\<forall>j < length files. T' (Suc F + j) = T_FILE \<and> C' (Suc F + j) = contents host (files ! j)"
    "\<forall>j. 1 < j \<and> j < Suc F \<longrightarrow> T' j = ?T j \<and> C' j = ?C j"
    using Cons.IH [OF t(2) F r q] by - (elim exE conjE, rule that, assumption+)
  have "T' (F + j) = T_FILE \<and> C' (F + j) = contents host ((name # files) ! j)" if "j < length (name # files)" for j
    using that u(5,6) Cons.prems(2) by (cases j) auto
  then show ?case using t(1) u Cons.prems(2) by (intro exI [of _ u] exI [of _ T'] exI [of _ C']) auto
qed auto

section \<open>The whole image\<close>

lemma wsects_append: "wsects (xs @ ys) d s = bnd (wsects xs d s) (wsects ys d)"
proof (induction xs arbitrary: s)
  case (Cons x xs)
  then show ?case by (simp add: bnd_assoc cong: bnd_cong)
qed simp

lemma wsects_zero:
  assumes "\<forall>p < 1000. io_ok s p" "img s = (\<lambda>_ _. 0)" "imgsize s = 0" "n \<le> 1000"
  shows "wsects [0..<n] (\<lambda>_. 0) s = Ok (s\<lparr>imgsize := n\<rparr>)"
  using assms(4)
proof (induction n)
  case 0
  then show ?case using assms(3) by simp
next
  case (Suc n)
  have "sector (of_nat n) = n" using Suc.prems by (simp add: sector_id unat_of_nat)
  moreover have "s\<lparr>img := (\<lambda>_ _. 0)(n := (\<lambda>_. 0)), imgsize := k\<rparr> = s\<lparr>imgsize := k\<rparr>" for k using assms(2) by (cases s) (auto simp: fun_eq_iff)
  ultimately have "wsect (of_nat n) (\<lambda>_. 0) (s\<lparr>imgsize := n\<rparr>) = Ok (s\<lparr>imgsize := Suc n\<rparr>)"
    using assms(1,2) Suc.prems by (simp add: wsect_def max_def)
  then show ?case using Suc by (simp add: wsects_append)
qed

text \<open>The entries for the directory itself and its parent.\<close>

definition dots :: "u8 list" where
  "dots = dirent_bytes [of_char (CHR ''.'')] ROOTINO @ dirent_bytes [of_char (CHR ''.''), of_char (CHR ''.'')] ROOTINO"

lemma dots_length [simp]: "length dots = 32"
  by (simp add: dots_def dirent_bytes_length)

lemma mkfs_empty_ok:
  assumes io: "\<forall>p < 1000. io p"
  shows "\<exists>s. mkfs_empty io = Ok (ROOTINO, s) \<and> unat (freeblock s) = 60 \<and> mk_inv s (\<lambda>_. T_DIR) (\<lambda>_. dots) 2"
proof -
  let ?s0 = "\<lparr>img = (\<lambda>_ _. 0), imgsize = 0, io_ok = io, mk_sb = mkfs_sb, freeinode = 1, freeblock = of_nat nmeta\<rparr>"
  let ?s1 = "set_sect 1 (put_sb mkfs_sb (\<lambda>_. 0)) (?s0\<lparr>imgsize := 1000\<rparr>)"
  have z: "wsects [0..<mk_FSSIZE] (\<lambda>_. 0) ?s0 = Ok (?s0\<lparr>imgsize := 1000\<rparr>)" by (rule wsects_zero) (simp_all add: io)
  have "img_ok (?s0\<lparr>imgsize := 1000\<rparr>)" using io by (simp add: img_ok_def)
  then have w: "wsect 1 (put_sb mkfs_sb (\<lambda>_. 0)) (?s0\<lparr>imgsize := 1000\<rparr>) = Ok ?s1" and io1: "img_ok ?s1" using wsect_ok [of "?s0\<lparr>imgsize := 1000\<rparr>" 1] by simp_all
  have f0: "fill 0 BSIZE 0 (\<lambda>_. 0 :: u8) = (\<lambda>_. 0)" by (rule ext) simp
  have sl: "slots N 1 = {}" for N by (auto simp: slots_def)
  have f1: "freeblock ?s1 = 59" "freeinode ?s1 = 1" "img ?s1 1 = put_sb mkfs_sb (\<lambda>_. 0)" "\<forall>b. 59 \<le> b \<longrightarrow> img ?s1 b = (\<lambda>_. 0)"
    by (simp_all add: set_sect_def)
  have "files_ok ?s1 (dinode_at (img ?s1)) (sizes (\<lambda>_. [])) (\<lambda>_. []) 1"
    using io1 f1(1,4) by (simp add: files_ok_def laid_out_def sl [simplified] bij_betw_def)
  then have v: "mk_inv ?s1 (\<lambda>_. T_DIR) (\<lambda>_. []) 1" using f1(2,3) unfolding mk_inv_def by simp
  obtain s2 where s2: "mk_ialloc T_DIR ?s1 = Ok (ROOTINO, s2)" "mk_inv s2 (\<lambda>_. T_DIR) (\<lambda>_. []) 2" "freeblock s2 = 59"
    using ialloc_ok [OF v, of T_DIR] f1(1) by (auto simp: numeral_2_eq_2 fun_upd_def)
  let ?d1 = "dirent_bytes [of_char (CHR ''.'')] ROOTINO" and ?d2 = "dirent_bytes [of_char (CHR ''.''), of_char (CHR ''.'')] ROOTINO"
  note l = dirent_bytes_length
  have n: "need (nblk 0) = 0" "need (nblk 16) = 1" "need (nblk 32) = 1" by (simp_all add: need_def nblk_def)
  obtain s3 where s3: "iappend ROOTINO ?d1 s2 = Ok s3" "mk_inv s3 (\<lambda>_. T_DIR) ((\<lambda>_. [])(1 := ?d1)) 2" "unat (freeblock s3) = 60"
    using iappend_ok [OF s2(2), of 1 ?d1] s2(3) n by (auto simp: l)
  obtain s4 where s4: "iappend ROOTINO ?d2 s3 = Ok s4" "mk_inv s4 (\<lambda>_. T_DIR) ((\<lambda>_. [])(1 := dots)) 2" "unat (freeblock s4) = 60"
    using iappend_ok [OF s3(2), of 1 ?d2] s3(3) n by (auto simp: l dots_def)
  have "mkfs_empty io = Ok (ROOTINO, s4)" unfolding mkfs_empty_def z using w s2(1) s3(1) s4(1) by (simp add: f0)
  moreover have "mk_inv s4 (\<lambda>_. T_DIR) (\<lambda>_. dots) 2" by (rule mk_inv_cong [OF s4(2)]) auto
  ultimately show ?thesis using s4(3) by blast
qed

lemma bit_set_bits: "bit_set (fold (\<lambda>i d. d(i div 8 := d (i div 8) OR push_bit (i mod 8) 1)) [0..<n] (\<lambda>_. 0)) b \<longleftrightarrow> b < n"
proof (induction n)
  case 0
  then show ?case by (simp add: bit_set_iff)
next
  case (Suc n)
  let ?d = "fold (\<lambda>i d. d(i div 8 := d (i div 8) OR push_bit (i mod 8) 1)) [0..<n] (\<lambda>_. 0)"
  have "bit_set (set_bit_at n ?d) b \<longleftrightarrow> b = n \<or> bit_set ?d b" by (auto simp: bit_set_upd)
  moreover have "fold (\<lambda>i d. d(i div 8 := d (i div 8) OR push_bit (i mod 8) 1)) [0..<Suc n] (\<lambda>_. 0) = set_bit_at n ?d"
    by (simp add: set_bit_at_def)
  ultimately show ?case using Suc by (simp only: less_Suc_eq) blast
qed

text \<open>The root directory is given the size of its blocks, or of one more when it fills them exactly.\<close>

definition root_size :: "nat \<Rightarrow> nat" where
  "root_size l = (l div BSIZE + 1) * BSIZE"

lemma mkfs_finish_ok:
  assumes v: "mk_inv s T C F" and F: "1 < F"
  shows "\<exists>t. mkfs_finish ROOTINO s = Ok t \<and> freeblock t = freeblock s \<and> img t 1 = put_sb mkfs_sb (\<lambda>_. 0)
    \<and> laid_out (img t) (dinode_at (img t)) (sizes C) F (unat (freeblock t))
    \<and> (\<forall>i. 1 \<le> i \<and> i < F \<longrightarrow> itype (dinode_at (img t) i) = T i \<and> inlink (dinode_at (img t) i) = 1
        \<and> unat (isize (dinode_at (img t) i)) = (if i = 1 then root_size (length (C 1)) else length (C i))
        \<and> holds_bytes (img t) (dinode_at (img t) i) (nblk (length (C i))) (C i))
    \<and> (\<forall>b. bit_set (img t 58) b \<longleftrightarrow> b < unat (freeblock t))"
proof -
  let ?I = "dinode_at (img s)" let ?n = "?I 1" let ?l = "length (C 1)"
  have f: "files_ok s ?I (sizes C) C F" and io: "img_ok s" and z: "isize ?n = of_nat ?l" "?l \<le> MAXFILE * BSIZE" "F \<le> 208" "img s 1 = put_sb mkfs_sb (\<lambda>_. 0)"
    using v F by (auto simp: mk_inv_def files_ok_def)
  let ?off = "(isize ?n div 512 + 1) * 512 :: u32" define q where "q = ?n\<lparr>isize := ?off\<rparr>"
  have q: "addrs q = addrs ?n" "isize q = ?off" "itype q = itype ?n" "inlink q = inlink ?n" by (simp_all add: q_def)
  have off: "unat ?off = root_size ?l"
  proof -
    have "unat (isize ?n div 512 :: u32) = ?l div BSIZE" unfolding z(1) unat_div using len_u32 [OF z(2)] by simp
    moreover have "?l div BSIZE \<le> MAXFILE" using z(2) div_le_mono [OF z(2), of BSIZE] by simp
    ultimately show ?thesis by (simp add: root_size_def unat_word_ariths)
  qed
  let ?u = "set_dinode 1 q s"
  have len: "length (addrs q) = 13" using f F by (auto simp: q files_ok_def laid_out_def)
  note S = set_dinode_at [of q, OF len]
  have "copy_inode q din0 = q" unfolding q_def using dinode_at_disk [of "img s" 1] by (simp add: copy_inode_def inode.defs din0_def dinode_at_def get_dinode_def)
  then have u1: "dinode_at (img ?u) 1 = q" using S(1) by simp
  have uj: "dinode_at (img ?u) j = ?I j" if "j \<noteq> 1" for j using S(2) that by simp
  have ad: "addrs (dinode_at (img ?u) j) = addrs (?I j)" for j
  proof (cases "j = 1")
    case True
    show ?thesis unfolding True u1 by (rule q(1))
  next
    case False
    show ?thesis by (rule arg_cong [OF uj [OF False]])
  qed
  have bl: "\<forall>b \<ge> 59. img ?u b = img s b" and io': "img_ok ?u" using S(3) [of _ 1] io by simp_all
  have fu: "files_ok ?u (dinode_at (img ?u)) (sizes C) C F" by (rule files_frame [OF f bl io']) (simp, simp only: ad, blast)
  have B: "59 \<le> unat (freeblock s)" "unat (freeblock s) \<le> 1000" using f by (auto simp: files_ok_def laid_out_def)
  let ?d = "fold (\<lambda>i d. d(i div 8 := d (i div 8) OR push_bit (i mod 8) 1)) [0..<unat (freeblock s)] (\<lambda>_. 0)"
  let ?t = "set_sect 58 ?d ?u"
  have run: "mkfs_finish ROOTINO s = Ok ?t"
  proof -
    have r: "rinode ROOTINO s = Ok ?n" "winode ROOTINO q s = Ok ?u" using rinode_ok [OF io, of 1] winode_ok [OF io, of 1 q] by simp_all
    have "sb_bmapstart (mk_sb ?u) = 58" using io by (simp add: set_dinode_def img_ok_def mkfs_sb_eq)
    then have "mk_balloc (unat (freeblock ?u)) ?u = Ok ?t" using wsect_ok [OF io', of 58] B(2) by (simp add: mk_balloc_def Let_def)
    then show ?thesis unfolding mkfs_finish_def r(1) by (simp only: bnd.simps Let_def xint_id q_def [symmetric] r(2))
  qed
  have ti: "dinode_at (img ?t) j = dinode_at (img ?u) j" if "j < 208" for j using table_block [OF that] by (simp add: dinode_at_def)
  have ft: "files_ok ?t (dinode_at (img ?u)) (sizes C) C F" by (rule files_frame [OF fu]) (use io' in auto)
  then have "files_ok ?t (dinode_at (img ?t)) (sizes C) C F" by (rule files_range) (use ti z(3) in simp)
  moreover have "unat (isize (dinode_at (img ?t) i)) = (if i = 1 then root_size (length (C 1)) else length (C i))" if "1 \<le> i" "i < F" for i
    using that ti [of i] z(3) u1 q uj [of i] v off len_u32 [of "length (C i)"] by (cases "i = 1") (simp_all add: mk_inv_def)
  moreover have "itype (dinode_at (img ?t) i) = T i \<and> inlink (dinode_at (img ?t) i) = 1" if "1 \<le> i" "i < F" for i
    using that ti [of i] z(3) u1 q uj [of i] v by (cases "i = 1") (simp_all add: mk_inv_def)
  moreover have "bit_set (img ?t 58) b \<longleftrightarrow> b < unat (freeblock s)" for b using bit_set_bits by simp
  moreover have "img ?t 1 = put_sb mkfs_sb (\<lambda>_. 0)" using z(4) by simp
  ultimately show ?thesis using run by (intro exI [of _ ?t]) (auto simp: files_ok_def sizes_def)
qed

text \<open>The content of inode \<open>i\<close>: the root directory is inode 1, the files follow in the order of the command line.\<close>

definition mk_content :: "(u8 list \<Rightarrow> u8 list list option) \<Rightarrow> u8 list list \<Rightarrow> nat \<Rightarrow> u8 list" where
  "mk_content host files i = (if i = 1 then dots @ root_entries 2 files else contents host (files ! (i - 2)))"

definition fits :: "(u8 list \<Rightarrow> u8 list list option) \<Rightarrow> u8 list list \<Rightarrow> bool" where
  "fits host files \<longleftrightarrow> length files \<le> 198 \<and> (\<forall>name \<in> set files. file_ok host name)
     \<and> need (nblk (32 + 16 * length files)) + (\<Sum>name \<leftarrow> files. need (nblk (length (contents host name)))) \<le> 941"

text \<open>An image that holds the root directory and the files, whose bitmap marks the blocks in use.\<close>

definition image_ok :: "(u8 list \<Rightarrow> u8 list list option) \<Rightarrow> u8 list list \<Rightarrow> img_st \<Rightarrow> bool" where
  "image_ok host files t \<longleftrightarrow>
     laid_out (img t) (dinode_at (img t)) (sizes (mk_content host files)) (length files + 2) (unat (freeblock t))
     \<and> (\<forall>i. 1 \<le> i \<and> i < length files + 2 \<longrightarrow> itype (dinode_at (img t) i) = (if i = 1 then T_DIR else T_FILE) \<and> inlink (dinode_at (img t) i) = 1
        \<and> unat (isize (dinode_at (img t) i))
          = (if i = 1 then root_size (length (mk_content host files 1)) else length (mk_content host files i))
        \<and> holds_bytes (img t) (dinode_at (img t) i) (nblk (length (mk_content host files i))) (mk_content host files i))
     \<and> (\<forall>b. bit_set (img t 58) b \<longleftrightarrow> b < unat (freeblock t))"

lemma mkfs_ok:
  assumes io: "\<forall>p < 1000. io p" "creat fname" and f: "fits host files"
  shows "\<exists>t. mkfs (prog # fname # files) creat host io = Ok t \<and> img t 1 = put_sb mkfs_sb (\<lambda>_. 0) \<and> image_ok host files t"
proof -
  let ?n = "length files"
  obtain s where s: "mkfs_empty io = Ok (ROOTINO, s)" "unat (freeblock s) = 60" "mk_inv s (\<lambda>_. T_DIR) (\<lambda>_. dots) 2"
    using mkfs_empty_ok [OF io(1)] by blast
  have n32: "need (nblk 32) = 1" by (simp add: need_def nblk_def)
  have p: "2 + ?n \<le> 208" "\<forall>name \<in> set files. file_ok host name" "length dots + 16 * ?n \<le> MAXFILE * BSIZE"
    "unat (freeblock s) + need (nblk (length dots + 16 * ?n)) + (\<Sum>name \<leftarrow> files. need (nblk (length (contents host name))))
      \<le> 1000 + need (nblk (length dots))"
    using f s(2) n32 by (simp_all add: fits_def)
  obtain t T C where t: "add_files host ROOTINO files s = Ok t" "mk_inv t T C (2 + ?n)" "T 1 = T_DIR" "C 1 = dots @ root_entries 2 files"
    "\<forall>j < ?n. T (2 + j) = T_FILE \<and> C (2 + j) = contents host (files ! j)"
    using add_files_ok [OF s(3) order_refl p] by blast
  let ?C = "mk_content host files" and ?F = "?n + 2"
  have ent: "T i = T_FILE \<and> C i = contents host (files ! (i - 2))" if i: "1 \<le> i" "i < ?F" "i \<noteq> 1" for i
  proof -
    have "i - 2 < ?n" "2 + (i - 2) = i" using i by simp_all
    then show ?thesis using t(5) by metis
  qed
  have C: "C i = ?C i" if "1 \<le> i" "i < ?F" for i
    using that t(4) ent [of i] by (cases "i = 1") (simp_all add: mk_content_def)
  have T: "T i = (if i = 1 then T_DIR else T_FILE)" if "1 \<le> i" "i < ?F" for i
    using that t(3) ent [of i] by (cases "i = 1") simp_all
  have "mk_inv t T C ?F" using t(2) by (simp add: add.commute)
  then have v: "mk_inv t T ?C ?F" by (rule mk_inv_cong) (rule C)
  obtain u where u: "mkfs_finish ROOTINO t = Ok u" "img u 1 = put_sb mkfs_sb (\<lambda>_. 0)"
    "laid_out (img u) (dinode_at (img u)) (sizes ?C) ?F (unat (freeblock u))"
    "\<forall>i. 1 \<le> i \<and> i < ?F \<longrightarrow> itype (dinode_at (img u) i) = T i \<and> inlink (dinode_at (img u) i) = 1
        \<and> unat (isize (dinode_at (img u) i)) = (if i = 1 then root_size (length (?C 1)) else length (?C i))
        \<and> holds_bytes (img u) (dinode_at (img u) i) (nblk (length (?C i))) (?C i)"
    "\<forall>b. bit_set (img u 58) b \<longleftrightarrow> b < unat (freeblock u)"
    using mkfs_finish_ok [OF v] by auto
  have "mkfs (prog # fname # files) creat host io = Ok u" using io(2) s(1) t(1) u(1) by (simp add: mkfs_def)
  moreover have "image_ok host files u" using u(3-5) T unfolding image_ok_def by simp
  ultimately show ?thesis using u(2) by blast
qed

text \<open>
  C5. The image that \<open>mkfs\<close> writes. When the host can create it, every transfer succeeds, the
  files exist, have no slash in their names, are at most \<open>MAXFILE\<close> blocks long, are at most 198 and
  fit the 941 data blocks together with the root directory, \<open>mkfs\<close> ends normally. The superblock
  then describes the disk; inode 1 is the root directory, with the entries of itself, its
  parent and the files in order, and inode \<open>j + 2\<close> is a file with one link, the size and the
  bytes of file \<open>j\<close>; every block from 59 up to the first free one is in exactly one slot of one
  inode; and the bitmap marks exactly the blocks before the first free one.
\<close>

theorem mkfs_builds_file_system:
  assumes io: "\<forall>p < 1000. io p" "creat fname" and f: "fits host files"
  shows "\<exists>t. mkfs (prog # fname # files) creat host io = Ok t
    \<and> map (\<lambda>i. get32 (img t 1) (4 * i)) [0..<7] = [1000, 941, 200, 30, 2, 32, 58]
    \<and> itype (dinode_at (img t) 1) = T_DIR
    \<and> holds_bytes (img t) (dinode_at (img t) 1) (nblk (32 + 16 * length files)) (dots @ root_entries 2 files)
    \<and> (\<forall>j < length files. let d = dinode_at (img t) (j + 2); c = contents host (files ! j) in
        itype d = T_FILE \<and> inlink d = 1 \<and> unat (isize d) = length c \<and> holds_bytes (img t) d (nblk (length c)) c)
    \<and> bij_betw (\<lambda>(i, k). slot (img t) (dinode_at (img t) i) k)
        (slots (\<lambda>i. nblk (length (mk_content host files i))) (length files + 2)) {59..<unat (freeblock t)}
    \<and> (\<forall>b. bit_set (img t 58) b \<longleftrightarrow> b < unat (freeblock t))"
proof -
  obtain t where t: "mkfs (prog # fname # files) creat host io = Ok t" "img t 1 = put_sb mkfs_sb (\<lambda>_. 0)" "image_ok host files t"
    using mkfs_ok [where host = host and files = files and creat = creat, OF assms] by blast
  let ?q = "[1000, 941, 200, 30, 2, 32, 58] :: u32 list"
  have "get32 (img t 1) (4 * i) = ?q ! i" if "i < 7" for i
    using put_words_get [of i ?q 0 "\<lambda>_. 0"] that unfolding t(2) by (simp add: put_sb_def mkfs_sb_eq)
  then have "map (\<lambda>i. get32 (img t 1) (4 * i)) [0..<7] = ?q" by (intro nth_equalityI) simp_all
  moreover have "mk_content host files 1 = dots @ root_entries 2 files" "\<And>j. mk_content host files (j + 2) = contents host (files ! j)"
    by (simp_all add: mk_content_def)
  moreover have "itype (dinode_at (img t) 1) = T_DIR \<and> holds_bytes (img t) (dinode_at (img t) 1) (nblk (length (mk_content host files 1))) (mk_content host files 1)"
    using t(3) unfolding image_ok_def by simp
  moreover have "itype (dinode_at (img t) (j + 2)) = T_FILE \<and> inlink (dinode_at (img t) (j + 2)) = 1
      \<and> unat (isize (dinode_at (img t) (j + 2))) = length (mk_content host files (j + 2))
      \<and> holds_bytes (img t) (dinode_at (img t) (j + 2)) (nblk (length (mk_content host files (j + 2)))) (mk_content host files (j + 2))"
    if "j < length files" for j
    using t(3) that unfolding image_ok_def by simp
  ultimately show ?thesis using t(1,3) unfolding image_ok_def laid_out_def sizes_def by (intro exI [of _ t]) (simp add: Let_def)
qed

theorem mkfs_builds_file_system_witness:
  "\<exists>t. mkfs [[109], [105], [95, 97]] (\<lambda>_. True) (\<lambda>_. Some [[1, 2], [3]]) (\<lambda>_. True) = Ok t
    \<and> unat (isize (dinode_at (img t) 2)) = 3 \<and> holds_bytes (img t) (dinode_at (img t) 2) 1 [1, 2, 3]"
proof -
  have c: "read_all [[1, 2], [3]] = [1, 2, 3 :: u8]" by (simp add: read_all_def)
  have "fits (\<lambda>_. Some [[1, 2], [3]]) [[95, 97]]" by (simp add: fits_def file_ok_def c need_def nblk_def)
  then obtain t where "mkfs [[109], [105], [95, 97]] (\<lambda>_. True) (\<lambda>_. Some [[1, 2], [3]]) (\<lambda>_. True) = Ok t"
    "\<forall>j < length [[95, 97 :: u8]]. let d = dinode_at (img t) (j + 2); c = contents (\<lambda>_. Some [[1, 2], [3]]) ([[95, 97 :: u8]] ! j) in
      itype d = T_FILE \<and> inlink d = 1 \<and> unat (isize d) = length c \<and> holds_bytes (img t) d (nblk (length c)) c"
    using mkfs_builds_file_system [of "\<lambda>_. True" "\<lambda>_. True" "[105]" "\<lambda>_. Some [[1, 2], [3]]" "[[95, 97]]" "[109]"] by blast
  then show ?thesis by (intro exI [of _ t]) (simp add: c Let_def nblk_def numeral_2_eq_2 numeral_3_eq_3)
qed

end
