(* ===== verification/Mkfs_Kernel.thy ===== *)
theory Mkfs_Kernel
  imports Mkfs
begin

text \<open>
  The two sides of the disk format: the file system code of the kernel, \<open>fs.c\<close>, on the image that
  \<open>mkfs.c\<close> writes. The layout of the image gives the invariants of the bitmap, of file content and
  of directories that the theorems on \<open>fs.c\<close> start from, so that the kernel looks up the files by
  name and reads their bytes; and where it does not, for a root directory whose entries fill its
  blocks exactly, what goes wrong.
\<close>

unbundle bit_operations_syntax

section \<open>The kernel on the image\<close>

text \<open>The kernel has the image for a disk, and an inode of it in entry \<open>ip\<close> of the inode cache.\<close>

definition on_image :: "img_st \<Rightarrow> 'z fs_st_scheme \<Rightarrow> bool" where
  "on_image t k \<longleftrightarrow> fs_ok k \<and> 2 \<le> spare k \<and> disksize k = 1000 \<and> sb k = mkfs_sb \<and> (\<forall>b < 1000. view k b = img t (unat b))"

lemma mkfs_image:
  assumes "mkfs (prog # fname # files) creat host io = Ok t" "\<forall>p < 1000. io p" "fits host files"
  shows "image_ok host files t"
proof -
  have "creat fname" using assms(1) by (auto simp: mkfs_def split: if_splits)
  then show ?thesis
    using mkfs_ok [where host = host and files = files and creat = creat and prog = prog and fname = fname, OF assms(2) _ assms(3)] assms(1) by auto
qed

lemma image_used: "image_ok host files t \<Longrightarrow> on_image t k \<Longrightarrow> c < 1000 \<Longrightarrow> used k c \<longleftrightarrow> c < unat (freeblock t)"
  by (simp add: used_def on_image_def bitmap_block_def mkfs_sb_eq image_ok_def)

lemma image_bitmap:
  assumes "image_ok host files t" "on_image t k"
  shows "bitmap_ok k"
proof -
  have e: "bitmap_block (sb k) c = 58" if "c < 1000" for c using assms(2) that by (simp add: on_image_def bitmap_block_def mkfs_sb_eq)
  have "unat (sb_size (sb k)) = 1000" "disksize k = 1000" using assms(2) by (simp_all add: on_image_def mkfs_sb_eq)
  moreover have "59 \<le> unat (freeblock t)" using assms(1) by (simp add: image_ok_def laid_out_def)
  ultimately show ?thesis using image_used [OF assms] e
    by (auto simp: bitmap_ok_def bitmap_fits_def bitmap_marked_def word_less_nat_alt unat_of_nat word_unat_eq_iff)
qed

lemma image_file:
  assumes o: "image_ok host files t" and k: "on_image t k" and i: "1 \<le> i" "i < length files + 2"
    and ip: "ip < length (inodes k)" "idev (inodes k ! ip) = 1" "addrs (inodes k ! ip) = addrs (dinode_at (img t) i)"
  defines "c \<equiv> mk_content host files i"
  shows "data_ok k ip (nblk (length c))" "p < BSIZE * nblk (length c) \<Longrightarrow> fbyte k ip p = (if p < length c then c ! p else 0)"
proof -
  let ?I = "dinode_at (img t)" let ?d = "?I i" let ?n = "nblk (length c)" and ?B = "unat (freeblock t)"
  have l: "laid_out (img t) ?I (sizes (mk_content host files)) (length files + 2) ?B" using o by (simp add: image_ok_def)
  have N: "sizes (mk_content host files) i = ?n" by (simp add: sizes_def c_def)
  note L = laid_outD [OF l i, unfolded N] and R = slot_range [OF l i, unfolded N] and J = block_inj [OF l i _ i, unfolded N]
  have w: "view k b = img t (unat b)" if "unat b < ?B" for b using k L(5) that by (simp add: on_image_def word_less_nat_alt)
  have own: "owned k b" if "59 \<le> unat b" "unat b < ?B" for b
  proof -
    have "used k (unat b)" using image_used [OF o k] that L(5) by simp
    moreover have "bitmap_block (sb k) e = 58" if "e < 1000" for e using k that by (simp add: on_image_def bitmap_block_def mkfs_sb_eq)
    moreover have "b \<noteq> 0" "b \<noteq> 58" using that(1) by auto
    ultimately show ?thesis using that L(5) k by (auto simp: owned_def on_image_def mkfs_sb_eq word_less_nat_alt)
  qed
  have ind: "unat (addrs ?d ! NDIRECT) = slot (img t) ?d MAXFILE" by (simp add: slot_def)
  have f: "unat (faddr k ip bn) = slot (img t) ?d bn" if "bn < ?n" for bn
  proof (cases "bn < NDIRECT")
    case False
    then have "MAXFILE \<in> in_use ?n" using that in_use_data(2) by simp
    then have "view k (addrs ?d ! NDIRECT) = img t (unat (addrs ?d ! NDIRECT))" using w R ind by simp
    then show ?thesis using False that L(2) by (simp add: faddr_def slot_def ip(3))
  qed (simp add: faddr_def slot_def ip(3))
  have fr: "59 \<le> unat (faddr k ip bn)" "unat (faddr k ip bn) < ?B" if "bn < ?n" for bn using R [OF in_use_data(1) [OF that]] f [OF that] by simp_all
  have "inj_on (faddr k ip) {..<?n}"
  proof (rule inj_onI)
    fix a b assume ab: "a \<in> {..<?n}" "b \<in> {..<?n}" "faddr k ip a = faddr k ip b"
    then have "slot (img t) ?d a = slot (img t) ?d b" using f [of a] f [of b] by simp
    then show "a = b" using J [OF in_use_data(1) in_use_data(1)] ab(1,2) by blast
  qed
  moreover have "owned k (addrs ?d ! NDIRECT) \<and> addrs ?d ! NDIRECT \<notin> faddr k ip ` {..<?n}" if "NDIRECT < ?n"
  proof -
    have m: "MAXFILE \<in> in_use ?n" using that in_use_data(2) by simp
    have "addrs ?d ! NDIRECT \<noteq> faddr k ip bn" if "bn < ?n" for bn
    proof
      assume "addrs ?d ! NDIRECT = faddr k ip bn"
      then have "slot (img t) ?d MAXFILE = slot (img t) ?d bn" using f [OF that] ind by metis
      then show False using J [OF m in_use_data(1) [OF that]] that L(2) by simp
    qed
    then show ?thesis using own R [OF m] ind by auto
  qed
  moreover have "addrs ?d ! bn = 0" if "?n \<le> bn" "bn < NDIRECT" for bn using L(3) that by (simp add: unmapped_def)
  ultimately show "data_ok k ip ?n" using own fr L(1,2) ip by (simp add: data_ok_def)
  show "fbyte k ip p = (if p < length c then c ! p else 0)" if p: "p < BSIZE * ?n"
  proof -
    have bn: "p div BSIZE < ?n" using p by (simp add: div_less_iff_less_mult mult.commute)
    have "holds_bytes (img t) ?d ?n c" using o i by (simp add: image_ok_def c_def)
    then have "img t (slot (img t) ?d (p div BSIZE)) (p mod BSIZE) = (if p < length c then c ! p else 0)" using p unfolding holds_bytes_def by blast
    then show ?thesis using w [OF fr(2) [OF bn]] f [OF bn] by (simp add: fbyte_def)
  qed
qed

text \<open>An entry of the inode cache taken for inode \<open>i\<close> and not filled yet, as \<open>iget\<close> leaves it.\<close>

definition fresh_entry :: "nat \<Rightarrow> nat \<Rightarrow> 'z fs_st_scheme \<Rightarrow> bool" where
  "fresh_entry ip i k \<longleftrightarrow> ip < length (inodes k) \<and> idev (inodes k ! ip) = 1 \<and> inum (inodes k ! ip) = of_nat i \<and> 1 \<le> iref (inodes k ! ip)
     \<and> \<not> ivalid (inodes k ! ip) \<and> \<not> slocked (sleeplocks k (SL_inode ip))"

lemma image_ilock:
  assumes o: "image_ok host files t" "length files \<le> 198" and k: "on_image t k" and i: "1 \<le> i" "i < length files + 2" and ip: "fresh_entry ip i k"
  shows "\<exists>u. ilock (Some ip) k = Ok u \<and> on_image t u \<and> ip < length (inodes u) \<and> idev (inodes u ! ip) = 1
    \<and> itype (inodes u ! ip) = itype (dinode_at (img t) i) \<and> isize (inodes u ! ip) = isize (dinode_at (img t) i)
    \<and> addrs (inodes u ! ip) = addrs (dinode_at (img t) i) \<and> length (inodes u) = length (inodes k) \<and> (\<forall>e. e \<noteq> ip \<longrightarrow> inodes u ! e = inodes k ! e)"
proof -
  let ?e = "disk_inode k (inum (inodes k ! ip)) (inodes k ! ip)"
  have i208: "i < 208" using i o(2) by simp
  have ii: "inum (inodes k ! ip) = of_nat i" and lp: "ip < length (inodes k)" "idev (inodes k ! ip) = 1" using ip by (simp_all add: fresh_entry_def)
  have b: "unat (IBLOCK (of_nat i) (sb k)) = 32 + i div 8" "dinode_off (of_nat i) = 64 * (i mod 8)"
    using iblock_at [OF i208] k by (simp_all add: on_image_def)
  then have lt: "IBLOCK (of_nat i) (sb k) < 1000" using table_block [OF i208] by (simp add: word_less_nat_alt)
  have "?e = get_dinode (img t (32 + i div 8)) (64 * (i mod 8)) (inodes k ! ip)"
    using k lt b unfolding ii disk_inode_def on_image_def by simp
  then have e: "itype ?e = itype (dinode_at (img t) i)" "isize ?e = isize (dinode_at (img t) i)" "addrs ?e = addrs (dinode_at (img t) i)"
    "idev ?e = 1" using lp(2) by (simp_all add: dinode_at_def get_dinode_def)
  have "itype (dinode_at (img t) i) \<noteq> 0" using o(1) i by (simp add: image_ok_def)
  then obtain u where u: "ilock (Some ip) k = Ok u" "inodes u = (inodes k)[ip := ?e\<lparr>ivalid := True\<rparr>]" "fs_ok u" "view u = view k"
    "spare u = spare k" "sb u = sb k" "disksize u = disksize k"
    using ilock_ok [of k ip] k ip lt e(1) unfolding fresh_entry_def on_image_def by (auto split: if_splits)
  then have "on_image t u" using k by (simp add: on_image_def)
  then show ?thesis using u(1,2) lp(1) e by (intro exI [of _ u]) simp
qed

text \<open>
  C6. The kernel reads back what \<open>mkfs\<close> wrote. When \<open>mkfs\<close> has run as in the previous property and
  the kernel has the image for a disk, the bitmap satisfies what block allocation relies on;
  and for a cache entry taken for the inode number of file \<open>j\<close>, \<open>ilock\<close> followed by \<open>readi\<close> of the
  whole file, or of any part of it, returns exactly those bytes of file \<open>j\<close> of the host.
\<close>

theorem kernel_reads_mkfs_files:
  assumes m: "mkfs (prog # fname # files) creat host io = Ok t" "\<forall>p < 1000. io p" "fits host files"
    and k: "on_image t k" and j: "j < length files" "c = contents host (files ! j)" and ip: "fresh_entry ip (j + 2) k"
    and r: "off + l \<le> length c"
  shows "bitmap_ok k \<and> (\<exists>u v. ilock (Some ip) k = Ok u \<and> isize (inodes u ! ip) = of_nat (length c)
    \<and> readi ip (of_nat off) (of_nat l) u = Ok (int l, take l (drop off c), v))"
proof -
  note o = mkfs_image [OF m(1-3)]
  have n: "length files \<le> 198" "length c \<le> MAXFILE * BSIZE" using m(3) j by (auto simp: fits_def file_ok_def)
  have i: "1 \<le> j + 2" "j + 2 < length files + 2" using j(1) by simp_all
  have c: "mk_content host files (j + 2) = c" by (simp add: mk_content_def j(2))
  have d: "itype (dinode_at (img t) (j + 2)) = T_FILE" "unat (isize (dinode_at (img t) (j + 2))) = length c"
    using o j(1) c by (simp_all add: image_ok_def)
  obtain u where u: "ilock (Some ip) k = Ok u" "on_image t u" "ip < length (inodes u)" "idev (inodes u ! ip) = 1"
    "itype (inodes u ! ip) = T_FILE" "isize (inodes u ! ip) = isize (dinode_at (img t) (j + 2))" "addrs (inodes u ! ip) = addrs (dinode_at (img t) (j + 2))"
    using image_ilock [OF o n(1) k i ip] d(1) by auto
  note F = image_file [OF o u(2) i u(3,4,7), unfolded c]
  have s: "fs_ok u" "0 < spare u" using u(2) by (simp_all add: on_image_def)
  have z: "unat (of_nat off :: u32) = off" "l < 2 ^ 31" "length c \<le> BSIZE * nblk (length c)"
    using r n(2) by (simp_all add: unat_of_nat nblk_def)
  obtain v where v: "readi ip (of_nat off) (of_nat l) u = Ok (int l, map (fbyte u ip) [off..<off + l], v)"
    using readi_ok [OF s F(1), of "of_nat off" l] u(5,6) d(2) z r by (auto simp: mult.commute)
  have "map (fbyte u ip) [off..<off + l] = take l (drop off c)"
    using F(2) r z(3) by (intro nth_equalityI) (simp_all)
  moreover have "isize (inodes u ! ip) = of_nat (length c)" using u(6) by (simp flip: d(2))
  ultimately show ?thesis using u(1) v image_bitmap [OF o k] by auto
qed

text \<open>A kernel that has just started an operation on the image, with a cache entry for inode \<open>i\<close>.\<close>

definition boot0 :: "nat \<Rightarrow> img_st \<Rightarrow> fs_st" where
  "boot0 i t = sl_upd (SL_inode 0) False 0 (log_st.extend (bio_st.extend (bio0\<lparr>disk := (\<lambda>b. img t (unat b))\<rparr>)
       \<lparr>log_start = 2, log_size = 30, outstanding = 1, committing = False, log_dev = 1, lh_n = 0, lh_block = replicate 30 0\<rparr>)
     \<lparr>sb = mkfs_sb, inodes = din0\<lparr>idev := 1, inum := of_nat i, iref := 1\<rparr> # replicate 49 din0\<rparr>)"

lemma boot0_ok: "on_image t (boot0 i t)" "fresh_entry 0 i (boot0 i t)"
proof -
  let ?k = "log_st.extend (bio_st.extend (bio0\<lparr>disk := (\<lambda>b. img t (unat b))\<rparr>)
       \<lparr>log_start = 2, log_size = 30, outstanding = 1, committing = False, log_dev = 1, lh_n = 0, lh_block = replicate 30 0\<rparr>)
     \<lparr>sb = mkfs_sb, inodes = din0\<lparr>idev := 1, inum := of_nat i, iref := 1\<rparr> # replicate 49 din0\<rparr>"
  have b: "bufs ?k = bufs bio0" "disk ?k = (\<lambda>b. img t (unat b))" "disksize ?k = 1000" "lh_n ?k = 0" "lh_block ?k = replicate 30 0"
    "log_size ?k = 30" "outstanding ?k = 1" "sb ?k = mkfs_sb"
    by (simp_all add: log_st.defs bio_st.defs bio0_ok(2))
  have c: "\<not> caches ?k i a" for i a using bio0_bufs [of i] by (simp add: caches_def b(1))
  have p: "pinned ?k = {}" using bio0_bufs by (auto simp: pinned_def b(1))
  have "bio_ok (rev [0..<NBUF]) {} ?k"
    using bio0_ok(1) bio0_bufs unfolding bio_ok_def caches_def by (simp add: b log_st.defs bio_st.defs cpu_ok_def cur_def lock_free_def)
  then have "fs_ok ?k" using p b by (auto simp: fs_ok_def cache_inv_def tx_ok_def)
  moreover have "view ?k a = img t (unat a)" for a using view_uncached [of ?k a] c b(2) by simp
  moreover have "spare ?k = 29" by (simp add: spare_def b)
  ultimately show "on_image t (boot0 i t)" using b unfolding on_image_def boot0_def by simp
  show "fresh_entry 0 i (boot0 i t)" by (simp add: fresh_entry_def boot0_def sl_upd_def log_st.defs din0_def)
qed

theorem kernel_reads_mkfs_files_witness:
  "\<exists>t u v. mkfs [[109], [105], [95, 97]] (\<lambda>_. True) (\<lambda>_. Some [[1, 2], [3]]) (\<lambda>_. True) = Ok t
    \<and> ilock (Some 0) (boot0 2 t) = Ok u \<and> readi 0 1 2 u = Ok (2, [2, 3], v)"
proof -
  let ?h = "\<lambda>_ :: u8 list. Some [[1, 2], [3 :: u8]]" and ?fs = "[[95, 97]] :: u8 list list"
  have c: "contents ?h (?fs ! 0) = [1, 2, 3]" by (simp add: read_all_def)
  have f: "fits ?h ?fs" using c by (simp add: fits_def file_ok_def need_def nblk_def)
  have io: "\<forall>p < 1000. (\<lambda>_. True) (p :: nat)" by simp
  obtain t where t: "mkfs ([109] # [105] # ?fs) (\<lambda>_. True) ?h (\<lambda>_. True) = Ok t"
    using mkfs_ok [where host = ?h and files = ?fs and creat = "\<lambda>_. True" and fname = "[105]" and prog = "[109]", OF io _ f] by auto
  have e: "fresh_entry 0 (0 + 2) (boot0 2 t)" using boot0_ok(2) [of 2 t] by (simp only: add_0)
  have r: "0 < length ?fs" "1 + 2 \<le> length [1, 2, 3 :: u8]" by simp_all
  have x: "\<exists>u v. ilock (Some 0) (boot0 2 t) = Ok u \<and> isize (inodes u ! 0) = of_nat (length [1, 2, 3 :: u8])
    \<and> readi 0 (of_nat 1) (of_nat 2) u = Ok (int 2, take 2 (drop 1 [1, 2, 3]), v)"
    using kernel_reads_mkfs_files [OF t io f boot0_ok(1) r(1) c [symmetric] e r(2)] by blast
  then show ?thesis using t by auto
qed

section \<open>Looking up the files by name\<close>

text \<open>The entries of the root directory as a list.\<close>

definition root_list :: "u8 list list \<Rightarrow> u8 list list" where
  "root_list files = dirent_bytes [of_char (CHR ''.'')] 1 # dirent_bytes [of_char (CHR ''.''), of_char (CHR ''.'')] 1
     # map (\<lambda>j. dirent_bytes (skip_underscore (files ! j)) (of_nat (j + 2))) [0..<length files]"

lemma root_list_length: "length (root_list files) = length files + 2" "e \<in> set (root_list files) \<Longrightarrow> length e = 16"
  by (auto simp: root_list_def dirent_bytes_length)

lemma root_entries_concat:
  "root_entries F files = concat (map (\<lambda>j. dirent_bytes (skip_underscore (files ! j)) (of_nat (j + F))) [0..<length files])"
proof (induction files arbitrary: F)
  case (Cons name files)
  have "[0..<length (name # files)] = 0 # map Suc [0..<length files]" by (simp add: upt_conv_Cons map_Suc_upt del: upt_Suc)
  then show ?case using Cons by (simp add: comp_def ac_simps)
qed simp

lemma root_list_concat: "concat (root_list files) = dots @ root_entries 2 files"
  by (simp add: root_list_def dots_def root_entries_concat)

lemma concat_nth: "\<forall>e \<in> set es. length e = l \<Longrightarrow> i < length es \<Longrightarrow> x < l \<Longrightarrow> concat es ! (l * i + x) = es ! i ! x"
proof (induction es arbitrary: i)
  case (Cons e es)
  then show ?case by (cases i) (simp_all add: nth_append)
qed simp

text \<open>The names written into the directory are different from each other and from those of the first two entries.\<close>

definition names_ok :: "u8 list list \<Rightarrow> bool" where
  "names_ok files \<longleftrightarrow> (\<forall>name \<in> set files. 0 \<notin> set (skip_underscore name))
     \<and> distinct ([of_char (CHR ''.'')] # [of_char (CHR ''.''), of_char (CHR ''.'')] # map (\<lambda>name. take DIRSIZ (skip_underscore name)) files)"

lemma root_list_find:
  assumes f: "names_ok files" "length files \<le> 198" and j: "j < length files"
  shows "find_idx (names (skip_underscore (files ! j))) (root_list files @ zs) = Some (j + 2)"
    "de_inum ((root_list files @ zs) ! (j + 2)) = ucast (of_nat (j + 2) :: u32)"
proof -
  let ?nm = "\<lambda>j. skip_underscore (files ! j)" let ?dot = "of_char (CHR ''.'') :: u8"
  have z: "0 \<notin> set (?nm i)" if "i < length files" for i using f(1) that by (simp add: names_ok_def)
  have d: "0 \<notin> set [?dot]" "0 \<notin> set [?dot, ?dot]" by simp_all
  have rl: "root_list files ! (i + 2) = dirent_bytes (?nm i) (of_nat (i + 2))" if "i < length files" for i using that by (simp add: root_list_def)
  have w: "0 < (of_nat (i + 2) :: u32)" "(of_nat (i + 2) :: u32) < 65536" if "i < length files" for i
  proof -
    have "unat (of_nat (i + 2) :: u32) = i + 2" using len_u32 [of "i + 2"] that f(2) by (simp del: of_nat_add)
    then show "0 < (of_nat (i + 2) :: u32)" "(of_nat (i + 2) :: u32) < 65536" using that f(2) by (simp_all add: word_less_nat_alt del: of_nat_add)
  qed
  have N: "names (?nm j) (root_list files ! (i + 2)) \<longleftrightarrow> take DIRSIZ (?nm j) = take DIRSIZ (?nm i)" if "i < length files" for i
    unfolding rl [OF that] by (rule names_new [OF w [OF that] z [OF that] z [OF j]])
  have N0: "names (?nm j) (root_list files ! 0) \<longleftrightarrow> take DIRSIZ (?nm j) = [?dot]" "names (?nm j) (root_list files ! 1) \<longleftrightarrow> take DIRSIZ (?nm j) = [?dot, ?dot]"
    using names_new [of 1 "[?dot]", OF _ _ d(1) z [OF j]] names_new [of 1 "[?dot, ?dot]", OF _ _ d(2) z [OF j]] by (simp_all add: root_list_def)
  let ?g = "\<lambda>name. take DIRSIZ (skip_underscore name)"
  have dd: "[?dot] \<notin> set (map ?g files)" "[?dot, ?dot] \<notin> set (map ?g files)" "distinct (map ?g files)"
    using f(1) unfolding names_ok_def by (simp_all only: distinct.simps list.set(2) insert_iff de_Morgan_disj simp_thms)
  have "?g (files ! j) \<in> set (map ?g files)" using j by simp
  then have "?g (files ! j) \<noteq> [?dot]" "?g (files ! j) \<noteq> [?dot, ?dot]" using dd(1,2) by metis+
  moreover have "?g (files ! j) \<noteq> ?g (files ! i)" if "i < length files" "i \<noteq> j" for i
    using nth_eq_iff_index_eq [OF dd(3), of j i] that j by simp
  ultimately have dist: "take DIRSIZ (?nm j) \<noteq> [?dot]" "take DIRSIZ (?nm j) \<noteq> [?dot, ?dot]"
    "i < length files \<Longrightarrow> i \<noteq> j \<Longrightarrow> take DIRSIZ (?nm j) \<noteq> take DIRSIZ (?nm i)" for i
    by simp_all
  have before: "\<not> names (?nm j) ((root_list files @ zs) ! i)" if i: "i < j + 2" for i
  proof -
    consider "i = 0" | "i = 1" | k where "i = k + 2" "k < j" using i by (metis One_nat_def Suc_1 add.commute add_Suc_right add_less_cancel_right less_Suc0 not0_implies_Suc plus_1_eq_Suc)
    then show ?thesis
    proof cases
      case 3
      then show ?thesis using N [of k] dist(3) [of k] j root_list_length(1) [of files] by (auto simp: nth_append)
    qed (use N0 dist(1,2) root_list_length(1) [of files] in \<open>auto simp: nth_append\<close>)
  qed
  have "names (?nm j) ((root_list files @ zs) ! (j + 2))" using N [OF j] j root_list_length(1) [of files] by (simp add: nth_append)
  then show "find_idx (names (?nm j)) (root_list files @ zs) = Some (j + 2)"
    using before j root_list_length(1) [of files] by (intro find_idx_SomeI) auto
  show "de_inum ((root_list files @ zs) ! (j + 2)) = ucast (of_nat (j + 2) :: u32)"
    using rl [OF j] j root_list_length(1) [of files] by (simp add: nth_append de_inum_bytes del: of_nat_add)
qed

text \<open>What the kernel sees of the root directory, when its last block is not full.\<close>

lemma image_root_dir:
  assumes o: "image_ok host files t" "length files \<le> 198" and k: "on_image t k"
    and ip: "dp < length (inodes k)" "idev (inodes k ! dp) = 1" "addrs (inodes k ! dp) = addrs (dinode_at (img t) 1)"
      "itype (inodes k ! dp) = T_DIR" "isize (inodes k ! dp) = isize (dinode_at (img t) 1)"
    and r: "(length files + 2) mod 32 \<noteq> 0"
  shows "dir_ok k dp (nblk (32 + 16 * length files))" "\<exists>zs. dir_list k dp = root_list files @ zs"
proof -
  let ?l = "32 + 16 * length files" and ?c = "mk_content host files 1"
  have c: "?c = concat (root_list files)" "length ?c = ?l" by (simp_all add: mk_content_def root_list_concat)
  have i: "1 \<le> (1 :: nat)" "1 < length files + 2" by simp_all
  note F = image_file [OF o(1) k i ip(1-3), unfolded c(2)]
  have "unat (isize (dinode_at (img t) 1)) = root_size ?l" using o(1) i(2) c(2) by (simp add: image_ok_def)
  then have z: "unat (isize (inodes k ! dp)) = root_size ?l" using ip(5) by simp
  have "?l mod BSIZE = 16 * ((length files + 2) mod 32)" using mult_mod_right [of 16 "length files + 2" 32] by (simp add: algebra_simps)
  then have m: "?l mod BSIZE \<noteq> 0" using r by simp
  have e: "root_size ?l = nblk ?l * BSIZE"
  proof -
    define p q where "p = ?l div BSIZE" "q = ?l mod BSIZE"
    then have "?l = BSIZE * p + q" "q < BSIZE" "0 < q" using m by simp_all
    then have "nblk ?l = Suc p" unfolding nblk_def p_q_def(1) [symmetric] by (intro div_nat_eqI) simp_all
    then show ?thesis by (simp add: root_size_def p_q_def)
  qed
  show "dir_ok k dp (nblk ?l)" using F(1) k ip(4) z e by (simp add: dir_ok_def on_image_def root_size_def dvd_mult)
  have cnt: "?l \<le> root_size ?l" by (simp add: e nblk_def)
  have ent: "dirent k dp j = root_list files ! j" if j: "j < length files + 2" for j
  proof (rule nth_equalityI)
    have lj: "length (root_list files ! j) = 16" by (rule root_list_length(2) [OF nth_mem]) (use j root_list_length(1) [of files] in simp)
    then show "length (dirent k dp j) = length (root_list files ! j)" by (simp add: dirent_def)
    fix x assume "x < length (dirent k dp j)"
    then have x: "x < 16" by (simp add: dirent_def)
    have "16 * j + x < ?l" using j x by simp
    then have "fbyte k dp (16 * j + x) = concat (root_list files) ! (16 * j + x)" using F(2) [of "16 * j + x"] cnt e c by (simp add: mult.commute)
    also have "\<dots> = root_list files ! j ! x" using j x root_list_length by (intro concat_nth) simp_all
    finally show "dirent k dp j ! x = root_list files ! j ! x" using x by (simp add: dirent_def)
  qed
  let ?N = "unat (isize (inodes k ! dp)) div 16"
  have N: "length files + 2 \<le> ?N" using cnt z by simp
  then have "[0..<?N] = [0..<length files + 2] @ [length files + 2..<?N]" by (metis upt_add_eq_append le_add_diff_inverse zero_le)
  moreover have "map (dirent k dp) [0..<length files + 2] = root_list files"
    using ent root_list_length(1) by (intro nth_equalityI) (simp_all del: upt_Suc)
  ultimately have "dir_list k dp = root_list files @ map (dirent k dp) [length files + 2..<?N]" by (simp add: dir_list_def)
  then show "\<exists>zs. dir_list k dp = root_list files @ zs" by blast
qed

text \<open>
  C7. The kernel finds the files of the image by name. When \<open>mkfs\<close> has run, the names differ in
  their first \<open>DIRSIZ\<close> bytes, and the entries do not fill the blocks of the root directory, then
  \<open>ilock\<close> of the root inode and \<open>dirlookup\<close> of the name of file \<open>j\<close>, without a leading underscore,
  return its entry and a cache entry for inode \<open>j + 2\<close>.
\<close>

theorem kernel_finds_mkfs_files:
  assumes m: "mkfs (prog # fname # files) creat host io = Ok t" "\<forall>p < 1000. io p" "fits host files" "names_ok files"
    and r: "(length files + 2) mod 32 \<noteq> 0"
    and k: "on_image t k" "fresh_entry dp 1 k" "e < length (inodes k)" "e \<noteq> dp" "iref (inodes k ! e) = 0" and j: "j < length files"
  shows "\<exists>u i v. ilock (Some dp) k = Ok u \<and> dirlookup dp (skip_underscore (files ! j)) u = Ok (Some (i, of_nat (16 * (j + 2))), v)
    \<and> idev (inodes v ! i) = 1 \<and> inum (inodes v ! i) = of_nat (j + 2) \<and> 0 < iref (inodes v ! i)"
proof -
  note o = mkfs_image [OF m(1-3)]
  have n: "length files \<le> 198" using m(3) by (simp add: fits_def)
  have i1: "1 \<le> (1 :: nat)" "1 < length files + 2" by simp_all
  have dir: "itype (dinode_at (img t) 1) = T_DIR" using o i1 by (simp add: image_ok_def)
  obtain u where u: "ilock (Some dp) k = Ok u" "on_image t u" "dp < length (inodes u)" "idev (inodes u ! dp) = 1"
    "itype (inodes u ! dp) = T_DIR" "isize (inodes u ! dp) = isize (dinode_at (img t) 1)" "addrs (inodes u ! dp) = addrs (dinode_at (img t) 1)"
    "length (inodes u) = length (inodes k)" "\<forall>e. e \<noteq> dp \<longrightarrow> inodes u ! e = inodes k ! e"
    using image_ilock [OF o n k(1) i1 k(2)] dir by auto
  note D = image_root_dir [OF o n u(2,3,4,7,5,6) r]
  obtain zs where zs: "dir_list u dp = root_list files @ zs" using D(2) by blast
  have "inodes u ! e \<in> set (inodes u)" using u(8) k(3) by (intro nth_mem) simp
  moreover have "iref (inodes u ! e) = 0" using u(9) k(4,5) by simp
  ultimately have c: "cacheable (of_nat (j + 2)) (inodes u)" unfolding cacheable_def by blast
  have "(of_nat (j + 2) :: u32) < 65536"
    using len_u32 [of "j + 2"] j n by (simp add: word_less_nat_alt del: of_nat_add)
  then have uc: "ucast (ucast (of_nat (j + 2) :: u32) :: 16 word) = (of_nat (j + 2) :: u32)" by (rule ino_narrow)
  note L = root_list_find [OF m(4) n j, of zs, folded zs]
  have "dir_map (dir_list u dp) (skip_underscore (files ! j)) = Some (of_nat (j + 2))"
    using L uc by (simp only: dir_map_def dir_find_def option.map)
  then show ?thesis using dirlookup_found [OF D(1) _ c] u(1) L(1) by (fastforce simp: dir_find_def)
qed

theorem kernel_finds_mkfs_files_witness:
  "\<exists>t u i v. mkfs [[109], [105], [95, 97]] (\<lambda>_. True) (\<lambda>_. Some [[1, 2], [3]]) (\<lambda>_. True) = Ok t
    \<and> ilock (Some 0) (boot0 1 t) = Ok u \<and> dirlookup 0 [97] u = Ok (Some (i, 32), v) \<and> inum (inodes v ! i) = 2"
proof -
  let ?h = "\<lambda>_ :: u8 list. Some [[1, 2], [3 :: u8]]" and ?fs = "[[95, 97]] :: u8 list list"
  have f: "fits ?h ?fs" by (simp add: fits_def file_ok_def need_def nblk_def read_all_def)
  have sk: "skip_underscore (?fs ! 0) = [97]" by (simp add: skip_underscore_def)
  have nm: "names_ok ?fs" by (simp add: names_ok_def skip_underscore_def)
  have io: "\<forall>p < 1000. (\<lambda>_. True) (p :: nat)" by simp
  obtain t where t: "mkfs ([109] # [105] # ?fs) (\<lambda>_. True) ?h (\<lambda>_. True) = Ok t"
    using mkfs_ok [where host = ?h and files = ?fs and creat = "\<lambda>_. True" and fname = "[105]" and prog = "[109]", OF io _ f] by auto
  have e: "1 < length (inodes (boot0 1 t))" "(1 :: nat) \<noteq> 0" "iref (inodes (boot0 1 t) ! 1) = 0" "(length ?fs + 2) mod 32 \<noteq> 0" "0 < length ?fs"
    by (simp_all add: boot0_def log_st.defs din0_def)
  have "\<exists>u i v. ilock (Some 0) (boot0 1 t) = Ok u \<and> dirlookup 0 [97] u = Ok (Some (i, of_nat (16 * (0 + 2))), v)
    \<and> idev (inodes v ! i) = 1 \<and> inum (inodes v ! i) = of_nat (0 + 2) \<and> 0 < iref (inodes v ! i)"
    using kernel_finds_mkfs_files [OF t io f nm e(4) boot0_ok(1) boot0_ok(2) e(1-3,5)] unfolding sk by blast
  then obtain u i v where u: "ilock (Some 0) (boot0 1 t) = Ok u" "dirlookup 0 [97] u = Ok (Some (i, of_nat (16 * (0 + 2))), v)"
    "inum (inodes v ! i) = of_nat (0 + 2)" by blast
  show ?thesis using t u by (intro exI [of _ t] exI [of _ u] exI [of _ i] exI [of _ v]) simp
qed

text \<open>The image uses as many blocks as its files need.\<close>

lemma card_in_use: "n \<le> MAXFILE \<Longrightarrow> finite (in_use n) \<and> card (in_use n) = need n"
  by (simp add: in_use_def need_def)

lemma image_blocks:
  assumes o: "image_ok host files t"
  shows "unat (freeblock t) = 59 + (\<Sum>i \<in> {1..<length files + 2}. need (nblk (length (mk_content host files i))))"
proof -
  let ?N = "sizes (mk_content host files)" and ?F = "length files + 2"
  have l: "laid_out (img t) (dinode_at (img t)) ?N ?F (unat (freeblock t))" using o by (simp add: image_ok_def)
  then have "card (slots ?N ?F) = card {59..<unat (freeblock t)}" unfolding laid_out_def by (blast dest: bij_betw_same_card)
  moreover have "slots ?N ?F = (SIGMA i:{1..<?F}. in_use (?N i))" by (auto simp: slots_def)
  moreover have N: "?N i \<le> MAXFILE" if "i \<in> {1..<?F}" for i using laid_outD(2) [OF l, of i] that by simp
  have "card (SIGMA i:{1..<?F}. in_use (?N i)) = (\<Sum>i \<in> {1..<?F}. card (in_use (?N i)))"
    by (rule card_SigmaI) (use card_in_use N in blast)+
  moreover have "\<dots> = (\<Sum>i \<in> {1..<?F}. need (?N i))" by (rule sum.cong [OF refl]) (use card_in_use N in blast)
  ultimately show ?thesis using laid_outD(4) [OF l, of 1] by (simp add: sizes_def)
qed

text \<open>
  C32. The size that \<open>mkfs\<close> gives the root directory can be a block too large. When the entries fill
  the blocks of the root directory exactly, its size covers one more block, which it does not
  have: the kernel, reading the directory up to its size, asks \<open>bmap\<close> for that block, and
  \<open>bmap\<close> takes a free block of the disk for it.
\<close>

theorem root_size_past_its_blocks:
  assumes m: "mkfs (prog # fname # files) creat host io = Ok t" "\<forall>p < 1000. io p" "fits host files"
    and r: "(length files + 2) mod 32 = 0" and n: "n = nblk (32 + 16 * length files)" and B: "unat (freeblock t) < 1000"
    and k: "on_image t k" "fresh_entry dp 1 k"
  shows "\<exists>u c v. ilock (Some dp) k = Ok u \<and> unat (isize (inodes u ! dp)) = (n + 1) * BSIZE
    \<and> bmap dp n u = Ok (of_nat c, v) \<and> c < 1000 \<and> \<not> used u c \<and> used v c"
proof -
  let ?l = "32 + 16 * length files"
  note o = mkfs_image [OF m(1-3)]
  have l: "length files \<le> 198" using m(3) by (simp add: fits_def)
  have i1: "1 \<le> (1 :: nat)" "1 < length files + 2" by simp_all
  obtain u where u: "ilock (Some dp) k = Ok u" "on_image t u" "dp < length (inodes u)" "idev (inodes u ! dp) = 1"
    "isize (inodes u ! dp) = isize (dinode_at (img t) 1)" "addrs (inodes u ! dp) = addrs (dinode_at (img t) 1)"
    using image_ilock [OF o l k(1) i1 k(2)] by auto
  have c: "length (mk_content host files 1) = ?l" by (simp add: mk_content_def)
  have d: "data_ok u dp n" using image_file(1) [OF o u(2) i1 u(3,4,6)] by (simp add: c n del: One_nat_def)
  have "?l mod BSIZE = 16 * ((length files + 2) mod 32)" using mult_mod_right [of 16 "length files + 2" 32] by (simp add: algebra_simps)
  then have "?l mod BSIZE = 0" using r by simp
  then obtain q where q: "?l = BSIZE * q" using div_mult_mod_eq [of ?l BSIZE] by (metis add.right_neutral mult.commute)
  have nq: "n = q" unfolding n nblk_def q by (intro div_nat_eqI) simp_all
  have z: "unat (isize (dinode_at (img t) 1)) = (n + 1) * BSIZE" using o i1(2) c by (simp add: image_ok_def root_size_def q nq)
  have "n < NDIRECT" using q nq l by simp
  moreover have "\<not> used u (unat (freeblock t))" using image_used [OF o u(2) B] by simp
  then have "0 < free_blocks u" using B u(2) by (auto simp: free_blocks_def card_gt_0_iff on_image_def mkfs_sb_eq)
  moreover have s: "fs_ok u" "2 \<le> spare u" "unat (sb_size (sb u)) = 1000" using u(2) by (simp_all add: on_image_def mkfs_sb_eq)
  ultimately obtain c v where "bmap dp n u = Ok (of_nat c, v)" "c < 1000" "\<not> used u c" "\<forall>e < 1000. used v e \<longleftrightarrow> e = c \<or> used u e"
    using bmap_new [OF s(1,2) image_bitmap [OF o u(2)] d] unfolding takes_def s(3) by blast
  then show ?thesis using u(1,5) z by (intro exI [of _ u] exI [of _ c] exI [of _ v]) simp
qed

theorem root_size_past_its_blocks_witness:
  "\<exists>t u c v. mkfs ([109] # [105] # replicate 30 [97]) (\<lambda>_. True) (\<lambda>_. Some []) (\<lambda>_. True) = Ok t
    \<and> ilock (Some 0) (boot0 1 t) = Ok u \<and> unat (isize (inodes u ! 0)) = 1024 \<and> bmap 0 1 u = Ok (c, v)"
proof -
  let ?h = "\<lambda>_ :: u8 list. Some ([] :: u8 list list)" and ?fs = "replicate 30 [97] :: u8 list list"
  have f: "fits ?h ?fs" by (simp add: fits_def file_ok_def need_def nblk_def read_all_def sum_list_replicate)
  have io: "\<forall>p < 1000. (\<lambda>_. True) (p :: nat)" by simp
  obtain t where t: "mkfs ([109] # [105] # ?fs) (\<lambda>_. True) ?h (\<lambda>_. True) = Ok t" and o: "image_ok ?h ?fs t"
    using mkfs_ok [where host = ?h and files = ?fs and creat = "\<lambda>_. True" and fname = "[105]" and prog = "[109]", OF io _ f] by auto
  have h: "(length ?fs + 2) mod 32 = 0" "1 = nblk (32 + 16 * length ?fs)" by (simp_all add: nblk_def)
  have B: "unat (freeblock t) < 1000" using image_blocks [OF o] by (simp add: mk_content_def need_def nblk_def read_all_def sum.atLeast_Suc_lessThan)
  show ?thesis
    using root_size_past_its_blocks [OF t io f h B boot0_ok] t by auto
qed

end
