(* ===== verification/User_Text.thy ===== *)
theory User_Text
  imports Main
begin

text \<open>
  User programs that work on text: \<open>grep\<close> (\<open>xv6-public-master/grep.c\<close>), \<open>wc\<close> (\<open>wc.c\<close>) and the string
  functions of \<open>ulib.c\<close> they use. A C string is the list of its characters before the null
  character. What the calls of \<open>read\<close> return is a list with one entry per call; an entry is
  never longer than what the call asks for, and an empty entry is end of file or an error.
\<close>

abbreviation newline :: char where "newline \<equiv> CHR 0x0A"
abbreviation nul :: char where "nul \<equiv> CHR 0x00"

section \<open>Operations\<close>

text \<open>\<open>strchr\<close> returns the offset of the character, and does not look past a null character.\<close>

fun strchr :: "string \<Rightarrow> char \<Rightarrow> nat option" where
  "strchr [] c = None"
| "strchr (x # xs) c = (if x = nul then None else if x = c then Some 0 else map_option Suc (strchr xs c))"

fun matchhere :: "string \<Rightarrow> string \<Rightarrow> bool"
  and matchstar :: "char \<Rightarrow> string \<Rightarrow> string \<Rightarrow> bool" where
  "matchhere [] str = True"
| "matchhere (c # re) str =
     (if re \<noteq> [] \<and> hd re = CHR ''*'' then matchstar c (tl re) str
      else if c = CHR ''$'' \<and> re = [] then str = []
      else case str of [] \<Rightarrow> False | t # ts \<Rightarrow> (c = CHR ''.'' \<or> c = t) \<and> matchhere re ts)"
| "matchstar c re str =
     (matchhere re str \<or> (case str of [] \<Rightarrow> False | t # ts \<Rightarrow> (t = c \<or> c = CHR ''.'') \<and> matchstar c re ts))"

declare matchhere.simps [simp del] matchstar.simps [simp del]

primrec match_search :: "string \<Rightarrow> string \<Rightarrow> bool" where
  "match_search re [] = matchhere re []"
| "match_search re (t # ts) = (matchhere re (t # ts) \<or> match_search re ts)"

definition match :: "string \<Rightarrow> string \<Rightarrow> bool" where
  "match re str = (if re \<noteq> [] \<and> hd re = CHR ''^'' then matchhere (tl re) str else match_search re str)"

text \<open>The inner loop of \<open>grep\<close>: the lines it writes, and the str from \<open>p\<close> on when it ends.\<close>

function grep_lines :: "string \<Rightarrow> string \<Rightarrow> string list \<times> string" where
  "grep_lines pattern p =
     (case strchr p newline of None \<Rightarrow> ([], p)
      | Some q \<Rightarrow>
          let (out, rest) = grep_lines pattern (drop (q + 1) p)
          in (if match pattern (take q p) then (take (q + 1) p # out, rest) else (out, rest)))"
  by auto

termination
proof (relation "measure (\<lambda>(_, p). length p)")
  show "((pattern, drop (q + 1) p), pattern, p) \<in> measure (\<lambda>(_, p). length p)"
    if "strchr p newline = Some q" for pattern p q
    using that by (cases p) auto
qed simp

declare grep_lines.simps [simp del]

text \<open>The outer loop, with the first \<open>m\<close> bytes of the buffer and the reads that are left.\<close>

fun grep_loop :: "string \<Rightarrow> string \<Rightarrow> string list \<Rightarrow> string list" where
  "grep_loop pattern b [] = []"
| "grep_loop pattern b (r # rs) =
     (if r = [] then []
      else let b = b @ r; (out, rest) = grep_lines pattern b
           in out @ grep_loop pattern (if length rest = length b then [] else rest) rs)"

definition grep :: "string \<Rightarrow> string list \<Rightarrow> string list" where
  "grep pattern reads = grep_loop pattern [] reads"

record wc_count =
  wc_l :: int
  wc_w :: int
  wc_c :: int
  inword :: bool

definition wc_char :: "char \<Rightarrow> wc_count \<Rightarrow> wc_count" where
  "wc_char x s =
     (let s = s\<lparr>wc_c := wc_c s + 1\<rparr>;
          s = (if x = newline then s\<lparr>wc_l := wc_l s + 1\<rparr> else s)
      in if strchr [CHR '' '', CHR 0x0D, CHR 0x09, newline, CHR 0x0B] x \<noteq> None then s\<lparr>inword := False\<rparr>
         else if \<not> inword s then s\<lparr>wc_w := wc_w s + 1, inword := True\<rparr>
         else s)"

fun wc_loop :: "string list \<Rightarrow> wc_count \<Rightarrow> wc_count" where
  "wc_loop [] s = s"
| "wc_loop (r # rs) s = (if r = [] then s else wc_loop rs (fold wc_char r s))"

definition wc :: "string list \<Rightarrow> int \<times> int \<times> int" where
  "wc reads =
     (let s = wc_loop reads \<lparr>wc_l = 0, wc_w = 0, wc_c = 0, inword = False\<rparr> in (wc_l s, wc_w s, wc_c s))"

section \<open>The language of a pattern\<close>

datatype piece = One char | Many char

text \<open>The pieces of a pattern without its leading \<open>^\<close>, and whether it ends in the anchor \<open>$\<close>.\<close>

fun pieces :: "string \<Rightarrow> piece list \<times> bool" where
  "pieces [] = ([], False)"
| "pieces [c] = (if c = CHR ''$'' then ([], True) else ([One c], False))"
| "pieces (c # d # re) =
     (if d = CHR ''*'' then map_prod ((#) (Many c)) id (pieces re) else map_prod ((#) (One c)) id (pieces (d # re)))"

definition accepts :: "char \<Rightarrow> char \<Rightarrow> bool" where
  "accepts c t \<longleftrightarrow> c = CHR ''.'' \<or> c = t"

primrec piece_lang :: "piece \<Rightarrow> string set" where
  "piece_lang (One c) = {[t] |t. accepts c t}"
| "piece_lang (Many c) = {v. \<forall>t \<in> set v. accepts c t}"

primrec lang :: "piece list \<Rightarrow> string set" where
  "lang [] = {[]}"
| "lang (p # ps) = {u @ v |u v. u \<in> piece_lang p \<and> v \<in> lang ps}"

definition matches_here :: "piece list \<times> bool \<Rightarrow> string \<Rightarrow> bool" where
  "matches_here pr str \<longleftrightarrow> (\<exists>u v. str = u @ v \<and> u \<in> lang (fst pr) \<and> (snd pr \<longrightarrow> v = []))"

lemma matches_here_Nil: "matches_here ([], e) str \<longleftrightarrow> (e \<longrightarrow> str = [])"
  by (auto simp: matches_here_def)

lemma matches_here_Cons:
  "matches_here (p # ps, e) str \<longleftrightarrow> (\<exists>u v. str = u @ v \<and> u \<in> piece_lang p \<and> matches_here (ps, e) v)"
proof
  assume "matches_here (p # ps, e) str"
  then obtain x w where "str = x @ w" "x \<in> lang (p # ps)" "e \<longrightarrow> w = []"
    unfolding matches_here_def fst_conv snd_conv by blast
  then obtain u v where "str = (u @ v) @ w" "u \<in> piece_lang p" "v \<in> lang ps" "e \<longrightarrow> w = []" by auto
  then have "str = u @ (v @ w)" "matches_here (ps, e) (v @ w)" by (auto simp: matches_here_def)
  then show "\<exists>u v. str = u @ v \<and> u \<in> piece_lang p \<and> matches_here (ps, e) v" using \<open>u \<in> piece_lang p\<close> by blast
next
  assume "\<exists>u v. str = u @ v \<and> u \<in> piece_lang p \<and> matches_here (ps, e) v"
  then obtain u v where u: "str = u @ v" "u \<in> piece_lang p" "matches_here (ps, e) v" by blast
  then obtain x w where x: "v = x @ w" "x \<in> lang ps" "e \<longrightarrow> w = []" unfolding matches_here_def fst_conv snd_conv by blast
  have "str = (u @ x) @ w" "u @ x \<in> lang (p # ps)" using u x by auto
  then show "matches_here (p # ps, e) str" unfolding matches_here_def fst_conv snd_conv using x(3) by blast
qed

lemma matches_here_One:
  "matches_here (One c # ps, e) str \<longleftrightarrow> (case str of [] \<Rightarrow> False | t # ts \<Rightarrow> accepts c t \<and> matches_here (ps, e) ts)"
proof (cases str)
  case (Cons t ts)
  have "(\<exists>u v. t # ts = u @ v \<and> u \<in> piece_lang (One c) \<and> matches_here (ps, e) v) \<longleftrightarrow> accepts c t \<and> matches_here (ps, e) ts"
  proof
    assume "accepts c t \<and> matches_here (ps, e) ts"
    then show "\<exists>u v. t # ts = u @ v \<and> u \<in> piece_lang (One c) \<and> matches_here (ps, e) v"
      by (intro exI [of _ "[t]"] exI [of _ ts]) simp
  qed auto
  then show ?thesis by (simp only: Cons matches_here_Cons list.case)
qed (simp add: matches_here_Cons)

lemma matches_here_Many:
  "matches_here (Many c # ps, e) str \<longleftrightarrow>
     matches_here (ps, e) str \<or> (case str of [] \<Rightarrow> False | t # ts \<Rightarrow> accepts c t \<and> matches_here (Many c # ps, e) ts)"
proof (cases str)
  case (Cons t ts)
  let ?l = "\<exists>u v. t # ts = u @ v \<and> u \<in> piece_lang (Many c) \<and> matches_here (ps, e) v"
  let ?r = "\<exists>u v. ts = u @ v \<and> u \<in> piece_lang (Many c) \<and> matches_here (ps, e) v"
  have "?l" if "matches_here (ps, e) (t # ts)" using that by (intro exI [of _ "[]"] exI [of _ "t # ts"]) simp
  moreover have "?l" if "accepts c t" "?r"
  proof -
    note h = that
    obtain u v where "ts = u @ v" "u \<in> piece_lang (Many c)" "matches_here (ps, e) v" using h(2) by (elim exE conjE) (rule that)
    then show ?thesis using h(1) by (intro exI [of _ "t # u"] exI [of _ v]) simp
  qed
  moreover have "matches_here (ps, e) (t # ts) \<or> accepts c t \<and> ?r" if "?l"
  proof -
    note h = that
    obtain u v where u: "t # ts = u @ v" "u \<in> piece_lang (Many c)" "matches_here (ps, e) v"
      using h by (elim exE conjE) (rule that)
    show ?thesis
    proof (cases u)
      case Nil
      then show ?thesis using u by simp
    next
      case (Cons y ys)
      then have "accepts c t" "ts = ys @ v" "ys \<in> piece_lang (Many c)" using u by simp_all
      then show ?thesis using u(3) by blast
    qed
  qed
  ultimately have "?l \<longleftrightarrow> matches_here (ps, e) (t # ts) \<or> accepts c t \<and> ?r" by argo
  then show ?thesis by (simp only: Cons list.case matches_here_Cons [of "Many c"])
qed (simp add: matches_here_Cons)

lemma matchhere_lang:
  "matchhere re str \<longleftrightarrow> matches_here (pieces re) str"
  "matchstar c re str \<longleftrightarrow> matches_here (Many c # fst (pieces re), snd (pieces re)) str"
proof (induction re str and c re str rule: matchhere_matchstar.induct)
  case (1 str)
  then show ?case by (simp add: matchhere.simps matches_here_Nil)
next
  case (2 c re str)
  show ?case
  proof (cases re)
    case Nil
    then show ?thesis using 2
      by (auto simp: matchhere.simps matches_here_One matches_here_Nil accepts_def split: list.splits)
  next
    case (Cons d re')
    show ?thesis
    proof (cases "d = CHR ''*''")
      case True
      then show ?thesis using 2(1) Cons by (simp add: matchhere.simps map_prod_def split: prod.splits)
    next
      case False
      have "matches_here (pieces (c # re)) str \<longleftrightarrow>
          (case str of [] \<Rightarrow> False | t # ts \<Rightarrow> accepts c t \<and> matches_here (pieces re) ts)"
        using Cons False by (cases "pieces re") (simp add: matches_here_One split: list.split)
      moreover have "matchhere (c # re) str \<longleftrightarrow> (case str of [] \<Rightarrow> False | t # ts \<Rightarrow> accepts c t \<and> matchhere re ts)"
        using Cons False by (simp add: matchhere.simps accepts_def split: list.split)
      ultimately show ?thesis using 2(2) Cons False by (simp split: list.split)
    qed
  qed
next
  case (3 c re str)
  then show ?case
    by (subst matchstar.simps, subst matches_here_Many) (auto simp: accepts_def split: list.splits)
qed

lemma match_search_iff: "match_search re str \<longleftrightarrow> (\<exists>w v. str = w @ v \<and> matchhere re v)"
  by (induction str) (auto simp: Cons_eq_append_conv)

text \<open>
  C19. \<open>match\<close> decides the language of its pattern: it accepts a str exactly when some part of the
  str is a word of the pattern, read as a sequence of characters (\<open>.\<close> stands for any) and of
  characters repeated any number of times, at the beginning of the str if the pattern starts
  with \<open>^\<close>, and at its end if the pattern ends in \<open>$\<close>.
\<close>

theorem match_decides_pattern:
  "match re str \<longleftrightarrow>
     (let anchored = (re \<noteq> [] \<and> hd re = CHR ''^''); (ps, end_anchored) = pieces (if anchored then tl re else re) in
      \<exists>w u v. str = w @ u @ v \<and> u \<in> lang ps \<and> (anchored \<longrightarrow> w = []) \<and> (end_anchored \<longrightarrow> v = []))"
  by (auto simp: match_def match_search_iff matchhere_lang matches_here_def split: prod.splits)

theorem match_decides_pattern_witness:
  "\<exists>w u. ''xaab'' = w @ u \<and> u \<in> lang [Many (CHR ''a''), One (CHR ''b'')]"
proof -
  have "match ''a*b$'' ''xaab''" by code_simp
  then show ?thesis using match_decides_pattern [of "''a*b$''" "''xaab''"] by (simp add: Let_def)
qed

section \<open>Lines\<close>

lemma strchr_Some:
  "strchr p c = Some q \<Longrightarrow> p = take q p @ c # drop (q + 1) p \<and> c \<notin> set (take q p) \<and> nul \<notin> set (take q p)"
  by (induction p c arbitrary: q rule: strchr.induct) (auto split: if_splits)

lemma strchr_None: "strchr p c = None \<Longrightarrow> nul \<notin> set p \<Longrightarrow> c \<notin> set p"
  by (induction p c rule: strchr.induct) (auto split: if_splits)

abbreviation nl_line :: "string \<Rightarrow> string" where "nl_line l \<equiv> l @ [newline]"

lemma grep_lines_spec:
  "nul \<notin> set p \<Longrightarrow> \<exists>ls. p = concat (map nl_line ls) @ snd (grep_lines pat p) \<and> newline \<notin> set (snd (grep_lines pat p))
     \<and> (\<forall>l \<in> set ls. newline \<notin> set l) \<and> fst (grep_lines pat p) = map nl_line (filter (match pat) ls)"
proof (induction pat p rule: grep_lines.induct)
  case (1 pat p)
  show ?case
  proof (cases "strchr p newline")
    case None
    then have "grep_lines pat p = ([], p)" by (simp add: grep_lines.simps)
    then show ?thesis using strchr_None [OF None 1(2)] by (intro exI [of _ "[]"]) simp
  next
    case (Some q)
    let ?r = "drop (q + 1) p"
    have p: "p = take q p @ newline # ?r" "newline \<notin> set (take q p)" using strchr_Some [OF Some] by blast+
    have "nul \<notin> set ?r" using 1(2) in_set_dropD by metis
    from 1(1) [OF Some this] obtain ls where ls: "?r = concat (map nl_line ls) @ snd (grep_lines pat ?r)"
      "newline \<notin> set (snd (grep_lines pat ?r))" "\<forall>l \<in> set ls. newline \<notin> set l"
      "fst (grep_lines pat ?r) = map nl_line (filter (match pat) ls)" by blast
    have q: "length p > q" using p(1) by (metis drop_all length_greater_0_conv list.distinct(1) not_le_imp_less append_Nil2 take_all append_eq_conv_conj)
    have t: "take (q + 1) p = nl_line (take q p)"
      using q p(1) by (metis Suc_eq_plus1 take_Suc_conv_app_nth append_Cons nth_append_length length_take min.absorb2 less_imp_le_nat)
    have g: "grep_lines pat p = (if match pat (take q p) then (take (q + 1) p # fst (grep_lines pat ?r), snd (grep_lines pat ?r))
        else grep_lines pat ?r)" by (subst grep_lines.simps) (simp add: Some split: prod.split)
    then have "snd (grep_lines pat p) = snd (grep_lines pat ?r)" by simp
    moreover have "p = concat (map nl_line (take q p # ls)) @ snd (grep_lines pat ?r)" using p(1) ls(1) by simp
    ultimately show ?thesis using ls(2-4) p(2) g t by (intro exI [of _ "take q p # ls"]) simp
  qed
qed

lemma grep_loop_spec:
  "\<forall>r \<in> set rs. newline \<in> set r \<and> nul \<notin> set r \<Longrightarrow> nul \<notin> set b \<Longrightarrow> newline \<notin> set b \<Longrightarrow>
   \<exists>ls rest. b @ concat rs = concat (map nl_line ls) @ rest \<and> newline \<notin> set rest \<and> (\<forall>l \<in> set ls. newline \<notin> set l)
     \<and> grep_loop pat b rs = map nl_line (filter (match pat) ls)"
proof (induction rs arbitrary: b)
  case Nil
  then show ?case by (intro exI [of _ "[]"] exI [of _ b]) simp
next
  case (Cons r rs)
  let ?b = "b @ r" and ?g = "grep_lines pat (b @ r)"
  have n: "nul \<notin> set ?b" "newline \<in> set ?b" "r \<noteq> []" using Cons.prems by auto
  from grep_lines_spec [OF n(1), of pat] obtain ls where ls: "?b = concat (map nl_line ls) @ snd ?g" "newline \<notin> set (snd ?g)"
    "\<forall>l \<in> set ls. newline \<notin> set l" "fst ?g = map nl_line (filter (match pat) ls)" by blast
  have ne: "length (snd ?g) \<noteq> length ?b"
  proof
    assume "length (snd ?g) = length ?b"
    then have "concat (map nl_line ls) = []" using arg_cong [OF ls(1), of length] by simp
    then have "?b = snd ?g" using ls(1) by (metis append_Nil)
    then show False using ls(2) n(2) by metis
  qed
  have "nul \<notin> set (snd ?g)" using n(1) arg_cong [OF ls(1), of set] by auto
  then obtain ls' rest where l': "snd ?g @ concat rs = concat (map nl_line ls') @ rest" "newline \<notin> set rest"
    "\<forall>l \<in> set ls'. newline \<notin> set l" "grep_loop pat (snd ?g) rs = map nl_line (filter (match pat) ls')"
    using Cons.IH [of "snd ?g"] Cons.prems(1) ls(2) by auto
  have "grep_loop pat b (r # rs) = fst ?g @ grep_loop pat (snd ?g) rs" 
    using n(3) ne by (cases ?g) (simp add: Let_def)
  moreover have "b @ concat (r # rs) = concat (map nl_line (ls @ ls')) @ rest"
    using arg_cong [OF ls(1), of "\<lambda>x. x @ concat rs"] l'(1) by simp
  ultimately show ?case using ls(3,4) l'(2-4) by (intro exI [of _ "ls @ ls'"] exI [of _ rest]) auto
qed

text \<open>
  C20. When every read returns at least one newline and no null character, \<open>grep\<close> writes exactly
  the lines of its input that the pattern matches, in order, each with its newline, however
  the input is cut into reads; only what follows the last newline is left out. But a read that
  returns no newline to an empty buffer is forgotten altogether: the beginning of a line that
  arrives in pieces is lost.
\<close>

theorem grep_prints_matching_lines:
  "((\<forall>r \<in> set rs. newline \<in> set r \<and> nul \<notin> set r) \<longrightarrow>
      (\<exists>ls rest. concat rs = concat (map (\<lambda>l. l @ [newline]) ls) @ rest \<and> newline \<notin> set rest \<and> (\<forall>l \<in> set ls. newline \<notin> set l)
        \<and> grep pat rs = map (\<lambda>l. l @ [newline]) (filter (match pat) ls)))
   \<and> (r \<noteq> [] \<and> newline \<notin> set r \<longrightarrow> grep pat (r # rs) = grep pat rs)"
proof
  show "(\<forall>r \<in> set rs. newline \<in> set r \<and> nul \<notin> set r) \<longrightarrow>
     (\<exists>ls rest. concat rs = concat (map (\<lambda>l. l @ [newline]) ls) @ rest \<and> newline \<notin> set rest \<and> (\<forall>l \<in> set ls. newline \<notin> set l)
        \<and> grep pat rs = map (\<lambda>l. l @ [newline]) (filter (match pat) ls))"
    using grep_loop_spec [of rs "[]" pat] by (simp add: grep_def)
  have "strchr r newline = None" if "newline \<notin> set r"
    using strchr_Some [of r newline] that by (cases "strchr r newline") (auto, metis in_set_conv_decomp)
  then have "grep_lines pat r = ([], r)" if "newline \<notin> set r" using that by (simp add: grep_lines.simps)
  then show "r \<noteq> [] \<and> newline \<notin> set r \<longrightarrow> grep pat (r # rs) = grep pat rs" by (simp add: grep_def)
qed

theorem grep_prints_matching_lines_witness:
  "(\<exists>ls rest. ''ab'' @ [newline, CHR ''c'', CHR ''b'', newline] = concat (map (\<lambda>l. l @ [newline]) ls) @ rest \<and> newline \<notin> set rest
      \<and> grep ''b'' [''ab'' @ [newline, CHR ''c''], [CHR ''b'', newline]] = map (\<lambda>l. l @ [newline]) (filter (match ''b'') ls))
   \<and> grep ''b'' [''ab'', [newline]] = grep ''b'' [[newline]]"
proof
  show "\<exists>ls rest. ''ab'' @ [newline, CHR ''c'', CHR ''b'', newline] = concat (map (\<lambda>l. l @ [newline]) ls) @ rest \<and> newline \<notin> set rest
      \<and> grep ''b'' [''ab'' @ [newline, CHR ''c''], [CHR ''b'', newline]] = map (\<lambda>l. l @ [newline]) (filter (match ''b'') ls)"
    using conjunct1 [OF grep_prints_matching_lines [of "[''ab'' @ [newline, CHR ''c''], [CHR ''b'', newline]]" "''b''"]]
    by (elim impE) (simp, fastforce)
  show "grep ''b'' [''ab'', [newline]] = grep ''b'' [[newline]]"
    using conjunct2 [OF grep_prints_matching_lines [of "[[newline]]" "''b''" "''ab''"]] by simp
qed

section \<open>Counting\<close>

definition blank :: "char \<Rightarrow> bool" where
  "blank x \<longleftrightarrow> x \<in> {CHR '' '', CHR 0x0D, CHR 0x09, newline, CHR 0x0B}"

text \<open>The places where a word begins, after a character that was in a word or not.\<close>

primrec word_starts :: "bool \<Rightarrow> string \<Rightarrow> nat" where
  "word_starts w [] = 0"
| "word_starts w (x # xs) = (if \<not> blank x \<and> \<not> w then 1 else 0) + word_starts (\<not> blank x) xs"

lemma wc_char_eq:
  "wc_char x s = \<lparr>wc_l = wc_l s + (if x = newline then 1 else 0), wc_w = wc_w s + (if \<not> blank x \<and> \<not> inword s then 1 else 0),
     wc_c = wc_c s + 1, inword = (\<not> blank x)\<rparr>"
  by (simp add: wc_char_def blank_def Let_def)

lemma wc_fold:
  "fold wc_char r s = \<lparr>wc_l = wc_l s + int (count_list r newline), wc_w = wc_w s + int (word_starts (inword s) r),
     wc_c = wc_c s + int (length r), inword = (if r = [] then inword s else \<not> blank (last r))\<rparr>"
  by (induction r arbitrary: s) (simp_all add: wc_char_eq)

lemma word_starts_append:
  "word_starts w (xs @ ys) = word_starts w xs + word_starts (if xs = [] then w else \<not> blank (last xs)) ys"
  by (induction xs arbitrary: w) simp_all

lemma wc_loop_concat:
  "\<forall>r \<in> set rs. r \<noteq> [] \<Longrightarrow> wc_loop rs s = fold wc_char (concat rs) s"
  by (induction rs arbitrary: s) simp_all

text \<open>
  \<open>wc\<close> counts the newlines, the words (a word begins at a character that is not blank, at the
  beginning of the input or after a blank one) and the characters of its input, however it is
  cut into reads.
\<close>

theorem wc_counts:
  assumes "\<forall>r \<in> set rs. r \<noteq> []"
  defines "s \<equiv> concat rs"
  shows "wc rs = (int (count_list s newline), int (card {i. i < length s \<and> \<not> blank (s ! i) \<and> (i = 0 \<or> blank (s ! (i - 1)))}), int (length s))"
proof -
  have "word_starts w xs = card {i. i < length xs \<and> \<not> blank (xs ! i) \<and> (if i = 0 then \<not> w else blank (xs ! (i - 1)))}" for w xs
  proof (induction xs arbitrary: w)
    case (Cons x xs)
    let ?A = "{i. i < length xs \<and> \<not> blank (xs ! i) \<and> (if i = 0 then blank x else blank (xs ! (i - 1)))}"
    have "{i. i < length (x # xs) \<and> \<not> blank ((x # xs) ! i) \<and> (if i = 0 then \<not> w else blank ((x # xs) ! (i - 1)))}
        = (if \<not> blank x \<and> \<not> w then {0} else {}) \<union> Suc ` ?A" (is "?B = ?C")
    proof (rule set_eqI)
      fix i show "i \<in> ?B \<longleftrightarrow> i \<in> ?C" by (cases i; cases "i - 1") (auto simp: image_iff)
    qed
    also have "card \<dots> = (if \<not> blank x \<and> \<not> w then 1 else 0) + card ?A"
      by (subst card_Un_disjoint) (auto simp: card_image)
    finally show ?case using Cons.IH [of "\<not> blank x"] by simp
  qed simp
  from this [of False s] have w: "word_starts False s = card {i. i < length s \<and> \<not> blank (s ! i) \<and> (i = 0 \<or> blank (s ! (i - 1)))}"
    by (auto intro!: arg_cong [of _ _ card])
  show ?thesis unfolding wc_def wc_loop_concat [OF assms(1)] s_def [symmetric] wc_fold using w by simp
qed

theorem wc_counts_witness: "wc [''a b'', [newline]] = (1, 2, 4)"
proof -
  have "{i. i < Suc (Suc (Suc (Suc 0))) \<and> \<not> blank ([CHR ''a'', CHR '' '', CHR ''b'', newline] ! i) \<and> (i = 0 \<or> blank ([CHR ''a'', CHR '' '', CHR ''b'', newline] ! (i - Suc 0)))} = {0, 2}"
    by (auto simp: blank_def numeral_eq_Suc less_Suc_eq)
  then show ?thesis using wc_counts [of "[''a b'', [newline]]"] by simp
qed

end
