(* ===== verification/Shell.thy ===== *)
theory Shell
  imports Prelude User_Text
begin

text \<open>
  The parser of the shell: \<open>xv6-public-master/sh.c\<close>. The pointer \<open>*ps\<close> into the command line is the
  rest of the line, \<open>es\<close> is its end. A string of a command is the text between the pointers \<open>q\<close>
  and \<open>eq\<close>; \<open>nulterminate\<close> ends it there after the whole line has been parsed. \<open>panic\<close> prints its
  message and ends the shell's child, and is the outcome \<open>Panic\<close>.

  \<open>parseredirs\<close> wraps a command whose arguments are still being collected, so it is modelled
  as the list of redirections it finds, which \<open>add_redirs\<close> wraps around the command.
\<close>

section \<open>Commands\<close>

datatype cmd =
    EXEC "string list"
  | REDIR cmd string int int
  | PIPE cmd cmd
  | LIST cmd cmd
  | BACK cmd

abbreviation O_RDONLY :: int where "O_RDONLY \<equiv> 0"
abbreviation O_WRONLY_CREATE :: int where "O_WRONLY_CREATE \<equiv> 0x201"
abbreviation MAXARGS :: nat where "MAXARGS \<equiv> 10"

section \<open>Tokens\<close>

definition whitespace :: string where
  "whitespace = [CHR '' '', CHR 0x09, CHR 0x0D, newline, CHR 0x0B]"

definition symbols :: string where "symbols = ''<|>&;()''"

definition skip_ws :: "string \<Rightarrow> string" where
  "skip_ws s = dropWhile (\<lambda>c. strchr whitespace c \<noteq> None) s"

definition word_char :: "char \<Rightarrow> bool" where
  "word_char c \<longleftrightarrow> strchr whitespace c = None \<and> strchr symbols c = None"

definition gettoken :: "string \<Rightarrow> char \<times> string \<times> string" where
  "gettoken ps =
     (let s = skip_ws ps in
      case s of [] \<Rightarrow> (nul, [], [])
      | c # r \<Rightarrow>
          if strchr ''|();&<'' c \<noteq> None then (c, [c], skip_ws r)
          else if c = CHR ''>'' then
            if r \<noteq> [] \<and> hd r = CHR ''>'' then (CHR ''+'', [c, c], skip_ws (tl r)) else (c, [c], skip_ws r)
          else (CHR ''a'', takeWhile word_char s, skip_ws (dropWhile word_char s)))"

definition peek :: "string \<Rightarrow> string \<Rightarrow> bool" where
  "peek ps toks = (let s = skip_ws ps in s \<noteq> [] \<and> strchr toks (hd s) \<noteq> None)"

lemma skip_ws_le: "length (skip_ws s) \<le> length s"
  by (simp add: skip_ws_def length_dropWhile_le)

lemma gettoken_less: "skip_ws ps \<noteq> [] \<Longrightarrow> length (snd (snd (gettoken ps))) < length ps"
proof -
  assume ne: "skip_ws ps \<noteq> []"
  then obtain c r where s: "skip_ws ps = c # r" by (cases "skip_ws ps") auto
  have l: "Suc (length r) \<le> length ps" using skip_ws_le [of ps] s by simp
  have c: "strchr whitespace c = None" using s by (metis (mono_tags, lifting) dropWhile_eq_Cons_conv skip_ws_def)
  have w: "length (skip_ws (dropWhile word_char (c # r))) \<le> length r"
    if "strchr ''|();&<'' c = None" "c \<noteq> CHR ''>''"
  proof -
    have "strchr symbols c = None" using that by (auto simp: symbols_def split: if_splits)
    then have "word_char c" using c by (simp add: word_char_def)
    then show ?thesis using skip_ws_le [of "dropWhile word_char r"] length_dropWhile_le [of word_char r] by simp
  qed
  show ?thesis using l w skip_ws_le [of r] skip_ws_le [of "tl r"] by (auto simp: gettoken_def s Let_def)
qed

lemma peek_nonempty: "peek ps toks \<Longrightarrow> skip_ws ps \<noteq> []"
  by (auto simp: peek_def Let_def)

lemma gettoken_le: "length (snd (snd (gettoken ps))) \<le> length ps"
proof (cases "skip_ws ps = []")
  case True
  then show ?thesis by (simp add: gettoken_def)
next
  case False
  then show ?thesis using gettoken_less [of ps] by simp
qed

lemma gettoken_bounds:
  "(t, q, r) = gettoken ps \<Longrightarrow> length r \<le> length ps" "(t, q, r) = gettoken ps \<Longrightarrow> peek ps toks \<Longrightarrow> length r < length ps"
  using gettoken_le [of ps] gettoken_less [OF peek_nonempty, of ps toks] by (metis snd_conv)+

section \<open>The parser\<close>

type_synonym redir = "string \<times> int \<times> int"

definition add_redirs :: "redir list \<Rightarrow> cmd \<Rightarrow> cmd" where
  "add_redirs rs c = fold (\<lambda>(f, m, d) c. REDIR c f m d) rs c"

function parseredirs :: "string \<Rightarrow> (redir list \<times> string) res" where
  "parseredirs ps =
     (if \<not> peek ps ''<>'' then Ok ([], ps)
      else
        let (tok, _, ps1) = gettoken ps; (t, q, ps2) = gettoken ps1 in
        if t \<noteq> CHR ''a'' then Panic ''missing file for redirection''
        else
          let r = (if tok = CHR ''<'' then (q, O_RDONLY, 0) else (q, O_WRONLY_CREATE, 1)) in
          bnd (parseredirs ps2) (\<lambda>(rs, ps). Ok (r # rs, ps)))"
  by auto

termination
proof (relation "measure length", goal_cases)
  case (2 ps x y z w u v a b c)
  then show ?case using gettoken_bounds by (metis in_measure order_le_less_trans not_not)
qed simp

declare parseredirs.simps [simp del]

lemma parseredirs_le: "parseredirs ps = Ok (rs, r) \<Longrightarrow> length r \<le> length ps"
proof (induction ps arbitrary: rs r rule: parseredirs.induct)
  case (1 ps)
  show ?case
  proof (cases "peek ps ''<>''")
    case True
    obtain tok w ps1 t q ps2 where g: "gettoken ps = (tok, w, ps1)" "gettoken ps1 = (t, q, ps2)" by (metis prod_cases3)
    have "t = CHR ''a''" using 1(2) True g by (subst (asm) parseredirs.simps) (auto split: if_splits)
    then obtain rs' where "parseredirs ps2 = Ok (rs', r)"
      using 1(2) True g by (subst (asm) parseredirs.simps) (cases "parseredirs ps2", auto)
    then have "length r \<le> length ps2" using 1(1) True g \<open>t = CHR ''a''\<close> by auto
    then show ?thesis using gettoken_bounds(1) [OF g(1) [symmetric]] gettoken_bounds(1) [OF g(2) [symmetric]] by simp
  next
    case False
    then show ?thesis using 1(2) by (subst (asm) parseredirs.simps) auto
  qed
qed

function parse_args :: "string list \<Rightarrow> redir list \<Rightarrow> string \<Rightarrow> (string list \<times> redir list \<times> string) res" where
  "parse_args argv rs ps =
     (if peek ps ''|)&;'' then Ok (argv, rs, ps)
      else
        let (tok, q, ps1) = gettoken ps in
        if tok = nul then Ok (argv, rs, ps1)
        else if tok \<noteq> CHR ''a'' then Panic ''syntax''
        else
          let argv = argv @ [q] in
          if length argv \<ge> MAXARGS then Panic ''too many args''
          else bnd (parseredirs ps1) (\<lambda>(rs', ps2). parse_args argv (rs @ rs') ps2))"
  by auto

termination
proof (relation "measure (\<lambda>(argv, _). MAXARGS - length argv)", goal_cases)
  case (2 argv rs ps x y z w u v a b c)
  then show ?case by auto
qed simp

declare parse_args.simps [simp del]

function back_loop :: "cmd \<Rightarrow> string \<Rightarrow> cmd \<times> string" where
  "back_loop c ps = (if peek ps ''&'' then back_loop (BACK c) (snd (snd (gettoken ps))) else (c, ps))"
  by auto

termination
proof (relation "measure (\<lambda>(_, ps). length ps)", goal_cases)
  case (2 c ps)
  then show ?case using gettoken_less [OF peek_nonempty] by simp
qed simp

declare back_loop.simps [simp del]

text \<open>
  The functions below call each other on ever shorter parts of the line. The first argument
  bounds the depth of the calls; \<open>parsecmd\<close> gives four for each character.
\<close>

fun parseline :: "nat \<Rightarrow> string \<Rightarrow> (cmd \<times> string) res"
  and parsepipe :: "nat \<Rightarrow> string \<Rightarrow> (cmd \<times> string) res"
  and parseblock :: "nat \<Rightarrow> string \<Rightarrow> (cmd \<times> string) res"
  and parseexec :: "nat \<Rightarrow> string \<Rightarrow> (cmd \<times> string) res" where
  "parseline 0 ps = Block"
| "parseline (Suc n) ps =
     bnd (parsepipe n ps) (\<lambda>(c, ps).
       let (c, ps) = back_loop c ps in
       if peek ps '';'' then
         let (_, _, ps) = gettoken ps in bnd (parseline n ps) (\<lambda>(d, ps). Ok (LIST c d, ps))
       else Ok (c, ps))"
| "parsepipe 0 ps = Block"
| "parsepipe (Suc n) ps =
     bnd (parseexec n ps) (\<lambda>(c, ps).
       if peek ps ''|'' then
         let (_, _, ps) = gettoken ps in bnd (parsepipe n ps) (\<lambda>(d, ps). Ok (PIPE c d, ps))
       else Ok (c, ps))"
| "parseblock 0 ps = Block"
| "parseblock (Suc n) ps =
     (if \<not> peek ps ''('' then Panic ''parseblock''
      else
        let (_, _, ps) = gettoken ps in
        bnd (parseline n ps) (\<lambda>(c, ps).
          if \<not> peek ps '')'' then Panic ''syntax - missing )''
          else
            let (_, _, ps) = gettoken ps in
            bnd (parseredirs ps) (\<lambda>(rs, ps). Ok (add_redirs rs c, ps))))"
| "parseexec 0 ps = Block"
| "parseexec (Suc n) ps =
     (if peek ps ''('' then parseblock n ps
      else
        bnd (parseredirs ps) (\<lambda>(rs, ps).
        bnd (parse_args [] rs ps) (\<lambda>(argv, rs, ps). Ok (add_redirs rs (EXEC argv), ps))))"

definition parsecmd :: "string \<Rightarrow> cmd res" where
  "parsecmd s =
     bnd (parseline (4 * length s + 4) s) (\<lambda>(c, ps).
       if skip_ws ps \<noteq> [] then Panic ''syntax'' else Ok c)"

section \<open>Termination\<close>

lemma bnd_res_iff: "bnd x f = Ok y \<longleftrightarrow> (\<exists>v. x = Ok v \<and> f v = Ok y)" "bnd x f = Block \<longleftrightarrow> x = Block \<or> (\<exists>v. x = Ok v \<and> f v = Block)"
  by (cases x; simp)+

lemma parseredirs_total: "parseredirs ps \<noteq> Block"
proof (induction ps rule: parseredirs.induct)
  case (1 ps)
  then show ?case by (subst parseredirs.simps) (auto simp: Let_def bnd_res_iff split: prod.splits)
qed

lemma parse_args_total: "parse_args argv rs ps \<noteq> Block"
proof (induction argv rs ps rule: parse_args.induct)
  case (1 argv rs ps)
  then show ?case using parseredirs_total by (subst parse_args.simps) (auto simp: Let_def bnd_res_iff split: prod.splits)
qed

lemma parse_args_le: "parse_args argv rs ps = Ok (as, rs', r) \<Longrightarrow> length r \<le> length ps"
proof (induction argv rs ps rule: parse_args.induct)
  case (1 argv rs ps)
  obtain tok q ps1 where g: "gettoken ps = (tok, q, ps1)" by (metis prod_cases3)
  have le: "length ps1 \<le> length ps" using gettoken_bounds(1) [OF g [symmetric]] .
  show ?case
  proof (cases "\<not> peek ps ''|)&;'' \<and> tok = CHR ''a'' \<and> length (argv @ [q]) < MAXARGS")
    case True
    then have "bnd (parseredirs ps1) (\<lambda>(rs', ps2). parse_args (argv @ [q]) (rs @ rs') ps2) = Ok (as, rs', r)"
      using 1(2) g by (subst (asm) parse_args.simps) simp
    then obtain rs1 ps2 where p: "parseredirs ps1 = Ok (rs1, ps2)" "parse_args (argv @ [q]) (rs @ rs1) ps2 = Ok (as, rs', r)"
      by (auto simp: bnd_res_iff)
    then have "length r \<le> length ps2" using 1(1) True g by auto
    then show ?thesis using parseredirs_le [OF p(1)] le by simp
  next
    case False
    then show ?thesis using 1(2) g le by (subst (asm) parse_args.simps) (auto split: if_splits)
  qed
qed

lemma back_loop_le: "length (snd (back_loop c ps)) \<le> length ps"
proof (induction c ps rule: back_loop.induct)
  case (1 c ps)
  then show ?case using gettoken_le [of ps] by (subst back_loop.simps) auto
qed

lemma parser_le:
  "parseline n ps = Ok (c, r) \<Longrightarrow> length r \<le> length ps" "parsepipe n ps = Ok (c, r) \<Longrightarrow> length r \<le> length ps"
  "parseblock n ps = Ok (c, r) \<Longrightarrow> length r \<le> length ps" "parseexec n ps = Ok (c, r) \<Longrightarrow> length r \<le> length ps"
proof (induction n arbitrary: ps c r)
  case (Suc n)
  note g = gettoken_bounds(1) [OF sym]
  {
    case 1
    then obtain d ps1 where p: "parsepipe n ps = Ok (d, ps1)" by (auto simp: bnd_res_iff)
    obtain e ps2 where b: "back_loop d ps1 = (e, ps2)" by fastforce
    obtain t q ps3 where t: "gettoken ps2 = (t, q, ps3)" by (metis prod_cases3)
    have "length ps2 \<le> length ps" using Suc.IH(2) [OF p] back_loop_le [of d ps1] b by simp
    then show ?case using 1 p b t g [OF t] Suc.IH(1) [of ps3] by (fastforce simp: bnd_res_iff split: if_splits)
  next
    case 2
    then obtain d ps1 where p: "parseexec n ps = Ok (d, ps1)" by (auto simp: bnd_res_iff)
    obtain t q ps3 where t: "gettoken ps1 = (t, q, ps3)" by (metis prod_cases3)
    have "length ps1 \<le> length ps" using Suc.IH(4) [OF p] .
    then show ?case using 2 p t g [OF t] Suc.IH(2) [of ps3] by (fastforce simp: bnd_res_iff split: if_splits)
  next
    case 3
    obtain t q ps0 where t: "gettoken ps = (t, q, ps0)" by (metis prod_cases3)
    then obtain d ps1 where p: "parseline n ps0 = Ok (d, ps1)" using 3 by (auto simp: bnd_res_iff split: if_splits)
    obtain t' q' ps2 where t': "gettoken ps1 = (t', q', ps2)" by (metis prod_cases3)
    have "length ps2 \<le> length ps" using Suc.IH(1) [OF p] g [OF t] g [OF t'] by simp
    then show ?case using 3 t p t' parseredirs_le [of ps2] by (fastforce simp: bnd_res_iff split: if_splits)
  next
    case 4
    then show ?case using Suc.IH(3) parseredirs_le parse_args_le by (fastforce simp: bnd_res_iff split: if_splits)
  }
qed simp_all

lemma parser_total:
  "4 * length ps + 4 \<le> n \<Longrightarrow> parseline n ps \<noteq> Block" "4 * length ps + 3 \<le> n \<Longrightarrow> parsepipe n ps \<noteq> Block"
  "4 * length ps + 1 \<le> n \<Longrightarrow> parseblock n ps \<noteq> Block" "4 * length ps + 2 \<le> n \<Longrightarrow> parseexec n ps \<noteq> Block"
proof (induction n arbitrary: ps)
  case (Suc n)
  note g = gettoken_bounds(2) [OF sym]
  {
    case 1
    have p: "parsepipe n ps \<noteq> Block" using 1 Suc.IH(2) by simp
    show ?case
    proof
      assume "parseline (Suc n) ps = Block"
      then obtain d ps1 where d: "parsepipe n ps = Ok (d, ps1)" using p by (auto simp: bnd_res_iff)
      obtain e ps2 where b: "back_loop d ps1 = (e, ps2)" by fastforce
      obtain t q ps3 where t: "gettoken ps2 = (t, q, ps3)" by (metis prod_cases3)
      have "peek ps2 '';''" "parseline n ps3 = Block"
        using \<open>parseline (Suc n) ps = Block\<close> d b t by (auto simp: bnd_res_iff split: if_splits)
      moreover have "length ps2 \<le> length ps" using parser_le(2) [OF d] back_loop_le [of d ps1] b by simp
      ultimately show False using g [OF t] Suc.IH(1) [of ps3] 1 by fastforce
    qed
  next
    case 2
    have p: "parseexec n ps \<noteq> Block" using 2 Suc.IH(4) by simp
    show ?case
    proof
      assume "parsepipe (Suc n) ps = Block"
      then obtain d ps1 where d: "parseexec n ps = Ok (d, ps1)" using p by (auto simp: bnd_res_iff)
      obtain t q ps3 where t: "gettoken ps1 = (t, q, ps3)" by (metis prod_cases3)
      have "peek ps1 ''|''" "parsepipe n ps3 = Block"
        using \<open>parsepipe (Suc n) ps = Block\<close> d t by (auto simp: bnd_res_iff split: if_splits)
      then show False using g [OF t] Suc.IH(2) [of ps3] 2 parser_le(4) [OF d] by fastforce
    qed
  next
    case 3
    obtain t q ps0 where t: "gettoken ps = (t, q, ps0)" by (metis prod_cases3)
    show ?case
    proof
      assume B: "parseblock (Suc n) ps = Block"
      then have "peek ps ''(''" by (auto split: if_splits)
      then have "parseline n ps0 \<noteq> Block" using g [OF t] Suc.IH(1) [of ps0] 3 by fastforce
      then show False using B t parseredirs_total by (auto simp: bnd_res_iff split: if_splits prod.splits)
    qed
  next
    case 4
    then show ?case using Suc.IH(3) [of ps] parseredirs_total parse_args_total by (auto simp: bnd_res_iff)
  }
qed simp_all

text \<open>
  C18. The parser of the shell terminates: on every command line \<open>parsecmd\<close> returns a command or
  reports a syntax error. The bound on the depth of its calls is never reached.
\<close>

theorem shell_parser_terminates: "(\<exists>c. parsecmd s = Ok c) \<or> (\<exists>m. parsecmd s = Panic m)"
proof (cases "parsecmd s")
  case Block
  then show ?thesis using parser_total(1) [of s "4 * length s + 4"] by (auto simp: parsecmd_def bnd_res_iff split: if_splits)
qed simp_all

section \<open>Printing commands\<close>

definition show_redir :: "redir \<Rightarrow> string" where
  "show_redir r = (if snd (snd r) = 0 then ''< '' else ''> '') @ fst r @ '' ''"

definition show_redirs :: "redir list \<Rightarrow> string" where
  "show_redirs rs = concat (map show_redir rs)"

definition show_words :: "string list \<Rightarrow> string" where
  "show_words ws = concat (map (\<lambda>w. w @ '' '') ws)"

definition in_block :: "cmd \<Rightarrow> string \<Rightarrow> string" where
  "in_block c s = (case c of EXEC _ \<Rightarrow> s | _ \<Rightarrow> ''( '' @ s @ '') '')"

primrec show_cmd :: "cmd \<Rightarrow> string" where
  "show_cmd (EXEC argv) = show_words argv"
| "show_cmd (REDIR c f m d) = in_block c (show_cmd c) @ show_redir (f, m, d)"
| "show_cmd (PIPE a b) = in_block a (show_cmd a) @ ''| '' @ in_block b (show_cmd b)"
| "show_cmd (LIST a b) = in_block a (show_cmd a) @ ''; '' @ in_block b (show_cmd b)"
| "show_cmd (BACK a) = in_block a (show_cmd a) @ ''& ''"

definition wf_word :: "string \<Rightarrow> bool" where
  "wf_word w \<longleftrightarrow> w \<noteq> [] \<and> nul \<notin> set w \<and> (\<forall>c \<in> set w. word_char c)"

definition wf_redir :: "redir \<Rightarrow> bool" where
  "wf_redir r \<longleftrightarrow> wf_word (fst r) \<and> snd r \<in> {(O_RDONLY, 0), (O_WRONLY_CREATE, 1)}"

primrec wf_cmd :: "cmd \<Rightarrow> bool" where
  "wf_cmd (EXEC argv) \<longleftrightarrow> length argv < MAXARGS \<and> (\<forall>w \<in> set argv. wf_word w)"
| "wf_cmd (REDIR c f m d) \<longleftrightarrow> wf_cmd c \<and> wf_redir (f, m, d)"
| "wf_cmd (PIPE a b) \<longleftrightarrow> wf_cmd a \<and> wf_cmd b"
| "wf_cmd (LIST a b) \<longleftrightarrow> wf_cmd a \<and> wf_cmd b"
| "wf_cmd (BACK a) \<longleftrightarrow> wf_cmd a"

text \<open>A rest of a line at which an argument list ends, and any rest without leading blanks.\<close>

definition clean :: "string \<Rightarrow> bool" where
  "clean r \<longleftrightarrow> r = [] \<or> strchr whitespace (hd r) = None"

definition stops :: "string \<Rightarrow> bool" where
  "stops r \<longleftrightarrow> r = [] \<or> hd r \<in> set ''|)&;''"

lemma skip_clean: "clean r \<Longrightarrow> skip_ws r = r"
  by (cases r) (auto simp: clean_def skip_ws_def)

lemma skip_blank: "clean r \<Longrightarrow> skip_ws (CHR '' '' # r) = r"
proof -
  assume "clean r"
  then have "skip_ws r = r" by (rule skip_clean)
  then show ?thesis by (simp add: skip_ws_def whitespace_def)
qed

lemma stops_clean: "stops r \<Longrightarrow> clean r"
  by (auto simp: stops_def clean_def whitespace_def)

lemma word_chars:
  "word_char c \<Longrightarrow> strchr ''|();&<'' c = None" "word_char c \<Longrightarrow> c \<noteq> CHR ''>''" "word_char c \<Longrightarrow> strchr whitespace c = None"
  "word_char c \<Longrightarrow> strchr ''<>'' c = None" "word_char c \<Longrightarrow> strchr ''('' c = None" "word_char c \<Longrightarrow> strchr ''|)&;'' c = None"
  by (auto simp: word_char_def symbols_def split: if_splits)

lemma wf_word_Cons: "wf_word w \<Longrightarrow> \<exists>c cs. w = c # cs \<and> word_char c"
  by (cases w) (auto simp: wf_word_def)

lemma word_clean: "wf_word w \<Longrightarrow> clean (w @ r)"
  using wf_word_Cons [of w] word_chars(3) by (auto simp: clean_def)

lemma word_token: "wf_word w \<Longrightarrow> clean r \<Longrightarrow> gettoken (w @ CHR '' '' # r) = (CHR ''a'', w, r)"
proof -
  assume w: "wf_word w" and r: "clean r"
  obtain c cs where c: "w = c # cs" "word_char c" using wf_word_Cons [OF w] by blast
  have all: "\<forall>c \<in> set w. word_char c" using w by (simp add: wf_word_def)
  have sp: "\<not> word_char (CHR '' '')" by (simp add: word_char_def whitespace_def)
  have "takeWhile word_char (w @ CHR '' '' # r) = w" "dropWhile word_char (w @ CHR '' '' # r) = CHR '' '' # r"
    using all sp by (simp_all add: takeWhile_append2 dropWhile_append2)
  moreover have "skip_ws (w @ CHR '' '' # r) = w @ CHR '' '' # r" by (rule skip_clean [OF word_clean [OF w]])
  ultimately show ?thesis using word_chars(1,2) [OF c(2)] skip_blank [OF r] c(1) by (simp add: gettoken_def)
qed

lemma peek_hd: "clean r \<Longrightarrow> peek r toks = (r \<noteq> [] \<and> strchr toks (hd r) \<noteq> None)"
  by (simp add: peek_def skip_clean Let_def)

lemma word_peek:
  assumes "wf_word w" "\<And>c. word_char c \<Longrightarrow> strchr toks c = None"
  shows "\<not> peek (w @ r) toks"
proof -
  obtain c cs where c: "w = c # cs" "word_char c" using wf_word_Cons [OF assms(1)] by blast
  show ?thesis unfolding peek_hd [OF word_clean [OF assms(1)]] using c assms(2) [OF c(2)] by simp
qed

lemma parseredirs_word: "wf_word w \<Longrightarrow> parseredirs (w @ r) = Ok ([], w @ r)"
  by (subst parseredirs.simps) (use word_peek [OF _ word_chars(4)] in simp)

lemma symbol_token: "clean r \<Longrightarrow> c \<in> set ''|();&<>'' \<Longrightarrow> gettoken (c # CHR '' '' # r) = (c, [c], r)"
proof -
  assume r: "clean r" and c: "c \<in> set ''|();&<>''"
  have "clean (c # CHR '' '' # r)" using c by (auto simp: clean_def whitespace_def)
  then show ?thesis using c skip_blank [OF r] by (auto simp: gettoken_def skip_clean)
qed

lemma redir_clean: "clean (show_redir r @ s)"
  by (simp add: show_redir_def clean_def whitespace_def)

lemma redirs_clean: "clean s \<Longrightarrow> clean (show_redirs rs @ s)"
  by (cases rs) (simp_all add: show_redirs_def redir_clean)

lemma words_clean: "clean s \<Longrightarrow> \<forall>w \<in> set ws. wf_word w \<Longrightarrow> clean (show_words ws @ s)"
  by (cases ws) (simp_all add: show_words_def word_clean)

lemma parseredirs_none: "clean r \<Longrightarrow> r = [] \<or> strchr ''<>'' (hd r) = None \<Longrightarrow> parseredirs r = Ok ([], r)"
  by (subst parseredirs.simps) (auto simp: peek_hd)

lemma parseredirs_show:
  "\<forall>r \<in> set rs. wf_redir r \<Longrightarrow> stops s \<Longrightarrow> parseredirs (show_redirs rs @ s) = Ok (rs, s)"
proof (induction rs)
  case Nil
  then show ?case by (auto simp: show_redirs_def stops_def intro!: parseredirs_none stops_clean)
next
  case (Cons r rs)
  obtain f m d where r: "r = (f, m, d)" by (metis prod_cases3)
  let ?s = "show_redirs rs @ s" and ?c = "if d = 0 then CHR ''<'' else CHR ''>''"
  have w: "wf_word f" and md: "(m, d) \<in> {(O_RDONLY, 0), (O_WRONLY_CREATE, 1)}" using Cons.prems(1) r by (simp_all add: wf_redir_def)
  have cl: "clean ?s" using redirs_clean stops_clean Cons.prems(2) by blast
  have sh: "show_redirs (r # rs) @ s = ?c # CHR '' '' # f @ CHR '' '' # ?s" by (simp add: show_redirs_def show_redir_def r)
  have g: "gettoken (?c # CHR '' '' # f @ CHR '' '' # ?s) = (?c, [?c], f @ CHR '' '' # ?s)"
    by (rule symbol_token [OF word_clean [OF w]]) simp
  have p: "peek (?c # CHR '' '' # f @ CHR '' '' # ?s) ''<>''" by (auto simp: peek_def skip_ws_def whitespace_def Let_def)
  have ih: "parseredirs ?s = Ok (rs, s)" using Cons by simp
  show ?case unfolding sh
    by (subst parseredirs.simps) (use p g word_token [OF w cl] ih md r in \<open>auto simp: Let_def\<close>)
qed

lemma parse_args_stop: "stops s \<Longrightarrow> parse_args argv rs s = Ok (argv, rs, s)"
  by (subst parse_args.simps) (auto simp: peek_hd [OF stops_clean] stops_def gettoken_def skip_ws_def)

lemma parse_args_show:
  "ws \<noteq> [] \<Longrightarrow> \<forall>w \<in> set ws. wf_word w \<Longrightarrow> length argv + length ws < MAXARGS \<Longrightarrow> \<forall>r \<in> set rs'. wf_redir r \<Longrightarrow> stops s \<Longrightarrow>
   parse_args argv rs (show_words ws @ show_redirs rs' @ s) = Ok (argv @ ws, rs @ rs', s)"
proof (induction ws arbitrary: argv rs)
  case (Cons w ws)
  let ?s = "show_words ws @ show_redirs rs' @ s"
  have w: "wf_word w" using Cons.prems(2) by simp
  have cl: "clean ?s" using Cons.prems words_clean redirs_clean stops_clean by simp
  have sh: "show_words (w # ws) @ show_redirs rs' @ s = w @ CHR '' '' # ?s" by (simp add: show_words_def)
  have p: "\<not> peek (w @ CHR '' '' # ?s) ''|)&;''" by (rule word_peek [OF w word_chars(6)])
  have step: "parse_args argv rs (w @ CHR '' '' # ?s)
      = bnd (parseredirs ?s) (\<lambda>(rs', ps2). parse_args (argv @ [w]) (rs @ rs') ps2)"
    by (subst parse_args.simps) (use p word_token [OF w cl] Cons.prems(3) in \<open>simp add: Let_def\<close>)
  show ?case
  proof (cases "ws = []")
    case True
    then show ?thesis unfolding sh step using parseredirs_show [OF Cons.prems(4,5)] parse_args_stop [OF Cons.prems(5)]
      by (simp add: show_words_def)
  next
    case False
    then obtain v vs where v: "ws = v # vs" by (cases ws) auto
    then have "wf_word v" using Cons.prems(2) by simp
    then have "parseredirs ?s = Ok ([], ?s)" using parseredirs_word [of v] by (simp add: v show_words_def)
    then show ?thesis unfolding sh step using Cons.IH [OF False, of "argv @ [w]" rs] Cons.prems by simp
  qed
qed simp

lemma parseexec_words:
  assumes "\<forall>w \<in> set ws. wf_word w" "length ws < MAXARGS" "\<forall>r \<in> set rs. wf_redir r" "stops s"
  shows "parseexec (Suc n) (show_words ws @ show_redirs rs @ s) = Ok (add_redirs rs (EXEC ws), s)"
proof (cases "ws = []")
  case True
  have "\<not> peek (show_redirs rs @ s) ''(''"
    using assms(4) redirs_clean [OF stops_clean [OF assms(4)], of rs]
    by (cases rs) (auto simp: peek_hd show_redirs_def show_redir_def stops_def)
  then show ?thesis using True parseredirs_show [OF assms(3,4)] parse_args_stop [OF assms(4)] by (simp add: show_words_def)
next
  case False
  then obtain v vs where v: "ws = v # vs" by (cases ws) auto
  let ?s = "show_words ws @ show_redirs rs @ s"
  have w: "wf_word v" using assms(1) v by simp
  have s: "?s = v @ CHR '' '' # show_words vs @ show_redirs rs @ s" by (simp add: v show_words_def)
  have "parseredirs ?s = Ok ([], ?s)" unfolding s by (rule parseredirs_word [OF w])
  moreover have "\<not> peek ?s ''(''" unfolding s by (rule word_peek [OF w word_chars(5)])
  ultimately show ?thesis using parse_args_show [OF False assms(1) _ assms(3,4), of "[]" "[]"] assms(2) by simp
qed

section \<open>Parsing what was printed\<close>

definition ends :: "string \<Rightarrow> bool" where
  "ends s \<longleftrightarrow> s = [] \<or> hd s = CHR '')''"

lemma ends_facts:
  assumes "ends s"
  shows "stops s" "clean s" "\<not> peek s ''|''" "\<not> peek s '';''" "back_loop c s = (c, s)"
proof -
  show st: "stops s" using assms by (auto simp: ends_def stops_def)
  then show cl: "clean s" by (rule stops_clean)
  show "\<not> peek s ''|''" "\<not> peek s '';''" using assms by (auto simp: peek_hd [OF cl] ends_def)
  have "\<not> peek s ''&''" using assms by (auto simp: peek_hd [OF cl] ends_def)
  then show "back_loop c s = (c, s)" by (subst back_loop.simps) simp
qed

lemma symbol_clean: "c \<in> set ''|();&<>'' \<Longrightarrow> clean (c # r)"
  by (auto simp: clean_def whitespace_def)

lemma block_clean: "wf_cmd c \<Longrightarrow> clean s \<Longrightarrow> clean (in_block c (show_cmd c) @ s)"
  by (cases c) (simp_all add: in_block_def words_clean symbol_clean)

lemma show_clean: "wf_cmd c \<Longrightarrow> clean s \<Longrightarrow> clean (show_cmd c @ s)"
  by (cases c) (simp_all add: words_clean block_clean redir_clean symbol_clean)

lemma symbol_peek: "c \<in> set ''|();&<>'' \<Longrightarrow> peek (c # r) toks = (strchr toks c \<noteq> None)"
  by (simp add: peek_hd [OF symbol_clean])

lemma parseblock_show:
  assumes line: "parseline n (show_cmd c @ CHR '')'' # CHR '' '' # show_redirs rs @ s) = Ok (c, CHR '')'' # CHR '' '' # show_redirs rs @ s)"
    and "wf_cmd c" "\<forall>r \<in> set rs. wf_redir r" "stops s"
  shows "parseexec (Suc (Suc n)) (''( '' @ show_cmd c @ '') '' @ show_redirs rs @ s) = Ok (add_redirs rs c, s)"
proof -
  let ?r = "CHR '')'' # CHR '' '' # show_redirs rs @ s"
  have cl: "clean (show_redirs rs @ s)" using redirs_clean stops_clean assms(4) by blast
  have "clean ?r" by (simp add: clean_def whitespace_def)
  then have g: "gettoken (CHR ''('' # CHR '' '' # show_cmd c @ ?r) = (CHR ''('', ''('', show_cmd c @ ?r)"
    by (intro symbol_token show_clean [OF assms(2)]) simp_all
  have g': "gettoken ?r = (CHR '')'', '')'', show_redirs rs @ s)" by (rule symbol_token [OF cl]) simp
  show ?thesis using g g' line parseredirs_show [OF assms(3,4)] by (simp add: symbol_peek)
qed

lemma pipe_single: "parseexec n x = Ok (c, s) \<Longrightarrow> \<not> peek s ''|'' \<Longrightarrow> parsepipe (Suc n) x = Ok (c, s)"
  by simp

lemma line_single: "parsepipe n x = Ok (c, s) \<Longrightarrow> ends s \<Longrightarrow> parseline (Suc n) x = Ok (c, s)"
  using ends_facts [of s] by simp

lemma four_more: "4 * k + 4 \<le> n \<Longrightarrow> \<exists>m. n = Suc (Suc (Suc m)) \<and> 4 * k + 1 \<le> m"
  by (rule exI [of _ "n - 3"]) linarith

lemma no_redirs [simp]: "show_redirs [] = []" "add_redirs [] c = c"
  by (simp_all add: show_redirs_def add_redirs_def)

text \<open>From the two levels of a subcommand to a command that is a block of its own.\<close>

lemma parseexec_block:
  assumes line: "\<And>s n. ends s \<Longrightarrow> 4 * length (show_cmd c @ s) + 4 \<le> n \<Longrightarrow> parseline n (show_cmd c @ s) = Ok (c, s)"
    and c: "wf_cmd c" "\<And>argv. c \<noteq> EXEC argv" and rs: "\<forall>r \<in> set rs. wf_redir r" "stops s"
    and n: "4 * length (in_block c (show_cmd c) @ show_redirs rs @ s) + 2 \<le> n"
  shows "parseexec n (in_block c (show_cmd c) @ show_redirs rs @ s) = Ok (add_redirs rs c, s)"
proof -
  let ?r = "CHR '')'' # CHR '' '' # show_redirs rs @ s"
  have b: "in_block c (show_cmd c) = ''( '' @ show_cmd c @ '') ''" using c(2) by (cases c) (auto simp: in_block_def)
  obtain k where k: "n = Suc (Suc k)" "4 * length (show_cmd c @ ?r) + 4 \<le> k"
    using n that [of "n - 2"] by (simp add: b)
  have "ends ?r" by (simp add: ends_def)
  from parseblock_show [OF line [OF this k(2)] c(1) rs] show ?thesis by (simp add: b k(1))
qed

text \<open>A subcommand where a pipeline is expected.\<close>

lemma parsepipe_block:
  assumes "\<And>s rs n. stops s \<Longrightarrow> \<forall>r \<in> set rs. wf_redir r \<Longrightarrow> 4 * length (in_block c (show_cmd c) @ show_redirs rs @ s) + 2 \<le> n \<Longrightarrow>
      parseexec n (in_block c (show_cmd c) @ show_redirs rs @ s) = Ok (add_redirs rs c, s)"
    and "stops s" "\<not> peek s ''|''" "4 * length (in_block c (show_cmd c) @ s) + 3 \<le> n"
  shows "parsepipe n (in_block c (show_cmd c) @ s) = Ok (c, s)"
proof -
  obtain k where k: "n = Suc k" "4 * length (in_block c (show_cmd c) @ s) + 2 \<le> k" using assms(4) by (cases n) auto
  have "parseexec k (in_block c (show_cmd c) @ s) = Ok (c, s)" using assms(1) [of s "[]" k] assms(2) k(2) by simp
  then show ?thesis unfolding k(1) by (rule pipe_single) (rule assms(3))
qed

lemma parse_show:
  "wf_cmd c \<Longrightarrow> stops s \<Longrightarrow> \<forall>r \<in> set rs. wf_redir r \<Longrightarrow> 4 * length (in_block c (show_cmd c) @ show_redirs rs @ s) + 2 \<le> n \<Longrightarrow>
      parseexec n (in_block c (show_cmd c) @ show_redirs rs @ s) = Ok (add_redirs rs c, s)"
  "wf_cmd c \<Longrightarrow> ends s \<Longrightarrow> 4 * length (show_cmd c @ s) + 4 \<le> n \<Longrightarrow> parseline n (show_cmd c @ s) = Ok (c, s)"
proof (induction c arbitrary: s rs n)
  case (EXEC argv)
  note words = parseexec_words [of argv]
  {
    case 1
    then obtain k where "n = Suc k" by (cases n) auto
    then show ?case using 1 words [of rs s k] by (simp add: in_block_def)
  next
    case 2
    then obtain k where k: "n = Suc (Suc (Suc k))" using four_more by blast
    have "parseexec (Suc k) (show_cmd (EXEC argv) @ s) = Ok (EXEC argv, s)"
      using 2 words [of "[]" s k] ends_facts(1) by simp
    then show ?case unfolding k by (intro line_single pipe_single) (use 2 ends_facts(3) in auto)
  }
next
  case (REDIR c f m d)
  have line: "parseline n (show_cmd (REDIR c f m d) @ s) = Ok (REDIR c f m d, s)"
    if w: "wf_cmd (REDIR c f m d)" and e: "ends s" and n: "4 * length (show_cmd (REDIR c f m d) @ s) + 4 \<le> n" for s n
  proof -
    obtain k where k: "n = Suc (Suc (Suc k))" "4 * length (show_cmd (REDIR c f m d) @ s) + 1 \<le> k"
      using four_more [OF n] by blast
    have "parseexec (Suc k) (in_block c (show_cmd c) @ show_redirs [(f, m, d)] @ s) = Ok (add_redirs [(f, m, d)] c, s)"
      by (rule REDIR.IH(1)) (use w ends_facts(1) [OF e] k(2) in \<open>simp_all add: show_redirs_def\<close>)
    then have "parseexec (Suc k) (show_cmd (REDIR c f m d) @ s) = Ok (REDIR c f m d, s)"
      by (simp add: show_redirs_def add_redirs_def)
    then show ?thesis unfolding k(1) by (intro line_single pipe_single) (use e ends_facts(3) in auto)
  qed
  {
    case 1
    then show ?case by (intro parseexec_block line) auto
  next
    case 2
    then show ?case by (intro line) auto
  }
next
  case (PIPE a b)
  have line: "parseline n (show_cmd (PIPE a b) @ s) = Ok (PIPE a b, s)"
    if w: "wf_cmd (PIPE a b)" and e: "ends s" and n: "4 * length (show_cmd (PIPE a b) @ s) + 4 \<le> n" for s n
  proof -
    obtain k where k: "n = Suc (Suc (Suc k))" "4 * length (show_cmd (PIPE a b) @ s) + 1 \<le> k" using four_more [OF n] by blast
    let ?r = "in_block b (show_cmd b) @ s"
    have cl: "clean ?r" using w block_clean ends_facts(2) [OF e] by simp
    have "parseexec (Suc k) (in_block a (show_cmd a) @ show_redirs [] @ CHR ''|'' # CHR '' '' # ?r) = Ok (add_redirs [] a, CHR ''|'' # CHR '' '' # ?r)"
      by (rule PIPE.IH(1)) (use w k(2) in \<open>simp_all add: stops_def\<close>)
    moreover have "parsepipe (Suc k) ?r = Ok (b, s)"
      by (rule parsepipe_block [OF PIPE.IH(3)]) (use w k(2) ends_facts(1,3) [OF e] in auto)
    moreover have "gettoken (CHR ''|'' # CHR '' '' # ?r) = (CHR ''|'', ''|'', ?r)" by (rule symbol_token [OF cl]) simp
    ultimately have "parsepipe (Suc (Suc k)) (show_cmd (PIPE a b) @ s) = Ok (PIPE a b, s)"
      by (simp del: parseexec.simps add: symbol_peek)
    then show ?thesis unfolding k(1) by (rule line_single) (rule e)
  qed
  {
    case 1
    then show ?case by (intro parseexec_block line) auto
  next
    case 2
    then show ?case by (intro line) auto
  }
next
  case (LIST a b)
  have line: "parseline n (show_cmd (LIST a b) @ s) = Ok (LIST a b, s)"
    if w: "wf_cmd (LIST a b)" and e: "ends s" and n: "4 * length (show_cmd (LIST a b) @ s) + 4 \<le> n" for s n
  proof -
    obtain k where k: "n = Suc (Suc (Suc k))" "4 * length (show_cmd (LIST a b) @ s) + 1 \<le> k" using four_more [OF n] by blast
    let ?r = "in_block b (show_cmd b) @ s"
    have cl: "clean ?r" using w block_clean ends_facts(2) [OF e] by simp
    have "parsepipe (Suc (Suc k)) (in_block a (show_cmd a) @ CHR '';'' # CHR '' '' # ?r) = Ok (a, CHR '';'' # CHR '' '' # ?r)"
      by (rule parsepipe_block [OF LIST.IH(1)]) (use w k(2) in \<open>auto simp: stops_def symbol_peek\<close>)
    moreover have "parseline (Suc (Suc k)) ?r = Ok (b, s)"
      by (rule line_single [OF parsepipe_block [OF LIST.IH(3)] e]) (use w k(2) ends_facts(1,3) [OF e] in auto)
    moreover have "gettoken (CHR '';'' # CHR '' '' # ?r) = (CHR '';'', '';'', ?r)" by (rule symbol_token [OF cl]) simp
    moreover have "back_loop a (CHR '';'' # CHR '' '' # ?r) = (a, CHR '';'' # CHR '' '' # ?r)"
      by (subst back_loop.simps) (simp add: symbol_peek)
    ultimately show ?thesis unfolding k(1) by (simp del: parsepipe.simps add: symbol_peek)
  qed
  {
    case 1
    then show ?case by (intro parseexec_block line) auto
  next
    case 2
    then show ?case by (intro line) auto
  }
next
  case (BACK a)
  have line: "parseline n (show_cmd (BACK a) @ s) = Ok (BACK a, s)"
    if w: "wf_cmd (BACK a)" and e: "ends s" and n: "4 * length (show_cmd (BACK a) @ s) + 4 \<le> n" for s n
  proof -
    obtain k where k: "n = Suc (Suc (Suc k))" "4 * length (show_cmd (BACK a) @ s) + 1 \<le> k" using four_more [OF n] by blast
    have "parsepipe (Suc (Suc k)) (in_block a (show_cmd a) @ CHR ''&'' # CHR '' '' # s) = Ok (a, CHR ''&'' # CHR '' '' # s)"
      by (rule parsepipe_block [OF BACK.IH(1)]) (use w k(2) in \<open>auto simp: stops_def symbol_peek\<close>)
    moreover have "gettoken (CHR ''&'' # CHR '' '' # s) = (CHR ''&'', ''&'', s)" by (rule symbol_token [OF ends_facts(2) [OF e]]) simp
    then have "back_loop a (CHR ''&'' # CHR '' '' # s) = (BACK a, s)"
      by (subst back_loop.simps) (simp add: symbol_peek ends_facts(5) [OF e])
    ultimately show ?thesis unfolding k(1) using ends_facts(4) [OF e] by (simp del: parsepipe.simps)
  qed
  {
    case 1
    then show ?case by (intro parseexec_block line) auto
  next
    case 2
    then show ?case by (intro line) auto
  }
qed

text \<open>
  C17. Every command can be written down and read back: for a command whose words are made of
  ordinary characters, with fewer than ten words in each argument list and redirections of
  the two kinds the shell knows, \<open>parsecmd\<close> applied to its printed form, with parentheses
  around every part that is not an argument list, returns that command.
\<close>

theorem shell_parses_printed: "wf_cmd c \<Longrightarrow> parsecmd (show_cmd c) = Ok c"
  using parse_show(2) [of c "[]" "4 * length (show_cmd c) + 4"] by (simp add: parsecmd_def ends_def skip_ws_def)

theorem shell_parses_printed_witness:
  "parsecmd ''( ls a | ( wc > f ) ) ; ( x & ) '' =
     Ok (LIST (PIPE (EXEC [''ls'', ''a'']) (REDIR (EXEC [''wc'']) ''f'' O_WRONLY_CREATE 1)) (BACK (EXEC [''x''])))"
  using shell_parses_printed [of "LIST (PIPE (EXEC [''ls'', ''a'']) (REDIR (EXEC [''wc'']) ''f'' O_WRONLY_CREATE 1)) (BACK (EXEC [''x'']))"]
  by (simp add: in_block_def show_words_def show_redir_def wf_word_def wf_redir_def word_char_def whitespace_def symbols_def)

end
