(* ===== verification/Umalloc.thy ===== *)
theory Umalloc
  imports Mmu
begin

text \<open>
  The user-level allocator of \<open>umalloc.c\<close>: a circular list of free blocks in address order,
  searched from where the last search ended. Headers are kept in a store by their address, in
  the two fields of the code; a unit of eight bytes is the size of a header.
\<close>

section \<open>State and operations\<close>

text \<open>
  \<open>base_at\<close> is the address of the static header \<open>base\<close> and \<open>brk\<close> the size of the process, which
  \<open>sbrk\<close> moves. A null \<open>freep\<close> is 0.
\<close>

record um_st =
  hptr :: "u32 \<Rightarrow> u32"
  hsize :: "u32 \<Rightarrow> u32"
  freep :: u32
  base_at :: u32
  brk :: u32

abbreviation set_ptr :: "u32 \<Rightarrow> u32 \<Rightarrow> um_st \<Rightarrow> um_st" where
  "set_ptr p v s \<equiv> s\<lparr>hptr := (hptr s)(p := v)\<rparr>"

abbreviation set_size :: "u32 \<Rightarrow> u32 \<Rightarrow> um_st \<Rightarrow> um_st" where
  "set_size p v s \<equiv> s\<lparr>hsize := (hsize s)(p := v)\<rparr>"

text \<open>The header \<open>n\<close> units after a header.\<close>

definition hadd :: "u32 \<Rightarrow> u32 \<Rightarrow> u32" where
  "hadd p n = p + 8 * n"

text \<open>
  \<open>sbrk\<close> as the kernel answers it. \<open>pages\<close> says whether there are pages for the memory between
  two sizes.
\<close>

definition sbrk :: "(u32 \<Rightarrow> u32 \<Rightarrow> bool) \<Rightarrow> u32 \<Rightarrow> um_st \<Rightarrow> u32 \<times> um_st" where
  "sbrk pages n s =
     (let z = brk s in
      if 0 < sint n then
        if KERNBASE \<le> z + n then (-1, s)
        else if z + n < z then (z, s)
        else if pages z (z + n) then (z, s\<lparr>brk := z + n\<rparr>) else (-1, s)
      else if sint n < 0 then
        let z' = (if z \<le> z + n then z else z + n) in if z' = 0 then (-1, s) else (z, s\<lparr>brk := z'\<rparr>)
      else (z, s))"

text \<open>The loop of \<open>free\<close>: the block after which \<open>bp\<close> belongs. It may not end.\<close>

partial_function (option) free_scan :: "u32 \<Rightarrow> u32 \<Rightarrow> um_st \<Rightarrow> u32 option" where
  "free_scan bp p s =
     (if bp > p \<and> bp < hptr s p then Some p
      else if p \<ge> hptr s p \<and> (bp > p \<or> bp < hptr s p) then Some p
      else free_scan bp (hptr s p) s)"

text \<open>Joining \<open>bp\<close> with the free block after it and with the one before it.\<close>

definition join_next :: "u32 \<Rightarrow> u32 \<Rightarrow> um_st \<Rightarrow> um_st" where
  "join_next bp p s =
     (if hadd bp (hsize s bp) = hptr s p
      then set_ptr bp (hptr s (hptr s p)) (set_size bp (hsize s bp + hsize s (hptr s p)) s)
      else set_ptr bp (hptr s p) s)"

definition join_prev :: "u32 \<Rightarrow> u32 \<Rightarrow> um_st \<Rightarrow> um_st" where
  "join_prev bp p s =
     (if hadd p (hsize s p) = bp
      then set_ptr p (hptr s bp) (set_size p (hsize s p + hsize s bp) s)
      else set_ptr p bp s)"

definition free_link :: "u32 \<Rightarrow> u32 \<Rightarrow> um_st \<Rightarrow> um_st" where
  "free_link bp p s = (join_prev bp p (join_next bp p s))\<lparr>freep := p\<rparr>"

definition free :: "u32 \<Rightarrow> um_st \<Rightarrow> um_st option" where
  "free ap s = (let bp = ap - 8 in Option.bind (free_scan bp (freep s) s) (\<lambda>p. Some (free_link bp p s)))"

text \<open>
  The process has the pages up to the one that holds its last byte. \<open>hdr_mem\<close> says that a
  header lies in them. Two of the stores below may be the first access to a header: the one
  of \<open>morecore\<close> at the start of new memory and the one of \<open>malloc\<close> at the piece it cuts off the
  end of a block. Where such a header is not in the memory of the process, the store faults
  and the kernel kills the process: the call does not return, which is the value \<open>None\<close>, as
  for a loop that does not end. Every other header is read or written after one of these
  stores, or is \<open>base\<close>.
\<close>

definition hdr_mem :: "um_st \<Rightarrow> u32 \<Rightarrow> bool" where
  "hdr_mem s p \<longleftrightarrow> unat p + 8 \<le> 4096 * ((unat (brk s) + 4095) div 4096)"

definition morecore :: "(u32 \<Rightarrow> u32 \<Rightarrow> bool) \<Rightarrow> u32 \<Rightarrow> um_st \<Rightarrow> (u32 \<times> um_st) option" where
  "morecore pages nu s =
     (let nu = (if nu < 4096 then 4096 else nu); (p, s) = sbrk pages (nu * 8) s in
      if p = -1 then Some (0, s)
      else if \<not> hdr_mem s p then None
      else Option.bind (free (p + 8) (set_size p nu s)) (\<lambda>s. Some (freep s, s)))"

definition take_block :: "u32 \<Rightarrow> u32 \<Rightarrow> u32 \<Rightarrow> um_st \<Rightarrow> u32 \<times> um_st" where
  "take_block nunits prevp p s =
     (let (p, s) = (if hsize s p = nunits then (p, set_ptr prevp (hptr s p) s)
                    else let s = set_size p (hsize s p - nunits) s; p = hadd p (hsize s p) in (p, set_size p nunits s))
      in (p + 8, s\<lparr>freep := prevp\<rparr>))"

partial_function (option) malloc_loop :: "(u32 \<Rightarrow> u32 \<Rightarrow> bool) \<Rightarrow> u32 \<Rightarrow> u32 \<Rightarrow> u32 \<Rightarrow> um_st \<Rightarrow> (u32 \<times> um_st) option" where
  "malloc_loop pages nunits prevp p s =
     (if hsize s p \<ge> nunits then
        if hdr_mem s (hadd p (hsize s p - nunits)) then Some (take_block nunits prevp p s) else None
      else if p = freep s then
        Option.bind (morecore pages nunits s) (\<lambda>(p, s). if p = 0 then Some (0, s) else malloc_loop pages nunits p (hptr s p) s)
      else malloc_loop pages nunits p (hptr s p) s)"

definition um_init :: "um_st \<Rightarrow> um_st" where
  "um_init s = (if freep s = 0 then set_size (base_at s) 0 (set_ptr (base_at s) (base_at s) (s\<lparr>freep := base_at s\<rparr>)) else s)"

definition malloc :: "(u32 \<Rightarrow> u32 \<Rightarrow> bool) \<Rightarrow> u32 \<Rightarrow> um_st \<Rightarrow> (u32 \<times> um_st) option" where
  "malloc pages nbytes s =
     (let nunits = (nbytes + 8 - 1) div 8 + 1; s = um_init s in malloc_loop pages nunits (freep s) (hptr s (freep s)) s)"

declare free_scan.simps [code] malloc_loop.simps [code]

definition um0 :: um_st where
  "um0 = \<lparr>hptr = \<lambda>_. 0, hsize = \<lambda>_. 0, freep = 0, base_at = 0x1000, brk = 0x4000\<rparr>"

section \<open>The free list\<close>

definition nxt :: "u32 list \<Rightarrow> u32 \<Rightarrow> u32" where
  "nxt xs e = (case xs of [] \<Rightarrow> e | x # _ \<Rightarrow> x)"

primrec linked :: "(u32 \<Rightarrow> u32) \<Rightarrow> u32 list \<Rightarrow> u32 \<Rightarrow> bool" where
  "linked h [] e = True"
| "linked h (x # xs) e = (h x = nxt xs e \<and> linked h xs e)"

lemma nxt_simps [simp]: "nxt [] e = e" "nxt (x # xs) e = x" "nxt (xs @ ys) e = nxt xs (nxt ys e)"
  by (simp_all add: nxt_def split: list.splits)

lemma linked_append [simp]: "linked h (xs @ ys) e \<longleftrightarrow> linked h xs (nxt ys e) \<and> linked h ys e"
  by (induction xs) auto

lemma linked_upd [simp]: "p \<notin> set xs \<Longrightarrow> linked (h(p := v)) xs e = linked h xs e"
  by (induction xs) auto

text \<open>The end of a block, and the bytes of a list of blocks.\<close>

definition ext :: "um_st \<Rightarrow> u32 \<Rightarrow> nat" where
  "ext s x = unat x + 8 * unat (hsize s x)"

definition fbytes :: "um_st \<Rightarrow> u32 list \<Rightarrow> nat set" where
  "fbytes s xs = (\<Union>x \<in> set xs. {unat x..<ext s x})"

definition ordered :: "um_st \<Rightarrow> u32 list \<Rightarrow> bool" where
  "ordered s xs \<longleftrightarrow> sorted_wrt (\<lambda>x y. ext s x < unat y) xs"

text \<open>
  The free list from \<open>base\<close> on: linked into a circle, in address order with a gap between
  neighbours, no block but \<open>base\<close> empty, all below the end of the memory.
\<close>

definition heap_ok :: "um_st \<Rightarrow> u32 list \<Rightarrow> bool" where
  "heap_ok s xs \<longleftrightarrow> (\<exists>bs. xs = base_at s # bs) \<and> (\<forall>x \<in> set xs. x \<noteq> base_at s \<longrightarrow> 0 < hsize s x) \<and> linked (hptr s) xs (base_at s) \<and> ordered s xs
     \<and> (\<forall>x \<in> set xs. ext s x \<le> unat (brk s)) \<and> hsize s (base_at s) = 0 \<and> base_at s \<noteq> 0 \<and> freep s \<in> set xs
     \<and> base_at s < brk s \<and> brk s \<le> KERNBASE"

lemma ordered_sorted: "ordered s xs \<Longrightarrow> sorted_wrt (<) xs"
  unfolding ordered_def by (rule sorted_wrt_mono_rel [rotated], assumption) (simp add: ext_def word_less_nat_alt)

lemma ordered_distinct: "ordered s xs \<Longrightarrow> distinct xs"
  using ordered_sorted strict_sorted_iff by blast

lemma ordered_cong:
  assumes "\<And>x. x \<in> set xs \<Longrightarrow> hsize t x = hsize s x"
  shows "ordered t xs = ordered s xs"
  unfolding ordered_def using assms by (intro iffI; elim sorted_wrt_mono_rel [rotated]) (auto simp: ext_def)

lemma fbytes_cong: "(\<And>x. x \<in> set xs \<Longrightarrow> hsize t x = hsize s x) \<Longrightarrow> fbytes t xs = fbytes s xs"
  by (simp add: fbytes_def ext_def)

lemma fbytes_simps [simp]: "fbytes s [] = {}" "fbytes s (x # xs) = {unat x..<ext s x} \<union> fbytes s xs" "fbytes s (xs @ ys) = fbytes s xs \<union> fbytes s ys"
  by (auto simp: fbytes_def)

lemma unat_hadd: "unat p + 8 * unat n < 2 ^ 32 \<Longrightarrow> unat (hadd p n) = unat p + 8 * unat n"
  by (simp add: hadd_def unat_word_ariths)

lemma hadd_eq_iff: "unat p + 8 * unat n < 2 ^ 32 \<Longrightarrow> hadd p n = q \<longleftrightarrow> unat p + 8 * unat n = unat q"
  using unat_hadd [of p n] by (auto simp: word_unat_eq_iff)

lemma heap_okD:
  assumes "heap_ok s xs"
  shows "linked (hptr s) xs (base_at s)" "ordered s xs" "freep s \<in> set xs" "x \<in> set xs \<Longrightarrow> x \<noteq> base_at s \<Longrightarrow> 0 < hsize s x"
    "x \<in> set xs \<Longrightarrow> ext s x \<le> unat (brk s)" "hsize s (base_at s) = 0" "base_at s \<noteq> 0" "unat (base_at s) < unat (brk s)" "unat (brk s) \<le> 2 ^ 31"
    "xs = base_at s # tl xs" "brk s \<le> KERNBASE"
  using assms by (auto simp: heap_ok_def word_less_nat_alt word_le_nat_alt)

section \<open>Freeing a block\<close>

lemma scan_forward:
  assumes "linked (hptr s) (q # cs) p" "sorted_wrt (<) (q # cs @ [p])" "p < bp" "free_scan bp p s = Some p"
  shows "free_scan bp q s = Some p"
  using assms
proof (induction cs arbitrary: q)
  case Nil
  then show ?case by (subst free_scan.simps) auto
next
  case (Cons x cs)
  then have "free_scan bp x s = Some p" "x < p" by auto
  then show ?case using Cons.prems by (subst free_scan.simps) auto
qed

lemma scan_back:
  assumes "linked (hptr s) (q # zs) b" "sorted_wrt (<) (q # zs)" "bp < q" "b < bp" "free_scan bp b s = r"
  shows "free_scan bp q s = r"
  using assms
proof (induction zs arbitrary: q)
  case Nil
  then show ?case by (subst free_scan.simps) auto
next
  case (Cons x zs)
  then have "free_scan bp x s = r" "q < x" by auto
  then show ?case using Cons.prems by (subst free_scan.simps) auto
qed

text \<open>The scan finds the block before \<open>bp\<close>, wherever it starts.\<close>

lemma free_scan_ok:
  assumes h: "heap_ok s (us @ p # ys)" and bp: "p < bp" "\<forall>y \<in> set ys. bp < y"
  shows "free_scan bp (freep s) s = Some p"
proof -
  let ?L = "us @ p # ys" and ?b = "base_at s"
  have so: "sorted_wrt (<) ?L" by (rule ordered_sorted [OF heap_okD(2) [OF h]])
  have li: "linked (hptr s) ?L ?b" by (rule heap_okD(1) [OF h])
  have hd: "nxt (us @ [p]) ?b = ?b" using heap_okD(10) [OF h] by (cases us) auto
  have at: "free_scan bp p s = Some p"
  proof (cases ys)
    case Nil
    then have "?b \<le> p" using so hd by (cases us) auto
    then show ?thesis using li bp Nil by (subst free_scan.simps) auto
  next
    case (Cons y zs)
    then show ?thesis using li bp by (subst free_scan.simps) auto
  qed
  have front: "free_scan bp q s = Some p" if q: "q \<in> set us" for q
  proof -
    obtain as cs where u: "us = as @ q # cs" using q by (auto simp: in_set_conv_decomp)
    show ?thesis using li so bp(1) at unfolding u by (intro scan_forward [of s q cs]) (auto simp: sorted_wrt_append)
  qed
  have bb: "free_scan bp ?b s = Some p" "?b < bp"
    using hd front [of "?b"] at bp(1) so by (cases us; auto simp: sorted_wrt_append)+
  have rear: "free_scan bp q s = Some p" if q: "q \<in> set ys" for q
  proof -
    obtain as cs where u: "ys = as @ q # cs" using q by (auto simp: in_set_conv_decomp)
    show ?thesis using li so bp bb unfolding u
      by (intro scan_back [of s q cs "?b"]) (auto simp: sorted_wrt_append)
  qed
  show ?thesis using heap_okD(3) [OF h] front rear at by auto
qed

lemma ordered_Nil [simp]: "ordered s []"
  by (simp add: ordered_def)

lemma ordered_Cons: "ordered s (x # xs) \<longleftrightarrow> (\<forall>y \<in> set xs. ext s x < unat y) \<and> ordered s xs"
  by (simp add: ordered_def)

lemma ordered_append: "ordered s (xs @ ys) \<longleftrightarrow> ordered s xs \<and> ordered s ys \<and> (\<forall>x \<in> set xs. \<forall>y \<in> set ys. ext s x < unat y)"
  by (simp add: ordered_def sorted_wrt_append)

text \<open>Joining two blocks of which the second starts where the first ends.\<close>

lemma size_sum:
  assumes "ext s x = unat y" "ext s y < 2 ^ 32"
  shows "unat (hsize s x + hsize s y) = unat (hsize s x) + unat (hsize s y)" "unat x + 8 * unat (hsize s x + hsize s y) = ext s y"
proof -
  have "unat (hsize s x) + unat (hsize s y) < 2 ^ 32" using assms by (simp add: ext_def)
  then show u: "unat (hsize s x + hsize s y) = unat (hsize s x) + unat (hsize s y)" by (simp add: unat_word_ariths)
  show "unat x + 8 * unat (hsize s x + hsize s y) = ext s y" using assms(1) by (simp add: u ext_def)
qed

lemma join_ivl:
  assumes "ext s x = unat y"
  shows "{unat x..<ext s x} \<union> {unat y..<ext s y} = {unat x..<ext s y}"
proof -
  have "unat x \<le> ext s x" "unat y \<le> ext s y" by (simp_all add: ext_def)
  then show ?thesis using assms by (simp add: ivl_disj_un_two(3))
qed

lemma join_next_ok:
  assumes li: "linked (hptr s) (p # ys) e" and o: "ordered s ys" and bp: "bp \<notin> set ys" "p \<noteq> bp" "\<forall>y \<in> set ys. ext s bp \<le> unat y"
    and z: "e \<le> bp" "\<forall>x \<in> set ys. ext s x \<le> N" "ext s bp \<le> N" "N < 2 ^ 32" "0 < hsize s bp"
    and t: "t = join_next bp p s"
  shows "\<exists>zs. linked (hptr t) (bp # zs) e \<and> ordered t (bp # zs) \<and> fbytes t (bp # zs) = fbytes s (bp # ys) \<and> set zs \<subseteq> set ys
    \<and> ext s bp \<le> ext t bp \<and> ext t bp \<le> N"
proof -
  have pl: "hadd bp (hsize s bp) = q \<longleftrightarrow> ext s bp = unat q" for q
    using z(3,4) hadd_eq_iff [of bp "hsize s bp" q] by (simp add: ext_def)
  show ?thesis
  proof (cases "ext s bp = unat (hptr s p)")
    case False
    then have t: "t = set_ptr bp (hptr s p) s" using t pl by (simp add: join_next_def)
    have lt: "ext s bp < unat y" if y: "y \<in> set ys" for y
    proof -
      obtain x xs where ys: "ys = x # xs" using y by (cases ys) auto
      then have "ext s bp < unat x" using bp(3) False li by auto
      moreover have "y = x \<or> ext s x < unat y" using o y ys by (auto simp: ordered_Cons)
      ultimately show ?thesis by (auto simp: ext_def)
    qed
    have "ordered t (bp # ys)" using o lt ordered_cong [of ys t s] by (simp add: t ordered_Cons ext_def)
    moreover have "fbytes t (bp # ys) = fbytes s (bp # ys)" by (rule fbytes_cong) (simp add: t)
    ultimately show ?thesis using li bp(1) z(3) by (intro exI [of _ ys]) (simp add: t ext_def)
  next
    case True
    have "unat e \<le> unat bp" using z(1) by (simp add: word_le_nat_alt)
    then have "ys \<noteq> []" using True li z(5) by (auto simp: ext_def word_less_nat_alt)
    then obtain y zs where ys: "ys = y # zs" by (cases ys) auto
    have y: "hptr s p = y" "ext s bp = unat y" "ext s y < 2 ^ 32" using li True z(2,4) ys by auto
    have t: "t = set_ptr bp (hptr s y) (set_size bp (hsize s bp + hsize s y) s)" using t pl y by (simp add: join_next_def)
    note S = size_sum [OF y(2,3)]
    have e: "ext t bp = ext s y" using S(2) by (simp add: t ext_def)
    have same: "hsize t x = hsize s x" "hptr t x = hptr s x" if "x \<in> set zs" for x using that bp(1) ys by (auto simp: t)
    have "ordered t zs" using o same ordered_cong [of zs t s] ys by (simp add: ordered_Cons)
    then have "ordered t (bp # zs)" using o e ys by (simp add: ordered_Cons)
    moreover have "fbytes t (bp # zs) = fbytes s (bp # ys)"
    proof -
      have "fbytes t zs = fbytes s zs" by (rule fbytes_cong) (rule same)
      moreover have "{unat bp..<ext s bp} \<union> {unat y..<ext s y} = {unat bp..<ext s y}"
        by (rule join_ivl [OF y(2)])
      ultimately show ?thesis using e ys by (simp add: Un_assoc [symmetric])
    qed
    moreover have "linked (hptr t) (bp # zs) e" using li ys bp(1) by (simp add: t)
    moreover have "ext s bp \<le> ext t bp" using e y(2) by (simp add: ext_def)
    ultimately show ?thesis using e z(2) ys by (intro exI [of _ zs]) auto
  qed
qed

lemma join_prev_ok:
  assumes li: "linked (hptr s) (us @ [p]) q" "linked (hptr s) (bp # zs) e" and o: "ordered s (us @ [p])" "ordered s (bp # zs)"
    and bp: "bp \<notin> set (us @ [p])" "p < bp" "ext s p \<le> unat bp" "set (us @ [p]) \<inter> set zs = {}" and N: "ext s bp \<le> N" "ext s p \<le> N" "N < 2 ^ 32"
    and t: "t = join_prev bp p s"
  shows "\<exists>x xs. linked (hptr t) (us @ p # xs) e \<and> ordered t (us @ p # xs) \<and> fbytes t (us @ p # xs) = fbytes s (us @ [p]) \<union> fbytes s (bp # zs)
    \<and> set xs \<subseteq> insert bp (set zs) \<and> ext t p \<le> N \<and> hsize s p \<le> hsize t p \<and> x \<in> set (p # xs) \<and> {unat bp..<ext s bp} \<subseteq> {unat x..<ext t x}"
proof -
  have us: "ext s u < unat p" "u \<noteq> p" "u \<noteq> bp" if "u \<in> set us" for u using that o(1) bp(1) by (auto simp: ordered_append ext_def)
  have lt: "unat p < unat y" if "y \<in> set (bp # zs)" for y
    using that o(2) bp(2) by (auto simp: ordered_Cons ext_def word_less_nat_alt) 
  have z: "bp \<notin> set zs" "p \<notin> set zs" "p \<notin> set us" using ordered_distinct [OF o(2)] ordered_distinct [OF o(1)] bp(4) by auto
  show ?thesis
  proof (cases "ext s p = unat bp")
    case False
    then have t: "t = set_ptr p bp s" using t N hadd_eq_iff [of p "hsize s p" bp] by (simp add: join_prev_def ext_def)
    have ex: "ext t = ext s" by (auto simp: t ext_def)
    have "ordered t (us @ p # bp # zs)"
    proof -
      have "ext s p < unat y" if "y \<in> set (bp # zs)" for y using that o(2) False bp(3) by (auto simp: ordered_Cons ext_def)
      moreover have "ext s u < unat y" if "u \<in> set us" "y \<in> set (bp # zs)" for u y using us(1) [OF that(1)] lt [OF that(2)] by simp
      ultimately show ?thesis using o ex unfolding ordered_def by (auto simp: sorted_wrt_append)
    qed
    moreover have "linked (hptr t) (us @ p # bp # zs) e" using li z bp(2) by (auto simp: t)
    moreover have "fbytes t (us @ p # bp # zs) = fbytes s (us @ [p]) \<union> fbytes s (bp # zs)" by (auto simp: fbytes_def ex)
    ultimately show ?thesis using N(2) ex by (intro exI [of _ bp] exI [of _ "bp # zs"]) (simp add: t)
  next
    case True
    have t: "t = set_ptr p (hptr s bp) (set_size p (hsize s p + hsize s bp) s)"
      using t N True hadd_eq_iff [of p "hsize s p" bp] by (simp add: join_prev_def ext_def)
    have "ext s bp < 2 ^ 32" using N by simp
    note S = size_sum [OF True this]
    have e: "ext t p = ext s bp" using S(2) by (simp add: t ext_def)
    have same: "hsize t x = hsize s x" if "x \<noteq> p" for x using that by (simp add: t)
    have ex: "ext t x = ext s x" if "x \<noteq> p" for x using same [OF that] by (simp add: ext_def)
    have both: "hsize t x = hsize s x" if "x \<in> set us \<or> x \<in> set zs" for x using that same z(2,3) by (cases "x = p") auto
    then have "ordered t us" "ordered t zs" using o ordered_cong [of us t s] ordered_cong [of zs t s]
      by (simp_all add: ordered_append ordered_Cons)
    moreover have "ext t u < unat y" if "u \<in> set us" "y \<in> set zs" for u y using us(1,2) [OF that(1)] ex lt that(2) by fastforce
    moreover have "ext t p < unat y" if "y \<in> set zs" for y using that o(2) e by (simp add: ordered_Cons)
    ultimately have "ordered t (us @ p # zs)" using us ex by (auto simp: ordered_append ordered_Cons)
    moreover have "linked (hptr t) (us @ p # zs) e" using li z bp(2) by (auto simp: t)
    moreover have "fbytes t (us @ p # zs) = fbytes s (us @ [p]) \<union> fbytes s (bp # zs)"
    proof -
      have "fbytes t us = fbytes s us" "fbytes t zs = fbytes s zs" using both by (auto intro!: fbytes_cong)
      moreover have "{unat p..<ext s p} \<union> {unat bp..<ext s bp} = {unat p..<ext s bp}"
        by (rule join_ivl [OF True])
      ultimately show ?thesis using e by (simp add: Un_assoc) (simp add: Un_assoc [symmetric])
    qed
    moreover have "hsize s p \<le> hsize t p" using S(1) by (simp add: t word_le_nat_alt)
    ultimately show ?thesis using N(1) e bp(2) by (intro exI [of _ p] exI [of _ zs]) (auto simp: word_less_nat_alt)
  qed
qed

lemma join_fields [simp]:
  "brk (join_next bp p s) = brk s" "base_at (join_next bp p s) = base_at s" "brk (join_prev bp p s) = brk s" "base_at (join_prev bp p s) = base_at s"
  by (simp_all add: join_next_def join_prev_def)

lemma join_other:
  "a \<noteq> bp \<Longrightarrow> hsize (join_next bp p s) a = hsize s a \<and> hptr (join_next bp p s) a = hptr s a"
  "a \<noteq> p \<Longrightarrow> hsize (join_prev bp p s) a = hsize s a"
  by (simp_all add: join_next_def join_prev_def)

lemma linked_cong: "(\<And>x. x \<in> set xs \<Longrightarrow> h x = g x) \<Longrightarrow> linked h xs e = linked g xs e"
  by (induction xs) auto

text \<open>
  Freeing a block that lies outside all free ones puts its bytes into the free list, in the
  right place and joined with its neighbours.
\<close>

lemma free_ok:
  assumes h: "heap_ok s L" and bp: "base_at s < bp" "0 < hsize s bp" "ext s bp \<le> unat (brk s)"
    and d: "\<forall>x \<in> set L. ext s bp \<le> unat x \<or> ext s x \<le> unat bp"
  shows "\<exists>t K. free (bp + 8) s = Some t \<and> heap_ok t K \<and> fbytes t K = fbytes s L \<union> {unat bp..<ext s bp}
    \<and> (\<exists>x \<in> set K. {unat bp..<ext s bp} \<subseteq> {unat x..<ext t x}) \<and> (\<forall>a. a \<notin> set L \<longrightarrow> a \<noteq> bp \<longrightarrow> hsize t a = hsize s a)
    \<and> brk t = brk s \<and> base_at t = base_at s"
proof -
  let ?b = "base_at s" and ?N = "unat (brk s)"
  note H = heap_okD [OF h]
  have bn: "ext s bp > unat bp" using bp(2) by (simp add: ext_def word_less_nat_alt)
  have ne: "bp \<notin> set L" using d bn by (auto simp: ext_def dest!: bspec [of _ _ bp])
  have "\<exists>x \<in> set L. x < bp" using H(10) bp(1) by (metis list.set_intros(1))
  then obtain us p ys where L: "L = us @ p # ys" and p: "p < bp" and ys: "\<forall>y \<in> set ys. \<not> y < bp"
    using split_list_last_prop [of L "\<lambda>x. x < bp"] by blast
  have ys: "bp < y" "ext s bp \<le> unat y" if "y \<in> set ys" for y
  proof -
    have "y \<noteq> bp" using that ne L by auto
    then show "bp < y" using ys that by auto
    then have "unat bp < unat y" "unat y \<le> ext s y" by (simp_all add: word_less_nat_alt ext_def)
    then show "ext s bp \<le> unat y" using d that L by (fastforce dest!: bspec [of _ _ y])
  qed
  have pe: "ext s p \<le> unat bp" using d L p bn by (auto simp: word_less_nat_alt)
  have sc: "free_scan bp (freep s) s = Some p" using free_scan_ok [of s us p ys bp] h L p ys(1) by simp
  have N: "?N < 2 ^ 32" using H(9) by simp
  define s1 where "s1 = join_next bp p s"
  have o: "ordered s (us @ [p])" "ordered s ys" "set (us @ [p]) \<inter> set ys = {}" using H(2) ordered_distinct [OF H(2)] L by (auto simp: ordered_append ordered_Cons)
  obtain zs where z: "linked (hptr s1) (bp # zs) ?b" "ordered s1 (bp # zs)" "fbytes s1 (bp # zs) = fbytes s (bp # ys)" "set zs \<subseteq> set ys"
    "ext s bp \<le> ext s1 bp" "ext s1 bp \<le> ?N"
    using join_next_ok [of s p ys ?b bp ?N s1] H(1,5) o(2) ne L p bp less_imp_le [OF bp(1)] ys(2) N s1_def by auto
  have same: "hsize s1 a = hsize s a" "hptr s1 a = hptr s a" if "a \<noteq> bp" for a using join_other(1) [OF that] by (simp_all add: s1_def)
  have fr: "hsize s1 x = hsize s x" "hptr s1 x = hptr s x" if "x \<in> set (us @ [p])" for x
    using that same [of x] ne L by (cases "x = bp"; simp)+
  have li1: "linked (hptr s1) (us @ [p]) (nxt ys ?b)" 
    using H(1) L by (subst linked_cong [of "us @ [p]" "hptr s1" "hptr s", OF fr(2)]) simp_all
  have o1: "ordered s1 (us @ [p])" using o(1) by (subst ordered_cong [of "us @ [p]" s1 s, OF fr(1)])
  have p1: "ext s1 p = ext s p" using fr(1) [of p] by (simp add: ext_def)
  define t where "t = join_prev bp p s1"
  have "ext s1 p \<le> ?N" using p1 H(5) L by simp
  then obtain x xs where x: "linked (hptr t) (us @ p # xs) ?b" "ordered t (us @ p # xs)" "fbytes t (us @ p # xs) = fbytes s1 (us @ [p]) \<union> fbytes s1 (bp # zs)"
    "set xs \<subseteq> insert bp (set zs)" "ext t p \<le> ?N" "hsize s1 p \<le> hsize t p" "x \<in> set (p # xs)" "{unat bp..<ext s1 bp} \<subseteq> {unat x..<ext t x}"
    using join_prev_ok [OF li1 z(1) o1 z(2), of ?N t] ne L p pe p1 z(4,6) o(3) N t_def by auto
  have st: "hsize t a = hsize s1 a" if "a \<noteq> p" for a using join_other(2) [OF that] by (simp add: t_def)
  have pb: "p = ?b \<Longrightarrow> ext s p < unat bp" using bp(1) H(6) by (simp add: ext_def word_less_nat_alt)
  have "hadd p (hsize s1 p) \<noteq> bp" if "p = ?b" using pb [OF that] hadd_eq_iff [of p "hsize s1 p" bp] p1 N pe unsigned_less [of bp, where ?'a = nat] by (simp add: ext_def)
  then have tb: "hsize t p = hsize s1 p" if "p = ?b" using that by (simp add: t_def join_prev_def)
  let ?K = "us @ p # xs" and ?t = "t\<lparr>freep := p\<rparr>"
  have K: "\<exists>bs. ?K = ?b # bs" using H(10) L by (cases us) auto
  have part: "a \<in> set us \<or> a = p \<or> a = bp \<or> a \<in> set ys" if "a \<in> set ?K" for a using that x(4) z(4) by auto
  have pu: "p \<notin> set us" "p \<notin> set ys" "p \<noteq> bp" "bp \<notin> set us" "bp \<notin> set ys" using o ordered_distinct [OF o(1)] p ne L by auto
  have sz: "hsize t a = hsize s a" if "a \<in> set us \<or> a \<in> set ys" for a using that st same pu by metis
  have bs: "hsize s bp \<le> hsize t bp" "ext t bp = ext s1 bp" using st [of bp] pu(3) z(5) by (simp_all add: ext_def word_le_nat_alt)
  have ps: "hsize s p \<le> hsize t p" using x(6) fr(1) [of p] by simp
  have pos: "0 < hsize t a" if a: "a \<in> set ?K" "a \<noteq> ?b" for a
  proof (cases "a \<in> set us \<or> a \<in> set ys")
    case True
    then show ?thesis using sz [OF True] H(4) [of a] a(2) L by auto
  next
    case False
    then have "a = p \<or> a = bp" using part [OF a(1)] by blast
    then show ?thesis using ps bs(1) bp(2) H(4) [of p] a(2) L by (auto intro: less_le_trans)
  qed
  have lim: "ext t a \<le> ?N" if a: "a \<in> set ?K" for a
    using part [OF a] sz H(5) L bs(2) z(6) x(5) by (auto simp: ext_def)
  have b0: "hsize t ?b = 0"
  proof (cases "?b = p")
    case True
    then show ?thesis using tb fr(1) [of p] H(6) by simp
  next
    case False
    then have "?b \<in> set us" using K by (cases us) auto
    then show ?thesis using sz H(6) by auto
  qed
  have "ordered ?t ?K" using x(2) by (simp add: ordered_cong [of ?K ?t t])
  then have "heap_ok ?t ?K" using K pos lim b0 x(1) H(7,8,11) unfolding heap_ok_def
    by (simp add: t_def s1_def ext_def word_less_nat_alt)
  moreover have "free (bp + 8) s = Some ?t" using sc by (simp add: free_def free_link_def t_def s1_def)
  moreover have "fbytes ?t ?K = fbytes s L \<union> {unat bp..<ext s bp}"
  proof -
    have "fbytes s1 (us @ [p]) = fbytes s (us @ [p])" by (rule fbytes_cong) (rule fr(1))
    moreover have "fbytes ?t ?K = fbytes t ?K" by (rule fbytes_cong) simp
    ultimately show ?thesis using x(3) z(3) L by auto
  qed
  moreover have "\<exists>x \<in> set ?K. {unat bp..<ext s bp} \<subseteq> {unat x..<ext ?t x}"
    using x(7,8) z(5) by (intro bexI [of _ x]) (auto simp: ext_def)
  moreover have "hsize ?t a = hsize s a" if "a \<notin> set L" "a \<noteq> bp" for a using that st [of a] same [of a] L by auto
  moreover have "brk ?t = brk s" "base_at ?t = base_at s" by (simp_all add: t_def s1_def)
  ultimately show ?thesis by blast
qed

section \<open>Taking a block\<close>

text \<open>A block that fits is not \<open>base\<close>, and the block that links to it is the one before it.\<close>

lemma fit_split:
  assumes h: "heap_ok s L" and w: "w \<in> set L" "0 < n" "n \<le> hsize s w" and p: "p \<in> set L" "hptr s p = w"
  shows "\<exists>us zs. L = us @ p # w # zs" "w \<noteq> base_at s" "base_at s < w" "unat a \<notin> fbytes s L \<Longrightarrow> a \<noteq> w" "{unat w..<ext s w} \<subseteq> fbytes s L"
proof -
  note H = heap_okD [OF h]
  show wb: "w \<noteq> base_at s" using w(2,3) H(6) by (auto simp: word_less_nat_alt word_le_nat_alt)
  obtain us ys where Lp: "L = us @ p # ys" using p(1) by (auto simp: in_set_conv_decomp)
  have "ys \<noteq> []" using H(1) Lp p(2) wb by auto
  then show "\<exists>us zs. L = us @ p # w # zs" using H(1) Lp p(2) by (cases ys) auto
  have "sorted_wrt (<) (base_at s # tl L)" using ordered_sorted [OF H(2)] H(10) by simp
  then show "base_at s < w" using w(1) wb H(10) by (metis set_ConsD sorted_wrt.simps(2))
  show fw: "{unat w..<ext s w} \<subseteq> fbytes s L" using w(1) by (auto simp: fbytes_def)
  have "unat w \<in> {unat w..<ext s w}" using w(2,3) by (simp add: ext_def word_less_nat_alt word_le_nat_alt)
  then show "unat a \<notin> fbytes s L \<Longrightarrow> a \<noteq> w" using fw by blast
qed

text \<open>Two blocks of the list have no byte in common.\<close>

lemma ordered_disjoint:
  "ordered s (us @ w # zs) \<Longrightarrow> x \<in> set us \<or> x \<in> set zs \<Longrightarrow> {unat x..<ext s x} \<inter> {unat w..<ext s w} = {}"
  by (auto simp: ordered_append ordered_Cons ext_def)

lemma take_exact:
  assumes h: "heap_ok s (us @ p # w # zs)" and w: "w \<noteq> base_at s" and t: "t = set_ptr p (hptr s w) s\<lparr>freep := p\<rparr>"
  shows "heap_ok t (us @ p # zs)" "fbytes t (us @ p # zs) = fbytes s (us @ p # w # zs) - {unat w..<ext s w}"
proof -
  note H = heap_okD [OF h]
  let ?K = "us @ p # zs"
  have di: "distinct (us @ p # w # zs)" by (rule ordered_distinct [OF H(2)])
  have ex: "ext t = ext s" "hsize t = hsize s" by (auto simp: t ext_def)
  have "linked (hptr t) ?K (base_at s)" using H(1) di by (simp add: t)
  moreover have "ordered t ?K" using H(2) ex by (auto simp: ordered_def sorted_wrt_append)
  moreover have "\<exists>bs. ?K = base_at s # bs" using H(10) by (cases us) auto
  ultimately show "heap_ok t ?K" using H(4-8,11) ex unfolding heap_ok_def by (auto simp: t word_less_nat_alt)
  have "{unat x..<ext s x} \<inter> {unat w..<ext s w} = {}" if "x \<in> set ?K" for x
    using that ordered_disjoint [of s "us @ [p]" w zs x] H(2) by auto
  then have "fbytes s ?K \<inter> {unat w..<ext s w} = {}" unfolding fbytes_def by blast
  moreover have "fbytes s (us @ p # w # zs) = fbytes s ?K \<union> {unat w..<ext s w}" by auto
  moreover have "fbytes t ?K = fbytes s ?K" by (simp add: fbytes_def ex)
  ultimately show "fbytes t ?K = fbytes s (us @ p # w # zs) - {unat w..<ext s w}" by auto
qed

lemma take_tail:
  assumes h: "heap_ok s L" and L: "L = us @ p # w # zs" and w: "w \<noteq> base_at s" "0 < n" "n < hsize s w"
    and q: "q = hadd w (hsize s w - n)" and t: "t = set_size q n (set_size w (hsize s w - n) s)\<lparr>freep := p\<rparr>"
  shows "heap_ok t L" "fbytes t L = fbytes s L - {unat q..<ext t q}" "unat w < unat q" "ext t q = ext s w" "hsize t q = n"
    "a \<noteq> w \<Longrightarrow> a \<noteq> q \<Longrightarrow> hsize t a = hsize s a"
proof -
  note H = heap_okD [OF h]
  let ?m = "hsize s w - n"
  have o: "ordered s (us @ p # w # zs)" and wL: "w \<in> set L" using H(2) L by simp_all
  have m: "unat ?m = unat (hsize s w) - unat n" "0 < unat n" "unat n < unat (hsize s w)"
    using w(2,3) by (auto simp: unat_sub word_less_nat_alt word_le_nat_alt)
  have uq: "unat q = unat w + 8 * unat ?m" unfolding q using H(5) [OF wL] H(9) m by (intro unat_hadd) (simp add: ext_def)
  show qw: "unat w < unat q" using uq m by simp
  have qe: "unat q + 8 * unat n = ext s w" using uq m by (simp add: ext_def)
  have qL: "q \<notin> set L"
  proof
    assume "q \<in> set L"
    then have "q \<in> set us \<or> q = p \<or> q = w \<or> q \<in> set zs" using L by auto
    then show False using o qw qe m by (auto simp: ordered_append ordered_Cons ext_def)
  qed
  show same: "hsize t a = hsize s a" if "a \<noteq> w" "a \<noteq> q" for a using that by (simp add: t)
  have sL: "hsize t x = hsize s x" if "x \<in> set L" "x \<noteq> w" for x using same that qL by (cases "x = q") auto
  have tw: "hsize t w = ?m" "ext t w = unat q" using qw uq by (auto simp: t ext_def)
  show tq: "ext t q = ext s w" "hsize t q = n" using qe by (simp_all add: t ext_def)
  have le: "ext t x \<le> ext s x" if "x \<in> set L" for x using sL [OF that] tw(2) qw qe by (cases "x = w") (auto simp: ext_def)
  have "ordered t L" unfolding ordered_def
    by (rule sorted_wrt_mono_rel [OF _ H(2) [unfolded ordered_def]]) (meson le le_less_trans)
  moreover have "0 < hsize t x" if "x \<in> set L" "x \<noteq> base_at s" for x
    using H(4) [OF that] sL [OF that(1)] tw(1) m by (cases "x = w") (auto simp: word_less_nat_alt)
  moreover have "ext t x \<le> unat (brk s)" if "x \<in> set L" for x using le [OF that] H(5) [OF that] by simp
  moreover have "hsize t (base_at s) = 0" using sL [of "base_at s"] w(1) H(6,10) by (metis list.set_intros(1))
  ultimately show "heap_ok t L" using H(1,7,8,11) H(10) L unfolding heap_ok_def by (auto simp: t word_less_nat_alt)
  have other: "{unat x..<ext t x} = {unat x..<ext s x} - {unat q..<ext t q}" if "x \<in> set L" "x \<noteq> w" for x
    using ordered_disjoint [of s "us @ [p]" w zs x] sL [OF that] that o L tq(1) qw by (auto simp: ext_def)
  have "{unat w..<ext t w} = {unat w..<ext s w} - {unat q..<ext t q}" using tw tq(1) qw qe by auto
  then show "fbytes t L = fbytes s L - {unat q..<ext t q}" unfolding fbytes_def using other by blast
qed

lemma take_block_ok:
  assumes h: "heap_ok s L" and w: "w \<in> set L" "0 < n" "n \<le> hsize s w" and p: "p \<in> set L" "hptr s p = w"
    and t: "take_block n p w s = (r, t)"
  shows "\<exists>q K. r = q + 8 \<and> heap_ok t K \<and> hsize t q = n \<and> {unat q..<ext t q} \<subseteq> fbytes s L \<and> fbytes t K = fbytes s L - {unat q..<ext t q}
    \<and> base_at s < q \<and> ext t q \<le> unat (brk s) \<and> (\<forall>a. unat a \<notin> fbytes s L \<longrightarrow> hsize t a = hsize s a) \<and> brk t = brk s \<and> base_at t = base_at s"
proof -
  note S = fit_split [OF h w p]
  obtain us zs where L: "L = us @ p # w # zs" using S(1) by blast
  have ew: "ext s w \<le> unat (brk s)" by (rule heap_okD(5) [OF h w(1)])
  show ?thesis
  proof (cases "hsize s w = n")
    case True
    then have rt: "r = w + 8" "t = set_ptr p (hptr s w) s\<lparr>freep := p\<rparr>" using t by (simp_all add: take_block_def)
    have "ext t w = ext s w" by (simp add: rt ext_def)
    then show ?thesis using take_exact [OF h [unfolded L] S(2) rt(2)] rt S(3,5) ew True L
      by (intro exI [of _ w] exI [of _ "us @ p # zs"]) simp
  next
    case False
    let ?q = "hadd w (hsize s w - n)"
    have rt: "r = ?q + 8" "t = set_size ?q n (set_size w (hsize s w - n) s)\<lparr>freep := p\<rparr>"
      using t False by (simp_all add: take_block_def Let_def)
    have nw: "n < hsize s w" using w(3) False by simp
    note T = take_tail [OF h L S(2) w(2) nw refl rt(2)]
    have sub: "{unat ?q..<ext t ?q} \<subseteq> fbytes s L" using S(5) T(3,4) by auto
    have "unat ?q \<in> {unat ?q..<ext t ?q}" using T(5) w(2) by (simp add: ext_def word_less_nat_alt)
    then have "unat a \<notin> fbytes s L \<Longrightarrow> a \<noteq> ?q" for a using sub by blast
    then have "unat a \<notin> fbytes s L \<Longrightarrow> hsize t a = hsize s a" for a using S(4) [of a] T(6) [of a] by blast
    moreover have "base_at s < ?q" using S(3) T(3) by (simp add: word_less_nat_alt)
    ultimately show ?thesis using rt T sub ew by (intro exI [of _ ?q] exI [of _ L]) simp
  qed
qed

section \<open>Searching\<close>

lemma malloc_walk:
  assumes "linked (hptr s) vs w" "\<forall>v \<in> set vs. hsize s v < n" "freep s \<notin> set vs"
  shows "malloc_loop pages n prev (nxt vs w) s = malloc_loop pages n (last (prev # vs)) w s"
  using assms
proof (induction vs arbitrary: prev)
  case (Cons v vs)
  then have "malloc_loop pages n prev v s = malloc_loop pages n v (hptr s v) s" by (subst malloc_loop.simps) auto
  then show ?case using Cons by auto
qed simp

lemma linked_last: "linked h xs e \<Longrightarrow> xs \<noteq> [] \<Longrightarrow> h (last xs) = e"
  by (induction xs) (auto split: if_splits)

text \<open>The circle from the block after \<open>freep\<close> round to \<open>freep\<close> itself.\<close>

lemma circle:
  assumes "heap_ok s L"
  shows "\<exists>vs. set (vs @ [freep s]) = set L \<and> freep s \<notin> set vs \<and> linked (hptr s) (freep s # vs) (freep s)"
proof -
  note H = heap_okD [OF assms]
  obtain us ys where L: "L = us @ freep s # ys" using H(3) by (auto simp: in_set_conv_decomp)
  have "nxt us (freep s) = base_at s" using H(10) L by (cases us) auto
  then have "linked (hptr s) (freep s # ys @ us) (freep s)" using H(1) L by simp
  moreover have "freep s \<notin> set (ys @ us)" using ordered_distinct [OF H(2)] L by auto
  ultimately show ?thesis using L by (intro exI [of _ "ys @ us"]) auto
qed

lemma hdr_memI: "unat p + 8 \<le> unat (brk s) \<Longrightarrow> hdr_mem s p"
proof -
  have "unat (brk s) \<le> 4096 * ((unat (brk s) + 4095) div 4096)" by linarith
  then show "unat p + 8 \<le> unat (brk s) \<Longrightarrow> hdr_mem s p" unfolding hdr_mem_def by simp
qed

lemma tail_in_mem:
  assumes h: "heap_ok s L" and w: "w \<in> set L" "n \<le> hsize s w" and n: "0 < n"
  shows "hdr_mem s (hadd w (hsize s w - n))"
proof (rule hdr_memI)
  have m: "unat (hsize s w - n) = unat (hsize s w) - unat n" "unat n \<le> unat (hsize s w)" "0 < unat n"
    using w(2) n by (simp_all add: unat_sub word_le_nat_alt word_less_nat_alt)
  have e: "unat w + 8 * unat (hsize s w) \<le> unat (brk s)" using heap_okD(5) [OF h w(1)] by (simp add: ext_def)
  then have "unat (hadd w (hsize s w - n)) = unat w + 8 * unat (hsize s w - n)"
    using m heap_okD(9) [OF h] by (intro unat_hadd) simp
  then show "unat (hadd w (hsize s w - n)) + 8 \<le> unat (brk s)" using m e by simp
qed

lemma loop_found:
  assumes h: "heap_ok s L" and x: "x \<in> set L" "n \<le> hsize s x" "0 < n"
  shows "\<exists>p w. p \<in> set L \<and> w \<in> set L \<and> hptr s p = w \<and> n \<le> hsize s w
    \<and> malloc_loop pages n (freep s) (hptr s (freep s)) s = Some (take_block n p w s)"
proof -
  let ?f = "freep s"
  obtain cs where c: "set (cs @ [?f]) = set L" "?f \<notin> set cs" "linked (hptr s) (?f # cs) ?f" using circle [OF h] by blast
  obtain vs w rs where w: "cs @ [?f] = vs @ w # rs" "n \<le> hsize s w" "\<forall>v \<in> set vs. \<not> n \<le> hsize s v"
    using split_list_first_prop [of "cs @ [?f]" "\<lambda>x. n \<le> hsize s x"] x c(1) by blast
  have fv: "?f \<notin> set vs" and vs: "set vs \<subseteq> set L" "w \<in> set L"
  proof -
    have "set vs \<subseteq> set cs" using w(1) by (cases rs rule: rev_cases) auto
    then show "?f \<notin> set vs" using c(2) by blast
    show "set vs \<subseteq> set L" "w \<in> set L" using w(1) c(1) by (metis Un_upper1 set_append, metis in_set_conv_decomp)
  qed
  have "linked (hptr s) ((?f # cs) @ [?f]) (hptr s ?f)" using c(3) by simp
  then have "linked (hptr s) (?f # vs @ w # rs) (hptr s ?f)" using w(1) by (simp only: append_Cons)
  then have l: "linked (hptr s) (?f # vs) w" by auto
  have e: "malloc_loop pages n ?f (hptr s ?f) s = malloc_loop pages n (last (?f # vs)) w s"
    using malloc_walk [of s vs w n pages ?f] l fv w(3) by (auto simp: not_le)
  have "malloc_loop pages n (last (?f # vs)) w s = Some (take_block n (last (?f # vs)) w s)"
    using w(2) tail_in_mem [OF h vs(2) w(2) x(3)] by (subst malloc_loop.simps) simp
  moreover have "last (?f # vs) \<in> set L" using vs(1) heap_okD(3) [OF h] by (metis insert_subset last_in_set list.set(2) list.simps(3) subsetD)
  moreover have "hptr s (last (?f # vs)) = w" by (rule linked_last [OF l]) simp
  ultimately show ?thesis using e vs(2) w(2) by metis
qed

lemma loop_none:
  assumes h: "heap_ok s L" and x: "\<forall>x \<in> set L. hsize s x < n"
  shows "malloc_loop pages n (freep s) (hptr s (freep s)) s =
    Option.bind (morecore pages n s) (\<lambda>(p, s). if p = 0 then Some (0, s) else malloc_loop pages n p (hptr s p) s)"
proof -
  let ?f = "freep s"
  obtain cs where c: "set (cs @ [?f]) = set L" "?f \<notin> set cs" "linked (hptr s) (?f # cs) ?f" using circle [OF h] by blast
  have sm: "hsize s v < n" if "v \<in> set (cs @ [?f])" for v using that x c(1) by blast
  have "malloc_loop pages n ?f (hptr s ?f) s = malloc_loop pages n (last (?f # cs)) ?f s"
    using malloc_walk [of s cs ?f n pages ?f] c(2,3) sm by simp
  moreover have "\<not> n \<le> hsize s ?f" using sm [of ?f] by simp
  ultimately show ?thesis by (subst (asm) (2) malloc_loop.simps) (simp only: if_True if_False refl)
qed

section \<open>More memory\<close>

lemma morecore_ok:
  assumes h: "heap_ok s L" and n: "n < 2 ^ 28" and nu: "nu = max n 4096"
  shows "if brk s + 8 * nu < KERNBASE \<and> pages (brk s) (brk s + 8 * nu)
    then \<exists>t K. morecore pages n s = Some (freep t, t) \<and> heap_ok t K \<and> brk t = brk s + 8 * nu \<and> unat (brk t) = unat (brk s) + 8 * unat nu
      \<and> base_at t = base_at s \<and> fbytes t K = fbytes s L \<union> {unat (brk s)..<unat (brk t)} \<and> (\<exists>x \<in> set K. n \<le> hsize t x)
      \<and> (\<forall>a. unat a \<notin> fbytes t K \<longrightarrow> a \<noteq> base_at s \<longrightarrow> hsize t a = hsize s a)
    else morecore pages n s = Some (0, s)"
proof -
  note H = heap_okD [OF h]
  let ?z = "brk s" and ?p = "brk s + 8 * nu"
  have nu': "(if n < 4096 then 4096 else n) = nu" using nu by (auto simp: max_def)
  have nb: "unat nu < 2 ^ 28" "4096 \<le> unat nu" "n \<le> nu" using n nu by (auto simp: max_def word_less_nat_alt word_le_nat_alt)
  have u: "unat (8 * nu) = 8 * unat nu" "unat ?p = unat ?z + 8 * unat nu" using nb H(9) by (simp_all add: unat_word_ariths)
  have "unat (nu * 8) = 8 * unat nu" using u(1) by (simp only: mult.commute)
  then have m: "unat (nu * 8) < 2 ^ 31" "0 < unat (nu * 8)" using nb by simp_all
  have sn: "0 < sint (nu * 8)" unfolding sint_small [OF m(1)] of_nat_0_less_iff by (rule m(2))
  have "unat (- 1 :: u32) = 4294967295" by (simp add: unsigned_minus_1_eq_mask mask_eq_exp_minus_1)
  then have z: "\<not> ?p < ?z" "?z \<noteq> -1" "unat ?z \<le> 2 ^ 31" using u H(9) by (auto simp: word_less_nat_alt)
  show ?thesis
  proof (cases "?p < KERNBASE \<and> pages ?z ?p")
    case False
    then have "sbrk pages (nu * 8) s = (-1, s)" using sn z(1) by (auto simp: sbrk_def Let_def mult.commute)
    then have "morecore pages n s = Some (0, s)" by (simp add: morecore_def nu' Let_def)
    then show ?thesis using False by (simp only: if_False)
  next
    case True
    let ?s = "set_size ?z nu (s\<lparr>brk := ?p\<rparr>)"
    have sb: "sbrk pages (nu * 8) s = (?z, s\<lparr>brk := ?p\<rparr>)" using True sn z(1) by (auto simp: sbrk_def Let_def mult.commute)
    have zL: "x \<noteq> ?z" if "x \<in> set L" for x
      using H(5) [OF that] H(4) [OF that] H(8) by (cases "x = base_at s") (auto simp: ext_def word_less_nat_alt)
    have same: "hsize ?s x = hsize s x" if "x \<in> set L" for x using zL [OF that] by simp
    have ex: "ext ?s x = ext s x" if "x \<in> set L" for x using same [OF that] by (simp add: ext_def)
    have lim: "ext ?s x \<le> unat ?p" if "x \<in> set L" for x using ex [OF that] H(5) [OF that] u(2) by simp
    have "ordered ?s L" using H(2) by (subst ordered_cong [of L ?s s, OF same])
    moreover have "hsize ?s (base_at s) = 0" using zL [of "base_at s"] H(6,10) by (metis list.set_intros(1) same)
    moreover have "base_at s < ?p" "?p \<le> KERNBASE" using H(8) u(2) True by (simp_all add: word_less_nat_alt word_le_nat_alt)
    ultimately have hs: "heap_ok ?s L" using H(1,3,4,7) H(10) same lim unfolding heap_ok_def by (auto simp: word_less_nat_alt)
    have ez: "ext ?s ?z = unat ?p" using u(2) by (simp add: ext_def)
    have d: "\<forall>x \<in> set L. ext ?s ?z \<le> unat x \<or> ext ?s x \<le> unat ?z" using ex H(5) by auto
    have b: "base_at ?s < ?z" "0 < hsize ?s ?z" "ext ?s ?z \<le> unat (brk ?s)" using H(8) nb ez by (simp_all add: word_less_nat_alt)
    obtain t K where t: "free (?z + 8) ?s = Some t" "heap_ok t K" "fbytes t K = fbytes ?s L \<union> {unat ?z..<ext ?s ?z}"
      "\<exists>x \<in> set K. {unat ?z..<ext ?s ?z} \<subseteq> {unat x..<ext t x}" "\<forall>a. a \<notin> set L \<longrightarrow> a \<noteq> ?z \<longrightarrow> hsize t a = hsize ?s a"
      "brk t = brk ?s" "base_at t = base_at ?s"
      using free_ok [OF hs b d] by - (elim exE conjE, rule that, assumption+)
    have fb: "fbytes t K = fbytes s L \<union> {unat ?z..<unat ?p}" using t(3) ez fbytes_cong [of L ?s s, OF same] by simp
    have "hdr_mem (s\<lparr>brk := ?p\<rparr>) ?z" using u(2) nb by (intro hdr_memI) simp
    then have "morecore pages n s = Some (freep t, t)" using t(1) sb z(2) by (simp add: morecore_def nu' Let_def)
    moreover have "\<exists>x \<in> set K. n \<le> hsize t x"
    proof -
      obtain x where x: "x \<in> set K" "{unat ?z..<unat ?p} \<subseteq> {unat x..<ext t x}" using t(4) ez by auto
      have "unat ?z < unat ?p" using u(2) nb by simp
      then have "unat x \<le> unat ?z" "unat ?p \<le> ext t x" using x(2) by (simp_all add: atLeastLessThan_subset_iff)
      then have "unat nu \<le> unat (hsize t x)" using u(2) by (simp add: ext_def)
      then show ?thesis using x(1) nb(3) by (auto simp: word_le_nat_alt intro: le_trans)
    qed
    moreover have "hsize t a = hsize s a" if a: "unat a \<notin> fbytes t K" "a \<noteq> base_at s" for a
    proof -
      have "a \<notin> set L"
      proof
        assume "a \<in> set L"
        then have "unat a \<in> fbytes s L" using H(4) [OF _ a(2)] by (auto simp: fbytes_def ext_def word_less_nat_alt)
        then show False using a(1) fb by blast
      qed
      moreover have "a \<noteq> ?z" using a(1) fb u(2) nb by auto
      ultimately show ?thesis using t(5) by simp
    qed
    moreover have "brk t = ?p" "base_at t = base_at s" using t(6,7) by simp_all
    ultimately show ?thesis unfolding if_P [OF True] using t(2) fb u(2) by (intro exI [of _ t] exI [of _ K] conjI) simp_all
  qed
qed

section \<open>The allocator\<close>

text \<open>The heap and the set of the bytes that are free; before the first call there is no list.\<close>

definition heap_rel :: "um_st \<Rightarrow> nat set \<Rightarrow> bool" where
  "heap_rel s F \<longleftrightarrow> freep s = 0 \<and> F = {} \<and> base_at s \<noteq> 0 \<and> base_at s < brk s \<and> brk s \<le> KERNBASE \<or> (\<exists>L. heap_ok s L \<and> F = fbytes s L)"

lemma heap_rel_ok: "heap_ok s L \<Longrightarrow> heap_rel s (fbytes s L)"
  by (auto simp: heap_rel_def)

lemma heap_freep: "heap_ok s L \<Longrightarrow> freep s \<noteq> 0"
proof
  assume h: "heap_ok s L" and f: "freep s = 0"
  have "sorted_wrt (<) (base_at s # tl L)" using ordered_sorted heap_okD(2,10) [OF h] by metis
  then have "freep s = base_at s \<or> base_at s < freep s" using heap_okD(3,10) [OF h] by (metis set_ConsD sorted_wrt.simps(2))
  then show False using f heap_okD(7) [OF h] by simp
qed

lemma um_init_ok:
  assumes "heap_rel s F"
  shows "\<exists>L. heap_ok (um_init s) L \<and> fbytes (um_init s) L = F" "brk (um_init s) = brk s" "base_at (um_init s) = base_at s"
    "a \<noteq> base_at s \<Longrightarrow> hsize (um_init s) a = hsize s a"
proof -
  show "\<exists>L. heap_ok (um_init s) L \<and> fbytes (um_init s) L = F"
  proof (cases "freep s = 0")
    case True
    then have "F = {}" "base_at s \<noteq> 0" "base_at s < brk s" "brk s \<le> KERNBASE" using assms heap_freep by (auto simp: heap_rel_def)
    then show ?thesis using True
      by (intro exI [of _ "[base_at s]"]) (auto simp: heap_ok_def um_init_def ordered_Cons ext_def word_less_nat_alt)
  next
    case False
    then show ?thesis using assms by (auto simp: heap_rel_def um_init_def)
  qed
qed (simp_all add: um_init_def)

lemma nunits_ok:
  assumes "unat nbytes + 16 \<le> 2 ^ 31"
  shows "unat ((nbytes + 8 - 1) div 8 + 1 :: u32) = (unat nbytes + 7) div 8 + 1" "(nbytes + 8 - 1) div 8 + 1 < (2 ^ 28 :: u32)"
    "0 < (nbytes + 8 - 1) div 8 + (1 :: u32)"
proof -
  have e: "nbytes + 8 - 1 = nbytes + (7 :: u32)" by simp
  have "unat (nbytes + 7) = unat nbytes + 7" using assms by (simp add: unat_word_ariths)
  then have d: "unat ((nbytes + 7) div 8) = (unat nbytes + 7) div 8" by (simp add: unat_div_distrib)
  have b: "(unat nbytes + 7) div 8 + 1 < 2 ^ 28" using assms by (simp add: less_mult_imp_div_less)
  then show u: "unat ((nbytes + 8 - 1) div 8 + 1 :: u32) = (unat nbytes + 7) div 8 + 1" unfolding e using d by (simp add: unat_word_ariths)
  show "(nbytes + 8 - 1) div 8 + 1 < (2 ^ 28 :: u32)" unfolding word_less_nat_alt u using b by simp
  show "0 < (nbytes + 8 - 1) div 8 + (1 :: u32)" unfolding word_less_nat_alt u by simp
qed

text \<open>What a call of \<open>malloc\<close> for \<open>n\<close> units promises, with \<open>C\<close> the bytes it may take from.\<close>

definition block_of :: "um_st \<Rightarrow> u32 \<Rightarrow> nat set" where
  "block_of s r = {unat (r - 8)..<ext s (r - 8)}"

definition handed_out :: "nat \<Rightarrow> nat set \<Rightarrow> um_st \<Rightarrow> u32 \<Rightarrow> um_st \<Rightarrow> bool" where
  "handed_out n C s r t \<longleftrightarrow> r \<noteq> 0 \<and> freep t \<noteq> 0 \<and> heap_rel t (C - block_of t r) \<and> block_of t r \<subseteq> C \<and> ext t (r - 8) = unat (r - 8) + 8 * n
     \<and> base_at s < r - 8 \<and> ext t (r - 8) \<le> unat (brk t) \<and> base_at t = base_at s
     \<and> (\<forall>a. unat a \<notin> C \<longrightarrow> a \<noteq> base_at s \<longrightarrow> hsize t a = hsize s a)"

lemma handed_out_nz: "handed_out n C s r t \<Longrightarrow> r \<noteq> 0"
  "handed_out n C s r t \<Longrightarrow> freep t \<noteq> 0"
  by (simp_all add: handed_out_def)

lemma take_handed:
  assumes h: "heap_ok s L" and x: "x \<in> set L" "n \<le> hsize s x" "0 < n"
  shows "\<exists>r t. malloc_loop pages n (freep s) (hptr s (freep s)) s = Some (r, t) \<and> handed_out (unat n) (fbytes s L) s r t \<and> brk t = brk s"
proof -
  obtain p w where w: "p \<in> set L" "w \<in> set L" "hptr s p = w" "n \<le> hsize s w"
    "malloc_loop pages n (freep s) (hptr s (freep s)) s = Some (take_block n p w s)"
    using loop_found [OF h x] by blast
  obtain r t where rt: "take_block n p w s = (r, t)" by (cases "take_block n p w s")
  obtain q K where q: "r = q + 8" "heap_ok t K" "hsize t q = n" "{unat q..<ext t q} \<subseteq> fbytes s L" "fbytes t K = fbytes s L - {unat q..<ext t q}"
    "base_at s < q" "ext t q \<le> unat (brk s)" "\<forall>a. unat a \<notin> fbytes s L \<longrightarrow> hsize t a = hsize s a" "brk t = brk s" "base_at t = base_at s"
    using take_block_ok [OF h w(2) x(3) w(4,1,3) rt] by blast
  have "unat q + 8 \<le> unat (brk s)" using q(3,7) x(3) by (simp add: ext_def word_less_nat_alt)
  then have "unat (q + 8) = unat q + 8" using heap_okD(9) [OF h] by (simp add: unat_word_ariths)
  then have "q + 8 \<noteq> 0" by (metis add_is_0 unat_0 zero_neq_numeral)
  then have "handed_out (unat n) (fbytes s L) s r t"
    using q heap_rel_ok [OF q(2)] heap_freep [OF q(2)] by (simp add: handed_out_def block_of_def) (simp add: ext_def)
  then show ?thesis using w(5) rt q(9) by simp
qed

lemma malloc_ok:
  assumes h: "heap_rel s F" and nb: "unat nbytes + 16 \<le> 2 ^ 31" and n: "n = (unat nbytes + 7) div 8 + 1"
  shows "\<exists>r t. malloc pages nbytes s = Some (r, t) \<and> unat (brk s) \<le> unat (brk t) \<and> freep t \<noteq> 0
    \<and> (if r = 0 then heap_rel t F \<and> brk t = brk s \<and> base_at t = base_at s \<and> (\<forall>a. a \<noteq> base_at s \<longrightarrow> hsize t a = hsize s a)
         \<and> (let z' = brk s + 8 * of_nat (max n 4096) in \<not> (z' < KERNBASE \<and> pages (brk s) z'))
       else handed_out n (F \<union> {unat (brk s)..<unat (brk t)}) s r t)"
proof -
  define s0 where "s0 = um_init s"
  note I = um_init_ok [OF h, folded s0_def]
  obtain L where L: "heap_ok s0 L" "fbytes s0 L = F" using I(1) by blast
  define m where "m = (nbytes + 8 - 1) div 8 + (1 :: u32)"
  note M = nunits_ok [OF nb, folded m_def]
  have mn: "unat m = n" using M(1) n by simp
  have ml: "malloc pages nbytes s = malloc_loop pages m (freep s0) (hptr s0 (freep s0)) s0"
    unfolding malloc_def m_def s0_def Let_def by simp
  have up: "handed_out n C s r t" if "handed_out n C s0 r t" for C r t
    using that I(3,4) by (auto simp: handed_out_def)
  show ?thesis
  proof (cases "\<exists>x \<in> set L. m \<le> hsize s0 x")
    case True
    then obtain r t where rt: "malloc_loop pages m (freep s0) (hptr s0 (freep s0)) s0 = Some (r, t)" "handed_out n F s0 r t" "brk t = brk s0"
      using take_handed [OF L(1) _ _ M(3)] L(2) mn by blast
    have "F \<union> {unat (brk s)..<unat (brk t)} = F" using rt(3) I(2) by simp
    then show ?thesis using ml rt up [OF rt(2)] handed_out_nz [OF rt(2)] I(2) by (intro exI [of _ r] exI [of _ t]) simp
  next
    case False
    then have no: "\<forall>x \<in> set L. hsize s0 x < m" by auto
    note lo = loop_none [OF L(1) no, of pages]
    let ?nu = "max m 4096" let ?ok = "brk s0 + 8 * ?nu < KERNBASE \<and> pages (brk s0) (brk s0 + 8 * ?nu)"
    note C = morecore_ok [OF L(1) M(2) refl, of pages]
    have nu: "of_nat (max n 4096) = ?nu" unfolding mn [symmetric] by (simp add: max_def word_le_nat_alt)
    show ?thesis
    proof (cases ?ok)
      case False
      then have "malloc pages nbytes s = Some (0, s0)" using C lo ml by (simp only: if_False) simp
      moreover have "heap_rel s0 F" using heap_rel_ok [OF L(1)] L(2) by simp
      ultimately show ?thesis using False I(2-4) heap_freep [OF L(1)] by (intro exI [of _ 0] exI [of _ s0]) (simp add: nu Let_def)
    next
      case True
      obtain t K where t: "morecore pages m s0 = Some (freep t, t)" "heap_ok t K" "unat (brk t) = unat (brk s0) + 8 * unat ?nu"
        "base_at t = base_at s0" "fbytes t K = fbytes s0 L \<union> {unat (brk s0)..<unat (brk t)}" "\<exists>x \<in> set K. m \<le> hsize t x"
        "\<forall>a. unat a \<notin> fbytes t K \<longrightarrow> a \<noteq> base_at s0 \<longrightarrow> hsize t a = hsize s0 a"
        using C [unfolded if_P [OF True]] by blast
      obtain r u where u: "malloc_loop pages m (freep t) (hptr t (freep t)) t = Some (r, u)" "handed_out n (fbytes t K) t r u" "brk u = brk t"
        using take_handed [OF t(2) _ _ M(3)] t(6) mn by blast
      have "malloc pages nbytes s = Some (r, u)" using ml lo t(1) heap_freep [OF t(2)] u(1) by simp
      moreover have "handed_out n (F \<union> {unat (brk s)..<unat (brk u)}) s r u"
        using u(2,3) t(4,5,7) I(2-4) L(2) by (auto simp: handed_out_def)
      ultimately show ?thesis using t(3) u(3) I(2) handed_out_nz [OF u(2)] by (intro exI [of _ r] exI [of _ u]) simp
    qed
  qed
qed

section \<open>Sequences of calls\<close>

text \<open>
  A program that calls \<open>malloc\<close> and \<open>free\<close>: the state and the set of pointers it holds. It asks
  for less than half of the address space at a time and frees what it holds; whether there
  are pages may change from call to call.
\<close>

inductive um_reach :: "nat \<Rightarrow> um_st \<Rightarrow> u32 set \<Rightarrow> bool" for z :: nat where
  um_start: "freep s = 0 \<Longrightarrow> base_at s \<noteq> 0 \<Longrightarrow> base_at s < brk s \<Longrightarrow> brk s \<le> KERNBASE \<Longrightarrow> z = unat (brk s) \<Longrightarrow> um_reach z s {}"
| um_malloc: "um_reach z s A \<Longrightarrow> unat nbytes + 16 \<le> 2 ^ 31 \<Longrightarrow> malloc pages nbytes s = Some (r, t)
    \<Longrightarrow> um_reach z t (if r = 0 then A else insert r A)"
| um_free: "um_reach z s A \<Longrightarrow> r \<in> A \<Longrightarrow> free r s = Some t \<Longrightarrow> um_reach z t (A - {r})"

text \<open>The memory above the start is cut into the free bytes and the blocks handed out.\<close>

definition um_inv :: "nat \<Rightarrow> um_st \<Rightarrow> u32 set \<Rightarrow> nat set \<Rightarrow> bool" where
  "um_inv z s A F \<longleftrightarrow> heap_rel s F \<and> z \<le> unat (brk s) \<and> (A \<noteq> {} \<longrightarrow> freep s \<noteq> 0)
     \<and> (\<forall>r \<in> A. base_at s < r - 8 \<and> 0 < hsize s (r - 8) \<and> ext s (r - 8) \<le> unat (brk s) \<and> block_of s r \<inter> F = {})
     \<and> (\<forall>r \<in> A. \<forall>q \<in> A. r \<noteq> q \<longrightarrow> block_of s r \<inter> block_of s q = {}) \<and> F \<union> \<Union> (block_of s ` A) = {z..<unat (brk s)}"

lemma um_invD:
  assumes "um_inv z s A F"
  shows "heap_rel s F" "z \<le> unat (brk s)" "F \<union> \<Union> (block_of s ` A) = {z..<unat (brk s)}"
    "r \<in> A \<Longrightarrow> base_at s < r - 8" "r \<in> A \<Longrightarrow> 0 < hsize s (r - 8)" "r \<in> A \<Longrightarrow> ext s (r - 8) \<le> unat (brk s)" "r \<in> A \<Longrightarrow> block_of s r \<inter> F = {}"
    "r \<in> A \<Longrightarrow> q \<in> A \<Longrightarrow> r \<noteq> q \<Longrightarrow> block_of s r \<inter> block_of s q = {}" "r \<in> A \<Longrightarrow> freep s \<noteq> 0"
  using assms unfolding um_inv_def by blast+

lemma block_start: "0 < hsize s (r - 8) \<Longrightarrow> unat (r - 8) \<in> block_of s r"
  by (simp add: block_of_def ext_def word_less_nat_alt)

lemma um_inv_malloc:
  assumes i: "um_inv z s A F" and nb: "unat nbytes + 16 \<le> 2 ^ 31" and m: "malloc pages nbytes s = Some (r, t)" and r: "r \<noteq> 0"
  shows "um_inv z t (insert r A) (F \<union> {unat (brk s)..<unat (brk t)} - block_of t r)" "r \<notin> A" "{unat r..<unat r + unat nbytes} \<subseteq> block_of t r"
proof -
  let ?n = "(unat nbytes + 7) div 8 + 1" let ?C = "F \<union> {unat (brk s)..<unat (brk t)}"
  note D = um_invD [OF i]
  have o: "handed_out ?n ?C s r t" "unat (brk s) \<le> unat (brk t)" using malloc_ok [OF D(1) nb refl, of pages] m r by simp_all
  have C: "block_of s q \<inter> ?C = {}" if "q \<in> A" for q
    using D(6,7) [OF that] by (auto simp: block_of_def)
  have same: "hsize t (q - 8) = hsize s (q - 8)" if "q \<in> A" for q
  proof -
    have "unat (q - 8) \<notin> ?C" using C [OF that] block_start [OF D(5) [OF that]] by blast
    moreover have "q - 8 \<noteq> base_at s" using D(4) [OF that] by auto
    ultimately show ?thesis using o(1) by (simp add: handed_out_def)
  qed
  have bq: "block_of t q = block_of s q" if "q \<in> A" for q using same [OF that] by (simp add: block_of_def ext_def)
  have eq: "ext t (q - 8) = ext s (q - 8)" if "q \<in> A" for q using same [OF that] by (simp add: ext_def)
  have br: "block_of t r \<subseteq> ?C" "ext t (r - 8) = unat (r - 8) + 8 * ?n" "base_at s < r - 8" "ext t (r - 8) \<le> unat (brk t)" "base_at t = base_at s"
    using o(1) by (simp_all add: handed_out_def)
  then have hr: "0 < hsize t (r - 8)" by (simp add: ext_def word_less_nat_alt)
  have dis: "block_of t q \<inter> block_of t r = {}" if "q \<in> A" for q using C [OF that] br(1) bq [OF that] by blast
  show rA: "r \<notin> A" using dis block_start [OF hr] by blast
  have un: "?C - block_of t r \<union> \<Union> (block_of t ` insert r A) = {z..<unat (brk t)}"
  proof -
    let ?U = "\<Union> (block_of s ` A)" and ?N = "{unat (brk s)..<unat (brk t)}"
    have "\<Union> (block_of t ` insert r A) = block_of t r \<union> ?U" using bq by auto
    then have "?C - block_of t r \<union> \<Union> (block_of t ` insert r A) = ?C \<union> ?U" using Un_absorb2 [OF br(1)] by (simp add: Un_assoc [symmetric])
    also have "\<dots> = (F \<union> ?U) \<union> ?N" by (simp only: Un_ac)
    also have "\<dots> = {z..<unat (brk t)}" unfolding D(3) using D(2) o(2) by (rule ivl_disj_un_two(3))
    finally show ?thesis .
  qed
  have "block_of t q \<inter> (?C - block_of t r) = {}" if "q \<in> insert r A" for q using that C bq by auto
  moreover have "base_at t < q - 8 \<and> 0 < hsize t (q - 8) \<and> ext t (q - 8) \<le> unat (brk t)" if "q \<in> insert r A" for q
  proof (cases "q = r")
    case False
    then have q: "q \<in> A" using that by simp
    show ?thesis using D(4-6) [OF q] same [OF q] eq [OF q] br(5) o(2) by simp
  qed (use br hr in simp)
  moreover have "block_of t p \<inter> block_of t q = {}" if "p \<in> insert r A" "q \<in> insert r A" "p \<noteq> q" for p q
    using that dis bq D(8) by (metis Int_commute insertE)
  ultimately show "um_inv z t (insert r A) (?C - block_of t r)" 
    using o un D(2) unfolding um_inv_def by (simp add: handed_out_def)
  have "unat (r - 8) + 8 \<le> 2 ^ 31" using br(2,4) o(1) by (auto simp: handed_out_def heap_rel_def word_le_nat_alt heap_ok_def)
  then have "unat r = unat (r - 8) + 8" using unat_hadd [of "r - 8" 1] by (simp add: hadd_def)
  then show "{unat r..<unat r + unat nbytes} \<subseteq> block_of t r" unfolding block_of_def br(2) by auto
qed

lemma um_inv_free:
  assumes i: "um_inv z s A F" and r: "r \<in> A"
  shows "\<exists>t. free r s = Some t \<and> um_inv z t (A - {r}) (F \<union> block_of s r)"
proof -
  note D = um_invD [OF i]
  obtain L where L: "heap_ok s L" "F = fbytes s L" using D(1) D(9) [OF r] by (auto simp: heap_rel_def)
  note H = heap_okD [OF L(1)]
  let ?p = "r - 8"
  have in_F: "{unat x..<ext s x} \<subseteq> F" "x \<noteq> base_at s \<Longrightarrow> unat x < ext s x" if "x \<in> set L" for x
    using that H(4) [OF that] L(2) by (auto simp: fbytes_def ext_def word_less_nat_alt)
  have ivl: "{unat ?p..<ext s ?p} \<inter> F = {}" "unat ?p < ext s ?p" using D(5,7) [OF r] by (auto simp: block_of_def ext_def word_less_nat_alt)
  have d: "\<forall>x \<in> set L. ext s ?p \<le> unat x \<or> ext s x \<le> unat ?p"
  proof
    fix x assume x: "x \<in> set L"
    show "ext s ?p \<le> unat x \<or> ext s x \<le> unat ?p"
    proof (cases "x = base_at s")
      case True
      then show ?thesis using H(6) D(4) [OF r] by (simp add: ext_def word_less_nat_alt)
    next
      case False
      have "{unat ?p..<ext s ?p} \<inter> {unat x..<ext s x} = {}" using ivl(1) in_F(1) [OF x] by blast
      then have "max (unat ?p) (unat x) \<notin> {unat ?p..<ext s ?p} \<inter> {unat x..<ext s x}" by simp
      then show ?thesis using ivl(2) in_F(2) [OF x False] by (simp add: not_less max_def split: if_splits)
    qed
  qed
  obtain t K where t: "free (?p + 8) s = Some t" "heap_ok t K" "fbytes t K = fbytes s L \<union> {unat ?p..<ext s ?p}"
    "\<forall>a. a \<notin> set L \<longrightarrow> a \<noteq> ?p \<longrightarrow> hsize t a = hsize s a" "brk t = brk s" "base_at t = base_at s"
    using free_ok [OF L(1) D(4) [OF r] D(5) [OF r] D(6) [OF r] d] by - (elim exE conjE, rule that, assumption+)
  have same: "hsize t (q - 8) = hsize s (q - 8)" if q: "q \<in> A - {r}" for q
  proof -
    have st: "unat (q - 8) \<in> block_of s q" using block_start D(5) q by simp
    have "unat (q - 8) \<notin> F" "unat (q - 8) \<notin> block_of s r" using st D(7) [of q] D(8) [of q r] q r by auto
    then have "q - 8 \<notin> set L" "q - 8 \<noteq> ?p" using in_F [of "q - 8"] D(4) [of q] q block_start [OF D(5) [OF r]] by fastforce+
    then show ?thesis using t(4) by blast
  qed
  have bq: "block_of t q = block_of s q" "ext t (q - 8) = ext s (q - 8)" if "q \<in> A - {r}" for q
    using same [OF that] by (simp_all add: block_of_def ext_def)
  have F: "heap_rel t (F \<union> block_of s r)" using heap_rel_ok [OF t(2)] t(3) L(2) by (simp add: block_of_def)
  have un: "F \<union> block_of s r \<union> \<Union> (block_of t ` (A - {r})) = {z..<unat (brk t)}"
  proof -
    have "\<Union> (block_of t ` (A - {r})) = \<Union> (block_of s ` (A - {r}))" using bq(1) by auto
    moreover have "block_of s r \<union> \<Union> (block_of s ` (A - {r})) = \<Union> (block_of s ` A)" using r by auto
    ultimately show ?thesis using D(3) t(5) by (simp add: Un_assoc)
  qed
  have q: "base_at t < q - 8 \<and> 0 < hsize t (q - 8) \<and> ext t (q - 8) \<le> unat (brk t) \<and> block_of t q \<inter> (F \<union> block_of s r) = {}" if q: "q \<in> A - {r}" for q
    using D(4-7) [of q] D(8) [of q r] q r same [OF q] bq [OF q] t(5,6) by (simp add: Int_Un_distrib)
  have "block_of t p \<inter> block_of t q = {}" if "p \<in> A - {r}" "q \<in> A - {r}" "p \<noteq> q" for p q
    using D(8) [of p q] that bq(1) by simp
  then have "um_inv z t (A - {r}) (F \<union> block_of s r)" using F D(2) t(5) heap_freep [OF t(2)] q un unfolding um_inv_def by simp
  then show ?thesis using t(1) by simp
qed

lemma um_reach_inv: "um_reach z s A \<Longrightarrow> \<exists>F. um_inv z s A F"
proof (induction rule: um_reach.induct)
  case (um_start s)
  then show ?case by (intro exI [of _ "{}"]) (simp add: um_inv_def heap_rel_def)
next
  case (um_malloc s A nbytes pages r t)
  then obtain F where i: "um_inv z s A F" by blast
  show ?case
  proof (cases "r = 0")
    case True
    note D = um_invD [OF i]
    have e: "heap_rel t F" "brk t = brk s" "base_at t = base_at s" "\<forall>a. a \<noteq> base_at s \<longrightarrow> hsize t a = hsize s a" "freep t \<noteq> 0"
      using malloc_ok [OF D(1) um_malloc.hyps(2) refl, of pages] um_malloc.hyps(3) True by auto
    have same: "hsize t (q - 8) = hsize s (q - 8)" if "q \<in> A" for q using e(4) D(4) [OF that] by auto
    have b: "block_of t q = block_of s q" "ext t (q - 8) = ext s (q - 8)" if "q \<in> A" for q using same [OF that] by (simp_all add: block_of_def ext_def)
    have "\<Union> (block_of t ` A) = \<Union> (block_of s ` A)" using b(1) by auto
    then have "um_inv z t A F" using i e(1-3,5) b same unfolding um_inv_def by simp
    then show ?thesis using True by auto
  next
    case False
    then show ?thesis using um_inv_malloc(1) [OF i um_malloc.hyps(2,3) False] by auto
  qed
next
  case (um_free s A r t)
  then show ?case using um_inv_free [of z s A _ r] by fastforce
qed

text \<open>
  C16. A program that uses \<open>malloc\<close> and \<open>free\<close>, in any order and with any answers of the kernel to its
  requests for memory. The memory it got from the kernel is at any time exactly the free bytes
  and the blocks it holds, and all of these are disjoint: no block overlaps another one or a
  free one, and nothing is lost. Both calls return: \<open>free\<close> of every pointer the program holds,
  and \<open>malloc\<close> of every size up to half of the address space, with a pointer that is not in
  use and has that many bytes in its block, or with 0, but 0 only when the kernel refuses
  memory.
\<close>

theorem malloc_free_partition:
  assumes "um_reach z s A"
  shows "\<exists>F. heap_rel s F \<and> F \<union> \<Union> (block_of s ` A) = {z..<unat (brk s)}
    \<and> (\<forall>r \<in> A. block_of s r \<inter> F = {} \<and> (\<forall>q \<in> A. r \<noteq> q \<longrightarrow> block_of s r \<inter> block_of s q = {}) \<and> (\<exists>t. free r s = Some t))
    \<and> (\<forall>pages nbytes. unat nbytes + 16 \<le> 2 ^ 31 \<longrightarrow> (\<exists>r t. malloc pages nbytes s = Some (r, t)
        \<and> (if r = 0 then let z' = brk s + 8 * of_nat (max ((unat nbytes + 7) div 8 + 1) 4096) in \<not> (z' < KERNBASE \<and> pages (brk s) z')
           else r \<notin> A \<and> {unat r..<unat r + unat nbytes} \<subseteq> block_of t r)))"
proof -
  obtain F where i: "um_inv z s A F" using um_reach_inv [OF assms] by blast
  note D = um_invD [OF i]
  have "\<exists>r t. malloc pages nbytes s = Some (r, t)
      \<and> (if r = 0 then let z' = brk s + 8 * of_nat (max ((unat nbytes + 7) div 8 + 1) 4096) in \<not> (z' < KERNBASE \<and> pages (brk s) z')
         else r \<notin> A \<and> {unat r..<unat r + unat nbytes} \<subseteq> block_of t r)" if nb: "unat nbytes + 16 \<le> 2 ^ 31" for pages nbytes
  proof -
    obtain r t where m: "malloc pages nbytes s = Some (r, t)" "r = 0 \<Longrightarrow> let z' = brk s + 8 * of_nat (max ((unat nbytes + 7) div 8 + 1) 4096) in \<not> (z' < KERNBASE \<and> pages (brk s) z')"
      using malloc_ok [OF D(1) nb refl, of pages] by (elim exE conjE) (simp split: if_splits)
    then show ?thesis using um_inv_malloc(2,3) [OF i nb m(1)] by (intro exI [of _ r] exI [of _ t]) (simp only: if_split, blast)
  qed
  moreover have "\<exists>t. free r s = Some t" if "r \<in> A" for r using um_inv_free [OF i that] by blast
  ultimately show ?thesis using D(1,3,7,8) by (intro exI [of _ F] conjI allI impI ballI) (assumption | blast)+
qed

theorem malloc_free_partition_witness:
  "\<exists>r t u. malloc (\<lambda>_ _. True) 100 um0 = Some (r, t) \<and> {unat r..<unat r + 100} \<subseteq> block_of t r \<and> block_of t r \<subseteq> {0x4000..<unat (brk t)}
    \<and> free r t = Some u"
proof -
  have r0: "um_reach 0x4000 um0 {}" by (rule um_start) (simp_all add: um0_def)
  obtain r t where m: "malloc (\<lambda>_ _. True) 100 um0 = Some (r, t)"
    "if r = 0 then let z' = brk um0 + 8 * of_nat (max ((unat (100 :: u32) + 7) div 8 + 1) 4096) in \<not> (z' < KERNBASE \<and> True)
     else r \<notin> {} \<and> {unat r..<unat r + unat (100 :: u32)} \<subseteq> block_of t r"
    using malloc_free_partition [OF r0] by (elim exE conjE) (drule spec [of _ "\<lambda>_ _. True"], drule spec [of _ 100], simp, blast)
  have r: "r \<noteq> 0" using m(2) by (auto simp: um0_def Let_def)
  have r1: "um_reach 0x4000 t {r}" using um_malloc [OF r0 _ m(1)] r by simp
  obtain u where "free r t = Some u" "block_of t r \<subseteq> {0x4000..<unat (brk t)}" using malloc_free_partition [OF r1] by auto
  then show ?thesis using m r by (intro exI [of _ r] exI [of _ t] exI [of _ u]) simp
qed

lemma sint_large: "2 ^ 31 \<le> unat w \<Longrightarrow> sint w < 0" for w :: u32
proof -
  assume "2 ^ 31 \<le> unat w"
  then have "unat w div 2 ^ 31 = 1" using unsigned_less [of w, where ?'a = nat] by (intro div_nat_eqI) simp_all
  then have "bit (unat w) 31" by (simp add: bit_iff_odd)
  then have "bit w 31" by (simp add: bit_unsigned_iff)
  then show ?thesis using bit_last_iff [of w] by simp
qed

section \<open>Requests of more than half of the address space\<close>

lemma last_page: "z + 8 \<le> 4096 * ((z + 4095) div 4096) \<longleftrightarrow> z mod 4096 \<noteq> 0 \<and> z mod 4096 \<le> 4088" for z :: nat
proof -
  define q r where "q = z div 4096" and "r = z mod 4096"
  have z: "z = r + q * 4096" "r < 4096" by (simp_all add: q_def r_def)
  have "(r + q * 4096 + 4095) div 4096 = (if r = 0 then q else Suc q)"
    using z(2) by (auto intro!: div_nat_eqI)
  then show ?thesis unfolding r_def [symmetric] using z by auto
qed

text \<open>
  C33. A request whose size in bytes, header included, does not fit a signed integer is not
  refused: \<open>sbrk\<close> gets a negative number, which for a process below that distance leaves its size
  as it is and reports success. When the last page of the process has room for a header after
  its last byte, \<open>malloc\<close> returns the end of the memory of the process as a block of that size;
  otherwise, as when the size of the process is a multiple of the page size, the store of the
  header faults and \<open>malloc\<close> does not return.
\<close>

theorem malloc_hands_out_missing_memory:
  assumes s: "freep s = 0" "base_at s \<noteq> 0" "base_at s < brk s"
    and n: "2 ^ 31 \<le> unat nbytes + 15" "unat (brk s) + unat nbytes + 15 < 2 ^ 32"
  shows "if unat (brk s) mod 4096 \<noteq> 0 \<and> unat (brk s) mod 4096 \<le> 4088
    then \<exists>t. malloc pages nbytes s = Some (brk s + 8, t) \<and> brk t = brk s \<and> unat nbytes \<le> 8 * unat (hsize t (brk s)) - 8
    else malloc pages nbytes s = None"
proof -
  let ?b = "base_at s" and ?z = "brk s"
  define N where "N = (nbytes + 8 - 1) div 8 + (1 :: u32)"
  have e: "nbytes + 8 - 1 = nbytes + (7 :: u32)" by simp
  have "unat (nbytes + 7) = unat nbytes + 7" using n by (simp add: unat_word_ariths)
  then have d: "unat ((nbytes + 7) div 8) = (unat nbytes + 7) div 8" by (simp add: unat_div_distrib)
  have N: "unat N = (unat nbytes + 7) div 8 + 1" unfolding N_def e using d n by (simp add: unat_word_ariths)
  have N8: "2 ^ 31 \<le> 8 * unat N" "unat ?z + 8 * unat N < 2 ^ 32" 
  proof -
    have "2 ^ 28 - 1 \<le> (unat nbytes + 7) div 8" using n(1) by (simp add: less_eq_div_iff_mult_less_eq)
    then show "2 ^ 31 \<le> 8 * unat N" unfolding N by simp
    have "8 * ((unat nbytes + 7) div 8) \<le> unat nbytes + 7" by simp
    then show "unat ?z + 8 * unat N < 2 ^ 32" unfolding N using n(2) by simp
  qed
  have u: "unat (N * 8) = 8 * unat N" "unat (?z + N * 8) = unat ?z + 8 * unat N" using N8 by (simp_all add: unat_word_ariths)
  have sn: "sint (N * 8) < 0" using u(1) N8(1) by (intro sint_large) simp
  have b: "unat ?b < unat ?z" using s(3) by (simp add: word_less_nat_alt)
  have z: "?z \<le> ?z + N * 8" "?z \<noteq> 0" "?z \<noteq> -1"
    using u(2) b N8 unsigned_minus_1_eq_mask [where ?'a = nat and ?'b = 32] by (auto simp: word_le_nat_alt mask_eq_exp_minus_1)
  define s1 where "s1 = um_init s"
  have s1: "hptr s1 ?b = ?b" "hsize s1 ?b = 0" "freep s1 = ?b" "brk s1 = ?z" "base_at s1 = ?b" using s(1) by (simp_all add: s1_def um_init_def)
  have sb: "sbrk pages (N * 8) s1 = (?z, s1\<lparr>brk := ?z\<rparr>)" using sn z s1(4) by (simp add: sbrk_def Let_def)
  have last: "hdr_mem (s1\<lparr>brk := ?z\<rparr>) ?z \<longleftrightarrow> unat ?z mod 4096 \<noteq> 0 \<and> unat ?z mod 4096 \<le> 4088"
    by (simp add: hdr_mem_def last_page)
  have "\<not> N < 4096" using N8(1) by (simp add: word_less_nat_alt)
  note big = this
  have nz: "\<not> N \<le> 0" using N8(1) by (auto simp: word_le_nat_alt)
  have start: "malloc pages nbytes s = malloc_loop pages N ?b ?b s1"
    using s1 unfolding malloc_def N_def [symmetric] s1_def Let_def by simp
  have ask: "malloc_loop pages N ?b ?b s1 = Option.bind (morecore pages N s1) (\<lambda>(p, s). if p = 0 then Some (0, s) else malloc_loop pages N p (hptr s p) s)"
    using nz s1 by (subst malloc_loop.simps) simp
  show ?thesis
  proof (cases "unat ?z mod 4096 \<noteq> 0 \<and> unat ?z mod 4096 \<le> 4088")
    case False
    then have "morecore pages N s1 = None" using sb z(3) big last by (simp add: morecore_def Let_def)
    then show ?thesis using False start ask by auto
  next
    case True
    define s2 where "s2 = set_size ?z N (s1\<lparr>brk := ?z\<rparr>)"
    have zb: "?b \<noteq> ?z" "hadd ?z N \<noteq> ?b" "hadd ?b 0 \<noteq> ?z" using b u(2) by (auto simp: hadd_def mult.commute word_unat_eq_iff)
    have s2: "hptr s2 ?b = ?b" "hsize s2 ?b = 0" "hsize s2 ?z = N" "freep s2 = ?b" "brk s2 = ?z" using s1 zb(1) by (simp_all add: s2_def)
    have scan: "free_scan ?z ?b s2 = Some ?b" using s(3) s2(1) by (subst free_scan.simps) simp
    define s3 where "s3 = free_link ?z ?b s2"
    have s3: "hptr s3 ?b = ?z" "hptr s3 ?z = ?b" "hsize s3 ?z = N" "freep s3 = ?b" "brk s3 = ?z"
      using s2 zb by (simp_all add: s3_def free_link_def join_next_def join_prev_def)
    have "free (?z + 8) s2 = Some s3" using scan s2(4) by (simp add: free_def s3_def)
    then have mc: "morecore pages N s1 = Some (?b, s3)" using sb z(3) s3(4) big last True by (simp add: morecore_def s2_def Let_def)
    have "malloc pages nbytes s = malloc_loop pages N ?b ?z s3" using start ask mc s3(1) s(2) by simp
    also have "\<dots> = Some (take_block N ?b ?z s3)"
      using s3(3,5) last True by (subst malloc_loop.simps) (simp add: hdr_mem_def hadd_def)
    finally have "malloc pages nbytes s = Some (take_block N ?b ?z s3)" .
    moreover have "unat nbytes \<le> 8 * unat N - 8" unfolding N by simp
    ultimately show ?thesis using s3 True by (simp add: take_block_def)
  qed
qed

theorem malloc_hands_out_missing_memory_witness:
  "(\<exists>t. malloc (\<lambda>_ _. False) 0x7FFFFFF8 (um0\<lparr>brk := 0x4064\<rparr>) = Some (0x406C, t) \<and> brk t = 0x4064)
    \<and> malloc (\<lambda>_ _. False) 0x7FFFFFF8 um0 = None"
  using malloc_hands_out_missing_memory [of "um0\<lparr>brk := 0x4064\<rparr>" "0x7FFFFFF8" "\<lambda>_ _. False"]
    malloc_hands_out_missing_memory [of um0 "0x7FFFFFF8" "\<lambda>_ _. False"] by (auto simp: um0_def)

end
