(* ===== verification/Ide.thy ===== *)
theory Ide
  imports Bio
begin

text \<open>
  The IDE disk driver, \<open>xv6-public-master/ide.c\<close>: a queue of buffers linked by \<open>qnext\<close>, of which the
  first is the request the device works on; \<open>iderw\<close> appends to it and sleeps, the interrupt
  handler completes the first and starts the next. The device is outside: what the driver
  writes to the ports is recorded in \<open>ports\<close>, and what it reads, status and data, is an argument.
  The kernel image with a memory disk links \<open>memide.c\<close> instead (see \<open>Bio\<close>), so the operations that
  both files have carry the suffix \<open>_ide\<close> here.
\<close>

unbundle bit_operations_syntax

section \<open>State\<close>

text \<open>What the driver sends to the ports of the device.\<close>

datatype port_op = Outb nat u8 | Outsl nat block

record ide_st = bio_st +
  qnext :: "nat \<Rightarrow> nat option"
  idequeue :: "nat option"
  havedisk1 :: bool
  ports :: "port_op list"

abbreviation FSSIZE :: u32 where "FSSIZE \<equiv> 1000"

section \<open>Operations\<close>

text \<open>
  Reading the status register gives the next element of \<open>sts\<close>, which is what the device answers;
  a device that never gets ready keeps the loop spinning.
\<close>

fun idewait :: "bool \<Rightarrow> u8 list \<Rightarrow> (int \<times> u8 list) res" where
  "idewait checkerr [] = Block"
| "idewait checkerr (r # sts) =
     (if r AND (0x80 OR 0x40) \<noteq> 0x40 then idewait checkerr sts
      else Ok (if checkerr \<and> r AND (0x20 OR 0x01) \<noteq> 0 then -1 else 0, sts))"

definition outb :: "nat \<Rightarrow> u8 \<Rightarrow> 'z ide_st_scheme \<Rightarrow> 'z ide_st_scheme" where
  "outb port v s = s\<lparr>ports := ports s @ [Outb port v]\<rparr>"

text \<open>The presence test of the second disk, at most \<open>k\<close> times.\<close>

fun ide_probe :: "nat \<Rightarrow> u8 list \<Rightarrow> (bool \<times> u8 list)" where
  "ide_probe 0 sts = (False, sts)"
| "ide_probe (Suc k) [] = (False, [])"
| "ide_probe (Suc k) (r # sts) = (if r \<noteq> 0 then (True, sts) else ide_probe k sts)"

definition ideinit_ide :: "u8 list \<Rightarrow> 'z ide_st_scheme \<Rightarrow> (u8 list \<times> 'z ide_st_scheme) res" where
  "ideinit_ide sts s =
     (let s = initlock Ide_lock ''ide'' s in
      bnd (idewait False sts) (\<lambda>(_, sts).
        let s = outb 0x1f6 (0xe0 OR push_bit 4 1) s;
            (found, sts) = ide_probe 1000 sts;
            s = (if found then s\<lparr>havedisk1 := True\<rparr> else s)
        in Ok (sts, outb 0x1f6 (0xe0 OR push_bit 4 0) s)))"

text \<open>A block is one sector.\<close>

definition idestart :: "nat option \<Rightarrow> u8 list \<Rightarrow> 'z ide_st_scheme \<Rightarrow> (u8 list \<times> 'z ide_st_scheme) res" where
  "idestart ob sts s =
     (case ob of None \<Rightarrow> Panic ''idestart''
      | Some i \<Rightarrow>
        let b = bufs s i; sector = blockno b in
        if FSSIZE \<le> blockno b then Panic ''incorrect blockno''
        else
          bnd (idewait False sts) (\<lambda>(_, sts).
            let s = outb 0x3f6 0 s;
                s = outb 0x1f2 1 s;
                s = outb 0x1f3 (ucast sector) s;
                s = outb 0x1f4 (ucast (drop_bit 8 sector)) s;
                s = outb 0x1f5 (ucast (drop_bit 16 sector)) s;
                s = outb 0x1f6 (0xe0 OR push_bit 4 (ucast (bdev b AND 1)) OR ucast (drop_bit 24 sector AND 0x0f)) s;
                s = (if bdirty b then let s = outb 0x1f7 0x30 s in s\<lparr>ports := ports s @ [Outsl 0x1f0 (bdata b)]\<rparr>
                     else outb 0x1f7 0x20 s)
            in Ok (sts, s)))"

text \<open>\<open>din\<close> is the content of the sector that \<open>insl\<close> would read from the data port.\<close>

definition ideintr :: "u8 list \<Rightarrow> block \<Rightarrow> 'z ide_st_scheme \<Rightarrow> (u8 list \<times> 'z ide_st_scheme) res" where
  "ideintr sts din s =
     bnd (acquire Ide_lock s) (\<lambda>s.
       case idequeue s of
         None \<Rightarrow> bnd (release Ide_lock s) (\<lambda>s. Ok (sts, s))
       | Some b \<Rightarrow>
         let s = s\<lparr>idequeue := qnext s b\<rparr> in
         bnd (if \<not> bdirty (bufs s b) then
                bnd (idewait True sts) (\<lambda>(r, sts). Ok (sts, if 0 \<le> r then upd_buf b (\<lambda>q. q\<lparr>bdata := din\<rparr>) s else s))
              else Ok (sts, s)) (\<lambda>(sts, s).
         let s = upd_buf b (\<lambda>q. q\<lparr>bvalid := True\<rparr>) s;
             s = upd_buf b (\<lambda>q. q\<lparr>bdirty := False\<rparr>) s in
         bnd (wakeup (Buf_io_chan b) s) (\<lambda>s.
         bnd (if idequeue s \<noteq> None then idestart (idequeue s) sts s else Ok (sts, s)) (\<lambda>(sts, s).
         bnd (release Ide_lock s) (\<lambda>s. Ok (sts, s))))))"

text \<open>The end of the queue: the buffer whose \<open>qnext\<close> is null, from \<open>i\<close> on, in at most \<open>n\<close> steps.\<close>

primrec queue_last :: "nat \<Rightarrow> nat \<Rightarrow> 'z ide_st_scheme \<Rightarrow> nat res" where
  "queue_last 0 i s = Block"
| "queue_last (Suc n) i s = (case qnext s i of None \<Rightarrow> Ok i | Some j \<Rightarrow> queue_last n j s)"

definition queue_put :: "nat \<Rightarrow> 'z ide_st_scheme \<Rightarrow> 'z ide_st_scheme res" where
  "queue_put b s =
     (let s = s\<lparr>qnext := (qnext s)(b := None)\<rparr> in
      case idequeue s of
        None \<Rightarrow> Ok (s\<lparr>idequeue := Some b\<rparr>)
      | Some i \<Rightarrow> bnd (queue_last NBUF i s) (\<lambda>l. Ok (s\<lparr>qnext := (qnext s)(l := Some b)\<rparr>)))"

text \<open>\<open>iderw\<close> up to its waiting loop, and one test of that loop.\<close>

definition ide_submit :: "nat \<Rightarrow> u8 list \<Rightarrow> 'z ide_st_scheme \<Rightarrow> (u8 list \<times> 'z ide_st_scheme) res" where
  "ide_submit b sts s =
     bnd (holdingsleep (SL_buf b) s) (\<lambda>(h, s).
       if \<not> h then Panic ''iderw: buf not locked''
       else if bvalid (bufs s b) \<and> \<not> bdirty (bufs s b) then Panic ''iderw: nothing to do''
       else if bdev (bufs s b) \<noteq> 0 \<and> \<not> havedisk1 s then Panic ''iderw: ide disk 1 not present''
       else
         bnd (acquire Ide_lock s) (\<lambda>s.
         bnd (queue_put b s) (\<lambda>s.
           if idequeue s = Some b then idestart (Some b) sts s else Ok (sts, s))))"

definition ide_check :: "nat \<Rightarrow> 'z ide_st_scheme \<Rightarrow> 'z ide_st_scheme res" where
  "ide_check b s =
     (if \<not> (bvalid (bufs s b) \<and> \<not> bdirty (bufs s b)) then sleep (Buf_io_chan b) Ide_lock s else release Ide_lock s)"

definition iderw_ide :: "nat \<Rightarrow> u8 list \<Rightarrow> 'z ide_st_scheme \<Rightarrow> 'z ide_st_scheme res" where
  "iderw_ide b sts s = bnd (ide_submit b sts s) (\<lambda>(_, s). ide_check b s)"

section \<open>The queue\<close>

primrec qlinked :: "(nat \<Rightarrow> nat option) \<Rightarrow> nat list \<Rightarrow> bool" where
  "qlinked h [] = True"
| "qlinked h (x # xs) = (h x = (case xs of [] \<Rightarrow> None | y # _ \<Rightarrow> Some y) \<and> qlinked h xs)"

definition first :: "nat list \<Rightarrow> nat option" where
  "first xs = (case xs of [] \<Rightarrow> None | x # _ \<Rightarrow> Some x)"

text \<open>A request the driver can start: there is something to do, and the block is on the disk.\<close>

definition pending :: "buf \<Rightarrow> bool" where
  "pending q \<longleftrightarrow> \<not> (bvalid q \<and> \<not> bdirty q) \<and> blockno q < FSSIZE"

definition queue_ok :: "'z ide_st_scheme \<Rightarrow> nat list \<Rightarrow> bool" where
  "queue_ok s qs \<longleftrightarrow> idequeue s = first qs \<and> qlinked (qnext s) qs \<and> distinct qs \<and> (\<forall>i \<in> set qs. i < NBUF \<and> pending (bufs s i))"

lemma first_simps [simp]: "first [] = None" "first (x # xs) = Some x"
  by (simp_all add: first_def)

lemma first_append: "first (xs @ [b]) = (if xs = [] then Some b else first xs)"
  by (cases xs) simp_all

lemma qlinked_upd [simp]: "b \<notin> set qs \<Longrightarrow> qlinked (h(b := v)) qs = qlinked h qs"
  by (induction qs) auto

lemma qlinked_snoc:
  assumes "qlinked h qs" "qs \<noteq> []" "distinct qs" "b \<notin> set qs"
  shows "qlinked (h(b := None, last qs := Some b)) (qs @ [b])"
  using assms
proof (induction qs)
  case (Cons x xs)
  show ?case
  proof (cases xs)
    case Nil
    then show ?thesis using Cons.prems by simp
  next
    case (Cons y ys)
    then have l: "last xs \<in> set xs" "xs \<noteq> []" by simp_all
    have "x \<noteq> last xs" using l(1) Cons.prems(3) by auto
    then show ?thesis using Cons.IH Cons.prems Cons by auto
  qed
qed simp

lemma queue_last_ok: "qlinked (qnext s) qs \<Longrightarrow> qs \<noteq> [] \<Longrightarrow> length qs \<le> n \<Longrightarrow> queue_last n (hd qs) s = Ok (last qs)"
proof (induction qs arbitrary: n)
  case (Cons x xs)
  obtain m where n: "n = Suc m" using Cons.prems(3) by (cases n) auto
  show ?case
  proof (cases xs)
    case Nil
    then show ?thesis using Cons.prems n by simp
  next
    case (Cons y ys)
    then have "queue_last m (hd xs) s = Ok (last xs)" using Cons.IH [of m] Cons.prems n by auto
    then show ?thesis using Cons.prems n Cons by simp
  qed
qed simp

lemma queue_short: "distinct qs \<Longrightarrow> \<forall>i \<in> set qs. i < NBUF \<Longrightarrow> length qs \<le> NBUF"
  using card_mono [of "{..<NBUF}" "set qs"] by (auto simp: distinct_card subset_eq)

lemma queue_put_ok:
  assumes "queue_ok s qs" "b \<notin> set qs" "b < NBUF" "pending (bufs s b)"
  shows "\<exists>h. queue_put b s = Ok (s\<lparr>qnext := h, idequeue := first (qs @ [b])\<rparr>) \<and> queue_ok (s\<lparr>qnext := h, idequeue := first (qs @ [b])\<rparr>) (qs @ [b])"
proof (cases qs)
  case Nil
  then show ?thesis using assms by (intro exI [of _ "(qnext s)(b := None)"]) (simp add: queue_put_def queue_ok_def Let_def)
next
  case (Cons x xs)
  let ?s = "s\<lparr>qnext := (qnext s)(b := None)\<rparr>" and ?h = "(qnext s)(b := None, last qs := Some b)"
  have q: "qlinked (qnext s) qs" "distinct qs" "\<forall>i \<in> set qs. i < NBUF \<and> pending (bufs s i)" "idequeue s = Some x"
    using assms(1) Cons by (simp_all add: queue_ok_def)
  have "queue_last NBUF x ?s = Ok (last qs)"
    using queue_last_ok [of ?s qs NBUF] queue_short [of qs] q assms(2) Cons by simp
  then have "queue_put b s = Ok (?s\<lparr>qnext := ?h\<rparr>)" using q(4) by (simp add: queue_put_def Let_def)
  moreover have f: "first (qs @ [b]) = idequeue s" using q(4) Cons by simp
  moreover have "qlinked ?h (qs @ [b])" using qlinked_snoc q(1,2) assms(2) Cons by blast
  ultimately show ?thesis unfolding f using q(2,3) f assms(2-4) by (intro exI [of _ ?h]) (auto simp: queue_ok_def)
qed

section \<open>What reaches the device\<close>

definition request :: "buf \<Rightarrow> port_op list" where
  "request q =
     [Outb 0x3f6 0, Outb 0x1f2 1, Outb 0x1f3 (ucast (blockno q)), Outb 0x1f4 (ucast (drop_bit 8 (blockno q))),
      Outb 0x1f5 (ucast (drop_bit 16 (blockno q))), Outb 0x1f6 (0xe0 OR push_bit 4 (ucast (bdev q AND 1)) OR ucast (drop_bit 24 (blockno q) AND 0x0f))]
     @ (if bdirty q then [Outb 0x1f7 0x30, Outsl 0x1f0 (bdata q)] else [Outb 0x1f7 0x20])"

definition dev_ready :: "u8 \<Rightarrow> bool" where
  "dev_ready r \<longleftrightarrow> r AND (0x80 OR 0x40) = 0x40"

lemma idewait_ok:
  assumes "n < length (filter dev_ready sts)"
  shows "\<exists>r rest. idewait c sts = Ok (r, rest) \<and> n \<le> length (filter dev_ready rest) \<and> (\<not> c \<longrightarrow> r = 0) \<and> r \<in> {0, -1}"
  using assms by (induction sts) (auto simp: dev_ready_def split: if_splits)

lemma outb_upd: "outb p v (s\<lparr>ports := xs\<rparr>) = s\<lparr>ports := xs @ [Outb p v]\<rparr>"
  by (simp add: outb_def)

lemma idestart_ok:
  assumes "blockno (bufs s i) < FSSIZE" "n < length (filter dev_ready sts)"
  shows "\<exists>rest. idestart (Some i) sts s = Ok (rest, s\<lparr>ports := ports s @ request (bufs s i)\<rparr>) \<and> n \<le> length (filter dev_ready rest)"
proof -
  obtain r rest where r: "idewait False sts = Ok (r, rest)" "n \<le> length (filter dev_ready rest)" using idewait_ok [OF assms(2)] by blast
  have b: "\<not> FSSIZE \<le> blockno (bufs s i)" using assms(1) by simp
  have "idestart (Some i) sts (s\<lparr>ports := xs\<rparr>) = Ok (rest, s\<lparr>ports := xs @ request (bufs s i)\<rparr>)" for xs
    using b r(1) by (simp add: idestart_def Let_def outb_upd request_def)
  from this [of "ports s"] have "idestart (Some i) sts s = Ok (rest, s\<lparr>ports := ports s @ request (bufs s i)\<rparr>)" by simp
  then show ?thesis using r(2) by blast
qed

section \<open>Queueing and completing requests\<close>

definition idle :: "'z ide_st_scheme \<Rightarrow> bool" where
  "idle s \<longleftrightarrow> cpu_ok s \<and> (\<forall>l. lock_free l s) \<and> ncli s (cur s) = 0 \<and> (\<exists>p < length (procs s). cproc s (cur s) = Some p)"

definition holds :: "nat \<Rightarrow> 'z ide_st_scheme \<Rightarrow> bool" where
  "holds b s \<longleftrightarrow> slocked (sleeplocks s (SL_buf b)) \<and> slpid (sleeplocks s (SL_buf b)) = me s"

lemma enter_ide [simp]:
  "bufs (enter l s) = bufs s" "procs (enter l s) = procs s" "qnext (enter l s) = qnext s" "idequeue (enter l s) = idequeue s"
  "ports (enter l s) = ports s" "havedisk1 (enter l s) = havedisk1 s"
  "queue_ok (enter l s) qs = queue_ok s qs"
  by (simp_all add: enter_def queue_ok_def)

lemma leave_ide [simp]:
  "bufs (leave l s) = bufs s" "procs (leave l s) = procs s" "qnext (leave l s) = qnext s" "idequeue (leave l s) = idequeue s"
  "ports (leave l s) = ports s" "queue_ok (leave l s) qs = queue_ok s qs"
  by (simp_all add: leave_def queue_ok_def)

lemma ide_submit_ok:
  assumes s: "idle s" "holds b s" "queue_ok s qs" and b: "b \<notin> set qs" "b < NBUF" "pending (bufs s b)" "bdev (bufs s b) = 0 \<or> havedisk1 s"
    and r: "0 < length (filter dev_ready sts)"
  shows "\<exists>rest t. ide_submit b sts s = Ok (rest, t) \<and> queue_ok t (qs @ [b]) \<and> bufs t = bufs s \<and> procs t = procs s
    \<and> ports t = ports s @ (if qs = [] then request (bufs s b) else []) \<and> ide_check b t = Block"
proof -
  let ?e = "enter Ide_lock s"
  obtain p where p: "cproc s (cur s) = Some p" "p < length (procs s)" and i: "cpu_ok s" "\<And>l. lock_free l s" "ncli s (cur s) = 0"
    using s(1) by (auto simp: idle_def)
  have h: "holdingsleep (SL_buf b) s = Ok (True, s)" using holdingsleep_ok [OF i(1,2) p(1)] s(2) p(1) by (simp add: holds_def me_def)
  have d: "\<not> (bvalid (bufs s b) \<and> \<not> bdirty (bufs s b))" "\<not> (bdev (bufs s b) \<noteq> 0 \<and> \<not> havedisk1 s)" "blockno (bufs s b) < FSSIZE"
    using b(3,4) by (auto simp: pending_def)
  have qe: "queue_ok ?e qs" "pending (bufs ?e b)" using s(3) b(3) by simp_all
  obtain h' where h': "queue_put b ?e = Ok (?e\<lparr>qnext := h', idequeue := first (qs @ [b])\<rparr>)" (is "_ = Ok ?u")
    "queue_ok (?e\<lparr>qnext := h', idequeue := first (qs @ [b])\<rparr>) (qs @ [b])"
    using queue_put_ok [OF qe(1) b(1,2) qe(2)] by blast
  have sub: "ide_submit b sts s = (if qs = [] then idestart (Some b) sts ?u else Ok (sts, ?u))"
  proof -
    have "idequeue ?u = Some b \<longleftrightarrow> qs = []" using b(1) by (cases qs) auto
    then show ?thesis using h d(1,2) acquire_free [OF i(1,2)] h'(1) by (auto simp: ide_submit_def)
  qed
  have chk: "ide_check b t = Block" if "t = ?u\<lparr>ports := x\<rparr>" for t x
  proof -
    have "sleep (Buf_io_chan b) Ide_lock t = Block" unfolding that
      using i p by (intro sleep_blocks [of _ _ p]) (auto simp: enter_def lock_free_def cpu_ok_def cur_def)
    then show ?thesis using d(1) by (simp add: ide_check_def that)
  qed
  show ?thesis
  proof (cases "qs = []")
    case True
    obtain rest where "idestart (Some b) sts ?u = Ok (rest, ?u\<lparr>ports := ports s @ request (bufs s b)\<rparr>)"
      using idestart_ok [of ?u b 0 sts] d(3) r by auto
    then show ?thesis using sub True h'(2) chk [OF refl] by (auto simp: queue_ok_def)
  next
    case False
    have "?u = ?u\<lparr>ports := ports s\<rparr>" by simp
    then have "ide_check b ?u = Block" by (rule chk)
    then show ?thesis using sub False h'(2) by auto
  qed
qed

lemma ideintr_idle: "idle s \<Longrightarrow> queue_ok s [] \<Longrightarrow> ideintr sts din s = Ok (sts, s)"
proof -
  assume a: "idle s" "queue_ok s []"
  then have "release Ide_lock (enter Ide_lock s) = Ok s" "acquire Ide_lock s = Ok (enter Ide_lock s)"
    using acquire_release [of s Ide_lock] acquire_free [of s Ide_lock] by (simp_all add: idle_def)
  then show ?thesis using a(2) by (simp add: ideintr_def queue_ok_def)
qed

definition complete :: "int \<Rightarrow> block \<Rightarrow> buf \<Rightarrow> buf" where
  "complete r din q = (if \<not> bdirty q \<and> 0 \<le> r then q\<lparr>bdata := din\<rparr> else q)\<lparr>bvalid := True, bdirty := False\<rparr>"

lemma ideintr_ok:
  assumes s: "idle s" "queue_ok s (x # xs)" and r: "1 < length (filter dev_ready sts)"
  shows "\<exists>e rest t. ideintr sts din s = Ok (rest, t) \<and> queue_ok t xs \<and> bufs t = (bufs s)(x := complete e din (bufs s x))
    \<and> (\<not> bdirty (bufs s x) \<longrightarrow> (\<exists>sts'. idewait True sts = Ok (e, sts'))) \<and> procs t = procs (wakeup1 (Buf_io_chan x) s)
    \<and> ports t = ports s @ (case xs of [] \<Rightarrow> [] | y # _ \<Rightarrow> request (bufs s y))"
proof -
  let ?e = "enter Ide_lock s" and ?dirty = "bdirty (bufs s x)"
  have i: "cpu_ok s" "\<And>l. lock_free l s" "ncli s (cur s) = 0" using s(1) by (auto simp: idle_def)
  have q: "idequeue s = Some x" "qnext s x = first xs" "qlinked (qnext s) xs" "distinct (x # xs)" "\<forall>i \<in> set xs. i < NBUF \<and> pending (bufs s i)"
    using s(2) by (auto simp: queue_ok_def first_def split: list.splits)
  obtain e sts1 where w: "idewait True sts = Ok (e, sts1)" "1 \<le> length (filter dev_ready sts1)" using idewait_ok [OF r] by blast
  define sts2 where "sts2 = (if ?dirty then sts else sts1)"
  have r2: "0 < length (filter dev_ready sts2)" using r w(2) by (auto simp: sts2_def)
  let ?b = "(bufs s)(x := complete e din (bufs s x))"
  define s3 where "s3 = ?e\<lparr>idequeue := first xs, bufs := ?b\<rparr>"
  define u where "u = wakeup1 (Buf_io_chan x) s3"
  have wk: "wakeup (Buf_io_chan x) s3 = Ok u" unfolding u_def
    by (rule wakeup_eq) (use i in \<open>auto simp: s3_def enter_def lock_free_def cpu_ok_def cur_def\<close>)
  have u: "bufs u = ?b" "idequeue u = first xs" "ports u = ports s" "qnext u = qnext s" "procs u = procs (wakeup1 (Buf_io_chan x) s)"
    by (simp_all add: u_def s3_def wakeup1_def)
  have rel: "release Ide_lock v = Ok (leave Ide_lock v)" if "v = u\<lparr>ports := pt\<rparr>" for v pt
    by (rule release_held) (use i in \<open>auto simp: that u_def s3_def wakeup1_def enter_def lock_free_def cpu_ok_def cur_def\<close>)
  have start: "\<exists>rest. (if idequeue u \<noteq> None then idestart (idequeue u) sts2 u else Ok (sts2, u)) =
      Ok (rest, u\<lparr>ports := ports s @ (case xs of [] \<Rightarrow> [] | y # _ \<Rightarrow> request (bufs s y))\<rparr>)"
  proof (cases xs)
    case (Cons y ys)
    then have "bufs u y = bufs s y" "blockno (bufs s y) < FSSIZE" using u(1) q(4,5) by (auto simp: pending_def)
    then show ?thesis using idestart_ok [of u y 0 sts2] r2 u(2,3) Cons by auto
  qed (use u(2,3) in simp)
  then obtain rest where st: "(if idequeue u \<noteq> None then idestart (idequeue u) sts2 u else Ok (sts2, u)) =
      Ok (rest, u\<lparr>ports := ports s @ (case xs of [] \<Rightarrow> [] | y # _ \<Rightarrow> request (bufs s y))\<rparr>)" (is "_ = Ok (rest, ?v)") by blast
  have "ideintr sts din s = bnd (wakeup (Buf_io_chan x) s3) (\<lambda>s. bnd (if idequeue s \<noteq> None then idestart (idequeue s) sts2 s else Ok (sts2, s)) (\<lambda>(sts, s).
      bnd (release Ide_lock s) (\<lambda>s. Ok (sts, s))))"
    using q(1,2) w(1) acquire_free [OF i(1,2)] unfolding sts2_def
    by (cases ?dirty) (simp_all add: ideintr_def Let_def s3_def complete_def upd_buf_def)
  then have "ideintr sts din s = Ok (rest, leave Ide_lock ?v)" using wk st rel [OF refl] by simp
  moreover have "queue_ok ?v xs" using u q(3-5) by (auto simp: queue_ok_def)
  ultimately show ?thesis using u w(1) by (intro exI [of _ e] exI [of _ rest] exI [of _ "leave Ide_lock ?v"]) simp
qed

section \<open>Decoding a request\<close>

text \<open>The value last written to a register, and the request the registers hold, as the device reads them.\<close>

definition reg :: "nat \<Rightarrow> port_op list \<Rightarrow> u8" where
  "reg p ops = fold (\<lambda>op v. case op of Outb q x \<Rightarrow> if q = p then x else v | Outsl _ _ \<Rightarrow> v) ops 0"

definition lba :: "port_op list \<Rightarrow> u32" where
  "lba ops = ucast (reg 0x1f3 ops) OR push_bit 8 (ucast (reg 0x1f4 ops)) OR push_bit 16 (ucast (reg 0x1f5 ops))
     OR push_bit 24 (ucast (reg 0x1f6 ops AND 0x0f))"

lemma request_reg:
  "reg 0x1f3 (request q) = ucast (blockno q)" "reg 0x1f4 (request q) = ucast (drop_bit 8 (blockno q))"
  "reg 0x1f5 (request q) = ucast (drop_bit 16 (blockno q))"
  "reg 0x1f6 (request q) = 0xe0 OR push_bit 4 (ucast (bdev q AND 1)) OR ucast (drop_bit 24 (blockno q) AND 0x0f)"
  "reg 0x1f7 (request q) = (if bdirty q then 0x30 else 0x20)"
  by (simp_all add: reg_def request_def)

lemma high_bits: "blockno q < FSSIZE \<Longrightarrow> 10 \<le> n \<Longrightarrow> \<not> bit (blockno q) n"
proof -
  assume a: "blockno q < FSSIZE" "10 \<le> n"
  have "unat (blockno q) < 2 ^ 10" using a(1) by (simp add: word_less_nat_alt)
  then have "take_bit 10 (blockno q) = blockno q" by (simp add: word_unat_eq_iff unsigned_take_bit_eq take_bit_nat_eq_self)
  then show ?thesis using a(2) by (metis bit_take_bit_iff not_le)
qed

lemma request_decode:
  assumes "blockno q < FSSIZE"
  shows "lba (request q) = blockno q" "bit (reg 0x1f6 (request q)) 4 = odd (bdev q)"
proof -
  have z: "drop_bit 24 (blockno q) = 0" by (rule bit_word_eqI) (use high_bits [OF assms] in \<open>simp add: bit_simps\<close>)
  have d: "(0xe0 OR push_bit 4 (ucast (bdev q AND 1)) OR ucast ((0 :: u32) AND 0x0f)) AND 0x0f = (0 :: u8)"
    by (cases "odd (bdev q)") (simp_all add: and_one_eq odd_iff_mod_2_eq_one even_iff_mod_2_eq_zero)
  have low: "n < 10" if "bit (blockno q) n" for n using high_bits [OF assms, of n] that by (meson not_le)
  show "lba (request q) = blockno q"
    unfolding lba_def request_reg z d
  proof (rule bit_word_eqI)
    fix n
    show "bit (ucast (ucast (blockno q) :: u8) OR push_bit 8 (ucast (ucast (drop_bit 8 (blockno q)) :: u8))
        OR push_bit 16 (ucast (ucast (drop_bit 16 (blockno q)) :: u8)) OR push_bit 24 (ucast (0 :: u8)) :: u32) n = bit (blockno q) n"
      using low [of n] by (auto simp: bit_simps)
  qed
  show "bit (reg 0x1f6 (request q)) 4 = odd (bdev q)" unfolding request_reg z
    by (cases "odd (bdev q)") (simp_all add: and_one_eq odd_iff_mod_2_eq_one even_iff_mod_2_eq_zero)
qed

section \<open>The driver among processes\<close>

text \<open>
  What the rest of the kernel may do between two calls of the driver: everything but touch the
  queue, the ports or a buffer that is queued, which its owner holds locked.
\<close>

definition meanwhile :: "ide_st \<Rightarrow> ide_st \<Rightarrow> nat set \<Rightarrow> bool" where
  "meanwhile s t qs \<longleftrightarrow> idle t \<and> qnext t = qnext s \<and> idequeue t = idequeue s \<and> ports t = ports s \<and> (\<forall>i \<in> qs. bufs t i = bufs s i)"

text \<open>
  The requests submitted so far, with the buffer as it was, and how many of them are completed.
  A submission is as \<open>bread\<close> and \<open>bwrite\<close> make it: of a buffer the process holds, which is
  therefore not queued, for a block of the disk.
\<close>

inductive ide_run :: "ide_st \<Rightarrow> (nat \<times> buf) list \<Rightarrow> nat \<Rightarrow> bool" where
  run_start: "idle s \<Longrightarrow> idequeue s = None \<Longrightarrow> ports s = [] \<Longrightarrow> ide_run s [] 0"
| run_submit: "ide_run s js n \<Longrightarrow> holds b s \<Longrightarrow> b \<notin> fst ` set (drop n js) \<Longrightarrow> b < NBUF \<Longrightarrow> pending (bufs s b)
    \<Longrightarrow> bdev (bufs s b) = 0 \<or> havedisk1 s \<Longrightarrow> 0 < length (filter dev_ready sts) \<Longrightarrow> ide_submit b sts s = Ok (rest, t)
    \<Longrightarrow> meanwhile t u (insert b (fst ` set (drop n js))) \<Longrightarrow> ide_run u (js @ [(b, bufs s b)]) n"
| run_intr: "ide_run s js n \<Longrightarrow> 1 < length (filter dev_ready sts) \<Longrightarrow> ideintr sts din s = Ok (rest, t)
    \<Longrightarrow> meanwhile t u (fst ` set (drop (Suc n) js)) \<Longrightarrow> ide_run u js (if n < length js then Suc n else n)"

definition run_inv :: "ide_st \<Rightarrow> (nat \<times> buf) list \<Rightarrow> nat \<Rightarrow> bool" where
  "run_inv s js n \<longleftrightarrow> n \<le> length js \<and> idle s \<and> queue_ok s (map fst (drop n js)) \<and> (\<forall>(i, q) \<in> set (drop n js). bufs s i = q)
     \<and> ports s = concat (map (request \<circ> snd) (take (if n < length js then Suc n else n) js))"

lemma meanwhile_queue:
  "meanwhile s t Q \<Longrightarrow> set qs \<subseteq> Q \<Longrightarrow> queue_ok s qs \<Longrightarrow> queue_ok t qs" "meanwhile s t Q \<Longrightarrow> idle t" "meanwhile s t Q \<Longrightarrow> ports t = ports s"
  "meanwhile s t Q \<Longrightarrow> i \<in> Q \<Longrightarrow> bufs t i = bufs s i"
  by (auto simp: meanwhile_def queue_ok_def)

lemma run_submit_inv:
  assumes "run_inv s js n" "holds b s" "b \<notin> fst ` set (drop n js)" "b < NBUF" "pending (bufs s b)" "bdev (bufs s b) = 0 \<or> havedisk1 s"
    "0 < length (filter dev_ready sts)" "ide_submit b sts s = Ok (rest, t)" "meanwhile t u (insert b (fst ` set (drop n js)))"
  shows "run_inv u (js @ [(b, bufs s b)]) n"
proof -
  let ?qs = "map fst (drop n js)"
  have i: "n \<le> length js" "idle s" "queue_ok s ?qs" "\<forall>(i, q) \<in> set (drop n js). bufs s i = q"
    "ports s = concat (map (request \<circ> snd) (take (if n < length js then Suc n else n) js))" using assms(1) by (simp_all add: run_inv_def)
  have bq: "b \<notin> set ?qs" using assms(3) by simp
  have t: "queue_ok t (?qs @ [b])" "bufs t = bufs s" "ports t = ports s @ (if ?qs = [] then request (bufs s b) else [])"
    using ide_submit_ok [OF i(2) assms(2) i(3) bq assms(4-7)] assms(8) by auto
  have "queue_ok u (?qs @ [b])" using meanwhile_queue(1) [OF assms(9) _ t(1)] by auto
  moreover have "bufs u j = q" if "(j, q) \<in> set (drop n js) \<or> (j, q) = (b, bufs s b)" for j q
    using that i(4) t(2) meanwhile_queue(4) [OF assms(9), of j] by force
  moreover have "ports u = concat (map (request \<circ> snd) (take (Suc n) (js @ [(b, bufs s b)])))"
    using t(3) meanwhile_queue(3) [OF assms(9)] i(1,5) by (cases "n = length js") auto
  ultimately show ?thesis using meanwhile_queue(2) [OF assms(9)] i(1) by (auto simp: run_inv_def)
qed

lemma run_intr_inv:
  assumes "run_inv s js n" "1 < length (filter dev_ready sts)" "ideintr sts din s = Ok (rest, t)" "meanwhile t u (fst ` set (drop (Suc n) js))"
  shows "run_inv u js (if n < length js then Suc n else n)"
proof -
  have i: "n \<le> length js" "idle s" "queue_ok s (map fst (drop n js))" "\<forall>(i, q) \<in> set (drop n js). bufs s i = q"
    "ports s = concat (map (request \<circ> snd) (take (if n < length js then Suc n else n) js))" using assms(1) by (simp_all add: run_inv_def)
  show ?thesis
  proof (cases "n < length js")
    case False
    then have "drop n js = []" "t = s" using i(1-3) ideintr_idle [of s sts din] assms(3) by auto
    then show ?thesis using False i assms(4) meanwhile_queue(1) [OF assms(4), of "[]"] meanwhile_queue(2,3) [OF assms(4)] by (auto simp: run_inv_def)
  next
    case True
    obtain x q where xq: "js ! n = (x, q)" by (cases "js ! n")
    have dr: "drop n js = (x, q) # drop (Suc n) js" using True xq by (simp add: Cons_nth_drop_Suc [symmetric])
    let ?xs = "map fst (drop (Suc n) js)"
    have q: "queue_ok s (x # ?xs)" using i(3) dr by simp
    obtain e where t: "queue_ok t ?xs" "bufs t = (bufs s)(x := complete e din (bufs s x))"
      "ports t = ports s @ (case ?xs of [] \<Rightarrow> [] | y # _ \<Rightarrow> request (bufs s y))"
      using ideintr_ok [OF i(2) q assms(2), of din] assms(3) by auto
    have x: "x \<notin> set ?xs" using q by (simp add: queue_ok_def)
    have b: "bufs u j = r" if "(j, r) \<in> set (drop (Suc n) js)" for j r
      using that i(4) dr t(2) x meanwhile_queue(4) [OF assms(4), of j] by force
    have "ports u = concat (map (request \<circ> snd) (take (if Suc n < length js then Suc (Suc n) else Suc n) js))"
    proof (cases "Suc n < length js")
      case True
      obtain y r where yr: "js ! Suc n = (y, r)" by (cases "js ! Suc n")
      have d2: "drop (Suc n) js = (y, r) # drop (Suc (Suc n)) js" using True yr by (simp add: Cons_nth_drop_Suc [symmetric])
      have "bufs s y = r" using i(4) dr d2 by auto
      then have "ports t = ports s @ request r" using t(3) d2 by simp
      then show ?thesis using True yr i(5) meanwhile_queue(3) [OF assms(4)] by (simp add: take_Suc_conv_app_nth)
    next
      case False
      then have "drop (Suc n) js = []" by simp
      then show ?thesis using False True t(3) i(5) meanwhile_queue(3) [OF assms(4)] by simp
    qed
    moreover have "queue_ok u ?xs" using meanwhile_queue(1) [OF assms(4) _ t(1)] by simp
    ultimately show ?thesis using True b meanwhile_queue(2) [OF assms(4)] unfolding run_inv_def by auto
  qed
qed

lemma ide_run_inv: "ide_run s js n \<Longrightarrow> run_inv s js n"
proof (induction rule: ide_run.induct)
  case (run_start s)
  then show ?case by (simp add: run_inv_def queue_ok_def)
next
  case run_submit
  then show ?case by (intro run_submit_inv)
next
  case run_intr
  then show ?case by (intro run_intr_inv)
qed

text \<open>
  C10. The disk serves requests one at a time and in order. Whatever processes submit and whenever
  the disk interrupts, what the driver has sent to the device is exactly the requests
  submitted, in the order of submission, up to the one the device is working on, which is the
  first that is not completed; the registers of each decode to its drive and block. The next
  submission is queued last and its process goes to sleep; the next interrupt completes the
  first request, with the data of the sector for a read unless the device reports an error,
  leaves all other buffers alone and wakes exactly the processes that wait for it.
\<close>

theorem ide_serves_in_order:
  assumes "ide_run s js n"
  shows "ports s = concat (map (request \<circ> snd) (take (if n < length js then Suc n else n) js)) \<and> queue_ok s (map fst (drop n js))
    \<and> (\<forall>(i, q) \<in> set (drop n js). lba (request q) = blockno q \<and> bit (reg 0x1f6 (request q)) 4 = odd (bdev q))
    \<and> (\<forall>b sts. holds b s \<and> b \<notin> fst ` set (drop n js) \<and> b < NBUF \<and> pending (bufs s b) \<and> (bdev (bufs s b) = 0 \<or> havedisk1 s)
        \<and> 0 < length (filter dev_ready sts) \<longrightarrow> iderw_ide b sts s = Block)
    \<and> (\<forall>din sts. n < length js \<and> 1 < length (filter dev_ready sts) \<longrightarrow> (\<exists>rest t. ideintr sts din s = Ok (rest, t)
        \<and> procs t = procs (wakeup1 (Buf_io_chan (fst (js ! n))) s)
        \<and> (\<exists>e. bufs t = (bufs s)(fst (js ! n) := complete e din (snd (js ! n)))
            \<and> (\<not> bdirty (snd (js ! n)) \<longrightarrow> (\<exists>sts'. idewait True sts = Ok (e, sts'))))))"
proof -
  have i: "n \<le> length js" "idle s" "queue_ok s (map fst (drop n js))" "\<forall>(i, q) \<in> set (drop n js). bufs s i = q"
    "ports s = concat (map (request \<circ> snd) (take (if n < length js then Suc n else n) js))" using ide_run_inv [OF assms] by (simp_all add: run_inv_def)
  have "blockno q < FSSIZE" if "(i, q) \<in> set (drop n js)" for i q
    using that i(3,4) by (force simp: queue_ok_def pending_def)
  then have dec: "\<forall>(i, q) \<in> set (drop n js). lba (request q) = blockno q \<and> bit (reg 0x1f6 (request q)) 4 = odd (bdev q)"
    using request_decode by blast
  have sub: "iderw_ide b sts s = Block" if "holds b s" "b \<notin> fst ` set (drop n js)" "b < NBUF" "pending (bufs s b)" "bdev (bufs s b) = 0 \<or> havedisk1 s"
    "0 < length (filter dev_ready sts)" for b sts
    using ide_submit_ok [OF i(2) that(1) i(3) _ that(3-6)] that(2) by (auto simp: iderw_ide_def)
  have "\<exists>rest t. ideintr sts din s = Ok (rest, t) \<and> procs t = procs (wakeup1 (Buf_io_chan (fst (js ! n))) s)
      \<and> (\<exists>e. bufs t = (bufs s)(fst (js ! n) := complete e din (snd (js ! n)))
          \<and> (\<not> bdirty (snd (js ! n)) \<longrightarrow> (\<exists>sts'. idewait True sts = Ok (e, sts'))))" if n: "n < length js" and r: "1 < length (filter dev_ready sts)" for din sts
  proof -
    have dr: "drop n js = js ! n # drop (Suc n) js" using n by (simp add: Cons_nth_drop_Suc)
    then have q: "queue_ok s (fst (js ! n) # map fst (drop (Suc n) js))" and b: "bufs s (fst (js ! n)) = snd (js ! n)" using i(3,4) by auto
    show ?thesis using ideintr_ok [OF i(2) q r, of din] unfolding b by blast
  qed
  then show ?thesis using i(3,5) dec sub by blast
qed

definition ide0 :: ide_st where
  "ide0 = bio_st.extend (bio0\<lparr>bufs := (bufs bio0)(0 := (bufs bio0 0)\<lparr>bvalid := False, bdirty := False, bdev := 0, blockno := 5\<rparr>),
       sleeplocks := (sleeplocks bio0)(SL_buf 0 := \<lparr>slocked = True, slname = ''buffer'', slpid = me bio0\<rparr>)\<rparr>)
     \<lparr>qnext = \<lambda>_. None, idequeue = None, havedisk1 = False, ports = []\<rparr>"

lemma ide0_idle: "idle ide0" "idle (ide0\<lparr>qnext := h, idequeue := i, ports := p\<rparr>)" "holds 0 ide0"
proof -
  have b: "cpu_ok bio0" "\<And>l. lock_free l bio0" "\<exists>p < length (procs bio0). cproc bio0 (cur bio0) = Some p"
    using bio_okD(2,3,4) [OF bio0_ok(1)] by blast+
  have n: "ncli bio0 (cur bio0) = 0"
    by (simp add: bio0_def binit_def Let_def initlock_def binit_loop_keeps cons_st.defs cons0_def slock_st.defs ptable_st.defs ptable0_def
      kmem_st.defs vm0_def kmem0_def kst.defs kst0_def)
  show "idle ide0" "idle (ide0\<lparr>qnext := h, idequeue := i, ports := p\<rparr>)"
    using b n by (simp_all add: idle_def ide0_def bio_st.defs cpu_ok_def lock_free_def cur_def)
  show "holds 0 ide0" by (simp add: holds_def ide0_def bio_st.defs me_def cur_def)
qed

theorem ide_serves_in_order_witness:
  "\<exists>u rest t. ide_run u [(0, bufs ide0 0)] 0 \<and> ideintr [0x40, 0x40] (\<lambda>_. 7) u = Ok (rest, t) \<and> bvalid (bufs t 0) \<and> bdata (bufs t 0) = (\<lambda>_. 7)"
proof -
  have f: "bvalid (bufs ide0 0) = False" "bdirty (bufs ide0 0) = False" "bdev (bufs ide0 0) = 0" "blockno (bufs ide0 0) = 5"
    "idequeue ide0 = None" "ports ide0 = []" by (simp_all add: ide0_def bio_st.defs)
  have p: "pending (bufs ide0 0)" by (simp add: pending_def f)
  have r0: "ide_run ide0 [] 0" by (rule run_start [OF ide0_idle(1) f(5,6)])
  have d: "dev_ready 0x40" by (simp add: dev_ready_def)
  have q: "queue_ok ide0 []" by (simp add: queue_ok_def f)
  obtain rest t where t: "ide_submit 0 [0x40] ide0 = Ok (rest, t)" "bufs t = bufs ide0"
    using ide_submit_ok [OF ide0_idle(1,3) q, of "[0x40]"] p f d by auto
  let ?u = "ide0\<lparr>qnext := qnext t, idequeue := idequeue t, ports := ports t\<rparr>"
  have "meanwhile t ?u (insert 0 (fst ` set (drop 0 ([] :: (nat \<times> buf) list))))" using ide0_idle(2) t(2) by (simp add: meanwhile_def)
  then have r1: "ide_run ?u ([] @ [(0, bufs ide0 0)]) 0"
    using run_submit [OF r0 ide0_idle(3) _ _ p _ _ t(1)] f d by simp
  have "\<exists>rest v. ideintr [0x40, 0x40] (\<lambda>_. 7) ?u = Ok (rest, v)
      \<and> (\<exists>e. bufs v = (bufs ?u)(0 := complete e (\<lambda>_. 7) (bufs ide0 0)) \<and> (\<exists>sts'. idewait True [0x40, 0x40] = Ok (e, sts')))"
  proof -
    have n: "0 < length ([] @ [(0, bufs ide0 0)])" "1 < length (filter dev_ready [0x40, 0x40])" using d by simp_all
    note o = ide_serves_in_order [OF r1, THEN conjunct2, THEN conjunct2, THEN conjunct2, THEN conjunct2, rule_format, OF conjI [OF n], of "\<lambda>_. 7"]
    show ?thesis using o f(2) by (elim exE conjE) simp
  qed
  then obtain rest' v e sts' where v: "ideintr [0x40, 0x40] (\<lambda>_. 7) ?u = Ok (rest', v)" "bufs v = (bufs ?u)(0 := complete e (\<lambda>_. 7) (bufs ide0 0))"
    "idewait True [0x40, 0x40] = Ok (e, sts')" by blast
  have "e = 0" using v(3) by simp
  then show ?thesis using r1 v(1,2) f(2) by (intro exI [of _ ?u] exI [of _ rest'] exI [of _ v]) (simp add: complete_def)
qed

end
