(* ===== verification/Spec2Isabelle.thy ===== *)
theory Spec2Isabelle
  imports Lab_Practice Lazy Trap Mkfs_Kernel Shell Umalloc Ide
begin

text \<open>
  Verification library for an operating-systems course repository: the teaching kernel xv6
  (\<open>src/xv6-public-master\<close>) with the changes made to it in the labs, the variants of that kernel
  under \<open>src/Lab-Memory Management in xv6\<close>, and the user-level memory allocators of
  \<open>src/Lab-Memory Management\<close>.

  \<^bold>\<open>The program and its parts.\<close> The allocators (\<open>alloc.c\<close>, \<open>ealloc.c\<close>, the practice
  \<open>ealloc.c\<close>) are three independent C libraries over \<open>mmap\<close>. The kernel is a stack of
  components, each calling those below it: spin locks and CPU lookup; the physical page
  allocator, whose free list is threaded through the free pages; page tables, which take pages
  from the allocator; the process table with \<open>sleep\<close>, \<open>wakeup\<close> and the scheduler; sleep locks;
  the console; the buffer cache over a block device; the write-ahead log over the buffer cache;
  the file system (bitmap, inodes, directories, paths) inside transactions of the log; pipes and
  open files; fetching of system call arguments; the file system calls; \<open>exec\<close>; \<open>fork\<close>, \<open>exit\<close>
  and the other process calls; and the trap handler, which dispatches system calls and
  interrupts to all of them. The lab kernels replace some of these parts. The disk driver
  keeps a queue of buffers below the buffer cache. The user programs \<open>grep\<close>, \<open>wc\<close> and \<open>sh\<close> and
  the user-level \<open>malloc\<close> reach the kernel through system calls only. \<open>mkfs\<close> runs on the host and meets
  the kernel in the disk image it writes.

  \<^bold>\<open>State.\<close> Every kernel component adds its globals to one extensible record, so that an
  operation applies unchanged to the states of the components above it:
  \<open>kst\<close> (CPUs, interrupt flag, spin locks) \<open>\<subset>\<close> \<open>kmem_st\<close> (physical memory, free list) \<open>\<subset>\<close>
  \<open>ptable_st\<close> (process table, \<open>cr3\<close>) \<open>\<subset>\<close> \<open>slock_st\<close> (sleep locks) \<open>\<subset>\<close> \<open>cons_st\<close> (screen, serial
  output, input ring) \<open>\<subset>\<close> \<open>bio_st\<close> (buffers and the disk with its write history) \<open>\<subset>\<close> \<open>log_st\<close>
  \<open>\<subset>\<close> \<open>fs_st\<close> (inode cache) \<open>\<subset>\<close> \<open>pipe_st\<close> \<open>\<subset>\<close> \<open>file_st\<close> \<open>\<subset>\<close> \<open>sys_st\<close> (ticks).
  \<open>cow_st\<close> extends \<open>kmem_st\<close> by the reference counts of the copy-on-write kernel.
  Memory is a total function from 32-bit addresses to bytes; page tables, free-list links, trap
  frames and user memory all live in it. Pointers into static tables are indices.

  \<^bold>\<open>Integers.\<close> Addresses, sizes, block and inode numbers, the counters of pipes and of the console,
  ticks, the reference counts of pages and \<open>nextpid\<close> are words of their C width, so that they wrap
  around as they do in C; where the code reads one as a signed number, the model takes its \<open>sint\<close>.
  Mathematical integers stand for C \<open>int\<close>s that stay small whatever the program does:
  \<open>ncli\<close> (locks held), \<open>iref\<close> and \<open>fref\<close> (references from the tables of open files and
  processes), \<open>outstanding\<close>, \<open>lh_n\<close> and \<open>log_size\<close> (bounded by the log), the cursor, the lengths in
  the tables of the allocators (checked against a page) and system call results. \<open>pid\<close> is the value
  of an \<open>int\<close>, given to it from \<open>nextpid\<close>. The counters of \<open>wc\<close> are mathematical
  integers too, so they are followed for fewer than \<open>2^31\<close> characters only.

  \<^bold>\<open>Outcomes.\<close> A call returns \<open>Ok\<close> with its result and the new
  state, \<open>Panic\<close> with the message of \<open>panic\<close> (a null dereference in the kernel is a panic of its
  own), or \<open>Block\<close>: it spins or sleeps, so that what follows depends on other threads. Where the
  code goes on after a sleep or a context switch, the part before and the part after it are
  definitions of their own.

  \<^bold>\<open>Theories\<close> (in import order; paths under \<open>src/\<close>).
  \<^item> \<open>Prelude\<close>: outcomes, table scans, shared facts.
  \<^item> \<open>Lab_Alloc\<close>, \<open>Lab_Ealloc\<close>, \<open>Lab_Practice\<close>: the allocators. Blocks handed out stay disjoint and
    are exactly the marked bytes under every sequence of calls, first fit and best fit,
    \<open>dealloc\<close> after \<open>alloc\<close>, and the defects found.
  \<^item> \<open>Kstring\<close>: \<open>string.c\<close> on byte memory. \<open>Mmu\<close>: the macros of \<open>mmu.h\<close>, \<open>memlayout.h\<close>.
  \<^item> \<open>Spinlock\<close>: \<open>spinlock.c\<close>; the protocol of one path, and mutual exclusion as an invariant of
    the step relation \<open>lock_step\<close>, in which any number of CPUs interleave.
  \<^item> \<open>Kalloc\<close>, \<open>Cow_Kalloc\<close>: \<open>kalloc.c\<close> of both kernels. The locale \<open>page_alloc\<close> is what page-table
    code relies on; it is interpreted on both allocators (\<open>base\<close>, \<open>cow\<close>).
  \<^item> \<open>Vm\<close>: \<open>vm.c\<close>, with the allocator as an argument, and its lemmas inside \<open>page_alloc\<close>.
    \<open>Cow_Vm\<close>: copy-on-write \<open>copyuvm\<close> and page-fault handler.
  \<^item> \<open>Ptable\<close>: \<open>proc.c\<close> below the file system; the step relation \<open>sw_step\<close> interleaves a sleeper
    and a waker. \<open>Sleeplock\<close>: \<open>sleeplock.c\<close>. \<open>Console\<close>: \<open>console.c\<close>.
  \<^item> \<open>Bio\<close>: \<open>bio.c\<close> over \<open>memide.c\<close>; the circular list refines a least-recently-used list. The
    locale \<open>block_cache\<close> is the contract of the cache, interpreted as \<open>bc\<close>.
  \<^item> \<open>Log\<close>: \<open>log.c\<close>; commit and recovery inside \<open>block_cache\<close>, crash atomicity of every block outside the log (\<open>log_area\<close> is exactly the
    blocks of the log, header included), and the locale
    \<open>transaction\<close> (an extension of \<open>block_cache\<close> by \<open>log_write\<close>), interpreted as \<open>tx\<close>.
  \<^item> \<open>Fs\<close>: \<open>fs.c\<close>; \<open>Fs_Laws\<close>: its laws for the bitmap and the inode table, over \<open>tx\<close>; \<open>Fs_Data\<close>: file
    content, with the map from the blocks of a file to blocks of the disk, that \<open>writei\<close> and
    \<open>readi\<close> are inverse and disturb nothing else. A write may start anywhere in the file or at its end and
    end anywhere up to \<open>MAXFILE\<close> blocks; \<open>blocks_for\<close> and \<open>log_cost\<close> say how many free blocks of the disk and
    of the log it takes, the indirect block included. \<open>Fs_Dir\<close>: directories as maps from names to inode
    numbers, refined by \<open>dirlookup\<close> and \<open>dirlink\<close>.
  \<^item> \<open>Mkfs\<close>: \<open>mkfs.c\<close>, and that the image holds every file with its bytes, each block in use in exactly one
    place and marked in the bitmap. \<open>Mkfs_Kernel\<close>: \<open>fs.c\<close> on that image, where the invariants of \<open>Fs_Laws\<close>,
    \<open>Fs_Data\<close> and \<open>Fs_Dir\<close> hold, so that the kernel finds the files by name and reads them.
  \<^item> \<open>Pipe\<close>: \<open>pipe.c\<close>; the locale \<open>bounded_queue\<close> with the loops over a queue, interpreted as \<open>pq\<close>
    on the ring buffer. \<open>File\<close>: \<open>file.c\<close>.
  \<^item> \<open>Syscall\<close>, \<open>Sysfile\<close>, \<open>Exec\<close>, \<open>Process\<close>, \<open>Trap\<close>: \<open>syscall.c\<close>, \<open>sysfile.c\<close>, \<open>exec.c\<close>, the rest of
    \<open>proc.c\<close> with \<open>sysproc.c\<close>, and \<open>trap.c\<close>.
  \<^item> \<open>Lazy\<close>: the kernel of \<open>Activity B\<close>, in which \<open>mmap\<close> reserves pages that the first access maps,
    and takes free pages for page tables only. It is followed for addresses below \<open>KERNBASE\<close>: above, \<open>mmap\<close>
    removes the mappings that the kernel itself runs in.
  \<^item> \<open>User_Text\<close>: the pattern matcher and the line buffer of \<open>grep.c\<close>, proved against the language of
    the pattern, and the counters of \<open>wc.c\<close>. \<open>Shell\<close>: the command parser of \<open>sh.c\<close>; it terminates
    on every input and reads back what a printer for commands writes.
  \<^item> \<open>Umalloc\<close>: the allocator of \<open>umalloc.c\<close> for user programs. The circular free list and the
    blocks handed out partition the memory obtained by \<open>sbrk\<close> under every sequence of calls; the
    loops are partial functions, proved to return on every reachable list.
  \<^item> \<open>Ide\<close>: the request queue of \<open>ide.c\<close>. \<open>ideintr\<close> completes the requests in the order in which
    \<open>iderw\<close> queued them, and the disk always works on the head of the queue.

  \<^bold>\<open>Bounds and fuel.\<close> Loops are structural recursions or functions with a termination proof
  where the code's bound is visible. Loops over addresses in steps of a page take at most
  \<open>2^20\<close> iterations, because an address has 32 bits; walks of the free list and of the buffer
  list get one step more than the structure can have elements, and the theorems about them
  state that the result is \<open>Ok\<close>, so the fuel is enough. Running out of fuel is \<open>Block\<close>, as for
  a loop that never ends. The mutually recursive functions of the shell parser get a depth; four
  levels for every character of the line and a few more are proved to be enough. The search loops
  of \<open>umalloc.c\<close> have no visible bound and are partial functions into \<open>option\<close>, \<open>None\<close> being a
  call that does not return, because a loop never ends or because the kernel kills the process
  at a store outside its memory; the walk of the disk queue gets one step for every buffer.

  \<^bold>\<open>Not modelled.\<close> Start-up code and the drivers that move values between device registers
  (\<open>main.c\<close>, \<open>bootmain.c\<close>, \<open>lapic.c\<close>, \<open>ioapic.c\<close>, \<open>picirq.c\<close>, \<open>mp.c\<close>, \<open>uart.c\<close>), assembly,
  \<open>seginit\<close> and the interrupt descriptor table; what the devices deliver to an interrupt handler
  is an argument. Timing, caches and the memory ordering of several CPUs are outside the
  model. The sequential theorems of the kernel are about one path; interleavings are modelled
  where the code's correctness rests on them, for spin locks and for \<open>sleep\<close> and \<open>wakeup\<close>.
  Of the user programs, \<open>runcmd\<close> of the shell, \<open>printf.c\<close> and the programs that only pass
  data between system calls are left out, as are the test programs and the second
  copy-on-write kernel (\<open>CoW Implement/Himzu\<close>), of which only the defect that its reference
  counts are indexed out of bounds is reported.
\<close>

end
